(* ===== verification/Prelude.thy ===== *)
theory Prelude
  imports Main "HOL-Library.Word" "HOL-Library.Monad_Syntax"
begin

text \<open>
  What the components share: names for the C types of the sources, the conversions C performs on
  them, and the list and option lemmas that several component proofs use.

  Conventions of the whole development.
  \<^item> A C function whose execution may hit a failed \<^verbatim>\<open>BUG_ON\<close> (which aborts), an out of bounds
    access, a use of a freed object or a null dereference returns an \<open>option\<close>; \<open>None\<close> is that
    fault. Writing such code uses the \<open>do\<close> notation of the option monad with the state passed
    explicitly.
  \<^item> A null-terminated C string is a \<open>string\<close> without the terminator; \<open>c_at s i\<close> reads the byte at
    index \<open>i\<close>, gives the terminator at \<open>length s\<close> and faults beyond it.
  \<^item> \<open>unsigned int\<close> values that are used bitwise are \<open>32 word\<close>; counters are \<open>nat\<close> or \<open>int\<close> with
    the wrap-around written out.
\<close>

type_synonym u8 = "8 word"
type_synonym u16 = "16 word"
type_synonym u32 = "32 word"

text \<open>The collection of facts that evaluate the fault monad.\<close>

named_theorems fault_simps \<open>rewrite rules of the fault monad\<close>

text \<open>Conversion of a mathematical integer to a C \<open>int\<close> (two's complement, 32 bits).\<close>

definition c_int :: "int \<Rightarrow> int" where
  "c_int x = (x + 2 ^ 31) mod 2 ^ 32 - 2 ^ 31"

text \<open>C's integer division, which truncates towards zero.\<close>

definition c_div :: "int \<Rightarrow> int \<Rightarrow> int" where
  "c_div a b = sgn a * sgn b * (\<bar>a\<bar> div \<bar>b\<bar>)"

text \<open>A check that aborts: \<open>guard p s\<close> is the state when \<open>p\<close> holds and the fault otherwise.\<close>

definition bug_unless :: "bool \<Rightarrow> unit option" where
  "bug_unless p = (if p then Some () else None)"

text \<open>A test of a pointer that may be null: \<open>c && p(c)\<close>.\<close>

definition opt_is :: "('a \<Rightarrow> bool) \<Rightarrow> 'a option \<Rightarrow> bool" where
  "opt_is p c = (case c of None \<Rightarrow> False | Some x \<Rightarrow> p x)"

definition c_at :: "string \<Rightarrow> nat \<Rightarrow> char option" where
  "c_at s i = (if i < length s then Some (s ! i) else if i = length s then Some (CHR 0x00) else None)"

text \<open>The part of an array that a write of \<open>xs\<close> at offset \<open>off\<close> replaces.\<close>

definition overwrite :: "'a list \<Rightarrow> nat \<Rightarrow> 'a list \<Rightarrow> 'a list" where
  "overwrite d off xs = take off d @ xs @ drop (off + length xs) d"

lemma bug_unless_Some [simp, fault_simps]: "bug_unless p = Some u \<longleftrightarrow> p"
  by (simp add: bug_unless_def)

lemma bug_unless_None [simp, fault_simps]: "bug_unless p = None \<longleftrightarrow> \<not> p"
  by (simp add: bug_unless_def)

lemma bug_unless_True [simp, fault_simps]: "bug_unless True = Some ()"
  by (simp add: bug_unless_def)

lemma bug_unless_False [simp, fault_simps]: "bug_unless False = None"
  by (simp add: bug_unless_def)

lemma bug_unless_bind [fault_simps]: "(bug_unless p \<bind> f) = (if p then f () else None)"
  by (simp add: bug_unless_def)

lemma c_int_id [simp]: "- (2 ^ 31) \<le> x \<Longrightarrow> x < 2 ^ 31 \<Longrightarrow> c_int x = x"
  by (simp add: c_int_def)

lemma c_int_range: "- (2 ^ 31) \<le> c_int x \<and> c_int x < 2 ^ 31"
proof -
  have "0 \<le> (x + 2 ^ 31) mod 2 ^ 32" "(x + 2 ^ 31) mod 2 ^ 32 < 2 ^ 32"
    by simp_all
  then show ?thesis unfolding c_int_def by simp
qed

lemma c_div_nonneg: "0 \<le> a \<Longrightarrow> 0 < b \<Longrightarrow> c_div a b = a div b"
  by (cases "a = 0") (simp_all add: c_div_def)

lemma c_div_neg: "a < 0 \<Longrightarrow> 0 < b \<Longrightarrow> c_div a b = - (- a div b)"
  by (simp add: c_div_def)

lemma length_overwrite [simp]:
  "off + length xs \<le> length d \<Longrightarrow> length (overwrite d off xs) = length d"
  by (simp add: overwrite_def)

lemma take_overwrite [simp]:
  "off + length xs \<le> length d \<Longrightarrow> take (off + length xs) (overwrite d off xs) = take off d @ xs"
  by (simp add: overwrite_def)

text \<open>Updating element \<open>k\<close> of a list seen from position \<open>m\<close>.\<close>

lemma mod_add_less_eq:
  fixes m k n :: nat
  assumes "m < n" and "k < n"
  shows "(m + k) mod n = (if m + k < n then m + k else m + k - n)"
  using assms by (simp add: mod_if)

lemma mod_add_inj:
  fixes m j k n :: nat
  assumes "m < n" and "j < n" and "k < n" and "(m + j) mod n = (m + k) mod n"
  shows "j = k"
  using assms by (auto simp: mod_add_less_eq split: if_splits)

lemma rotate_list_update:
  assumes "k < length xs" and "m < length xs"
  shows "rotate m (xs[(m + k) mod length xs := y]) = (rotate m xs)[k := y]"
proof (rule nth_equalityI)
  show "length (rotate m (xs[(m + k) mod length xs := y])) = length ((rotate m xs)[k := y])"
    by simp
next
  fix j
  assume "j < length (rotate m (xs[(m + k) mod length xs := y]))"
  then have j: "j < length xs" by simp
  have "(m + k) mod length xs < length xs" using j by (intro mod_less_divisor) auto
  moreover have "(m + j) mod length xs = (m + k) mod length xs \<longleftrightarrow> j = k"
    using mod_add_inj [OF assms(2) j assms(1)] by blast
  ultimately show "rotate m (xs[(m + k) mod length xs := y]) ! j = (rotate m xs)[k := y] ! j"
    using j assms by (simp add: nth_rotate nth_list_update eq_commute [of "(m + k) mod length xs"])
qed

lemma rotate_Suc_Cons: "rotate m xs = y # ys \<Longrightarrow> rotate (Suc m) xs = ys @ [y]"
  by (simp add: rotate_Suc)

lemma rotate_mod_length: "length xs = n \<Longrightarrow> rotate (m mod n) xs = rotate m xs"
  using rotate_conv_mod [of m xs] by simp

text \<open>The bits of a small word.\<close>

lemma bit_less_exp:
  fixes x :: "'a::len word"
  assumes "x < 2 ^ n" "n < LENGTH('a)" "bit x i"
  shows "i < n"
proof -
  have "uint x < 2 ^ n" using assms(1,2) word_2p_lem [of n x] by (simp add: word_size)
  then have "take_bit n (uint x) = uint x" by (simp add: take_bit_int_eq_self)
  moreover have "bit (uint x) i" using assms(3) by (simp add: bit_uint_iff bit_imp_le_length)
  ultimately show "i < n" by (metis bit_take_bit_iff)
qed

text \<open>A fact checked on a finite range of numbers holds of the words in that range.\<close>

lemma word_range:
  fixes b :: u32
  assumes "\<forall>n\<in>set [lo..<hi]. P (of_nat n)" "of_nat lo \<le> b" "b < of_nat hi" "lo < 2 ^ 31" "hi < 2 ^ 31"
  shows "P b"
proof -
  have "lo \<le> unat b" "unat b < hi"
    using assms(2-5) by (simp_all add: word_le_nat_alt word_less_nat_alt unat_of_nat)
  then have "unat b \<in> set [lo..<hi]" by simp
  with assms(1) have "P (of_nat (unat b))" by blast
  then show ?thesis by simp
qed

end
