(* ===== verification/Buffer.thy ===== *)
theory Buffer
  imports Prelude
begin

text \<open>
  The audio ring buffer of \<^verbatim>\<open>src/app/buffer.c\<close>: an array of chunks of \<open>CHUNK_SIZE\<close> bytes, a read
  index used by the consumer thread and a write index used by the producer thread. A chunk that is
  marked filled belongs to the consumer, any other chunk to the producer. Each definition is one
  function of the file; the static variables are the fields of \<open>buffer\<close>. The mutex of the file
  makes each of these functions one atomic step.

  The theory proves that the ring implements a queue of bytes, gives the queue interface as the
  locale \<open>byte_queue\<close> and interprets it with the functions of the file.
\<close>

section \<open>The model\<close>

text \<open>\<^verbatim>\<open>#define CHUNK_SIZE (12 * 840 * 6)\<close>\<close>

definition CHUNK_SIZE :: nat where
  "CHUNK_SIZE = 12 * 840 * 6"

text \<open>\<open>c_l\<close> (the field \<open>l\<close>) is an \<open>unsigned int\<close>, \<open>c_h\<close> (the field \<open>h\<close>) a bit field of 31 bits.\<close>

record chunk =
  cdata :: "u8 list"
  c_l :: nat
  c_h :: nat
  c_filled :: bool

record buffer =
  buffer_chunks :: "chunk list"
  buffer_nr_chunks :: nat
  buffer_ridx :: nat
  buffer_widx :: nat

text \<open>A pointer into the buffer: chunk index and offset in its data.\<close>

type_synonym buf_ptr = "nat \<times> nat"

text \<open>\<open>&buffer_chunks[i]\<close>, dereferenced: a fault outside of the allocated array.\<close>

definition chunk_at :: "buffer \<Rightarrow> nat \<Rightarrow> chunk option" where
  "chunk_at b i = (if i < length (buffer_chunks b) then Some (buffer_chunks b ! i) else None)"

definition set_chunk :: "buffer \<Rightarrow> nat \<Rightarrow> chunk \<Rightarrow> buffer" where
  "set_chunk b i c = b\<lparr>buffer_chunks := (buffer_chunks b)[i := c]\<rparr>"

text \<open>\<open>idx++; idx %= buffer_nr_chunks\<close> on \<open>unsigned int\<close>; division by zero is a fault.\<close>

definition next_idx :: "buffer \<Rightarrow> nat \<Rightarrow> nat option" where
  "next_idx b i =
     (if buffer_nr_chunks b = 0 then None
      else Some ((Suc i mod 2 ^ 32) mod buffer_nr_chunks b))"

text \<open>The loop over all chunks of \<open>buffer_reset\<close>.\<close>

definition reset_chunk :: "chunk \<Rightarrow> chunk" where
  "reset_chunk c = c\<lparr>c_l := 0, c_h := 0, c_filled := False\<rparr>"

definition buffer_reset :: "buffer \<Rightarrow> buffer option" where
  "buffer_reset b =
     (if length (buffer_chunks b) < buffer_nr_chunks b then None
      else Some (b\<lparr>buffer_ridx := 0, buffer_widx := 0,
        buffer_chunks := map reset_chunk (take (buffer_nr_chunks b) (buffer_chunks b))
                         @ drop (buffer_nr_chunks b) (buffer_chunks b)\<rparr>))"

text \<open>
  \<open>buffer_init\<close>: the new array is not initialised, \<open>junk i\<close> stands for the memory of chunk \<open>i\<close>.
\<close>

definition buffer_init :: "(nat \<Rightarrow> chunk) \<Rightarrow> buffer \<Rightarrow> buffer option" where
  "buffer_init junk b =
     buffer_reset (b\<lparr>buffer_chunks := map junk [0..<buffer_nr_chunks b]\<rparr>)"

definition buffer_free :: "buffer \<Rightarrow> buffer" where
  "buffer_free b = b\<lparr>buffer_chunks := []\<rparr>"

text \<open>
  The size is \<open>c->h - c->l\<close>, computed as \<open>unsigned int\<close> and stored in an \<open>int\<close>. The pointer is
  assigned only when the chunk is filled.
\<close>

definition buffer_get_rpos :: "buffer \<Rightarrow> (int \<times> buf_ptr option) option" where
  "buffer_get_rpos b =
     do { c \<leftarrow> chunk_at b (buffer_ridx b);
          Some (if c_filled c then (c_int (int (c_h c) - int (c_l c)), Some (buffer_ridx b, c_l c))
                else (0, None)) }"

definition buffer_get_wpos :: "buffer \<Rightarrow> (int \<times> buf_ptr option) option" where
  "buffer_get_wpos b =
     do { c \<leftarrow> chunk_at b (buffer_widx b);
          Some (if \<not> c_filled c then (int CHUNK_SIZE - int (c_h c), Some (buffer_widx b, c_h c))
                else (0, None)) }"

definition buffer_consume :: "int \<Rightarrow> buffer \<Rightarrow> buffer option" where
  "buffer_consume count b =
     do { bug_unless (\<not> count < 0);
          c \<leftarrow> chunk_at b (buffer_ridx b);
          bug_unless (c_filled c);
          let c = c\<lparr>c_l := (c_l c + nat count) mod 2 ^ 32\<rparr>;
          if c_l c = c_h c
          then do { ridx \<leftarrow> next_idx b (buffer_ridx b);
                    Some ((set_chunk b (buffer_ridx b) (c\<lparr>c_l := 0, c_h := 0, c_filled := False\<rparr>))
                            \<lparr>buffer_ridx := ridx\<rparr>) }
          else Some (set_chunk b (buffer_ridx b) c) }"

text \<open>Addition on the bit field \<open>h\<close> of 31 bits.\<close>

definition add31 :: "nat \<Rightarrow> int \<Rightarrow> nat" where
  "add31 x count = nat ((int x + count) mod 2 ^ 31)"

definition buffer_fill :: "int \<Rightarrow> buffer \<Rightarrow> (int \<times> buffer) option" where
  "buffer_fill count b =
     do { c \<leftarrow> chunk_at b (buffer_widx b);
          bug_unless (\<not> c_filled c);
          let c = c\<lparr>c_h := add31 (c_h c) count\<rparr>;
          if int CHUNK_SIZE - int (c_h c) < 1024 \<or> (count = 0 \<and> c_h c > 0)
          then do { widx \<leftarrow> next_idx b (buffer_widx b);
                    Some (1, (set_chunk b (buffer_widx b) (c\<lparr>c_filled := True\<rparr>))
                               \<lparr>buffer_widx := widx\<rparr>) }
          else Some (0, set_chunk b (buffer_widx b) c) }"

definition buffer_get_filled_chunks :: "buffer \<Rightarrow> int option" where
  "buffer_get_filled_chunks b =
     (if buffer_ridx b < buffer_widx b then
        Some (c_int (int (buffer_widx b) - int (buffer_ridx b)))
      else if buffer_ridx b > buffer_widx b then
        Some (c_int (int (buffer_nr_chunks b) - int (buffer_ridx b) + int (buffer_widx b)))
      else do { c \<leftarrow> chunk_at b (buffer_ridx b);
                Some (if c_filled c then c_int (int (buffer_nr_chunks b)) else 0) })"

text \<open>
  What the threads do through the pointers: \<open>buffer_poke\<close> stores bytes at a pointer (as \<open>ip_read\<close>
  does at the write position), \<open>buffer_peek\<close> reads them (as \<open>op_write\<close> does at the read position).
  Bytes outside of the chunk's array are a fault.
\<close>

definition buffer_poke :: "buf_ptr \<Rightarrow> u8 list \<Rightarrow> buffer \<Rightarrow> buffer option" where
  "buffer_poke p xs b =
     do { c \<leftarrow> chunk_at b (fst p);
          bug_unless (snd p + length xs \<le> length (cdata c));
          Some (set_chunk b (fst p) (c\<lparr>cdata := overwrite (cdata c) (snd p) xs\<rparr>)) }"

definition buffer_peek :: "buf_ptr \<Rightarrow> nat \<Rightarrow> buffer \<Rightarrow> u8 list option" where
  "buffer_peek p n b =
     do { c \<leftarrow> chunk_at b (fst p);
          bug_unless (snd p + n \<le> length (cdata c));
          Some (take n (drop (snd p) (cdata c))) }"

text \<open>
  One round of the producer (reserve, let the input plugin write, mark filled) and one round of the
  consumer (locate, let the output plugin read, mark consumed), as \<^verbatim>\<open>producer_loop\<close> and
  \<^verbatim>\<open>consumer_loop\<close> of \<^verbatim>\<open>src/app/player.c\<close> compose them.
\<close>

definition buffer_push :: "u8 list \<Rightarrow> buffer \<Rightarrow> buffer option" where
  "buffer_push xs b =
     do { (size, p) \<leftarrow> buffer_get_wpos b;
          b \<leftarrow> (case p of None \<Rightarrow> None | Some p \<Rightarrow> buffer_poke p xs b);
          (f, b) \<leftarrow> buffer_fill (int (length xs)) b;
          Some b }"

definition buffer_pop :: "nat \<Rightarrow> buffer \<Rightarrow> (u8 list \<times> buffer) option" where
  "buffer_pop n b =
     do { (size, p) \<leftarrow> buffer_get_rpos b;
          xs \<leftarrow> (case p of None \<Rightarrow> None | Some p \<Rightarrow> buffer_peek p n b);
          b \<leftarrow> buffer_consume (int n) b;
          Some (xs, b) }"

section \<open>Invariant and abstraction\<close>

text \<open>
  Seen from the read index, the ring is a run of filled chunks followed by the chunks of the
  producer, of which only the first may hold data.
\<close>

definition ring :: "buffer \<Rightarrow> chunk list" where
  "ring b = rotate (buffer_ridx b) (buffer_chunks b)"

definition payload :: "chunk \<Rightarrow> u8 list" where
  "payload c = drop (c_l c) (take (c_h c) (cdata c))"

definition chunk_ok :: "chunk \<Rightarrow> bool" where
  "chunk_ok c \<longleftrightarrow> length (cdata c) = CHUNK_SIZE \<and> c_h c \<le> CHUNK_SIZE \<and>
     (if c_filled c then c_l c < c_h c else c_l c = 0 \<and> c_h c + 1024 \<le> CHUNK_SIZE)"

definition ring_split :: "buffer \<Rightarrow> chunk list \<Rightarrow> chunk list \<Rightarrow> bool" where
  "ring_split b fs us \<longleftrightarrow>
     ring b = fs @ us \<and> (\<forall>c\<in>set fs. c_filled c) \<and> (\<forall>c\<in>set us. \<not> c_filled c) \<and>
     (\<forall>c\<in>set (tl us). c_h c = 0) \<and>
     buffer_widx b = (buffer_ridx b + length fs) mod buffer_nr_chunks b"

definition buffer_inv :: "buffer \<Rightarrow> bool" where
  "buffer_inv b \<longleftrightarrow>
     0 < buffer_nr_chunks b \<and> buffer_nr_chunks b < 2 ^ 31 \<and>
     length (buffer_chunks b) = buffer_nr_chunks b \<and>
     buffer_ridx b < buffer_nr_chunks b \<and> buffer_widx b < buffer_nr_chunks b \<and>
     list_all chunk_ok (buffer_chunks b) \<and>
     ring_split b (takeWhile c_filled (ring b)) (dropWhile c_filled (ring b))"

text \<open>The bytes the buffer holds, in the order in which the producer stored them.\<close>

definition content :: "buffer \<Rightarrow> u8 list" where
  "content b = concat (map payload (ring b))"

text \<open>What the two position queries offer.\<close>

definition avail :: "buffer \<Rightarrow> nat" where
  "avail b = (case buffer_get_rpos b of None \<Rightarrow> 0 | Some (n, _) \<Rightarrow> nat n)"

definition space :: "buffer \<Rightarrow> nat" where
  "space b = (case buffer_get_wpos b of None \<Rightarrow> 0 | Some (n, _) \<Rightarrow> nat n)"

section \<open>Correctness\<close>

named_theorems buffer_defs \<open>definitions of the buffer operations\<close>

declare chunk_at_def [buffer_defs] set_chunk_def [buffer_defs] next_idx_def [buffer_defs]
  buffer_get_rpos_def [buffer_defs] buffer_get_wpos_def [buffer_defs]
  buffer_consume_def [buffer_defs] buffer_fill_def [buffer_defs]
  buffer_poke_def [buffer_defs] buffer_peek_def [buffer_defs]

lemma CHUNK_SIZE_bounds: "1024 \<le> CHUNK_SIZE" "CHUNK_SIZE < 2 ^ 31"
  by (simp_all add: CHUNK_SIZE_def)

lemma length_ring [simp]: "length (ring b) = length (buffer_chunks b)"
  by (simp add: ring_def)

lemma set_ring [simp]: "set (ring b) = set (buffer_chunks b)"
  by (simp add: ring_def)

lemma ring_split_unique:
  assumes "ring_split b fs us"
  shows "takeWhile c_filled (ring b) = fs \<and> dropWhile c_filled (ring b) = us"
  using assms
  by (cases us) (auto simp: ring_split_def takeWhile_tail dropWhile_append2)

lemma buffer_invI:
  assumes "0 < buffer_nr_chunks b" "buffer_nr_chunks b < 2 ^ 31"
    "length (buffer_chunks b) = buffer_nr_chunks b"
    "buffer_ridx b < buffer_nr_chunks b"
    "list_all chunk_ok (buffer_chunks b)" "ring_split b fs us"
  shows "buffer_inv b"
  using assms ring_split_unique [OF assms(6)]
  by (auto simp: buffer_inv_def ring_split_def)

lemma buffer_invE:
  assumes "buffer_inv b"
  obtains fs us where "ring_split b fs us" "length fs + length us = buffer_nr_chunks b"
    "length (buffer_chunks b) = buffer_nr_chunks b" "buffer_ridx b < buffer_nr_chunks b"
    "buffer_widx b < buffer_nr_chunks b" "0 < buffer_nr_chunks b" "buffer_nr_chunks b < 2 ^ 31"
    "\<forall>c\<in>set (fs @ us). chunk_ok c"
proof -
  let ?fs = "takeWhile c_filled (ring b)" and ?us = "dropWhile c_filled (ring b)"
  have "length ?fs + length ?us = length (ring b)"
    by (metis length_append takeWhile_dropWhile_id)
  moreover have "set (?fs @ ?us) = set (buffer_chunks b)" by simp
  ultimately show ?thesis
    using assms by (intro that [of ?fs ?us]) (simp_all add: buffer_inv_def list_all_iff)
qed

text \<open>The chunks under the two indices.\<close>

lemma chunk_at_ring:
  assumes "k < length (buffer_chunks b)" "buffer_ridx b < length (buffer_chunks b)"
  shows "chunk_at b ((buffer_ridx b + k) mod length (buffer_chunks b)) = Some (ring b ! k)"
  using assms by (auto simp: chunk_at_def ring_def nth_rotate intro!: mod_less_divisor)

lemma ring_set_chunk:
  assumes "k < length (buffer_chunks b)" "buffer_ridx b < length (buffer_chunks b)"
  shows "ring (set_chunk b ((buffer_ridx b + k) mod length (buffer_chunks b)) c) = (ring b)[k := c]"
  using assms by (simp add: set_chunk_def ring_def rotate_list_update)

lemma set_chunk_sel [simp]:
  "buffer_nr_chunks (set_chunk b i c) = buffer_nr_chunks b"
  "buffer_ridx (set_chunk b i c) = buffer_ridx b"
  "buffer_widx (set_chunk b i c) = buffer_widx b"
  "length (buffer_chunks (set_chunk b i c)) = length (buffer_chunks b)"
  by (simp_all add: set_chunk_def)


text \<open>The read side: a filled chunk \<open>c\<close> heads the ring.\<close>

lemma ring_read_head:
  assumes "ring_split b (c # fs) us" "length (buffer_chunks b) = buffer_nr_chunks b"
    "buffer_ridx b < buffer_nr_chunks b"
  shows "chunk_at b (buffer_ridx b) = Some c" "c_filled c"
    "ring (set_chunk b (buffer_ridx b) d) = d # fs @ us"
  using assms chunk_at_ring [of 0 b] ring_set_chunk [of 0 b d]
  by (auto simp: ring_split_def)

lemma ring_advance:
  assumes "ring b = c # cs" "length (buffer_chunks b) = n" "buffer_ridx b < n"
  shows "ring (b\<lparr>buffer_ridx := Suc (buffer_ridx b) mod n\<rparr>) = cs @ [c]"
  using assms by (simp add: ring_def rotate_mod_length rotate_Suc_Cons)

text \<open>The write side: an unfilled chunk \<open>c\<close> follows the filled ones.\<close>

lemma ring_write_head:
  assumes "ring_split b fs (c # us)" "length (buffer_chunks b) = buffer_nr_chunks b"
    "buffer_ridx b < buffer_nr_chunks b"
  shows "chunk_at b (buffer_widx b) = Some c" "\<not> c_filled c"
    "ring (set_chunk b (buffer_widx b) d) = fs @ d # us"
proof -
  have len: "length fs < length (buffer_chunks b)"
    using assms(1) length_ring [of b] by (simp add: ring_split_def)
  show "chunk_at b (buffer_widx b) = Some c" "\<not> c_filled c"
    using assms chunk_at_ring [OF len] by (auto simp: ring_split_def)
  show "ring (set_chunk b (buffer_widx b) d) = fs @ d # us"
    using assms ring_set_chunk [OF len, of d] by (auto simp: ring_split_def list_update_append)
qed

lemma next_idx_Some:
  "i < buffer_nr_chunks b \<Longrightarrow> buffer_nr_chunks b < 2 ^ 31 \<Longrightarrow>
   next_idx b i = Some (Suc i mod buffer_nr_chunks b)"
  by (simp add: next_idx_def)

lemma list_all_ring: "list_all chunk_ok (buffer_chunks b) \<longleftrightarrow> (\<forall>c\<in>set (ring b). chunk_ok c)"
  by (simp add: list_all_iff)

text \<open>\<open>payload\<close> under the updates of the two sides.\<close>

lemma payload_consume:
  assumes "chunk_ok c" "c_l c + n \<le> c_h c"
  shows "take n (drop (c_l c) (cdata c)) = take n (payload c)"
    "payload (c\<lparr>c_l := c_l c + n\<rparr>) = drop n (payload c)"
    "length (payload c) = c_h c - c_l c"
  using assms by (auto simp: payload_def chunk_ok_def drop_take add.commute split: if_splits)

lemma chunk_filled_id [simp]: "c\<lparr>c_h := x, c_filled := c_filled c\<rparr> = c\<lparr>c_h := x\<rparr>"
  by (cases c) simp

lemma payload_fill:
  assumes "chunk_ok c" "\<not> c_filled c" "c_h c + length xs \<le> CHUNK_SIZE"
  shows "payload (c\<lparr>cdata := overwrite (cdata c) (c_h c) xs, c_h := c_h c + length xs\<rparr>) = payload c @ xs"
    "payload (c\<lparr>cdata := overwrite (cdata c) (c_h c) xs, c_h := c_h c + length xs, c_filled := b\<rparr>)
      = payload c @ xs"
  using assms by (auto simp: payload_def chunk_ok_def overwrite_def)

lemma payload_reset [simp]: "payload (c\<lparr>c_l := 0, c_h := 0, c_filled := f\<rparr>) = []"
  by (simp add: payload_def)

lemma content_split: "ring_split b fs us \<Longrightarrow> content b = concat (map payload (fs @ us))"
  by (simp add: content_def ring_split_def)

lemma payload_tl_empty: "\<forall>c\<in>set us. c_h c = 0 \<Longrightarrow> concat (map payload us) = []"
  by (auto simp: payload_def)


text \<open>The position queries never fault on a well-formed buffer.\<close>

lemma get_rpos_cases:
  assumes "buffer_inv b"
  shows "(\<exists>fs us c. ring_split b (c # fs) us \<and> chunk_ok c \<and> c_filled c \<and>
            buffer_get_rpos b = Some (int (c_h c - c_l c), Some (buffer_ridx b, c_l c)))
         \<or> (\<exists>us. ring_split b [] us \<and> buffer_get_rpos b = Some (0, None))"
proof -
  from assms obtain fs us where s: "ring_split b fs us" "length fs + length us = buffer_nr_chunks b"
    "length (buffer_chunks b) = buffer_nr_chunks b" "buffer_ridx b < buffer_nr_chunks b"
    "0 < buffer_nr_chunks b" "\<forall>c\<in>set (fs @ us). chunk_ok c"
    by (rule buffer_invE)
  show ?thesis
  proof (cases fs)
    case (Cons c fs')
    have ok: "chunk_ok c" using s(6) Cons by simp
    have at: "chunk_at b (buffer_ridx b) = Some c" "c_filled c"
      using ring_read_head [of b c fs' us] s Cons by auto
    then have "buffer_get_rpos b = Some (int (c_h c - c_l c), Some (buffer_ridx b, c_l c))"
      using ok CHUNK_SIZE_bounds by (simp add: buffer_get_rpos_def chunk_ok_def of_nat_diff)
    then show ?thesis using s(1) Cons ok at by blast
  next
    case Nil
    then obtain c us' where us: "us = c # us'" using s(2,5) by (cases us) auto
    have "buffer_widx b = buffer_ridx b" using s Nil by (simp add: ring_split_def)
    then have "buffer_get_rpos b = Some (0, None)"
      using ring_write_head [of b "[]" c us'] s Nil us by (simp add: buffer_get_rpos_def)
    then show ?thesis using s(1) Nil by blast
  qed
qed

lemma get_wpos_cases:
  assumes "buffer_inv b"
  shows "(\<exists>fs us c. ring_split b fs (c # us) \<and> chunk_ok c \<and> \<not> c_filled c \<and>
            buffer_get_wpos b = Some (int (CHUNK_SIZE - c_h c), Some (buffer_widx b, c_h c)))
         \<or> (\<exists>fs. ring_split b fs [] \<and> buffer_get_wpos b = Some (0, None))"
proof -
  from assms obtain fs us where s: "ring_split b fs us" "length fs + length us = buffer_nr_chunks b"
    "length (buffer_chunks b) = buffer_nr_chunks b" "buffer_ridx b < buffer_nr_chunks b"
    "0 < buffer_nr_chunks b" "\<forall>c\<in>set (fs @ us). chunk_ok c"
    by (rule buffer_invE)
  show ?thesis
  proof (cases us)
    case (Cons c us')
    have ok: "chunk_ok c" using s(6) Cons by simp
    have at: "chunk_at b (buffer_widx b) = Some c" "\<not> c_filled c"
      using ring_write_head [of b fs c us'] s Cons by auto
    then have "buffer_get_wpos b = Some (int (CHUNK_SIZE - c_h c), Some (buffer_widx b, c_h c))"
      using ok by (simp add: buffer_get_wpos_def chunk_ok_def of_nat_diff)
    then show ?thesis using s(1) Cons ok at by blast
  next
    case Nil
    then obtain c fs' where fs: "fs = c # fs'" using s(2,5) by (cases fs) auto
    have "buffer_widx b = buffer_ridx b" using s Nil by (simp add: ring_split_def)
    then have "buffer_get_wpos b = Some (0, None)"
      using ring_read_head [of b c fs' us] s fs by (simp add: buffer_get_wpos_def)
    then show ?thesis using s(1) Nil by blast
  qed
qed

text \<open>Consuming bytes that the read position offers.\<close>

lemma consume_split:
  assumes inv: "buffer_inv b" and s: "ring_split b (c # fs) us" and n: "c_l c + n \<le> c_h c"
  shows "\<exists>b'. buffer_consume (int n) b = Some b' \<and> buffer_inv b' \<and>
           ring b' = (if c_l c + n = c_h c then fs @ us @ [reset_chunk c]
                      else (c\<lparr>c_l := c_l c + n\<rparr>) # fs @ us)"
proof -
  let ?N = "buffer_nr_chunks b" and ?i = "buffer_ridx b"
  from inv have b: "length (buffer_chunks b) = ?N" "?i < ?N" "0 < ?N" "?N < 2 ^ 31"
    "\<forall>d\<in>set (ring b). chunk_ok d"
    by (simp_all add: buffer_inv_def list_all_ring [symmetric] del: set_ring)
  have ring: "ring b = c # fs @ us" using s by (simp add: ring_split_def)
  have at: "chunk_at b ?i = Some c" "c_filled c" and
    upd: "\<And>d. ring (set_chunk b ?i d) = d # fs @ us"
    using ring_read_head [OF s b(1,2)] by auto
  have ok: "\<forall>d\<in>set (c # fs @ us). chunk_ok d" using b(5) ring by metis
  have mod: "(c_l c + n) mod 2 ^ 32 = c_l c + n"
    using n ok CHUNK_SIZE_bounds by (auto simp: chunk_ok_def)
  show ?thesis
  proof (cases "c_l c + n = c_h c")
    case True
    let ?c = "c\<lparr>c_l := 0, c_h := 0, c_filled := False\<rparr>"
    let ?b = "(set_chunk b ?i ?c)\<lparr>buffer_ridx := Suc ?i mod ?N\<rparr>"
    have r: "ring ?b = fs @ us @ [?c]"
      using ring_advance [of "set_chunk b ?i ?c"] upd b by simp
    have nx: "next_idx b ?i = Some (Suc ?i mod ?N)" using next_idx_Some b by blast
    then have "buffer_consume (int n) b = Some ?b"
      using at mod True by (simp add: buffer_consume_def nat_int_add)
    moreover have "ring_split ?b fs (us @ [?c])"
      using s r by (cases us) (auto simp: ring_split_def mod_simps)
    then have "buffer_inv ?b"
    proof (rule buffer_invI [rotated 5])
      have "chunk_ok ?c" using ok CHUNK_SIZE_bounds by (auto simp: chunk_ok_def)
      then show "list_all chunk_ok (buffer_chunks ?b)"
        unfolding list_all_ring using r ok by auto
    qed (use b in simp_all)
    ultimately show ?thesis using True r by (auto simp: reset_chunk_def)
  next
    case False
    let ?c = "c\<lparr>c_l := c_l c + n\<rparr>"
    have "buffer_consume (int n) b = Some (set_chunk b ?i ?c)"
      using at mod False by (simp add: buffer_consume_def nat_int_add)
    moreover have "ring_split (set_chunk b ?i ?c) (?c # fs) us"
      using s upd at by (auto simp: ring_split_def)
    then have "buffer_inv (set_chunk b ?i ?c)"
    proof (rule buffer_invI [rotated 5])
      have "chunk_ok ?c" using ok at n False by (auto simp: chunk_ok_def)
      then show "list_all chunk_ok (buffer_chunks (set_chunk b ?i ?c))"
        unfolding list_all_ring upd using ok by auto
    qed (use b in simp_all)
    ultimately show ?thesis using False upd by auto
  qed
qed

lemma buffer_pop_correct:
  assumes "buffer_inv b" and "0 < avail b" and "n \<le> avail b"
  shows "\<exists>b'. buffer_pop n b = Some (take n (content b), b') \<and> buffer_inv b' \<and>
           content b' = drop n (content b)"
proof -
  from get_rpos_cases [OF assms(1)] assms(2) obtain c fs us where
    s: "ring_split b (c # fs) us" and ok: "chunk_ok c" and
    r: "buffer_get_rpos b = Some (int (c_h c - c_l c), Some (buffer_ridx b, c_l c))"
    by (auto simp: avail_def)
  from r assms(3) have n: "c_l c + n \<le> c_h c"
    using assms(2) by (simp add: avail_def)
  have cont: "content b = payload c @ concat (map payload (fs @ us))"
    using s by (simp add: content_split)
  have len: "n \<le> length (payload c)" using payload_consume(3) [OF ok n] n by simp
  have "chunk_at b (buffer_ridx b) = Some c"
    using ring_read_head [OF s] assms(1) by (simp add: buffer_inv_def)
  then have "buffer_peek (buffer_ridx b, c_l c) n b = Some (take n (payload c))"
    using ok n payload_consume(1) [OF ok n] by (auto simp: buffer_peek_def chunk_ok_def)
  moreover from consume_split [OF assms(1) s n] obtain b' where
    b': "buffer_consume (int n) b = Some b'" "buffer_inv b'"
      "ring b' = (if c_l c + n = c_h c then fs @ us @ [reset_chunk c]
                  else (c\<lparr>c_l := c_l c + n\<rparr>) # fs @ us)"
    by blast
  moreover have "content b' = drop n (payload c) @ concat (map payload (fs @ us))"
    using b'(3) payload_consume [OF ok n] by (auto simp: content_def reset_chunk_def)
  ultimately show ?thesis
    using r cont len by (simp add: buffer_pop_def)
qed


text \<open>Filling the chunk under the write index: the chunk as the producer leaves it.\<close>

lemma fill_split:
  assumes inv: "buffer_inv b" and s: "ring_split b fs (c # us)" and n: "c_h c + n \<le> CHUNK_SIZE"
  shows "\<exists>r b'. buffer_fill (int n) b = Some (r, b') \<and> buffer_inv b' \<and>
           ring b' = fs @ (c\<lparr>c_h := c_h c + n, c_filled :=
             (CHUNK_SIZE < c_h c + n + 1024 \<or> (n = 0 \<and> 0 < c_h c))\<rparr>) # us"
proof -
  let ?N = "buffer_nr_chunks b" and ?w = "buffer_widx b"
  let ?full = "CHUNK_SIZE < c_h c + n + 1024 \<or> (n = 0 \<and> 0 < c_h c)"
  let ?c = "c\<lparr>c_h := c_h c + n, c_filled := ?full\<rparr>"
  from inv have b: "length (buffer_chunks b) = ?N" "buffer_ridx b < ?N" "?w < ?N" "0 < ?N"
    "?N < 2 ^ 31" "\<forall>d\<in>set (ring b). chunk_ok d"
    by (simp_all add: buffer_inv_def list_all_ring [symmetric] del: set_ring)
  have at: "chunk_at b ?w = Some c" "\<not> c_filled c" and
    upd: "\<And>d. ring (set_chunk b ?w d) = fs @ d # us"
    using ring_write_head [OF s b(1,2)] by auto
  have ring: "ring b = fs @ c # us" using s by (simp add: ring_split_def)
  have ok: "\<forall>d\<in>set (fs @ c # us). chunk_ok d" using b(6) ring by metis
  have mod: "add31 (c_h c) (int n) = c_h c + n"
    using n CHUNK_SIZE_bounds by (simp add: nat_int_add add31_def)
  have okc: "chunk_ok ?c"
    using ok at(2) n CHUNK_SIZE_bounds by (auto simp: chunk_ok_def CHUNK_SIZE_def)
  show ?thesis
  proof (cases ?full)
    case True
    let ?b = "(set_chunk b ?w ?c)\<lparr>buffer_widx := Suc ?w mod ?N\<rparr>"
    have nx: "next_idx b ?w = Some (Suc ?w mod ?N)" using next_idx_Some b by blast
    then have "buffer_fill (int n) b = Some (1, ?b)"
      using at mod True by (auto simp: buffer_fill_def nat_int_add)
    moreover have r: "ring ?b = fs @ ?c # us" using upd [of ?c] by (simp add: ring_def)
    have "ring_split ?b (fs @ [?c]) us"
      using s r True by (cases us) (auto simp: ring_split_def mod_simps)
    then have "buffer_inv ?b"
    proof (rule buffer_invI [rotated 5])
      show "list_all chunk_ok (buffer_chunks ?b)"
        unfolding list_all_ring r using ok okc by auto
    qed (use b in simp_all)
    ultimately show ?thesis using r by blast
  next
    case False
    let ?b = "set_chunk b ?w ?c"
    have "?full = c_filled c" using at(2) False by simp
    then have "?c = c\<lparr>c_h := c_h c + n\<rparr>" by simp
    moreover have "buffer_fill (int n) b = Some (0, set_chunk b ?w (c\<lparr>c_h := c_h c + n\<rparr>))"
      using at mod False by (auto simp: buffer_fill_def nat_int_add Let_def)
    ultimately have "buffer_fill (int n) b = Some (0, ?b)" by metis
    moreover have "ring_split ?b fs (?c # us)"
      using s upd [of ?c] False by (auto simp: ring_split_def)
    then have "buffer_inv ?b"
    proof (rule buffer_invI [rotated 5])
      show "list_all chunk_ok (buffer_chunks ?b)"
        unfolding list_all_ring upd using ok okc by auto
    qed (use b in simp_all)
    ultimately show ?thesis using upd [of ?c] by blast
  qed
qed

text \<open>Storing bytes at the write position leaves the ring well formed and its content unchanged.\<close>

lemma poke_split:
  assumes inv: "buffer_inv b" and s: "ring_split b fs (c # us)" and n: "c_h c + length xs \<le> CHUNK_SIZE"
  shows "\<exists>b'. buffer_poke (buffer_widx b, c_h c) xs b = Some b' \<and> buffer_inv b' \<and>
           ring_split b' fs ((c\<lparr>cdata := overwrite (cdata c) (c_h c) xs\<rparr>) # us)"
proof -
  let ?c = "c\<lparr>cdata := overwrite (cdata c) (c_h c) xs\<rparr>" and ?w = "buffer_widx b"
  from inv have b: "length (buffer_chunks b) = buffer_nr_chunks b" "buffer_ridx b < buffer_nr_chunks b"
    "0 < buffer_nr_chunks b" "buffer_nr_chunks b < 2 ^ 31" "\<forall>d\<in>set (ring b). chunk_ok d"
    by (simp_all add: buffer_inv_def list_all_ring [symmetric] del: set_ring)
  have at: "chunk_at b ?w = Some c" and upd: "ring (set_chunk b ?w ?c) = fs @ ?c # us"
    using ring_write_head [OF s b(1,2)] by auto
  have ring: "ring b = fs @ c # us" using s by (simp add: ring_split_def)
  have ok: "\<forall>d\<in>set (fs @ c # us). chunk_ok d" using b(5) ring by metis
  then have okc: "chunk_ok ?c" using n by (auto simp: chunk_ok_def)
  have poke: "buffer_poke (?w, c_h c) xs b = Some (set_chunk b ?w ?c)"
    using at ok n by (auto simp: buffer_poke_def chunk_ok_def)
  have rs: "ring_split (set_chunk b ?w ?c) fs (?c # us)"
    using s upd by (auto simp: ring_split_def)
  then have "buffer_inv (set_chunk b ?w ?c)"
  proof (rule buffer_invI [rotated 5])
    show "list_all chunk_ok (buffer_chunks (set_chunk b ?w ?c))"
      unfolding list_all_ring upd using ok okc by auto
  qed (use b in simp_all)
  then show ?thesis using poke rs by blast
qed

lemma buffer_push_correct:
  assumes "buffer_inv b" and "0 < space b" and "length xs \<le> space b"
  shows "\<exists>b'. buffer_push xs b = Some b' \<and> buffer_inv b' \<and> content b' = content b @ xs"
proof -
  from get_wpos_cases [OF assms(1)] assms(2) obtain c fs us where
    s: "ring_split b fs (c # us)" and ok: "chunk_ok c" "\<not> c_filled c" and
    w: "buffer_get_wpos b = Some (int (CHUNK_SIZE - c_h c), Some (buffer_widx b, c_h c))"
    by (auto simp: space_def)
  from w assms(2,3) have n: "c_h c + length xs \<le> CHUNK_SIZE" by (simp add: space_def)
  from poke_split [OF assms(1) s n] obtain b1 where
    b1: "buffer_poke (buffer_widx b, c_h c) xs b = Some b1" "buffer_inv b1"
      "ring_split b1 fs ((c\<lparr>cdata := overwrite (cdata c) (c_h c) xs\<rparr>) # us)"
    by blast
  from fill_split [OF b1(2,3), of "length xs"] n obtain r b2 where
    b2: "buffer_fill (int (length xs)) b1 = Some (r, b2)" "buffer_inv b2"
      "map payload (ring b2) = map payload fs @ (payload c @ xs) # map payload us"
    using payload_fill(2) [OF ok n] by auto
  have "concat (map payload us) = []"
    using s by (intro payload_tl_empty) (simp add: ring_split_def)
  then have "content b2 = content b @ xs"
    using b2(3) s by (simp add: content_def ring_split_def del: concat_eq_Nil_conv)
  then show ?thesis using w b1(1) b2(1,2) by (simp add: buffer_push_def)
qed


section \<open>Reset, initialisation and the fill level\<close>

lemma buffer_reset_correct:
  assumes "0 < buffer_nr_chunks b" "buffer_nr_chunks b < 2 ^ 31"
    "length (buffer_chunks b) = buffer_nr_chunks b"
    "\<forall>c\<in>set (buffer_chunks b). length (cdata c) = CHUNK_SIZE"
  shows "\<exists>b'. buffer_reset b = Some b' \<and> buffer_inv b' \<and> content b' = [] \<and>
           buffer_nr_chunks b' = buffer_nr_chunks b"
proof -
  let ?b = "b\<lparr>buffer_ridx := 0, buffer_widx := 0, buffer_chunks := map reset_chunk (buffer_chunks b)\<rparr>"
  have "buffer_reset b = Some ?b" using assms by (simp add: buffer_reset_def)
  moreover have r: "ring ?b = map reset_chunk (buffer_chunks b)" by (simp add: ring_def)
  have "ring_split ?b [] (map reset_chunk (buffer_chunks b))"
    unfolding ring_split_def r
    by (cases "buffer_chunks b") (auto simp: reset_chunk_def)
  then have "buffer_inv ?b"
  proof (rule buffer_invI [rotated 5])
    show "list_all chunk_ok (buffer_chunks ?b)"
      using assms(4) CHUNK_SIZE_bounds by (auto simp: list_all_iff reset_chunk_def chunk_ok_def)
  qed (use assms in simp_all)
  moreover have "content ?b = []"
    unfolding content_def r by (auto simp: reset_chunk_def)
  ultimately show ?thesis by auto
qed

lemma get_filled_chunks_eq:
  assumes "buffer_inv b" "ring_split b fs us"
  shows "buffer_get_filled_chunks b = Some (int (length fs))"
proof -
  let ?N = "buffer_nr_chunks b" and ?r = "buffer_ridx b"
  from assms have b: "length (buffer_chunks b) = ?N" "?r < ?N" "?N < 2 ^ 31" "0 < ?N"
    by (simp_all add: buffer_inv_def)
  have w: "buffer_widx b = (?r + length fs) mod ?N" and ring: "ring b = fs @ us"
    using assms(2) by (simp_all add: ring_split_def)
  have le: "length fs + length us = ?N" using ring length_ring [of b] b by simp
  consider "length fs = ?N" | "fs = []" | "0 < length fs" "length fs < ?N"
    using le by (cases fs) fastforce+
  then show ?thesis
  proof cases
    case 1
    then obtain c fs' where "fs = c # fs'" using b by (cases fs) auto
    then have "chunk_at b ?r = Some c" "c_filled c"
      using ring_read_head [of b c fs' us] assms(2) b by auto
    then show ?thesis using w 1 b by (simp add: buffer_get_filled_chunks_def)
  next
    case 2
    then obtain c us' where "us = c # us'" using le b by (cases us) auto
    then have "chunk_at b (buffer_widx b) = Some c" "\<not> c_filled c"
      using ring_write_head [of b fs c us'] assms(2) b by auto
    then show ?thesis using w 2 b by (simp add: buffer_get_filled_chunks_def)
  next
    case 3
    then show ?thesis
      using w b mod_add_less_eq [of ?r ?N "length fs"]
      by (auto simp: buffer_get_filled_chunks_def)
  qed
qed

lemma rotate_filter_length: "length (filter P (rotate n xs)) = length (filter P xs)"
proof (induction n)
  case (Suc n)
  have "length (filter P (rotate1 ys)) = length (filter P ys)" for ys :: "'a list"
    by (cases ys) simp_all
  then show ?case using Suc by simp
qed simp

section \<open>The buffer as a queue of bytes\<close>

text \<open>
  The interface the two player threads rely on: bytes go in at one end, at most \<open>room\<close> of them at a
  time, and come out at the other end, at most \<open>ready\<close> of them at a time.
\<close>

datatype queue_event = Put "u8 list" | Get nat

text \<open>
  A run interleaves producer and consumer rounds; a round that the position query does not offer
  is skipped, as the loops do. The result is the bytes put in, the bytes taken out and the final
  queue, \<open>None\<close> when a round faulted.
\<close>

fun queue_run :: "('b \<Rightarrow> nat) \<Rightarrow> ('b \<Rightarrow> nat) \<Rightarrow> (u8 list \<Rightarrow> 'b \<Rightarrow> 'b option) \<Rightarrow>
    (nat \<Rightarrow> 'b \<Rightarrow> (u8 list \<times> 'b) option) \<Rightarrow> queue_event list \<Rightarrow> 'b \<Rightarrow> u8 list \<times> u8 list \<times> 'b option" where
  "queue_run room ready put get [] b = ([], [], Some b)"
| "queue_run room ready put get (Put xs # es) b =
     (if 0 < room b \<and> length xs \<le> room b
      then (case put xs b of None \<Rightarrow> ([], [], None)
            | Some b' \<Rightarrow> (let (i, out, r) = queue_run room ready put get es b' in (xs @ i, out, r)))
      else queue_run room ready put get es b)"
| "queue_run room ready put get (Get n # es) b =
     (if 0 < ready b \<and> n \<le> ready b
      then (case get n b of None \<Rightarrow> ([], [], None)
            | Some (ys, b') \<Rightarrow> (let (i, out, r) = queue_run room ready put get es b' in (i, ys @ out, r)))
      else queue_run room ready put get es b)"

definition buffer_run :: "queue_event list \<Rightarrow> buffer \<Rightarrow> u8 list \<times> u8 list \<times> buffer option" where
  "buffer_run = queue_run space avail buffer_push buffer_pop"

locale byte_queue =
  fixes inv :: "'b \<Rightarrow> bool"
    and bytes :: "'b \<Rightarrow> u8 list"
    and room :: "'b \<Rightarrow> nat"
    and ready :: "'b \<Rightarrow> nat"
    and put :: "u8 list \<Rightarrow> 'b \<Rightarrow> 'b option"
    and get :: "nat \<Rightarrow> 'b \<Rightarrow> (u8 list \<times> 'b) option"
  assumes put_law: "inv b \<Longrightarrow> 0 < room b \<Longrightarrow> length xs \<le> room b \<Longrightarrow>
      \<exists>b'. put xs b = Some b' \<and> inv b' \<and> bytes b' = bytes b @ xs"
    and get_law: "inv b \<Longrightarrow> 0 < ready b \<Longrightarrow> n \<le> ready b \<Longrightarrow>
      \<exists>b'. get n b = Some (take n (bytes b), b') \<and> inv b' \<and> bytes b' = drop n (bytes b)"
    and ready_le: "inv b \<Longrightarrow> ready b \<le> length (bytes b)"
begin

lemma run_fifo:
  "inv b \<Longrightarrow> \<exists>i out b'. queue_run room ready put get es b = (i, out, Some b') \<and> inv b' \<and>
     bytes b @ i = out @ bytes b'"
proof (induction es arbitrary: b)
  case Nil
  then show ?case by simp
next
  case (Cons e es)
  show ?case
  proof (cases e)
    case (Put xs)
    show ?thesis
    proof (cases "0 < room b \<and> length xs \<le> room b")
      case True
      with put_law [OF Cons.prems] obtain b1 where
        b1: "put xs b = Some b1" "inv b1" "bytes b1 = bytes b @ xs" by blast
      from Cons.IH [OF b1(2)] obtain i out b' where
        "queue_run room ready put get es b1 = (i, out, Some b')" "inv b'" "bytes b1 @ i = out @ bytes b'" by blast
      with b1 True Put show ?thesis by simp
    next
      case False
      with Cons.IH [OF Cons.prems] Put show ?thesis by auto
    qed
  next
    case (Get n)
    show ?thesis
    proof (cases "0 < ready b \<and> n \<le> ready b")
      case True
      with get_law [OF Cons.prems] obtain b1 where
        b1: "get n b = Some (take n (bytes b), b1)" "inv b1" "bytes b1 = drop n (bytes b)" by blast
      from Cons.IH [OF b1(2)] obtain i out b' where
        r: "queue_run room ready put get es b1 = (i, out, Some b')" "inv b'" "bytes b1 @ i = out @ bytes b'" by blast
      have "bytes b @ i = take n (bytes b) @ bytes b1 @ i" using b1(3) by simp
      with r b1(1) True Get show ?thesis by simp
    next
      case False
      with Cons.IH [OF Cons.prems] Get show ?thesis by auto
    qed
  qed
qed

end

lemma avail_le_content: "buffer_inv b \<Longrightarrow> avail b \<le> length (content b)"
  using get_rpos_cases [of b] payload_consume(3) [of _ 0]
  by (fastforce simp: avail_def content_split chunk_ok_def)

interpretation audio: byte_queue buffer_inv content space avail buffer_push buffer_pop
  by unfold_locales (fact buffer_push_correct buffer_pop_correct avail_le_content)+

section \<open>The two threads do not disturb each other\<close>

text \<open>
  While the consumer works on the chunk under the read index, the producer may complete a round on
  the chunk under the write index, and the other way round: the chunks differ, because one is
  filled and the other is not.
\<close>

definition pushed :: "u8 list \<Rightarrow> chunk \<Rightarrow> chunk" where
  "pushed xs c = (let n = add31 (c_h c) (int (length xs)) in
     c\<lparr>cdata := overwrite (cdata c) (c_h c) xs, c_h := n,
       c_filled := (int CHUNK_SIZE - int n < 1024 \<or> (xs = [] \<and> n > 0))\<rparr>)"

definition popped :: "nat \<Rightarrow> chunk \<Rightarrow> chunk" where
  "popped n c = (let m = (c_l c + n) mod 2 ^ 32 in if m = c_h c then reset_chunk c else c\<lparr>c_l := m\<rparr>)"

lemma chunk_at_set_chunk:
  "chunk_at (set_chunk b i d) j =
     (if i = j \<and> i < length (buffer_chunks b) then Some d else chunk_at b j)"
  by (auto simp: chunk_at_def set_chunk_def)

lemma set_chunk_twice [simp]: "set_chunk (set_chunk b i d) i e = set_chunk b i e"
  by (simp add: set_chunk_def)

lemma next_idx_set_chunk [simp]: "next_idx (set_chunk b i d) j = next_idx b j"
  by (simp add: next_idx_def)

lemma chunk_at_Some_len: "chunk_at b i = Some c \<Longrightarrow> i < length (buffer_chunks b)"
  by (simp add: chunk_at_def split: if_splits)

lemma unfilled_cdata: "\<not> c_filled c \<Longrightarrow> c\<lparr>cdata := d, c_h := n, c_filled := False\<rparr> = c\<lparr>cdata := d, c_h := n\<rparr>"
  by (cases c) simp

lemma buffer_push_eq:
  assumes "chunk_at b (buffer_widx b) = Some c"
  shows "buffer_push xs b =
    (if c_filled c \<or> length (cdata c) < c_h c + length xs then None
     else if c_filled (pushed xs c)
     then map_option (\<lambda>w. (set_chunk b (buffer_widx b) (pushed xs c))\<lparr>buffer_widx := w\<rparr>)
            (next_idx b (buffer_widx b))
     else Some (set_chunk b (buffer_widx b) (pushed xs c)))"
proof (cases "c_filled c \<or> length (cdata c) < c_h c + length xs")
  case True
  then show ?thesis
    using assms by (auto simp: buffer_push_def buffer_get_wpos_def buffer_poke_def not_le)
next
  case False
  define n where "n = add31 (c_h c) (int (length xs))"
  define full where "full = (int CHUNK_SIZE - int n < 1024 \<or> (xs = [] \<and> n > 0))"
  have p: "pushed xs c = c\<lparr>cdata := overwrite (cdata c) (c_h c) xs, c_h := n, c_filled := full\<rparr>"
    by (simp add: pushed_def n_def full_def Let_def)
  show ?thesis
    using assms chunk_at_Some_len [OF assms] False unfolding p
    by (auto simp: buffer_push_def buffer_get_wpos_def buffer_poke_def buffer_fill_def
          chunk_at_set_chunk n_def [symmetric] full_def [symmetric] unfilled_cdata map_option_case Let_def
        split: option.splits)
qed

lemma buffer_pop_eq:
  assumes "chunk_at b (buffer_ridx b) = Some c"
  shows "buffer_pop n b =
    (if \<not> c_filled c \<or> length (cdata c) < c_l c + n then None
     else if (c_l c + n) mod 2 ^ 32 = c_h c
     then map_option (\<lambda>r. (take n (drop (c_l c) (cdata c)),
             (set_chunk b (buffer_ridx b) (popped n c))\<lparr>buffer_ridx := r\<rparr>))
            (next_idx b (buffer_ridx b))
     else Some (take n (drop (c_l c) (cdata c)), set_chunk b (buffer_ridx b) (popped n c)))"
  using assms
  by (auto simp: buffer_pop_def buffer_get_rpos_def buffer_peek_def buffer_consume_def popped_def Let_def
        reset_chunk_def not_le map_option_case split: option.splits)

lemma chunk_at_updates [simp]:
  "chunk_at (b\<lparr>buffer_widx := w\<rparr>) i = chunk_at b i"
  "chunk_at (b\<lparr>buffer_ridx := w\<rparr>) i = chunk_at b i"
  "next_idx (b\<lparr>buffer_widx := w\<rparr>) i = next_idx b i"
  "next_idx (b\<lparr>buffer_ridx := w\<rparr>) i = next_idx b i"
  by (simp_all add: chunk_at_def next_idx_def)

lemma set_chunk_commute:
  "i \<noteq> j \<Longrightarrow> set_chunk (set_chunk b i c) j d = set_chunk (set_chunk b j d) i c"
  by (simp add: set_chunk_def list_update_swap)

lemma set_chunk_idx [simp]:
  "set_chunk (b\<lparr>buffer_widx := w\<rparr>) i c = (set_chunk b i c)\<lparr>buffer_widx := w\<rparr>"
  "set_chunk (b\<lparr>buffer_ridx := w\<rparr>) i c = (set_chunk b i c)\<lparr>buffer_ridx := w\<rparr>"
  by (simp_all add: set_chunk_def)

lemma buffer_push_chunk: "buffer_push xs b = Some b' \<Longrightarrow> \<exists>c. chunk_at b (buffer_widx b) = Some c"
  by (auto simp: buffer_push_def buffer_get_wpos_def bind_eq_Some_conv)

lemma buffer_pop_chunk: "buffer_pop n b = Some r \<Longrightarrow> \<exists>c. chunk_at b (buffer_ridx b) = Some c"
  by (auto simp: buffer_pop_def buffer_get_rpos_def bind_eq_Some_conv)

lemma push_pop_commute:
  assumes "buffer_push xs b = Some b1" and "buffer_pop n b = Some (ys, b2)"
  shows "\<exists>b3. buffer_pop n b1 = Some (ys, b3) \<and> buffer_push xs b2 = Some b3"
proof -
  from buffer_push_chunk [OF assms(1)] obtain c where c: "chunk_at b (buffer_widx b) = Some c" ..
  from buffer_pop_chunk [OF assms(2)] obtain d where d: "chunk_at b (buffer_ridx b) = Some d" ..
  have ne: "buffer_widx b \<noteq> buffer_ridx b"
    using assms buffer_push_eq [OF c, of xs] buffer_pop_eq [OF d, of n] c d by (auto split: if_splits)
  have d1: "chunk_at b1 (buffer_ridx b1) = Some d" and c2: "chunk_at b2 (buffer_widx b2) = Some c"
    using assms buffer_push_eq [OF c, of xs] buffer_pop_eq [OF d, of n] c d ne
    by (auto simp: chunk_at_set_chunk split: if_splits)
  show ?thesis
    unfolding buffer_pop_eq [OF d1] buffer_push_eq [OF c2]
    using assms buffer_push_eq [OF c, of xs] buffer_pop_eq [OF d, of n] ne set_chunk_commute [OF ne]
    by (auto split: if_splits)
qed

section \<open>Properties\<close>

text \<open>A buffer of two zeroed chunks, for the instances below.\<close>

definition example_buffer :: buffer where
  "example_buffer = \<lparr>buffer_chunks = replicate 2 \<lparr>cdata = replicate CHUNK_SIZE 0, c_l = 0, c_h = 0,
     c_filled = False\<rparr>, buffer_nr_chunks = 2, buffer_ridx = 0, buffer_widx = 0\<rparr>"

lemma example_buffer_inv: "buffer_inv example_buffer" "content example_buffer = []"
    "space example_buffer = CHUNK_SIZE" "avail example_buffer = 0"
proof -
  have r: "ring example_buffer = buffer_chunks example_buffer"
    by (simp add: ring_def example_buffer_def)
  show "buffer_inv example_buffer"
    by (rule buffer_invI [of _ "[]" "buffer_chunks example_buffer"])
      (use CHUNK_SIZE_bounds in \<open>auto simp: ring_split_def ring_def chunk_ok_def list_all_iff example_buffer_def
        dest: in_set_replicate [THEN iffD1] list.set_sel(2)\<close>)
  show "content example_buffer = []"
    by (simp add: content_def r) (simp add: example_buffer_def payload_def)
  show "space example_buffer = CHUNK_SIZE" "avail example_buffer = 0"
    by (simp_all add: space_def avail_def buffer_get_wpos_def buffer_get_rpos_def chunk_at_def
          example_buffer_def)
qed

text \<open>
  C3. The ring buffer is a queue of bytes: whatever producer and consumer rounds are run on a
  well-formed buffer, in whatever order, no round faults, the buffer stays well formed, and the
  bytes that were in it followed by the bytes put in are exactly the bytes taken out followed by
  the bytes still in it. No byte is lost, duplicated or reordered.
\<close>

theorem buffer_fifo:
  assumes "buffer_inv b"
  shows "\<exists>i out b'. buffer_run es b = (i, out, Some b') \<and> buffer_inv b' \<and>
           content b @ i = out @ content b'"
  using audio.run_fifo [OF assms] by (simp add: buffer_run_def)

theorem buffer_fifo_witness:
  "buffer_inv example_buffer \<and>
   (\<exists>i out b'. buffer_run [Put [1, 2, 3], Put [], Get 2] example_buffer = (i, out, Some b') \<and>
      buffer_inv b' \<and> content example_buffer @ i = out @ content b')"
  using buffer_fifo [OF example_buffer_inv(1)] example_buffer_inv(1) by blast

text \<open>
  C4. A producer round and a consumer round that are both possible on a buffer commute: either
  order is possible, the consumer gets the same bytes and the final buffer is the same. The two
  threads may therefore hold their positions at the same time without locking the data.
\<close>

theorem buffer_threads_commute:
  assumes "buffer_push xs b = Some b1" and "buffer_pop n b = Some (ys, b2)"
  shows "\<exists>b3. buffer_pop n b1 = Some (ys, b3) \<and> buffer_push xs b2 = Some b3"
  using push_pop_commute [OF assms] .

theorem buffer_threads_commute_witness:
  "let b = example_buffer\<lparr>buffer_widx := 1, buffer_chunks :=
         [(buffer_chunks example_buffer ! 0)\<lparr>c_h := 3, c_filled := True\<rparr>, buffer_chunks example_buffer ! 1]\<rparr>
   in \<exists>b1 ys b2. buffer_push [7] b = Some b1 \<and> buffer_pop 2 b = Some (ys, b2) \<and>
        (\<exists>b3. buffer_pop 2 b1 = Some (ys, b3) \<and> buffer_push [7] b2 = Some b3)"
proof -
  let ?b = "example_buffer\<lparr>buffer_widx := 1, buffer_chunks :=
         [(buffer_chunks example_buffer ! 0)\<lparr>c_h := 3, c_filled := True\<rparr>, buffer_chunks example_buffer ! 1]\<rparr>"
  have c: "chunk_at ?b (buffer_widx ?b) = Some (buffer_chunks example_buffer ! 1)"
    and d: "chunk_at ?b (buffer_ridx ?b) = Some ((buffer_chunks example_buffer ! 0)\<lparr>c_h := 3, c_filled := True\<rparr>)"
    by (simp_all add: chunk_at_def example_buffer_def)
  obtain b1 where b1: "buffer_push [7] ?b = Some b1"
    unfolding buffer_push_eq [OF c]
    by (simp add: example_buffer_def pushed_def add31_def CHUNK_SIZE_def)
  obtain b2 ys where b2: "buffer_pop 2 ?b = Some (ys, b2)"
    unfolding buffer_pop_eq [OF d] by (simp add: example_buffer_def CHUNK_SIZE_def)
  from buffer_threads_commute [OF b1 b2] b1 b2 show ?thesis by (auto simp: Let_def)
qed

text \<open>
  Neither position query faults on a well-formed buffer, and a writable region that is offered
  has at least 1024 bytes, as the comment of \<^verbatim>\<open>buffer_get_wpos\<close> guarantees; a readable region that is
  offered is not empty and lies within the chunk.
\<close>

theorem buffer_positions:
  assumes "buffer_inv b"
  shows "\<exists>rn rp wn wp. buffer_get_rpos b = Some (rn, rp) \<and> buffer_get_wpos b = Some (wn, wp) \<and>
     (wn = 0 \<or> 1024 \<le> wn) \<and> wn \<le> int CHUNK_SIZE \<and> (wp = None \<longleftrightarrow> wn = 0) \<and>
     0 \<le> rn \<and> rn \<le> int CHUNK_SIZE \<and> (rp = None \<longleftrightarrow> rn = 0)"
  using get_rpos_cases [OF assms] get_wpos_cases [OF assms]
  by (auto simp: chunk_ok_def)

theorem buffer_positions_witness:
  "buffer_inv example_buffer \<and> (\<exists>rn rp wn wp. buffer_get_rpos example_buffer = Some (rn, rp) \<and>
     buffer_get_wpos example_buffer = Some (wn, wp) \<and>
     (wn = 0 \<or> 1024 \<le> wn) \<and> wn \<le> int CHUNK_SIZE \<and> (wp = None \<longleftrightarrow> wn = 0) \<and>
     0 \<le> rn \<and> rn \<le> int CHUNK_SIZE \<and> (rp = None \<longleftrightarrow> rn = 0))"
  using buffer_positions [OF example_buffer_inv(1)] example_buffer_inv(1) by blast

text \<open>
  The fill level that \<^verbatim>\<open>buffer_get_filled_chunks\<close> derives from the two indices is the number of
  chunks that are marked filled, also when the indices are equal.
\<close>

theorem buffer_filled_level:
  assumes "buffer_inv b"
  shows "buffer_get_filled_chunks b = Some (int (length (filter c_filled (buffer_chunks b))))"
proof -
  from assms obtain fs us where s: "ring_split b fs us" by (rule buffer_invE)
  then have "filter c_filled (ring b) = fs" by (auto simp: ring_split_def)
  then have "length (filter c_filled (buffer_chunks b)) = length fs"
    by (metis ring_def rotate_filter_length)
  then show ?thesis using get_filled_chunks_eq [OF assms s] by simp
qed

theorem buffer_filled_level_witness:
  "buffer_inv example_buffer \<and>
   buffer_get_filled_chunks example_buffer
     = Some (int (length (filter c_filled (buffer_chunks example_buffer))))"
  using buffer_filled_level [OF example_buffer_inv(1)] example_buffer_inv(1) by simp

end
