(* ===== verification/Pcm.thy ===== *)
theory Pcm
  imports Prelude
begin

text \<open>
  Sample formats and sample conversion: the bit fields of \<^verbatim>\<open>src/app/common/sf.h\<close>, the byte order
  helpers of \<^verbatim>\<open>src/app/common/utils.h\<close>, the converters and tables of \<^verbatim>\<open>src/app/pcm.c\<close>. The code is
  modelled for a little endian host (\<^verbatim>\<open>WORDS_BIGENDIAN\<close> not defined). A sample array is a list of
  \<open>8 word\<close> or \<open>16 word\<close>; the length of the list is the \<open>count\<close> argument of the converters.
\<close>

unbundle bit_operations_syntax

section \<open>Sample formats (sf.h)\<close>

type_synonym sample_format = u32

definition SF_BIGENDIAN_MASK :: u32 where "SF_BIGENDIAN_MASK = 0x00000001"
definition SF_SIGNED_MASK :: u32 where "SF_SIGNED_MASK = 0x00000002"
definition SF_BITS_MASK :: u32 where "SF_BITS_MASK = 0x00000038"
definition SF_RATE_MASK :: u32 where "SF_RATE_MASK = 0x00ffffc0"
definition SF_CHANNELS_MASK :: u32 where "SF_CHANNELS_MASK = 0xff000000"

definition sf_get_bigendian :: "sample_format \<Rightarrow> u32" where
  "sf_get_bigendian sf = drop_bit 0 (sf AND SF_BIGENDIAN_MASK)"

definition sf_get_signed :: "sample_format \<Rightarrow> u32" where
  "sf_get_signed sf = drop_bit 1 (sf AND SF_SIGNED_MASK)"

definition sf_get_bits :: "sample_format \<Rightarrow> u32" where
  "sf_get_bits sf = drop_bit 0 (sf AND SF_BITS_MASK)"

definition sf_get_rate :: "sample_format \<Rightarrow> u32" where
  "sf_get_rate sf = drop_bit 6 (sf AND SF_RATE_MASK)"

definition sf_get_channels :: "sample_format \<Rightarrow> u32" where
  "sf_get_channels sf = drop_bit 24 (sf AND SF_CHANNELS_MASK)"

definition sf_signed :: "u32 \<Rightarrow> sample_format" where
  "sf_signed val = push_bit 1 val AND SF_SIGNED_MASK"

definition sf_bits :: "u32 \<Rightarrow> sample_format" where
  "sf_bits val = push_bit 0 val AND SF_BITS_MASK"

definition sf_rate :: "u32 \<Rightarrow> sample_format" where
  "sf_rate val = push_bit 6 val AND SF_RATE_MASK"

definition sf_channels :: "u32 \<Rightarrow> sample_format" where
  "sf_channels val = push_bit 24 val AND SF_CHANNELS_MASK"

definition sf_bigendian :: "u32 \<Rightarrow> sample_format" where
  "sf_bigendian val = push_bit 0 val AND SF_BIGENDIAN_MASK"

definition sf_host_endian :: sample_format where
  "sf_host_endian = sf_bigendian 0"

definition sf_get_sample_size :: "sample_format \<Rightarrow> u32" where
  "sf_get_sample_size sf = drop_bit 3 (sf_get_bits sf)"

definition sf_get_frame_size :: "sample_format \<Rightarrow> u32" where
  "sf_get_frame_size sf = sf_get_sample_size sf * sf_get_channels sf"

definition sf_get_second_size :: "sample_format \<Rightarrow> u32" where
  "sf_get_second_size sf = sf_get_rate sf * sf_get_frame_size sf"

section \<open>Byte order (utils.h)\<close>

definition swap_uint16 :: "u16 \<Rightarrow> u16" where
  "swap_uint16 x = (drop_bit 8 x AND 0xff) OR push_bit 8 (x AND 0xff)"

definition swap_uint32 :: "u32 \<Rightarrow> u32" where
  "swap_uint32 x = drop_bit 24 (x AND 0xff000000) OR drop_bit 8 (x AND 0x00ff0000)
     OR push_bit 8 (x AND 0x0000ff00) OR push_bit 24 (x AND 0x000000ff)"

definition read_le16 :: "u8 \<Rightarrow> u8 \<Rightarrow> u16" where
  "read_le16 b0 b1 = ucast b0 OR push_bit 8 (ucast b1)"

text \<open>An \<open>int16_t\<close> array as it lies in memory on a little endian host.\<close>

fun s16_of_bytes :: "u8 list \<Rightarrow> u16 list" where
  "s16_of_bytes (b0 # b1 # bs) = read_le16 b0 b1 # s16_of_bytes bs"
| "s16_of_bytes _ = []"

fun bytes_of_s16 :: "u16 list \<Rightarrow> u8 list" where
  "bytes_of_s16 [] = []"
| "bytes_of_s16 (x # xs) = ucast x # ucast (drop_bit 8 x) # bytes_of_s16 xs"

section \<open>Converters (pcm.c)\<close>

text \<open>\<open>d[j++] = sample; d[j++] = sample\<close> for each source sample.\<close>

definition convert_u8_1ch_to_s16_2ch :: "u8 list \<Rightarrow> u16 list" where
  "convert_u8_1ch_to_s16_2ch src =
     concat (map (\<lambda>s. let sample = push_bit 8 (ucast s) - 32768 in [sample, sample]) src)"

definition convert_s8_1ch_to_s16_2ch :: "u8 list \<Rightarrow> u16 list" where
  "convert_s8_1ch_to_s16_2ch src =
     concat (map (\<lambda>s. let sample = push_bit 8 (scast s) in [sample, sample]) src)"

text \<open>The source pointer is declared \<open>const int8_t *\<close> although the data is unsigned.\<close>

definition convert_u8_2ch_to_s16_2ch :: "u8 list \<Rightarrow> u16 list" where
  "convert_u8_2ch_to_s16_2ch src = map (\<lambda>s. push_bit 8 (scast s) - 32768) src"

definition convert_s8_2ch_to_s16_2ch :: "u8 list \<Rightarrow> u16 list" where
  "convert_s8_2ch_to_s16_2ch src = map (\<lambda>s. push_bit 8 (scast s)) src"

definition convert_u16_le_to_s16_le :: "u16 list \<Rightarrow> u16 list" where
  "convert_u16_le_to_s16_le buf = map (\<lambda>u. u - 32768) buf"

definition convert_u16_be_to_s16_le :: "u16 list \<Rightarrow> u16 list" where
  "convert_u16_be_to_s16_le buf = map (\<lambda>u. swap_uint16 u - 32768) buf"

definition swap_s16_byte_order :: "u16 list \<Rightarrow> u16 list" where
  "swap_s16_byte_order buf = map swap_uint16 buf"

definition convert_16_1ch_to_16_2ch :: "u16 list \<Rightarrow> u16 list" where
  "convert_16_1ch_to_16_2ch src = concat (map (\<lambda>s. [s, s]) src)"

text \<open>The two tables, with the element type of the source array made explicit.\<close>

datatype pcm_conv_func =
    Conv8 "u8 list \<Rightarrow> u16 list"
  | Conv16 "u16 list \<Rightarrow> u16 list"

definition pcm_conv :: "pcm_conv_func option list" where
  "pcm_conv =
     [Some (Conv8 convert_u8_1ch_to_s16_2ch),
      Some (Conv8 convert_u8_2ch_to_s16_2ch),
      Some (Conv8 convert_s8_1ch_to_s16_2ch),
      Some (Conv8 convert_s8_2ch_to_s16_2ch),
      Some (Conv16 convert_16_1ch_to_16_2ch),
      None,
      Some (Conv16 convert_16_1ch_to_16_2ch),
      None]"

definition pcm_conv_in_place :: "(u16 list \<Rightarrow> u16 list) option list" where
  "pcm_conv_in_place =
     [None, None, None, None,
      Some convert_u16_le_to_s16_le,
      Some convert_u16_be_to_s16_le,
      None,
      Some swap_s16_byte_order]"

section \<open>Facts about the bit fields\<close>

named_theorems sf_defs \<open>accessors of the sample format\<close>

declare sf_get_bigendian_def [sf_defs] sf_get_signed_def [sf_defs] sf_get_bits_def [sf_defs]
  sf_get_rate_def [sf_defs] sf_get_channels_def [sf_defs]
  sf_signed_def [sf_defs] sf_bits_def [sf_defs] sf_rate_def [sf_defs] sf_channels_def [sf_defs]
  sf_bigendian_def [sf_defs]

text \<open>Each mask as a run of bits, so that \<open>bit_simps\<close> applies.\<close>

lemma sf_masks [sf_defs]:
  "SF_BIGENDIAN_MASK = mask 1" "SF_SIGNED_MASK = push_bit 1 (mask 1)"
  "SF_BITS_MASK = push_bit 3 (mask 3)" "SF_RATE_MASK = push_bit 6 (mask 18)"
  "SF_CHANNELS_MASK = push_bit 24 (mask 8)"
  by (simp_all add: SF_BIGENDIAN_MASK_def SF_SIGNED_MASK_def SF_BITS_MASK_def SF_RATE_MASK_def
      SF_CHANNELS_MASK_def mask_eq_exp_minus_1)

lemma sf_roundtrip_aux:
  fixes be sg bits rate ch :: u32
  assumes "be < 2 ^ 1" "sg < 2 ^ 1" "rate < 2 ^ 18" "ch < 2 ^ 8" "bits AND push_bit 3 (mask 3) = bits"
  defines "sf \<equiv> sf_bigendian be OR sf_signed sg OR sf_bits bits OR sf_rate rate OR sf_channels ch"
  shows "sf_get_bigendian sf = be" "sf_get_signed sf = sg" "sf_get_bits sf = bits"
    "sf_get_rate sf = rate" "sf_get_channels sf = ch"
proof -
  have b: "bit be n \<Longrightarrow> n = 0" "bit sg n \<Longrightarrow> n = 0" "bit rate n \<Longrightarrow> n < 18" "bit ch n \<Longrightarrow> n < 8" for n
    using bit_less_exp [OF assms(1)] bit_less_exp [OF assms(2)] bit_less_exp [OF assms(3)]
      bit_less_exp [OF assms(4)] by auto
  have bits: "bit bits n \<Longrightarrow> 3 \<le> n \<and> n < 6" for n
    using arg_cong [OF assms(5), of "\<lambda>w. bit w n"] by (auto simp: bit_simps)
  have d: "bit (sg * 2) (Suc 0) \<longleftrightarrow> bit sg 0"
    using bit_double_iff [of sg "Suc 0"] by (simp only: mult.commute [of sg]) simp
  have sf: "bit sf n \<longleftrightarrow> (n = 0 \<and> bit be 0) \<or> (n = 1 \<and> bit sg 0) \<or> (3 \<le> n \<and> n < 6 \<and> bit bits n)
     \<or> (6 \<le> n \<and> n < 24 \<and> bit rate (n - 6)) \<or> (24 \<le> n \<and> n < 32 \<and> bit ch (n - 24))" for n
    by (cases "n = 0"; cases "n = 1") (auto simp: sf_def sf_defs bit_simps d)
  show "sf_get_bigendian sf = be"
    by (rule bit_word_eqI) (auto simp: sf_defs bit_simps sf dest: b)
  show "sf_get_signed sf = sg"
    by (rule bit_word_eqI) (auto simp: sf_defs bit_simps sf dest: b)
  show "sf_get_bits sf = bits"
    by (rule bit_word_eqI) (auto simp: sf_defs bit_simps sf dest: bits)
  show "sf_get_rate sf = rate"
    by (rule bit_word_eqI) (auto simp: sf_defs bit_simps sf dest: b)
  show "sf_get_channels sf = ch"
    by (rule bit_word_eqI) (auto simp: sf_defs bit_simps sf dest: b)
qed

section \<open>Facts about samples\<close>

lemma bit_swap_uint16:
  "bit (swap_uint16 x) n \<longleftrightarrow> (if n < 8 then bit x (n + 8) else if n < 16 then bit x (n - 8) else False)"
proof -
  have m: "(0xff :: u16) = mask 8" by (simp add: mask_eq_exp_minus_1)
  show ?thesis unfolding swap_uint16_def m by (auto simp: bit_simps add.commute dest: bit_imp_le_length)
qed

lemma bit_swap_uint32:
  "bit (swap_uint32 x) n \<longleftrightarrow>
     (if n < 8 then bit x (n + 24) else if n < 16 then bit x (n + 8)
      else if n < 24 then bit x (n - 8) else if n < 32 then bit x (n - 24) else False)"
proof -
  have m: "(0xff :: u32) = mask 8" "(0xff00 :: u32) = push_bit 8 (mask 8)"
    "(0xff0000 :: u32) = push_bit 16 (mask 8)" "(0xff000000 :: u32) = push_bit 24 (mask 8)"
    by (simp_all add: mask_eq_exp_minus_1)
  consider "n < 8" | "8 \<le> n" "n < 16" | "16 \<le> n" "n < 24" | "24 \<le> n" "n < 32" | "32 \<le> n"
    by linarith
  then show ?thesis unfolding swap_uint32_def m
    by cases (auto simp: bit_simps add.commute dest: bit_imp_le_length)
qed

lemma swap_uint16_swap [simp]: "swap_uint16 (swap_uint16 x) = x"
  by (rule bit_word_eqI) (auto simp: bit_swap_uint16)

lemma swap_uint32_swap [simp]: "swap_uint32 (swap_uint32 x) = x"
  by (rule bit_word_eqI) (auto simp: bit_swap_uint32)

lemma s16_bytes_roundtrip [simp]: "s16_of_bytes (bytes_of_s16 xs) = xs"
proof (induction xs)
  case (Cons x xs)
  have "read_le16 (ucast x) (ucast (drop_bit 8 x)) = x"
    unfolding read_le16_def by (rule bit_word_eqI) (auto simp: bit_simps)
  with Cons show ?case by simp
qed simp

lemma length_bytes_of_s16 [simp]: "length (bytes_of_s16 xs) = 2 * length xs"
  by (induction xs) simp_all

text \<open>The value of a signed 16-bit sample.\<close>

lemma sint16_eq: "sint (w :: u16) = (uint w + 32768) mod 65536 - 32768"
  by (simp add: sint_uint signed_take_bit_eq_take_bit_shift take_bit_eq_mod)

lemma sint_minus_32768: "sint (u - 32768 :: u16) = uint u - 32768"
proof -
  have b: "uint u < 65536" using uint_lt2p [of u] by simp
  have "uint (u - 32768) = (uint u - 32768) mod 65536"
    by (simp add: uint_word_ariths)
  then have "(uint (u - 32768) + 32768) mod 65536 = uint u"
    using b by (simp add: mod_simps)
  then show ?thesis by (simp add: sint16_eq)
qed

lemma uint_push8: "uint (push_bit 8 (ucast s) :: u16) = 256 * uint (s :: u8)"
proof -
  have b: "uint s < 256" using uint_lt2p [of s] by simp
  have "(push_bit 8 (ucast s) :: u16) = word_of_int (uint s) * word_of_int 256"
    unfolding push_bit_eq_mult ucast_eq [of s] by simp
  also have "\<dots> = word_of_int (uint s * 256)" by (simp only: wi_hom_mult)
  finally have "uint (push_bit 8 (ucast s) :: u16) = take_bit 16 (uint s * 256)"
    by (simp only: uint_word_of_int_eq) simp
  then show ?thesis using b by (simp add: take_bit_int_eq_self)
qed

lemma sint_push8: "sint (push_bit 8 (scast s) :: u16) = 256 * sint (s :: u8)"
proof -
  have b: "- 128 \<le> sint s" "sint s < 128"
    using sint_greater_eq [of s] sint_less [of s] by simp_all
  have "(push_bit 8 (scast s) :: u16) = word_of_int (sint s) * word_of_int 256"
    unfolding push_bit_eq_mult scast_eq [of s] by simp
  also have "\<dots> = word_of_int (sint s * 256)" by (simp only: wi_hom_mult)
  finally have "sint (push_bit 8 (scast s) :: u16) = signed_take_bit 15 (sint s * 256)"
    by (simp only: sint_sbintrunc') simp
  then show ?thesis using b by (simp add: signed_take_bit_int_eq_self)
qed

lemma push8_scast_ucast: "(push_bit 8 (scast s) :: u16) = push_bit 8 (ucast (s :: u8))"
  by (rule bit_word_eqI) (auto simp: bit_simps)

end
