(* ===== verification/Input.thy ===== *)
theory Input
  imports Pcm
begin

text \<open>
  The input handle of \<^verbatim>\<open>src/app/input.c\<close>: creating, opening, reading, seeking, closing and deleting
  a track's decoder. The decoder plugins themselves, the file system and the network are the
  environment: what they answer is an argument of the operation that asks. The theory proves that
  the handle keeps its open/closed protocol and that the conversion that \<^verbatim>\<open>ip_setup\<close> selects turns
  every format of at most 16 bits and two channels into 16-bit signed stereo with the right values.
\<close>

unbundle bit_operations_syntax

section \<open>The handle\<close>

type_synonym channel_map = "int list"

definition CHANNELS_MAX :: nat where "CHANNELS_MAX = 32"

text \<open>\<open>CHANNEL_MAP_INIT\<close>: the first position is \<open>CHANNEL_POSITION_INVALID\<close>, the rest is zero.\<close>

definition channel_map_init :: channel_map where
  "channel_map_init = -1 # replicate (CHANNELS_MAX - 1) 0"

definition CHANNEL_POSITION_LEFT :: int where "CHANNEL_POSITION_LEFT = 1"
definition CHANNEL_POSITION_RIGHT :: int where "CHANNEL_POSITION_RIGHT = 2"

definition channel_map_init_stereo :: "channel_map \<Rightarrow> channel_map" where
  "channel_map_init_stereo m = m[0 := CHANNEL_POSITION_LEFT, 1 := CHANNEL_POSITION_RIGHT]"

definition channel_map_equal :: "channel_map \<Rightarrow> channel_map \<Rightarrow> nat \<Rightarrow> bool" where
  "channel_map_equal a b n \<longleftrightarrow> take n a = take n b"

record input_plugin =
  ip_filename :: string
  ip_remote :: bool
  ip_opened :: bool
  ip_eof_flag :: bool
  ip_metadata_flag :: bool
  ip_duration_cache :: int
  ip_sf :: sample_format
  ip_channel_map :: channel_map
  ip_scale :: u32
  ip_conv :: "pcm_conv_func option"
  ip_conv_in_place :: "(u16 list \<Rightarrow> u16 list) option"

definition is_http_url :: "string \<Rightarrow> bool" where
  "is_http_url name \<longleftrightarrow> take 7 name = ''http://''"

text \<open>\<open>pcmConvertScale = -1\<close> as the \<open>int\<close> of the struct; the field is kept as a word.\<close>

definition ip_init :: "string \<Rightarrow> input_plugin" where
  "ip_init filename =
     \<lparr>ip_filename = filename, ip_remote = is_http_url filename, ip_opened = False,
      ip_eof_flag = False, ip_metadata_flag = False, ip_duration_cache = -1, ip_sf = 0,
      ip_channel_map = channel_map_init, ip_scale = -1, ip_conv = None, ip_conv_in_place = None\<rparr>"

definition ip_new :: "string \<Rightarrow> input_plugin" where
  "ip_new filename = ip_init filename"

text \<open>
  What the plugin's \<open>Open\<close> (after locating it by extension, mime type or over HTTP) answers: the
  return code and, on success, the sample format and channel map it stored in the handle.
\<close>

record open_answer =
  oa_rc :: int
  oa_sf :: sample_format
  oa_channel_map :: channel_map

definition ip_open :: "open_answer \<Rightarrow> input_plugin \<Rightarrow> (int \<times> input_plugin) option" where
  "ip_open a ip =
     do { bug_unless (\<not> ip_opened ip);
          if oa_rc a \<noteq> 0
          then Some (oa_rc a, ip_init (ip_filename ip))
          else Some (0, ip\<lparr>ip_sf := oa_sf a, ip_channel_map := oa_channel_map a, ip_opened := True\<rparr>) }"

text \<open>\<open>pcm_conv[i]\<close>: an index past the table is a fault.\<close>

definition table_at :: "'a list \<Rightarrow> u32 \<Rightarrow> 'a option" where
  "table_at t i = (if unat i < length t then Some (t ! unat i) else None)"

definition ip_setup :: "input_plugin \<Rightarrow> input_plugin option" where
  "ip_setup ip =
     (let bits = sf_get_bits (ip_sf ip);
          is_signed = sf_get_signed (ip_sf ip);
          channels = sf_get_channels (ip_sf ip);
          ip = ip\<lparr>ip_scale := 1, ip_conv := None, ip_conv_in_place := None\<rparr>
      in if bits \<le> 16 \<and> channels \<le> 2 then
           (let msk = (drop_bit 2 bits AND 4) OR push_bit 1 is_signed
            in do { conv \<leftarrow> table_at pcm_conv (msk OR (channels - 1));
                    conv_in_place \<leftarrow> table_at pcm_conv_in_place (msk OR sf_get_bigendian (ip_sf ip));
                    Some (ip\<lparr>ip_conv := conv, ip_conv_in_place := conv_in_place,
                             ip_scale := (3 - channels) * (3 - bits div 8)\<rparr>) })
         else Some ip)"

text \<open>
  \<open>ip_close\<close> calls the plugin's \<open>Close\<close> through \<open>ops\<close>, which only \<open>ip_open\<close> sets. Its \<open>BUG_ON\<close> is on the plugin,
  whose \<open>Close\<close> has to release the private data; that is taken for granted.
\<close>

definition ip_close :: "input_plugin \<Rightarrow> input_plugin option" where
  "ip_close ip = do { bug_unless (ip_opened ip); Some (ip_init (ip_filename ip)) }"

text \<open>
  The answer of \<open>select\<close> and of the plugin's \<open>Read\<close>: not ready, interrupted or to be retried
  (\<open>EAGAIN\<close>), a failure of \<open>select\<close>, an error code of \<open>Read\<close>, or the bytes it stored (none at the end of the track) and whether it
  set \<open>metaDataChanged\<close>.
\<close>

datatype read_answer = ReadAgain | SelectError int | ReadError int | ReadBytes "u8 list" bool

text \<open>What \<open>ip_read\<close> returns: \<open>-1\<close> with \<open>errno = EAGAIN\<close>, an error, or the bytes put in the buffer.\<close>

datatype read_result = RAgain | RError int | RBytes "u8 list"

text \<open>
  The conversions at the end of \<open>ip_read\<close>. \<open>PcmConvert\<close> reads from \<open>tmp\<close>, which is where the plugin
  stored the bytes whenever \<open>ip_setup\<close> has chosen a \<open>PcmConvert\<close> function (the scale is then above 1).
\<close>

definition ip_convert :: "input_plugin \<Rightarrow> u8 list \<Rightarrow> u8 list" where
  "ip_convert ip raw =
     (let buf = (case ip_conv_in_place ip of None \<Rightarrow> raw
                 | Some f \<Rightarrow> bytes_of_s16 (f (s16_of_bytes raw)))
      in case ip_conv ip of None \<Rightarrow> buf
         | Some (Conv8 f) \<Rightarrow> bytes_of_s16 (f buf)
         | Some (Conv16 f) \<Rightarrow> bytes_of_s16 (f (s16_of_bytes buf)))"

text \<open>The number of bytes asked of the plugin when the caller wants \<open>count\<close>.\<close>

definition ip_read_count :: "input_plugin \<Rightarrow> nat \<Rightarrow> nat" where
  "ip_read_count ip count =
     (if sint (ip_scale ip) > 1 then min (count div unat (ip_scale ip)) (8 * 1024) else count)"

definition ip_read :: "(nat \<Rightarrow> read_answer) \<Rightarrow> int \<Rightarrow> input_plugin \<Rightarrow> (read_result \<times> input_plugin) option" where
  "ip_read answer count ip =
     do { bug_unless (\<not> count \<le> 0);
          case answer (ip_read_count ip (nat count)) of
            ReadAgain \<Rightarrow> Some (RAgain, ip)
          | SelectError e \<Rightarrow> Some (RError e, ip)
          | ReadError e \<Rightarrow> Some (RError e, ip\<lparr>ip_eof_flag := True\<rparr>)
          | ReadBytes raw meta \<Rightarrow>
              (let ip = ip\<lparr>ip_metadata_flag := (ip_metadata_flag ip \<or> meta)\<rparr>
               in if raw = [] then Some (RBytes [], ip\<lparr>ip_eof_flag := True\<rparr>)
                  else do { bug_unless (of_nat (length raw) mod sf_get_frame_size (ip_sf ip) = 0);
                            Some (RBytes (ip_convert ip raw), ip) }) }"

definition ip_seek :: "int \<Rightarrow> input_plugin \<Rightarrow> int \<times> input_plugin" where
  "ip_seek rc ip =
     (if ip_remote ip then (-4, ip)
      else if rc = 0 then (0, ip\<lparr>ip_eof_flag := False\<rparr>) else (rc, ip))"

definition ip_duration :: "int \<Rightarrow> input_plugin \<Rightarrow> int \<times> input_plugin" where
  "ip_duration answer ip =
     (if ip_remote ip then (-1, ip)
      else (let ip = (if ip_duration_cache ip = -1 then ip\<lparr>ip_duration_cache := answer\<rparr> else ip)
            in (if ip_duration_cache ip < 0 then -1 else ip_duration_cache ip, ip)))"

definition ip_get_sf :: "input_plugin \<Rightarrow> sample_format option" where
  "ip_get_sf ip = do { bug_unless (ip_opened ip); Some (ip_sf ip) }"

definition ip_get_channel_map :: "input_plugin \<Rightarrow> channel_map option" where
  "ip_get_channel_map ip = do { bug_unless (ip_opened ip); Some (ip_channel_map ip) }"

definition ip_is_remote :: "input_plugin \<Rightarrow> bool" where
  "ip_is_remote ip = ip_remote ip"

definition ip_metadata_changed :: "input_plugin \<Rightarrow> (bool \<times> input_plugin) option" where
  "ip_metadata_changed ip =
     do { bug_unless (ip_opened ip); Some (ip_metadata_flag ip, ip\<lparr>ip_metadata_flag := False\<rparr>) }"

definition ip_eof :: "input_plugin \<Rightarrow> bool option" where
  "ip_eof ip = do { bug_unless (ip_opened ip); Some (ip_eof_flag ip) }"

section \<open>The conversion is exact\<close>

text \<open>
  The specification of a sample: 8-bit samples are scaled by 256, unsigned samples are centred,
  16-bit samples are read in the byte order of the format.
\<close>

definition value8 :: "bool \<Rightarrow> u8 \<Rightarrow> int" where
  "value8 sg b = (if sg then 256 * sint b else 256 * (uint b - 128))"

fun value16 :: "bool \<Rightarrow> bool \<Rightarrow> u8 list \<Rightarrow> int list" where
  "value16 sg be (b0 # b1 # bs) =
     (let u = (if be then read_le16 b1 b0 else read_le16 b0 b1)
      in (if sg then sint u else uint u - 32768) # value16 sg be bs)"
| "value16 sg be _ = []"

definition source_samples :: "sample_format \<Rightarrow> u8 list \<Rightarrow> int list" where
  "source_samples sf raw =
     (if sf_get_bits sf = 8 then map (value8 (sf_get_signed sf = 1)) raw
      else value16 (sf_get_signed sf = 1) (sf_get_bigendian sf = 1) raw)"

definition to_stereo :: "sample_format \<Rightarrow> int list \<Rightarrow> int list" where
  "to_stereo sf xs = (if sf_get_channels sf = 1 then concat (map (\<lambda>x. [x, x]) xs) else xs)"

lemma sf_flag_cases: "sf_get_signed sf = 0 \<or> sf_get_signed sf = 1"
  "sf_get_bigendian sf = 0 \<or> sf_get_bigendian sf = 1"
proof -
  have "sf_get_signed sf = of_bool (bit sf 1)"
    by (rule bit_word_eqI) (auto simp: sf_defs bit_simps)
  then show "sf_get_signed sf = 0 \<or> sf_get_signed sf = 1" by simp
  have "sf_get_bigendian sf = of_bool (bit sf 0)"
    by (rule bit_word_eqI) (auto simp: sf_defs bit_simps)
  then show "sf_get_bigendian sf = 0 \<or> sf_get_bigendian sf = 1" by simp
qed

lemma swap_read_le16: "swap_uint16 (read_le16 b0 b1) = read_le16 b1 b0"
proof (rule bit_word_eqI)
  fix n assume "n < LENGTH(16)"
  then show "bit (swap_uint16 (read_le16 b0 b1)) n = bit (read_le16 b1 b0) n"
    by (auto simp: bit_swap_uint16 read_le16_def bit_simps dest: bit_imp_le_length)
qed

lemma value16_eq:
  "value16 sg be raw = map (\<lambda>u. let u = (if be then swap_uint16 u else u)
     in if sg then sint u else uint u - 32768) (s16_of_bytes raw)"
  by (induction raw rule: s16_of_bytes.induct) (auto simp: swap_read_le16 Let_def)

text \<open>Each converter yields the specified values.\<close>

lemma conv_values:
  "map sint (convert_u8_1ch_to_s16_2ch src) = concat (map (\<lambda>b. [value8 False b, value8 False b]) src)"
  "map sint (convert_s8_1ch_to_s16_2ch src) = concat (map (\<lambda>b. [value8 True b, value8 True b]) src)"
  "map sint (convert_u8_2ch_to_s16_2ch src) = map (value8 False) src"
  "map sint (convert_s8_2ch_to_s16_2ch src) = map (value8 True) src"
  by (induction src)
    (simp_all add: convert_u8_1ch_to_s16_2ch_def convert_s8_1ch_to_s16_2ch_def
      convert_u8_2ch_to_s16_2ch_def convert_s8_2ch_to_s16_2ch_def value8_def Let_def
      sint_minus_32768 sint_push8 [unfolded push8_scast_ucast] uint_push8 push8_scast_ucast)

lemma conv16_values:
  "map sint (convert_u16_le_to_s16_le src) = map (\<lambda>u. uint u - 32768) src"
  "map sint (convert_u16_be_to_s16_le src) = map (\<lambda>u. uint (swap_uint16 u) - 32768) src"
  "map sint (swap_s16_byte_order src) = map (\<lambda>u. sint (swap_uint16 u)) src"
  "map sint (convert_16_1ch_to_16_2ch src) = concat (map (\<lambda>x. [x, x]) (map sint src))"
  by (induction src)
    (simp_all add: convert_u16_le_to_s16_le_def convert_u16_be_to_s16_le_def
      swap_s16_byte_order_def convert_16_1ch_to_16_2ch_def sint_minus_32768)

text \<open>What \<open>ip_setup\<close> selects.\<close>

lemma ip_setup_8:
  assumes "sf_get_bits (ip_sf ip) = 8"
    and "sf_get_channels (ip_sf ip) = 1 \<or> sf_get_channels (ip_sf ip) = 2"
  shows "ip_setup ip = Some (ip\<lparr>ip_conv_in_place := None,
    ip_scale := (if sf_get_channels (ip_sf ip) = 1 then 4 else 2),
    ip_conv := Some (Conv8
     (if sf_get_signed (ip_sf ip) = 1
      then if sf_get_channels (ip_sf ip) = 1 then convert_s8_1ch_to_s16_2ch else convert_s8_2ch_to_s16_2ch
      else if sf_get_channels (ip_sf ip) = 1 then convert_u8_1ch_to_s16_2ch else convert_u8_2ch_to_s16_2ch))\<rparr>)"
  using assms sf_flag_cases [of "ip_sf ip"]
  by (elim disjE)
    (simp_all add: ip_setup_def table_at_def pcm_conv_def pcm_conv_in_place_def Let_def)

lemma ip_setup_16:
  assumes "sf_get_bits (ip_sf ip) = 16"
    and "sf_get_channels (ip_sf ip) = 1 \<or> sf_get_channels (ip_sf ip) = 2"
  shows "ip_setup ip = Some (ip\<lparr>ip_conv_in_place :=
      (if sf_get_signed (ip_sf ip) = 1
       then if sf_get_bigendian (ip_sf ip) = 1 then Some swap_s16_byte_order else None
       else if sf_get_bigendian (ip_sf ip) = 1 then Some convert_u16_be_to_s16_le
       else Some convert_u16_le_to_s16_le),
    ip_scale := (if sf_get_channels (ip_sf ip) = 1 then 2 else 1),
    ip_conv := (if sf_get_channels (ip_sf ip) = 1 then Some (Conv16 convert_16_1ch_to_16_2ch) else None)\<rparr>)"
  using assms sf_flag_cases [of "ip_sf ip"]
  by (elim disjE)
    (simp_all add: ip_setup_def table_at_def pcm_conv_def pcm_conv_in_place_def Let_def)

lemma convert_8_exact:
  assumes "sf_get_bits (ip_sf ip) = 8" "ip_setup ip = Some ip'"
    and "sf_get_channels (ip_sf ip) = 1 \<or> sf_get_channels (ip_sf ip) = 2"
  shows "map sint (s16_of_bytes (ip_convert ip' raw)) = to_stereo (ip_sf ip) (source_samples (ip_sf ip) raw)"
  using assms(2) unfolding ip_setup_8 [OF assms(1,3)]
  by (auto simp: ip_convert_def to_stereo_def source_samples_def assms(1) conv_values map_concat comp_def)

lemma convert_16_exact:
  assumes "sf_get_bits (ip_sf ip) = 16" "ip_setup ip = Some ip'" "even (length raw)"
    and "sf_get_channels (ip_sf ip) = 1 \<or> sf_get_channels (ip_sf ip) = 2"
  shows "map sint (s16_of_bytes (ip_convert ip' raw)) = to_stereo (ip_sf ip) (source_samples (ip_sf ip) raw)"
  using assms(2) unfolding ip_setup_16 [OF assms(1,4)]
  by (auto simp: ip_convert_def to_stereo_def source_samples_def assms(1) conv16_values value16_eq Let_def simp del: map_map)


lemma length_s16_of_bytes: "length (s16_of_bytes bs) = length bs div 2"
  by (induction bs rule: s16_of_bytes.induct) simp_all

lemma length_dup: "length (concat (map (\<lambda>x. [f x, f x]) xs)) = 2 * length xs"
  by (induction xs) simp_all

lemma length_conv:
  "length (convert_u8_1ch_to_s16_2ch src) = 2 * length src"
  "length (convert_s8_1ch_to_s16_2ch src) = 2 * length src"
  "length (convert_u8_2ch_to_s16_2ch src) = length src"
  "length (convert_s8_2ch_to_s16_2ch src) = length src"
  "length (convert_u16_le_to_s16_le src16) = length src16"
  "length (convert_u16_be_to_s16_le src16) = length src16"
  "length (swap_s16_byte_order src16) = length src16"
  "length (convert_16_1ch_to_16_2ch src16) = 2 * length src16"
  by (simp_all add: convert_u8_1ch_to_s16_2ch_def convert_s8_1ch_to_s16_2ch_def
      convert_u8_2ch_to_s16_2ch_def convert_s8_2ch_to_s16_2ch_def convert_u16_le_to_s16_le_def
      convert_u16_be_to_s16_le_def swap_s16_byte_order_def convert_16_1ch_to_16_2ch_def Let_def length_dup)

lemma length_ip_convert:
  assumes "sf_get_bits (ip_sf ip) = 8 \<or> sf_get_bits (ip_sf ip) = 16"
    and "sf_get_channels (ip_sf ip) = 1 \<or> sf_get_channels (ip_sf ip) = 2"
    and "ip_setup ip = Some ip'"
  shows "length (ip_convert ip' raw) \<le> unat (ip_scale ip') * length raw"
    and "ip_scale ip' \<in> {1, 2, 4}"
  using assms ip_setup_8 [of ip] ip_setup_16 [of ip]
  by (auto simp: ip_convert_def length_conv length_s16_of_bytes split: if_splits)

section \<open>Properties\<close>

text \<open>
  C7. For every source format of 8 or 16 bits and one or two channels, whatever its signedness and
  byte order, \<^verbatim>\<open>ip_setup\<close> finds table entries (no index is out of range), and the conversion that
  \<^verbatim>\<open>ip_read\<close> then applies yields 16-bit signed stereo whose sample values are exactly those of the
  source: 8-bit values scaled by 256, unsigned values centred at zero, mono duplicated. This covers
  the converter that reads unsigned bytes through an \<open>int8_t\<close> pointer.
\<close>

theorem pcm_conversion_exact:
  assumes "sf_get_bits (ip_sf ip) = 8 \<or> sf_get_bits (ip_sf ip) = 16 \<and> even (length raw)"
    and "sf_get_channels (ip_sf ip) = 1 \<or> sf_get_channels (ip_sf ip) = 2"
  shows "\<exists>ip'. ip_setup ip = Some ip' \<and>
    map sint (s16_of_bytes (ip_convert ip' raw)) = to_stereo (ip_sf ip) (source_samples (ip_sf ip) raw)"
  using assms ip_setup_8 [of ip] ip_setup_16 [of ip] convert_8_exact [of ip] convert_16_exact [of ip]
  by blast

theorem pcm_conversion_exact_witness:
  "let ip = (ip_init ''a.wav'')\<lparr>ip_sf := sf_bits 8 OR sf_rate 8000 OR sf_channels 1\<rparr>
   in sf_get_bits (ip_sf ip) = 8 \<and> sf_get_channels (ip_sf ip) = 1 \<and>
      (\<exists>ip'. ip_setup ip = Some ip' \<and> map sint (s16_of_bytes (ip_convert ip' [0, 128, 255]))
          = [-32768, -32768, 0, 0, 32512, 32512])"
proof -
  let ?ip = "(ip_init ''a.wav'')\<lparr>ip_sf := sf_bits 8 OR sf_rate 8000 OR sf_channels 1\<rparr>"
  have f: "sf_get_bits (ip_sf ?ip) = 8" "sf_get_channels (ip_sf ?ip) = 1" "sf_get_signed (ip_sf ?ip) = 0"
    by (simp_all add: sf_get_bits_def sf_get_channels_def sf_get_signed_def sf_bits_def sf_rate_def sf_channels_def
          SF_BITS_MASK_def SF_RATE_MASK_def SF_CHANNELS_MASK_def SF_SIGNED_MASK_def)
  have "to_stereo (ip_sf ?ip) (source_samples (ip_sf ?ip) [0, 128, 255])
          = [-32768, -32768, 0, 0, 32512, 32512]"
    unfolding to_stereo_def source_samples_def f by (simp add: value8_def)
  with pcm_conversion_exact [of ?ip "[0, 128, 255]"] f show ?thesis by (simp add: Let_def)
qed

text \<open>
  The fields packed into a sample format are read back unchanged when they fit their bit
  fields: the accessors and constructors of \<^verbatim>\<open>sf.h\<close> are inverse and the fields do not overlap.
\<close>

theorem sf_roundtrip:
  fixes be sg bits rate ch :: u32
  assumes "be < 2" and "sg < 2" and "bits \<in> {8, 16, 24, 32, 40, 48, 56}"
    and "rate < 262144" and "ch < 256"
  shows "let sf = sf_bigendian be OR sf_signed sg OR sf_bits bits OR sf_rate rate OR sf_channels ch
    in sf_get_bigendian sf = be \<and> sf_get_signed sf = sg \<and> sf_get_bits sf = bits \<and>
       sf_get_rate sf = rate \<and> sf_get_channels sf = ch"
proof -
  have "bits AND push_bit 3 (mask 3) = bits"
    using assms(3) by (auto simp: mask_eq_exp_minus_1)
  then show ?thesis
    using sf_roundtrip_aux [of be sg rate ch bits] assms by (simp add: Let_def)
qed

theorem sf_roundtrip_witness:
  "(0 :: u32) < 2 \<and> (1 :: u32) < 2 \<and> (16 :: u32) \<in> {8, 16, 24, 32, 40, 48, 56} \<and>
   (44100 :: u32) < 262144 \<and> (2 :: u32) < 256 \<and>
   (let sf = sf_bigendian 0 OR sf_signed 1 OR sf_bits 16 OR sf_rate 44100 OR sf_channels 2
    in sf_get_bigendian sf = 0 \<and> sf_get_signed sf = 1 \<and> sf_get_bits sf = 16 \<and>
       sf_get_rate sf = 44100 \<and> sf_get_channels sf = 2)"
  using sf_roundtrip [of 0 1 16 44100 2] by simp

text \<open>
  A successful read never returns more bytes than the caller asked for: with a plugin that
  respects the count it is given, the converted bytes fit in the caller's buffer for every format of
  8 or 16 bits and one or two channels.
\<close>

theorem ip_read_fits:
  assumes "sf_get_bits (ip_sf ip) = 8 \<or> sf_get_bits (ip_sf ip) = 16"
    and "sf_get_channels (ip_sf ip) = 1 \<or> sf_get_channels (ip_sf ip) = 2"
    and "ip_setup ip = Some ip'"
    and "\<And>n raw meta. answer n = ReadBytes raw meta \<Longrightarrow> length raw \<le> n"
    and "ip_read answer count ip' = Some (RBytes out, ip'')"
  shows "int (length out) \<le> count"
proof -
  note len = length_ip_convert [OF assms(1-3)]
  let ?n = "ip_read_count ip' (nat count)"
  from assms(5) obtain raw meta where raw: "answer ?n = ReadBytes raw meta" "0 < count"
    "out = (if raw = [] then [] else ip_convert (ip'\<lparr>ip_metadata_flag := ip_metadata_flag ip' \<or> meta\<rparr>) raw)"
    by (auto simp: ip_read_def Let_def bind_eq_Some_conv split: read_answer.splits if_splits)
  have "ip_convert (ip'\<lparr>ip_metadata_flag := ip_metadata_flag ip' \<or> meta\<rparr>) raw = ip_convert ip' raw"
    by (simp add: ip_convert_def)
  then have "length out \<le> unat (ip_scale ip') * length raw" using raw(3) len(1) [of raw] by simp
  also have "\<dots> \<le> unat (ip_scale ip') * ?n" using assms(4) [OF raw(1)] by simp
  also have "\<dots> \<le> nat count" using len(2) by (auto simp: ip_read_count_def)
  finally show ?thesis using raw(2) by simp
qed

theorem ip_read_fits_witness:
  "\<exists>ip' out ip''. ip_setup ((ip_init ''a.wav'')\<lparr>ip_sf := 0x01000008\<rparr>) = Some ip' \<and>
     ip_read (\<lambda>n. ReadBytes (replicate (min 3 n) 0) False) 16 ip' = Some (RBytes out, ip'') \<and>
     int (length out) \<le> 16"
proof -
  let ?ip = "(ip_init ''a.wav'')\<lparr>ip_sf := 0x01000008\<rparr>"
  have f: "sf_get_bits (ip_sf ?ip) = 8" "sf_get_channels (ip_sf ?ip) = 1" "sf_get_frame_size (ip_sf ?ip) = 1"
    by (simp_all add: sf_get_bits_def sf_get_channels_def sf_get_frame_size_def sf_get_sample_size_def
          SF_BITS_MASK_def SF_CHANNELS_MASK_def)
  obtain ip' where ip': "ip_setup ?ip = Some ip'" "ip_scale ip' = 4" "ip_sf ip' = ip_sf ?ip"
    using ip_setup_8 [of ?ip] f by auto
  obtain out ip'' where r: "ip_read (\<lambda>n. ReadBytes (replicate (min 3 n) 0) False) 16 ip' = Some (RBytes out, ip'')"
    using f(3) ip'(2,3) by (simp add: ip_read_def ip_read_count_def)
  have "int (length out) \<le> 16"
    by (rule ip_read_fits [OF _ _ ip'(1) _ r]) (use f in auto)
  with ip'(1) r show ?thesis by blast
qed

end
