(* ===== verification/Channel_Map.thy ===== *)
theory Channel_Map
  imports Input
begin

text \<open>
  Channel maps: the positions of \<^verbatim>\<open>src/app/common/channel-map.h\<close> and the translation of a Microsoft
  channel mask into a map, in the version of \<^verbatim>\<open>src/app/common/channel-map.c\<close> that the build uses and in
  the older version of \<^verbatim>\<open>src/app/common/channelmap.c\<close>. A channel map is the array of
  \<open>CHANNELS_MAX\<close> positions; a position is its enumeration value.
\<close>

unbundle bit_operations_syntax

definition CHANNEL_POSITION_INVALID :: int where "CHANNEL_POSITION_INVALID = -1"
definition CHANNEL_POSITION_MONO :: int where "CHANNEL_POSITION_MONO = 0"

definition channel_map_valid :: "channel_map \<Rightarrow> bool" where
  "channel_map_valid m \<longleftrightarrow> m ! 0 \<noteq> CHANNEL_POSITION_INVALID"

text \<open>
  The table, by enumeration value: front left and right, front centre, LFE, rear left and right,
  front left and right of centre, rear centre, side left and right, top centre, top front left,
  centre and right, top rear left, centre and right.
\<close>

definition gChannelMapWaveEX :: "int list" where
  "gChannelMapWaveEX = [1, 2, 3, 7, 5, 6, 8, 9, 4, 10, 11, 12, 13, 15, 14, 16, 18, 17]"

text \<open>The loop with \<open>map[++j] = \<dots>\<close> (channel-map.c).\<close>

fun wave_ex_loop :: "int list \<Rightarrow> nat \<Rightarrow> u32 \<Rightarrow> nat \<Rightarrow> channel_map \<Rightarrow> nat \<times> channel_map" where
  "wave_ex_loop [] i msk j m = (j, m)"
| "wave_ex_loop (p # ps) i msk j m =
     (if msk AND push_bit i 1 \<noteq> 0 then wave_ex_loop ps (Suc i) msk (Suc j) (m[Suc j := p])
      else wave_ex_loop ps (Suc i) msk j m)"

definition channel_map_init_wave_ex :: "int \<Rightarrow> u32 \<Rightarrow> channel_map \<Rightarrow> channel_map" where
  "channel_map_init_wave_ex channels msk m =
     (if 1 = channels then m[0 := CHANNEL_POSITION_MONO]
      else if channels > 1 \<and> channels < int (length gChannelMapWaveEX) then
        (let msk = (if msk = 0 then push_bit (nat channels) 1 - 1 else msk);
             (j, m) = wave_ex_loop gChannelMapWaveEX 0 msk 0 m
         in if int j \<noteq> channels then m[0 := CHANNEL_POSITION_INVALID] else m)
      else m[0 := CHANNEL_POSITION_INVALID])"

text \<open>The loop with \<open>map[j++] = \<dots>\<close> (channelmap.c).\<close>

fun waveex_loop :: "int list \<Rightarrow> nat \<Rightarrow> u32 \<Rightarrow> nat \<Rightarrow> channel_map \<Rightarrow> nat \<times> channel_map" where
  "waveex_loop [] i msk j m = (j, m)"
| "waveex_loop (p # ps) i msk j m =
     (if msk AND push_bit i 1 \<noteq> 0 then waveex_loop ps (Suc i) msk (Suc j) (m[j := p])
      else waveex_loop ps (Suc i) msk j m)"

definition channel_map_init_waveex :: "int \<Rightarrow> u32 \<Rightarrow> channel_map \<Rightarrow> channel_map" where
  "channel_map_init_waveex channels msk m =
     (if channels = 1 then m[0 := CHANNEL_POSITION_MONO]
      else if channels > 1 \<and> channels < int (length gChannelMapWaveEX) then
        (let msk = (if msk = 0 then push_bit (nat channels) 1 - 1 else msk);
             (j, m) = waveex_loop gChannelMapWaveEX 0 msk 0 m
         in if int j \<noteq> channels then m[0 := CHANNEL_POSITION_INVALID] else m)
      else m[0 := CHANNEL_POSITION_INVALID])"

text \<open>The positions of the bits that are set, in table order.\<close>

fun selected :: "int list \<Rightarrow> nat \<Rightarrow> u32 \<Rightarrow> int list" where
  "selected [] i msk = []"
| "selected (p # ps) i msk =
     (if msk AND push_bit i 1 \<noteq> 0 then p # selected ps (Suc i) msk else selected ps (Suc i) msk)"

section \<open>Facts\<close>

lemma length_selected: "length (selected ps i msk) \<le> length ps"
  by (induction ps arbitrary: i) (auto intro: le_SucI)

lemma waveex_loop_eq:
  "j + length ps \<le> length m \<Longrightarrow>
   waveex_loop ps i msk j m = (j + length (selected ps i msk), overwrite m j (selected ps i msk))"
proof (induction ps arbitrary: i j m)
  case Nil
  then show ?case by (simp add: overwrite_def)
next
  case (Cons p ps)
  have "overwrite (m[j := p]) (Suc j) xs = overwrite m j (p # xs)" for xs
    using Cons.prems by (simp add: overwrite_def take_Suc_conv_app_nth upd_conv_take_nth_drop add.commute)
  with Cons show ?case by simp
qed

lemma wave_ex_loop_eq:
  "Suc j + length ps \<le> length m \<Longrightarrow>
   wave_ex_loop ps i msk j m = (j + length (selected ps i msk), overwrite m (Suc j) (selected ps i msk))"
proof (induction ps arbitrary: i j m)
  case Nil
  then show ?case by (simp add: overwrite_def)
next
  case (Cons p ps)
  have "overwrite (m[Suc j := p]) (Suc (Suc j)) xs = overwrite m (Suc j) (p # xs)" for xs
    using Cons.prems by (simp add: overwrite_def take_Suc_conv_app_nth upd_conv_take_nth_drop add.commute)
  with Cons show ?case by simp
qed

lemma overwrite_0 [simp]: "overwrite m 0 xs = xs @ drop (length xs) m"
  by (simp add: overwrite_def)

lemma overwrite_head: "0 < i \<Longrightarrow> m \<noteq> [] \<Longrightarrow> overwrite m i xs ! 0 = m ! 0"
  by (cases m; cases i) (simp_all add: overwrite_def)

lemma overwrite_head_update: "0 < i \<Longrightarrow> m \<noteq> [] \<Longrightarrow> (overwrite m i xs)[0 := v] ! 0 = v"
  by (cases m; cases i) (simp_all add: overwrite_def)

section \<open>Properties\<close>

text \<open>
  The channel mask translation that the build uses never produces a valid map for more than one
  channel: it writes the positions from index 1 on (\<open>map[++j]\<close>), so the first entry of the map,
  which \<^verbatim>\<open>channel_map_valid\<close> tests, keeps the invalid position that the input handle was initialised
  with.
\<close>

theorem wave_ex_never_valid:
  assumes "length m = CHANNELS_MAX" and "m ! 0 = CHANNEL_POSITION_INVALID" and "channels \<noteq> 1"
  shows "\<not> channel_map_valid (channel_map_init_wave_ex channels msk m)"
proof -
  have "m \<noteq> []" and "Suc 0 + length gChannelMapWaveEX \<le> length m"
    using assms(1) by (auto simp: CHANNELS_MAX_def gChannelMapWaveEX_def)
  then show ?thesis
    using assms(2,3)
    by (auto simp: channel_map_init_wave_ex_def channel_map_valid_def wave_ex_loop_eq overwrite_head overwrite_head_update Let_def
        nth_list_update)
qed

theorem wave_ex_never_valid_witness:
  "length channel_map_init = CHANNELS_MAX \<and> channel_map_init ! 0 = CHANNEL_POSITION_INVALID \<and>
   \<not> channel_map_valid (channel_map_init_wave_ex 2 3 channel_map_init)"
proof -
  have h: "length channel_map_init = CHANNELS_MAX" "channel_map_init ! 0 = CHANNEL_POSITION_INVALID"
    by (simp_all add: channel_map_init_def CHANNEL_POSITION_INVALID_def CHANNELS_MAX_def)
  show ?thesis using h wave_ex_never_valid [OF h, of 2 3] by simp
qed

text \<open>
  The older translation is right: when the mask has as many table positions as there are
  channels, the map starts with exactly those positions in table order.
\<close>

theorem waveex_positions:
  assumes "length m = CHANNELS_MAX" and "1 < channels" and "channels < 18" and "msk \<noteq> 0"
    and "int (length (selected gChannelMapWaveEX 0 msk)) = channels"
  shows "take (nat channels) (channel_map_init_waveex channels msk m) = selected gChannelMapWaveEX 0 msk"
proof -
  let ?s = "selected gChannelMapWaveEX 0 msk"
  have len: "length gChannelMapWaveEX = 18" by (simp add: gChannelMapWaveEX_def)
  then have "0 + length gChannelMapWaveEX \<le> length m"
    using assms(1) by (simp add: CHANNELS_MAX_def)
  from waveex_loop_eq [OF this, of 0 msk]
  have loop: "waveex_loop gChannelMapWaveEX 0 msk 0 m = (length ?s, ?s @ drop (length ?s) m)"
    by simp
  have "channel_map_init_waveex channels msk m = ?s @ drop (length ?s) m"
    using assms(2-5) len by (simp add: channel_map_init_waveex_def loop)
  moreover have "nat channels = length ?s" using assms(5) by simp
  ultimately show ?thesis by simp
qed

theorem waveex_positions_witness:
  "length channel_map_init = CHANNELS_MAX \<and>
   selected gChannelMapWaveEX 0 0x33 = [1, 2, 5, 6] \<and>
   take 4 (channel_map_init_waveex 4 0x33 channel_map_init) = [1, 2, 5, 6]"
proof -
  have h: "length channel_map_init = CHANNELS_MAX"
    by (simp add: channel_map_init_def CHANNELS_MAX_def)
  have s: "selected gChannelMapWaveEX 0 0x33 = [1, 2, 5, 6]"
    by (simp add: gChannelMapWaveEX_def)
  show ?thesis using h s waveex_positions [of channel_map_init 4 "0x33"] by simp
qed

end
