(* ===== verification/Softvol.thy ===== *)
theory Softvol
  imports Complex_Main Pcm
begin

text \<open>
  Software volume and replay gain scaling of \<^verbatim>\<open>src/app/player.c\<close>: the volume table, the scaling of
  16, 24 and 32-bit samples, and \<^verbatim>\<open>scale_samples\<close>, which scales each byte of the buffer once although
  the output may accept only part of what it is offered. Signed overflow, which is undefined in C, is
  a fault. Floating point values are reals.
\<close>

unbundle bit_operations_syntax

section \<open>The model\<close>

definition SOFT_VOL_SCALE :: int where "SOFT_VOL_SCALE = 65536"

definition soft_vol_db :: "int list" where
  "soft_vol_db =
    [0x0000, 0x0110, 0x011c, 0x012f, 0x013d, 0x0152, 0x0161, 0x0179,
     0x018a, 0x01a5, 0x01c1, 0x01d5, 0x01f5, 0x020b, 0x022e, 0x0247,
     0x026e, 0x028a, 0x02b6, 0x02d5, 0x0306, 0x033a, 0x035f, 0x0399,
     0x03c2, 0x0403, 0x0431, 0x0479, 0x04ac, 0x04fd, 0x0553, 0x058f,
     0x05ef, 0x0633, 0x069e, 0x06ea, 0x0761, 0x07b5, 0x083a, 0x0898,
     0x092c, 0x09cb, 0x0a3a, 0x0aeb, 0x0b67, 0x0c2c, 0x0cb6, 0x0d92,
     0x0e2d, 0x0f21, 0x1027, 0x10de, 0x1202, 0x12cf, 0x1414, 0x14f8,
     0x1662, 0x1761, 0x18f5, 0x1a11, 0x1bd3, 0x1db4, 0x1f06, 0x211d,
     0x2297, 0x24ec, 0x2690, 0x292a, 0x2aff, 0x2de5, 0x30fe, 0x332b,
     0x369f, 0x390d, 0x3ce6, 0x3f9b, 0x43e6, 0x46eb, 0x4bb3, 0x4f11,
     0x5466, 0x5a18, 0x5e19, 0x6472, 0x68ea, 0x6ffd, 0x74f8, 0x7cdc,
     0x826a, 0x8b35, 0x9499, 0x9b35, 0xa5ad, 0xad0b, 0xb8b7, 0xc0ee,
     0xcdf1, 0xd71a, 0xe59c, 0xefd3]"

text \<open>A signed result of \<open>w\<close> bits; overflow is a fault.\<close>

definition c_signed :: "nat \<Rightarrow> int \<Rightarrow> int option" where
  "c_signed w x = (if - (2 ^ (w - 1)) \<le> x \<and> x < 2 ^ (w - 1) then Some x else None)"

text \<open>
  The arithmetic that the three \<open>scale_sample\<close> functions share: round \<open>sample * vol / 65536\<close> to the
  nearest integer in \<open>w\<close>-bit arithmetic and clip to \<open>lo\<close> and \<open>hi\<close>.
\<close>

definition scale_sample :: "nat \<Rightarrow> int \<Rightarrow> int \<Rightarrow> int \<Rightarrow> int \<Rightarrow> int option" where
  "scale_sample w lo hi sample vol =
     (if sample < 0 then
        do { p \<leftarrow> c_signed w (sample * vol);
             q \<leftarrow> c_signed w (p - c_div SOFT_VOL_SCALE 2);
             let s = c_div q SOFT_VOL_SCALE;
             Some (if s < lo then lo else s) }
      else
        do { p \<leftarrow> c_signed w (sample * vol);
             q \<leftarrow> c_signed w (p + c_div SOFT_VOL_SCALE 2);
             let s = c_div q SOFT_VOL_SCALE;
             Some (if s > hi then hi else s) })"

definition scale_sample_int16_t :: "int \<Rightarrow> bool \<Rightarrow> u16 \<Rightarrow> u16 option" where
  "scale_sample_int16_t vol swap x =
     do { s \<leftarrow> scale_sample 32 (- 32768) 32767 (sint (if swap then swap_uint16 x else x)) vol;
          Some (if swap then swap_uint16 (word_of_int s) else word_of_int s) }"

definition scale_sample_s24le :: "int \<Rightarrow> int \<Rightarrow> int option" where
  "scale_sample_s24le s vol = scale_sample 64 (- 0x800000) 0x7fffff s vol"

definition scale_sample_int32_t :: "int \<Rightarrow> bool \<Rightarrow> u32 \<Rightarrow> u32 option" where
  "scale_sample_int32_t vol swap x =
     do { s \<leftarrow> scale_sample 64 (- (2 ^ 31)) (2 ^ 31 - 1) (sint (if swap then swap_uint32 x else x)) vol;
          Some (if swap then swap_uint32 (word_of_int s) else word_of_int s) }"

text \<open>
  The loops of \<open>SCALE_SAMPLES\<close> over stereo frames: both channels, only the left, only the right or
  none is scaled; an incomplete last frame is left alone.
\<close>

fun scale_frames :: "(int \<Rightarrow> 'a \<Rightarrow> 'a option) \<Rightarrow> int \<Rightarrow> int \<Rightarrow> 'a list \<Rightarrow> 'a list option" where
  "scale_frames f l r (a # b # xs) =
     do { (a, b) \<leftarrow>
            (if l \<noteq> SOFT_VOL_SCALE \<and> r \<noteq> SOFT_VOL_SCALE then
               do { a \<leftarrow> f l a; b \<leftarrow> f r b; Some (a, b) }
             else if l \<noteq> SOFT_VOL_SCALE then do { a \<leftarrow> f l a; Some (a, b) }
             else if r \<noteq> SOFT_VOL_SCALE then do { b \<leftarrow> f r b; Some (a, b) }
             else Some (a, b));
          xs \<leftarrow> scale_frames f l r xs;
          Some (a # b # xs) }"
| "scale_frames f l r xs = Some xs"

definition read_s24le :: "u8 \<times> u8 \<times> u8 \<Rightarrow> int" where
  "read_s24le = (\<lambda>(b0, b1, b2). uint b0 + uint b1 * 2 ^ 8 + sint b2 * 2 ^ 16)"

definition write_s24le :: "int \<Rightarrow> u8 \<times> u8 \<times> u8" where
  "write_s24le x = (word_of_int x, word_of_int (drop_bit 8 x), word_of_int (drop_bit 16 x))"

fun triples :: "u8 list \<Rightarrow> (u8 \<times> u8 \<times> u8) list" where
  "triples (b0 # b1 # b2 # bs) = (b0, b1, b2) # triples bs"
| "triples _ = []"

fun untriples :: "(u8 \<times> u8 \<times> u8) list \<Rightarrow> u8 list" where
  "untriples [] = []"
| "untriples ((b0, b1, b2) # ts) = b0 # b1 # b2 # untriples ts"

fun quads :: "u8 list \<Rightarrow> u32 list" where
  "quads (b0 # b1 # b2 # b3 # bs) =
     (ucast b0 OR push_bit 8 (ucast b1) OR push_bit 16 (ucast b2) OR push_bit 24 (ucast b3)) # quads bs"
| "quads _ = []"

fun unquads :: "u32 list \<Rightarrow> u8 list" where
  "unquads [] = []"
| "unquads (x # xs) = ucast x # ucast (drop_bit 8 x) # ucast (drop_bit 16 x) # ucast (drop_bit 24 x) # unquads xs"

definition scale_samples_s24le :: "int \<Rightarrow> int \<Rightarrow> u8 list \<Rightarrow> u8 list option" where
  "scale_samples_s24le l r buf =
     do { ts \<leftarrow> scale_frames (\<lambda>v t. map_option write_s24le (scale_sample_s24le (read_s24le t) v)) l r (triples buf);
          Some (untriples ts @ drop (3 * length ts) buf) }"

definition scale_samples_int16_t :: "int \<Rightarrow> int \<Rightarrow> bool \<Rightarrow> u8 list \<Rightarrow> u8 list option" where
  "scale_samples_int16_t l r swap buf =
     do { xs \<leftarrow> scale_frames (\<lambda>v. scale_sample_int16_t v swap) l r (s16_of_bytes buf);
          Some (bytes_of_s16 xs @ drop (2 * length xs) buf) }"

definition scale_samples_int32_t :: "int \<Rightarrow> int \<Rightarrow> bool \<Rightarrow> u8 list \<Rightarrow> u8 list option" where
  "scale_samples_int32_t l r swap buf =
     do { xs \<leftarrow> scale_frames (\<lambda>v. scale_sample_int32_t v swap) l r (quads buf);
          Some (unquads xs @ drop (4 * length xs) buf) }"

definition sf_need_swap :: "sample_format \<Rightarrow> bool" where
  "sf_need_swap sf \<longleftrightarrow> sf_get_bigendian sf \<noteq> 0"

text \<open>Conversion of a \<open>double\<close> to \<open>int\<close>; a value out of range is a fault.\<close>

definition c_trunc :: "real \<Rightarrow> int option" where
  "c_trunc x = c_signed 32 (if x \<ge> 0 then \<lfloor>x\<rfloor> else \<lceil>x\<rceil>)"

definition vol_coeff :: "bool \<Rightarrow> int \<Rightarrow> int option" where
  "vol_coeff soft v =
     (if soft \<and> v \<noteq> 100
      then if 0 \<le> v \<and> nat v < length soft_vol_db then Some (soft_vol_db ! nat v) else None
      else Some SOFT_VOL_SCALE)"

record volume =
  soft_vol :: bool
  soft_vol_l :: int
  soft_vol_r :: int
  replaygain_scale :: real

text \<open>
  \<open>scale_samples\<close> on the \<open>count\<close> bytes offered at \<open>consumer_pos\<close>: the bytes before \<open>scale_pos\<close> have been
  scaled by an earlier call. Returns the bytes and the new \<open>scale_pos\<close>.
\<close>

definition scale_samples :: "volume \<Rightarrow> sample_format \<Rightarrow> nat \<Rightarrow> nat \<Rightarrow> u8 list \<Rightarrow> (u8 list \<times> nat) option" where
  "scale_samples v sf consumer_pos scale_pos buffer =
     do { bug_unless (\<not> scale_pos < consumer_pos);
          let offs = (scale_pos - consumer_pos) mod 2 ^ 32;
          if consumer_pos \<noteq> scale_pos \<and> offs \<ge> length buffer then Some (buffer, scale_pos)
          else
            let done = take offs buffer; rest = drop offs buffer; scale_pos = scale_pos + length rest;
                ch = sf_get_channels sf; bits = sf_get_bits sf in
            if replaygain_scale v = 1 \<and> soft_vol_l v = 100 \<and> soft_vol_r v = 100 then Some (buffer, scale_pos)
            else if ch \<noteq> 2 \<or> (bits \<noteq> 16 \<and> bits \<noteq> 24 \<and> bits \<noteq> 32) then Some (buffer, scale_pos)
            else do { l \<leftarrow> vol_coeff (soft_vol v) (soft_vol_l v);
                      r \<leftarrow> vol_coeff (soft_vol v) (soft_vol_r v);
                      l \<leftarrow> c_trunc (of_int l * replaygain_scale v);
                      r \<leftarrow> c_trunc (of_int r * replaygain_scale v);
                      rest \<leftarrow>
                        (if bits = 16 then scale_samples_int16_t l r (sf_need_swap sf) rest
                         else if bits = 24 then
                           (if sf_get_bigendian sf = 0 then scale_samples_s24le l r rest else Some rest)
                         else scale_samples_int32_t l r (sf_need_swap sf) rest);
                      Some (done @ rest, scale_pos) } }"

section \<open>Facts\<close>

lemma soft_vol_db_range: "x \<in> set soft_vol_db \<Longrightarrow> 0 \<le> x \<and> x < 65536"
  by (auto simp: soft_vol_db_def)

lemma soft_vol_db_sorted: "sorted soft_vol_db"
  unfolding soft_vol_db_def sorted2 sorted1 by simp

lemma length_soft_vol_db: "length soft_vol_db = 100"
  by (simp add: soft_vol_db_def)

text \<open>Rounding to the nearest multiple, for a non-negative product.\<close>

lemma round_div:
  fixes p :: int
  assumes "0 \<le> p"
  shows "\<bar>65536 * ((p + 32768) div 65536) - p\<bar> \<le> 32768" "0 \<le> (p + 32768) div 65536"
proof -
  show "\<bar>65536 * ((p + 32768) div 65536) - p\<bar> \<le> 32768" by linarith
  show "0 \<le> (p + 32768) div 65536" using assms by simp
qed

lemma scaled_le:
  fixes s v :: int
  assumes "0 \<le> s" "0 \<le> v" "v \<le> 65535"
  shows "(s * v + 32768) div 65536 \<le> s"
proof -
  have "s * v \<le> s * 65535" using assms by (intro mult_left_mono) auto
  then have "s * v + 32768 < 65536 * (s + 1)" using assms by (simp add: algebra_simps)
  then show ?thesis by simp
qed

text \<open>
  The rounded product, for volumes below full scale: no overflow, no clipping, the sign is kept,
  the magnitude does not grow and the error is at most one half.
\<close>

lemma scale_sample_ok:
  assumes "0 \<le> v" "v \<le> 65535" "lo \<le> s" "s \<le> hi" "lo \<le> 0" "0 \<le> hi"
    and "\<bar>s\<bar> * v + 32768 < 2 ^ (w - 1) \<or> s < 0 \<and> \<bar>s\<bar> * v + 32768 \<le> 2 ^ (w - 1)"
  shows "\<exists>r. scale_sample w lo hi s v = Some r \<and> \<bar>r\<bar> \<le> \<bar>s\<bar> \<and> 0 \<le> r * s \<and>
           \<bar>65536 * r - s * v\<bar> \<le> 32768 \<and> lo \<le> r \<and> r \<le> hi"
proof (cases "s < 0")
  case True
  let ?r = "- ((- s * v + 32768) div 65536)"
  have p: "0 \<le> - s * v" using True assms by (simp add: mult_nonpos_nonneg)
  have r: "\<bar>65536 * - ?r - (- s * v)\<bar> \<le> 32768" "0 \<le> - ?r" "- ?r \<le> - s"
    using round_div [OF p] scaled_le [of "- s" v] True assms by simp_all
  have c: "c_signed w (s * v) = Some (s * v)" "c_signed w (s * v - 32768) = Some (s * v - 32768)"
    using assms(7) True p by (auto simp: c_signed_def)
  have "c_div (s * v - 32768) 65536 = ?r"
    using p by (subst c_div_neg) (simp_all add: algebra_simps)
  then have "scale_sample w lo hi s v = Some ?r"
    using True c r assms by (simp add: scale_sample_def SOFT_VOL_SCALE_def c_div_nonneg)
  moreover have "0 \<le> ?r * s" using r(2) True by (intro mult_nonpos_nonpos) auto
  ultimately show ?thesis using r True assms by auto
next
  case False
  let ?r = "(s * v + 32768) div 65536"
  have p: "0 \<le> s * v" using False assms by simp
  have r: "\<bar>65536 * ?r - s * v\<bar> \<le> 32768" "0 \<le> ?r" "?r \<le> s"
    using round_div [OF p] scaled_le [of s v] False assms by simp_all
  have c: "c_signed w (s * v) = Some (s * v)" "c_signed w (s * v + 32768) = Some (s * v + 32768)"
    using assms(7) False p by (auto simp: c_signed_def)
  then have "scale_sample w lo hi s v = Some ?r"
    using False r p assms by (simp add: scale_sample_def SOFT_VOL_SCALE_def c_div_nonneg)
  moreover have "0 \<le> ?r * s" using r(2) False by simp
  ultimately show ?thesis using r False assms by auto
qed

lemma scale_sample_64_total:
  assumes "- (2 ^ 31) \<le> s" "s < 2 ^ 31" "0 \<le> v" "v < 2 ^ 31"
  shows "scale_sample 64 lo hi s v \<noteq> None"
proof -
  have "\<bar>s * v\<bar> \<le> 2 ^ 31 * 2 ^ 31"
    unfolding abs_mult using assms by (intro mult_mono) auto
  then have "c_signed 64 (s * v) = Some (s * v)" "c_signed 64 (s * v - 32768) = Some (s * v - 32768)"
      "c_signed 64 (s * v + 32768) = Some (s * v + 32768)"
    by (auto simp: c_signed_def)
  then show ?thesis by (simp add: scale_sample_def SOFT_VOL_SCALE_def c_div_nonneg Let_def)
qed

lemma scale_frames_length: "scale_frames f l r xs = Some ys \<Longrightarrow> length ys = length xs"
  by (induction f l r xs arbitrary: ys rule: scale_frames.induct)
    (auto simp: bind_eq_Some_conv split: if_splits)

lemma length_triples: "length (triples bs) = length bs div 3"
  by (induction bs rule: triples.induct) simp_all

lemma length_untriples [simp]: "length (untriples ts) = 3 * length ts"
  by (induction ts rule: untriples.induct) simp_all

lemma length_quads: "length (quads bs) = length bs div 4"
  by (induction bs rule: quads.induct) simp_all

lemma length_unquads [simp]: "length (unquads xs) = 4 * length xs"
  by (induction xs) simp_all

lemma length_s16: "length (s16_of_bytes bs) = length bs div 2"
  by (induction bs rule: s16_of_bytes.induct) simp_all

lemma scale_samples_lengths:
  "scale_samples_int16_t l r sw buf = Some out \<Longrightarrow> length out = length buf"
  "scale_samples_s24le l r buf = Some out \<Longrightarrow> length out = length buf"
  "scale_samples_int32_t l r sw buf = Some out \<Longrightarrow> length out = length buf"
  by (auto simp: scale_samples_int16_t_def scale_samples_s24le_def scale_samples_int32_t_def
      bind_eq_Some_conv length_triples length_quads length_s16 dest!: scale_frames_length)

lemma scale_samples_frame:
  assumes "scale_samples v sf cp sp buf = Some (buf', sp')" "sp - cp < 2 ^ 32"
  shows "cp \<le> sp \<and> length buf' = length buf \<and> take (sp - cp) buf' = take (sp - cp) buf \<and>
    sp' = max sp (cp + length buf)"
  using assms
  by (auto simp: scale_samples_def Let_def bind_eq_Some_conv max_def dest!: scale_samples_lengths split: if_splits)

lemma scale_int16_exact:
  assumes "0 \<le> vol" and "vol \<le> 65535"
  shows "\<exists>y. scale_sample_int16_t vol swap x = Some y \<and>
    (let s = sint (if swap then swap_uint16 x else x); r = sint (if swap then swap_uint16 y else y)
     in \<bar>r\<bar> \<le> \<bar>s\<bar> \<and> 0 \<le> r * s \<and> \<bar>65536 * r - s * vol\<bar> \<le> 32768)"
proof -
  let ?s = "sint (if swap then swap_uint16 x else x)"
  have b: "- 32768 \<le> ?s" "?s \<le> 32767"
    using sint_greater_eq [of "if swap then swap_uint16 x else x"]
      sint_less [of "if swap then swap_uint16 x else x"] by simp_all
  have "\<bar>?s\<bar> * vol \<le> (if ?s < 0 then 32768 else 32767) * 65535"
    using b assms by (intro mult_mono) auto
  then have "\<bar>?s\<bar> * vol + 32768 < 2 ^ 31 \<or> ?s < 0 \<and> \<bar>?s\<bar> * vol + 32768 \<le> 2 ^ 31"
    by (auto split: if_splits)
  then obtain r where r: "scale_sample 32 (- 32768) 32767 ?s vol = Some r" "\<bar>r\<bar> \<le> \<bar>?s\<bar>" "0 \<le> r * ?s"
    "\<bar>65536 * r - ?s * vol\<bar> \<le> 32768" "- 32768 \<le> r" "r \<le> 32767"
    using scale_sample_ok [of vol "- 32768" ?s 32767 32] assms b by auto
  have "sint (word_of_int r :: u16) = r"
    using r(5,6) by (simp add: sint_sbintrunc' signed_take_bit_int_eq_self)
  then show ?thesis using r by (auto simp: scale_sample_int16_t_def Let_def)
qed

lemma scale_frames_total:
  assumes "\<And>x. l \<noteq> SOFT_VOL_SCALE \<Longrightarrow> f l x \<noteq> None" "\<And>x. r \<noteq> SOFT_VOL_SCALE \<Longrightarrow> f r x \<noteq> None"
  shows "\<exists>ys. scale_frames f l r xs = Some ys"
proof -
  have fl: "\<exists>y. f l x = Some y" if "l \<noteq> SOFT_VOL_SCALE" for x using assms(1) that by simp
  have fr: "\<exists>y. f r x = Some y" if "r \<noteq> SOFT_VOL_SCALE" for x using assms(2) that by simp
  show ?thesis
  proof (induction xs rule: induct_list012)
    case (3 a b xs)
    then obtain ys where ys: "scale_frames f l r xs = Some ys" by blast
    with fl [of a] fr [of b] show ?case by auto
  qed simp_all
qed

lemma read_s24le_range: "- (2 ^ 31) \<le> read_s24le t \<and> read_s24le t < 2 ^ 31"
proof (cases t)
  case (fields b0 b1 b2)
  have "0 \<le> uint b0" "uint b0 < 256" "0 \<le> uint b1" "uint b1 < 256" "- 128 \<le> sint b2" "sint b2 < 128"
    using uint_lt2p [of b0] uint_lt2p [of b1] sint_greater_eq [of b2] sint_less [of b2] by simp_all
  then have "- 8388608 \<le> uint b0 + uint b1 * 256 + sint b2 * 65536" "uint b0 + uint b1 * 256 + sint b2 * 65536 < 8388608"
    by linarith+
  then show ?thesis by (simp add: fields read_s24le_def)
qed

lemma vol_coeff_range:
  "0 \<le> x \<Longrightarrow> x \<le> 100 \<Longrightarrow> \<exists>l. vol_coeff soft x = Some l \<and> 0 \<le> l \<and> l \<le> 65536"
proof -
  assume x: "0 \<le> x" "x \<le> 100"
  have "x < 100 \<Longrightarrow> soft_vol_db ! nat x \<in> set soft_vol_db"
    using x by (intro nth_mem) (simp add: length_soft_vol_db)
  then have "x < 100 \<Longrightarrow> 0 \<le> soft_vol_db ! nat x \<and> soft_vol_db ! nat x < 65536" using soft_vol_db_range by blast
  then show ?thesis using x by (auto simp: vol_coeff_def length_soft_vol_db SOFT_VOL_SCALE_def)
qed

lemma c_trunc_range:
  assumes "0 \<le> l" "l \<le> 65536" "0 \<le> s" "s \<le> (1 :: real)"
  shows "\<exists>n. c_trunc (of_int l * s) = Some n \<and> 0 \<le> n \<and> n \<le> 65536"
proof -
  have "of_int l * s \<le> of_int l" "0 \<le> of_int l * s" using assms by (simp_all add: mult_left_le)
  then have f: "0 \<le> \<lfloor>of_int l * s\<rfloor>" "\<lfloor>of_int l * s\<rfloor> \<le> 65536" using assms(2) by linarith+
  then show ?thesis using \<open>0 \<le> of_int l * s\<close> by (simp add: c_trunc_def c_signed_def)
qed

text \<open>With volumes up to full scale and no amplification no sample overflows.\<close>

lemma scale_samples_total:
  assumes "0 \<le> soft_vol_l v" "soft_vol_l v \<le> 100" "0 \<le> soft_vol_r v" "soft_vol_r v \<le> 100"
    and "0 \<le> replaygain_scale v" "replaygain_scale v \<le> 1" "cp \<le> sp"
  shows "\<exists>r. scale_samples v sf cp sp buf = Some r"
proof -
  obtain l r where l: "vol_coeff (soft_vol v) (soft_vol_l v) = Some l" "0 \<le> l" "l \<le> 65536"
    and r: "vol_coeff (soft_vol v) (soft_vol_r v) = Some r" "0 \<le> r" "r \<le> 65536"
    using vol_coeff_range assms(1-4) by metis
  obtain l' r' where l': "c_trunc (of_int l * replaygain_scale v) = Some l'" "0 \<le> l'" "l' \<le> 65536"
    and r': "c_trunc (of_int r * replaygain_scale v) = Some r'" "0 \<le> r'" "r' \<le> 65536"
    using c_trunc_range l(2,3) r(2,3) assms(5,6) by metis
  have 16: "scale_sample_int16_t x sw s \<noteq> None" if "0 \<le> x" "x \<le> 65536" "x \<noteq> SOFT_VOL_SCALE" for x sw s
    using scale_int16_exact [of x sw s] that by (auto simp: SOFT_VOL_SCALE_def)
  have 24: "map_option write_s24le (scale_sample_s24le (read_s24le t) x) \<noteq> None" if "0 \<le> x" "x \<le> 65536" for x t
    using scale_sample_64_total [of "read_s24le t" x] read_s24le_range [of t] that
    by (simp add: scale_sample_s24le_def)
  have 32: "scale_sample_int32_t x sw s \<noteq> None" if "0 \<le> x" "x \<le> 65536" for x sw s
    using scale_sample_64_total [of "sint (if sw then swap_uint32 s else s)" x] that
      sint_greater_eq [of "if sw then swap_uint32 s else s"] sint_less [of "if sw then swap_uint32 s else s"]
    by (simp add: scale_sample_int32_t_def bind_eq_None_conv)
  have t16: "\<exists>q. scale_samples_int16_t l' r' sw b = Some q" for sw b
    using scale_frames_total [of l' "\<lambda>v. scale_sample_int16_t v sw" r' "s16_of_bytes b"] 16 l' r'
    by (auto simp: scale_samples_int16_t_def)
  have t24: "\<exists>q. scale_samples_s24le l' r' b = Some q" for b
    using scale_frames_total [of l' "\<lambda>v t. map_option write_s24le (scale_sample_s24le (read_s24le t) v)" r' "triples b"]
      24 l' r' by (auto simp: scale_samples_s24le_def)
  have t32: "\<exists>q. scale_samples_int32_t l' r' sw b = Some q" for sw b
    using scale_frames_total [of l' "\<lambda>v. scale_sample_int32_t v sw" r' "quads b"] 32 l' r'
    by (auto simp: scale_samples_int32_t_def)
  let ?b = "drop ((sp - cp) mod 2 ^ 32) buf"
  from t16 [of "sf_need_swap sf" ?b] t24 [of ?b] t32 [of "sf_need_swap sf" ?b] obtain q1 q2 q3 where
    "scale_samples_int16_t l' r' (sf_need_swap sf) ?b = Some q1" "scale_samples_s24le l' r' ?b = Some q2"
    "scale_samples_int32_t l' r' (sf_need_swap sf) ?b = Some q3" by blast
  then show ?thesis using assms(7) l(1) r(1) l'(1) r'(1)
    by (cases "cp = sp") (simp_all add: scale_samples_def Let_def)
qed

section \<open>Properties\<close>

text \<open>
  C8. Scaling a 16-bit sample with a soft volume coefficient below full scale neither overflows nor
  clips: the result has the sign of the sample, is not larger in magnitude, and differs from the
  exact product by at most one half; this holds for both byte orders.
\<close>

theorem softvol16_exact:
  assumes "0 \<le> vol" and "vol \<le> 65535"
  shows "\<exists>y. scale_sample_int16_t vol swap x = Some y \<and>
    (let s = sint (if swap then swap_uint16 x else x); r = sint (if swap then swap_uint16 y else y)
     in \<bar>r\<bar> \<le> \<bar>s\<bar> \<and> 0 \<le> r * s \<and> \<bar>65536 * r - s * vol\<bar> \<le> 32768)"
  using scale_int16_exact [OF assms] .

theorem softvol16_exact_witness:
  "(0 :: int) \<le> 0x8b35 \<and> (0x8b35 :: int) \<le> 65535 \<and>
   (\<exists>y. scale_sample_int16_t 0x8b35 False 0x8000 = Some y \<and>
    (let s = sint (0x8000 :: u16); r = sint y
     in \<bar>r\<bar> \<le> \<bar>s\<bar> \<and> 0 \<le> r * s \<and> \<bar>65536 * r - s * 0x8b35\<bar> \<le> 32768))"
  using softvol16_exact [of "0x8b35" False "0x8000"] by simp

text \<open>
  With replay gain the coefficient exceeds full scale and the 32-bit product of a 16-bit sample
  overflows before the clipping that follows it: at twice full scale a sample of 20000 has no defined
  result, although the code means to clip it to 32767, which the same formula in 64 bits (the
  arithmetic of the 24 and 32-bit paths) does.
\<close>

theorem softvol16_overflow:
  "scale_samples \<lparr>soft_vol = False, soft_vol_l = 100, soft_vol_r = 100, replaygain_scale = 2\<rparr>
     (sf_bits 16 OR sf_signed 1 OR sf_rate 44100 OR sf_channels 2) 0 0 [0x20, 0x4e, 0, 0] = None \<and>
   scale_sample 64 (- 32768) 32767 20000 131072 = Some 32767"
  by (simp add: scale_samples_def Let_def sf_get_channels_def sf_get_bits_def sf_bits_def sf_signed_def
      sf_rate_def sf_channels_def SF_BITS_MASK_def SF_RATE_MASK_def SF_CHANNELS_MASK_def SF_SIGNED_MASK_def
      sf_need_swap_def sf_get_bigendian_def SF_BIGENDIAN_MASK_def vol_coeff_def SOFT_VOL_SCALE_def
      c_trunc_def c_signed_def scale_samples_int16_t_def scale_sample_int16_t_def scale_sample_def
      read_le16_def c_div_def)

text \<open>
  No byte is scaled twice and none is skipped: a call leaves the bytes before \<^verbatim>\<open>scale_pos\<close>, which
  an earlier call has scaled, as they are, changes no length, and moves \<^verbatim>\<open>scale_pos\<close> exactly to the end
  of the bytes seen so far.
\<close>

theorem scale_samples_once:
  assumes "scale_samples v sf cp sp buf = Some (buf', sp')" and "sp - cp < 2 ^ 32"
  shows "cp \<le> sp \<and> length buf' = length buf \<and> take (sp - cp) buf' = take (sp - cp) buf \<and>
    sp' = max sp (cp + length buf)"
  using scale_samples_frame [OF assms] .

theorem scale_samples_once_witness:
  "\<exists>buf' sp'. scale_samples \<lparr>soft_vol = True, soft_vol_l = 0, soft_vol_r = 100, replaygain_scale = 1\<rparr>
     0x02ac4412 10 14 [1, 2, 3, 4, 5, 6, 7, 8] = Some (buf', sp') \<and> (14 :: nat) - 10 < 2 ^ 32 \<and>
     take 4 buf' = [1, 2, 3, 4] \<and> sp' = 18"
proof -
  obtain buf' sp' where r: "scale_samples \<lparr>soft_vol = True, soft_vol_l = 0, soft_vol_r = 100, replaygain_scale = 1\<rparr>
     0x02ac4412 10 14 [1, 2, 3, 4, 5, 6, 7, 8] = Some (buf', sp')"
    by (simp add: scale_samples_def Let_def sf_get_channels_def sf_get_bits_def SF_BITS_MASK_def
        SF_CHANNELS_MASK_def sf_need_swap_def sf_get_bigendian_def SF_BIGENDIAN_MASK_def vol_coeff_def
        soft_vol_db_def SOFT_VOL_SCALE_def c_trunc_def c_signed_def scale_samples_int16_t_def
        scale_sample_int16_t_def scale_sample_def read_le16_def c_div_def)
  from scale_samples_once [OF r] r show ?thesis by simp
qed

end
