(* ===== verification/Uchar.thy ===== *)
theory Uchar
  imports Prelude "HOL-Library.Sublist"
begin

text \<open>
  The UTF-8 library of \<^verbatim>\<open>src/app/uchar.c\<close> and \<^verbatim>\<open>src/app/uchar.h\<close>: decoding, encoding, validation,
  character positions, display widths, case folding and comparison. A C string is a \<open>string\<close>
  without its terminator; a function that takes \<open>(str, idx)\<close> is given the rest of the string at
  \<open>idx\<close> and returns how far it advances. Three things are arguments: \<open>lower\<close> for \<open>towlower\<close> of the
  C locale, \<open>wcw\<close> for the generated width table of \<^verbatim>\<open>wcwidth_uchar.h\<close>, and the table of
  \<^verbatim>\<open>unidecomp.h\<close>.

  The theory proves that decoding never reads past the terminator, that the validator accepts exactly
  the encodings of code points, that decoding and encoding are inverse on valid strings, that the
  backward step inverts the forward step, what the comparison and search functions compute, and that
  the binary search in the decomposition table finds exactly its entries. It also shows where the
  size computed for a printable copy is too small.
\<close>

unbundle bit_operations_syntax

section \<open>The model\<close>

type_synonym uchar = u32

definition hex_tab :: string where "hex_tab = ''0123456789abcdef''"

definition len_tab_data :: "int list" where
  "len_tab_data = replicate 128 1 @ replicate 64 0 @ replicate 32 2 @ replicate 16 3 @
     replicate 5 4 @ replicate 3 (-1) @ replicate 8 (-1)"

definition len_tab :: "uchar \<Rightarrow> int" where
  "len_tab ch = len_tab_data ! unat ch"

definition utf8_skip_data :: "nat list" where
  "utf8_skip_data = replicate 192 1 @ replicate 32 2 @ replicate 16 3 @ replicate 8 4 @
     replicate 4 5 @ replicate 2 6 @ replicate 2 1"

definition min_val :: "nat \<Rightarrow> uchar" where
  "min_val i = [0x000000, 0x000080, 0x000800, 0x010000] ! i"

definition max_val :: "nat \<Rightarrow> uchar" where
  "max_val i = [0x00007f, 0x0007ff, 0x00ffff, 0x10ffff] ! i"

definition first_byte_mask :: "nat \<Rightarrow> uchar" where
  "first_byte_mask i = [0x7f, 0x1f, 0x0f, 0x07] ! i"

definition U_INVALID_MASK :: uchar where "U_INVALID_MASK = 0x10000000"

text \<open>\<open>s[i]\<close> read as an unsigned character.\<close>

definition byte_at :: "string \<Rightarrow> nat \<Rightarrow> uchar option" where
  "byte_at s i = map_option of_char (c_at s i)"

definition u_is_unicode :: "uchar \<Rightarrow> bool" where
  "u_is_unicode uch \<longleftrightarrow> uch \<le> 0x0010ffff"

definition u_char_size :: "uchar \<Rightarrow> nat" where
  "u_char_size uch =
     (if uch \<le> 0x7f then 1 else if uch \<le> 0x7ff then 2 else if uch \<le> 0xffff then 3
      else if uch \<le> 0x10ffff then 4 else 1)"

text \<open>The offset of the next character, without looking at the bytes that are skipped.\<close>

definition u_next_char :: "string \<Rightarrow> nat option" where
  "u_next_char s = map_option (\<lambda>b. utf8_skip_data ! unat b) (byte_at s 0)"

text \<open>
  The loop over \<open>n\<close> continuation bytes from index \<open>i\<close>, shared by the validator and the decoder:
  \<open>Some None\<close> when a byte is not a continuation byte.
\<close>

primrec get_cont :: "nat \<Rightarrow> string \<Rightarrow> nat \<Rightarrow> uchar \<Rightarrow> uchar option option" where
  "get_cont 0 s i u = Some (Some u)"
| "get_cont (Suc n) s i u =
     do { ch \<leftarrow> byte_at s i;
          if len_tab ch \<noteq> 0 then Some None
          else get_cont n s (Suc i) (push_bit 6 u OR (ch AND 0x3f)) }"

definition u_get_char :: "string \<Rightarrow> (uchar \<times> nat) option" where
  "u_get_char s =
     do { ch \<leftarrow> byte_at s 0;
          if ch < 128 then Some (ch, 1)
          else let len = len_tab ch
            in if len < 1 then Some (ch OR U_INVALID_MASK, 1)
               else do { r \<leftarrow> get_cont (nat len - 1) s 1 (ch AND first_byte_mask (nat len - 1));
                         Some (case r of Some u \<Rightarrow> (u, nat len) | None \<Rightarrow> (ch OR U_INVALID_MASK, 1)) } }"

lemma byte_at_nonempty: "byte_at s 0 = Some ch \<Longrightarrow> ch \<noteq> 0 \<Longrightarrow> 0 < length s"
  by (cases s) (simp_all add: byte_at_def c_at_def)

function u_is_valid :: "string \<Rightarrow> bool option" where
  "u_is_valid s =
     do { ch \<leftarrow> byte_at s 0;
          if ch = 0 then Some True
          else let len = len_tab ch
            in if len \<le> 0 then Some False
               else if len > 1 then
                 do { r \<leftarrow> get_cont (nat len - 1) s 1 (ch AND first_byte_mask (nat len - 1));
                      (case r of None \<Rightarrow> Some False
                       | Some u \<Rightarrow>
                          if u < min_val (nat len - 1) \<or> u > max_val (nat len - 1) then Some False
                          else u_is_valid (drop (nat len) s)) }
               else u_is_valid (drop 1 s) }"
  by auto
termination
  by (relation "measure length") (auto dest: byte_at_nonempty split: if_splits)

function u_strlen :: "string \<Rightarrow> nat option" where
  "u_strlen s =
     do { ch \<leftarrow> byte_at s 0;
          if ch = 0 then Some 0
          else do { k \<leftarrow> u_next_char s;
                    bug_unless (0 < k \<and> k \<le> length s);
                    n \<leftarrow> u_strlen (drop k s);
                    Some (Suc n) } }"
  by auto
termination
  by (relation "measure length") (auto dest: byte_at_nonempty split: if_splits)

text \<open>
  Whether the next bytes from index \<open>c\<close> to \<open>l - 1\<close> are continuation bytes (the inner loop of
  \<open>u_strlen_safe\<close>).
\<close>

primrec conts_ok :: "nat \<Rightarrow> string \<Rightarrow> nat \<Rightarrow> bool option" where
  "conts_ok 0 s c = Some True"
| "conts_ok (Suc n) s c =
     do { ch \<leftarrow> byte_at s c; if len_tab ch \<noteq> 0 then Some False else conts_ok n s (Suc c) }"

function u_strlen_safe :: "string \<Rightarrow> nat option" where
  "u_strlen_safe s =
     do { ch \<leftarrow> byte_at s 0;
          if ch = 0 then Some 0
          else let l = len_tab ch
            in do { seq \<leftarrow> (if l > 1 then conts_ok (nat l - 1) s 1 else Some False);
                    n \<leftarrow> u_strlen_safe (drop (if seq then nat l else 1) s);
                    Some (Suc n) } }"
  by auto
termination
  by (relation "measure length") (auto dest: byte_at_nonempty split: if_splits)

definition u_char_width :: "(uchar \<Rightarrow> int) \<Rightarrow> bool \<Rightarrow> uchar \<Rightarrow> int" where
  "u_char_width wcw using_utf8 u =
     (if u < 0x20 then (if u = 0 then 1 else 4)
      else if \<not> using_utf8 then 1
      else if u AND U_INVALID_MASK \<noteq> 0 then 4
      else if wcw u \<ge> 0 then wcw u else 1)"

text \<open>
  \<open>u_get_char\<close> advances (proved below as \<open>u_get_char_advance\<close>); the loops that read a string character
  by character share this recursion: the characters of a string up to its terminator.
\<close>

lemma get_cont_bound:
  "get_cont n s i u = Some (Some v) \<Longrightarrow> 0 < n \<Longrightarrow> i + n \<le> length s"
proof (induction n arbitrary: i u)
  case (Suc n)
  from Suc.prems obtain ch where ch: "byte_at s i = Some ch" "len_tab ch = 0"
    "get_cont n s (Suc i) (push_bit 6 u OR (ch AND 0x3f)) = Some (Some v)"
    by (auto simp: bind_eq_Some_conv split: if_splits)
  have "i < length s"
  proof (rule ccontr)
    assume "\<not> i < length s"
    then have "ch = 0" using ch(1) by (auto simp: byte_at_def c_at_def split: if_splits)
    then show False using ch(2) by (simp add: len_tab_def len_tab_data_def nth_append)
  qed
  then show ?case using Suc.IH [OF ch(3)] by (cases n) auto
qed simp

lemma u_get_char_pos: "u_get_char s = Some (u, n) \<Longrightarrow> 0 < n"
proof (cases "byte_at s 0")
  case (Some ch)
  assume *: "u_get_char s = Some (u, n)"
  show ?thesis
  proof (cases "ch < 128 \<or> len_tab ch < 1")
    case True
    with * Some show ?thesis by (auto simp: u_get_char_def Let_def split: if_splits)
  next
    case False
    with * Some obtain r where "(case r of Some u \<Rightarrow> (u, nat (len_tab ch)) | None \<Rightarrow> (ch OR U_INVALID_MASK, 1)) = (u, n)"
      by (auto simp: u_get_char_def Let_def bind_eq_Some_conv)
    with False show ?thesis by (cases r) auto
  qed
qed (simp add: u_get_char_def)

function u_str_width :: "(uchar \<Rightarrow> int) \<Rightarrow> bool \<Rightarrow> string \<Rightarrow> int option" where
  "u_str_width wcw utf8 s =
     do { ch \<leftarrow> byte_at s 0;
          if ch = 0 then Some 0
          else do { (u, n) \<leftarrow> u_get_char s;
                    w \<leftarrow> u_str_width wcw utf8 (drop n s);
                    Some (u_char_width wcw utf8 u + w) } }"
  by auto
termination
  by (relation "measure (\<lambda>(_, _, s). length s)")
    (use byte_at_nonempty u_get_char_pos in fastforce)+

primrec u_str_nwidth :: "(uchar \<Rightarrow> int) \<Rightarrow> bool \<Rightarrow> string \<Rightarrow> nat \<Rightarrow> int option" where
  "u_str_nwidth wcw utf8 s 0 = Some 0"
| "u_str_nwidth wcw utf8 s (Suc len) =
     do { (u, n) \<leftarrow> u_get_char s;
          if u = 0 then Some 0
          else do { w \<leftarrow> u_str_nwidth wcw utf8 (drop n s) len;
                    Some (u_char_width wcw utf8 u + w) } }"

text \<open>The result is the offset just behind the character found.\<close>

function u_strchr :: "string \<Rightarrow> uchar \<Rightarrow> nat option option" where
  "u_strchr s uch =
     do { ch \<leftarrow> byte_at s 0;
          if ch = 0 then Some None
          else do { (u, n) \<leftarrow> u_get_char s;
                    if uch = u then Some (Some n)
                    else do { r \<leftarrow> u_strchr (drop n s) uch; Some (map_option (\<lambda>k. n + k) r) } } }"
  by auto
termination
  by (relation "measure (\<lambda>(s, _). length s)")
    (use byte_at_nonempty u_get_char_pos in fastforce)+

text \<open>
  The backward search of \<open>u_prev_char_pos\<close>: \<open>i\<close> is the current index, \<open>c\<close> the number of bytes looked
  at; \<open>Some (Some i)\<close> is the start of a sequence, \<open>Some None\<close> the fall-back to a single byte.
\<close>

primrec prev_loop :: "string \<Rightarrow> nat \<Rightarrow> int \<Rightarrow> nat option option" where
  "prev_loop s 0 c = Some None"
| "prev_loop s (Suc i) c =
     do { ch \<leftarrow> byte_at s i;
          let len = len_tab ch;
          if len = 0 then (if c + 1 < 4 then prev_loop s i (c + 1) else Some None)
          else if len \<noteq> c + 1 then Some None
          else Some (Some i) }"

definition u_prev_char_pos :: "string \<Rightarrow> nat \<Rightarrow> nat option" where
  "u_prev_char_pos s idx =
     (if idx = 0 then None
      else do { ch \<leftarrow> byte_at s (idx - 1);
                if len_tab ch \<noteq> 0 then Some (idx - 1)
                else do { r \<leftarrow> prev_loop s (idx - 1) 1;
                          Some (case r of Some i \<Rightarrow> i | None \<Rightarrow> idx - 1) } })"

text \<open>Storing a value in a \<open>char\<close> keeps its low eight bits.\<close>

definition to_byte :: "uchar \<Rightarrow> char" where
  "to_byte u = char_of (unat u)"

text \<open>The bytes that \<open>u_set_char_raw\<close> and \<open>u_set_char\<close> store; \<open>idx\<close> advances by their number.\<close>

definition u_set_char_raw :: "uchar \<Rightarrow> string" where
  "u_set_char_raw uch =
     (if uch \<le> 0x7f then [to_byte uch]
      else if uch \<le> 0x7ff then
        [to_byte (drop_bit 6 uch OR 0xc0), to_byte ((uch AND 63) OR 0x80)]
      else if uch \<le> 0xffff then
        [to_byte (drop_bit 6 (drop_bit 6 uch) OR 0xe0), to_byte ((drop_bit 6 uch AND 63) OR 0x80),
         to_byte ((uch AND 63) OR 0x80)]
      else if uch \<le> 0x10ffff then
        [to_byte (drop_bit 6 (drop_bit 6 (drop_bit 6 uch)) OR 0xf0),
         to_byte ((drop_bit 6 (drop_bit 6 uch) AND 63) OR 0x80),
         to_byte ((drop_bit 6 uch AND 63) OR 0x80), to_byte ((uch AND 63) OR 0x80)]
      else [to_byte (uch AND 0xff)])"

definition u_set_char :: "uchar \<Rightarrow> string" where
  "u_set_char uch =
     (if \<not> uch \<le> 0x1f \<and> uch \<le> 0x10ffff then u_set_char_raw uch
      else if uch = 0 then [CHR 0x00]
      else [CHR ''<'', hex_tab ! unat (drop_bit 4 uch AND 0xf), hex_tab ! unat (uch AND 0xf), CHR ''>''])"

text \<open>
  \<open>u_copy_chars\<close>: the bytes copied and the width left. A character that does not fit is dropped, except
  that the hexadecimal form of an invalid byte or control character is cut.
\<close>

function u_copy_chars :: "(uchar \<Rightarrow> int) \<Rightarrow> bool \<Rightarrow> string \<Rightarrow> int \<Rightarrow> (string \<times> int) option" where
  "u_copy_chars wcw utf8 s w =
     (if w < 0 then Some ([], w)
      else do { (u, n) \<leftarrow> u_get_char s;
                if u = 0 then Some ([], w)
                else let cw = u_char_width wcw utf8 u; w' = w - cw
                  in if w' < 0 then
                       (if cw = 4 \<and> w' \<ge> -3 then
                          Some (CHR ''<'' # (if w' \<ge> -2 then [hex_tab ! unat (drop_bit 4 u AND 0xf)] else [])
                                  @ (if w' \<ge> -1 then [hex_tab ! unat (u AND 0xf)] else []), 0)
                        else Some ([], w' + cw))
                     else do { (r, w'') \<leftarrow> u_copy_chars wcw utf8 (drop n s) w';
                               Some (u_set_char u @ r, w'') } })"
  by auto
termination
proof (relation "measure (\<lambda>(_, _, s, _). length s)", goal_cases)
  case (2 wcw utf8 s w x u n)
  then have "s \<noteq> []" by (auto simp: u_get_char_def byte_at_def c_at_def)
  then show ?case using 2 by (auto dest: u_get_char_pos)
qed simp

primrec u_to_ascii :: "string \<Rightarrow> nat \<Rightarrow> string option" where
  "u_to_ascii s 0 = Some []"
| "u_to_ascii s (Suc len) =
     do { ch \<leftarrow> byte_at s 0;
          if ch = 0 then Some []
          else do { (u, n) \<leftarrow> u_get_char s;
                    r \<leftarrow> u_to_ascii (drop n s) len;
                    Some ((if u < 128 then to_byte u else CHR ''?'') # r) } }"

text \<open>The bytes stored by \<open>u_to_utf8\<close>, the terminator included.\<close>

function u_to_utf8 :: "string \<Rightarrow> string option" where
  "u_to_utf8 s =
     do { (u, n) \<leftarrow> u_get_char s;
          if u = 0 then Some (u_set_char u)
          else do { r \<leftarrow> u_to_utf8 (drop n s); Some (u_set_char u @ r) } }"
  by auto
termination
proof (relation "measure length", goal_cases)
  case (2 s x u n)
  then have "s \<noteq> []" by (auto simp: u_get_char_def byte_at_def c_at_def)
  then show ?case using 2 by (auto dest: u_get_char_pos)
qed simp

definition u_print_size :: "uchar \<Rightarrow> nat" where
  "u_print_size uch = (if uch < 0x1f \<and> uch \<noteq> 0 then 4 else u_char_size uch)"

function u_str_print_size :: "string \<Rightarrow> nat option" where
  "u_str_print_size s =
     do { (u, n) \<leftarrow> u_get_char s;
          if u = 0 then Some (u_print_size u)
          else do { l \<leftarrow> u_str_print_size (drop n s); Some (u_print_size u + l) } }"
  by auto
termination
proof (relation "measure length", goal_cases)
  case (2 s x u n)
  then have "s \<noteq> []" by (auto simp: u_get_char_def byte_at_def c_at_def)
  then show ?case using 2 by (auto dest: u_get_char_pos)
qed simp

definition u_casefold_char :: "(uchar \<Rightarrow> uchar) \<Rightarrow> uchar \<Rightarrow> uchar" where
  "u_casefold_char lower ch =
     (if ch < 0x41 then ch else if ch \<le> 0x5a then ch + 0x20 else if ch < 128 then ch else lower ch)"

function u_casefold :: "(uchar \<Rightarrow> uchar) \<Rightarrow> string \<Rightarrow> string option" where
  "u_casefold lower s =
     do { ch \<leftarrow> byte_at s 0;
          if ch = 0 then Some []
          else do { (u, n) \<leftarrow> u_get_char s;
                    r \<leftarrow> u_casefold lower (drop n s);
                    Some (u_set_char_raw (u_casefold_char lower u) @ r) } }"
  by auto
termination
  by (relation "measure (\<lambda>(_, s). length s)")
    (use byte_at_nonempty u_get_char_pos in fastforce)+

function u_strcase_equal :: "(uchar \<Rightarrow> uchar) \<Rightarrow> string \<Rightarrow> string \<Rightarrow> bool option" where
  "u_strcase_equal lower a b =
     do { ch \<leftarrow> byte_at a 0;
          if ch = 0 then map_option (\<lambda>c. c = 0) (byte_at b 0)
          else do { (au, an) \<leftarrow> u_get_char a;
                    (bu, bn) \<leftarrow> u_get_char b;
                    if u_casefold_char lower au \<noteq> u_casefold_char lower bu then Some False
                    else do { bug_unless (bn \<le> length b);
                              u_strcase_equal lower (drop an a) (drop bn b) } } }"
  by auto
termination
  by (relation "measure (\<lambda>(_, a, _). length a)")
    (use byte_at_nonempty u_get_char_pos in fastforce)+

text \<open>
  \<open>get_base_from_composed\<close> over the table of \<^verbatim>\<open>unidecomp.h\<close>: the binary search between \<open>begin\<close> and
  \<open>end\<close>, a range that is never empty.
\<close>

function base_search :: "(uchar \<times> uchar) list \<Rightarrow> uchar \<Rightarrow> nat \<Rightarrow> nat \<Rightarrow> uchar option" where
  "base_search tab ch b e =
     (let half = (b + e) div 2
      in if \<not> b < e \<or> half \<ge> length tab then None
         else if ch = fst (tab ! half) then Some (snd (tab ! half))
         else if half = b then Some ch
         else if ch > fst (tab ! half) then base_search tab ch half e
         else base_search tab ch b half)"
  by auto
termination
  by (relation "measure (\<lambda>(_, _, b, e). e - b)") auto

definition get_base_from_composed :: "(uchar \<times> uchar) list \<Rightarrow> uchar \<Rightarrow> uchar option" where
  "get_base_from_composed tab ch =
     (if tab = [] then None
      else if ch < fst (tab ! 0) \<or> ch > fst (tab ! (length tab - 1)) then Some ch
      else base_search tab ch 0 (length tab))"

text \<open>
  Comparison of the first \<open>len\<close> characters; \<open>base\<close> is the table when only base characters count.
\<close>

primrec do_u_strncase_equal ::
  "(uchar \<Rightarrow> uchar) \<Rightarrow> (uchar \<times> uchar) list option \<Rightarrow> string \<Rightarrow> string \<Rightarrow> nat \<Rightarrow> bool option" where
  "do_u_strncase_equal lower base a b 0 = Some True"
| "do_u_strncase_equal lower base a b (Suc len) =
     do { (au, an) \<leftarrow> u_get_char a;
          (bu, bn) \<leftarrow> u_get_char b;
          au \<leftarrow> (case base of None \<Rightarrow> Some au | Some tab \<Rightarrow> get_base_from_composed tab au);
          bu \<leftarrow> (case base of None \<Rightarrow> Some bu | Some tab \<Rightarrow> get_base_from_composed tab bu);
          if u_casefold_char lower au \<noteq> u_casefold_char lower bu then Some False
          else if len = 0 then Some True
          else do { bug_unless (an \<le> length a \<and> bn \<le> length b);
                    do_u_strncase_equal lower base (drop an a) (drop bn b) len } }"

definition u_strncase_equal :: "(uchar \<Rightarrow> uchar) \<Rightarrow> string \<Rightarrow> string \<Rightarrow> nat \<Rightarrow> bool option" where
  "u_strncase_equal lower a b len = do_u_strncase_equal lower None a b len"

definition u_strncase_equal_base ::
  "(uchar \<Rightarrow> uchar) \<Rightarrow> (uchar \<times> uchar) list \<Rightarrow> string \<Rightarrow> string \<Rightarrow> nat \<Rightarrow> bool option" where
  "u_strncase_equal_base lower tab a b len = do_u_strncase_equal lower (Some tab) a b len"

text \<open>The loop of \<open>do_u_strcasestr\<close>; the result is the offset of the match.\<close>

function strcasestr_loop ::
  "(uchar \<Rightarrow> uchar) \<Rightarrow> (uchar \<times> uchar) list option \<Rightarrow> string \<Rightarrow> int \<Rightarrow> string \<Rightarrow> nat \<Rightarrow> nat option option" where
  "strcasestr_loop lower base haystack haystack_len needle needle_len =
     (if haystack_len < int needle_len then Some None
      else do { eq \<leftarrow> do_u_strncase_equal lower base needle haystack needle_len;
                if eq then Some (Some 0)
                else do { (u, idx) \<leftarrow> u_get_char haystack;
                          bug_unless (idx \<le> length haystack);
                          r \<leftarrow> strcasestr_loop lower base (drop idx haystack) (haystack_len - int idx) needle needle_len;
                          Some (map_option (\<lambda>k. idx + k) r) } })"
  by auto
termination
  by (relation "measure (\<lambda>(_, _, h, _). length h)") (auto dest: u_get_char_pos)

definition do_u_strcasestr ::
  "(uchar \<Rightarrow> uchar) \<Rightarrow> (uchar \<times> uchar) list option \<Rightarrow> string \<Rightarrow> string \<Rightarrow> nat option option" where
  "do_u_strcasestr lower base haystack needle =
     do { n \<leftarrow> u_strlen needle;
          strcasestr_loop lower base haystack (int (length haystack)) needle n }"

definition u_strcasestr :: "(uchar \<Rightarrow> uchar) \<Rightarrow> string \<Rightarrow> string \<Rightarrow> nat option option" where
  "u_strcasestr lower haystack needle = do_u_strcasestr lower None haystack needle"

definition u_strcasestr_base ::
  "(uchar \<Rightarrow> uchar) \<Rightarrow> (uchar \<times> uchar) list \<Rightarrow> string \<Rightarrow> string \<Rightarrow> nat option option" where
  "u_strcasestr_base lower tab haystack needle = do_u_strcasestr lower (Some tab) haystack needle"

text \<open>\<open>u_get_char(str, &idx)\<close> with the index kept.\<close>

definition u_get_char_at :: "string \<Rightarrow> nat \<Rightarrow> (uchar \<times> nat) option" where
  "u_get_char_at s idx =
     (if idx \<le> length s then map_option (\<lambda>(u, n). (u, idx + n)) (u_get_char (drop idx s)) else None)"

lemma u_get_char_at_pos: "u_get_char_at s idx = Some (u, idx') \<Longrightarrow> idx \<le> length s \<and> idx < idx'"
  by (auto simp: u_get_char_at_def dest: u_get_char_pos split: if_splits)

text \<open>The two loops of \<open>u_skip_chars\<close>: skipping columns, then zero-width characters.\<close>

function skip_loop ::
  "(uchar \<Rightarrow> int) \<Rightarrow> bool \<Rightarrow> string \<Rightarrow> int \<Rightarrow> nat \<Rightarrow> nat \<Rightarrow> uchar \<Rightarrow> (int \<times> nat \<times> nat \<times> uchar) option" where
  "skip_loop wcw utf8 s w last_idx idx u =
     (if w > 0 then
        do { (u, idx') \<leftarrow> u_get_char_at s idx;
             skip_loop wcw utf8 s (w - u_char_width wcw utf8 u) idx idx' u }
      else Some (w, last_idx, idx, u))"
  by auto
termination
  by (relation "measure (\<lambda>(_, _, s, _, _, idx, _). Suc (length s) - idx)") (auto dest: u_get_char_at_pos)

function skip_zero :: "(uchar \<Rightarrow> int) \<Rightarrow> bool \<Rightarrow> string \<Rightarrow> nat \<Rightarrow> nat option" where
  "skip_zero wcw utf8 s idx =
     do { (u, idx') \<leftarrow> u_get_char_at s idx;
          if u_char_width wcw utf8 u \<noteq> 0 then Some idx else skip_zero wcw utf8 s idx' }"
  by auto
termination
  by (relation "measure (\<lambda>(_, _, s, idx). Suc (length s) - idx)") (auto dest: u_get_char_at_pos)

definition u_skip_chars :: "(uchar \<Rightarrow> int) \<Rightarrow> bool \<Rightarrow> string \<Rightarrow> int \<Rightarrow> bool \<Rightarrow> (nat \<times> int) option" where
  "u_skip_chars wcw utf8 s width overskip =
     do { (w, last_idx, idx, u) \<leftarrow> skip_loop wcw utf8 s width 0 0 0;
          if w < 0 \<and> \<not> overskip then Some (last_idx, w + u_char_width wcw utf8 u)
          else do { idx \<leftarrow> skip_zero wcw utf8 s idx; Some (idx, w) } }"

declare u_is_valid.simps [simp del] u_strlen.simps [simp del] u_strlen_safe.simps [simp del]
  u_str_width.simps [simp del] u_strchr.simps [simp del] u_copy_chars.simps [simp del]
  u_to_utf8.simps [simp del] u_str_print_size.simps [simp del] u_casefold.simps [simp del]
  u_strcase_equal.simps [simp del] base_search.simps [simp del] strcasestr_loop.simps [simp del]
  skip_loop.simps [simp del] skip_zero.simps [simp del]

section \<open>Decoding never reads past the terminator\<close>

lemma len_tab_eq:
  assumes "ch < 256"
  shows "len_tab ch = (if ch < 128 then 1 else if ch < 192 then 0 else if ch < 224 then 2
     else if ch < 240 then 3 else if ch < 245 then 4 else -1)"
proof -
  have n: "unat ch < 256" using assms by (simp add: word_less_nat_alt)
  then show ?thesis
    by (auto simp: len_tab_def len_tab_data_def nth_append word_less_nat_alt nth_Cons' split: if_splits)
qed

lemma unat_of_char [simp]: "unat (of_char c :: uchar) = of_char c"
proof -
  have "(of_char c :: nat) < 2 ^ LENGTH(32)"
    using less_le_trans [of "of_char c :: nat" 256 "2 ^ LENGTH(32)"] by simp
  moreover have "(of_char c :: uchar) = of_nat (of_char c)" by (simp only: of_nat_of_char)
  ultimately show ?thesis by (simp add: unat_of_nat)
qed

lemma of_char_less: "(of_char c :: uchar) < 256"
  by (simp add: word_less_nat_alt)

lemma of_char_0_iff [simp]: "(of_char c :: uchar) = 0 \<longleftrightarrow> c = CHR 0x00"
proof -
  have "(of_char c :: uchar) = 0 \<longleftrightarrow> (of_char c :: nat) = of_char (CHR 0x00)"
    by (subst word_unat_eq_iff) simp
  then show ?thesis by (simp only: of_char_eq_iff)
qed

lemma of_char_to_byte: "u < 256 \<Longrightarrow> (of_char (to_byte u) :: uchar) = u"
  by (subst word_unat_eq_iff) (simp add: to_byte_def word_less_nat_alt)

lemma to_byte_of_char [simp]: "to_byte (of_char c) = c"
  by (simp add: to_byte_def)

lemma byte_at_Nil [simp]: "byte_at [] 0 = Some 0"
  by (simp add: byte_at_def c_at_def)

lemma byte_at_Cons [simp]:
  "byte_at (c # s) 0 = Some (of_char c)" "byte_at (c # s) (Suc i) = byte_at s i"
  by (simp_all add: byte_at_def c_at_def)

lemma byte_at_le: "i \<le> length s \<Longrightarrow> \<exists>ch. byte_at s i = Some ch \<and> ch < 256 \<and> (i = length s \<longrightarrow> ch = 0)"
  using of_char_less by (cases "i < length s") (auto simp: byte_at_def c_at_def)

lemma len_tab_0 [simp]: "len_tab 0 = 1"
  by (simp add: len_tab_eq)

text \<open>Continuation bytes are read only up to the terminator, which is not one.\<close>

lemma get_cont_safe: "i \<le> length s \<Longrightarrow> \<exists>r. get_cont n s i u = Some r"
proof (induction n arbitrary: i u)
  case (Suc n)
  from byte_at_le [OF Suc.prems] obtain ch where ch: "byte_at s i = Some ch"
    "i = length s \<longrightarrow> ch = 0" by auto
  show ?case
  proof (cases "len_tab ch = 0")
    case True
    with ch have "i \<noteq> length s" by auto
    with Suc show ?thesis using ch(1) True by simp
  qed (simp add: ch(1))
qed simp

lemma u_get_char_total:
  "\<exists>u n. u_get_char s = Some (u, n) \<and> 0 < n \<and> (s \<noteq> [] \<longrightarrow> n \<le> length s) \<and> (s = [] \<longrightarrow> u = 0 \<and> n = 1)"
proof (cases s)
  case Nil
  then show ?thesis by (simp add: u_get_char_def)
next
  case (Cons c cs)
  let ?ch = "of_char c :: uchar" and ?len = "len_tab (of_char c :: uchar)"
  obtain r where r: "get_cont (nat ?len - 1) s 1 (?ch AND first_byte_mask (nat ?len - 1)) = Some r"
    using get_cont_safe [of 1 s] Cons by auto
  show ?thesis
  proof (cases r)
    case None
    then show ?thesis using r Cons by (simp add: u_get_char_def Let_def)
  next
    case (Some v)
    have "1 \<le> ?len \<Longrightarrow> nat ?len \<le> length s"
      using get_cont_bound [OF r [unfolded Some]] Cons by (cases "nat ?len - 1 = 0") auto
    then show ?thesis using r Some Cons by (simp add: u_get_char_def Let_def)
  qed
qed

section \<open>Encoding and decoding\<close>

text \<open>Arithmetic of the byte layouts: low six bits under \<open>10xxxxxx\<close>, high bits under the length marks.\<close>

lemma layout_cont_nat:
  "\<forall>n\<in>set [0..<64]. let x = of_nat n :: uchar in
     (x OR 0x80) AND 0x3f = x \<and> x OR 0x80 < 192 \<and> 128 \<le> x OR 0x80"
  by code_simp

lemma layout_first_nat:
  "\<forall>n\<in>set [0..<32]. let x = of_nat n :: uchar in
     (x OR 0xc0) AND 0x1f = x \<and> x OR 0xc0 < 224 \<and> 192 \<le> x OR 0xc0"
  "\<forall>n\<in>set [0..<16]. let x = of_nat n :: uchar in
     (x OR 0xe0) AND 0x0f = x \<and> x OR 0xe0 < 240 \<and> 224 \<le> x OR 0xe0"
  "\<forall>n\<in>set [0..<5]. let x = of_nat n :: uchar in
     (x OR 0xf0) AND 0x07 = x \<and> x OR 0xf0 < 245 \<and> 240 \<le> x OR 0xf0"
  by code_simp+

lemma layout_cont:
  fixes x :: uchar
  assumes "x < 64"
  shows "(x OR 0x80) AND 0x3f = x" "x OR 0x80 < 192" "128 \<le> x OR 0x80"
  using word_range [OF layout_cont_nat] assms by (simp_all add: Let_def)

lemma layout_first:
  fixes x :: uchar
  shows "x < 32 \<Longrightarrow> (x OR 0xc0) AND 0x1f = x \<and> x OR 0xc0 < 224 \<and> 192 \<le> x OR 0xc0"
    "x < 16 \<Longrightarrow> (x OR 0xe0) AND 0x0f = x \<and> x OR 0xe0 < 240 \<and> 224 \<le> x OR 0xe0"
    "x < 5 \<Longrightarrow> (x OR 0xf0) AND 0x07 = x \<and> x OR 0xf0 < 245 \<and> 240 \<le> x OR 0xf0"
  using word_range [OF layout_first_nat(1)] word_range [OF layout_first_nat(2)] word_range [OF layout_first_nat(3)]
  by (simp_all add: Let_def)

lemma bytes_back_nat:
  "\<forall>n\<in>set [128..<192]. ((of_nat n :: uchar) AND 0x3f) OR 0x80 = of_nat n"
  "\<forall>n\<in>set [192..<224]. ((of_nat n :: uchar) AND 0x1f) OR 0xc0 = of_nat n \<and> of_nat n AND (0x1f :: uchar) < 32"
  "\<forall>n\<in>set [224..<240]. ((of_nat n :: uchar) AND 0x0f) OR 0xe0 = of_nat n \<and> of_nat n AND (0x0f :: uchar) < 16"
  "\<forall>n\<in>set [240..<245]. ((of_nat n :: uchar) AND 0x07) OR 0xf0 = of_nat n \<and> of_nat n AND (0x07 :: uchar) < 5"
  by code_simp+

lemma bytes_back:
  fixes b :: uchar
  shows "128 \<le> b \<Longrightarrow> b < 192 \<Longrightarrow> (b AND 0x3f) OR 0x80 = b"
    "192 \<le> b \<Longrightarrow> b < 224 \<Longrightarrow> (b AND 0x1f) OR 0xc0 = b \<and> b AND 0x1f < 32"
    "224 \<le> b \<Longrightarrow> b < 240 \<Longrightarrow> (b AND 0x0f) OR 0xe0 = b \<and> b AND 0x0f < 16"
    "240 \<le> b \<Longrightarrow> b < 245 \<Longrightarrow> (b AND 0x07) OR 0xf0 = b \<and> b AND 0x07 < 5"
  using word_range [OF bytes_back_nat(1), of b] word_range [OF bytes_back_nat(2), of b]
    word_range [OF bytes_back_nat(3), of b] word_range [OF bytes_back_nat(4), of b]
  by simp_all

lemma mask6: "(63 :: uchar) = mask 6"
  by (simp add: mask_eq_exp_minus_1)

lemma low6: "(u :: uchar) AND 63 < 64"
  using word_and_le1 [of u 63] by (rule le_less_trans) simp

lemma unat_low6: "unat ((u :: uchar) AND 63) = unat u mod 64"
proof -
  have "u AND 63 = u mod 64" unfolding mask6 by (simp add: take_bit_eq_mask [symmetric] take_bit_eq_mod)
  then show ?thesis by (simp add: unat_mod)
qed

lemma unat_drop6: "unat (drop_bit 6 (u :: uchar)) = unat u div 64"
  by (simp add: drop_bit_eq_div unat_div)

lemma unat_split6: "unat (u :: uchar) = 64 * unat (drop_bit 6 u) + unat (u AND 63)"
  by (simp add: unat_low6 unat_drop6)

lemma join6: "push_bit 6 (drop_bit 6 (u :: uchar)) OR (u AND 63) = u"
  unfolding mask6 by (rule bit_word_eqI) (auto simp: bit_simps)

lemma split6:
  fixes x y :: uchar
  assumes "y < 64" "x < 0x4000000"
  shows "drop_bit 6 (push_bit 6 x OR y) = x" "(push_bit 6 x OR y) AND 63 = y"
    "unat (push_bit 6 x OR y) = 64 * unat x + unat y"
proof -
  have y: "bit y i \<Longrightarrow> i < 6" for i using bit_less_exp [of y 6] assms(1) by simp
  have x: "bit x i \<Longrightarrow> i < 26" for i using bit_less_exp [of x 26] assms(2) by simp
  show 1: "drop_bit 6 (push_bit 6 x OR y) = x"
    using x y by (intro bit_word_eqI) (fastforce simp: bit_simps)
  show 2: "(push_bit 6 x OR y) AND 63 = y"
    unfolding mask6 using y by (intro bit_word_eqI) (auto simp: bit_simps)
  show "unat (push_bit 6 x OR y) = 64 * unat x + unat y"
    using unat_split6 [of "push_bit 6 x OR y"] unfolding 1 2 .
qed

lemma cont_byte:
  fixes x :: uchar
  shows "(of_char (to_byte ((x AND 63) OR 0x80)) :: uchar) = (x AND 63) OR 0x80"
    "len_tab ((x AND 63) OR 0x80) = 0" "((x AND 63) OR 0x80) AND 63 = x AND 63"
proof -
  note l = layout_cont [OF low6 [of x]]
  have "(x AND 63) OR 0x80 < 256" using l(2) by (rule less_trans) simp
  with l show "(of_char (to_byte ((x AND 63) OR 0x80)) :: uchar) = (x AND 63) OR 0x80"
    "len_tab ((x AND 63) OR 0x80) = 0" "((x AND 63) OR 0x80) AND 63 = x AND 63"
    by (simp_all add: of_char_to_byte len_tab_eq)
qed

lemma lead_byte:
  fixes x :: uchar
  shows "x < 32 \<Longrightarrow> (of_char (to_byte (x OR 0xc0)) :: uchar) = x OR 0xc0 \<and> len_tab (x OR 0xc0) = 2 \<and>
      \<not> x OR 0xc0 < 128 \<and> (x OR 0xc0) AND 0x1f = x"
    "x < 16 \<Longrightarrow> (of_char (to_byte (x OR 0xe0)) :: uchar) = x OR 0xe0 \<and> len_tab (x OR 0xe0) = 3 \<and>
      \<not> x OR 0xe0 < 128 \<and> (x OR 0xe0) AND 0x0f = x"
    "x < 5 \<Longrightarrow> (of_char (to_byte (x OR 0xf0)) :: uchar) = x OR 0xf0 \<and> len_tab (x OR 0xf0) = 4 \<and>
      \<not> x OR 0xf0 < 128 \<and> (x OR 0xf0) AND 0x07 = x"
  using layout_first [of x]
  by (auto simp: of_char_to_byte len_tab_eq word_le_nat_alt word_less_nat_alt)

text \<open>The four ranges of code points and their high bits.\<close>

lemma high_bits:
  fixes u :: uchar
  shows "u \<le> 0x7ff \<Longrightarrow> drop_bit 6 u < 32"
    "u \<le> 0xffff \<Longrightarrow> drop_bit 6 (drop_bit 6 u) < 16"
    "u \<le> 0x10ffff \<Longrightarrow> drop_bit 6 (drop_bit 6 (drop_bit 6 u)) < 5"
  by (simp_all only: word_less_nat_alt word_le_nat_alt unat_drop6) simp_all

lemmas decode_simps = Let_def first_byte_mask_def min_val_def max_val_def numeral_2_eq_2 numeral_3_eq_3

lemma get_cont_cons [simp]: "get_cont n (c # s) (Suc i) u = get_cont n s i u"
  by (induction n arbitrary: i u) (simp_all cong: if_cong)

definition shift_in :: "uchar \<Rightarrow> uchar \<Rightarrow> uchar" where
  "shift_in v x = push_bit 6 v OR (x AND 63)"

lemma shift_in_join: "shift_in (drop_bit 6 u) u = u"
  by (simp only: shift_in_def join6)

lemma get_cont_byte:
  "get_cont (Suc n) (to_byte ((x AND 63) OR 0x80) # s) 0 v = get_cont n s 0 (shift_in v x)"
  using cont_byte [of x] by (simp add: shift_in_def)

lemma u_get_char_encode:
  assumes "u \<le> 0x10ffff"
  shows "u_get_char (u_set_char_raw u @ rest) = Some (u, u_char_size u)"
proof -
  consider "u \<le> 0x7f" | "\<not> u \<le> 0x7f" "u \<le> 0x7ff" | "\<not> u \<le> 0x7f" "\<not> u \<le> 0x7ff" "u \<le> 0xffff"
    | "\<not> u \<le> 0x7f" "\<not> u \<le> 0x7ff" "\<not> u \<le> 0xffff" by blast
  then show ?thesis
  proof cases
    case 1
    then have "u < 128" "u < 256" by (simp_all add: word_le_nat_alt word_less_nat_alt)
    then show ?thesis using 1 by (simp add: u_get_char_def u_set_char_raw_def u_char_size_def of_char_to_byte)
  next
    case 2
    then show ?thesis using lead_byte(1) [OF high_bits(1) [OF 2(2)]]
      by (simp add: u_get_char_def u_set_char_raw_def u_char_size_def decode_simps get_cont_byte
          shift_in_join del: get_cont.simps(2) drop_bit_drop_bit)
  next
    case 3
    then show ?thesis using lead_byte(2) [OF high_bits(2) [OF 3(3)]]
      by (simp add: u_get_char_def u_set_char_raw_def u_char_size_def decode_simps get_cont_byte
          shift_in_join del: get_cont.simps(2) drop_bit_drop_bit)
  next
    case 4
    then show ?thesis using lead_byte(3) [OF high_bits(3) [OF assms]] assms
      by (simp add: u_get_char_def u_set_char_raw_def u_char_size_def decode_simps get_cont_byte
          shift_in_join del: get_cont.simps(2) drop_bit_drop_bit)
  qed
qed

lemma length_u_set_char_raw [simp]: "length (u_set_char_raw u) = u_char_size u"
  by (simp add: u_set_char_raw_def u_char_size_def)

section \<open>The validator accepts exactly the encodings of code points\<close>

definition code_point :: "uchar \<Rightarrow> bool" where
  "code_point u \<longleftrightarrow> 0 < u \<and> u \<le> 0x10ffff"

definition utf8 :: "uchar list \<Rightarrow> string" where
  "utf8 us = concat (map u_set_char_raw us)"

definition c_string :: "string \<Rightarrow> bool" where
  "c_string s \<longleftrightarrow> CHR 0x00 \<notin> set s"

lemma utf8_simps [simp]: "utf8 [] = []" "utf8 (u # us) = u_set_char_raw u @ utf8 us"
  by (simp_all add: utf8_def)

lemma utf8_append [simp]: "utf8 (a @ b) = utf8 a @ utf8 b"
  by (simp add: utf8_def)

lemma drop_encode [simp]: "drop (u_char_size u) (u_set_char_raw u @ rest) = rest"
  by simp

lemma code_point_cases:
  assumes "code_point u"
  obtains (one) "0 < u" "u \<le> 0x7f" "u < 128" "u < 256"
    | (two) "\<not> u \<le> 0x7f" "u \<le> 0x7ff" "\<not> u < 0x80"
    | (three) "\<not> u \<le> 0x7f" "\<not> u \<le> 0x7ff" "u \<le> 0xffff" "\<not> u < 0x800"
    | (four) "\<not> u \<le> 0x7f" "\<not> u \<le> 0x7ff" "\<not> u \<le> 0xffff" "u \<le> 0x10ffff" "\<not> u < 0x10000"
proof -
  have "u \<le> 0x7f \<Longrightarrow> u < 128 \<and> u < 256" "\<not> u \<le> 0x7f \<Longrightarrow> \<not> u < 0x80" "\<not> u \<le> 0x7ff \<Longrightarrow> \<not> u < 0x800"
    "\<not> u \<le> 0xffff \<Longrightarrow> \<not> u < 0x10000"
    by (simp_all add: word_le_nat_alt word_less_nat_alt)
  then show ?thesis using assms that unfolding code_point_def by blast
qed

text \<open>The first byte of an encoded code point determines its length in both length tables.\<close>

lemma lead_of_encode:
  assumes "code_point u"
  shows "\<exists>b. byte_at (u_set_char_raw u @ rest) 0 = Some b \<and> b \<noteq> 0 \<and> b < 256 \<and> len_tab b = int (u_char_size u) \<and>
    utf8_skip_data ! unat b = u_char_size u"
  using assms
proof (cases rule: code_point_cases)
  case one
  then show ?thesis
    by (auto simp: u_set_char_raw_def u_char_size_def of_char_to_byte len_tab_eq utf8_skip_data_def nth_append
        word_less_nat_alt)
next
  case two
  note l = lead_byte(1) [OF high_bits(1) [OF two(2)]] layout_first(1) [OF high_bits(1) [OF two(2)]]
  then have "unat (drop_bit 6 u OR 0xc0) < 224" "192 \<le> unat (drop_bit 6 u OR 0xc0)"
    by (simp_all add: word_le_nat_alt word_less_nat_alt)
  with two l show ?thesis
    by (auto simp: u_set_char_raw_def u_char_size_def utf8_skip_data_def nth_append word_less_nat_alt)
next
  case three
  note l = lead_byte(2) [OF high_bits(2) [OF three(3)]] layout_first(2) [OF high_bits(2) [OF three(3)]]
  then have "unat (drop_bit 6 (drop_bit 6 u) OR 0xe0) < 240" "224 \<le> unat (drop_bit 6 (drop_bit 6 u) OR 0xe0)"
    by (simp_all add: word_le_nat_alt word_less_nat_alt del: drop_bit_drop_bit)
  with three l show ?thesis
    by (auto simp: u_set_char_raw_def u_char_size_def utf8_skip_data_def nth_append word_less_nat_alt
        simp del: drop_bit_drop_bit)
next
  case four
  note l = lead_byte(3) [OF high_bits(3) [OF four(4)]] layout_first(3) [OF high_bits(3) [OF four(4)]]
  then have "unat (drop_bit 6 (drop_bit 6 (drop_bit 6 u)) OR 0xf0) < 245"
    "240 \<le> unat (drop_bit 6 (drop_bit 6 (drop_bit 6 u)) OR 0xf0)"
    by (simp_all add: word_le_nat_alt word_less_nat_alt del: drop_bit_drop_bit)
  with four l show ?thesis
    by (auto simp: u_set_char_raw_def u_char_size_def utf8_skip_data_def nth_append word_less_nat_alt
        simp del: drop_bit_drop_bit)
qed

lemma u_get_char_utf8: "code_point u \<Longrightarrow> u_get_char (u_set_char_raw u @ rest) = Some (u, u_char_size u)"
  by (simp add: code_point_def u_get_char_encode)

lemma u_char_size_bounds: "code_point u \<Longrightarrow> u_char_size u \<in> {1, 2, 3, 4}"
  by (simp add: u_char_size_def)

lemma min_max_val: "code_point u \<Longrightarrow> \<not> u < min_val (u_char_size u - 1) \<and> \<not> u > max_val (u_char_size u - 1)"
  by (erule code_point_cases) (simp_all add: u_char_size_def min_val_def max_val_def linorder_not_less)

text \<open>The decoder and the validator run the same loop.\<close>

lemma get_cont_of_encode:
  assumes "code_point u" "byte_at (u_set_char_raw u @ rest) 0 = Some b" "1 < u_char_size u"
  shows "get_cont (u_char_size u - 1) (u_set_char_raw u @ rest) 1 (b AND first_byte_mask (u_char_size u - 1)) = Some (Some u)"
proof -
  from lead_of_encode [OF assms(1), of rest] assms(2)
  have len: "len_tab b = int (u_char_size u)" "b < 256" by auto
  have "\<not> b < 128" using assms(3) len by (auto simp: len_tab_eq split: if_splits)
  with u_get_char_utf8 [OF assms(1), of rest] assms(2,3) len(1) show ?thesis
    by (auto simp: u_get_char_def Let_def bind_eq_Some_conv split: option.splits)
qed

lemma u_is_valid_encode:
  assumes "code_point u"
  shows "u_is_valid (u_set_char_raw u @ rest) = u_is_valid rest"
proof -
  from lead_of_encode [OF assms, of rest] obtain b where b: "byte_at (u_set_char_raw u @ rest) 0 = Some b"
    "b \<noteq> 0" "len_tab b = int (u_char_size u)" by blast
  then show ?thesis
    using get_cont_of_encode [OF assms b(1)] min_max_val [OF assms] u_char_size_bounds [OF assms]
    by (subst u_is_valid.simps) (auto simp: Let_def)
qed

lemma u_is_valid_utf8: "list_all code_point us \<Longrightarrow> u_is_valid (utf8 us) = Some True"
proof (induction us)
  case Nil
  then show ?case by (simp add: u_is_valid.simps)
qed (simp add: u_is_valid_encode)

lemma shift_in_split:
  assumes "x < 0x4000000"
  shows "drop_bit 6 (shift_in x y) = x" "shift_in x y AND 63 = y AND 63"
  unfolding shift_in_def using split6 [OF low6 assms] by simp_all

lemma get_cont_SomeE:
  assumes "get_cont (Suc n) s 0 v = Some (Some u)"
  obtains c s' where "s = c # s'" "((of_char c :: uchar) AND 63) OR 0x80 = of_char c"
    "get_cont n s' 0 (shift_in v (of_char c)) = Some (Some u)"
proof (cases s)
  case Nil
  then show ?thesis using assms by simp
next
  case (Cons c s')
  have "len_tab (of_char c :: uchar) = 0" using assms Cons by (auto split: if_splits)
  then have "128 \<le> (of_char c :: uchar)" "(of_char c :: uchar) < 192"
    using of_char_less [of c] by (auto simp: len_tab_eq split: if_splits)
  then show ?thesis
    using assms Cons bytes_back(1) that by (auto simp: shift_in_def split: if_splits)
qed

lemma encode_two:
  assumes "192 \<le> (of_char c :: uchar)" "(of_char c :: uchar) < 224"
    "get_cont 1 s 0 (of_char c AND 0x1f) = Some (Some u)" "\<not> u < 0x80" "\<not> 0x7ff < u"
  shows "\<exists>rest. c # s = u_set_char_raw u @ rest \<and> rest = drop 1 s \<and> code_point u"
proof -
  note b = bytes_back(2) [OF assms(1,2)]
  from assms(3) obtain c1 s1 where 1: "s = c1 # s1" "((of_char c1 :: uchar) AND 63) OR 0x80 = of_char c1"
    "u = shift_in (of_char c AND 0x1f) (of_char c1)"
    by (auto elim!: get_cont_SomeE simp: numeral_2_eq_2 simp del: get_cont.simps(2))
  have "(of_char c AND 0x1f :: uchar) < 0x4000000" using b by (auto intro: less_trans)
  note sp = shift_in_split [OF this, of "of_char c1", folded 1(3)]
  have "\<not> u \<le> 0x7f" "u \<le> 0x7ff" "0 < u" "u \<le> 0x10ffff"
    using assms(4,5) by (auto simp: word_le_nat_alt word_less_nat_alt)
  then show ?thesis using sp b 1 by (simp add: u_set_char_raw_def code_point_def)
qed

lemma encode_three:
  assumes "224 \<le> (of_char c :: uchar)" "(of_char c :: uchar) < 240"
    "get_cont 2 s 0 (of_char c AND 0x0f) = Some (Some u)" "\<not> u < 0x800" "\<not> 0xffff < u"
  shows "\<exists>rest. c # s = u_set_char_raw u @ rest \<and> rest = drop 2 s \<and> code_point u"
proof -
  note b = bytes_back(3) [OF assms(1,2)]
  from assms(3) obtain c1 c2 s2 where 1: "s = c1 # c2 # s2"
    "((of_char c1 :: uchar) AND 63) OR 0x80 = of_char c1" "((of_char c2 :: uchar) AND 63) OR 0x80 = of_char c2"
    "u = shift_in (shift_in (of_char c AND 0x0f) (of_char c1)) (of_char c2)"
    by (auto elim!: get_cont_SomeE simp: numeral_2_eq_2 simp del: get_cont.simps(2))
  let ?x = "shift_in (of_char c AND 0x0f) (of_char c1)"
  have x0: "(of_char c AND 0x0f :: uchar) < 0x4000000" using b by (auto intro: less_trans)
  note sp1 = shift_in_split [OF x0, of "of_char c1"]
  have "unat ?x = 64 * unat (of_char c AND 0x0f :: uchar) + unat (of_char c1 AND 63 :: uchar)"
    unfolding shift_in_def using split6(3) [OF low6 x0] .
  moreover have "unat (of_char c AND 0x0f :: uchar) < 16" "unat (of_char c1 AND 63 :: uchar) < 64"
    using b low6 [of "of_char c1"] by (simp_all add: word_less_nat_alt)
  ultimately have "?x < 0x4000000" by (simp add: word_less_nat_alt)
  note sp2 = shift_in_split [OF this, of "of_char c2", folded 1(4)]
  have "\<not> u \<le> 0x7f" "\<not> u \<le> 0x7ff" "u \<le> 0xffff" "0 < u" "u \<le> 0x10ffff"
    using assms(4,5) by (auto simp: word_le_nat_alt word_less_nat_alt)
  then show ?thesis using sp1 sp2 b 1
    by (simp add: u_set_char_raw_def code_point_def del: drop_bit_drop_bit)
qed

lemma encode_four:
  assumes "240 \<le> (of_char c :: uchar)" "(of_char c :: uchar) < 245"
    "get_cont 3 s 0 (of_char c AND 0x07) = Some (Some u)" "\<not> u < 0x10000" "\<not> 0x10ffff < u"
  shows "\<exists>rest. c # s = u_set_char_raw u @ rest \<and> rest = drop 3 s \<and> code_point u"
proof -
  note b = bytes_back(4) [OF assms(1,2)]
  from assms(3) obtain c1 c2 c3 s3 where 1: "s = c1 # c2 # c3 # s3"
    "((of_char c1 :: uchar) AND 63) OR 0x80 = of_char c1" "((of_char c2 :: uchar) AND 63) OR 0x80 = of_char c2"
    "((of_char c3 :: uchar) AND 63) OR 0x80 = of_char c3"
    "u = shift_in (shift_in (shift_in (of_char c AND 0x07) (of_char c1)) (of_char c2)) (of_char c3)"
    by (auto elim!: get_cont_SomeE simp: numeral_3_eq_3 simp del: get_cont.simps(2))
  let ?x = "shift_in (of_char c AND 0x07) (of_char c1)" and
    ?y = "shift_in (shift_in (of_char c AND 0x07) (of_char c1)) (of_char c2)"
  have x0: "(of_char c AND 0x07 :: uchar) < 0x4000000" using b by (auto intro: less_trans)
  have l: "unat (of_char c AND 0x07 :: uchar) < 5" "unat (of_char c1 AND 63 :: uchar) < 64"
    "unat (of_char c2 AND 63 :: uchar) < 64"
    using b low6 [of "of_char c1"] low6 [of "of_char c2"] by (simp_all add: word_less_nat_alt)
  have "unat ?x = 64 * unat (of_char c AND 0x07 :: uchar) + unat (of_char c1 AND 63 :: uchar)"
    unfolding shift_in_def using split6(3) [OF low6 x0] .
  with l have x1: "?x < 0x4000000" "unat ?x < 320" by (simp_all add: word_less_nat_alt)
  have "unat ?y = 64 * unat ?x + unat (of_char c2 AND 63 :: uchar)"
    unfolding shift_in_def [of ?x] using split6(3) [OF low6 x1(1)] .
  with l x1 have y: "?y < 0x4000000" by (simp add: word_less_nat_alt)
  note sp = shift_in_split [OF x0, of "of_char c1"] shift_in_split [OF x1(1), of "of_char c2"]
    shift_in_split [OF y, of "of_char c3", folded 1(5)]
  have "\<not> u \<le> 0x7f" "\<not> u \<le> 0x7ff" "\<not> u \<le> 0xffff" "0 < u" "u \<le> 0x10ffff"
    using assms(4,5) by (auto simp: word_le_nat_alt word_less_nat_alt)
  then show ?thesis using sp b 1
    by (simp add: u_set_char_raw_def code_point_def del: drop_bit_drop_bit)
qed

lemma u_is_valid_step:
  assumes "u_is_valid (c # s) = Some True" "c \<noteq> CHR 0x00"
  shows "\<exists>u rest. code_point u \<and> c # s = u_set_char_raw u @ rest \<and> u_is_valid rest = Some True"
proof -
  let ?b = "of_char c :: uchar"
  have b: "?b < 256" "?b \<noteq> 0" using of_char_less assms(2) by simp_all
  note v = assms(1) [unfolded u_is_valid.simps [of "c # s"]]
  consider "?b < 128" "len_tab ?b = 1" | "192 \<le> ?b" "?b < 224" "len_tab ?b = 2" |
    "224 \<le> ?b" "?b < 240" "len_tab ?b = 3" | "240 \<le> ?b" "?b < 245" "len_tab ?b = 4"
    using v b by (auto simp: Let_def len_tab_eq split: if_splits)
  then show ?thesis
  proof cases
    case 1
    then have "?b \<le> 0x7f" "?b \<le> 0x10ffff"
      by (auto simp: word_le_nat_alt word_less_nat_alt)
    moreover have "0 < ?b" using b(2) by (simp only: word_gt_0)
    ultimately have "code_point ?b" "c # s = u_set_char_raw ?b @ s"
      by (simp_all add: u_set_char_raw_def code_point_def)
    moreover have "u_is_valid s = Some True" using v 1 b by (simp add: Let_def)
    ultimately show ?thesis by blast
  next
    case 2
    then obtain u where "get_cont 1 s 0 (?b AND 0x1f) = Some (Some u)" "\<not> u < 0x80" "\<not> 0x7ff < u"
      "u_is_valid (drop 1 s) = Some True"
      using v b by (auto simp: Let_def first_byte_mask_def min_val_def max_val_def bind_eq_Some_conv
          split: option.splits if_splits)
    then show ?thesis using encode_two [OF 2(1,2)] by blast
  next
    case 3
    then obtain u where "get_cont 2 s 0 (?b AND 0x0f) = Some (Some u)" "\<not> u < 0x800" "\<not> 0xffff < u"
      "u_is_valid (drop 2 s) = Some True"
      using v b by (auto simp: Let_def first_byte_mask_def min_val_def max_val_def bind_eq_Some_conv
          numeral_2_eq_2 numeral_3_eq_3 split: option.splits if_splits)
    then show ?thesis using encode_three [OF 3(1,2)] by blast
  next
    case 4
    then obtain u where "get_cont 3 s 0 (?b AND 0x07) = Some (Some u)" "\<not> u < 0x10000" "\<not> 0x10ffff < u"
      "u_is_valid (drop 3 s) = Some True"
      using v b by (auto simp: Let_def first_byte_mask_def min_val_def max_val_def bind_eq_Some_conv
          numeral_3_eq_3 split: option.splits if_splits)
    then show ?thesis using encode_four [OF 4(1,2)] by blast
  qed
qed

lemma u_char_size_pos: "0 < u_char_size u"
  by (simp add: u_char_size_def)

lemma valid_is_utf8:
  "u_is_valid s = Some True \<Longrightarrow> c_string s \<Longrightarrow> \<exists>us. list_all code_point us \<and> s = utf8 us"
proof (induction s rule: length_induct)
  case (1 s)
  show ?case
  proof (cases s)
    case Nil
    then show ?thesis by (intro exI [of _ "[]"]) simp
  next
    case (Cons c cs)
    with 1 obtain u rest where s: "code_point u" "s = u_set_char_raw u @ rest" "u_is_valid rest = Some True"
      using u_is_valid_step [of c cs] by (auto simp: c_string_def)
    have "c_string rest" "length rest < length s"
      using 1(3) s(2) u_char_size_pos [of u] by (auto simp: c_string_def)
    with 1(1) s(3) obtain us where "list_all code_point us" "rest = utf8 us" by blast
    with s show ?thesis by (intro exI [of _ "u # us"]) simp
  qed
qed

lemma u_is_valid_total: "\<exists>v. u_is_valid s = Some v"
proof (induction s rule: length_induct)
  case (1 s)
  show ?case
  proof (cases s)
    case Nil
    then have "u_is_valid s = Some True" by (simp add: u_is_valid.simps)
    then show ?thesis by blast
  next
    case (Cons c cs)
    obtain r where r: "get_cont (nat (len_tab (of_char c :: uchar)) - Suc 0) cs 0
        (of_char c AND first_byte_mask (nat (len_tab (of_char c :: uchar)) - Suc 0)) = Some r"
      using get_cont_safe [of 0 cs] by auto
    have "\<exists>v. u_is_valid (drop k cs) = Some v" for k using 1 Cons by simp
    moreover have "\<exists>v. u_is_valid cs = Some v" using 1 Cons by simp
    moreover have "drop (nat l) (c # cs) = drop (nat l - 1) cs" if "1 \<le> l" for l :: int
      using that by (cases "nat l") auto
    ultimately show ?thesis using r Cons
      by (subst u_is_valid.simps) (auto simp: Let_def split: option.splits)
  qed
qed

section \<open>The functions on valid strings\<close>

lemma utf8_first:
  "us \<noteq> [] \<Longrightarrow> list_all code_point us \<Longrightarrow> \<exists>b. byte_at (utf8 us) 0 = Some b \<and> b \<noteq> 0"
  using lead_of_encode [of "hd us" "utf8 (tl us)"] by (cases us) auto

text \<open>One step of a loop that stops at the terminator.\<close>

lemma byte_at_step:
  "code_point u \<Longrightarrow> (byte_at (u_set_char_raw u @ rest) 0 \<bind> (\<lambda>ch. if ch = 0 then x else y)) = y"
  using lead_of_encode [of u rest] by auto

lemma u_strlen_utf8: "list_all code_point us \<Longrightarrow> u_strlen (utf8 us) = Some (length us)"
proof (induction us)
  case Nil
  then show ?case by (simp add: u_strlen.simps)
next
  case (Cons u us)
  then obtain b where "byte_at (utf8 (u # us)) 0 = Some b" "b \<noteq> 0" "utf8_skip_data ! unat b = u_char_size u"
    using lead_of_encode [of u "utf8 us"] by auto
  with Cons show ?case
    by (subst u_strlen.simps) (simp add: u_next_char_def u_char_size_pos)
qed

lemma u_str_width_utf8:
  "list_all code_point us \<Longrightarrow> u_str_width wcw b (utf8 us) = Some (sum_list (map (u_char_width wcw b) us))"
proof (induction us)
  case Nil
  then show ?case by (simp add: u_str_width.simps)
next
  case (Cons u us)
  then show ?case
    by (subst u_str_width.simps) (simp add: byte_at_step u_get_char_utf8)
qed

lemma u_casefold_utf8:
  "list_all code_point us \<Longrightarrow> u_casefold lower (utf8 us) = Some (utf8 (map (u_casefold_char lower) us))"
proof (induction us)
  case Nil
  then show ?case by (simp add: u_casefold.simps)
next
  case (Cons u us)
  then show ?case by (subst u_casefold.simps) (simp add: byte_at_step u_get_char_utf8)
qed

text \<open>Folding maps no character to the terminator.\<close>

definition fold_ok :: "(uchar \<Rightarrow> uchar) \<Rightarrow> bool" where
  "fold_ok lower \<longleftrightarrow> (\<forall>u. u \<noteq> 0 \<longrightarrow> u_casefold_char lower u \<noteq> 0)"

lemma fold_ok_id: "fold_ok id"
proof -
  have "u_casefold_char id u \<noteq> 0" if "u \<noteq> 0" for u
  proof (cases "u < 0x41 \<or> \<not> u \<le> 0x5a")
    case False
    then have "unat (u + 0x20) = unat u + 0x20"
      by (subst unat_add_lem [THEN iffD1]) (auto simp: word_le_nat_alt)
    then have "u + 0x20 \<noteq> 0" by (metis add_is_0 unat_0 zero_neq_numeral unat_eq_zero numeral_eq_iff)
    with False show ?thesis by (simp add: u_casefold_char_def)
  qed (use that in \<open>auto simp: u_casefold_char_def\<close>)
  then show ?thesis by (simp add: fold_ok_def)
qed

lemma u_casefold_char_0 [simp]: "u_casefold_char lower 0 = 0"
  by (simp add: u_casefold_char_def)

lemma code_point_nonzero: "code_point u \<Longrightarrow> u \<noteq> 0"
  by (auto simp: code_point_def)

lemma u_get_char_Nil [simp]: "u_get_char [] = Some (0, 1)"
  by (simp add: u_get_char_def)

lemma u_strcase_equal_utf8:
  assumes "fold_ok lower" "list_all code_point us" "list_all code_point vs"
  shows "u_strcase_equal lower (utf8 us) (utf8 vs) =
    Some (map (u_casefold_char lower) us = map (u_casefold_char lower) vs)"
  using assms(2,3)
proof (induction us arbitrary: vs)
  case Nil
  then show ?case
    using utf8_first [of vs] by (cases "vs = []") (auto simp: u_strcase_equal.simps [of _ "[]"])
next
  case (Cons u us)
  then have f: "u_casefold_char lower u \<noteq> 0" using assms(1) code_point_nonzero [of u] by (simp add: fold_ok_def)
  from Cons show ?case
    by (cases vs; subst u_strcase_equal.simps)
      (simp_all add: byte_at_step u_get_char_utf8 f)
qed

section \<open>The decomposition table\<close>

definition table_ok :: "(uchar \<times> uchar) list \<Rightarrow> bool" where
  "table_ok tab \<longleftrightarrow> tab \<noteq> [] \<and> sorted_wrt (<) (map fst tab)"

definition base_of :: "(uchar \<times> uchar) list \<Rightarrow> uchar \<Rightarrow> uchar" where
  "base_of tab ch = (case map_of tab ch of None \<Rightarrow> ch | Some b \<Rightarrow> b)"

lemma table_less:
  "table_ok tab \<Longrightarrow> i < j \<Longrightarrow> j < length tab \<Longrightarrow> fst (tab ! i) < fst (tab ! j)"
  using sorted_wrt_nth_less [of "(<)" "map fst tab" i j] by (simp add: table_ok_def)

lemma base_of_nth: "table_ok tab \<Longrightarrow> i < length tab \<Longrightarrow> base_of tab (fst (tab ! i)) = snd (tab ! i)"
proof -
  assume *: "table_ok tab" "i < length tab"
  have "distinct (map fst tab)" using *(1) by (simp add: table_ok_def strict_sorted_iff)
  then have "map_of tab (fst (tab ! i)) = Some (snd (tab ! i))" using *(2) by (simp add: map_of_eq_Some_iff)
  then show ?thesis by (simp add: base_of_def)
qed

lemma base_of_absent: "\<forall>i<length tab. fst (tab ! i) \<noteq> ch \<Longrightarrow> base_of tab ch = ch"
proof -
  assume "\<forall>i<length tab. fst (tab ! i) \<noteq> ch"
  then have "ch \<notin> set (map fst tab)" by (simp only: in_set_conv_nth) auto
  then have "map_of tab ch = None" by (simp only: map_of_eq_None_iff set_map not_False_eq_True)
  then show ?thesis by (simp add: base_of_def)
qed

lemma base_search_correct:
  assumes "table_ok tab" "b < e" "e \<le> length tab" "\<forall>i<b. fst (tab ! i) < ch"
    "\<forall>i. e \<le> i \<longrightarrow> i < length tab \<longrightarrow> ch < fst (tab ! i)"
  shows "base_search tab ch b e = Some (base_of tab ch)"
  using assms
proof (induction tab ch b e rule: base_search.induct)
  case (1 tab ch b e)
  let ?h = "(b + e) div 2"
  have h: "?h < length tab" "b \<le> ?h" "?h < e" using 1(4,5) by auto
  have low: "fst (tab ! i) < ch" if "i \<le> ?h" "fst (tab ! ?h) < ch" for i
    using table_less [OF 1(3), of i ?h] that h(1) by (cases "i = ?h") auto
  have high: "ch < fst (tab ! i)" if "?h \<le> i" "i < length tab" "ch < fst (tab ! ?h)" for i
    using table_less [OF 1(3), of ?h i] that by (cases "i = ?h") auto
  consider "ch = fst (tab ! ?h)" | "ch \<noteq> fst (tab ! ?h)" "?h = b"
    | "?h \<noteq> b" "fst (tab ! ?h) < ch" | "?h \<noteq> b" "ch < fst (tab ! ?h)"
    by (meson linorder_less_linear)
  then show ?case
  proof cases
    case 1
    then show ?thesis using h base_of_nth [OF \<open>table_ok tab\<close> h(1)]
      by (subst base_search.simps) (simp add: Let_def)
  next
    case 2
    have "e = Suc b" using 2(2) \<open>b < e\<close> by auto
    then have "\<forall>i<length tab. fst (tab ! i) \<noteq> ch" using 1(6,7) 2 by (metis not_less_eq less_irrefl linorder_not_less nat_less_le)
    then show ?thesis using base_of_absent 2 h by (subst base_search.simps) (simp add: Let_def)
  next
    case 3
    then have "base_search tab ch ?h e = Some (base_of tab ch)"
      using 1(1) [OF refl] 1(3-7) h low by auto
    moreover have "ch \<noteq> fst (tab ! ?h)" using 3 by simp
    ultimately show ?thesis using 3 h by (subst base_search.simps) (simp add: Let_def)
  next
    case 4
    have "ch \<noteq> fst (tab ! ?h)" "\<not> fst (tab ! ?h) < ch" using 4(2) by auto
    with 4 have "base_search tab ch b ?h = Some (base_of tab ch)"
      using 1(2) [OF refl] 1(3-7) h high by auto
    then show ?thesis using 4 h by (subst base_search.simps) (auto simp: Let_def)
  qed
qed

lemma get_base_correct:
  assumes "table_ok tab"
  shows "get_base_from_composed tab ch = Some (base_of tab ch)"
proof -
  have ne: "tab \<noteq> []" using assms by (simp add: table_ok_def)
  consider "ch < fst (tab ! 0)" | "ch > fst (tab ! (length tab - 1))"
    | "\<not> ch < fst (tab ! 0)" "\<not> ch > fst (tab ! (length tab - 1))" by blast
  then show ?thesis
  proof cases
    case 1
    then have "\<forall>i<length tab. fst (tab ! i) \<noteq> ch"
      using table_less [OF assms, of 0] by (metis gr0I less_asym' less_irrefl)
    then show ?thesis using 1 ne base_of_absent by (simp add: get_base_from_composed_def)
  next
    case 2
    have "fst (tab ! i) \<noteq> ch" if "i < length tab" for i
    proof (cases "i = length tab - 1")
      case False
      then have "fst (tab ! i) < fst (tab ! (length tab - 1))"
        using table_less [OF assms, of i "length tab - 1"] that by simp
      with 2 show ?thesis by auto
    qed (use 2 in auto)
    then show ?thesis using 2 ne base_of_absent by (simp add: get_base_from_composed_def)
  next
    case 3
    then show ?thesis
      using ne base_search_correct [OF assms, of 0 "length tab" ch] by (simp add: get_base_from_composed_def)
  qed
qed

section \<open>Comparison and search\<close>

definition norm_char :: "(uchar \<Rightarrow> uchar) \<Rightarrow> (uchar \<times> uchar) list option \<Rightarrow> uchar \<Rightarrow> uchar" where
  "norm_char lower base u = u_casefold_char lower (case base of None \<Rightarrow> u | Some tab \<Rightarrow> base_of tab u)"

text \<open>The table is sorted and only the terminator is compared like the terminator.\<close>

definition norm_ok :: "(uchar \<Rightarrow> uchar) \<Rightarrow> (uchar \<times> uchar) list option \<Rightarrow> bool" where
  "norm_ok lower base \<longleftrightarrow> (\<forall>tab. base = Some tab \<longrightarrow> table_ok tab) \<and>
     (\<forall>u. u \<noteq> 0 \<longrightarrow> norm_char lower base u \<noteq> norm_char lower base 0)"

lemma strncase_step:
  assumes "norm_ok lower base" "u_get_char a = Some (au, an)" "u_get_char b = Some (bu, bn)"
  shows "do_u_strncase_equal lower base a b (Suc len) =
    (if norm_char lower base au \<noteq> norm_char lower base bu then Some False
     else if len = 0 then Some True
     else do { bug_unless (an \<le> length a \<and> bn \<le> length b);
               do_u_strncase_equal lower base (drop an a) (drop bn b) len })"
  using assms by (cases base) (auto simp: norm_ok_def norm_char_def get_base_correct cong: if_cong)

lemma strncase_utf8:
  assumes "norm_ok lower base" "list_all code_point us" "list_all code_point vs"
  shows "do_u_strncase_equal lower base (utf8 us) (utf8 vs) (length us) =
    Some (prefix (map (norm_char lower base) us) (map (norm_char lower base) vs))"
  using assms(2,3)
proof (induction us arbitrary: vs)
  case (Cons u us)
  then have cp: "code_point u" "list_all code_point us" by auto
  show ?case
  proof (cases vs)
    case Nil
    have "norm_char lower base u \<noteq> norm_char lower base 0"
      using assms(1) code_point_nonzero [OF cp(1)] by (simp add: norm_ok_def)
    with Nil show ?thesis
      using strncase_step [OF assms(1) u_get_char_utf8 [OF cp(1)] u_get_char_Nil] by simp
  next
    case (Cons v vs')
    with Cons.prems have v: "code_point v" "list_all code_point vs'" by auto
    show ?thesis
      using strncase_step [OF assms(1) u_get_char_utf8 [OF cp(1)] u_get_char_utf8 [OF v(1)]]
        Cons.IH [OF cp(2) v(2)] Cons
      by simp
  qed
qed simp

primrec find_chars :: "(uchar \<Rightarrow> uchar) \<Rightarrow> uchar list \<Rightarrow> uchar list \<Rightarrow> nat option" where
  "find_chars g us [] = (if us = [] then Some 0 else None)"
| "find_chars g us (v # vs) =
     (if prefix (map g us) (map g (v # vs)) then Some 0
      else map_option (\<lambda>k. u_char_size v + k) (find_chars g us vs))"

lemma find_chars_short: "length vs < length us \<Longrightarrow> find_chars g us vs = None"
  by (induction vs) (auto dest: prefix_length_le)

lemma length_utf8: "length us \<le> length (utf8 us)"
proof (induction us)
  case (Cons u us)
  then show ?case using u_char_size_pos [of u] by simp
qed simp

lemma strcasestr_utf8:
  assumes "norm_ok lower base" "list_all code_point us" "list_all code_point vs"
  shows "strcasestr_loop lower base (utf8 vs) (int (length (utf8 vs))) (utf8 us) (length us) =
    Some (find_chars (norm_char lower base) us vs)"
  using assms(3)
proof (induction vs)
  case Nil
  then show ?case
    using strncase_utf8 [OF assms(1,2), of "[]"]
    by (subst strcasestr_loop.simps) simp
next
  case (Cons v vs)
  then have v: "code_point v" "list_all code_point vs" by auto
  show ?case
  proof (cases "length (utf8 (v # vs)) < length us")
    case True
    then have "length (v # vs) < length us" using length_utf8 [of "v # vs"] by linarith
    then show ?thesis using True find_chars_short [of "v # vs" us]
      by (subst strcasestr_loop.simps) simp
  next
    case False
    then show ?thesis
      using strncase_utf8 [OF assms(1,2) Cons.prems] Cons.IH [OF v(2)] u_get_char_utf8 [OF v(1)]
      by (subst strcasestr_loop.simps) simp
  qed
qed

lemma find_chars_Some:
  "find_chars g us vs = Some k \<Longrightarrow>
   \<exists>pre post. vs = pre @ post \<and> k = length (utf8 pre) \<and> prefix (map g us) (map g post)"
proof (induction vs arbitrary: k)
  case (Cons v vs)
  show ?case
  proof (cases "prefix (map g us) (map g (v # vs))")
    case True
    with Cons.prems show ?thesis by (intro exI [of _ "[]"] exI [of _ "v # vs"]) simp
  next
    case False
    with Cons.prems obtain k' where k': "find_chars g us vs = Some k'" "k = u_char_size v + k'" by auto
    from Cons.IH [OF k'(1)] obtain pre post where
      "vs = pre @ post" "k' = length (utf8 pre)" "prefix (map g us) (map g post)" by blast
    with k'(2) show ?thesis by (intro exI [of _ "v # pre"] exI [of _ post]) simp
  qed
qed (simp split: if_splits)

lemma find_chars_None: "find_chars g us vs = None \<longleftrightarrow> \<not> sublist (map g us) (map g vs)"
  by (induction vs) (auto simp: sublist_Cons_right)

section \<open>Stepping back, printing, safety\<close>

lemma byte_at_append: "byte_at (a @ s) (length a + i) = byte_at s i"
  by (simp add: byte_at_def c_at_def nth_append)

lemma byte_at_apps:
  "byte_at (a @ s) (length a) = byte_at s 0" "byte_at (a @ s) (Suc (length a)) = byte_at s (Suc 0)"
  "byte_at (a @ s) (Suc (Suc (length a))) = byte_at s (Suc (Suc 0))"
  "byte_at (a @ s) (Suc (Suc (Suc (length a)))) = byte_at s (Suc (Suc (Suc 0)))"
  using byte_at_append [of a s 0] byte_at_append [of a s "Suc 0"] byte_at_append [of a s "Suc (Suc 0)"]
    byte_at_append [of a s "Suc (Suc (Suc 0))"] by simp_all

lemma prev_of_encode:
  assumes "code_point u"
  shows "u_prev_char_pos (a @ u_set_char_raw u @ rest) (length a + u_char_size u) = Some (length a)"
  using assms
proof (cases rule: code_point_cases)
  case one
  then show ?thesis
    by (simp add: u_prev_char_pos_def u_char_size_def u_set_char_raw_def byte_at_apps of_char_to_byte len_tab_eq)
next
  case two
  then show ?thesis using lead_byte(1) [OF high_bits(1) [OF two(2)]] cont_byte [of u]
    by (simp add: u_prev_char_pos_def u_char_size_def u_set_char_raw_def byte_at_apps Let_def)
next
  case three
  have n: "length a + 3 = Suc (Suc (Suc (length a)))" by simp
  show ?thesis using three lead_byte(2) [OF high_bits(2) [OF three(3)]] cont_byte [of u] cont_byte [of "drop_bit 6 u"]
    by (simp add: u_prev_char_pos_def u_char_size_def u_set_char_raw_def byte_at_apps Let_def n del: drop_bit_drop_bit)
next
  case four
  have n: "length a + 4 = Suc (Suc (Suc (Suc (length a))))" by simp
  show ?thesis using four lead_byte(3) [OF high_bits(3) [OF four(4)]] cont_byte [of u] cont_byte [of "drop_bit 6 u"]
      cont_byte [of "drop_bit 6 (drop_bit 6 u)"]
    by (simp add: u_prev_char_pos_def u_char_size_def u_set_char_raw_def byte_at_apps Let_def n del: drop_bit_drop_bit)
qed

lemma print_utf8:
  "list_all code_point us \<Longrightarrow> 0x1f \<notin> set us \<Longrightarrow>
   \<exists>out. u_to_utf8 (utf8 us) = Some out \<and> u_str_print_size (utf8 us) = Some (length out)"
proof (induction us)
  case Nil
  then show ?case
    by (simp add: u_to_utf8.simps u_str_print_size.simps u_set_char_def u_print_size_def u_char_size_def)
next
  case (Cons u us)
  then obtain out where "u_to_utf8 (utf8 us) = Some out" "u_str_print_size (utf8 us) = Some (length out)" by auto
  moreover have "length (u_set_char u) = u_print_size u"
  proof -
    have "u < 0x1f \<longleftrightarrow> u \<le> 0x1f" using Cons.prems(2) by (simp add: order_less_le)
    then show ?thesis using Cons.prems(1) code_point_nonzero [of u]
      by (auto simp: u_set_char_def u_print_size_def code_point_def)
  qed
  ultimately show ?case using Cons.prems(1) code_point_nonzero [of u]
    by (subst u_to_utf8.simps, subst u_str_print_size.simps) (simp add: u_get_char_utf8)
qed

lemma conts_ok_safe: "i \<le> length s \<Longrightarrow> \<exists>r. conts_ok n s i = Some r \<and> (r \<longrightarrow> i + n \<le> length s)"
proof (induction n arbitrary: i)
  case (Suc n)
  from byte_at_le [OF Suc.prems] obtain ch where ch: "byte_at s i = Some ch"
    "i = length s \<longrightarrow> ch = 0" by auto
  show ?case
  proof (cases "len_tab ch = 0")
    case True
    with ch Suc.prems have "Suc i \<le> length s" by auto
    with Suc.IH [of "Suc i"] show ?thesis using ch(1) True by simp
  qed (intro exI [of _ False], simp add: ch(1))
qed (intro exI [of _ True], simp)

lemma u_strlen_safe_total: "\<exists>n\<le>length s. u_strlen_safe s = Some n"
proof (induction s rule: length_induct)
  case (1 s)
  from byte_at_le [of 0 s] obtain ch where ch: "byte_at s 0 = Some ch" by auto
  show ?case
  proof (cases "ch = 0")
    case True
    then show ?thesis using ch by (subst u_strlen_safe.simps) simp
  next
    case False
    then have s: "0 < length s" using ch byte_at_nonempty by blast
    then have "1 \<le> length s" by linarith
    from conts_ok_safe [OF this, of "nat (len_tab ch) - 1"] obtain r where
      r: "conts_ok (nat (len_tab ch) - 1) s 1 = Some r" "r \<longrightarrow> 1 + (nat (len_tab ch) - 1) \<le> length s" by blast
    let ?seq = "1 < len_tab ch \<and> r" let ?k = "if ?seq then nat (len_tab ch) else 1"
    have k: "0 < ?k" "?k \<le> length s" using r(2) s by (auto simp: Suc_le_eq)
    then obtain n where n: "n \<le> length (drop ?k s)" "u_strlen_safe (drop ?k s) = Some n"
      using 1 s by (metis diff_less length_drop)
    then show ?thesis using ch False r(1) k
      by (subst u_strlen_safe.simps) (auto simp: Let_def split: if_splits)
  qed
qed

lemma u_char_width_nonneg: "0 \<le> u_char_width wcw b u"
  by (simp add: u_char_width_def)

lemma u_copy_chars_total:
  "0 \<le> w \<Longrightarrow> \<exists>out w'. u_copy_chars wcw b s w = Some (out, w') \<and> 0 \<le> w' \<and> w' \<le> w"
proof (induction s arbitrary: w rule: length_induct)
  case (1 s)
  from u_get_char_total [of s] obtain u n where u: "u_get_char s = Some (u, n)" "0 < n" "s = [] \<longrightarrow> u = 0" by auto
  let ?cw = "u_char_width wcw b u"
  show ?case
  proof (cases "u = 0 \<or> w - ?cw < 0")
    case True
    then show ?thesis using 1(2) u
      by (subst u_copy_chars.simps) (auto simp: Let_def)
  next
    case False
    then have "length (drop n s) < length s" "0 \<le> w - ?cw" using u by auto
    with 1(1) obtain out w' where "u_copy_chars wcw b (drop n s) (w - ?cw) = Some (out, w')" "0 \<le> w'" "w' \<le> w - ?cw"
      by blast
    then show ?thesis using 1(2) False u u_char_width_nonneg [of wcw b u]
      by (subst u_copy_chars.simps) (auto simp: Let_def)
  qed
qed

section \<open>Properties\<close>

text \<open>
  C9. The validator is exact: on every C string it returns without reading past the terminator, and
  it accepts the string exactly when it is the concatenation of the shortest encodings of code points
  from 1 to 0x10ffff; overlong forms, stray continuation bytes and truncated sequences are rejected.
\<close>

theorem u_is_valid_exact:
  assumes "c_string s"
  shows "u_is_valid s = Some (\<exists>us. list_all code_point us \<and> s = utf8 us)"
  using u_is_valid_total [of s] valid_is_utf8 [OF _ assms] u_is_valid_utf8 by auto

theorem u_is_valid_exact_witness:
  "c_string [CHR 0xC1, CHR 0x81] \<and> u_is_valid [CHR 0xC1, CHR 0x81] = Some False \<and>
   (\<nexists>us. list_all code_point us \<and> [CHR 0xC1, CHR 0x81] = utf8 us)"
proof -
  have c: "c_string [CHR 0xC1, CHR 0x81]" by (simp add: c_string_def)
  moreover have "u_is_valid [CHR 0xC1, CHR 0x81] = Some False" by code_simp
  ultimately show ?thesis using u_is_valid_exact [OF c] by simp
qed

text \<open>
  C10. Encoding and decoding are inverse: reading at an encoded code point gives the code point and
  advances by its size, and stepping back from behind it returns to its first byte, whatever precedes
  and follows.
\<close>

theorem utf8_roundtrip:
  assumes "code_point u"
  shows "u_get_char (u_set_char_raw u @ rest) = Some (u, u_char_size u) \<and>
    length (u_set_char_raw u) = u_char_size u \<and>
    u_prev_char_pos (a @ u_set_char_raw u @ rest) (length a + u_char_size u) = Some (length a)"
  using u_get_char_utf8 [OF assms] prev_of_encode [OF assms] by simp

theorem utf8_roundtrip_witness:
  "code_point 0x20ac \<and> u_set_char_raw 0x20ac = [CHR 0xE2, CHR 0x82, CHR 0xAC] \<and>
   u_get_char ([CHR 0xE2, CHR 0x82, CHR 0xAC] @ ''x'') = Some (0x20ac, 3) \<and>
   u_prev_char_pos (''ab'' @ [CHR 0xE2, CHR 0x82, CHR 0xAC] @ ''x'') (2 + 3) = Some 2"
proof -
  have c: "code_point 0x20ac" by (simp add: code_point_def)
  have e: "u_set_char_raw 0x20ac = [CHR 0xE2, CHR 0x82, CHR 0xAC]" "u_char_size 0x20ac = 3" by code_simp+
  show ?thesis using utf8_roundtrip [OF c, of "''x''" "''ab''"] c e by simp
qed

text \<open>
  On every byte string, valid or not, the fault-tolerant functions stay inside it: decoding one
  character reads no byte behind the terminator and advances at least one byte and at most to the
  terminator; counting characters returns at most the number of bytes; copying for display returns
  with a remaining width between zero and the width offered.
\<close>

theorem decoding_safe:
  "(\<exists>u n. u_get_char s = Some (u, n) \<and> 0 < n \<and> n \<le> max 1 (length s)) \<and>
   (\<exists>n\<le>length s. u_strlen_safe s = Some n) \<and>
   (\<exists>out w'. u_copy_chars wcw utf (s :: string) (int w) = Some (out, w') \<and> 0 \<le> w' \<and> w' \<le> int w)"
proof -
  obtain u n where "u_get_char s = Some (u, n)" "0 < n" "n \<le> max 1 (length s)"
    using u_get_char_total [of s] by (cases "s = []") auto
  then show ?thesis using u_strlen_safe_total [of s] u_copy_chars_total [of "int w"] by auto
qed

text \<open>
  C11. On valid strings the string functions compute what their names say of the sequence of code
  points: its length, the sum of its widths, its case-folded encoding, and equality up to case.
\<close>

theorem string_functions:
  assumes "list_all code_point us" and "list_all code_point vs" and "fold_ok lower"
  shows "u_strlen (utf8 us) = Some (length us) \<and>
    u_str_width wcw b (utf8 us) = Some (sum_list (map (u_char_width wcw b) us)) \<and>
    u_casefold lower (utf8 us) = Some (utf8 (map (u_casefold_char lower) us)) \<and>
    u_strcase_equal lower (utf8 us) (utf8 vs) =
      Some (map (u_casefold_char lower) us = map (u_casefold_char lower) vs)"
  using u_strlen_utf8 u_str_width_utf8 u_casefold_utf8 u_strcase_equal_utf8 assms by simp

theorem string_functions_witness:
  "list_all code_point [0x41, 0xe9] \<and> list_all code_point [0x61, 0xe9] \<and> fold_ok id \<and>
   u_strlen (utf8 [0x41, 0xe9]) = Some 2 \<and>
   u_strcase_equal id (utf8 [0x41, 0xe9]) (utf8 [0x61, 0xe9]) = Some True"
proof -
  have cp: "list_all code_point [0x41, 0xe9]" "list_all code_point [0x61, 0xe9]"
    by (simp_all add: code_point_def)
  note f = fold_ok_id
  show ?thesis using string_functions [OF cp f] cp f by (simp add: u_casefold_char_def)
qed

text \<open>
  C12. The substring search is right on valid strings: it reports no match exactly when the normalised
  needle is not a contiguous part of the normalised haystack, and a match at byte \<open>k\<close> is the start of
  a character from which the needle matches. Normalising folds case and, when a table is given,
  replaces a character by its base character.
\<close>

theorem strcasestr_correct:
  assumes "norm_ok lower base" and "list_all code_point us" and "list_all code_point vs"
  shows "\<exists>r. do_u_strcasestr lower base (utf8 vs) (utf8 us) = Some r \<and>
    (case r of
       None \<Rightarrow> \<not> sublist (map (norm_char lower base) us) (map (norm_char lower base) vs)
     | Some k \<Rightarrow> \<exists>pre post. vs = pre @ post \<and> k = length (utf8 pre) \<and>
         prefix (map (norm_char lower base) us) (map (norm_char lower base) post))"
  using strcasestr_utf8 [OF assms] u_strlen_utf8 [OF assms(2)]
    find_chars_None [of "norm_char lower base" us vs] find_chars_Some [of "norm_char lower base" us vs]
  by (auto simp: do_u_strcasestr_def split: option.splits)

theorem strcasestr_correct_witness:
  "norm_ok id (Some [(0xe9, 0x65)]) \<and> list_all code_point [0x65] \<and> list_all code_point [0x43, 0xe9, 0x64] \<and>
   (\<exists>k. do_u_strcasestr id (Some [(0xe9, 0x65)]) (utf8 [0x43, 0xe9, 0x64]) (utf8 [0x65]) = Some (Some k))"
proof -
  let ?b = "Some [(0xe9, 0x65)] :: (uchar \<times> uchar) list option"
  have n: "norm_ok id ?b"
    using fold_ok_id by (simp add: norm_ok_def norm_char_def base_of_def table_ok_def fold_ok_def)
  have cp: "list_all code_point [0x65]" "list_all code_point [0x43, 0xe9, 0x64]"
    by (simp_all add: code_point_def)
  have "sublist (map (norm_char id ?b) [0x65]) (map (norm_char id ?b) [0x43, 0xe9, 0x64])"
    by (simp add: norm_char_def base_of_def u_casefold_char_def sublist_Cons_right)
  with strcasestr_correct [OF n cp] n cp show ?thesis by (auto split: option.splits)
qed

text \<open>
  The binary search for the base character returns exactly the entry of the sorted table, and the
  character itself when the table has none; it never indexes outside of the table.
\<close>

theorem base_char_lookup:
  assumes "table_ok tab"
  shows "get_base_from_composed tab ch = Some (case map_of tab ch of None \<Rightarrow> ch | Some b \<Rightarrow> b)"
  using get_base_correct [OF assms] by (simp add: base_of_def)

theorem base_char_lookup_witness:
  "table_ok [(0xc0, 0x41), (0xc7, 0x43), (0xe9, 0x65)] \<and>
   get_base_from_composed [(0xc0, 0x41), (0xc7, 0x43), (0xe9, 0x65)] 0xe9 = Some 0x65 \<and>
   get_base_from_composed [(0xc0, 0x41), (0xc7, 0x43), (0xe9, 0x65)] 0xc8 = Some 0xc8"
proof -
  have t: "table_ok [(0xc0, 0x41), (0xc7, 0x43), (0xe9, 0x65)]" by (simp add: table_ok_def)
  show ?thesis using base_char_lookup [OF t, of "0xe9"] base_char_lookup [OF t, of "0xc8"] t by simp
qed

text \<open>
  The size that \<^verbatim>\<open>mpris.c\<close> reserves on the stack for a printable copy of a tag is exactly the number
  of bytes stored when the tag is valid and does not contain the character 0x1f.
\<close>

theorem print_size_exact:
  assumes "list_all code_point us" and "0x1f \<notin> set us"
  shows "\<exists>out. u_to_utf8 (utf8 us) = Some out \<and> u_str_print_size (utf8 us) = Some (length out)"
  using print_utf8 [OF assms] .

theorem print_size_exact_witness:
  "list_all code_point [0x41, 0x1] \<and> 0x1f \<notin> set [0x41, 0x1 :: uchar] \<and>
   (\<exists>out. u_to_utf8 (utf8 [0x41, 0x1]) = Some out \<and> u_str_print_size (utf8 [0x41, 0x1]) = Some (length out))"
proof -
  have "list_all code_point [0x41, 0x1]" by (simp add: code_point_def)
  with print_size_exact [OF this] show ?thesis by simp
qed

text \<open>
  For a tag with an invalid byte, or with the character 0x1f, the reserved size is too small: the
  Latin-1 byte 0xe9 reserves two bytes and stores five (\<open><e9>\<close> and the terminator), and 0x1f likewise.
\<close>

theorem print_size_too_small:
  "u_str_print_size [CHR 0xE9] = Some 2 \<and> u_to_utf8 [CHR 0xE9] = Some (''<e9>'' @ [CHR 0x00]) \<and>
   u_str_print_size [CHR 0x1F] = Some 2 \<and> u_to_utf8 [CHR 0x1F] = Some (''<1f>'' @ [CHR 0x00])"
  by code_simp

end
