(* ===== verification/Comment.thy ===== *)
theory Comment
  imports Complex_Main Uchar "HOL-Library.Char_ord"
begin

text \<open>
  Track comments: the key/value arrays of \<^verbatim>\<open>src/app/common/key-value.c\<close>, the tag helpers of
  \<^verbatim>\<open>src/app/comment.c\<close> and what they use of the C library (\<open>strcasecmp\<close>, \<open>strtol\<close>). An array is the list
  of its slots, so that reading a slot that was never written, or one outside of the allocation, is a
  fault. Numbers parsed by \<open>strtod\<close> are answers of the C library: the argument \<open>strtod\<close> gives the value
  (\<open>None\<close> for NaN) and whether any character was consumed.

  The theory proves that growing arrays stay inside their allocation and behave as an association list,
  that tags are stored under canonical names without duplicates, and what the date parser returns.
\<close>

section \<open>C library\<close>

definition c_tolower :: "char \<Rightarrow> char" where
  "c_tolower c = (if CHR ''A'' \<le> c \<and> c \<le> CHR ''Z'' then char_of (of_char c + 32 :: nat) else c)"

definition strcasecmp_eq :: "string \<Rightarrow> string \<Rightarrow> bool" where
  "strcasecmp_eq a b \<longleftrightarrow> map c_tolower a = map c_tolower b"

definition c_isspace :: "char \<Rightarrow> bool" where
  "c_isspace c \<longleftrightarrow> c = CHR '' '' \<or> (CHR 0x09 \<le> c \<and> c \<le> CHR 0x0D)"

definition c_isdigit :: "char \<Rightarrow> bool" where
  "c_isdigit c \<longleftrightarrow> CHR ''0'' \<le> c \<and> c \<le> CHR ''9''"

definition digit_val :: "char \<Rightarrow> int" where
  "digit_val c = int (of_char c) - 48"

definition dec_val :: "string \<Rightarrow> int" where
  "dec_val ds = foldl (\<lambda>v c. 10 * v + digit_val c) 0 ds"

text \<open>
  \<open>strtol(s, &end, 10)\<close>: the value, saturated to a 64-bit \<open>long\<close>, and the rest of the string at \<open>end\<close>,
  which is the whole string when there is no number.
\<close>

definition strtol :: "string \<Rightarrow> int \<times> string" where
  "strtol s =
     (let s1 = dropWhile c_isspace s;
          neg = (s1 \<noteq> [] \<and> hd s1 = CHR ''-'');
          s2 = (if s1 \<noteq> [] \<and> (hd s1 = CHR ''-'' \<or> hd s1 = CHR ''+'') then tl s1 else s1);
          ds = takeWhile c_isdigit s2;
          v = (if neg then - dec_val ds else dec_val ds)
      in if ds = [] then (0, s)
         else (max (- (2 ^ 63)) (min (2 ^ 63 - 1) v), dropWhile c_isdigit s2))"

definition str_to_int :: "string \<Rightarrow> int option" where
  "str_to_int s = (if s = [] \<or> snd (strtol s) \<noteq> [] then None else Some (fst (strtol s)))"

definition is_freeform_true :: "string \<Rightarrow> bool" where
  "is_freeform_true c \<longleftrightarrow> c \<noteq> [] \<and>
     (hd c = CHR ''1'' \<or> hd c = CHR ''y'' \<or> hd c = CHR ''Y'' \<or> hd c = CHR ''t'' \<or> hd c = CHR ''T'')"

section \<open>Key/value arrays\<close>

text \<open>A slot: memory not yet written, the terminating entry, or an entry.\<close>

datatype slot = Junk | Null | Entry string string

text \<open>A terminated array is read up to its \<open>Null\<close> slot.\<close>

type_synonym key_values = "slot list"

record growing_key_values =
  keyValues :: key_values
  gk_alloc :: nat
  gk_count :: nat

definition key_value_new :: "nat \<Rightarrow> key_values" where
  "key_value_new num = replicate (num + 1) Null"

text \<open>The entries up to the terminator; running into junk or past the array is a fault.\<close>

fun kv_entries :: "key_values \<Rightarrow> (string \<times> string) list option" where
  "kv_entries (Null # _) = Some []"
| "kv_entries (Entry k v # xs) = map_option (Cons (k, v)) (kv_entries xs)"
| "kv_entries (Junk # _) = None"
| "kv_entries [] = None"

definition key_value_dup :: "key_values \<Rightarrow> key_values option" where
  "key_value_dup kv = map_option (\<lambda>es. map (\<lambda>(k, v). Entry k v) es @ [Null]) (kv_entries kv)"

definition key_value_init :: "key_values \<Rightarrow> growing_key_values option" where
  "key_value_init kv =
     do { es \<leftarrow> kv_entries kv;
          d \<leftarrow> key_value_dup kv;
          Some \<lparr>keyValues = d, gk_alloc = length es, gk_count = length es\<rparr> }"

text \<open>\<open>GROWING_KEY_VALUES(name)\<close>: no allocation.\<close>

definition growing_empty :: growing_key_values where
  "growing_empty = \<lparr>keyValues = [], gk_alloc = 0, gk_count = 0\<rparr>"

text \<open>\<open>realloc\<close> to a larger number of slots.\<close>

definition kv_realloc :: "nat \<Rightarrow> key_values \<Rightarrow> key_values" where
  "kv_realloc n kv = take n kv @ replicate (n - length kv) Junk"

definition key_value_add :: "growing_key_values \<Rightarrow> string \<Rightarrow> string \<Rightarrow> growing_key_values option" where
  "key_value_add c key val =
     (let n = gk_count c + 1;
          n' = 4 * ((n + 3) div 4);
          c = (if n > gk_alloc c then c\<lparr>keyValues := kv_realloc n' (keyValues c), gk_alloc := n'\<rparr> else c)
      in if gk_count c < length (keyValues c)
         then Some (c\<lparr>keyValues := (keyValues c)[gk_count c := Entry key val], gk_count := gk_count c + 1\<rparr>)
         else None)"

text \<open>The search over the first \<open>n\<close> slots.\<close>

primrec growing_find :: "nat \<Rightarrow> key_values \<Rightarrow> string \<Rightarrow> string option option" where
  "growing_find 0 kv key = Some None"
| "growing_find (Suc n) kv key =
     (case kv of Entry k v # xs \<Rightarrow> if strcasecmp_eq k key then Some (Some v) else growing_find n xs key
      | _ \<Rightarrow> None)"

definition key_value_get_val_growing :: "growing_key_values \<Rightarrow> string \<Rightarrow> string option option" where
  "key_value_get_val_growing c key = growing_find (gk_count c) (keyValues c) key"

definition key_value_terminate :: "growing_key_values \<Rightarrow> growing_key_values option" where
  "key_value_terminate c =
     (let alloc = gk_count c + 1;
          c = (if alloc > gk_alloc c then c\<lparr>keyValues := kv_realloc alloc (keyValues c), gk_alloc := alloc\<rparr> else c)
      in if gk_count c < length (keyValues c)
         then Some (c\<lparr>keyValues := (keyValues c)[gk_count c := Null]\<rparr>) else None)"

fun key_value_get_value :: "key_values \<Rightarrow> string \<Rightarrow> string option option" where
  "key_value_get_value (Null # _) key = Some None"
| "key_value_get_value (Entry k v # xs) key =
     (if strcasecmp_eq k key then Some (Some v) else key_value_get_value xs key)"
| "key_value_get_value (Junk # _) key = None"
| "key_value_get_value [] key = None"

section \<open>Tags\<close>

definition is_various_artists :: "string \<Rightarrow> bool" where
  "is_various_artists a \<longleftrightarrow> strcasecmp_eq a ''Various Artists'' \<or> strcasecmp_eq a ''Various'' \<or>
     strcasecmp_eq a ''VA'' \<or> strcasecmp_eq a ''V/A''"

definition track_is_compilation :: "(uchar \<Rightarrow> uchar) \<Rightarrow> key_values \<Rightarrow> bool option" where
  "track_is_compilation lower comments =
     do { c \<leftarrow> key_value_get_value comments ''compilation'';
          if (opt_is is_freeform_true c) then Some True
          else do { c \<leftarrow> key_value_get_value comments ''partofacompilation'';
            if (opt_is is_freeform_true c) then Some True
            else do { aa \<leftarrow> key_value_get_value comments ''albumartist'';
              if (opt_is is_various_artists aa) then Some True
              else do { a \<leftarrow> key_value_get_value comments ''artist'';
                if (opt_is is_various_artists a) then Some True
                else (case (aa, a) of
                        (Some aa, Some a) \<Rightarrow> map_option Not (u_strcase_equal lower aa a)
                      | _ \<Rightarrow> Some False) } } } }"

definition track_is_va_compilation :: "key_values \<Rightarrow> bool option" where
  "track_is_va_compilation comments =
     do { aa \<leftarrow> key_value_get_value comments ''albumartist'';
          case aa of Some x \<Rightarrow> Some (is_various_artists x)
          | None \<Rightarrow>
              do { a \<leftarrow> key_value_get_value comments ''artist'';
                   if (opt_is is_various_artists a) then Some True
                   else do { c \<leftarrow> key_value_get_value comments ''compilation'';
                     if (opt_is is_freeform_true c) then Some True
                     else do { c \<leftarrow> key_value_get_value comments ''partofacompilation'';
                               Some (opt_is is_freeform_true c) } } } }"

definition comments_get_albumartist :: "key_values \<Rightarrow> string option option" where
  "comments_get_albumartist comments =
     do { val \<leftarrow> key_value_get_value comments ''albumartist'';
          if val = None \<or> val = Some [] then key_value_get_value comments ''artist'' else Some val }"

definition comments_get_artistsort :: "(uchar \<Rightarrow> uchar) \<Rightarrow> key_values \<Rightarrow> string option option" where
  "comments_get_artistsort lower comments =
     do { va \<leftarrow> track_is_va_compilation comments;
          if va then Some None
          else do { val \<leftarrow> key_value_get_value comments ''albumartistsort'';
                    comp \<leftarrow> track_is_compilation lower comments;
                    val \<leftarrow> (if \<not> comp \<and> (val = None \<or> val = Some [])
                           then key_value_get_value comments ''artistsort'' else Some val);
                    Some (if val = None \<or> val = Some [] then None else val) } }"

definition comments_get_int :: "key_values \<Rightarrow> string \<Rightarrow> int option" where
  "comments_get_int comments key =
     do { val \<leftarrow> key_value_get_value comments key;
          Some (case val of None \<Rightarrow> -1
                | Some s \<Rightarrow> (case str_to_int (dropWhile (\<lambda>c. \<not> c_isdigit c) s) of
                              None \<Rightarrow> -1 | Some v \<Rightarrow> c_int v)) }"

text \<open>\<open>None\<close> inside: the return value \<open>-1\<close>, with \<open>*ival\<close> not to be used.\<close>

definition comments_get_signed_int :: "key_values \<Rightarrow> string \<Rightarrow> int option option" where
  "comments_get_signed_int comments key =
     do { val \<leftarrow> key_value_get_value comments key;
          Some (case val of None \<Rightarrow> None
                | Some s \<Rightarrow> str_to_int (dropWhile (\<lambda>c. \<not> (c = CHR ''+'' \<or> c = CHR ''-'' \<or> c_isdigit c)) s)) }"

definition comments_get_double ::
  "(string \<Rightarrow> real option \<times> bool) \<Rightarrow> key_values \<Rightarrow> string \<Rightarrow> real option option" where
  "comments_get_double strtod comments key =
     do { val \<leftarrow> key_value_get_value comments key;
          Some (case val of None \<Rightarrow> None
                | Some s \<Rightarrow> (if s = [] \<or> \<not> snd (strtod s) then None else fst (strtod s))) }"

definition date_sep :: "string \<Rightarrow> bool" where
  "date_sep s \<longleftrightarrow> s \<noteq> [] \<and> (hd s = CHR ''-'' \<or> hd s = CHR '' '' \<or> hd s = CHR ''/'')"

text \<open>\<open>comments_get_date\<close> on the value of the tag; each \<open>strtol\<close> result is stored in an \<open>int\<close>.\<close>

definition parse_date :: "string \<Rightarrow> int" where
  "parse_date val =
     (let (year, endp) = strtol val; year = c_int year
      in if year < 1000 \<or> year > 9999 then -1
         else let ival = year * 10000;
                  (month, endp', has_month) =
                    (if date_sep endp then (c_int (fst (strtol (tl endp))), snd (strtol (tl endp)), True)
                     else (0, endp, False))
              in if has_month \<and> (month < 1 \<or> month > 12) then ival
                 else let ival = ival + month * 100
                      in if date_sep endp'
                         then let day = c_int (fst (strtol (tl endp')))
                              in if day < 1 \<or> day > 31 then ival else ival + day
                         else ival)"

definition comments_get_date :: "key_values \<Rightarrow> string \<Rightarrow> int option" where
  "comments_get_date comments key =
     do { val \<leftarrow> key_value_get_value comments key;
          Some (case val of None \<Rightarrow> -1 | Some s \<Rightarrow> parse_date s) }"

definition interesting :: "string list" where
  "interesting =
     [''artist'', ''album'', ''title'', ''tracknumber'', ''discnumber'', ''genre'',
      ''date'', ''compilation'', ''partofacompilation'', ''albumartist'', ''artistsort'', ''albumartistsort'',
      ''albumsort'', ''originaldate'', ''r128_track_gain'', ''r128_album_gain'', ''replaygain_track_gain'',
      ''replaygain_track_peak'', ''replaygain_album_gain'', ''replaygain_album_peak'', ''musicbrainz_trackid'',
      ''comment'', ''bpm'', ''arranger'', ''composer'', ''conductor'', ''lyricist'', ''performer'',
      ''remixer'', ''label'', ''publisher'', ''work'', ''opus'', ''partnumber'', ''part'',
      ''subtitle'', ''media'']"

definition key_map :: "(string \<times> string) list" where
  "key_map =
     [(''album_artist'', ''albumartist''), (''album artist'', ''albumartist''), (''disc'', ''discnumber''),
      (''tempo'', ''bpm''), (''track'', ''tracknumber''), (''WM/Year'', ''date''),
      (''WM/ArtistSortOrder'', ''artistsort''), (''WM/AlbumArtistSortOrder'', ''albumartistsort''),
      (''WM/AlbumSortOrder'', ''albumsort''), (''WM/OriginalReleaseYear'', ''originaldate''),
      (''WM/Media'', ''media''), (''sourcemedia'', ''media''),
      (''MusicBrainz Track Id'', ''musicbrainz_trackid''), (''version'', ''subtitle''),
      (''artist-sort'', ''artistsort''), (''TSO2'', ''albumartistsort''), (''album-sort'', ''albumsort''),
      (''sort_artist'', ''artistsort''), (''sort_album_artist'', ''albumartistsort''),
      (''sort_album'', ''albumsort'')]"

definition fix_key :: "string \<Rightarrow> string option" where
  "fix_key key =
     (case find (strcasecmp_eq key) interesting of
        Some k \<Rightarrow> Some k
      | None \<Rightarrow> map_option snd (find (\<lambda>(old, new). strcasecmp_eq key old) key_map))"

text \<open>\<open>comments_add\<close> for a key other than \<open>songwriter\<close>; the result is the return value and the array.\<close>

definition comments_add_one ::
  "growing_key_values \<Rightarrow> string \<Rightarrow> string \<Rightarrow> (bool \<times> growing_key_values) option" where
  "comments_add_one c key val =
     (case fix_key key of None \<Rightarrow> Some (False, c)
      | Some key \<Rightarrow>
          (let val = (if key = ''tracknumber'' \<or> key = ''discnumber'' then takeWhile (\<lambda>x. x \<noteq> CHR ''/'') val else val)
           in do { old \<leftarrow> key_value_get_val_growing c key;
                   if old \<noteq> None then Some (False, c)
                   else map_option (Pair True) (key_value_add c key val) }))"

text \<open>\<open>comments_add_const\<close> copies its value and calls \<open>comments_add\<close>, so it has the same model.\<close>

definition comments_add ::
  "growing_key_values \<Rightarrow> string \<Rightarrow> string \<Rightarrow> (bool \<times> growing_key_values) option" where
  "comments_add c key val =
     (if strcasecmp_eq key ''songwriter''
      then do { (r, c) \<leftarrow> comments_add_one c ''lyricist'' val;
                (r', c) \<leftarrow> comments_add_one c ''composer'' val;
                Some (r' \<and> r, c) }
      else comments_add_one c key val)"

section \<open>Growing arrays are association lists\<close>

definition kv_lookup :: "(string \<times> string) list \<Rightarrow> string \<Rightarrow> string option" where
  "kv_lookup es key = map_option snd (find (\<lambda>(k, v). strcasecmp_eq k key) es)"

lemma kv_lookup_simps [simp]:
  "kv_lookup [] key = None"
  "kv_lookup ((k, v) # es) key = (if strcasecmp_eq k key then Some v else kv_lookup es key)"
  by (simp_all add: kv_lookup_def)

lemma kv_lookup_append:
  "kv_lookup (es @ fs) key = (case kv_lookup es key of None \<Rightarrow> kv_lookup fs key | Some v \<Rightarrow> Some v)"
  by (induction es) auto

lemma kv_lookup_None: "kv_lookup es key = None \<longleftrightarrow> (\<forall>e\<in>set es. \<not> strcasecmp_eq (fst e) key)"
  by (induction es) (auto split: if_splits)

locale kv_store =
  fixes rep :: "'c \<Rightarrow> (string \<times> string) list \<Rightarrow> bool"
    and add :: "'c \<Rightarrow> string \<Rightarrow> string \<Rightarrow> 'c option"
    and get :: "'c \<Rightarrow> string \<Rightarrow> string option option"
  assumes add_rep: "rep c es \<Longrightarrow> \<exists>c'. add c k v = Some c' \<and> rep c' (es @ [(k, v)])"
    and get_rep: "rep c es \<Longrightarrow> get c k = Some (kv_lookup es k)"
begin

text \<open>Adding only names that are not present.\<close>

definition add_new :: "'c \<Rightarrow> string \<Rightarrow> string \<Rightarrow> (bool \<times> 'c) option" where
  "add_new c k v = do { old \<leftarrow> get c k; if old \<noteq> None then Some (False, c) else map_option (Pair True) (add c k v) }"

lemma add_new_rep:
  assumes "rep c es"
  shows "\<exists>r c'. add_new c k v = Some (r, c') \<and>
    rep c' (if kv_lookup es k = None then es @ [(k, v)] else es)"
proof (cases "kv_lookup es k")
  case None
  obtain c' where "add c k v = Some c'" "rep c' (es @ [(k, v)])" using add_rep [OF assms] by blast
  with None get_rep [OF assms, of k] show ?thesis by (simp add: add_new_def ex_bool_eq)
next
  case (Some x)
  with get_rep [OF assms, of k] assms show ?thesis by (simp add: add_new_def ex_bool_eq)
qed

end

definition entry :: "string \<times> string \<Rightarrow> slot" where
  "entry = (\<lambda>(k, v). Entry k v)"

definition growing_rep :: "growing_key_values \<Rightarrow> (string \<times> string) list \<Rightarrow> bool" where
  "growing_rep c es \<longleftrightarrow> gk_count c = length es \<and> length es \<le> gk_alloc c \<and>
     gk_alloc c \<le> length (keyValues c) \<and> take (length es) (keyValues c) = map entry es"

lemma growing_find_rep:
  "take n kv = map entry es \<Longrightarrow> n = length es \<Longrightarrow> growing_find n kv key = Some (kv_lookup es key)"
proof (induction es arbitrary: n kv)
  case (Cons e es)
  then obtain x kv' where "kv = x # kv'" "x = entry e" "take (length es) kv' = map entry es"
    by (cases kv) auto
  with Cons show ?case by (cases e) (auto simp: entry_def)
qed simp

lemma take_kv_realloc: "n \<le> m \<Longrightarrow> n \<le> length kv \<Longrightarrow> take n (kv_realloc m kv) = take n kv"
  by (simp add: kv_realloc_def min_def)

lemma length_kv_realloc: "length (kv_realloc m kv) = m"
  by (simp add: kv_realloc_def)

lemma key_value_add_rep:
  assumes "growing_rep c es"
  shows "\<exists>c'. key_value_add c k v = Some c' \<and> growing_rep c' (es @ [(k, v)])"
proof -
  let ?n = "length es"
  have m: "Suc ?n \<le> 4 * ((Suc ?n + 3) div 4)" by simp
  have upd: "take (Suc ?n) (kv[?n := Entry k v]) = map entry (es @ [(k, v)])"
    if "take ?n kv = map entry es" "?n < length kv" for kv
    using that by (simp add: take_Suc_conv_app_nth entry_def)
  show ?thesis
  proof (cases "Suc ?n \<le> gk_alloc c")
    case True
    then show ?thesis using assms upd by (simp add: growing_rep_def key_value_add_def Let_def)
  next
    case False
    then show ?thesis using assms m upd [of "kv_realloc (4 * ((Suc ?n + 3) div 4)) (keyValues c)"]
      by (simp add: growing_rep_def key_value_add_def Let_def take_kv_realloc length_kv_realloc)
  qed
qed

interpretation tags: kv_store growing_rep key_value_add key_value_get_val_growing
proof unfold_locales
  show "\<exists>c'. key_value_add c k v = Some c' \<and> growing_rep c' (es @ [(k, v)])" if "growing_rep c es" for c es k v
    using key_value_add_rep [OF that] .
  show "key_value_get_val_growing c k = Some (kv_lookup es k)" if "growing_rep c es" for c es k
    using that by (simp add: key_value_get_val_growing_def growing_rep_def growing_find_rep)
qed

lemma growing_empty_rep: "growing_rep growing_empty []"
  by (simp add: growing_rep_def growing_empty_def)

lemma kv_entries_app: "kv_entries (map entry es @ Null # xs) = Some es"
  by (induction es) (auto simp: entry_def)

lemma key_value_get_value_app: "key_value_get_value (map entry es @ Null # xs) key = Some (kv_lookup es key)"
  by (induction es) (auto simp: entry_def)

lemma terminate_rep:
  assumes "growing_rep c es"
  shows "\<exists>c' xs. key_value_terminate c = Some c' \<and> keyValues c' = map entry es @ Null # xs"
proof -
  let ?n = "length es"
  have upd: "kv[?n := Null] = map entry es @ Null # drop (Suc ?n) kv"
    if "take ?n kv = map entry es" "?n < length kv" for kv
    using that by (simp add: upd_conv_take_nth_drop)
  show ?thesis
  proof (cases "Suc ?n \<le> gk_alloc c")
    case True
    then show ?thesis using assms upd [of "keyValues c"] by (auto simp: growing_rep_def key_value_terminate_def Let_def)
  next
    case False
    then show ?thesis using assms upd [of "kv_realloc (Suc ?n) (keyValues c)"]
      by (auto simp: growing_rep_def key_value_terminate_def Let_def take_kv_realloc length_kv_realloc)
  qed
qed

lemma key_value_dup_entries:
  "kv_entries kv = Some es \<Longrightarrow> key_value_dup kv = Some (map entry es @ [Null])"
  by (simp add: key_value_dup_def entry_def)

lemma key_value_init_rep:
  "kv_entries kv = Some es \<Longrightarrow> \<exists>c. key_value_init kv = Some c \<and> growing_rep c es"
  by (simp add: key_value_init_def key_value_dup_entries growing_rep_def)

text \<open>Which entries a sequence of tags leaves: canonical names, first value wins.\<close>

definition tag_norm :: "string \<times> string \<Rightarrow> (string \<times> string) list" where
  "tag_norm kv =
     (if strcasecmp_eq (fst kv) ''songwriter'' then [(''lyricist'', snd kv), (''composer'', snd kv)]
      else case fix_key (fst kv) of None \<Rightarrow> []
           | Some k \<Rightarrow> [(k, if k = ''tracknumber'' \<or> k = ''discnumber''
                            then takeWhile (\<lambda>x. x \<noteq> CHR ''/'') (snd kv) else snd kv)])"

definition tags_insert :: "(string \<times> string) list \<Rightarrow> string \<times> string \<Rightarrow> (string \<times> string) list" where
  "tags_insert es kv = (if kv_lookup es (fst kv) = None then es @ [kv] else es)"

definition tags_of :: "(string \<times> string) list \<Rightarrow> (string \<times> string) list" where
  "tags_of kvs = foldl tags_insert [] (concat (map tag_norm kvs))"

text \<open>The plugins add their tags one by one.\<close>

primrec comments_add_all :: "(string \<times> string) list \<Rightarrow> growing_key_values \<Rightarrow> growing_key_values option" where
  "comments_add_all [] c = Some c"
| "comments_add_all (kv # kvs) c = do { (r, c) \<leftarrow> comments_add c (fst kv) (snd kv); comments_add_all kvs c }"

lemma comments_add_one_eq:
  "fix_key key = Some k \<Longrightarrow> comments_add_one c key val =
     tags.add_new c k (if k = ''tracknumber'' \<or> k = ''discnumber'' then takeWhile (\<lambda>x. x \<noteq> CHR ''/'') val else val)"
  by (simp add: comments_add_one_def tags.add_new_def Let_def)

lemma fix_key_songwriter: "fix_key ''lyricist'' = Some ''lyricist''" "fix_key ''composer'' = Some ''composer''"
  by (simp_all add: fix_key_def interesting_def strcasecmp_eq_def c_tolower_def less_eq_char_def)

lemma add_new_insert:
  assumes "growing_rep c es"
  shows "\<exists>r c'. tags.add_new c k v = Some (r, c') \<and> growing_rep c' (tags_insert es (k, v))"
  using tags.add_new_rep [OF assms, of k v] by (simp add: tags_insert_def)

lemma comments_add_rep:
  assumes "growing_rep c es"
  shows "\<exists>r c'. comments_add c k v = Some (r, c') \<and> growing_rep c' (foldl tags_insert es (tag_norm (k, v)))"
proof (cases "strcasecmp_eq k ''songwriter''")
  case True
  from add_new_insert [OF assms] obtain r c1 where
    1: "tags.add_new c ''lyricist'' v = Some (r, c1)" "growing_rep c1 (tags_insert es (''lyricist'', v))" by blast
  from add_new_insert [OF 1(2)] obtain r' c2 where
    2: "tags.add_new c1 ''composer'' v = Some (r', c2)"
       "growing_rep c2 (tags_insert (tags_insert es (''lyricist'', v)) (''composer'', v))" by blast
  from True 1 2 show ?thesis
    by (simp add: comments_add_def comments_add_one_eq fix_key_songwriter tag_norm_def)
next
  case False
  show ?thesis
  proof (cases "fix_key k")
    case None
    with False assms show ?thesis by (simp add: comments_add_def comments_add_one_def tag_norm_def ex_bool_eq)
  next
    case (Some k')
    with False show ?thesis
      using add_new_insert [OF assms] by (simp add: comments_add_def comments_add_one_eq tag_norm_def)
  qed
qed

lemma comments_add_all_rep:
  "growing_rep c es \<Longrightarrow>
   \<exists>c'. comments_add_all kvs c = Some c' \<and> growing_rep c' (foldl tags_insert es (concat (map tag_norm kvs)))"
proof (induction kvs arbitrary: c es)
  case (Cons kv kvs)
  obtain k v where kv: "kv = (k, v)" by (cases kv)
  from comments_add_rep [OF Cons.prems] obtain r c1 where
    1: "comments_add c k v = Some (r, c1)" "growing_rep c1 (foldl tags_insert es (tag_norm (k, v)))" by blast
  from Cons.IH [OF 1(2)] 1(1) show ?case by (simp add: kv)
qed simp

definition canonical :: "(string \<times> string) list \<Rightarrow> bool" where
  "canonical es \<longleftrightarrow> distinct (map (map c_tolower \<circ> fst) es) \<and> fst ` set es \<subseteq> set interesting"

lemma find_mem: "find P xs = Some x \<Longrightarrow> x \<in> set xs"
  by (induction xs) (auto split: if_splits)

lemma fix_key_interesting: "fix_key key = Some k \<Longrightarrow> k \<in> set interesting"
proof -
  assume *: "fix_key key = Some k"
  have "snd ` set key_map \<subseteq> set interesting" by (simp add: key_map_def interesting_def)
  with * show ?thesis
    by (auto simp: fix_key_def split: option.splits dest!: find_mem)
qed

lemma tag_norm_interesting: "fst ` set (tag_norm kv) \<subseteq> set interesting"
  using fix_key_interesting
  by (auto simp: tag_norm_def split: option.splits) (simp_all add: interesting_def)

lemma tags_insert_canonical: "canonical es \<Longrightarrow> fst kv \<in> set interesting \<Longrightarrow> canonical (tags_insert es kv)"
  by (auto simp: canonical_def tags_insert_def kv_lookup_None strcasecmp_eq_def)

lemma foldl_canonical:
  "canonical es \<Longrightarrow> fst ` set kvs \<subseteq> set interesting \<Longrightarrow> canonical (foldl tags_insert es kvs)"
  by (induction kvs arbitrary: es) (auto simp: tags_insert_canonical)

lemma tags_of_canonical: "canonical (tags_of kvs)"
  unfolding tags_of_def
  by (rule foldl_canonical) (use tag_norm_interesting in \<open>fastforce simp: canonical_def\<close>)+

section \<open>Properties\<close>

text \<open>
  C13. Collecting the tags of a file is safe and canonical: from an empty array, adding any sequence of
  tags and terminating the array never writes or reads outside of the allocation; the array then holds
  exactly one entry for each known tag name given (up to case and the aliases of \<open>key_map\<close>, a songwriter
  counting as lyricist and composer), with the first value given for it, and a lookup returns that value.
\<close>

theorem tags_collected:
  "\<exists>c t. comments_add_all kvs growing_empty = Some c \<and> key_value_terminate c = Some t \<and>
     kv_entries (keyValues t) = Some (tags_of kvs) \<and> canonical (tags_of kvs) \<and>
     (\<forall>k. key_value_get_value (keyValues t) k = Some (kv_lookup (tags_of kvs) k))"
proof -
  from comments_add_all_rep [OF growing_empty_rep] obtain c where
    c: "comments_add_all kvs growing_empty = Some c" "growing_rep c (tags_of kvs)"
    unfolding tags_of_def by blast
  from terminate_rep [OF c(2)] obtain t xs where
    t: "key_value_terminate c = Some t" "keyValues t = map entry (tags_of kvs) @ Null # xs" by blast
  from c(1) t tags_of_canonical show ?thesis
    by (simp add: kv_entries_app key_value_get_value_app)
qed

text \<open>
  Copying a terminated array and growing the copy keeps the entries: after \<^verbatim>\<open>key_value_init\<close>, one
  \<^verbatim>\<open>key_value_add\<close> and \<^verbatim>\<open>key_value_terminate\<close> the array holds the old entries followed by the new one.
\<close>

theorem key_value_copy_grow:
  assumes "kv_entries kv = Some es"
  shows "\<exists>c c' t. key_value_init kv = Some c \<and> key_value_add c k v = Some c' \<and>
    key_value_terminate c' = Some t \<and> kv_entries (keyValues t) = Some (es @ [(k, v)])"
proof -
  from key_value_init_rep [OF assms] obtain c where c: "key_value_init kv = Some c" "growing_rep c es" by blast
  from key_value_add_rep [OF c(2)] obtain c' where
    c': "key_value_add c k v = Some c'" "growing_rep c' (es @ [(k, v)])" by blast
  from terminate_rep [OF c'(2)] obtain t xs where
    "key_value_terminate c' = Some t" "keyValues t = map entry (es @ [(k, v)]) @ Null # xs" by blast
  with c(1) c'(1) kv_entries_app [of "es @ [(k, v)]" xs] show ?thesis by simp
qed

theorem key_value_copy_grow_witness:
  "kv_entries [Entry ''a'' ''1'', Null] = Some [(''a'', ''1'')] \<and>
   (\<exists>c c' t. key_value_init [Entry ''a'' ''1'', Null] = Some c \<and> key_value_add c ''b'' ''2'' = Some c' \<and>
     key_value_terminate c' = Some t \<and> kv_entries (keyValues t) = Some [(''a'', ''1''), (''b'', ''2'')])"
  using key_value_copy_grow [of "[Entry ''a'' ''1'', Null]" "[(''a'', ''1'')]" "''b''" "''2''"] by simp

text \<open>
  A parsed date is either \<open>-1\<close> or a number of the form YYYYMMDD with a four-digit year, a month up to
  12 and a day up to 31, where a missing month or day is 0 and a day comes only with a month; so the
  values sort in the order of the dates.
\<close>

theorem parse_date_form:
  "parse_date s = -1 \<or>
   (\<exists>y m d. parse_date s = y * 10000 + m * 100 + d \<and> 1000 \<le> y \<and> y \<le> 9999 \<and>
      0 \<le> m \<and> m \<le> 12 \<and> 0 \<le> d \<and> d \<le> 31 \<and> (1 \<le> m \<or> d = 0))"
proof -
  let ?y = "c_int (fst (strtol s))" and ?e = "snd (strtol s)"
  let ?m = "c_int (fst (strtol (tl ?e)))" and ?e' = "snd (strtol (tl ?e))"
  let ?d = "c_int (fst (strtol (tl ?e')))"
  let ?form = "\<lambda>r. \<exists>y m d. r = y * 10000 + m * 100 + d \<and> 1000 \<le> y \<and> y \<le> 9999 \<and>
      0 \<le> m \<and> m \<le> 12 \<and> 0 \<le> d \<and> d \<le> 31 \<and> (1 \<le> m \<or> d = 0)"
  have form: "?form (y * 10000 + m * 100 + d)" if "1000 \<le> y" "y \<le> 9999" "0 \<le> m" "m \<le> 12" "0 \<le> d"
    "d \<le> 31" "1 \<le> m \<or> d = 0" for y m d :: int using that by blast
  show ?thesis
  proof (cases "?y < 1000 \<or> ?y > 9999")
    case True
    then show ?thesis by (simp add: parse_date_def case_prod_beta Let_def)
  next
    case False
    show ?thesis
    proof (cases "date_sep ?e \<and> 1 \<le> ?m \<and> ?m \<le> 12")
      case True
      then show ?thesis using False form [of ?y ?m 0] form [of ?y ?m ?d]
        by (auto simp: parse_date_def case_prod_beta Let_def)
    next
      case no: False
      have "parse_date s = ?y * 10000"
        using False no by (auto simp: parse_date_def case_prod_beta Let_def)
      then show ?thesis using False form [of ?y 0 0] by simp
    qed
  qed
qed

end
