(* ===== verification/Compare.thy ===== *)
theory Compare
  imports Prelude
begin

text \<open>
  The interface between code that orders things and the comparison functions it is given: a C
  comparison returns a negative, zero or positive \<open>int\<close>. The locale states the contract of a total
  preorder on the elements for which the comparison is well behaved; the sort of
  \<^verbatim>\<open>src/app/mergesort.c\<close> relies on it and the comparisons of \<^verbatim>\<open>src/app/track_info.c\<close> provide it.
\<close>

locale comparator =
  fixes ok :: "'a \<Rightarrow> bool"
    and cmp :: "'a \<Rightarrow> 'a \<Rightarrow> int"
  assumes anti: "ok a \<Longrightarrow> ok b \<Longrightarrow> sgn (cmp b a) = - sgn (cmp a b)"
    and trans: "ok a \<Longrightarrow> ok b \<Longrightarrow> ok c \<Longrightarrow> cmp a b \<le> 0 \<Longrightarrow> cmp b c \<le> 0 \<Longrightarrow> cmp a c \<le> 0"
begin

lemma self_zero: "ok a \<Longrightarrow> cmp a a = 0"
  using anti [of a a] by (simp add: sgn_if split: if_splits)

lemma swap_sign:
  assumes "ok a" "ok b"
  shows "cmp b a \<le> 0 \<longleftrightarrow> cmp a b \<ge> 0" "cmp b a < 0 \<longleftrightarrow> cmp a b > 0" "cmp b a = 0 \<longleftrightarrow> cmp a b = 0"
  using anti [OF assms] by (auto simp: sgn_if split: if_splits)

lemma total: "ok a \<Longrightarrow> ok b \<Longrightarrow> cmp a b \<le> 0 \<or> cmp b a \<le> 0"
  using swap_sign [of a b] by linarith

lemma strict_left:
  assumes "ok a" "ok b" "ok c" "cmp a b < 0" "cmp b c \<le> 0"
  shows "cmp a c < 0"
proof (rule ccontr)
  assume "\<not> cmp a c < 0"
  then have "cmp c a \<le> 0" using swap_sign [OF assms(1,3)] by simp
  then have "cmp b a \<le> 0" using trans [OF assms(2,3,1)] assms(5) by simp
  then show False using swap_sign [OF assms(1,2)] assms(4) by simp
qed

lemma strict_right:
  assumes "ok a" "ok b" "ok c" "cmp a b \<le> 0" "cmp b c < 0"
  shows "cmp a c < 0"
proof (rule ccontr)
  assume "\<not> cmp a c < 0"
  then have "cmp c a \<le> 0" using swap_sign [OF assms(1,3)] by simp
  then have "cmp c b \<le> 0" using trans [OF assms(3,1,2)] assms(4) by simp
  then show False using swap_sign [OF assms(2,3)] assms(5) by simp
qed

end

text \<open>Ways to build comparisons.\<close>

lemma comparator_neg: "comparator ok f \<Longrightarrow> comparator ok (\<lambda>a b. - f a b)"
proof -
  assume c: "comparator ok f"
  note sw = comparator.swap_sign [OF c] and tr = comparator.trans [OF c] and an = comparator.anti [OF c]
  show ?thesis
  proof
    show "sgn (- f b a) = - sgn (- f a b)" if "ok a" "ok b" for a b using an [OF that] by simp
    show "- f a c \<le> 0" if "ok a" "ok b" "ok c" "- f a b \<le> 0" "- f b c \<le> 0" for a b c
      using tr [of c b a] sw [of a b] sw [of b c] sw [of a c] that by auto
  qed
qed

lemma comparator_then:
  assumes f: "comparator ok f" and g: "comparator ok g"
  shows "comparator ok (\<lambda>a b. if f a b \<noteq> 0 then f a b else g a b)"
proof
  show "sgn (if f b a \<noteq> 0 then f b a else g b a) = - sgn (if f a b \<noteq> 0 then f a b else g a b)"
    if "ok a" "ok b" for a b
    using comparator.anti [OF f that] comparator.anti [OF g that] comparator.swap_sign [OF f that] by auto
  show "(if f a c \<noteq> 0 then f a c else g a c) \<le> 0"
    if ok: "ok a" "ok b" "ok c" and ab: "(if f a b \<noteq> 0 then f a b else g a b) \<le> 0"
      and bc: "(if f b c \<noteq> 0 then f b c else g b c) \<le> 0" for a b c
  proof -
    consider "f a b < 0" "f b c \<le> 0" | "f a b = 0" "f b c < 0" | "f a b = 0" "f b c = 0"
      using ab bc by (auto split: if_splits)
    then show ?thesis
    proof cases
      case 1
      then show ?thesis using comparator.strict_left [OF f ok] by auto
    next
      case 2
      then have "f a c < 0" using comparator.strict_right [OF f ok] by simp
      then show ?thesis by simp
    next
      case 3
      then have "f a c = 0"
        using comparator.trans [OF f ok] comparator.trans [OF f ok(3,2,1)]
          comparator.swap_sign [OF f ok(1,2)] comparator.swap_sign [OF f ok(2,3)] comparator.swap_sign [OF f ok(1,3)]
        by simp
      then show ?thesis using ab bc 3 comparator.trans [OF g ok] by simp
    qed
  qed
qed

lemma comparator_linorder:
  fixes key :: "'a \<Rightarrow> 'b :: linorder"
  assumes "\<And>a b. ok a \<Longrightarrow> ok b \<Longrightarrow> sgn (cmp a b) = (if key a < key b then -1 else if key b < key a then 1 else 0)"
  shows "comparator ok cmp"
proof
  show "sgn (cmp b a) = - sgn (cmp a b)" if "ok a" "ok b" for a b
    using assms [OF that] assms [OF that(2,1)] by auto
  show "cmp a c \<le> 0" if "ok a" "ok b" "ok c" "cmp a b \<le> 0" "cmp b c \<le> 0" for a b c
  proof -
    have "key a \<le> key b" "key b \<le> key c"
      using assms [OF that(1,2)] assms [OF that(2,3)] that(4,5) by (auto simp: sgn_if split: if_splits)
    then have "key a \<le> key c" by (rule order_trans)
    then show ?thesis using assms [OF that(1,3)] by (auto simp: sgn_if split: if_splits)
  qed
qed

lemma comparator_zero: "comparator ok (\<lambda>a b. 0)"
  by unfold_locales simp_all

lemma comparator_mono: "comparator ok cmp \<Longrightarrow> (\<And>a. ok' a \<Longrightarrow> ok a) \<Longrightarrow> comparator ok' cmp"
  unfolding comparator_def by meson

lemma comparator_cong:
  assumes c: "comparator ok g" and eq: "\<And>a b. ok a \<Longrightarrow> ok b \<Longrightarrow> f a b = g a b"
  shows "comparator ok f"
proof
  show "sgn (f b a) = - sgn (f a b)" if "ok a" "ok b" for a b
    using comparator.anti [OF c that] eq [OF that] eq [OF that(2,1)] by simp
  show "f a c \<le> 0" if "ok a" "ok b" "ok c" "f a b \<le> 0" "f b c \<le> 0" for a b c
    using comparator.trans [OF c that(1-3)] eq that by simp
qed

lemma comparator_image:
  assumes c: "comparator ok f" and h: "\<And>a. ok' a \<Longrightarrow> ok (h a)"
  shows "comparator ok' (\<lambda>a b. f (h a) (h b))"
proof
  show "sgn (f (h b) (h a)) = - sgn (f (h a) (h b))" if "ok' a" "ok' b" for a b
    by (rule comparator.anti [OF c]) (use h that in auto)
  show "f (h a) (h c) \<le> 0" if "ok' a" "ok' b" "ok' c" "f (h a) (h b) \<le> 0" "f (h b) (h c) \<le> 0" for a b c
    by (rule comparator.trans [OF c, of _ "h b"]) (use h that in auto)
qed

end
