(* ===== verification/Path.thy ===== *)
theory Path
  imports Prelude
begin

text \<open>
  The path functions of \<^verbatim>\<open>src/app/path.c\<close>. \<open>path_strip\<close> edits the string in place: the model's state is the string and
  the index \<open>i\<close>; every copy loop moves the bytes from \<open>s\<close> on, with the terminator, to \<open>d\<close>. The theory shows that on an
  absolute path it computes the normal form of the path: empty components and \<open>.\<close> are dropped and \<open>..\<close> removes
  the component before it.
\<close>

section \<open>The model\<close>

text \<open>The byte at an index of a terminated string; the code looks at most one past a byte that is not the terminator.\<close>

definition str_at :: "string \<Rightarrow> nat \<Rightarrow> char" where
  "str_at s i = (if i < length s then s ! i else CHR 0x00)"

text \<open>The search backwards for a dot; \<open>n\<close> is one more than the offset of \<open>ext\<close>. The result is an offset.\<close>

primrec extension_loop :: "string \<Rightarrow> nat \<Rightarrow> nat option" where
  "extension_loop filename 0 = None"
| "extension_loop filename (Suc ext) =
     (if filename ! ext = CHR ''/'' then None
      else if filename ! ext = CHR ''.'' then Some (ext + 1)
      else extension_loop filename ext)"

definition get_extension :: "string \<Rightarrow> string option" where
  "get_extension filename = map_option (\<lambda>k. drop k filename) (extension_loop filename (length filename))"

definition path_basename :: "string \<Rightarrow> string" where
  "path_basename path = rev (takeWhile (\<lambda>c. c \<noteq> CHR ''/'') (rev path))"

text \<open>The copy loop: the bytes from \<open>s\<close> on move to \<open>d\<close>.\<close>

definition move_bytes :: "string \<Rightarrow> nat \<Rightarrow> nat \<Rightarrow> string" where
  "move_bytes str d s = take d str @ drop s str"

text \<open>\<open>while (str[s] == c) s++\<close> and \<open>while (str[i] && str[i] != '/') i++\<close>, as the index at the end.\<close>

definition skip_slashes :: "string \<Rightarrow> nat \<Rightarrow> nat" where
  "skip_slashes str s = s + length (takeWhile (\<lambda>c. c = CHR ''/'') (drop s str))"

definition skip_name :: "string \<Rightarrow> nat \<Rightarrow> nat" where
  "skip_name str i = i + length (takeWhile (\<lambda>c. c \<noteq> CHR ''/'') (drop i str))"

text \<open>The loop that looks for the slash before the component to remove, from \<open>d = i - 1\<close>.\<close>

primrec parent_loop :: "string \<Rightarrow> nat \<Rightarrow> nat" where
  "parent_loop str 0 = 0"
| "parent_loop str (Suc d) = (if str_at str d \<noteq> CHR ''/'' then parent_loop str d else d)"

definition next_component :: "string \<Rightarrow> nat \<Rightarrow> nat" where
  "next_component str i = (let i = skip_name str i in if i < length str then i + 1 else i)"

function strip_loop :: "string \<Rightarrow> nat \<Rightarrow> string \<times> nat" where
  "strip_loop str i =
     (if i \<ge> length str then (str, i)
      else if str ! i = CHR ''/'' then strip_loop (move_bytes str i (skip_slashes str (i + 1))) i
      else if i \<noteq> 0 \<and> str ! i = CHR ''.'' then
        if str_at str (i + 1) = CHR ''/'' then strip_loop (move_bytes str i (i + 2)) i
        else if i + 1 = length str then (take i str, i)
        else if str_at str (i + 1) = CHR ''.'' \<and> (str_at str (i + 2) = CHR ''/'' \<or> i + 2 = length str)
        then let s = (if i + 2 < length str then i + 3 else i + 2);
                 d = parent_loop str (i - 1) + 1
          in strip_loop (move_bytes str d s) d
        else strip_loop str (next_component str i)
      else strip_loop str (next_component str i))"
  by pat_completeness auto

lemma skip_bounds: "i \<le> skip_slashes str i" "i \<le> length str \<Longrightarrow> skip_slashes str i \<le> length str"
    "i \<le> length str \<Longrightarrow> i \<le> skip_name str i \<and> skip_name str i \<le> length str"
    "i < length str \<Longrightarrow> i < next_component str i \<and> next_component str i \<le> length str" if True
proof -
  have l: "length (takeWhile P (drop i str)) \<le> length str - i" for P using length_takeWhile_le [of P "drop i str"] by simp
  show "i \<le> skip_slashes str i" "i \<le> length str \<Longrightarrow> skip_slashes str i \<le> length str"
    "i \<le> length str \<Longrightarrow> i \<le> skip_name str i \<and> skip_name str i \<le> length str"
    using l by (simp_all add: skip_slashes_def skip_name_def) (metis le_add_diff_inverse nat_add_left_cancel_le)+
  then show "i < length str \<Longrightarrow> i < next_component str i \<and> next_component str i \<le> length str"
    by (auto simp: next_component_def Let_def)
qed

lemma parent_loop_le: "parent_loop str d \<le> d"
  by (induction d) auto

lemma length_move_bytes: "d \<le> length str \<Longrightarrow> s \<le> length str \<Longrightarrow> length (move_bytes str d s) = d + (length str - s)"
  by (simp add: move_bytes_def)

termination strip_loop
proof (relation "measure (\<lambda>(str, i). length str - i)", goal_cases)
  case (2 str i)
  then have "i + 1 \<le> skip_slashes str (i + 1)" "skip_slashes str (i + 1) \<le> length str"
    using skip_bounds(1,2) [of "i + 1" str] by auto
  then show ?case using 2 by (simp add: length_move_bytes)
next
  case (3 str i)
  then have "i + 2 \<le> length str" by (auto simp: str_at_def split: if_splits)
  then show ?case by (simp add: length_move_bytes)
next
  case (4 str i s d)
  have "d \<le> i" using parent_loop_le [of str "i - 1"] 4 by (cases i) auto
  then show ?case using 4 by (simp add: length_move_bytes split: if_splits)
next
  case (5 str i)
  then show ?case using skip_bounds(4) [of i str] by auto
next
  case (6 str i)
  then show ?case using skip_bounds(4) [of i str] by auto
qed simp

declare strip_loop.simps [simp del]

definition path_strip :: "string \<Rightarrow> string" where
  "path_strip str =
     (let (str, i) = strip_loop str (if str_at str 0 = CHR ''/'' then 1 else 0)
      in if i > 1 \<and> str_at str (i - 1) = CHR ''/'' then take (i - 1) str else str)"

definition path_absolute_cwd :: "string \<Rightarrow> string \<Rightarrow> string" where
  "path_absolute_cwd src cwd = path_strip (if str_at src 0 = CHR ''/'' then src else cwd @ ''/'' @ src)"

text \<open>The result of \<open>getcwd\<close> is an argument.\<close>

definition path_absolute :: "string option \<Rightarrow> string \<Rightarrow> string" where
  "path_absolute getcwd src = path_absolute_cwd src (case getcwd of Some cwd \<Rightarrow> cwd | None \<Rightarrow> ''/'')"

section \<open>Normal forms\<close>

text \<open>The components of a path, and what is left of them after a walk along the path from the components \<open>cs\<close>.\<close>

function components :: "string \<Rightarrow> string list" where
  "components s =
     (let n = takeWhile (\<lambda>c. c \<noteq> CHR ''/'') s; t = dropWhile (\<lambda>c. c \<noteq> CHR ''/'') s
      in if t = [] then [n] else n # components (tl t))"
  by pat_completeness auto
termination
proof (relation "measure length", goal_cases)
  case (2 s n t)
  then have "0 < length t" "length t \<le> length s" using length_dropWhile_le by auto
  then have "length (tl t) < length s" by (cases t) auto
  then show ?case by simp
qed simp

declare components.simps [simp del]

fun walk :: "string list \<Rightarrow> string list \<Rightarrow> string list" where
  "walk cs [] = cs"
| "walk cs (c # r) =
     (if c = [] \<or> c = ''.'' then walk cs r
      else if c = ''..'' then walk (butlast cs) r
      else walk (cs @ [c]) r)"

definition path_of :: "string list \<Rightarrow> string" where
  "path_of cs = (if cs = [] then ''/'' else concat (map (\<lambda>c. CHR ''/'' # c) cs))"

text \<open>The part of the string before \<open>i\<close>: an absolute path of proper names with a slash at its end.\<close>

definition proper :: "string \<Rightarrow> bool" where
  "proper c \<longleftrightarrow> c \<noteq> [] \<and> CHR ''/'' \<notin> set c \<and> c \<noteq> ''.'' \<and> c \<noteq> ''..''"

definition done_part :: "string list \<Rightarrow> string" where
  "done_part cs = CHR ''/'' # concat (map (\<lambda>c. c @ ''/'') cs)"

lemma done_part_snoc: "done_part (cs @ [c]) = done_part cs @ c @ ''/''"
  by (simp add: done_part_def)

lemma done_part_path: "done_part cs = (if cs = [] then ''/'' else path_of cs @ ''/'')"
  by (induction cs rule: rev_induct) (auto simp: done_part_def path_of_def)

lemma components_slash: "components (CHR ''/'' # s) = [] # components s"
  by (subst components.simps) simp

lemma components_name: "CHR ''/'' \<notin> set n \<Longrightarrow> components (n @ CHR ''/'' # s) = n # components s" "CHR ''/'' \<notin> set n \<Longrightarrow> components n = [n]"
proof -
  assume n: "CHR ''/'' \<notin> set n"
  then have "takeWhile (\<lambda>c. c \<noteq> CHR ''/'') n = n" "dropWhile (\<lambda>c. c \<noteq> CHR ''/'') n = []"
    by (auto simp: takeWhile_eq_all_conv)
  then show "components (n @ CHR ''/'' # s) = n # components s" "components n = [n]"
    using n by (subst components.simps; simp add: takeWhile_append dropWhile_append Let_def)+
qed

lemma walk_slashes: "walk cs (components (dropWhile (\<lambda>c. c = CHR ''/'') s)) = walk cs (components s)"
  by (induction s) (auto simp: components_slash)

section \<open>One step of the loop\<close>

lemma str_at_append: "str_at (pre @ r) (length pre + k) = str_at r k"
  by (simp add: str_at_def nth_append)

lemma skip_append: "skip_slashes (pre @ r) (length pre + k) = length pre + skip_slashes r k"
    "skip_name (pre @ r) (length pre + k) = length pre + skip_name r k"
    "move_bytes (pre @ r) (length pre) (length pre + k) = pre @ drop k r"
  by (simp_all add: skip_slashes_def skip_name_def move_bytes_def)

lemma strip_step:
  assumes "pre \<noteq> []"
  shows "strip_loop (pre @ rest) (length pre) =
    (if rest = [] then (pre, length pre)
     else if hd rest = CHR ''/'' then strip_loop (pre @ dropWhile (\<lambda>c. c = CHR ''/'') rest) (length pre)
     else if rest = ''.'' then (pre, length pre)
     else if take 2 rest = ''./'' then strip_loop (pre @ drop 2 rest) (length pre)
     else if rest = ''..'' \<or> take 3 rest = ''../''
     then strip_loop (take (parent_loop (pre @ rest) (length pre - 1) + 1) pre @ drop 3 rest) (parent_loop (pre @ rest) (length pre - 1) + 1)
     else strip_loop (pre @ rest) (next_component (pre @ rest) (length pre)))"
proof (cases rest)
  case Nil
  then show ?thesis by (subst strip_loop.simps) simp
next
  case (Cons a r)
  have a: "(pre @ rest) ! length pre = a" "\<not> length (pre @ rest) \<le> length pre" by (simp_all add: Cons nth_append)
  have at: "str_at (pre @ rest) (length pre + k) = str_at rest k" for k by (rule str_at_append)
  consider (slash) "a = CHR ''/''" | (dot) "a = CHR ''.''" | (name) "a \<noteq> CHR ''/''" "a \<noteq> CHR ''.''" by blast
  then show ?thesis
  proof cases
    case slash
    have "skip_slashes (pre @ rest) (length pre + 1) = length pre + Suc (length (takeWhile (\<lambda>c. c = CHR ''/'') r))"
      unfolding skip_append(1) by (simp add: skip_slashes_def Cons)
    then have "move_bytes (pre @ rest) (length pre) (skip_slashes (pre @ rest) (length pre + 1)) =
        pre @ dropWhile (\<lambda>c. c = CHR ''/'') rest"
      by (simp only: skip_append(3)) (simp add: Cons slash dropWhile_eq_drop)
    then show ?thesis using a slash by (subst strip_loop.simps) (simp add: Cons)
  next
    case name
    then show ?thesis using a by (subst strip_loop.simps) (simp add: Cons)
  next
    case dot
    let ?d = "parent_loop (pre @ rest) (length pre - 1) + 1"
    have d: "?d \<le> length pre" using parent_loop_le [of "pre @ rest" "length pre - 1"] assms by (cases pre) auto
    have two: "move_bytes (pre @ rest) (length pre) (length pre + 2) = pre @ drop 2 rest" by (rule skip_append(3))
    have mv: "move_bytes (pre @ rest) ?d (length pre + k) = take ?d pre @ drop k rest" for k
      using d by (simp add: move_bytes_def)
    consider (one) "r = []" | (last) b where "r = [b]" | (more) b c r' where "r = b # c # r'"
      by (metis list.exhaust)
    then show ?thesis
    proof cases
      case one
      then show ?thesis using a dot at [of 1] assms
        by (subst strip_loop.simps) (simp add: Cons str_at_def)
    next
      case last
      then show ?thesis using a dot at [of 1] at [of 2] assms two mv [of 2]
        by (cases "b = CHR ''/''"; cases "b = CHR ''.''"; subst strip_loop.simps)
          (simp_all add: Cons str_at_def Let_def numeral_3_eq_3)
    next
      case more
      then show ?thesis using a dot at [of 1] at [of 2] assms two mv [of 3]
        by (cases "b = CHR ''/''"; cases "b = CHR ''.''"; cases "c = CHR ''/''"; subst strip_loop.simps)
          (simp_all add: Cons str_at_def Let_def numeral_3_eq_3)
    qed
  qed
qed

text \<open>The search for the parent ends just behind the part before the last component.\<close>

lemma parent_loop_name:
  assumes "CHR ''/'' \<notin> set c"
  shows "parent_loop (p @ CHR ''/'' # c @ r) (Suc (length p + length c)) = length p"
proof -
  have "parent_loop (p @ CHR ''/'' # c @ r) (Suc (length p + k)) = length p" if "k \<le> length c" for k
    using that
  proof (induction k)
    case 0
    show ?case by (simp add: str_at_def)
  next
    case (Suc k)
    then have "c ! k \<noteq> CHR ''/''" using assms by (metis Suc_le_lessD nth_mem)
    then have "str_at (p @ CHR ''/'' # c @ r) (Suc (length p + k)) \<noteq> CHR ''/''"
      using Suc(2) by (simp add: str_at_def nth_append)
    then show ?case using Suc by simp
  qed
  then show ?thesis by simp
qed

lemma parent_of_done:
  assumes "list_all proper cs"
  shows "parent_loop (done_part cs @ r) (length (done_part cs) - 1) + 1 = length (done_part (butlast cs))"
    "take (length (done_part (butlast cs))) (done_part cs) = done_part (butlast cs)"
proof -
  have "parent_loop (done_part cs @ r) (length (done_part cs) - 1) + 1 = length (done_part (butlast cs)) \<and>
      take (length (done_part (butlast cs))) (done_part cs) = done_part (butlast cs)"
  proof (cases cs rule: rev_cases)
    case Nil
    then show ?thesis by (simp add: done_part_def)
  next
    case (snoc cs' c)
    then have c: "CHR ''/'' \<notin> set c" using assms by (simp add: proper_def)
    obtain p where p: "done_part cs' = p @ ''/''" by (metis done_part_path append_Nil)
    have "parent_loop (done_part cs @ r) (Suc (length p + length c)) = length p"
      using parent_loop_name [OF c, of p "CHR ''/'' # r"] by (simp add: snoc done_part_snoc p)
    then show ?thesis by (simp add: snoc done_part_snoc p)
  qed
  then show "parent_loop (done_part cs @ r) (length (done_part cs) - 1) + 1 = length (done_part (butlast cs))"
    "take (length (done_part (butlast cs))) (done_part cs) = done_part (butlast cs)" by simp_all
qed

definition strip_end :: "string \<times> nat \<Rightarrow> string" where
  "strip_end p = (let (str, i) = p in if i > 1 \<and> str_at str (i - 1) = CHR ''/'' then take (i - 1) str else str)"

lemma strip_end_done: "strip_end (done_part cs, length (done_part cs)) = path_of cs"
  by (simp add: strip_end_def done_part_path str_at_def path_of_def)

lemma strip_end_name:
  assumes "proper n"
  shows "strip_end (done_part cs @ n, length (done_part cs @ n)) = path_of (cs @ [n])"
proof -
  have "last (done_part cs @ n) \<noteq> CHR ''/''" using assms by (metis last_appendR last_in_set proper_def)
  then have "str_at (done_part cs @ n) (length (done_part cs @ n) - 1) \<noteq> CHR ''/''"
    using assms last_conv_nth [of "done_part cs @ n"] by (simp add: str_at_def proper_def)
  then show ?thesis unfolding strip_end_def by (simp add: done_part_path path_of_def)
qed

lemma dot_slash: "takeWhile (\<lambda>c. c \<noteq> CHR ''/'') (''./'' @ r) = ''.''"
  by simp

lemma dots_slash: "takeWhile (\<lambda>c. c \<noteq> CHR ''/'') (''../'' @ r) = ''..''"
  by simp

lemma strip_loop_normal:
  assumes "list_all proper cs"
  shows "strip_end (strip_loop (done_part cs @ rest) (length (done_part cs))) = path_of (walk cs (components rest))"
  using assms
proof (induction rest arbitrary: cs rule: measure_induct_rule [of length])
  case (less rest)
  let ?pre = "done_part cs" and ?sl = "\<lambda>c. c = CHR ''/''"
  define n where "n = takeWhile (\<lambda>c. c \<noteq> CHR ''/'') rest"
  define t where "t = dropWhile (\<lambda>c. c \<noteq> CHR ''/'') rest"
  have pre: "?pre \<noteq> []" by (simp add: done_part_def)
  have rest: "rest = n @ t" and n: "CHR ''/'' \<notin> set n" by (auto simp: n_def t_def dest: set_takeWhileD)
  have t: "t = [] \<or> (\<exists>t'. t = CHR ''/'' # t')" using hd_dropWhile [of "\<lambda>c. c \<noteq> CHR ''/''" rest] unfolding t_def [symmetric] by (cases t) auto
  note step = strip_step [OF pre, of rest]
  consider (empty) "rest = []" | (slash) r where "rest = CHR ''/'' # r" | (dot) "n = ''.''" | (dots) "n = ''..''" | (name) "proper n"
    using rest n t by (cases n) (auto simp: proper_def)
  then show ?case
  proof cases
    case empty
    then show ?thesis unfolding step by (simp add: strip_end_done components_name(2))
  next
    case slash
    have "length (dropWhile ?sl r) < length rest" using length_dropWhile_le [of ?sl r] by (simp add: slash le_imp_less_Suc)
    from less(1) [OF this less(2)] show ?thesis by (simp add: step) (simp add: slash components_slash walk_slashes)
  next
    case dot
    show ?thesis
    proof (cases "t = []")
      case True
      then show ?thesis using dot by (simp add: step) (simp add: rest strip_end_done components_name(2))
    next
      case False
      then obtain t' where t': "t = CHR ''/'' # t'" using t by blast
      have "length t' < length rest" by (simp add: rest t')
      from less(1) [OF this less(2)] show ?thesis
        by (simp add: step) (simp add: rest t' dot components_name(1) [of "''.''", simplified])
    qed
  next
    case dots
    have d: "strip_loop (?pre @ rest) (length ?pre) = strip_loop (done_part (butlast cs) @ drop 3 rest) (length (done_part (butlast cs)))"
      using dots t parent_of_done(1) [OF less(2), of rest] parent_of_done(2) [OF less(2)] unfolding step by (auto simp: rest numeral_3_eq_3)
    have p: "list_all proper (butlast cs)" using less(2) by (auto simp: list_all_iff dest: in_set_butlastD)
    have "length (drop 3 rest) < length rest" by (simp add: rest dots)
    from less(1) [OF this p] show ?thesis unfolding d
      using t dots components_name [of "''..''"] by (auto simp: rest components_name(2) [of "[]"])
  next
    case name
    have nc: "next_component (?pre @ rest) (length ?pre) = length ?pre + length n + (if t = [] then 0 else 1)"
    proof -
      have "skip_name (?pre @ rest) (length ?pre) = length ?pre + length n"
        using skip_append(2) [of ?pre rest 0] by (simp add: skip_name_def n_def)
      moreover have "length (?pre @ rest) = length ?pre + length n + length t" by (simp add: rest)
      ultimately show ?thesis by (simp add: next_component_def)
    qed
    have st: "strip_loop (?pre @ rest) (length ?pre) = strip_loop (?pre @ rest) (next_component (?pre @ rest) (length ?pre))"
    proof -
      have "n = ''.''" if "take 2 rest = ''./''"
        using dot_slash [of "drop 2 rest"] unfolding n_def that [symmetric] append_take_drop_id .
      moreover have "n = ''..''" if "take 3 rest = ''../''"
        using dots_slash [of "drop 3 rest"] unfolding n_def that [symmetric] append_take_drop_id .
      moreover have "rest = ''.'' \<Longrightarrow> n = ''.''" "rest = ''..'' \<Longrightarrow> n = ''..''" by (simp_all add: n_def)
      moreover have "rest \<noteq> []" "hd rest \<noteq> CHR ''/''" using name n by (cases n; auto simp: rest proper_def)+
      ultimately show ?thesis using name unfolding step proper_def by (auto simp del: take_eq_Nil)
    qed
    show ?thesis
    proof (cases "t = []")
      case True
      have "strip_loop (?pre @ n) (length (?pre @ n)) = (?pre @ n, length (?pre @ n))"
        by (subst strip_loop.simps) simp
      then show ?thesis unfolding st nc using True strip_end_name [OF name, of cs] name n
        by (simp add: rest components_name(2) proper_def)
    next
      case False
      then obtain t' where t': "t = CHR ''/'' # t'" using t by blast
      have p: "list_all proper (cs @ [n])" using less(2) name by simp
      have "length t' < length rest" by (simp add: rest t')
      from less(1) [OF this p] show ?thesis unfolding st nc
        using name n by (simp add: rest t' done_part_snoc components_name(1) proper_def)
    qed
  qed
qed

lemma path_strip_normal: "path_strip (CHR ''/'' # s) = path_of (walk [] (components s))"
  using strip_loop_normal [of "[]" s] by (simp add: path_strip_def strip_end_def done_part_def str_at_def)

lemma walk_append: "walk cs (a @ b) = walk (walk cs a) b"
  by (induction cs a rule: walk.induct) auto

lemma components_append: "components (a @ CHR ''/'' # b) = components a @ components b"
proof (induction a rule: components.induct)
  case (1 a)
  let ?n = "takeWhile (\<lambda>c. c \<noteq> CHR ''/'') a" and ?t = "dropWhile (\<lambda>c. c \<noteq> CHR ''/'') a"
  have n: "CHR ''/'' \<notin> set ?n" by (auto dest: set_takeWhileD)
  show ?case
  proof (cases "?t = []")
    case True
    then have "CHR ''/'' \<notin> set a" by auto
    then show ?thesis by (simp add: components_name)
  next
    case False
    then obtain t where t: "?t = CHR ''/'' # t" using hd_dropWhile [OF False] by (cases ?t) auto
    have a: "a = ?n @ CHR ''/'' # t" using takeWhile_dropWhile_id [of "\<lambda>c. c \<noteq> CHR ''/''" a] t by simp
    have "components (t @ CHR ''/'' # b) = components t @ components b" using 1 [OF refl refl False] t by simp
    then show ?thesis using components_name(1) [OF n, of t] components_name(1) [OF n, of "t @ CHR ''/'' # b"]
      by (subst (1 2) a) simp
  qed
qed

lemma components_no_slash: "list_all (\<lambda>c. CHR ''/'' \<notin> set c) (components s)"
proof (induction s rule: components.induct)
  case (1 s)
  show ?case using 1 by (subst components.simps) (auto simp: Let_def dest: set_takeWhileD)
qed

lemma walk_proper: "list_all (\<lambda>c. CHR ''/'' \<notin> set c) r \<Longrightarrow> list_all proper cs \<Longrightarrow> list_all proper (walk cs r)"
proof (induction cs r rule: walk.induct)
  case (2 cs c r)
  have "list_all proper (butlast cs)" using 2(5) by (auto simp: list_all_iff dest: in_set_butlastD)
  moreover have "c \<noteq> [] \<Longrightarrow> c \<noteq> ''.'' \<Longrightarrow> c \<noteq> ''..'' \<Longrightarrow> list_all proper (cs @ [c])"
    using 2(4,5) by (simp add: proper_def [of c])
  ultimately show ?case using 2 by simp
qed simp

text \<open>The extension is what follows the last dot, if no slash comes after that dot.\<close>

lemma extension_loop_eq:
  "n \<le> length f \<Longrightarrow> extension_loop f n = Some k \<longleftrightarrow>
     0 < k \<and> k \<le> n \<and> f ! (k - 1) = CHR ''.'' \<and> (\<forall>j. k \<le> j \<and> j < n \<longrightarrow> f ! j \<noteq> CHR ''.'' \<and> f ! j \<noteq> CHR ''/'')"
proof (induction n)
  case (Suc n)
  then show ?case by (cases "k = Suc n") (auto simp: less_Suc_eq le_Suc_eq)
qed auto

section \<open>Properties\<close>

text \<open>
  C19. Making a path absolute yields the normal form: an absolute path is walked from the root and a relative one from
  where the absolute working directory leads; empty components and \<open>.\<close> are skipped, \<open>..\<close> goes up one directory and
  stays at the root there. The result is a slash before every component, or the root, and every component
  is a proper name: not empty, without slash, not \<open>.\<close> or \<open>..\<close>.
\<close>

theorem path_absolute_normal:
  "path_absolute_cwd (CHR ''/'' # src) cwd = path_of (walk [] (components src)) \<and>
   (str_at rel 0 \<noteq> CHR ''/'' \<longrightarrow>
     path_absolute_cwd rel (CHR ''/'' # dir) = path_of (walk (walk [] (components dir)) (components rel))) \<and>
   list_all proper (walk (walk [] (components dir)) (components rel))"
proof -
  have "path_absolute_cwd (CHR ''/'' # src) cwd = path_of (walk [] (components src))"
    by (simp add: path_absolute_cwd_def str_at_def path_strip_normal)
  moreover have "path_absolute_cwd rel (CHR ''/'' # dir) = path_of (walk (walk [] (components dir)) (components rel))"
    if "str_at rel 0 \<noteq> CHR ''/''"
    using that path_strip_normal [of "dir @ CHR ''/'' # rel"] by (simp add: path_absolute_cwd_def components_append walk_append)
  ultimately show ?thesis using walk_proper [OF components_no_slash] by simp
qed

theorem path_absolute_normal_witness:
  "path_absolute_cwd ''../b/./c//'' ''/home/a'' = ''/home/b/c''"
proof -
  have "path_of (walk (walk [] (components ''home/a'')) (components ''../b/./c//'')) = ''/home/b/c''"
    by code_simp
  then show ?thesis using path_absolute_normal [of _ _ "''../b/./c//''" "''home/a''"] by (simp add: str_at_def)
qed

text \<open>
  On a relative path the first component is not removed by a \<open>..\<close> that follows it: its first letter stays and is
  joined with the rest of the path.
\<close>

theorem path_strip_relative: "path_strip ''ab/../c'' = ''ac''"
  by code_simp

end
