(* ===== verification/Track_Info.thy ===== *)
theory Track_Info
  imports Comment Compare Path "HOL-Library.List_Lexorder"
begin

text \<open>
  The track record of \<^verbatim>\<open>src/app/track_info.c\<close>: filling it from the comments, matching it against search
  words, comparing two tracks under a list of sort keys, and the textual form of sort keys. Answers of
  the C library and of the locale are arguments: \<open>strcoll\<close>, the collation key \<open>collkey\<close>
  (\<^verbatim>\<open>u_strcasecoll_key\<close>), \<open>towlower\<close> (\<open>lower\<close>), \<open>strtod\<close> and the conversion of a file name to UTF-8.

  The theory proves that the comparison is a total preorder for every list of sort keys as long as the
  numeric fields fit, that sort keys can be printed and parsed back, and what a search matches.
\<close>

unbundle bit_operations_syntax

section \<open>The record\<close>

record track_info =
  ti_filename :: string
  ti_comments :: "key_values option"
  ti_mtime :: int
  ti_duration :: int
  ti_bitrate :: int
  ti_codec :: "string option"
  ti_codec_profile :: "string option"
  ti_tracknumber :: int
  ti_discnumber :: int
  ti_date :: int
  ti_originaldate :: int
  ti_rg_track_gain :: "real option"
  ti_rg_track_peak :: "real option"
  ti_rg_album_gain :: "real option"
  ti_rg_album_peak :: "real option"
  ti_output_gain :: real
  ti_artist :: "string option"
  ti_album :: "string option"
  ti_title :: "string option"
  ti_genre :: "string option"
  ti_comment :: "string option"
  ti_albumartist :: "string option"
  ti_artistsort :: "string option"
  ti_albumsort :: "string option"
  ti_media :: "string option"
  ti_collkey_artist :: "string option"
  ti_collkey_album :: "string option"
  ti_collkey_title :: "string option"
  ti_collkey_genre :: "string option"
  ti_collkey_comment :: "string option"
  ti_collkey_albumartist :: "string option"
  ti_play_count :: int
  ti_is_va_compilation :: bool
  ti_bpm :: int

text \<open>\<open>track_info_new\<close> leaves most fields uninitialised: \<open>junk\<close> stands for that memory.\<close>

definition track_info_new :: "track_info \<Rightarrow> string \<Rightarrow> track_info" where
  "track_info_new junk filename =
     junk\<lparr>ti_filename := filename, ti_play_count := 0, ti_comments := None, ti_bpm := -1,
          ti_codec := None, ti_codec_profile := None, ti_output_gain := 0\<rparr>"

definition track_info_has_tag :: "track_info \<Rightarrow> bool" where
  "track_info_has_tag ti \<longleftrightarrow> ti_artist ti \<noteq> None \<or> ti_album ti \<noteq> None \<or> ti_title ti \<noteq> None"

record clib =
  cl_strtod :: "string \<Rightarrow> real option \<times> bool"
  cl_lower :: "uchar \<Rightarrow> uchar"
  cl_collkey :: "string \<Rightarrow> string"
  cl_strcoll :: "string \<Rightarrow> string \<Rightarrow> int"

definition track_info_set_comments :: "clib \<Rightarrow> track_info \<Rightarrow> key_values \<Rightarrow> track_info option" where
  "track_info_set_comments cl ti comments =
     do { artist \<leftarrow> key_value_get_value comments ''artist'';
          album \<leftarrow> key_value_get_value comments ''album'';
          title \<leftarrow> key_value_get_value comments ''title'';
          tracknumber \<leftarrow> comments_get_int comments ''tracknumber'';
          discnumber \<leftarrow> comments_get_int comments ''discnumber'';
          date \<leftarrow> comments_get_date comments ''date'';
          originaldate \<leftarrow> comments_get_date comments ''originaldate'';
          genre \<leftarrow> key_value_get_value comments ''genre'';
          comment \<leftarrow> key_value_get_value comments ''comment'';
          albumartist \<leftarrow> comments_get_albumartist comments;
          artistsort \<leftarrow> comments_get_artistsort (cl_lower cl) comments;
          albumsort \<leftarrow> key_value_get_value comments ''albumsort'';
          va \<leftarrow> track_is_va_compilation comments;
          media \<leftarrow> key_value_get_value comments ''media'';
          bpm \<leftarrow> comments_get_int comments ''bpm'';
          let ti = ti\<lparr>ti_comments := Some comments, ti_artist := artist, ti_album := album, ti_title := title,
            ti_tracknumber := tracknumber, ti_discnumber := discnumber, ti_date := date,
            ti_originaldate := originaldate, ti_genre := genre, ti_comment := comment,
            ti_albumartist := albumartist, ti_artistsort := artistsort, ti_albumsort := albumsort,
            ti_is_va_compilation := va, ti_media := media,
            ti_bpm := (if ti_bpm ti = 0 \<or> ti_bpm ti = -1 then bpm else ti_bpm ti)\<rparr>;
          let ti = (if ti_artist ti = None \<and> ti_albumartist ti \<noteq> None
                    then ti\<lparr>ti_artist := ti_albumartist ti\<rparr> else ti);
          let ti = (if track_info_has_tag ti \<and> ti_title ti = None
                    then ti\<lparr>ti_title := Some (path_basename (ti_filename ti))\<rparr> else ti);
          tg \<leftarrow> comments_get_double (cl_strtod cl) comments ''replaygain_track_gain'';
          tp \<leftarrow> comments_get_double (cl_strtod cl) comments ''replaygain_track_peak'';
          ag \<leftarrow> comments_get_double (cl_strtod cl) comments ''replaygain_album_gain'';
          ap \<leftarrow> comments_get_double (cl_strtod cl) comments ''replaygain_album_peak'';
          r128_track_gain \<leftarrow> comments_get_signed_int comments ''r128_track_gain'';
          r128_album_gain \<leftarrow> comments_get_signed_int comments ''r128_album_gain'';
          output_gain \<leftarrow> comments_get_signed_int comments ''output_gain'';
          let ti = ti\<lparr>
            ti_rg_track_gain := (case r128_track_gain of None \<Rightarrow> tg | Some g \<Rightarrow> Some (of_int g / 256 + 5)),
            ti_rg_track_peak := tp,
            ti_rg_album_gain := (case r128_album_gain of None \<Rightarrow> ag | Some g \<Rightarrow> Some (of_int g / 256 + 5)),
            ti_rg_album_peak := ap,
            ti_output_gain := (case output_gain of None \<Rightarrow> ti_output_gain ti | Some g \<Rightarrow> of_int g / 256)\<rparr>;
          Some (ti\<lparr>ti_collkey_artist := map_option (cl_collkey cl) (ti_artist ti),
            ti_collkey_album := map_option (cl_collkey cl) (ti_album ti),
            ti_collkey_title := map_option (cl_collkey cl) (ti_title ti),
            ti_collkey_genre := map_option (cl_collkey cl) (ti_genre ti),
            ti_collkey_comment := map_option (cl_collkey cl) (ti_comment ti),
            ti_collkey_albumartist := map_option (cl_collkey cl) (ti_albumartist ti)\<rparr>) }"

section \<open>Searching\<close>

definition TI_MATCH_ARTIST :: u32 where "TI_MATCH_ARTIST = 1"
definition TI_MATCH_ALBUM :: u32 where "TI_MATCH_ALBUM = 2"
definition TI_MATCH_TITLE :: u32 where "TI_MATCH_TITLE = 4"
definition TI_MATCH_ALBUMARTIST :: u32 where "TI_MATCH_ALBUMARTIST = 8"

text \<open>\<open>(flags & F) && s && u_strcasestr_base(s, word)\<close>; the disjunction stops at the first hit.\<close>

definition match_field ::
  "clib \<Rightarrow> (uchar \<times> uchar) list \<Rightarrow> u32 \<Rightarrow> u32 \<Rightarrow> string option \<Rightarrow> string \<Rightarrow> bool option" where
  "match_field cl tab flags f s word =
     (if flags AND f \<noteq> 0
      then (case s of None \<Rightarrow> Some False
            | Some s \<Rightarrow> map_option (\<lambda>r. r \<noteq> None) (u_strcasestr_base (cl_lower cl) tab s word))
      else Some False)"

definition match_word ::
  "clib \<Rightarrow> (uchar \<times> uchar) list \<Rightarrow> track_info \<Rightarrow> string \<Rightarrow> u32 \<Rightarrow> bool option" where
  "match_word cl tab ti word flags =
     do { m \<leftarrow> match_field cl tab flags TI_MATCH_ARTIST (ti_artist ti) word;
          if m then Some True else do {
          m \<leftarrow> match_field cl tab flags TI_MATCH_ALBUM (ti_album ti) word;
          if m then Some True else do {
          m \<leftarrow> match_field cl tab flags TI_MATCH_TITLE (ti_title ti) word;
          if m then Some True else
          match_field cl tab flags TI_MATCH_ALBUMARTIST (ti_albumartist ti) word } } }"

definition flags_set :: "track_info \<Rightarrow> u32 \<Rightarrow> bool" where
  "flags_set ti flags \<longleftrightarrow>
     (flags AND TI_MATCH_ARTIST \<noteq> 0 \<and> ti_artist ti \<noteq> None) \<or>
     (flags AND TI_MATCH_ALBUM \<noteq> 0 \<and> ti_album ti \<noteq> None) \<or>
     (flags AND TI_MATCH_TITLE \<noteq> 0 \<and> ti_title ti \<noteq> None) \<or>
     (flags AND TI_MATCH_ALBUMARTIST \<noteq> 0 \<and> ti_albumartist ti \<noteq> None)"

text \<open>\<open>get_words\<close>: the words between spaces.\<close>

function words_loop :: "string \<Rightarrow> string list" where
  "words_loop text =
     (if text = [] then []
      else takeWhile (\<lambda>c. c \<noteq> CHR '' '') text #
           words_loop (dropWhile (\<lambda>c. c = CHR '' '') (dropWhile (\<lambda>c. c \<noteq> CHR '' '') text)))"
  by auto
termination
proof (relation "measure length", goal_cases)
  case (2 s)
  then obtain c cs where t: "s = c # cs" by (cases s) auto
  have "length (dropWhile P (dropWhile Q cs)) \<le> length cs" for P Q :: "char \<Rightarrow> bool"
    by (meson length_dropWhile_le le_trans)
  moreover have "length (dropWhile P cs) \<le> length cs" for P :: "char \<Rightarrow> bool"
    by (rule length_dropWhile_le)
  ultimately show ?case using t by (auto simp: less_Suc_eq_le)
qed simp

definition get_words :: "string \<Rightarrow> string list" where
  "get_words text = words_loop (dropWhile (\<lambda>c. c = CHR '' '') text)"

text \<open>Prefix tests of \<^verbatim>\<open>common/utils.h\<close>.\<close>

definition is_url :: "string \<Rightarrow> bool" where
  "is_url name \<longleftrightarrow> take 7 name = ''http://'' \<or> take 7 name = ''cdda://'' \<or> take 6 name = ''cue://''"

text \<open>Whether one word matches; \<open>enc\<close> converts a file name when the terminal is not UTF-8.\<close>

definition word_matches ::
  "clib \<Rightarrow> (uchar \<times> uchar) list \<Rightarrow> (string \<Rightarrow> string) \<Rightarrow> track_info \<Rightarrow> u32 \<Rightarrow> u32 \<Rightarrow> string \<Rightarrow> bool option" where
  "word_matches cl tab enc ti flags exclude_flags word =
     do { m \<leftarrow> (if flags_set ti flags then match_word cl tab ti word flags else Some False);
          matched \<leftarrow> (if m then Some True
             else let filename = (if is_url (ti_filename ti) then ti_filename ti else path_basename (ti_filename ti))
                  in map_option (\<lambda>r. r \<noteq> None) (u_strcasestr_base (cl_lower cl) tab (enc filename) word));
          x \<leftarrow> (if flags_set ti exclude_flags then match_word cl tab ti word exclude_flags else Some False);
          Some (if x then False else matched) }"

primrec matches_loop :: "(string \<Rightarrow> bool option) \<Rightarrow> bool \<Rightarrow> string list \<Rightarrow> bool \<Rightarrow> bool option" where
  "matches_loop m all [] matched = Some matched"
| "matches_loop m all (w # ws) matched =
     do { r \<leftarrow> m w; if (if all then \<not> r else r) then Some r else matches_loop m all ws r }"

definition track_info_matches_full ::
  "clib \<Rightarrow> (uchar \<times> uchar) list \<Rightarrow> (string \<Rightarrow> string) \<Rightarrow> track_info \<Rightarrow> string \<Rightarrow> u32 \<Rightarrow> u32 \<Rightarrow> bool \<Rightarrow> bool option" where
  "track_info_matches_full cl tab enc ti text flags exclude_flags match_all_words =
     matches_loop (word_matches cl tab enc ti flags exclude_flags) match_all_words (get_words text) False"

definition track_info_matches ::
  "clib \<Rightarrow> (uchar \<times> uchar) list \<Rightarrow> (string \<Rightarrow> string) \<Rightarrow> track_info \<Rightarrow> string \<Rightarrow> u32 \<Rightarrow> bool option" where
  "track_info_matches cl tab enc ti text flags = track_info_matches_full cl tab enc ti text flags 0 True"

section \<open>Comparing\<close>

definition strcmp :: "string \<Rightarrow> string \<Rightarrow> int" where
  "strcmp a b = (if a < b then -1 else if b < a then 1 else 0)"

definition strcmp0 :: "string option \<Rightarrow> string option \<Rightarrow> int" where
  "strcmp0 a b =
     (case a of None \<Rightarrow> (if b = None then 0 else -1)
      | Some x \<Rightarrow> (case b of None \<Rightarrow> 1 | Some y \<Rightarrow> strcmp x y))"

text \<open>NaN (\<open>None\<close>) comes first.\<close>

definition doublecmp0 :: "real option \<Rightarrow> real option \<Rightarrow> int" where
  "doublecmp0 a b =
     (let r = (if b = None then 1 else 0) - (if a = None then 1 else 0)
      in if r \<noteq> 0 then r
         else case (a, b) of
                (Some a, Some b) \<Rightarrow> (if a - b > 0 then 1 else 0) - (if a - b < 0 then 1 else 0)
              | _ \<Rightarrow> 0)"

datatype sort_field =
  SORT_ARTIST | SORT_ALBUM | SORT_TITLE | SORT_PLAY_COUNT | SORT_TRACKNUMBER | SORT_DISCNUMBER | SORT_DATE
  | SORT_ORIGINALDATE | SORT_GENRE | SORT_COMMENT | SORT_ALBUMARTIST | SORT_FILENAME | SORT_FILEMTIME
  | SORT_RG_TRACK_GAIN | SORT_RG_TRACK_PEAK | SORT_RG_ALBUM_GAIN | SORT_RG_ALBUM_PEAK | SORT_BITRATE
  | SORT_CODEC | SORT_CODEC_PROFILE | SORT_MEDIA | SORT_BPM

text \<open>
  A \<open>sort_key_t\<close> is a field, with \<open>True\<close> for the reversed order (an offset of at least
  \<open>REV_SORT__START\<close>). A difference is computed, or stored, as an \<open>int\<close>.
\<close>

type_synonym sort_key = "bool \<times> sort_field"

fun field_cmp :: "clib \<Rightarrow> sort_field \<Rightarrow> track_info \<Rightarrow> track_info \<Rightarrow> int" where
  "field_cmp cl SORT_TRACKNUMBER a b = c_int (ti_tracknumber a - ti_tracknumber b)"
| "field_cmp cl SORT_DISCNUMBER a b = c_int (ti_discnumber a - ti_discnumber b)"
| "field_cmp cl SORT_DATE a b = c_int (ti_date a - ti_date b)"
| "field_cmp cl SORT_ORIGINALDATE a b = c_int (ti_originaldate a - ti_originaldate b)"
| "field_cmp cl SORT_PLAY_COUNT a b = c_int (c_int (ti_play_count a) - c_int (ti_play_count b))"
| "field_cmp cl SORT_BPM a b = c_int (ti_bpm a - ti_bpm b)"
| "field_cmp cl SORT_FILEMTIME a b = c_int (ti_mtime a - ti_mtime b)"
| "field_cmp cl SORT_FILENAME a b = cl_strcoll cl (ti_filename a) (ti_filename b)"
| "field_cmp cl SORT_RG_TRACK_GAIN a b = doublecmp0 (ti_rg_track_gain a) (ti_rg_track_gain b)"
| "field_cmp cl SORT_RG_TRACK_PEAK a b = doublecmp0 (ti_rg_track_peak a) (ti_rg_track_peak b)"
| "field_cmp cl SORT_RG_ALBUM_GAIN a b = doublecmp0 (ti_rg_album_gain a) (ti_rg_album_gain b)"
| "field_cmp cl SORT_RG_ALBUM_PEAK a b = doublecmp0 (ti_rg_album_peak a) (ti_rg_album_peak b)"
| "field_cmp cl SORT_BITRATE a b = c_int (ti_bitrate a - ti_bitrate b)"
| "field_cmp cl SORT_ARTIST a b = strcmp0 (ti_collkey_artist a) (ti_collkey_artist b)"
| "field_cmp cl SORT_ALBUM a b = strcmp0 (ti_collkey_album a) (ti_collkey_album b)"
| "field_cmp cl SORT_TITLE a b = strcmp0 (ti_collkey_title a) (ti_collkey_title b)"
| "field_cmp cl SORT_GENRE a b = strcmp0 (ti_collkey_genre a) (ti_collkey_genre b)"
| "field_cmp cl SORT_COMMENT a b = strcmp0 (ti_collkey_comment a) (ti_collkey_comment b)"
| "field_cmp cl SORT_ALBUMARTIST a b = strcmp0 (ti_collkey_albumartist a) (ti_collkey_albumartist b)"
| "field_cmp cl SORT_CODEC a b = strcmp0 (ti_codec a) (ti_codec b)"
| "field_cmp cl SORT_CODEC_PROFILE a b = strcmp0 (ti_codec_profile a) (ti_codec_profile b)"
| "field_cmp cl SORT_MEDIA a b = strcmp0 (ti_media a) (ti_media b)"

primrec track_info_cmp :: "clib \<Rightarrow> sort_key list \<Rightarrow> track_info \<Rightarrow> track_info \<Rightarrow> int" where
  "track_info_cmp cl [] a b = 0"
| "track_info_cmp cl (k # ks) a b =
     (let res = field_cmp cl (snd k) a b
      in if res \<noteq> 0 then (if fst k then c_int (- res) else res) else track_info_cmp cl ks a b)"

section \<open>Sort keys as text\<close>

definition sort_names :: "(string \<times> sort_field) list" where
  "sort_names =
     [(''artist'', SORT_ARTIST), (''album'', SORT_ALBUM), (''title'', SORT_TITLE),
      (''play_count'', SORT_PLAY_COUNT), (''tracknumber'', SORT_TRACKNUMBER), (''discnumber'', SORT_DISCNUMBER),
      (''date'', SORT_DATE), (''originaldate'', SORT_ORIGINALDATE), (''genre'', SORT_GENRE),
      (''comment'', SORT_COMMENT), (''albumartist'', SORT_ALBUMARTIST), (''filename'', SORT_FILENAME),
      (''filemtime'', SORT_FILEMTIME), (''rg_track_gain'', SORT_RG_TRACK_GAIN),
      (''rg_track_peak'', SORT_RG_TRACK_PEAK), (''rg_album_gain'', SORT_RG_ALBUM_GAIN),
      (''rg_album_peak'', SORT_RG_ALBUM_PEAK), (''bitrate'', SORT_BITRATE), (''codec'', SORT_CODEC),
      (''codec_profile'', SORT_CODEC_PROFILE), (''media'', SORT_MEDIA), (''bpm'', SORT_BPM)]"

definition sort_key_map :: "(string \<times> sort_key) list" where
  "sort_key_map = map (\<lambda>(s, k). (s, (False, k))) sort_names @ map (\<lambda>(s, k). (CHR ''-'' # s, (True, k))) sort_names"

text \<open>\<open>None\<close> is the error return for an unknown key.\<close>

function parse_sort_keys :: "string \<Rightarrow> sort_key list option" where
  "parse_sort_keys val =
     (let s = dropWhile (\<lambda>c. c = CHR '' '') val;
          w = takeWhile (\<lambda>c. c \<noteq> CHR '' '') s;
          e = dropWhile (\<lambda>c. c \<noteq> CHR '' '') s
      in if w = [] then Some []
         else do { k \<leftarrow> map_of sort_key_map (take 31 w);
                   ks \<leftarrow> parse_sort_keys e;
                   Some (k # ks) })"
  by auto
termination
proof (relation "measure length", goal_cases)
  case (2 val s w e k)
  then have "length e < length s"
    by (metis append_Nil length_append length_greater_0_conv less_add_same_cancel2 takeWhile_dropWhile_id)
  also have "length s \<le> length val" using 2 by (simp add: length_dropWhile_le)
  finally show ?case by simp
qed simp

definition sort_key_to_str :: "sort_key \<Rightarrow> string option" where
  "sort_key_to_str key = map_option fst (find (\<lambda>(s, k). k = key) sort_key_map)"

text \<open>The loop of \<open>sort_keys_to_str\<close>: what is stored behind position \<open>pos\<close>, each key followed by a space.\<close>

primrec keys_loop :: "sort_key list \<Rightarrow> int \<Rightarrow> nat \<Rightarrow> string option" where
  "keys_loop [] bufsize pos = Some []"
| "keys_loop (k # ks) bufsize pos =
     do { key \<leftarrow> sort_key_to_str k;
          if bufsize - int pos - int (length key) - 2 < 0 then Some []
          else do { r \<leftarrow> keys_loop ks bufsize (pos + length key + 1);
                    Some (key @ '' '' @ r) } }"

definition sort_keys_to_str :: "sort_key list \<Rightarrow> int \<Rightarrow> string option" where
  "sort_keys_to_str keys bufsize = map_option (\<lambda>s. if s = [] then [] else butlast s) (keys_loop keys bufsize 0)"

declare words_loop.simps [simp del] parse_sort_keys.simps [simp del]

section \<open>The comparison is a total preorder\<close>

definition num_ok :: "int \<Rightarrow> bool" where
  "num_ok x \<longleftrightarrow> -1 \<le> x \<and> x < 2 ^ 31 - 1"

definition track_ok :: "track_info \<Rightarrow> bool" where
  "track_ok ti \<longleftrightarrow> num_ok (ti_tracknumber ti) \<and> num_ok (ti_discnumber ti) \<and> num_ok (ti_date ti) \<and>
     num_ok (ti_originaldate ti) \<and> num_ok (ti_play_count ti) \<and> num_ok (ti_bpm ti) \<and> num_ok (ti_mtime ti) \<and>
     num_ok (ti_bitrate ti)"

text \<open>What the C library promises of \<open>strcoll\<close>.\<close>

definition strcoll_ok :: "(string \<Rightarrow> string \<Rightarrow> int) \<Rightarrow> bool" where
  "strcoll_ok f \<longleftrightarrow> comparator (\<lambda>_. True) f \<and> (\<forall>a b. - (2 ^ 31) < f a b \<and> f a b < 2 ^ 31)"

lemma num_cmp:
  assumes "\<And>a. track_ok a \<Longrightarrow> num_ok (f a)"
  shows "comparator track_ok (\<lambda>a b. c_int (f a - f b))"
proof (rule comparator_linorder [where key = f])
  show "sgn (c_int (f a - f b)) = (if f a < f b then - 1 else if f b < f a then 1 else 0)"
    if "track_ok a" "track_ok b" for a b
    using assms [OF that(1)] assms [OF that(2)] by (simp add: num_ok_def)
qed

lemma num_diff_range: "num_ok x \<Longrightarrow> num_ok y \<Longrightarrow> - (2 ^ 31) < c_int (x - y) \<and> c_int (x - y) < 2 ^ 31"
  by (simp add: num_ok_def)

lemma option_cmp:
  fixes f :: "'a \<Rightarrow> 'b :: linorder option"
  assumes "\<And>a b. cmp a b = (case f a of None \<Rightarrow> (if f b = None then 0 else -1)
     | Some x \<Rightarrow> (case f b of None \<Rightarrow> 1 | Some y \<Rightarrow> if x < y then -1 else if y < x then 1 else 0))"
  shows "comparator ok cmp"
proof
  show "sgn (cmp b a) = - sgn (cmp a b)" for a b
    by (cases "f a"; cases "f b") (auto simp: assms)
  show "cmp a c \<le> 0" if "cmp a b \<le> 0" "cmp b c \<le> 0" for a b c
    using that by (cases "f a"; cases "f b"; cases "f c") (auto simp: assms split: if_splits)
qed

lemma strcmp0_cmp: "comparator ok (\<lambda>a b. strcmp0 (f a) (f b))"
  by (rule option_cmp [where f = f]) (auto simp: strcmp0_def strcmp_def split: option.splits)

lemma doublecmp0_cmp: "comparator ok (\<lambda>a b. doublecmp0 (f a) (f b))"
  by (rule option_cmp [where f = f]) (auto simp: doublecmp0_def Let_def split: option.splits)

lemma field_cmp_comparator:
  assumes "strcoll_ok (cl_strcoll cl)"
  shows "comparator track_ok (field_cmp cl k)"
proof -
  have num: "comparator track_ok (field_cmp cl k)"
    if "\<And>a b. track_ok a \<Longrightarrow> track_ok b \<Longrightarrow> field_cmp cl k a b = c_int (f a - f b)"
      "\<And>a. track_ok a \<Longrightarrow> num_ok (f a)" for f
    using comparator_cong [OF num_cmp [of f]] that by blast
  have str: "comparator track_ok (field_cmp cl k)"
    if "\<And>a b. field_cmp cl k a b = strcmp0 (f a) (f b)" for f
    using comparator_cong [OF strcmp0_cmp [of _ f]] that by blast
  have dbl: "comparator track_ok (field_cmp cl k)"
    if "\<And>a b. field_cmp cl k a b = doublecmp0 (f a) (f b)" for f
    using comparator_cong [OF doublecmp0_cmp [of _ f]] that by blast
  have coll: "comparator track_ok (field_cmp cl k)"
    if "\<And>a b. field_cmp cl k a b = cl_strcoll cl (ti_filename a) (ti_filename b)"
    using comparator_cong [OF comparator_image [of "\<lambda>_. True" "cl_strcoll cl" track_ok ti_filename]] that assms
    by (auto simp: strcoll_ok_def)
  show ?thesis
  proof (cases k)
    case SORT_FILENAME
    then show ?thesis by (intro coll) simp
  next
    case SORT_TRACKNUMBER
    then show ?thesis by (intro num [of ti_tracknumber]) (simp_all add: track_ok_def num_ok_def)
  next
    case SORT_DISCNUMBER
    then show ?thesis by (intro num [of ti_discnumber]) (simp_all add: track_ok_def num_ok_def)
  next
    case SORT_DATE
    then show ?thesis by (intro num [of ti_date]) (simp_all add: track_ok_def num_ok_def)
  next
    case SORT_ORIGINALDATE
    then show ?thesis by (intro num [of ti_originaldate]) (simp_all add: track_ok_def num_ok_def)
  next
    case SORT_PLAY_COUNT
    then show ?thesis by (intro num [of ti_play_count]) (simp_all add: track_ok_def num_ok_def)
  next
    case SORT_BPM
    then show ?thesis by (intro num [of ti_bpm]) (simp_all add: track_ok_def num_ok_def)
  next
    case SORT_BITRATE
    then show ?thesis by (intro num [of ti_bitrate]) (simp_all add: track_ok_def num_ok_def)
  next
    case SORT_FILEMTIME
    then show ?thesis by (intro num [of ti_mtime]) (simp_all add: track_ok_def num_ok_def)
  next
    case SORT_RG_TRACK_GAIN
    then show ?thesis by (intro dbl [of ti_rg_track_gain]) simp
  next
    case SORT_RG_TRACK_PEAK
    then show ?thesis by (intro dbl [of ti_rg_track_peak]) simp
  next
    case SORT_RG_ALBUM_GAIN
    then show ?thesis by (intro dbl [of ti_rg_album_gain]) simp
  next
    case SORT_RG_ALBUM_PEAK
    then show ?thesis by (intro dbl [of ti_rg_album_peak]) simp
  next
    case SORT_ARTIST
    then show ?thesis by (intro str [of ti_collkey_artist]) simp
  next
    case SORT_ALBUM
    then show ?thesis by (intro str [of ti_collkey_album]) simp
  next
    case SORT_TITLE
    then show ?thesis by (intro str [of ti_collkey_title]) simp
  next
    case SORT_GENRE
    then show ?thesis by (intro str [of ti_collkey_genre]) simp
  next
    case SORT_COMMENT
    then show ?thesis by (intro str [of ti_collkey_comment]) simp
  next
    case SORT_ALBUMARTIST
    then show ?thesis by (intro str [of ti_collkey_albumartist]) simp
  next
    case SORT_CODEC
    then show ?thesis by (intro str [of ti_codec]) simp
  next
    case SORT_CODEC_PROFILE
    then show ?thesis by (intro str [of ti_codec_profile]) simp
  next
    case SORT_MEDIA
    then show ?thesis by (intro str [of ti_media]) simp
  qed
qed

lemma field_cmp_range:
  assumes "strcoll_ok (cl_strcoll cl)" "track_ok a" "track_ok b"
  shows "- (2 ^ 31) < field_cmp cl k a b \<and> field_cmp cl k a b < 2 ^ 31"
proof -
  have s: "- (2 ^ 31) < strcmp0 x y \<and> strcmp0 x y < 2 ^ 31" for x y
    by (auto simp: strcmp0_def strcmp_def split: option.splits)
  have d: "- (2 ^ 31) < doublecmp0 x y \<and> doublecmp0 x y < 2 ^ 31" for x y
    by (auto simp: doublecmp0_def Let_def split: option.splits)
  show ?thesis
    using assms(2,3) assms(1) [unfolded strcoll_ok_def] s d by (cases k) (simp_all add: track_ok_def num_ok_def)
qed

lemma track_info_cmp_comparator:
  assumes "strcoll_ok (cl_strcoll cl)"
  shows "comparator track_ok (track_info_cmp cl ks)"
proof (induction ks)
  case Nil
  show ?case by (rule comparator_cong [OF comparator_zero]) simp
next
  case (Cons k ks)
  let ?f = "field_cmp cl (snd k)"
  let ?g = "\<lambda>a b. if fst k then - ?f a b else ?f a b"
  have "comparator track_ok ?g"
    using field_cmp_comparator [OF assms, of "snd k"] comparator_neg by (cases "fst k") auto
  then have "comparator track_ok (\<lambda>a b. if ?g a b \<noteq> 0 then ?g a b else track_info_cmp cl ks a b)"
    using Cons comparator_then by blast
  then show ?case
  proof (rule comparator_cong)
    show "track_info_cmp cl (k # ks) a b = (if ?g a b \<noteq> 0 then ?g a b else track_info_cmp cl ks a b)"
      if "track_ok a" "track_ok b" for a b
      using field_cmp_range [OF assms that, of "snd k"] by (simp add: Let_def)
  qed
qed

lemma strcoll_ok_strcmp: "strcoll_ok strcmp"
proof -
  have "comparator (\<lambda>_. True) strcmp"
    by (rule comparator_linorder [where key = "\<lambda>s. s"]) (simp add: strcmp_def)
  then show ?thesis by (simp add: strcoll_ok_def strcmp_def)
qed

text \<open>In the C locale \<open>strcoll\<close> is \<open>strcmp\<close>, and the contract holds without further assumption.\<close>

interpretation tracks: comparator track_ok "track_info_cmp (cl\<lparr>cl_strcoll := strcmp\<rparr>) ks" for cl ks
  by (rule track_info_cmp_comparator) (simp add: strcoll_ok_strcmp)

section \<open>Sort keys are parsed back\<close>

lemma sort_key_map_ok:
  "list_all (\<lambda>(s, k). sort_key_to_str k = Some s \<and> s \<noteq> [] \<and> CHR '' '' \<notin> set s \<and> length s \<le> 31 \<and>
     map_of sort_key_map s = Some k) sort_key_map"
  by code_simp

lemma sort_names_complete: "f \<in> snd ` set sort_names"
  by (cases f) (simp_all add: sort_names_def)

lemma key_str:
  "\<exists>s. sort_key_to_str k = Some s \<and> s \<noteq> [] \<and> CHR '' '' \<notin> set s \<and> length s \<le> 31 \<and> map_of sort_key_map s = Some k"
proof -
  obtain s where "(s, snd k) \<in> set sort_names" using sort_names_complete [of "snd k"] by auto
  then have "(if fst k then CHR ''-'' # s else s, k) \<in> set sort_key_map"
    by (cases k) (auto simp: sort_key_map_def)
  then show ?thesis using sort_key_map_ok unfolding list_all_iff by blast
qed

definition key_text :: "sort_key \<Rightarrow> string" where
  "key_text k = the (sort_key_to_str k)"

lemma key_text:
  "sort_key_to_str k = Some (key_text k)" "key_text k \<noteq> []" "CHR '' '' \<notin> set (key_text k)"
  "length (key_text k) \<le> 31" "map_of sort_key_map (key_text k) = Some k"
  using key_str [of k] by (auto simp: key_text_def)

lemma parse_space: "parse_sort_keys (CHR '' '' # s) = parse_sort_keys s"
  by (subst (1 2) parse_sort_keys.simps) simp

lemma parse_key:
  "parse_sort_keys (key_text k @ CHR '' '' # s) = map_option (Cons k) (parse_sort_keys s)"
  "parse_sort_keys (key_text k) = Some [k]"
proof -
  obtain c cs where c: "key_text k = c # cs" "c \<noteq> CHR '' ''"
    using key_text(2,3) [of k] by (cases "key_text k") auto
  have d: "dropWhile (\<lambda>c. c = CHR '' '') (key_text k @ x) = key_text k @ x" for x using c by simp
  have w: "takeWhile (\<lambda>c. c \<noteq> CHR '' '') (key_text k @ CHR '' '' # s) = key_text k"
    "dropWhile (\<lambda>c. c \<noteq> CHR '' '') (key_text k @ CHR '' '' # s) = CHR '' '' # s"
    "takeWhile (\<lambda>c. c \<noteq> CHR '' '') (key_text k) = key_text k"
    "dropWhile (\<lambda>c. c \<noteq> CHR '' '') (key_text k) = []"
    using key_text(3) [of k] by (auto simp: takeWhile_append dropWhile_append takeWhile_eq_all_conv dropWhile_eq_Nil_conv)
  show "parse_sort_keys (key_text k @ CHR '' '' # s) = map_option (Cons k) (parse_sort_keys s)"
    using d [of "CHR '' '' # s"] w(1,2) key_text(2,4,5) [of k]
    by (subst parse_sort_keys.simps) (simp add: Let_def parse_space map_option_case split: option.splits)
  have "parse_sort_keys [] = Some []" by (simp add: parse_sort_keys.simps)
  then show "parse_sort_keys (key_text k) = Some [k]"
    using d [of "[]"] key_text(2,4,5) [of k]
    by (subst parse_sort_keys.simps) (simp add: Let_def w(3,4))
qed

definition keys_size :: "sort_key list \<Rightarrow> nat" where
  "keys_size ks = sum_list (map (\<lambda>k. length (key_text k) + 1) ks)"

text \<open>The loop stores the longest prefix of the keys that fits.\<close>

lemma keys_loop_prefix:
  "int pos < bufsize \<Longrightarrow>
   \<exists>n\<le>length ks. keys_loop ks bufsize pos = Some (concat (map (\<lambda>k. key_text k @ '' '') (take n ks))) \<and>
     int (pos + keys_size (take n ks)) < bufsize \<and>
     (n < length ks \<longrightarrow> bufsize \<le> int (pos + keys_size (take (Suc n) ks)))"
proof (induction ks arbitrary: pos)
  case Nil
  then show ?case by (simp add: keys_size_def)
next
  case (Cons k ks)
  let ?pos = "pos + length (key_text k) + 1"
  show ?case
  proof (cases "int ?pos < bufsize")
    case True
    obtain n where n: "n \<le> length ks" "int (?pos + keys_size (take n ks)) < bufsize"
      "keys_loop ks bufsize ?pos = Some (concat (map (\<lambda>k. key_text k @ '' '') (take n ks)))"
      "n < length ks \<longrightarrow> bufsize \<le> int (?pos + keys_size (take (Suc n) ks))"
      using Cons.IH [OF True] by blast
    have size: "pos + keys_size (take (Suc m) (k # ks)) = ?pos + keys_size (take m ks)" for m
      by (simp add: keys_size_def)
    have "keys_loop (k # ks) bufsize pos = Some (concat (map (\<lambda>k. key_text k @ '' '') (take (Suc n) (k # ks))))"
      using n(3) True by (simp add: key_text(1))
    then show ?thesis using n(1,2,4) by (intro exI [of _ "Suc n"]) (simp add: size del: take_Suc_Cons)
  next
    case False
    then show ?thesis using Cons.prems by (intro exI [of _ 0]) (simp add: key_text(1) keys_size_def)
  qed
qed

lemma parse_keys_text:
  "ks \<noteq> [] \<Longrightarrow> parse_sort_keys (butlast (concat (map (\<lambda>k. key_text k @ '' '') ks))) = Some ks"
proof (induction ks)
  case (Cons k ks)
  show ?case
  proof (cases "ks = []")
    case True
    then show ?thesis by (simp add: parse_key butlast_append)
  next
    case False
    then have "concat (map (\<lambda>k. key_text k @ '' '') ks) \<noteq> []" by (cases ks) auto
    then have "butlast (concat (map (\<lambda>k. key_text k @ '' '') (k # ks))) =
      key_text k @ CHR '' '' # butlast (concat (map (\<lambda>k. key_text k @ '' '') ks))"
      by (simp add: butlast_append)
    then show ?thesis using Cons False by (simp only: parse_key(1)) simp
  qed
qed simp

lemma length_keys_text: "length (concat (map (\<lambda>k. key_text k @ '' '') ks)) = keys_size ks"
  by (induction ks) (simp_all add: keys_size_def)

section \<open>Properties\<close>

text \<open>
  C14. For every list of sort keys, ascending or reversed, the track comparison is a total preorder on the
  tracks whose numeric fields lie between \<open>-1\<close> and \<open>2^31 - 2\<close>: swapping the arguments changes the sign,
  and being not after is transitive. This is what the sort and the search trees need of it.
\<close>

theorem track_info_cmp_preorder:
  assumes "strcoll_ok (cl_strcoll cl)" and "track_ok a" and "track_ok b" and "track_ok c"
  shows "sgn (track_info_cmp cl ks b a) = - sgn (track_info_cmp cl ks a b) \<and>
    \<not> (track_info_cmp cl ks a b \<le> 0 \<and> track_info_cmp cl ks b c \<le> 0 \<and> track_info_cmp cl ks a c > 0)"
  using comparator.anti [OF track_info_cmp_comparator [OF assms(1)] assms(2,3)]
    comparator.trans [OF track_info_cmp_comparator [OF assms(1)] assms(2,3,4)] by fastforce

definition example_clib :: clib where
  "example_clib = \<lparr>cl_strtod = (\<lambda>_. (None, False)), cl_lower = id, cl_collkey = id, cl_strcoll = strcmp\<rparr>"

definition example_track :: track_info where
  "example_track = \<lparr>ti_filename = ''/m/a.flac'', ti_comments = None, ti_mtime = 0, ti_duration = 10, ti_bitrate = -1,
     ti_codec = None, ti_codec_profile = None, ti_tracknumber = 1, ti_discnumber = -1, ti_date = -1,
     ti_originaldate = -1, ti_rg_track_gain = None, ti_rg_track_peak = None, ti_rg_album_gain = None,
     ti_rg_album_peak = None, ti_output_gain = 0, ti_artist = None, ti_album = None, ti_title = None,
     ti_genre = None, ti_comment = None, ti_albumartist = None, ti_artistsort = None, ti_albumsort = None,
     ti_media = None, ti_collkey_artist = None, ti_collkey_album = None, ti_collkey_title = None,
     ti_collkey_genre = None, ti_collkey_comment = None, ti_collkey_albumartist = None, ti_play_count = 0,
     ti_is_va_compilation = False, ti_bpm = -1\<rparr>"

lemma example_track_ok: "track_ok example_track" "track_ok (example_track\<lparr>ti_tracknumber := 2\<rparr>)"
  by (simp_all add: track_ok_def num_ok_def example_track_def)

theorem track_info_cmp_preorder_witness:
  "strcoll_ok (cl_strcoll example_clib) \<and> track_ok example_track \<and> track_ok (example_track\<lparr>ti_tracknumber := 2\<rparr>) \<and>
   track_info_cmp example_clib [(True, SORT_TRACKNUMBER)] example_track (example_track\<lparr>ti_tracknumber := 2\<rparr>) = 1 \<and>
   sgn (track_info_cmp example_clib [(True, SORT_TRACKNUMBER)] (example_track\<lparr>ti_tracknumber := 2\<rparr>) example_track) = -1"
proof -
  have c: "strcoll_ok (cl_strcoll example_clib)" by (simp add: example_clib_def strcoll_ok_strcmp)
  have 1: "track_info_cmp example_clib [(True, SORT_TRACKNUMBER)] example_track (example_track\<lparr>ti_tracknumber := 2\<rparr>) = 1"
    by (simp add: example_track_def)
  show ?thesis
    using track_info_cmp_preorder [OF c example_track_ok example_track_ok(1), of "[(True, SORT_TRACKNUMBER)]"]
      c example_track_ok 1 by simp
qed

text \<open>
  The difference of modification times is stored in an \<open>int\<close>: a file of 1970 sorts after a file from
  2038 or later, whose time stamp is \<open>2^31\<close>, although its modification time is smaller.
\<close>

theorem mtime_cmp_truncates:
  "ti_mtime example_track < ti_mtime (example_track\<lparr>ti_mtime := 2 ^ 31\<rparr>) \<and>
   track_info_cmp example_clib [(False, SORT_FILEMTIME)] (example_track\<lparr>ti_mtime := 2 ^ 31\<rparr>) example_track < 0"
  by (simp add: example_track_def c_int_def)

text \<open>
  C15. Printing sort keys into a buffer of any size stays inside of the buffer, and what it prints is parsed back
  to the longest prefix of the keys that fits: the bytes that the loop stores, one space behind each key
  included, leave room for the terminator, and one key more would not.
\<close>

theorem sort_keys_roundtrip:
  assumes "0 < bufsize"
  shows "\<exists>t s n. keys_loop ks bufsize 0 = Some t \<and> int (length t) < bufsize \<and>
    sort_keys_to_str ks bufsize = Some s \<and> parse_sort_keys s = Some (take n ks) \<and> n \<le> length ks \<and>
    (n < length ks \<longrightarrow> bufsize \<le> int (keys_size (take (Suc n) ks)))"
proof -
  obtain n where n: "n \<le> length ks" "keys_loop ks bufsize 0 = Some (concat (map (\<lambda>k. key_text k @ '' '') (take n ks)))"
    "int (keys_size (take n ks)) < bufsize" "n < length ks \<longrightarrow> bufsize \<le> int (keys_size (take (Suc n) ks))"
    using keys_loop_prefix [of 0 bufsize ks] assms by auto
  have "parse_sort_keys [] = Some []" by (simp add: parse_sort_keys.simps)
  then obtain s where "sort_keys_to_str ks bufsize = Some s" "parse_sort_keys s = Some (take n ks)"
    using parse_keys_text [of "take n ks"] n(2) by (cases "take n ks") (auto simp: sort_keys_to_str_def)
  with n show ?thesis by (auto simp: length_keys_text)
qed

theorem sort_keys_roundtrip_witness:
  "(0 :: int) < 8 \<and> sort_keys_to_str [(False, SORT_ALBUM), (True, SORT_DATE)] 8 = Some ''album'' \<and>
   (\<exists>n. 0 < n \<and> parse_sort_keys ''album'' = Some (take n [(False, SORT_ALBUM), (True, SORT_DATE)]))"
proof -
  let ?ks = "[(False, SORT_ALBUM), (True, SORT_DATE)]"
  have keys: "sort_key_to_str (False, SORT_ALBUM) = Some ''album''" "sort_key_to_str (True, SORT_DATE) = Some ''-date''"
    by (simp_all add: sort_key_to_str_def sort_key_map_def sort_names_def)
  then have s: "sort_keys_to_str ?ks 8 = Some ''album''" by (simp add: sort_keys_to_str_def)
  have "keys_size (take (Suc 0) ?ks) = 6" using keys(1) by (simp add: keys_size_def key_text_def)
  then have full: "\<not> (8 :: int) \<le> int (keys_size (take (Suc 0) ?ks))" by simp
  obtain n where n: "parse_sort_keys ''album'' = Some (take n ?ks)"
    "n < length ?ks \<longrightarrow> (8 :: int) \<le> int (keys_size (take (Suc n) ?ks))"
    using sort_keys_roundtrip [of 8 ?ks] s by (metis option.inject zero_less_numeral)
  have "n \<noteq> 0"
  proof
    assume "n = 0"
    with n(2) full show False by (metis length_greater_0_conv list.distinct(1))
  qed
  with n(1) s show ?thesis by auto
qed

text \<open>
  A track matches a search for all words exactly when there is at least one word and each word
  matches (in one of the selected tags or in the file name, and in none of the excluded tags).
\<close>

theorem search_all_words:
  assumes "list_all (\<lambda>w. word_matches cl tab enc ti flags excl w \<noteq> None) (get_words s)"
  shows "track_info_matches_full cl tab enc ti s flags excl True =
    Some (get_words s \<noteq> [] \<and> list_all (\<lambda>w. word_matches cl tab enc ti flags excl w = Some True) (get_words s))"
proof -
  have "matches_loop m True ws b = Some (if ws = [] then b else list_all (\<lambda>w. m w = Some True) ws)"
    if "list_all (\<lambda>w. m w \<noteq> None) ws" for m :: "string \<Rightarrow> bool option" and ws b
    using that by (induction ws arbitrary: b) auto
  then show ?thesis using assms by (auto simp: track_info_matches_full_def)
qed

theorem search_all_words_witness:
  "list_all (\<lambda>w. word_matches example_clib [(0xe9, 0x65)] id example_track TI_MATCH_ARTIST 0 w \<noteq> None) (get_words ''FLAC'') \<and>
   track_info_matches_full example_clib [(0xe9, 0x65)] id example_track ''FLAC'' TI_MATCH_ARTIST 0 True = Some True"
proof -
  have w: "get_words ''FLAC'' = [''FLAC'']" by (simp add: get_words_def words_loop.simps)
  have m: "word_matches example_clib [(0xe9, 0x65)] id example_track TI_MATCH_ARTIST 0 ''FLAC'' = Some True"
    by code_simp
  show ?thesis using search_all_words [of example_clib "[(0xe9, 0x65)]" id example_track TI_MATCH_ARTIST 0 "''FLAC''"] w m
    by (simp add: ex_bool_eq)
qed

end
