(* ===== verification/Glob.thy ===== *)
theory Glob
  imports Uchar
begin

text \<open>
  The glob patterns of \<^verbatim>\<open>src/app/glob.c\<close>, which the filter expressions use: compiling a pattern to a list of
  items, simplifying that list, and matching it with backtracking. Strings are bytes; \<open>None\<close> is a failed
  \<open>BUG_ON\<close> or a pointer behind the terminator. The theory shows that on UTF-8 the matcher decides the usual
  meaning of the pattern, character by character, as long as characters that are compared as equal have encodings of
  the same length, and that it reads behind the end of the string otherwise.
\<close>

section \<open>The model\<close>

datatype 't glob_item = GLOB_STAR | GLOB_QMARK | GLOB_TEXT 't

text \<open>
  One round of the loop in \<open>simplify\<close>: \<open>qcount\<close>, \<open>scount\<close>, the items from \<open>item\<close> up to \<open>next\<close>, which end with a text
  or at the head of the list, and the items from \<open>next\<close> on.
\<close>

fun scan_items :: "'t glob_item list \<Rightarrow> nat \<times> nat \<times> 't glob_item list \<times> 't glob_item list" where
  "scan_items [] = (0, 0, [], [])"
| "scan_items (GLOB_STAR # r) = (let (q, s, run, rest) = scan_items r in (q, Suc s, GLOB_STAR # run, rest))"
| "scan_items (GLOB_QMARK # r) = (let (q, s, run, rest) = scan_items r in (Suc q, s, GLOB_QMARK # run, rest))"
| "scan_items (GLOB_TEXT t # r) = (0, 0, [GLOB_TEXT t], r)"

text \<open>
  Moving \<open>qcount\<close> question marks to \<open>insert_after\<close>: \<open>front\<close> are the items moved there, \<open>kept\<close> the items passed, and the
  last argument the items from \<open>i\<close> on.
\<close>

fun move_qmarks :: "nat \<Rightarrow> 't glob_item list \<Rightarrow> 't glob_item list \<Rightarrow> 't glob_item list \<Rightarrow> 't glob_item list" where
  "move_qmarks 0 front kept r = front @ kept @ r"
| "move_qmarks (Suc q) front kept [] = front @ kept"
| "move_qmarks (Suc q) front kept (GLOB_QMARK # r) = move_qmarks q (GLOB_QMARK # front) kept r"
| "move_qmarks (Suc q) front kept (i # r) = move_qmarks (Suc q) front (kept @ [i]) r"

text \<open>Deleting stars from the front of the run on.\<close>

fun delete_stars :: "nat \<Rightarrow> 't glob_item list \<Rightarrow> 't glob_item list" where
  "delete_stars 0 r = r"
| "delete_stars (Suc n) [] = []"
| "delete_stars (Suc n) (GLOB_STAR # r) = delete_stars n r"
| "delete_stars (Suc n) (i # r) = i # delete_stars (Suc n) r"

lemma scan_rest: "scan_items r = (q, s, run, rest) \<Longrightarrow> r = run @ rest \<and> (r \<noteq> [] \<longrightarrow> run \<noteq> [])"
  by (induction r arbitrary: q s run rest rule: scan_items.induct) (auto split: prod.splits)

function simplify :: "'t glob_item list \<Rightarrow> 't glob_item list" where
  "simplify items =
     (if items = [] then []
      else let (qcount, scount, run, rest) = scan_items items;
               run = (if scount \<noteq> 0 then delete_stars (scount - 1) (move_qmarks qcount [] [] run) else run)
        in run @ simplify rest)"
  by pat_completeness auto
termination
proof (relation "measure length", goal_cases)
  case (2 items x q y s z run rest run')
  then show ?case using scan_rest [of items q s run rest] by (cases run) auto
qed simp

declare simplify.simps [simp del]

text \<open>A run of ordinary characters: its length \<open>len\<close> and the rest of the pattern, then the copy of \<open>len\<close> characters.\<close>

fun text_len :: "string \<Rightarrow> nat \<times> string" where
  "text_len [] = (0, [])"
| "text_len [c] = (if c = CHR ''*'' \<or> c = CHR ''?'' then (0, [c]) else (1, []))"
| "text_len (c # d # r) =
     (if c = CHR 0x5C then let (len, i) = text_len r in (Suc len, i)
      else if c = CHR ''*'' \<or> c = CHR ''?'' then (0, c # d # r)
      else let (len, i) = text_len (d # r) in (Suc len, i))"

fun text_copy :: "nat \<Rightarrow> string \<Rightarrow> string option" where
  "text_copy 0 p = Some []"
| "text_copy (Suc n) [] = None"
| "text_copy (Suc n) [c] = map_option ((#) c) (text_copy n [])"
| "text_copy (Suc n) (c # d # r) =
     (if c = CHR 0x5C then map_option ((#) d) (text_copy n r) else map_option ((#) c) (text_copy n (d # r)))"

lemma text_len_shorter: "length (snd (text_len p)) \<le> length p"
  by (induction p rule: text_len.induct) (auto simp: case_prod_beta intro: le_SucI)

function compile_items :: "string \<Rightarrow> string glob_item list option" where
  "compile_items [] = Some []"
| "compile_items (c # r) =
     (if c = CHR ''*'' then map_option ((#) GLOB_STAR) (compile_items r)
      else if c = CHR ''?'' then map_option ((#) GLOB_QMARK) (compile_items r)
      else let (len, i) = text_len (c # r)
        in do { str \<leftarrow> text_copy len (c # r);
                items \<leftarrow> compile_items i;
                Some (GLOB_TEXT str # items) })"
  by pat_completeness auto
termination
proof (relation "measure length", goal_cases)
  case (4 c r x len i)
  then have "i = snd (text_len (c # r))" by (metis snd_conv)
  then show ?case using text_len_shorter [of r] text_len_shorter [of "tl r"] 4(1,2)
    by (cases r) (simp_all add: case_prod_beta)
qed simp_all

definition glob_compile :: "string \<Rightarrow> string glob_item list option" where
  "glob_compile pattern = map_option simplify (compile_items pattern)"

function do_glob_match :: "(uchar \<Rightarrow> uchar) \<Rightarrow> (uchar \<times> uchar) list \<Rightarrow> string glob_item list \<Rightarrow> string \<Rightarrow> bool option" where
  "do_glob_match lower tab [] s = do { c \<leftarrow> byte_at s 0; Some (c = 0) }"
| "do_glob_match lower tab (GLOB_TEXT t # items) s =
     do { len \<leftarrow> u_strlen t;
          eq \<leftarrow> u_strncase_equal_base lower tab t s len;
          if \<not> eq then Some False
          else do { bug_unless (length t \<le> length s); do_glob_match lower tab items (drop (length t) s) } }"
| "do_glob_match lower tab (GLOB_QMARK # items) s =
     do { (u, idx) \<leftarrow> u_get_char s;
          if u = 0 then Some False
          else do { bug_unless (idx \<le> length s); do_glob_match lower tab items (drop idx s) } }"
| "do_glob_match lower tab (GLOB_STAR # []) s = Some True"
| "do_glob_match lower tab (GLOB_STAR # GLOB_TEXT t # items) s =
     do { pos \<leftarrow> u_strcasestr_base lower tab s t;
          case pos of None \<Rightarrow> Some False
          | Some k \<Rightarrow>
              do { bug_unless (k + length t \<le> length s);
                   r \<leftarrow> do_glob_match lower tab items (drop (k + length t) s);
                   if r then Some True
                   else do { bug_unless (k + 1 \<le> length s);
                             do_glob_match lower tab (GLOB_STAR # GLOB_TEXT t # items) (drop (k + 1) s) } } }"
| "do_glob_match lower tab (GLOB_STAR # GLOB_STAR # items) s = None"
| "do_glob_match lower tab (GLOB_STAR # GLOB_QMARK # items) s = None"
  by pat_completeness auto
termination
  by (relation "measures [\<lambda>(_, _, items, _). length items, \<lambda>(_, _, _, s). length s]") auto

definition glob_match :: "(uchar \<Rightarrow> uchar) \<Rightarrow> (uchar \<times> uchar) list \<Rightarrow> string glob_item list \<Rightarrow> string \<Rightarrow> bool option" where
  "glob_match lower tab head s = do_glob_match lower tab head s"

section \<open>The meaning of items and of patterns\<close>

text \<open>On lists of characters, with \<open>g\<close> the normalisation that the comparison applies to both sides.\<close>

fun items_match :: "('u \<Rightarrow> 'v) \<Rightarrow> 'u list glob_item list \<Rightarrow> 'u list \<Rightarrow> bool" where
  "items_match g [] vs \<longleftrightarrow> vs = []"
| "items_match g (GLOB_STAR # r) vs \<longleftrightarrow> (\<exists>k\<le>length vs. items_match g r (drop k vs))"
| "items_match g (GLOB_QMARK # r) vs \<longleftrightarrow> vs \<noteq> [] \<and> items_match g r (tl vs)"
| "items_match g (GLOB_TEXT t # r) vs \<longleftrightarrow> prefix (map g t) (map g vs) \<and> items_match g r (drop (length t) vs)"

abbreviation (input) "u_star \<equiv> 0x2A :: uchar"
abbreviation (input) "u_qmark \<equiv> 0x3F :: uchar"
abbreviation (input) "u_backslash \<equiv> 0x5C :: uchar"

text \<open>A pattern, character by character: a backslash makes the next character an ordinary one.\<close>

fun pattern_match :: "(uchar \<Rightarrow> uchar) \<Rightarrow> uchar list \<Rightarrow> uchar list \<Rightarrow> bool" where
  "pattern_match g [] vs \<longleftrightarrow> vs = []"
| "pattern_match g (p # ps) vs \<longleftrightarrow>
     (if p = u_star then \<exists>k\<le>length vs. pattern_match g ps (drop k vs)
      else if p = u_qmark then vs \<noteq> [] \<and> pattern_match g ps (tl vs)
      else if p = u_backslash \<and> ps \<noteq> []
      then vs \<noteq> [] \<and> g (hd ps) = g (hd vs) \<and> pattern_match g (tl ps) (tl vs)
      else vs \<noteq> [] \<and> g p = g (hd vs) \<and> pattern_match g ps (tl vs))"

section \<open>Simplification keeps the meaning\<close>

definition wild :: "'t glob_item \<Rightarrow> bool" where
  "wild i \<longleftrightarrow> i = GLOB_STAR \<or> i = GLOB_QMARK"

fun qmarks :: "'t glob_item list \<Rightarrow> nat" where
  "qmarks [] = 0"
| "qmarks (GLOB_QMARK # w) = Suc (qmarks w)"
| "qmarks (_ # w) = qmarks w"

fun stars :: "'t glob_item list \<Rightarrow> nat" where
  "stars [] = 0"
| "stars (GLOB_STAR # w) = Suc (stars w)"
| "stars (_ # w) = stars w"

lemma stars_0: "stars w = 0 \<longleftrightarrow> GLOB_STAR \<notin> set w"
  by (induction w rule: stars.induct) auto

lemma qmarks_replicate [simp]: "qmarks (replicate n GLOB_QMARK @ w) = n + qmarks w"
  by (induction n) auto

lemma wild_simps [simp]: "wild GLOB_STAR" "wild GLOB_QMARK" "\<not> wild (GLOB_TEXT t)"
  by (simp_all add: wild_def)

lemma wild_match:
  "list_all wild w \<Longrightarrow> items_match g (w @ r) vs \<longleftrightarrow>
     (if GLOB_STAR \<in> set w then \<exists>k\<le>length vs. qmarks w \<le> k \<and> items_match g r (drop k vs)
      else qmarks w \<le> length vs \<and> items_match g r (drop (qmarks w) vs))"
proof (induction w arbitrary: vs)
  case (Cons i w)
  then have w: "list_all wild w" and i: "i = GLOB_STAR \<or> i = GLOB_QMARK" by (simp, simp add: wild_def)
  show ?case
  proof (cases "i = GLOB_QMARK")
    case True
    show ?thesis
    proof (cases vs)
      case (Cons v vs')
      have "(\<exists>k\<le>length vs'. qmarks w \<le> k \<and> items_match g r (drop k vs')) \<longleftrightarrow>
        (\<exists>k\<le>Suc (length vs'). Suc (qmarks w) \<le> k \<and> items_match g r (drop k (v # vs')))"
        (is "?l \<longleftrightarrow> ?r")
      proof
        assume ?l
        then obtain k where "k \<le> length vs'" "qmarks w \<le> k" "items_match g r (drop k vs')" by blast
        then show ?r by (intro exI [of _ "Suc k"]) simp
      next
        assume ?r
        then obtain k where "k \<le> Suc (length vs')" "Suc (qmarks w) \<le> k" "items_match g r (drop k (v # vs'))" by blast
        then show ?l by (cases k) auto
      qed
      then show ?thesis using Cons.IH [OF w, of vs'] True Cons by auto
    qed (use True in auto)
  next
    case False
    then have s: "i = GLOB_STAR" using i by simp
    have "items_match g ((i # w) @ r) vs \<longleftrightarrow> (\<exists>j\<le>length vs. items_match g (w @ r) (drop j vs))" by (simp add: s)
    also have "\<dots> \<longleftrightarrow> (\<exists>k\<le>length vs. qmarks w \<le> k \<and> items_match g r (drop k vs))"
    proof
      assume "\<exists>j\<le>length vs. items_match g (w @ r) (drop j vs)"
      then obtain j where j: "j \<le> length vs" "items_match g (w @ r) (drop j vs)" by blast
      then obtain k where "k \<le> length vs - j" "qmarks w \<le> k" "items_match g r (drop (k + j) vs)"
        unfolding Cons.IH [OF w] by (auto split: if_splits)
      then show "\<exists>k\<le>length vs. qmarks w \<le> k \<and> items_match g r (drop k vs)"
        using j(1) by (intro exI [of _ "k + j"]) auto
    next
      assume "\<exists>k\<le>length vs. qmarks w \<le> k \<and> items_match g r (drop k vs)"
      then obtain k where "k \<le> length vs" "qmarks w \<le> k" "items_match g r (drop k vs)" by blast
      then have "items_match g (w @ r) (drop (if GLOB_STAR \<in> set w then 0 else k - qmarks w) vs)"
        unfolding Cons.IH [OF w] by auto
      moreover have "(if GLOB_STAR \<in> set w then 0 else k - qmarks w) \<le> length vs" using \<open>k \<le> length vs\<close> by auto
      ultimately show "\<exists>j\<le>length vs. items_match g (w @ r) (drop j vs)" by blast
    qed
    finally show ?thesis by (simp add: s)
  qed
qed simp

lemma scan_parts:
  "scan_items items = (q, s, run, rest) \<Longrightarrow>
   \<exists>w tx. run = w @ tx \<and> items = w @ tx @ rest \<and> list_all wild w \<and> q = qmarks w \<and> s = stars w \<and>
     (tx = [] \<and> rest = [] \<or> (\<exists>t. tx = [GLOB_TEXT t]))"
proof (induction items arbitrary: q s run rest rule: scan_items.induct)
  case (2 r)
  then obtain s' run' where "scan_items r = (q, s', run', rest)" "s = Suc s'" "run = GLOB_STAR # run'"
    by (auto split: prod.splits)
  moreover from this(1) 2(1) obtain w tx where "run' = w @ tx" "r = w @ tx @ rest" "list_all wild w" "q = qmarks w" "s' = stars w"
     "tx = [] \<and> rest = [] \<or> (\<exists>t. tx = [GLOB_TEXT t])" by blast
  ultimately show ?case by (intro exI [of _ "GLOB_STAR # w"] exI [of _ tx]) simp
next
  case (3 r)
  then obtain q' run' where "scan_items r = (q', s, run', rest)" "q = Suc q'" "run = GLOB_QMARK # run'"
    by (auto split: prod.splits)
  moreover from this(1) 3(1) obtain w tx where "run' = w @ tx" "r = w @ tx @ rest" "list_all wild w" "q' = qmarks w" "s = stars w"
     "tx = [] \<and> rest = [] \<or> (\<exists>t. tx = [GLOB_TEXT t])" by blast
  ultimately show ?case by (intro exI [of _ "GLOB_QMARK # w"] exI [of _ tx]) simp
next
  case (4 t r)
  then show ?case by (intro exI [of _ "[]"] exI [of _ "[GLOB_TEXT t]"]) auto
qed simp

lemma all_stars: "list_all wild w \<Longrightarrow> qmarks w = 0 \<Longrightarrow> w = replicate (stars w) GLOB_STAR"
  by (induction w rule: stars.induct) auto

lemma move_qmarks_eq:
  "list_all wild w \<Longrightarrow> move_qmarks (qmarks w) (replicate a GLOB_QMARK) (replicate b GLOB_STAR) (w @ tx) =
     replicate (a + qmarks w) GLOB_QMARK @ replicate (b + stars w) GLOB_STAR @ tx"
proof (induction w arbitrary: a b)
  case (Cons i w)
  show ?case
  proof (cases "i = GLOB_QMARK")
    case True
    then show ?thesis using Cons.IH [of "Suc a" b] Cons.prems by simp
  next
    case False
    then have i: "i = GLOB_STAR" using Cons.prems by (simp add: wild_def)
    show ?thesis
    proof (cases "qmarks w")
      case 0
      then have "w = replicate (stars w) GLOB_STAR" using all_stars [of w] Cons.prems by simp
      then have "replicate b GLOB_STAR @ GLOB_STAR # w = replicate (b + Suc (stars w)) GLOB_STAR"
        by (metis replicate_Suc replicate_add)
      then show ?thesis using 0 i by simp
    next
      case (Suc n)
      then show ?thesis using i Cons.IH [of a "Suc b"] Cons.prems by (simp add: replicate_append_same)
    qed
  qed
qed simp

lemma delete_stars_eq:
  "delete_stars n (replicate q GLOB_QMARK @ replicate (Suc n) GLOB_STAR @ tx) = replicate q GLOB_QMARK @ GLOB_STAR # tx"
proof (induction q)
  case 0
  show ?case by (induction n) simp_all
next
  case (Suc q)
  then show ?case by (cases n) simp_all
qed

lemma simplify_eq:
  assumes "items \<noteq> []"
  shows "\<exists>w tx rest. items = w @ tx @ rest \<and> list_all wild w \<and> (tx = [] \<and> rest = [] \<or> (\<exists>t. tx = [GLOB_TEXT t])) \<and>
    length rest < length items \<and>
    simplify items = (if GLOB_STAR \<in> set w then replicate (qmarks w) GLOB_QMARK @ [GLOB_STAR] else w) @ tx @ simplify rest"
proof -
  obtain q s run rest where sc: "scan_items items = (q, s, run, rest)" by (metis prod_cases4)
  obtain w tx where w: "run = w @ tx" "items = w @ tx @ rest" "list_all wild w" "q = qmarks w" "s = stars w"
     "tx = [] \<and> rest = [] \<or> (\<exists>t. tx = [GLOB_TEXT t])" using scan_parts [OF sc] by blast
  have st: "s = 0 \<longleftrightarrow> GLOB_STAR \<notin> set w" unfolding w(5) by (rule stars_0)
  have "delete_stars (s - 1) (move_qmarks q [] [] run) = replicate (qmarks w) GLOB_QMARK @ GLOB_STAR # tx" if "s \<noteq> 0"
  proof -
    have "Suc (s - 1) = stars w" using that w(5) by simp
    then show ?thesis
      using move_qmarks_eq [OF w(3), of 0 0 tx] delete_stars_eq [of "s - 1" "qmarks w" tx] by (simp add: w(1,4))
  qed
  then have "simplify items = (if GLOB_STAR \<in> set w then replicate (qmarks w) GLOB_QMARK @ [GLOB_STAR] else w) @ tx @ simplify rest"
    using assms st by (subst simplify.simps) (auto simp: sc w(1) Let_def)
  moreover have "length rest < length items" using assms w(2,6) by auto
  ultimately show ?thesis using w by blast
qed

lemma simplify_match: "items_match g (simplify items) vs \<longleftrightarrow> items_match g items vs"
proof (induction items arbitrary: vs rule: measure_induct_rule [of length])
  case (less items)
  show ?case
  proof (cases "items = []")
    case False
    then obtain w tx rest where w: "items = w @ tx @ rest" "list_all wild w"
        "tx = [] \<and> rest = [] \<or> (\<exists>t. tx = [GLOB_TEXT t])" "length rest < length items"
        "simplify items = (if GLOB_STAR \<in> set w then replicate (qmarks w) GLOB_QMARK @ [GLOB_STAR] else w) @ tx @ simplify rest"
      using simplify_eq [OF False] by blast
    have eq: "items_match g (tx @ simplify rest) us \<longleftrightarrow> items_match g (tx @ rest) us" for us
      using w(3) less [OF w(4)] by (auto simp: simplify.simps [of "[]"])
    let ?w = "if GLOB_STAR \<in> set w then replicate (qmarks w) GLOB_QMARK @ [GLOB_STAR] else w"
    have "list_all wild ?w" "qmarks ?w = qmarks w" "GLOB_STAR \<in> set ?w \<longleftrightarrow> GLOB_STAR \<in> set w"
      using w(2) by (auto simp: list_all_iff)
    then show ?thesis
      unfolding w(5) wild_match [OF \<open>list_all wild ?w\<close>] unfolding eq unfolding w(1) wild_match [OF w(2)] by simp
  qed (simp add: simplify.simps)
qed

text \<open>After simplification a star is followed by a text or by nothing.\<close>

fun simple :: "'t glob_item list \<Rightarrow> bool" where
  "simple [] \<longleftrightarrow> True"
| "simple (GLOB_STAR # r) \<longleftrightarrow> (r = [] \<or> (\<exists>t. hd r = GLOB_TEXT t)) \<and> simple r"
| "simple (_ # r) \<longleftrightarrow> simple r"

lemma simple_qmarks: "simple (replicate n GLOB_QMARK @ r) \<longleftrightarrow> simple r"
  by (induction n) simp_all

lemma simple_wild: "list_all wild w \<Longrightarrow> GLOB_STAR \<notin> set w \<Longrightarrow> simple (w @ r) \<longleftrightarrow> simple r"
  by (induction w) (auto simp: wild_def)

lemma simplify_simple: "simple (simplify items)"
proof (induction items rule: measure_induct_rule [of length])
  case (less items)
  show ?case
  proof (cases "items = []")
    case False
    then obtain w tx rest where w: "items = w @ tx @ rest" "list_all wild w"
        "tx = [] \<and> rest = [] \<or> (\<exists>t. tx = [GLOB_TEXT t])" "length rest < length items"
        "simplify items = (if GLOB_STAR \<in> set w then replicate (qmarks w) GLOB_QMARK @ [GLOB_STAR] else w) @ tx @ simplify rest"
      using simplify_eq [OF False] by blast
    have "simple (simplify rest)" using less w(4) by blast
    then have "simple (tx @ simplify rest)" "simple (GLOB_STAR # tx @ simplify rest)"
      using w(3) by (elim disjE; force simp: simplify.simps [of "[]"])+
    then show ?thesis using simple_wild [OF w(2)] by (simp add: w(5) simple_qmarks)
  qed (simp add: simplify.simps)
qed

section \<open>The matcher\<close>

text \<open>
  What the comparison of characters must satisfy on the characters of the pattern and of the string: characters that
  compare as equal are encoded with the same number of bytes, and no stray byte compares like one of them.
\<close>

definition glob_ok :: "(uchar \<Rightarrow> uchar) \<Rightarrow> (uchar \<times> uchar) list \<Rightarrow> uchar set \<Rightarrow> bool" where
  "glob_ok lower tab us \<longleftrightarrow> norm_ok lower (Some tab) \<and>
     (\<forall>u\<in>us. \<forall>v\<in>us. norm_char lower (Some tab) u = norm_char lower (Some tab) v \<longrightarrow> u_char_size u = u_char_size v) \<and>
     (\<forall>u\<in>us. \<forall>b<256. norm_char lower (Some tab) (b OR U_INVALID_MASK) \<noteq> norm_char lower (Some tab) u)"

abbreviation (input) "conts cs \<equiv> list_all (\<lambda>c. len_tab (of_char c) = 0) cs"

lemma conts_of_encode:
  assumes "code_point u"
  shows "\<exists>c cs. u_set_char_raw u = c # cs \<and> conts cs"
  using assms
  by (cases rule: code_point_cases) (simp_all add: u_set_char_raw_def cont_byte(1,2) del: drop_bit_drop_bit)

lemma u_get_char_cont: "len_tab (of_char c) = 0 \<Longrightarrow> u_get_char (c # s) = Some (of_char c OR U_INVALID_MASK, 1)"
  using len_tab_eq [OF of_char_less [of c]] by (auto simp: u_get_char_def split: if_splits)

lemma strcasestr_conts:
  assumes ok: "glob_ok lower tab (set us)" and us: "us \<noteq> []" "list_all code_point us" "list_all code_point vs"
  shows "conts cs \<Longrightarrow> strcasestr_loop lower (Some tab) (cs @ utf8 vs) (int (length (cs @ utf8 vs))) (utf8 us) (length us) =
    Some (map_option ((+) (length cs)) (find_chars (norm_char lower (Some tab)) us vs))"
proof (induction cs)
  case Nil
  have "norm_ok lower (Some tab)" using ok by (simp add: glob_ok_def)
  from strcasestr_utf8 [OF this us(2,3)] show ?case by (simp add: option.map_ident)
next
  case (Cons c cs)
  let ?g = "norm_char lower (Some tab)"
  have n: "norm_ok lower (Some tab)" using ok by (simp add: glob_ok_def)
  obtain u us' where u: "us = u # us'" "code_point u" using us by (cases us) auto
  show ?case
  proof (cases "length (c # cs @ utf8 vs) < length us")
    case True
    then have "length vs < length us" using length_utf8 [of vs] by simp
    then show ?thesis using True find_chars_short [of vs us] by (subst strcasestr_loop.simps) simp
  next
    case False
    have g: "u_get_char (c # cs @ utf8 vs) = Some (of_char c OR U_INVALID_MASK, 1)"
      by (rule u_get_char_cont) (use Cons.prems in simp)
    have "?g u \<noteq> ?g (of_char c OR U_INVALID_MASK)"
      using ok of_char_less [of c] u(1) unfolding glob_ok_def by (metis list.set_intros(1))
    then have "do_u_strncase_equal lower (Some tab) (utf8 us) (c # cs @ utf8 vs) (length us) = Some False"
      using strncase_step [OF n u_get_char_utf8 [OF u(2)] g] by (simp add: u(1))
    then show ?thesis using False g Cons by (subst strcasestr_loop.simps) (simp, cases "find_chars ?g us vs", simp_all)
  qed
qed

lemma star_step: "items_match g (GLOB_STAR # r) (v # vs) \<longleftrightarrow> items_match g r (v # vs) \<or> items_match g (GLOB_STAR # r) vs"
proof
  assume "items_match g (GLOB_STAR # r) (v # vs)"
  then obtain k where "k \<le> Suc (length vs)" "items_match g r (drop k (v # vs))" by auto
  then show "items_match g r (v # vs) \<or> items_match g (GLOB_STAR # r) vs" by (cases k) auto
next
  assume "items_match g r (v # vs) \<or> items_match g (GLOB_STAR # r) vs"
  then show "items_match g (GLOB_STAR # r) (v # vs)"
    by (auto intro: exI [of _ 0] exI [of _ "Suc _"])
qed

lemma find_chars_star:
  assumes "us \<noteq> []"
  shows "case find_chars g us vs of
      None \<Rightarrow> \<not> items_match g (GLOB_STAR # GLOB_TEXT us # r) vs
    | Some k \<Rightarrow> \<exists>pre post. vs = pre @ post \<and> k = length (utf8 pre) \<and> prefix (map g us) (map g post) \<and>
        (items_match g (GLOB_STAR # GLOB_TEXT us # r) vs \<longleftrightarrow> items_match g (GLOB_STAR # GLOB_TEXT us # r) post)"
proof (induction vs)
  case (Cons v vs)
  show ?case
  proof (cases "prefix (map g us) (map g (v # vs))")
    case True
    then have "find_chars g us (v # vs) = Some 0" by simp
    moreover have "\<exists>pre post. v # vs = pre @ post \<and> 0 = length (utf8 pre) \<and> prefix (map g us) (map g post) \<and>
        (items_match g (GLOB_STAR # GLOB_TEXT us # r) (v # vs) \<longleftrightarrow> items_match g (GLOB_STAR # GLOB_TEXT us # r) post)"
      using True by (intro exI [of _ "[]"] exI [of _ "v # vs"]) simp
    ultimately show ?thesis by (simp del: items_match.simps find_chars.simps)
  next
    case False
    then have st: "items_match g (GLOB_STAR # GLOB_TEXT us # r) (v # vs) \<longleftrightarrow> items_match g (GLOB_STAR # GLOB_TEXT us # r) vs"
      unfolding star_step by simp
    show ?thesis
    proof (cases "find_chars g us vs")
      case None
      then show ?thesis using Cons False st by (simp del: items_match.simps)
    next
      case (Some k)
      then obtain pre post where p: "vs = pre @ post" "k = length (utf8 pre)" "prefix (map g us) (map g post)"
        "items_match g (GLOB_STAR # GLOB_TEXT us # r) vs \<longleftrightarrow> items_match g (GLOB_STAR # GLOB_TEXT us # r) post"
        using Cons by (auto simp del: items_match.simps)
      have "find_chars g us (v # vs) = Some (u_char_size v + k)" using False Some by simp
      moreover have "\<exists>pre post. v # vs = pre @ post \<and> u_char_size v + k = length (utf8 pre) \<and> prefix (map g us) (map g post) \<and>
        (items_match g (GLOB_STAR # GLOB_TEXT us # r) (v # vs) \<longleftrightarrow> items_match g (GLOB_STAR # GLOB_TEXT us # r) post)"
        using p st by (intro exI [of _ "v # pre"] exI [of _ post]) (simp del: items_match.simps)
      ultimately show ?thesis by (simp del: items_match.simps find_chars.simps)
    qed
  qed
qed (use assms in simp)

lemma same_length:
  assumes "glob_ok lower tab U" "prefix (map (norm_char lower (Some tab)) us) (map (norm_char lower (Some tab)) post)"
    "set us \<subseteq> U" "set post \<subseteq> U"
  shows "length us \<le> length post" "length (utf8 us) = length (utf8 (take (length us) post))"
  using assms(2-)
proof (induction us arbitrary: post)
  case (Cons u us)
  { case 1
    then show ?case using Cons.IH(1) [of "tl post"] by (cases post) auto
  next
    case 2
    then obtain v post' where v: "post = v # post'" by (cases post) auto
    then have "u_char_size u = u_char_size v" using 2 assms(1) unfolding glob_ok_def by simp
    then show ?case using Cons.IH(2) [of post'] 2 v by simp
  }
qed simp_all

lemma prefix_drop:
  assumes "glob_ok lower tab U" "prefix (map (norm_char lower (Some tab)) us) (map (norm_char lower (Some tab)) post)"
    "set us \<subseteq> U" "set post \<subseteq> U"
  shows "length (utf8 us) \<le> length (utf8 post)" "drop (length (utf8 us)) (utf8 post) = utf8 (drop (length us) post)"
proof -
  have "utf8 post = utf8 (take (length us) post) @ utf8 (drop (length us) post)"
    by (metis append_take_drop_id utf8_append)
  then show "length (utf8 us) \<le> length (utf8 post)" "drop (length (utf8 us)) (utf8 post) = utf8 (drop (length us) post)"
    using same_length(2) [OF assms] by simp_all
qed

definition text_ok :: "uchar set \<Rightarrow> uchar list glob_item \<Rightarrow> bool" where
  "text_ok U i \<longleftrightarrow> (case i of GLOB_TEXT us \<Rightarrow> us \<noteq> [] \<and> list_all code_point us \<and> set us \<subseteq> U | _ \<Rightarrow> True)"

lemma text_ok_simps [simp]:
  "text_ok U GLOB_STAR" "text_ok U GLOB_QMARK" "text_ok U (GLOB_TEXT us) \<longleftrightarrow> us \<noteq> [] \<and> list_all code_point us \<and> set us \<subseteq> U"
  by (simp_all add: text_ok_def)

text \<open>The loop after a star, which may have to start in the middle of a character.\<close>

lemma star_match:
  assumes ok: "glob_ok lower tab U" and us: "us \<noteq> []" "list_all code_point us" "set us \<subseteq> U"
    and rest: "\<And>vs. list_all code_point vs \<Longrightarrow> set vs \<subseteq> U \<Longrightarrow>
      do_glob_match lower tab (map (map_glob_item utf8) r) (utf8 vs) = Some (items_match (norm_char lower (Some tab)) r vs)"
  shows "list_all code_point vs \<Longrightarrow> set vs \<subseteq> U \<Longrightarrow> conts cs \<Longrightarrow>
    do_glob_match lower tab (GLOB_STAR # GLOB_TEXT (utf8 us) # map (map_glob_item utf8) r) (cs @ utf8 vs) =
    Some (items_match (norm_char lower (Some tab)) (GLOB_STAR # GLOB_TEXT us # r) vs)"
proof (induction vs arbitrary: cs rule: measure_induct_rule [of length])
  case (less vs)
  let ?g = "norm_char lower (Some tab)" and ?r = "map (map_glob_item utf8) r"
  let ?m = "items_match ?g (GLOB_STAR # GLOB_TEXT us # r)" and ?s = "cs @ utf8 vs"
  have "glob_ok lower tab (set us)" using ok us(3) unfolding glob_ok_def by blast
  then have find: "u_strcasestr_base lower tab ?s (utf8 us) = Some (map_option ((+) (length cs)) (find_chars ?g us vs))"
    using strcasestr_conts [OF _ us(1,2) less(2,4)] by (simp add: u_strcasestr_base_def do_u_strcasestr_def u_strlen_utf8 [OF us(2)])
  note fs = find_chars_star [OF us(1), where g = ?g and vs = vs and r = r]
  show ?case
  proof (cases "find_chars ?g us vs")
    case None
    then show ?thesis using find fs by (simp del: items_match.simps)
  next
    case (Some k)
    then obtain pre post where p: "vs = pre @ post" "k = length (utf8 pre)" "prefix (map ?g us) (map ?g post)" "?m vs \<longleftrightarrow> ?m post"
      using fs by (auto simp del: items_match.simps)
    then obtain v post' where v: "post = v # post'" using us(1) by (cases post) auto
    have sub: "set post \<subseteq> U" "list_all code_point post" "set (drop (length us) post) \<subseteq> U" "list_all code_point (drop (length us) post)"
      "set post' \<subseteq> U" "list_all code_point post'" "code_point v"
      using less(2,3) set_drop_subset [of "length us" post] unfolding p(1) v list_all_iff by auto
    note d = prefix_drop [OF ok p(3) us(3) sub(1)]
    have rec: "do_glob_match lower tab ?r (drop (length cs + k + length (utf8 us)) ?s) = Some (items_match ?g r (drop (length us) post))"
      using rest [OF sub(4,3)] d(2) by (simp add: p(1,2))
    obtain c cs' where c: "u_set_char_raw v = c # cs'" "conts cs'" using conts_of_encode [OF sub(7)] by blast
    have nxt: "drop (length cs + k + 1) ?s = cs' @ utf8 post'" by (simp add: p(1,2) v c(1))
    have again: "do_glob_match lower tab (GLOB_STAR # GLOB_TEXT (utf8 us) # ?r) (drop (length cs + k + 1) ?s) = Some (?m post')"
      unfolding nxt by (rule less(1)) (use sub c p(1) v in auto)
    have "?m vs \<longleftrightarrow> items_match ?g r (drop (length us) post) \<or> ?m post'"
      unfolding p(4) unfolding v star_step using p(3) by (simp add: v)
    then show ?thesis
      using find Some rec again d(1) by (simp add: p(1,2) v c(1) bug_unless_bind del: items_match.simps)
  qed
qed

lemma do_glob_match_utf8:
  assumes ok: "glob_ok lower tab U"
  shows "list_all (text_ok U) items \<Longrightarrow> simple items \<Longrightarrow> list_all code_point vs \<Longrightarrow> set vs \<subseteq> U \<Longrightarrow>
    do_glob_match lower tab (map (map_glob_item utf8) items) (utf8 vs) = Some (items_match (norm_char lower (Some tab)) items vs)"
proof (induction items arbitrary: vs rule: measure_induct_rule [of length])
  case (less items)
  let ?g = "norm_char lower (Some tab)"
  have n: "norm_ok lower (Some tab)" using ok by (simp add: glob_ok_def)
  show ?case
  proof (cases items)
    case Nil
    then show ?thesis
    proof (cases vs)
      case (Cons v vs')
      then show ?thesis using lead_of_encode [of v "utf8 vs'"] less(4) Nil by auto
    qed simp
  next
    case (Cons i r)
    have IH: "do_glob_match lower tab (map (map_glob_item utf8) r) (utf8 ws) = Some (items_match ?g r ws)"
      if "list_all code_point ws" "set ws \<subseteq> U" for ws
      by (rule less(1)) (use less(2,3) that Cons in \<open>cases i; simp\<close>)+
    show ?thesis
    proof (cases i)
      case GLOB_QMARK
      show ?thesis
      proof (cases vs)
        case (Cons v vs')
        then have "code_point v" "list_all code_point vs'" "set vs' \<subseteq> U" using less(4,5) by auto
        then show ?thesis using u_get_char_utf8 [of v "utf8 vs'"] IH [of vs'] code_point_nonzero [of v] Cons \<open>items = i # r\<close> GLOB_QMARK
          by simp
      qed (use \<open>items = i # r\<close> GLOB_QMARK in simp)
    next
      case (GLOB_TEXT us)
      then have us: "list_all code_point us" "set us \<subseteq> U" using less(2) Cons by auto
      have eq: "u_strncase_equal_base lower tab (utf8 us) (utf8 vs) (length us) = Some (prefix (map ?g us) (map ?g vs))"
        using strncase_utf8 [OF n us(1) less(4)] by (simp add: u_strncase_equal_base_def)
      have "list_all code_point (drop (length us) vs)" "set (drop (length us) vs) \<subseteq> U"
        using less(4,5) by (auto simp: list_all_iff dest: in_set_dropD)
      then show ?thesis
        using eq IH [of "drop (length us) vs"] prefix_drop [OF ok _ us(2) less(5)] u_strlen_utf8 [OF us(1)] Cons GLOB_TEXT by simp
    next
      case GLOB_STAR
      show ?thesis
      proof (cases r)
        case Nil
        then show ?thesis using Cons GLOB_STAR by auto
      next
        case (Cons j r')
        then obtain us where us: "j = GLOB_TEXT us" "us \<noteq> []" "list_all code_point us" "set us \<subseteq> U"
          using less(2,3) \<open>items = i # r\<close> GLOB_STAR by auto
        have IH': "do_glob_match lower tab (map (map_glob_item utf8) r') (utf8 ws) = Some (items_match ?g r' ws)"
          if "list_all code_point ws" "set ws \<subseteq> U" for ws
          by (rule less(1)) (use less(2,3) that Cons us(1) \<open>items = i # r\<close> GLOB_STAR in simp)+
        show ?thesis using star_match [OF ok us(2-4) IH' less(4,5), of "[]"] Cons us(1) \<open>items = i # r\<close> GLOB_STAR
          by (simp del: items_match.simps do_glob_match.simps)
      qed
    qed
  qed
qed

section \<open>Compiling a pattern\<close>

text \<open>The items of a pattern of characters, without the two passes of the code.\<close>

fun add_char :: "uchar \<Rightarrow> uchar list glob_item list \<Rightarrow> uchar list glob_item list" where
  "add_char u (GLOB_TEXT us # r) = GLOB_TEXT (u # us) # r"
| "add_char u r = GLOB_TEXT [u] # r"

fun pattern_items :: "uchar list \<Rightarrow> uchar list glob_item list" where
  "pattern_items [] = []"
| "pattern_items (p # ps) =
     (if p = u_star then GLOB_STAR # pattern_items ps
      else if p = u_qmark then GLOB_QMARK # pattern_items ps
      else if p = u_backslash \<and> ps \<noteq> [] then add_char (hd ps) (pattern_items (tl ps))
      else add_char p (pattern_items ps))"

lemma add_char_match:
  "items_match g (add_char u items) vs \<longleftrightarrow> vs \<noteq> [] \<and> g u = g (hd vs) \<and> items_match g items (tl vs)"
  by (cases "(u, items)" rule: add_char.cases; cases vs) auto

lemma pattern_items_match: "items_match g (pattern_items ps) vs \<longleftrightarrow> pattern_match g ps vs"
  by (induction g ps vs rule: pattern_match.induct) (simp_all add: add_char_match)

lemma add_char_ok: "code_point u \<Longrightarrow> u \<in> U \<Longrightarrow> list_all (text_ok U) items \<Longrightarrow> list_all (text_ok U) (add_char u items)"
  by (cases "(u, items)" rule: add_char.cases) auto

lemma pattern_items_ok: "list_all code_point ps \<Longrightarrow> set ps \<subseteq> U \<Longrightarrow> list_all (text_ok U) (pattern_items ps)"
proof (induction ps rule: pattern_items.induct)
  case (2 p ps)
  have "list_all code_point (tl ps)" "set (tl ps) \<subseteq> U" "ps \<noteq> [] \<Longrightarrow> code_point (hd ps) \<and> hd ps \<in> U"
    using 2(5,6) by (cases ps; auto)+
  then show ?case using 2 by (simp add: add_char_ok)
qed simp

text \<open>Bytes that are neither wild cards nor the escape.\<close>

abbreviation (input) "literal c \<equiv> c \<noteq> CHR 0x5C \<and> c \<noteq> CHR ''*'' \<and> c \<noteq> CHR ''?''"

lemma text_len_literal [simp]: "literal c \<Longrightarrow> text_len (c # s) = (Suc (fst (text_len s)), snd (text_len s))"
  by (cases s) (auto simp: case_prod_beta)

lemma text_copy_literal [simp]: "literal c \<Longrightarrow> text_copy (Suc n) (c # s) = map_option ((#) c) (text_copy n s)"
  by (cases s) auto

lemma text_len_literals: "list_all (\<lambda>c. literal c) cs \<Longrightarrow> text_len (cs @ s) = (length cs + fst (text_len s), snd (text_len s))"
  by (induction cs) simp_all

lemma text_copy_literals: "list_all (\<lambda>c. literal c) cs \<Longrightarrow> text_copy (length cs + n) (cs @ s) = map_option ((@) cs) (text_copy n s)"
  by (induction cs; cases "text_copy n s") simp_all

lemma conts_literal: "conts cs \<Longrightarrow> list_all (\<lambda>c. literal c) cs"
  unfolding list_all_iff by (auto simp: len_tab_eq)

lemma encode_literal:
  assumes "code_point p" "p \<noteq> u_star" "p \<noteq> u_qmark" "p \<noteq> u_backslash"
  shows "list_all (\<lambda>c. literal c) (u_set_char_raw p)"
proof -
  obtain c cs where c: "u_set_char_raw p = c # cs" "conts cs" using conts_of_encode [OF assms(1)] by blast
  have "literal c"
  proof (cases "p \<le> 0x7f")
    case True
    then have "c = to_byte p" "p < 256" using c(1) by (simp_all add: u_set_char_raw_def word_le_nat_alt word_less_nat_alt)
    then have "of_char c = p" by (simp add: of_char_to_byte)
    then show ?thesis using assms(2-4) by auto
  next
    case False
    then have "2 \<le> u_char_size p" using assms(1) by (simp add: u_char_size_def code_point_def)
    moreover have "len_tab (of_char c) = int (u_char_size p)" using lead_of_encode [OF assms(1), of "[]"] by (simp add: c(1))
    ultimately show ?thesis by (auto simp: len_tab_eq)
  qed
  then show ?thesis using conts_literal [OF c(2)] by (simp add: c(1))
qed

lemma encode_ascii: "u_set_char_raw u_star = ''*''" "u_set_char_raw u_qmark = ''?''" "u_set_char_raw u_backslash = [CHR 0x5C]"
  by code_simp+

definition text_split :: "uchar list \<Rightarrow> uchar list \<Rightarrow> uchar list \<Rightarrow> bool" where
  "text_split ps us rest \<longleftrightarrow> text_len (utf8 ps) = (length (utf8 us), utf8 rest) \<and>
     text_copy (length (utf8 us)) (utf8 ps) = Some (utf8 us) \<and>
     pattern_items ps = (if us = [] then pattern_items rest else GLOB_TEXT us # pattern_items rest) \<and>
     (rest = [] \<or> hd rest = u_star \<or> hd rest = u_qmark) \<and>
     (if us = [] then rest = ps else length rest < length ps) \<and> list_all code_point rest"

lemma text_split_add:
  assumes "text_split ps us rest" "list_all (\<lambda>c. literal c) (tl (u_set_char_raw u))" "code_point u"
    and len: "text_len (utf8 qs) = (Suc (fst (text_len (tl (u_set_char_raw u) @ utf8 ps))), snd (text_len (tl (u_set_char_raw u) @ utf8 ps)))"
    and copy: "\<And>n. text_copy (Suc n) (utf8 qs) = map_option ((#) (hd (u_set_char_raw u))) (text_copy n (tl (u_set_char_raw u) @ utf8 ps))"
    and qs: "length ps < length qs" "pattern_items qs = add_char u (pattern_items ps)"
  shows "text_split qs (u # us) rest"
proof -
  obtain c cs where c: "u_set_char_raw u = c # cs" using conts_of_encode [OF assms(3)] by blast
  have l: "list_all (\<lambda>c. literal c) cs" using assms(2) by (simp add: c)
  have s: "text_len (utf8 ps) = (length (utf8 us), utf8 rest)" "text_copy (length (utf8 us)) (utf8 ps) = Some (utf8 us)"
    "pattern_items ps = (if us = [] then pattern_items rest else GLOB_TEXT us # pattern_items rest)"
    "rest = [] \<or> hd rest = u_star \<or> hd rest = u_qmark" "length rest \<le> length ps" "list_all code_point rest"
    using assms(1) unfolding text_split_def by (simp_all split: if_splits)
  have "add_char u (pattern_items rest) = GLOB_TEXT [u] # pattern_items rest"
    using s(4) by (cases rest) auto
  then have "pattern_items qs = GLOB_TEXT (u # us) # pattern_items rest" by (simp add: qs(2) s(3))
  moreover have "text_len (utf8 qs) = (length (utf8 (u # us)), utf8 rest)"
    using len text_len_literals [OF l, of "utf8 ps"] s(1) by (simp add: c length_u_set_char_raw [symmetric] del: length_u_set_char_raw)
  moreover have "text_copy (length (utf8 (u # us))) (utf8 qs) = Some (utf8 (u # us))"
    using copy [of "length cs + length (utf8 us)"] text_copy_literals [OF l, of "length (utf8 us)" "utf8 ps"] s(2)
    by (simp add: c length_u_set_char_raw [symmetric] del: length_u_set_char_raw)
  ultimately show ?thesis using s(4-6) qs(1) unfolding text_split_def by simp
qed

lemma text_split_exists: "list_all code_point ps \<Longrightarrow> \<exists>us rest. text_split ps us rest"
proof (induction ps rule: measure_induct_rule [of length])
  case (less ps)
  show ?case
  proof (cases ps)
    case Nil
    then show ?thesis by (intro exI [of _ "[]"]) (simp add: text_split_def)
  next
    case (Cons p ps')
    then have cp: "code_point p" "list_all code_point ps'" using less(2) by auto
    consider (wild) "p = u_star \<or> p = u_qmark" | (last) "p = u_backslash" "ps' = []"
      | (esc) q ps'' where "p = u_backslash" "ps' = q # ps''" | (lit) "p \<noteq> u_star" "p \<noteq> u_qmark" "p \<noteq> u_backslash"
      by (cases ps') auto
    then show ?thesis
    proof cases
      case wild
      then have "text_len (utf8 ps) = (0, utf8 ps)" by (cases "utf8 ps'") (auto simp: Cons encode_ascii)
      then show ?thesis using wild less(2) by (intro exI [of _ "[]"] exI [of _ ps]) (auto simp: text_split_def Cons)
    next
      case last
      then show ?thesis using cp by (intro exI [of _ "[u_backslash]"] exI [of _ "[]"]) (simp add: text_split_def Cons encode_ascii)
    next
      case esc
      then obtain us rest where s: "text_split ps'' us rest" using less Cons cp by force
      have q: "code_point q" using cp esc by simp
      obtain c cs where c: "u_set_char_raw q = c # cs" "conts cs" using conts_of_encode [OF q] by blast
      have "text_split ps (q # us) rest"
        by (rule text_split_add [OF s _ q]) (use conts_literal [OF c(2)] esc in \<open>simp_all add: c Cons encode_ascii case_prod_beta\<close>)
      then show ?thesis by blast
    next
      case lit
      obtain us rest where s: "text_split ps' us rest" using less Cons cp by force
      have l: "list_all (\<lambda>c. literal c) (u_set_char_raw p)" using encode_literal [OF cp(1) lit] .
      obtain c cs where c: "u_set_char_raw p = c # cs" using conts_of_encode [OF cp(1)] by blast
      have "text_split ps (p # us) rest"
        by (rule text_split_add [OF s _ cp(1)]) (use l lit in \<open>simp_all add: c Cons\<close>)
      then show ?thesis by blast
    qed
  qed
qed

lemma compile_items_utf8: "list_all code_point ps \<Longrightarrow> compile_items (utf8 ps) = Some (map (map_glob_item utf8) (pattern_items ps))"
proof (induction ps rule: measure_induct_rule [of length])
  case (less ps)
  show ?case
  proof (cases ps)
    case (Cons p ps')
    then have cp: "code_point p" "list_all code_point ps'" using less(2) by auto
    show ?thesis
    proof (cases "p = u_star \<or> p = u_qmark")
      case True
      then show ?thesis using less(1) [of ps'] cp Cons by (auto simp: encode_ascii)
    next
      case False
      obtain us rest where s: "text_split ps us rest" using text_split_exists [OF less(2)] by blast
      have "us \<noteq> []" using s False Cons by (auto simp: text_split_def)
      then have sp: "text_len (utf8 ps) = (length (utf8 us), utf8 rest)" "text_copy (length (utf8 us)) (utf8 ps) = Some (utf8 us)"
          "pattern_items ps = GLOB_TEXT us # pattern_items rest" "compile_items (utf8 rest) = Some (map (map_glob_item utf8) (pattern_items rest))"
        using s less(1) [of rest] unfolding text_split_def by simp_all
      obtain c cs where c: "u_set_char_raw p = c # cs" "conts cs" using conts_of_encode [OF cp(1)] by blast
      have "c \<noteq> CHR ''*''" "c \<noteq> CHR ''?''"
        using encode_literal [OF cp(1)] False c encode_ascii(3) by (cases "p = u_backslash"; auto)+
      then show ?thesis using sp by (simp add: Cons c) 
    qed
  qed simp
qed

lemma simplify_map: "simplify (map (map_glob_item f) items) = map (map_glob_item f) (simplify items)"
proof -
  have sc: "scan_items (map (map_glob_item f) r) =
      (let (q, s, run, rest) = scan_items r in (q, s, map (map_glob_item f) run, map (map_glob_item f) rest))" for r
    by (induction r rule: scan_items.induct) (simp_all add: case_prod_beta Let_def)
  have mv: "move_qmarks q (map (map_glob_item f) a) (map (map_glob_item f) b) (map (map_glob_item f) r) =
      map (map_glob_item f) (move_qmarks q a b r)" for q a b r
    by (induction q a b r rule: move_qmarks.induct) simp_all
  have de: "delete_stars n (map (map_glob_item f) r) = map (map_glob_item f) (delete_stars n r)" for n r
    by (induction n r rule: delete_stars.induct) simp_all
  show ?thesis
  proof (induction items rule: measure_induct_rule [of length])
    case (less items)
    show ?case
    proof (cases "items = []")
      case False
      obtain q s run rest where p: "scan_items items = (q, s, run, rest)" by (metis prod_cases4)
      then have "length rest < length items" using scan_rest [OF p] False by (cases run) auto
      then show ?thesis
        using less [of rest] False mv [of q "[]" "[]" run] by (subst (1 2) simplify.simps) (simp add: sc p de Let_def)
    qed (simp add: simplify.simps)
  qed
qed

lemma simplify_text_ok: "list_all (text_ok U) items \<Longrightarrow> list_all (text_ok U) (simplify items)"
proof (induction items rule: measure_induct_rule [of length])
  case (less items)
  show ?case
  proof (cases "items = []")
    case False
    then obtain w tx rest where w: "items = w @ tx @ rest" "length rest < length items"
        "simplify items = (if GLOB_STAR \<in> set w then replicate (qmarks w) GLOB_QMARK @ [GLOB_STAR] else w) @ tx @ simplify rest"
      using simplify_eq [OF False] by blast
    have "list_all (text_ok U) (simplify rest)" using less w(1,2) by simp
    then show ?thesis using less(2) unfolding w(3) by (simp add: w(1)) (simp add: list_all_iff)
  qed (simp add: simplify.simps)
qed

lemma glob_match_pattern:
  assumes "glob_ok lower tab (set ps \<union> set vs)" and "list_all code_point ps" and "list_all code_point vs"
  shows "\<exists>items. glob_compile (utf8 ps) = Some items \<and>
    glob_match lower tab items (utf8 vs) = Some (pattern_match (norm_char lower (Some tab)) ps vs)"
proof -
  let ?items = "simplify (pattern_items ps)"
  have "glob_compile (utf8 ps) = Some (map (map_glob_item utf8) ?items)"
    by (simp add: glob_compile_def compile_items_utf8 [OF assms(2)] simplify_map)
  moreover have "list_all (text_ok (set ps \<union> set vs)) ?items"
    by (intro simplify_text_ok pattern_items_ok assms(2)) simp
  then have "glob_match lower tab (map (map_glob_item utf8) ?items) (utf8 vs) =
      Some (items_match (norm_char lower (Some tab)) ?items vs)"
    using do_glob_match_utf8 [OF assms(1) _ simplify_simple assms(3)] by (simp add: glob_match_def)
  ultimately show ?thesis by (simp add: simplify_match pattern_items_match)
qed

section \<open>Properties\<close>

text \<open>
  C18. On a UTF-8 pattern and a UTF-8 string, compiling, simplifying and matching with backtracking return the answer of
  the pattern's meaning, character by character (a star stands for any characters, a question mark for one,
  a backslash takes the next character literally), and neither a \<open>BUG_ON\<close> fails nor is a byte outside of the string
  read, if characters that compare as equal have encodings of the same length.
\<close>

theorem glob_match_correct:
  assumes "glob_ok lower tab (set ps \<union> set vs)" and "list_all code_point ps" and "list_all code_point vs"
  shows "\<exists>items. glob_compile (utf8 ps) = Some items \<and>
    glob_match lower tab items (utf8 vs) = Some (pattern_match (norm_char lower (Some tab)) ps vs)"
  by (rule glob_match_pattern [OF assms])

lemma example_norm_ok: "norm_ok id (Some [(0xe9, 0x65)])"
  using fold_ok_id by (simp add: norm_ok_def norm_char_def base_of_def table_ok_def fold_ok_def)

lemma invalid_mask: "bit (b OR U_INVALID_MASK) 28"
  by (simp add: U_INVALID_MASK_def bit_or_iff)

lemma example_norm_invalid: "norm_char id (Some [(0xe9, 0x65)]) (b OR U_INVALID_MASK) = b OR U_INVALID_MASK"
proof -
  have "U_INVALID_MASK \<le> b OR U_INVALID_MASK" by (subst or.commute) (rule le_word_or2)
  then have "0xe9 < b OR U_INVALID_MASK" by (rule less_le_trans [rotated]) (simp add: U_INVALID_MASK_def)
  then have "b OR U_INVALID_MASK \<noteq> 0xe9" "\<not> b OR U_INVALID_MASK \<le> 0x5a"
    by (auto dest: less_le_trans simp: word_less_nat_alt word_le_nat_alt)
  then show ?thesis by (simp add: norm_char_def base_of_def u_casefold_char_def)
qed

theorem glob_match_correct_witness:
  "\<exists>items. glob_compile (utf8 [0x2A, 0x3F, 0xe9, 0x2A]) = Some items \<and>
    glob_match id [(0xe9, 0x65)] items (utf8 [0x41, 0xe9, 0xe9]) = Some True"
proof -
  have neq: "b OR U_INVALID_MASK \<noteq> x" if "\<not> bit x 28" for b x using invalid_mask that by metis
  have ok: "glob_ok id [(0xe9, 0x65)] (set [0x2A, 0x3F, 0xe9, 0x2A] \<union> set [0x41, 0xe9, 0xe9])"
    unfolding glob_ok_def example_norm_invalid
    by (auto simp: example_norm_ok norm_char_def base_of_def u_casefold_char_def u_char_size_def neq)
  have "pattern_match (norm_char id (Some [(0xe9, 0x65)])) [0x2A, 0x3F, 0xe9, 0x2A] [0x41, 0xe9, 0xe9]"
    by (simp, rule exI [of _ 1], simp)
  then show ?thesis using glob_match_correct [OF ok] by (simp add: code_point_def)
qed

text \<open>
  When a pattern character compares as equal with a character whose encoding is shorter, as an accented letter does
  with its base letter, the matcher steps behind the terminator of the string.
\<close>

theorem glob_overrun:
  assumes "norm_ok lower (Some tab)" and "code_point u" and "code_point v" and "u \<notin> {0x2A, 0x3F, 0x5C}"
    and "norm_char lower (Some tab) u = norm_char lower (Some tab) v" and "u_char_size v < u_char_size u"
  shows "\<exists>items. glob_compile (utf8 [u]) = Some items \<and> glob_match lower tab items (utf8 [v]) = None"
proof -
  have "simplify [GLOB_TEXT (utf8 [u])] = [GLOB_TEXT (utf8 [u])]"
    by (simp add: simplify.simps)
  then have "glob_compile (utf8 [u]) = Some [GLOB_TEXT (utf8 [u])]"
    using compile_items_utf8 [of "[u]"] assms(2,4) by (simp add: glob_compile_def)
  moreover have "glob_match lower tab [GLOB_TEXT (utf8 [u])] (utf8 [v]) = None"
    using strncase_utf8 [OF assms(1), of "[u]" "[v]"] u_strlen_utf8 [of "[u]"] assms(2,3,5,6)
    by (simp add: glob_match_def u_strncase_equal_base_def bug_unless_bind)
  ultimately show ?thesis by blast
qed

theorem glob_overrun_witness:
  "\<exists>items. glob_compile (utf8 [0xe9]) = Some items \<and> glob_match id [(0xe9, 0x65)] items (utf8 [0x65]) = None"
proof -
  show ?thesis
    using example_norm_ok glob_overrun [of id "[(0xe9, 0x65)]" "0xe9" "0x65"]
    by (simp add: code_point_def norm_char_def base_of_def u_char_size_def)
qed

end
