(* ===== verification/Expr.thy ===== *)
theory Expr
  imports Glob Track_Info Softvol
begin

text \<open>
  The filter expressions of \<^verbatim>\<open>src/app/expr.c\<close>: the tokenizer and the parser, with the grammar they accept. An error is the left side of a sum, with the message given to
  \<open>set_error\<close> (the code keeps its first 63 bytes); \<open>None\<close> is a failed \<open>BUG_ON\<close> or another fault. The character classes are those of
  the C locale. The parser's recursion is bounded by a number that is shown to be large enough.
\<close>

section \<open>Tokens\<close>

datatype token = TOK_NOT | TOK_LT | TOK_GT | TOK_EQ | TOK_AND | TOK_OR | TOK_LPAREN | TOK_RPAREN
  | TOK_NE | TOK_LE | TOK_GE | TOK_KEY string | TOK_INT_OR_KEY string | TOK_STR string

datatype op = OP_LT | OP_LE | OP_EQ | OP_GE | OP_GT | OP_NE

definition specials :: "(char \<times> token) list" where
  "specials = [(CHR ''!'', TOK_NOT), (CHR ''<'', TOK_LT), (CHR ''>'', TOK_GT), (CHR ''='', TOK_EQ), (CHR ''&'', TOK_AND),
     (CHR ''|'', TOK_OR), (CHR ''('', TOK_LPAREN), (CHR '')'', TOK_RPAREN)]"

fun combined :: "token \<Rightarrow> token option" where
  "combined TOK_NOT = Some TOK_NE"
| "combined TOK_LT = Some TOK_LE"
| "combined TOK_GT = Some TOK_GE"
| "combined _ = None"

fun tok_to_op :: "token \<Rightarrow> op option" where
  "tok_to_op TOK_LT = Some OP_LT"
| "tok_to_op TOK_GT = Some OP_GT"
| "tok_to_op TOK_EQ = Some OP_EQ"
| "tok_to_op TOK_NE = Some OP_NE"
| "tok_to_op TOK_LE = Some OP_LE"
| "tok_to_op TOK_GE = Some OP_GE"
| "tok_to_op _ = None"

fun op_names :: "op \<Rightarrow> string" where
  "op_names OP_LT = ''<''" | "op_names OP_LE = ''<=''" | "op_names OP_EQ = ''=''"
| "op_names OP_GE = ''>=''" | "op_names OP_GT = ''>''" | "op_names OP_NE = ''!=''"

definition c_isalpha :: "char \<Rightarrow> bool" where
  "c_isalpha c \<longleftrightarrow> (CHR ''A'' \<le> c \<and> c \<le> CHR ''Z'') \<or> (CHR ''a'' \<le> c \<and> c \<le> CHR ''z'')"

text \<open>The string behind an opening quote, up to the closing one; escapes stay in.\<close>

fun get_str :: "string \<Rightarrow> string + token \<times> string" where
  "get_str [] = Inl ''end of expression at middle of string''"
| "get_str [c] = (if c = CHR 0x22 then Inr (TOK_STR [], []) else Inl ''end of expression at middle of string'')"
| "get_str (c # d # r) =
     (if c = CHR 0x22 then Inr (TOK_STR [], d # r)
      else if c = CHR 0x5C
      then (case get_str r of Inr (TOK_STR s, rest) \<Rightarrow> Inr (TOK_STR (c # d # s), rest) | e \<Rightarrow> e)
      else (case get_str (d # r) of Inr (TOK_STR s, rest) \<Rightarrow> Inr (TOK_STR (c # s), rest) | e \<Rightarrow> e))"

text \<open>The loop over a key or number: what it passes, \<open>digits_only\<close> and the rest.\<close>

fun key_loop :: "string \<Rightarrow> string + string \<times> bool \<times> string" where
  "key_loop [] = Inr ([], True, [])"
| "key_loop (c # r) =
     (if c_isspace c \<or> c \<in> fst ` set specials then Inr ([], True, c # r)
      else if \<not> c_isdigit c \<and> \<not> c_isalpha c \<and> c \<noteq> CHR ''_'' \<and> c \<noteq> CHR ''-''
      then Inl (''unexpected '' @ [CHR 0x27, c, CHR 0x27])
      else (case key_loop r of Inl e \<Rightarrow> Inl e
            | Inr (k, digits_only, rest) \<Rightarrow> Inr (c # k, c_isdigit c \<and> digits_only, rest)))"

definition get_int_or_key :: "string \<Rightarrow> string + token \<times> string" where
  "get_int_or_key s =
     (let (sign, s) = (if s \<noteq> [] \<and> hd s = CHR ''-'' then (''-'', tl s) else ([], s))
      in case key_loop s of Inl e \<Rightarrow> Inl e
         | Inr (k, digits_only, rest) \<Rightarrow>
             Inr (if digits_only then TOK_INT_OR_KEY (sign @ k) else TOK_KEY (sign @ k), rest))"

definition get_token :: "string \<Rightarrow> string + token \<times> string" where
  "get_token s =
     (case s of [] \<Rightarrow> get_int_or_key s
      | c # r \<Rightarrow>
          (case map_of specials c of
             Some t \<Rightarrow>
               (case combined t of
                  Some t' \<Rightarrow> if r \<noteq> [] \<and> hd r = CHR ''='' then Inr (t', tl r) else Inr (t, r)
                | None \<Rightarrow> Inr (t, r))
           | None \<Rightarrow> if c = CHR 0x22 then get_str r else get_int_or_key s))"

lemma get_str_shorter: "get_str s = Inr (t, rest) \<Longrightarrow> length rest < length s"
  by (induction s arbitrary: t rest rule: get_str.induct) (fastforce split: if_splits sum.splits prod.splits token.splits)+

lemma key_loop_parts: "key_loop s = Inr (k, d, rest) \<Longrightarrow> s = k @ rest"
  by (induction s arbitrary: k d rest) (auto split: if_splits sum.splits prod.splits)

lemma get_token_shorter:
  assumes "get_token s = Inr (t, rest)" "s \<noteq> []" "\<not> c_isspace (hd s)"
  shows "length rest < length s"
proof -
  obtain c r where s: "s = c # r" using assms(2) by (cases s) auto
  show ?thesis
  proof (cases "map_of specials c")
    case None
    then have c: "c \<notin> fst ` set specials" by (simp add: map_of_eq_None_iff)
    show ?thesis
    proof (cases "c = CHR 0x22")
      case True
      then show ?thesis using assms(1) None get_str_shorter [of r t rest] by (simp add: get_token_def s)
    next
      case False
      then have "get_int_or_key s = Inr (t, rest)" using assms(1) None by (simp add: get_token_def s)
      then show ?thesis using c assms(3) s key_loop_parts [of r] key_loop_parts [of s]
        by (fastforce simp: get_int_or_key_def split: if_splits sum.splits prod.splits)
    qed
  next
    case (Some t')
    then show ?thesis using assms(1) by (auto simp: get_token_def s split: option.splits if_splits)
  qed
qed

function tokenize :: "string \<Rightarrow> string + token list" where
  "tokenize str =
     (let str = dropWhile c_isspace str
      in if str = [] then Inr []
         else case get_token str of Inl e \<Rightarrow> Inl e
              | Inr (tok, rest) \<Rightarrow> (case tokenize rest of Inl e \<Rightarrow> Inl e | Inr toks \<Rightarrow> Inr (tok # toks)))"
  by pat_completeness auto
termination
proof (relation "measure length", goal_cases)
  case (2 str s y tok rest)
  then have "length rest < length s" using get_token_shorter [of s tok rest] hd_dropWhile [of c_isspace str] by auto
  also have "length s \<le> length str" using 2(1) length_dropWhile_le by auto
  finally show ?case by simp
qed simp

declare tokenize.simps [simp del]

section \<open>The parser\<close>

datatype bin = EXPR_AND | EXPR_OR

text \<open>
  \<^verbatim>\<open>struct expr\<close>: the children of a binary node are absent while it is being built. The parent pointers, which are only
  written, are left out.
\<close>

datatype expr = Bin bin "expr option" "expr option" | EXPR_NOT expr | EXPR_STR string "string glob_item list" op
  | EXPR_INT string int op | EXPR_ID string string op | EXPR_BOOL string

type_synonym 'a parsed = "(string + 'a) option"

text \<open>Setting the \<open>right\<close> child of the node at the end of the chain of right children; \<open>None\<close> when that node is not binary.\<close>

fun fill_right :: "expr \<Rightarrow> expr \<Rightarrow> expr option" where
  "fill_right (Bin b l (Some r)) e = map_option (\<lambda>r'. Bin b l (Some r')) (fill_right r e)"
| "fill_right (Bin b l None) e = Some (Bin b l (Some e))"
| "fill_right _ e = None"

fun add :: "expr option \<Rightarrow> expr \<Rightarrow> expr option" where
  "add None e = Some e"
| "add (Some rt) e =
     (case fill_right rt e of
        Some rt' \<Rightarrow> Some rt'
      | None \<Rightarrow> (case e of Bin b l r \<Rightarrow> Some (Bin b (Some rt) r) | _ \<Rightarrow> None))"

definition parse_key :: "string \<Rightarrow> token list \<Rightarrow> (expr \<times> token list) parsed" where
  "parse_key key toks =
     (case toks of
        [] \<Rightarrow> Some (Inr (EXPR_BOOL key, toks))
      | t # r \<Rightarrow>
          (case tok_to_op t of
             None \<Rightarrow> Some (Inr (EXPR_BOOL key, toks))
           | Some op \<Rightarrow>
               (case r of
                  [] \<Rightarrow> Some (Inl ''right side of expression expected'')
                | TOK_STR s # r' \<Rightarrow>
                    if op \<noteq> OP_EQ \<and> op \<noteq> OP_NE
                    then Some (Inl (''invalid string operator '' @ [CHR 0x27] @ op_names op @ [CHR 0x27]))
                    else do { glob \<leftarrow> glob_compile s; Some (Inr (EXPR_STR key glob op, r')) }
                | TOK_INT_OR_KEY s # r' \<Rightarrow> Some (Inr (EXPR_INT key (c_int (fst (strtol s))) op, r'))
                | TOK_KEY s # r' \<Rightarrow> Some (Inr (EXPR_ID key s op, r'))
                | _ \<Rightarrow> Some (Inl (if op = OP_EQ \<or> op = OP_NE then ''integer or string expected'' else ''integer expected'')))))"

text \<open>
  \<open>parse_one\<close>, and the loop of \<open>parse\<close> in two parts: up to the first \<open>add\<close>, and from there to the next round. The first argument
  bounds the recursion; at 0 there is no result.
\<close>

fun parse_one :: "nat \<Rightarrow> token list \<Rightarrow> (expr \<times> token list) parsed"
and parse :: "nat \<Rightarrow> expr option \<Rightarrow> token list \<Rightarrow> nat \<Rightarrow> (expr \<times> token list) parsed"
and parse_next :: "nat \<Rightarrow> expr \<Rightarrow> token list \<Rightarrow> nat \<Rightarrow> (expr \<times> token list) parsed" where
  "parse_one 0 toks = None"
| "parse_one (Suc n) toks =
     (case toks of
        [] \<Rightarrow> Some (Inl ''expression expected'')
      | TOK_NOT # r \<Rightarrow>
          (case parse_one n r of None \<Rightarrow> None | Some (Inl e) \<Rightarrow> Some (Inl e) | Some (Inr (e, r)) \<Rightarrow> Some (Inr (EXPR_NOT e, r)))
      | TOK_LPAREN # r \<Rightarrow> parse n None r 1
      | TOK_KEY key # r \<Rightarrow> parse_key key r
      | TOK_INT_OR_KEY key # r \<Rightarrow> parse_key key r
      | _ \<Rightarrow> Some (Inl ''key expected''))"
| "parse 0 rt toks level = None"
| "parse (Suc n) rt toks level =
     (case parse_one n toks of None \<Rightarrow> None | Some (Inl e) \<Rightarrow> Some (Inl e)
      | Some (Inr (e, toks)) \<Rightarrow> (case add rt e of None \<Rightarrow> None | Some rt \<Rightarrow> parse_next n rt toks level))"
| "parse_next 0 rt toks level = None"
| "parse_next (Suc n) rt toks level =
     (case toks of
        [] \<Rightarrow> if level > 0 then Some (Inl (CHR 0x27 # '')'' @ CHR 0x27 # '' expected'')) else Some (Inr (rt, []))
      | TOK_RPAREN # r \<Rightarrow> if level = 0 then Some (Inl (''unexpected '' @ [CHR 0x27, CHR '')'', CHR 0x27])) else Some (Inr (rt, r))
      | TOK_AND # r \<Rightarrow>
          (case add (Some rt) (Bin EXPR_AND None None) of None \<Rightarrow> None | Some rt \<Rightarrow> parse n (Some rt) r level)
      | TOK_OR # r \<Rightarrow>
          (case add (Some rt) (Bin EXPR_OR None None) of None \<Rightarrow> None | Some rt \<Rightarrow> parse n (Some rt) r level)
      | _ \<Rightarrow> Some (Inl ([CHR 0x27, CHR ''&'', CHR 0x27] @ '' or '' @ [CHR 0x27, CHR ''|'', CHR 0x27] @ '' expected'')))"

text \<open>The whole parse of a token list.\<close>

definition parse_tokens :: "token list \<Rightarrow> expr parsed" where
  "parse_tokens toks = map_option (map_sum id fst) (parse (3 * length toks + 3) None toks 0)"

section \<open>The parser always answers, and with complete trees\<close>

fun complete :: "expr \<Rightarrow> bool" where
  "complete (Bin b l r) \<longleftrightarrow> (case l of None \<Rightarrow> False | Some l \<Rightarrow> complete l) \<and> (case r of None \<Rightarrow> False | Some r \<Rightarrow> complete r)"
| "complete (EXPR_NOT e) \<longleftrightarrow> complete e"
| "complete _ \<longleftrightarrow> True"

lemma fill_complete: "complete rt \<Longrightarrow> fill_right rt e = None"
  by (induction rt e rule: fill_right.induct) (auto split: option.splits)

lemma add_complete:
  "complete rt \<Longrightarrow> add (Some rt) (Bin b None None) = Some (Bin b (Some rt) None)"
  "add (Some (Bin b (Some rt) None)) e = Some (Bin b (Some rt) (Some e))"
  by (simp_all add: fill_complete)

text \<open>The tree when a round of \<open>parse\<close> begins.\<close>

definition open_root :: "expr option \<Rightarrow> bool" where
  "open_root rt \<longleftrightarrow> rt = None \<or> (\<exists>b l. rt = Some (Bin b (Some l) None) \<and> complete l)"

lemma add_open: "open_root rt \<Longrightarrow> complete e \<Longrightarrow> \<exists>rt'. add rt e = Some rt' \<and> complete rt'"
  by (auto simp: open_root_def add_complete simp del: add.simps(2))

definition answers :: "(expr \<times> token list) parsed \<Rightarrow> nat \<Rightarrow> bool" where
  "answers p n \<longleftrightarrow> (case p of None \<Rightarrow> False | Some (Inl e) \<Rightarrow> True | Some (Inr (e, r)) \<Rightarrow> complete e \<and> length r < n)"

lemma answers_simps [simp]: "\<not> answers None n" "answers (Some (Inl e)) n" "answers (Some (Inr (x, r))) n \<longleftrightarrow> complete x \<and> length r < n"
  by (simp_all add: answers_def)

lemma answers_cases:
  assumes "answers p n"
  obtains (err) e where "p = Some (Inl e)" | (ok) x r where "p = Some (Inr (x, r))" "complete x" "length r < n"
  using assms by (auto simp: answers_def split: option.splits sum.splits)

lemma text_copy_total: "\<exists>t. text_copy (fst (text_len p)) p = Some t"
  by (induction p rule: text_len.induct) (auto simp: case_prod_beta)

lemma compile_items_total: "\<exists>items. compile_items p = Some items"
proof (induction p rule: compile_items.induct)
  case (2 c r)
  obtain len i where l: "text_len (c # r) = (len, i)" by fastforce
  obtain t where t: "text_copy len (c # r) = Some t" using text_copy_total [of "c # r"] l by auto
  show ?case
  proof (cases "c = CHR ''*'' \<or> c = CHR ''?''")
    case True
    then show ?thesis using 2(1,2) by auto
  next
    case False
    have "\<exists>items. compile_items i = Some items" by (rule 2(3)) (use False l t in auto)
    then obtain items where "compile_items i = Some items" by blast
    then show ?thesis using False l t by simp
  qed
qed simp

lemma glob_compile_total: "\<exists>g. glob_compile s = Some g"
  using compile_items_total [of s] by (auto simp: glob_compile_def)

lemma parse_key_answers: "answers (parse_key key toks) (Suc (length toks))"
proof -
  have str: "answers (do { glob \<leftarrow> glob_compile s; Some (Inr (EXPR_STR key glob op, r)) }) n \<longleftrightarrow> length r < n" for s op r n
    using glob_compile_total [of s] by auto
  show ?thesis
  proof (cases toks)
    case (Cons t r)
    show ?thesis
    proof (cases "tok_to_op t")
      case (Some op)
      show ?thesis
      proof (cases r)
        case (Cons t' r')
        then show ?thesis using \<open>toks = t # r\<close> Some by (cases t') (simp_all add: parse_key_def str)
      qed (use Cons Some in \<open>simp add: parse_key_def\<close>)
    qed (use Cons in \<open>simp add: parse_key_def\<close>)
  qed (simp add: parse_key_def)
qed

lemma parse_total:
  "3 * length toks < n \<Longrightarrow> answers (parse_one n toks) (length toks)"
  "3 * length toks + 1 < n \<Longrightarrow> open_root rt \<Longrightarrow> answers (parse n rt toks level) (length toks)"
  "3 * length toks < n \<Longrightarrow> complete e \<Longrightarrow> answers (parse_next n e toks level) (Suc (length toks))"
proof (induction n arbitrary: toks rt level e)
  case (Suc n)
  {
    case 1
    have not: "answers (parse_one n r) (length r)" if "toks = TOK_NOT # r" for r using Suc(1) [of r] 1 that by simp
    have par: "answers (parse n None r 1) (length r)" if "toks = TOK_LPAREN # r" for r
      using Suc(2) [of r None 1] 1 that by (simp add: open_root_def)
    show ?case
    proof (cases toks)
      case (Cons t r)
      show ?thesis
      proof (cases t)
        case TOK_NOT
        have "answers (parse_one n r) (length r)" using not Cons TOK_NOT by blast
        then show ?thesis by (cases rule: answers_cases) (simp_all add: Cons TOK_NOT)
      next
        case TOK_LPAREN
        have "answers (parse n None r 1) (length r)" using par Cons TOK_LPAREN by blast
        then show ?thesis by (cases rule: answers_cases) (simp_all add: Cons TOK_LPAREN)
      next
        case (TOK_KEY key)
        then show ?thesis using parse_key_answers [of key r] by (simp add: Cons)
      next
        case (TOK_INT_OR_KEY key)
        then show ?thesis using parse_key_answers [of key r] by (simp add: Cons)
      qed (simp_all add: Cons)
    qed simp
  next
    case 2
    have "answers (parse_one n toks) (length toks)" using Suc(1) [of toks] 2 by simp
    then show ?case
    proof (cases rule: answers_cases)
      case (ok x r)
      obtain rt' where rt': "add rt x = Some rt'" "complete rt'" using add_open [OF 2(2) ok(2)] by blast
      have "answers (parse_next n rt' r level) (Suc (length r))" using Suc(3) [of r rt' level] ok(3) 2(1) rt'(2) by simp
      then show ?thesis by (cases rule: answers_cases) (use ok rt' in simp_all)
    qed simp
  next
    case 3
    have step: "answers (parse n (Some (Bin b (Some e) None)) r level) (length r)" if "length toks = Suc (length r)" for r b
      using Suc(2) [of r "Some (Bin b (Some e) None)" level] 3 that by (simp add: open_root_def)
    show ?case
    proof (cases toks)
      case (Cons t r)
      then have l: "length toks = Suc (length r)" by simp
      show ?thesis
      proof (cases t)
        case TOK_AND
        from step [OF l, of EXPR_AND] show ?thesis
          by (cases rule: answers_cases) (simp_all add: Cons TOK_AND add_complete(1) [OF 3(2)] del: add.simps)
      next
        case TOK_OR
        from step [OF l, of EXPR_OR] show ?thesis
          by (cases rule: answers_cases) (simp_all add: Cons TOK_OR add_complete(1) [OF 3(2)] del: add.simps)
      qed (use 3(2) Cons in simp_all)
    qed (use 3(2) in simp)
  }
qed simp_all

lemma parse_tokens_total: "\<exists>p. parse_tokens toks = Some p \<and> (\<forall>e. p = Inr e \<longrightarrow> complete e)"
proof -
  have "answers (parse (3 * length toks + 3) None toks 0) (length toks)"
    by (rule parse_total(2)) (simp_all add: open_root_def)
  then show ?thesis by (cases rule: answers_cases) (auto simp: parse_tokens_def)
qed

section \<open>What the parser parses\<close>

text \<open>
  The grammar: \<open>&\<close> and \<open>|\<close> have the same precedence and associate to the left; the right operand of either and the operand of \<open>!\<close>
  are atoms. \<open>expr_toks\<close> and \<open>atom_toks\<close> write an expression down with as few parentheses as that takes.
\<close>

datatype leaf = Str_Leaf string string bool | Int_Leaf string string op | Id_Leaf string string op | Bool_Leaf string

datatype syn = Syn_Bin bin syn syn | Syn_Not syn | Syn_Leaf leaf

fun op_tok :: "op \<Rightarrow> token" where
  "op_tok OP_LT = TOK_LT" | "op_tok OP_LE = TOK_LE" | "op_tok OP_EQ = TOK_EQ"
| "op_tok OP_GE = TOK_GE" | "op_tok OP_GT = TOK_GT" | "op_tok OP_NE = TOK_NE"

fun leaf_toks :: "leaf \<Rightarrow> token list" where
  "leaf_toks (Str_Leaf key pat ne) = [TOK_KEY key, if ne then TOK_NE else TOK_EQ, TOK_STR pat]"
| "leaf_toks (Int_Leaf key num op) = [TOK_KEY key, op_tok op, TOK_INT_OR_KEY num]"
| "leaf_toks (Id_Leaf key key' op) = [TOK_KEY key, op_tok op, TOK_KEY key']"
| "leaf_toks (Bool_Leaf key) = [TOK_KEY key]"

fun expr_toks :: "syn \<Rightarrow> token list" and atom_toks :: "syn \<Rightarrow> token list" where
  "expr_toks (Syn_Bin b l r) = expr_toks l @ (if b = EXPR_AND then TOK_AND else TOK_OR) # atom_toks r"
| "expr_toks (Syn_Not e) = TOK_NOT # atom_toks e"
| "expr_toks (Syn_Leaf l) = leaf_toks l"
| "atom_toks (Syn_Bin b l r) = TOK_LPAREN # (expr_toks l @ (if b = EXPR_AND then TOK_AND else TOK_OR) # atom_toks r) @ [TOK_RPAREN]"
| "atom_toks (Syn_Not e) = TOK_NOT # atom_toks e"
| "atom_toks (Syn_Leaf l) = leaf_toks l"

fun leaf_expr :: "leaf \<Rightarrow> expr" where
  "leaf_expr (Str_Leaf key pat ne) = EXPR_STR key (the (glob_compile pat)) (if ne then OP_NE else OP_EQ)"
| "leaf_expr (Int_Leaf key num op) = EXPR_INT key (c_int (fst (strtol num))) op"
| "leaf_expr (Id_Leaf key key' op) = EXPR_ID key key' op"
| "leaf_expr (Bool_Leaf key) = EXPR_BOOL key"

fun syn_expr :: "syn \<Rightarrow> expr" where
  "syn_expr (Syn_Bin b l r) = Bin b (Some (syn_expr l)) (Some (syn_expr r))"
| "syn_expr (Syn_Not e) = EXPR_NOT (syn_expr e)"
| "syn_expr (Syn_Leaf l) = leaf_expr l"

lemma syn_complete: "complete (syn_expr e)"
proof (induction e)
  case (Syn_Leaf l)
  then show ?case by (cases l) simp_all
qed simp_all

lemma tok_to_op_tok [simp]: "tok_to_op (op_tok op) = Some op"
  by (cases op) simp_all

text \<open>What may follow an expression.\<close>

definition stops :: "token list \<Rightarrow> bool" where
  "stops r \<longleftrightarrow> (case r of [] \<Rightarrow> True | t # _ \<Rightarrow> t \<in> {TOK_AND, TOK_OR, TOK_RPAREN})"

lemma parse_leaf: "stops r \<Longrightarrow> parse_one (Suc n) (leaf_toks l @ r) = Some (Inr (leaf_expr l, r))"
proof (cases l)
  case (Str_Leaf key pat ne)
  then show ?thesis using glob_compile_total [of pat] by (auto simp: parse_key_def)
next
  case (Int_Leaf key num op)
  then show ?thesis by (simp add: parse_key_def)
next
  case (Id_Leaf key key' op)
  then show ?thesis by (simp add: parse_key_def)
next
  case (Bool_Leaf key)
  assume "stops r"
  then show ?thesis using Bool_Leaf by (auto simp: parse_key_def stops_def split: list.splits)
qed

lemma stops_simps [simp]: "stops []" "stops (TOK_AND # r)" "stops (TOK_OR # r)" "stops (TOK_RPAREN # r)"
  by (simp_all add: stops_def)

lemma leaf_toks_length: "0 < length (leaf_toks l)"
  by (cases l) simp_all

lemma parse_syn:
  "stops r \<Longrightarrow> 3 * length (atom_toks e) \<le> n \<Longrightarrow> parse_one n (atom_toks e @ r) = Some (Inr (syn_expr e, r))"
  "(\<And>m. k \<le> m \<Longrightarrow> parse_next m (syn_expr e) r level = R) \<Longrightarrow> stops r \<Longrightarrow> k + 3 * length (expr_toks e) + 1 \<le> m \<Longrightarrow>
     parse m None (expr_toks e @ r) level = R"
proof (induction e arbitrary: r n k m R level)
  case (Syn_Leaf l)
  { case 1
    then obtain n' where "n = Suc n'" using leaf_toks_length [of l] by (cases n) auto
    then show ?case using parse_leaf [OF 1(1), of n' l] by simp
  next
    case 2
    then have "2 \<le> m" using leaf_toks_length [of l] by (simp only: expr_toks.simps)
    then obtain m' where m: "m = Suc (Suc m')" by (metis Suc_le_D numeral_2_eq_2 Suc_le_mono)
    then show ?case using parse_leaf [OF 2(2), of m' l] 2(1) [of "Suc m'"] 2(3) by simp
  }
next
  case (Syn_Not e)
  { case 1
    then obtain n' where "n = Suc n'" by (cases n) auto
    then show ?case using Syn_Not(1) [OF 1(1), of n'] 1(2) by simp
  next
    case 2
    then have "2 \<le> m" by simp
    then obtain m' where m: "m = Suc (Suc m')" by (metis Suc_le_D numeral_2_eq_2 Suc_le_mono)
    then show ?case using Syn_Not(1) [OF 2(2), of m'] 2(1) [of "Suc m'"] 2(3) by simp
  }
next
  case (Syn_Bin b l r')
  have bin: "parse m None (expr_toks (Syn_Bin b l r') @ r) level = R"
    if k: "\<And>m. k \<le> m \<Longrightarrow> parse_next m (syn_expr (Syn_Bin b l r')) r level = R" and r: "stops r"
      and m: "k + 3 * length (expr_toks (Syn_Bin b l r')) + 1 \<le> m" for k m r level R
  proof -
    define t where "t = (if b = EXPR_AND then TOK_AND else TOK_OR)"
    have "parse_next m' (syn_expr l) (t # atom_toks r' @ r) level = R" if m': "k + 3 * length (atom_toks r') + 2 \<le> m'" for m'
    proof -
      obtain q where q: "m' = Suc (Suc q)" using m' by (metis Suc_le_D add_2_eq_Suc' Suc_le_mono)
      have "parse_one q (atom_toks r' @ r) = Some (Inr (syn_expr r', r))" using Syn_Bin(3) [OF r] m' q by simp
      then have "parse (Suc q) (Some (Bin b (Some (syn_expr l)) None)) (atom_toks r' @ r) level = R"
        using k [of q] m' q by (simp add: add_complete(2) del: add.simps)
      then show ?thesis
        unfolding q t_def by (cases b) (simp_all add: add_complete(1) [OF syn_complete] del: add.simps parse.simps)
    qed
    then have "parse m None (expr_toks l @ t # atom_toks r' @ r) level = R"
      by (rule Syn_Bin(2) [where k = "k + 3 * length (atom_toks r') + 2"]) (use m in \<open>simp_all add: t_def\<close>)
    then show ?thesis by (simp add: t_def)
  qed
  { case 1
    then obtain n' where n: "n = Suc n'" by (cases n) auto
    have "parse n' None (expr_toks (Syn_Bin b l r') @ TOK_RPAREN # r) 1 = Some (Inr (syn_expr (Syn_Bin b l r'), r))"
    proof (rule bin [where k = 1])
      show "parse_next m (syn_expr (Syn_Bin b l r')) (TOK_RPAREN # r) 1 = Some (Inr (syn_expr (Syn_Bin b l r'), r))" if "1 \<le> m" for m
        using that by (cases m) simp_all
    qed (use 1 n in simp_all)
    then show ?case by (simp add: n)
  next
    case 2
    then show ?case using bin by blast
  }
qed

lemma parse_tokens_syn: "parse_tokens (expr_toks e) = Some (Inr (syn_expr e))"
proof -
  have "parse (3 * length (expr_toks e) + 3) None (expr_toks e @ []) 0 = Some (Inr (syn_expr e, []))"
  proof (rule parse_syn(2) [where k = 1])
    show "parse_next m (syn_expr e) [] 0 = Some (Inr (syn_expr e, []))" if "1 \<le> m" for m
      using that by (cases m) simp_all
  qed simp_all
  then show ?thesis by (simp add: parse_tokens_def)
qed

section \<open>Writing tokens down\<close>

fun show_tok :: "token \<Rightarrow> string" where
  "show_tok TOK_NOT = ''!''" | "show_tok TOK_LT = ''<''" | "show_tok TOK_GT = ''>''" | "show_tok TOK_EQ = ''=''"
| "show_tok TOK_AND = ''&''" | "show_tok TOK_OR = ''|''" | "show_tok TOK_LPAREN = ''(''" | "show_tok TOK_RPAREN = '')''"
| "show_tok TOK_NE = ''!=''" | "show_tok TOK_LE = ''<=''" | "show_tok TOK_GE = ''>=''"
| "show_tok (TOK_KEY s) = s" | "show_tok (TOK_INT_OR_KEY s) = s" | "show_tok (TOK_STR s) = CHR 0x22 # s @ [CHR 0x22]"

definition show_toks :: "token list \<Rightarrow> string" where
  "show_toks toks = concat (map (\<lambda>t. show_tok t @ '' '') toks)"

text \<open>Texts that make a key, a number and the inside of a string literal.\<close>

definition key_char :: "char \<Rightarrow> bool" where
  "key_char c \<longleftrightarrow> c_isdigit c \<or> c_isalpha c \<or> c = CHR ''_'' \<or> c = CHR ''-''"

definition after_sign :: "string \<Rightarrow> string" where
  "after_sign s = (if s \<noteq> [] \<and> hd s = CHR ''-'' then tl s else s)"

definition num_ok :: "string \<Rightarrow> bool" where
  "num_ok s \<longleftrightarrow> s \<noteq> [] \<and> list_all c_isdigit (after_sign s)"

definition key_ok :: "string \<Rightarrow> bool" where
  "key_ok s \<longleftrightarrow> list_all key_char s \<and> \<not> list_all c_isdigit (after_sign s)"

fun str_ok :: "string \<Rightarrow> bool" where
  "str_ok [] \<longleftrightarrow> True"
| "str_ok [c] \<longleftrightarrow> c \<noteq> CHR 0x22 \<and> c \<noteq> CHR 0x5C"
| "str_ok (c # d # r) \<longleftrightarrow> (if c = CHR 0x5C then str_ok r else c \<noteq> CHR 0x22 \<and> str_ok (d # r))"

fun tok_ok :: "token \<Rightarrow> bool" where
  "tok_ok (TOK_KEY s) \<longleftrightarrow> key_ok s"
| "tok_ok (TOK_INT_OR_KEY s) \<longleftrightarrow> num_ok s"
| "tok_ok (TOK_STR s) \<longleftrightarrow> str_ok s"
| "tok_ok _ \<longleftrightarrow> True"

lemma digit_key_char: "c_isdigit c \<Longrightarrow> key_char c"
  by (simp add: key_char_def)

lemma key_char_plain:
  assumes "key_char c"
  shows "\<not> c_isspace c" "c \<notin> fst ` set specials" "c \<noteq> CHR 0x22"
  using assms
  by (auto simp: key_char_def c_isdigit_def c_isalpha_def c_isspace_def specials_def less_eq_char_def)

lemma get_str_ok: "str_ok s \<Longrightarrow> get_str (s @ CHR 0x22 # r) = Inr (TOK_STR s, r)"
proof (induction s rule: str_ok.induct)
  case (3 c d s)
  then show ?case by (auto split: if_splits)
qed (cases r; simp)+

lemma key_loop_ok: "list_all key_char k \<Longrightarrow> key_loop (k @ CHR '' '' # r) = Inr (k, list_all c_isdigit k, CHR '' '' # r)"
proof (induction k)
  case Nil
  show ?case by (simp add: c_isspace_def)
next
  case (Cons c k)
  then show ?case using key_char_plain [of c] by (auto simp: key_char_def)
qed

lemma get_int_or_key_ok:
  assumes "s \<noteq> []" "list_all key_char s"
  shows "get_int_or_key (s @ CHR '' '' # r) =
    Inr (if list_all c_isdigit (after_sign s) then TOK_INT_OR_KEY s else TOK_KEY s, CHR '' '' # r)"
proof -
  obtain c k where s: "s = c # k" using assms(1) by (cases s) auto
  show ?thesis
    using key_loop_ok [of k r] key_loop_ok [of s r] assms(2) by (auto simp: get_int_or_key_def after_sign_def s)
qed

lemma get_token_show:
  assumes "tok_ok t"
  shows "get_token (show_tok t @ CHR '' '' # r) = Inr (t, CHR '' '' # r) \<and> show_tok t \<noteq> [] \<and> \<not> c_isspace (hd (show_tok t))"
proof -
  have word: "get_token (s @ CHR '' '' # r) = get_int_or_key (s @ CHR '' '' # r) \<and> \<not> c_isspace (hd s)"
    if ne: "s \<noteq> []" and lk: "list_all key_char s" for s
  proof -
    obtain c k where s: "s = c # k" using ne by (cases s) auto
    then have "map_of specials c = None" using key_char_plain(2) [of c] lk by (simp add: map_of_eq_None_iff)
    then show ?thesis using key_char_plain [of c] lk by (simp add: get_token_def s)
  qed
  show ?thesis
  proof (cases t)
    case (TOK_KEY s)
    then have "s \<noteq> []" "list_all key_char s" "\<not> list_all c_isdigit (after_sign s)" using assms by (auto simp: key_ok_def after_sign_def)
    then show ?thesis using word get_int_or_key_ok by (simp add: TOK_KEY)
  next
    case (TOK_INT_OR_KEY s)
    then have "s \<noteq> []" "list_all c_isdigit (after_sign s)" using assms by (auto simp: num_ok_def)
    moreover then have "list_all key_char s"
      by (cases s) (auto simp: after_sign_def list_all_iff digit_key_char key_char_def split: if_splits)
    ultimately show ?thesis using word get_int_or_key_ok by (simp add: TOK_INT_OR_KEY)
  next
    case (TOK_STR s)
    then show ?thesis using get_str_ok [of s "CHR '' '' # r"] assms
      by (simp add: get_token_def specials_def c_isspace_def less_eq_char_def)
  qed (simp_all add: get_token_def specials_def c_isspace_def less_eq_char_def)
qed

lemma tokenize_space: "tokenize (CHR '' '' # r) = tokenize r"
  by (subst (1 2) tokenize.simps) (simp add: c_isspace_def)

lemma tokenize_show: "list_all tok_ok toks \<Longrightarrow> tokenize (show_toks toks) = Inr toks"
proof (induction toks)
  case Nil
  show ?case by (simp add: show_toks_def tokenize.simps)
next
  case (Cons t toks)
  let ?r = "show_toks toks"
  have sh: "show_toks (t # toks) = show_tok t @ CHR '' '' # ?r" by (simp add: show_toks_def)
  have g: "get_token (show_tok t @ CHR '' '' # ?r) = Inr (t, CHR '' '' # ?r)" "show_tok t \<noteq> []" "\<not> c_isspace (hd (show_tok t))"
    using get_token_show [of t ?r] Cons(2) by simp_all
  have "dropWhile c_isspace (show_tok t @ CHR '' '' # ?r) = show_tok t @ CHR '' '' # ?r"
    using g(2,3) by (cases "show_tok t") auto
  then show ?case using Cons g unfolding sh by (subst tokenize.simps) (simp add: tokenize_space)
qed

end
