(* ===== verification/Short_Expr.thy ===== *)
theory Short_Expr
  imports Expr
begin

text \<open>
  The short form of filter expressions and \<open>expr_parse\<close>, in \<^verbatim>\<open>src/app/expr.c\<close>. A short expression is expanded into a buffer
  of seven times its length by an automaton with a stack of states; \<open>None\<close> is a write past that buffer or past the digits'
  buffer, a pop of an empty stack or a failed \<open>BUG\<close>.
\<close>

section \<open>Short expressions\<close>

definition map_short2long :: "(char \<times> string) list" where
  "map_short2long =
     [(CHR ''A'', ''albumartist''), (CHR ''D'', ''discnumber''), (CHR ''T'', ''tag''), (CHR ''a'', ''artist''),
      (CHR ''c'', ''comment''), (CHR ''d'', ''duration''), (CHR ''f'', ''filename''), (CHR ''g'', ''genre''),
      (CHR ''l'', ''album''), (CHR ''n'', ''tracknumber''), (CHR ''X'', ''play_count''), (CHR ''s'', ''stream''),
      (CHR ''t'', ''title''), (CHR ''y'', ''date'')]"

text \<open>The types of leaves, as far as the table of keys names them.\<close>

datatype key_type = KEY_STR | KEY_INT | KEY_ID | KEY_BOOL

definition builtin :: "(string \<times> key_type) list" where
  "builtin =
     [(''album'', KEY_STR), (''albumartist'', KEY_STR), (''artist'', KEY_STR), (''bitrate'', KEY_INT), (''bpm'', KEY_INT),
      (''codec'', KEY_STR), (''codec_profile'', KEY_STR), (''comment'', KEY_STR), (''date'', KEY_INT), (''discnumber'', KEY_INT),
      (''duration'', KEY_INT), (''filename'', KEY_STR), (''genre'', KEY_STR), (''media'', KEY_STR), (''originaldate'', KEY_INT),
      (''play_count'', KEY_INT), (''stream'', KEY_BOOL), (''tag'', KEY_BOOL), (''title'', KEY_STR), (''tracknumber'', KEY_INT)]"

definition lookup_long_key :: "char \<Rightarrow> string option" where
  "lookup_long_key c = map_of map_short2long c"

text \<open>The search through the sorted table.\<close>

fun key_type_loop :: "(string \<times> key_type) list \<Rightarrow> string \<Rightarrow> key_type option" where
  "key_type_loop [] key = None"
| "key_type_loop ((k, t) # r) key =
     (let cmp = strcmp key k in if cmp = 0 then Some t else if cmp < 0 then None else key_type_loop r key)"

definition lookup_key_type :: "string \<Rightarrow> key_type option" where
  "lookup_key_type key = key_type_loop builtin key"

datatype state_type = ST_SKIP_SPACE | ST_TOP | ST_EXPECT_KEY | ST_EXPECT_OP | ST_EXPECT_INT | ST_IN_INT | ST_MEM_INT
  | ST_IN_2ND_INT | ST_EXPECT_STR | ST_IN_QUOTE_STR | ST_IN_STR

text \<open>
  The state of \<open>expand_short_expr\<close>: the bytes of \<open>out\<close> and \<open>num\<close> so far, \<open>key\<close>, \<open>level\<close> and the stack of states. The 16 slots
  of the stack are enough, see \<open>stack_bounded\<close>.
\<close>

record short =
  sh_out :: string
  sh_num :: string
  sh_key :: string
  sh_level :: int
  sh_stack :: "state_type list"

definition push :: "state_type \<Rightarrow> short \<Rightarrow> short" where
  "push e s = s\<lparr>sh_stack := e # sh_stack s\<rparr>"

definition pop :: "short \<Rightarrow> short" where
  "pop s = s\<lparr>sh_stack := tl (sh_stack s)\<rparr>"

definition replace_top :: "state_type \<Rightarrow> short \<Rightarrow> short" where
  "replace_top e s = s\<lparr>sh_stack := e # tl (sh_stack s)\<rparr>"

text \<open>Writes to \<open>out\<close>, which has \<open>cap\<close> bytes: single bytes, and \<open>strcpy\<close>, which stores a terminator as well.\<close>

definition put :: "nat \<Rightarrow> string \<Rightarrow> short \<Rightarrow> short option" where
  "put cap cs s = (if length (sh_out s) + length cs \<le> cap then Some (s\<lparr>sh_out := sh_out s @ cs\<rparr>) else None)"

definition put_str :: "nat \<Rightarrow> string \<Rightarrow> short \<Rightarrow> short option" where
  "put_str cap cs s = (if length (sh_out s) + length cs + 1 \<le> cap then Some (s\<lparr>sh_out := sh_out s @ cs\<rparr>) else None)"

text \<open>A digit stored in \<open>num\<close>, which has \<open>len\<close> bytes.\<close>

definition put_num :: "nat \<Rightarrow> char \<Rightarrow> short \<Rightarrow> short option" where
  "put_num len c s = (if length (sh_num s) < len then Some (s\<lparr>sh_num := sh_num s @ [c]\<rparr>) else None)"

text \<open>A step reports whether the character is used up, or the error; \<open>prev\<close> is the character before it.\<close>

type_synonym short_step = "(string + bool \<times> short) option"

definition used :: "short option \<Rightarrow> short_step" where
  "used s = map_option (\<lambda>s. Inr (True, s)) s"

definition again :: "short option \<Rightarrow> short_step" where
  "again s = map_option (\<lambda>s. Inr (False, s)) s"

definition top_step :: "nat \<Rightarrow> char \<Rightarrow> short \<Rightarrow> short_step" where
  "top_step cap c s =
     (if c = CHR ''~'' then used (Some (push ST_EXPECT_KEY (push ST_SKIP_SPACE (push ST_EXPECT_OP s))))
      else if c = CHR ''(''
      then used (map_option (push ST_SKIP_SPACE) (put cap [c] (s\<lparr>sh_level := sh_level s + 1\<rparr>)))
      else if c = CHR ''!'' \<or> c = CHR ''|'' then used (map_option (push ST_SKIP_SPACE) (put cap [c] s))
      else if c = CHR '')''
      then used (map_option (\<lambda>s. push ST_SKIP_SPACE (push ST_EXPECT_OP s)) (put cap [c] (s\<lparr>sh_level := sh_level s - 1\<rparr>)))
      else if c = CHR 0x00
      then if sh_level s > 0 then Some (Inl ([CHR 0x27, CHR '')'', CHR 0x27] @ '' expected'')) else used (put cap [c] s)
      else Some (Inl (''unexpected '' @ [CHR 0x27, c, CHR 0x27])))"

definition key_step :: "nat \<Rightarrow> char \<Rightarrow> short \<Rightarrow> short_step" where
  "key_step cap c s =
     (case lookup_long_key c of
        None \<Rightarrow> Some (Inl (''unknown short key '' @ [c]))
      | Some key \<Rightarrow>
          used (do { s \<leftarrow> (case lookup_key_type key of
                             Some KEY_INT \<Rightarrow> put cap ''('' (push ST_EXPECT_INT (pop s))
                           | Some KEY_STR \<Rightarrow> Some (push ST_EXPECT_STR (pop s))
                           | Some KEY_BOOL \<Rightarrow> Some (pop s)
                           | _ \<Rightarrow> None);
                     s \<leftarrow> put_str cap key (s\<lparr>sh_key := key\<rparr>);
                     Some (push ST_SKIP_SPACE s) }))"

definition mem_int_step :: "nat \<Rightarrow> nat \<Rightarrow> char \<Rightarrow> short \<Rightarrow> short_step" where
  "mem_int_step cap len c s =
     (if c_isdigit c then used (put_num len c s)
      else if c = CHR ''-''
      then used (do { s \<leftarrow> put cap ''>='' (replace_top ST_IN_2ND_INT s);
                      s \<leftarrow> put cap (sh_num s) s;
                      Some (s\<lparr>sh_num := []\<rparr>) })
      else again (do { s \<leftarrow> put cap ''='' (pop s);
                       s \<leftarrow> put cap (sh_num s) s;
                       put cap '')'' (s\<lparr>sh_num := []\<rparr>) }))"

definition second_int_step :: "nat \<Rightarrow> nat \<Rightarrow> char \<Rightarrow> short \<Rightarrow> short_step" where
  "second_int_step cap len c s =
     (if c_isdigit c then used (put_num len c s)
      else again (do { s \<leftarrow> (if sh_num s \<noteq> []
                              then do { s \<leftarrow> put cap ''&'' (pop s);
                                        s \<leftarrow> put_str cap (sh_key s) s;
                                        put cap (''<='' @ sh_num s) s }
                              else Some (pop s));
                       put cap '')'' s }))"

definition str_step :: "nat \<Rightarrow> char \<Rightarrow> short \<Rightarrow> short_step" where
  "str_step cap c s =
     (if c \<notin> {CHR ''~'', CHR ''!'', CHR ''|'', CHR ''('', CHR '')'', CHR 0x00} then used (put cap [c] s)
      else again (map_option pop (put cap (''*'' @ [CHR 0x22])
             (s\<lparr>sh_out := rev (dropWhile (\<lambda>c. c = CHR '' '') (rev (sh_out s)))\<rparr>))))"

definition short_step :: "nat \<Rightarrow> nat \<Rightarrow> char \<Rightarrow> char \<Rightarrow> short \<Rightarrow> short_step" where
  "short_step cap len prev c s =
     (case sh_stack s of
        [] \<Rightarrow> None
      | ST_SKIP_SPACE # _ \<Rightarrow> if c \<noteq> CHR '' '' then again (Some (pop s)) else used (Some s)
      | ST_TOP # _ \<Rightarrow> top_step cap c s
      | ST_EXPECT_KEY # _ \<Rightarrow> key_step cap c s
      | ST_EXPECT_OP # _ \<Rightarrow>
          again (map_option (replace_top ST_SKIP_SPACE)
            (if c = CHR ''~'' \<or> c = CHR ''('' \<or> c = CHR ''!'' then put cap ''&'' s else Some s))
      | ST_EXPECT_INT # _ \<Rightarrow>
          if c = CHR ''<'' \<or> c = CHR ''>'' then used (map_option (replace_top ST_IN_INT) (put cap [c] s))
          else if c = CHR ''-'' then used (map_option (replace_top ST_IN_INT) (put cap ''<='' s))
          else if c_isdigit c then used (map_option (replace_top ST_MEM_INT) (put_num len c s))
          else Some (Inl ''integer expected'')
      | ST_IN_INT # _ \<Rightarrow> if c_isdigit c then used (put cap [c] s) else again (put cap '')'' (pop s))
      | ST_MEM_INT # _ \<Rightarrow> mem_int_step cap len c s
      | ST_IN_2ND_INT # _ \<Rightarrow> second_int_step cap len c s
      | ST_EXPECT_STR # _ \<Rightarrow>
          if c = CHR 0x22 then used (map_option (replace_top ST_IN_QUOTE_STR) (put cap [CHR ''='', c] s))
          else used (map_option (replace_top ST_IN_STR) (put cap (''='' @ [CHR 0x22] @ ''*'' @ [c]) s))
      | ST_IN_QUOTE_STR # _ \<Rightarrow>
          used (put cap [c] (if c = CHR 0x22 \<and> prev \<noteq> CHR 0x5C then pop s else s))
      | ST_IN_STR # _ \<Rightarrow> str_step cap c s)"

text \<open>A step that does not use up its character takes something off the stack.\<close>

definition weight :: "short \<Rightarrow> nat" where
  "weight s = sum_list (map (\<lambda>e. if e = ST_EXPECT_OP then 2 else 1) (sh_stack s))"

lemma used_again [simp]:
  "used x = Some (Inr (b, s)) \<longleftrightarrow> b \<and> x = Some s" "again x = Some (Inr (b, s)) \<longleftrightarrow> \<not> b \<and> x = Some s"
  "used x \<noteq> Some (Inl e)" "again x \<noteq> Some (Inl e)" "used x = None \<longleftrightarrow> x = None" "again x = None \<longleftrightarrow> x = None"
  by (auto simp: used_def again_def)

lemma put_stack [simp]:
  "put cap cs s = Some s' \<Longrightarrow> sh_stack s' = sh_stack s" "put_str cap cs s = Some s' \<Longrightarrow> sh_stack s' = sh_stack s"
  "put_num cap c s = Some s' \<Longrightarrow> sh_stack s' = sh_stack s"
  by (auto simp: put_def put_str_def put_num_def split: if_splits)

lemma again_pops:
  assumes "short_step cap len prev c s = Some (Inr (False, s'))"
  shows "weight s' < weight s"
proof -
  obtain e es where st: "sh_stack s = e # es" using assms by (cases "sh_stack s") (auto simp: short_step_def)
  have "sh_stack s' = es \<or> e = ST_EXPECT_OP \<and> sh_stack s' = ST_SKIP_SPACE # es"
  proof (cases e)
    case ST_TOP
    then show ?thesis using assms by (auto simp: short_step_def st top_step_def split: if_splits)
  next
    case ST_EXPECT_KEY
    then show ?thesis using assms by (auto simp: short_step_def st key_step_def split: option.splits)
  next
    case ST_MEM_INT
    then show ?thesis using assms
      by (auto simp: short_step_def st mem_int_step_def pop_def bind_eq_Some_conv dest!: put_stack split: if_splits)
  next
    case ST_IN_2ND_INT
    then show ?thesis using assms
      by (auto simp: short_step_def st second_int_step_def pop_def bind_eq_Some_conv dest!: put_stack split: if_splits)
  next
    case ST_IN_STR
    then show ?thesis using assms
      by (auto simp: short_step_def st str_step_def pop_def dest!: put_stack split: if_splits)
  next
    case ST_EXPECT_OP
    then show ?thesis using assms
      by (auto simp: short_step_def st replace_top_def dest!: put_stack split: if_splits)
  qed (use assms in \<open>auto simp: short_step_def st pop_def dest!: put_stack split: if_splits\<close>)
  then show ?thesis by (auto simp: weight_def st)
qed

text \<open>The loop over the characters and the terminator; a character that is not used up is seen again.\<close>

function short_loop :: "nat \<Rightarrow> nat \<Rightarrow> char \<Rightarrow> string \<Rightarrow> short \<Rightarrow> (string + short) option" where
  "short_loop cap len prev [] s = Some (Inr s)"
| "short_loop cap len prev (c # r) s =
     (case short_step cap len prev c s of
        None \<Rightarrow> None
      | Some (Inl e) \<Rightarrow> Some (Inl e)
      | Some (Inr (fed, s)) \<Rightarrow> if fed then short_loop cap len c r s else short_loop cap len prev (c # r) s)"
  by pat_completeness auto
termination
  by (relation "measures [\<lambda>(_, _, _, cs, _). length cs, \<lambda>(_, _, _, _, s). weight s]") (auto dest: again_pops)

definition expand_short_expr :: "string \<Rightarrow> (string + string) option" where
  "expand_short_expr expr_short =
     (let len = length expr_short
      in map_option (map_sum id (\<lambda>s. takeWhile (\<lambda>c. c \<noteq> CHR 0x00) (sh_out s)))
           (short_loop (len * 7) len (CHR 0x00) (expr_short @ [CHR 0x00])
             \<lparr>sh_out = [], sh_num = [], sh_key = [], sh_level = 0, sh_stack = [ST_SKIP_SPACE, ST_TOP]\<rparr>))"

definition expr_is_short :: "string \<Rightarrow> bool" where
  "expr_is_short str =
     (case dropWhile (\<lambda>c. c = CHR ''!'' \<or> c = CHR ''('' \<or> c = CHR '' '') str of [] \<Rightarrow> False | c # _ \<Rightarrow> c = CHR ''~'')"

text \<open>The stacks that occur have at most five states. A step replaces the top of the stack by one of \<open>tops e\<close>.\<close>

fun tops :: "state_type \<Rightarrow> state_type list list" where
  "tops ST_SKIP_SPACE = [[], [ST_SKIP_SPACE]]"
| "tops ST_TOP = [[ST_EXPECT_KEY, ST_SKIP_SPACE, ST_EXPECT_OP, ST_TOP], [ST_SKIP_SPACE, ST_TOP],
     [ST_SKIP_SPACE, ST_EXPECT_OP, ST_TOP], [ST_TOP]]"
| "tops ST_EXPECT_KEY = [[ST_SKIP_SPACE, ST_EXPECT_INT], [ST_SKIP_SPACE, ST_EXPECT_STR], [ST_SKIP_SPACE]]"
| "tops ST_EXPECT_OP = [[ST_SKIP_SPACE]]"
| "tops ST_EXPECT_INT = [[ST_IN_INT], [ST_MEM_INT]]"
| "tops ST_IN_INT = [[ST_IN_INT], []]"
| "tops ST_MEM_INT = [[ST_MEM_INT], [ST_IN_2ND_INT], []]"
| "tops ST_IN_2ND_INT = [[ST_IN_2ND_INT], []]"
| "tops ST_EXPECT_STR = [[ST_IN_QUOTE_STR], [ST_IN_STR]]"
| "tops ST_IN_QUOTE_STR = [[ST_IN_QUOTE_STR], []]"
| "tops ST_IN_STR = [[ST_IN_STR], []]"

lemma stack_simps [simp]:
  "sh_stack (push e s) = e # sh_stack s" "sh_stack (pop s) = tl (sh_stack s)" "sh_stack (replace_top e s) = e # tl (sh_stack s)"
  by (simp_all add: push_def pop_def replace_top_def)

lemma step_tops:
  assumes "short_step cap len prev c s = Some (Inr (b, s'))" "sh_stack s = e # es"
  shows "\<exists>t\<in>set (tops e). sh_stack s' = t @ es"
proof (cases e)
  case ST_TOP
  then show ?thesis using assms by (auto simp: short_step_def top_step_def dest!: put_stack split: if_splits)
next
  case ST_EXPECT_KEY
  then show ?thesis using assms
    by (auto simp: short_step_def key_step_def bind_eq_Some_conv dest!: put_stack split: option.splits key_type.splits)
next
  case ST_MEM_INT
  then show ?thesis using assms
    by (auto simp: short_step_def mem_int_step_def bind_eq_Some_conv dest!: put_stack split: if_splits)
next
  case ST_IN_2ND_INT
  then show ?thesis using assms
    by (auto simp: short_step_def second_int_step_def bind_eq_Some_conv dest!: put_stack split: if_splits)
next
  case ST_IN_STR
  then show ?thesis using assms by (auto simp: short_step_def str_step_def dest!: put_stack split: if_splits)
qed (use assms in \<open>auto simp: short_step_def dest!: put_stack split: if_splits\<close>)

definition stack_ok :: "state_type list \<Rightarrow> bool" where
  "stack_ok st \<longleftrightarrow> st \<in> set ([[ST_TOP], [ST_SKIP_SPACE, ST_TOP], [ST_EXPECT_OP, ST_TOP], [ST_SKIP_SPACE, ST_EXPECT_OP, ST_TOP],
       [ST_EXPECT_KEY, ST_SKIP_SPACE, ST_EXPECT_OP, ST_TOP], [ST_SKIP_SPACE, ST_SKIP_SPACE, ST_EXPECT_OP, ST_TOP]] @
     concat (map (\<lambda>x. [[x, ST_SKIP_SPACE, ST_EXPECT_OP, ST_TOP], [ST_SKIP_SPACE, x, ST_SKIP_SPACE, ST_EXPECT_OP, ST_TOP]])
       [ST_EXPECT_INT, ST_IN_INT, ST_MEM_INT, ST_IN_2ND_INT, ST_EXPECT_STR, ST_IN_QUOTE_STR, ST_IN_STR]))"

lemma stack_bounded: "stack_ok st \<Longrightarrow> length st \<le> 5"
  by (auto simp: stack_ok_def)

lemma stack_tops: "stack_ok (e # es) \<Longrightarrow> t \<in> set (tops e) \<Longrightarrow> stack_ok (t @ es)"
  unfolding stack_ok_def by (cases e) (simp; elim disjE conjE; simp)+

lemma stack_step:
  assumes "stack_ok (sh_stack s)" "short_step cap len prev c s = Some (Inr (b, s'))"
  shows "stack_ok (sh_stack s')"
proof (cases "sh_stack s")
  case (Cons e es)
  then show ?thesis using step_tops [OF assms(2) Cons] stack_tops [of e es] assms(1) by auto
qed (use assms(2) in \<open>simp add: short_step_def\<close>)

lemma short_examples:
  "expand_short_expr ''~n1-2'' = Some (Inr ''(tracknumber>=1&tracknumber<=2)'')"
  "expand_short_expr ''~d<60 ~s'' = Some (Inr ''(duration<60)&stream'')"
  by code_simp+

section \<open>Parsing a string\<close>

text \<open>\<open>to_utf8\<close> is the conversion from the locale's character set, without a result when strings are UTF-8 already.\<close>

definition expr_parse_i :: "(string \<Rightarrow> string option) \<Rightarrow> string \<Rightarrow> string \<Rightarrow> bool \<Rightarrow> expr parsed" where
  "expr_parse_i to_utf8 str err_msg check_short =
     (if \<exists>c\<in>set str. c < CHR 0x20 then Some (Inl err_msg)
      else let str = (case to_utf8 str of Some s \<Rightarrow> s | None \<Rightarrow> str)
        in do { valid \<leftarrow> u_is_valid str;
                if \<not> valid then Some (Inl ''invalid UTF-8'')
                else do { long \<leftarrow> (if check_short \<and> expr_is_short str then expand_short_expr str else Some (Inr str));
                          case long of Inl e \<Rightarrow> Some (Inl e)
                          | Inr str \<Rightarrow> (case tokenize str of Inl e \<Rightarrow> Some (Inl e) | Inr toks \<Rightarrow> parse_tokens toks) } })"

definition expr_parse :: "(string \<Rightarrow> string option) \<Rightarrow> string \<Rightarrow> expr parsed" where
  "expr_parse to_utf8 str = expr_parse_i to_utf8 str ''filter contains control characters'' True"


section \<open>Parsing back what was written\<close>

lemma toks_start:
  "\<exists>pre k r. expr_toks e = pre @ TOK_KEY k # r \<and> set pre \<subseteq> {TOK_NOT, TOK_LPAREN}"
  "\<exists>pre k r. atom_toks e = pre @ TOK_KEY k # r \<and> set pre \<subseteq> {TOK_NOT, TOK_LPAREN}"
proof (induction e)
  case (Syn_Bin b l r)
  case 1
  obtain pre k r' where e: "expr_toks l = pre @ TOK_KEY k # r'" "set pre \<subseteq> {TOK_NOT, TOK_LPAREN}" using Syn_Bin(1) by blast
  then show ?case by (intro exI [of _ pre]) simp
  case 2
  show ?case using e by (intro exI [of _ "TOK_LPAREN # pre"]) auto
next
  case (Syn_Not e)
  obtain pre k r' where e: "atom_toks e = pre @ TOK_KEY k # r'" "set pre \<subseteq> {TOK_NOT, TOK_LPAREN}" using Syn_Not(2) by blast
  case 1
  then show ?case using e by (intro exI [of _ "TOK_NOT # pre"]) auto
  case 2
  then show ?case using e by (intro exI [of _ "TOK_NOT # pre"]) auto
next
  case (Syn_Leaf l)
  have "\<exists>pre k r. leaf_toks l = pre @ TOK_KEY k # r \<and> set pre \<subseteq> {TOK_NOT, TOK_LPAREN}"
    by (cases l) (auto intro: exI [of _ "[]"])
  then show "\<exists>pre k r. expr_toks (Syn_Leaf l) = pre @ TOK_KEY k # r \<and> set pre \<subseteq> {TOK_NOT, TOK_LPAREN}"
    "\<exists>pre k r. atom_toks (Syn_Leaf l) = pre @ TOK_KEY k # r \<and> set pre \<subseteq> {TOK_NOT, TOK_LPAREN}" by simp_all
qed

lemma not_short_prefix:
  assumes "set pre \<subseteq> {TOK_NOT, TOK_LPAREN}" "key_ok k"
  shows "\<not> expr_is_short (show_toks (pre @ TOK_KEY k # r))"
  using assms(1)
proof (induction pre)
  case Nil
  obtain c k' where k: "k = c # k'" using assms(2) by (cases k) (auto simp: key_ok_def after_sign_def)
  then have c: "key_char c" using assms(2) by (simp add: key_ok_def)
  have "\<not> key_char (CHR ''~'')" by (simp add: key_char_def c_isdigit_def c_isalpha_def less_eq_char_def)
  then have "c \<noteq> CHR ''~''" using c by blast
  then show ?case using key_char_plain [OF c]
    by (simp add: k expr_is_short_def show_toks_def c_isspace_def specials_def)
qed (auto simp: expr_is_short_def show_toks_def)

lemma written_not_short:
  assumes "list_all tok_ok (expr_toks e)"
  shows "\<not> expr_is_short (show_toks (expr_toks e))"
proof -
  obtain pre k r where e: "expr_toks e = pre @ TOK_KEY k # r" "set pre \<subseteq> {TOK_NOT, TOK_LPAREN}" using toks_start(1) by blast
  then show ?thesis using assms not_short_prefix by simp
qed

lemma sum_case_ok:
  "(case x of Inl e \<Rightarrow> Some (Inl e) | Inr y \<Rightarrow> f y) = Some (Inr z) \<longleftrightarrow> (\<exists>y. x = Inr y \<and> f y = Some (Inr z))"
  by (cases x) simp_all

lemma parsed_complete:
  assumes "expr_parse to_utf8 str = Some (Inr e)"
  shows "complete e"
proof -
  have "\<exists>toks. parse_tokens toks = Some (Inr e)"
    using assms unfolding expr_parse_def expr_parse_i_def Let_def
    by (simp add: bind_eq_Some_conv sum_case_ok split: if_split_asm) blast+
  then obtain toks where "parse_tokens toks = Some (Inr e)" by blast
  then show ?thesis using parse_tokens_total [of toks] by auto
qed

section \<open>Properties\<close>

text \<open>
  C20. Written down as text, with as few parentheses as the grammar allows and a space behind each token, an expression is
  parsed back to itself: the tokenizer, the short form's test, the precedence of the operators and the tree that is built
  in place agree with the grammar.
\<close>

theorem expr_parse_roundtrip:
  assumes "list_all tok_ok (expr_toks e)" and "u_is_valid (show_toks (expr_toks e)) = Some True"
    and "\<forall>c\<in>set (show_toks (expr_toks e)). \<not> c < CHR 0x20"
  shows "expr_parse (\<lambda>_. None) (show_toks (expr_toks e)) = Some (Inr (syn_expr e))"
  using assms written_not_short [OF assms(1)] parse_tokens_syn [of e] tokenize_show [OF assms(1)]
  by (simp add: expr_parse_def expr_parse_i_def)

theorem expr_parse_roundtrip_witness:
  "\<exists>e. expr_parse (\<lambda>_. None) ''date >= 1990 & ( artist = \"A*\" | ! stream ) '' = Some (Inr e) \<and> complete e"
proof -
  let ?e = "Syn_Bin EXPR_AND (Syn_Leaf (Int_Leaf ''date'' ''1990'' OP_GE))
     (Syn_Bin EXPR_OR (Syn_Leaf (Str_Leaf ''artist'' ''A*'' False)) (Syn_Not (Syn_Leaf (Bool_Leaf ''stream''))))"
  have toks: "expr_toks ?e = [TOK_KEY ''date'', TOK_GE, TOK_INT_OR_KEY ''1990'', TOK_AND,
      TOK_LPAREN, TOK_KEY ''artist'', TOK_EQ, TOK_STR ''A*'', TOK_OR, TOK_NOT, TOK_KEY ''stream'', TOK_RPAREN]" by simp
  have str: "show_toks (expr_toks ?e) = ''date >= 1990 & ( artist = \"A*\" | ! stream ) ''"
    unfolding toks by (simp add: show_toks_def)
  have ok: "list_all tok_ok (expr_toks ?e)"
    unfolding toks by (simp add: key_ok_def num_ok_def after_sign_def key_char_def c_isdigit_def c_isalpha_def less_eq_char_def)
  have valid: "u_is_valid (show_toks (expr_toks ?e)) = Some True" unfolding str by code_simp
  have plain: "\<forall>c\<in>set (show_toks (expr_toks ?e)). \<not> c < CHR 0x20" unfolding str by (simp add: less_char_def)
  from expr_parse_roundtrip [OF ok valid plain] show ?thesis unfolding str using syn_complete [of ?e] by blast
qed

text \<open>
  Whatever is typed, \<open>expr_parse\<close> answers with an error or with a tree in which every operator has its operands, unless it
  is a short expression.
\<close>

theorem expr_parse_answers:
  assumes "\<not> expr_is_short (case to_utf8 str of Some s \<Rightarrow> s | None \<Rightarrow> str)"
  shows "\<exists>p. expr_parse to_utf8 str = Some p \<and> (\<forall>e. p = Inr e \<longrightarrow> complete e)"
proof -
  let ?str = "case to_utf8 str of Some s \<Rightarrow> s | None \<Rightarrow> str"
  obtain v where v: "u_is_valid ?str = Some v" using u_is_valid_total by blast
  have "\<exists>p. expr_parse to_utf8 str = Some p"
  proof (cases "tokenize ?str")
    case (Inr toks)
    then show ?thesis using assms v parse_tokens_total [of toks]
      by (cases v) (auto simp: expr_parse_def expr_parse_i_def Let_def)
  qed (use assms v in \<open>cases v; simp add: expr_parse_def expr_parse_i_def Let_def\<close>)
  then show ?thesis using parsed_complete by auto
qed

theorem expr_parse_answers_witness: "\<exists>p. expr_parse (\<lambda>_. None) ''date<(x'' = Some p"
  using expr_parse_answers [of "''date<(x''" "\<lambda>_. None"] by (auto simp: expr_is_short_def)

text \<open>
  The two characters \<open>~A\<close>, a short expression, are expanded to \<open>albumartist="*\<close> and the terminator, which is a byte more than
  the buffer of seven bytes for each character has: the expansion writes behind its buffer.
\<close>

theorem short_expand_overflow: "expand_short_expr ''~A'' = None"
  by code_simp

end
