(* ===== verification/Filters.thy ===== *)
theory Filters
  imports Short_Expr Input
begin

text \<open>
  The check of a filter expression's leaves (\<^verbatim>\<open>src/app/expr.c\<close>) and the list of user defined filters
  (\<^verbatim>\<open>src/app/filters.c\<close>): selecting, activating, adding and replacing them. An error is the left side of a sum. The theory
  proves what an accepted expression is, that the operations always answer and what they do to the list.
\<close>

section \<open>Leaves and user defined filters\<close>

datatype filter_stat = FS_IGNORE | FS_YES | FS_NO

record filter_entry =
  fe_name :: string
  fe_filter :: string
  fe_act_stat :: filter_stat
  fe_sel_stat :: filter_stat
  fe_visited :: bool

fun find_filter :: "filter_entry list \<Rightarrow> string \<Rightarrow> filter_entry option" where
  "find_filter [] name = None"
| "find_filter (e # r) name = (if fe_name e = name then Some e else find_filter r name)"

text \<open>\<open>filters_head\<close> and \<open>recursive_filter\<close>.\<close>

type_synonym filters = "filter_entry list \<times> string option"

fun mark_visited :: "filter_entry list \<Rightarrow> string \<Rightarrow> filter_entry list" where
  "mark_visited [] name = []"
| "mark_visited (e # r) name = (if fe_name e = name then e\<lparr>fe_visited := True\<rparr> # r else e # mark_visited r name)"

definition get_filter :: "string \<Rightarrow> filters \<Rightarrow> string option \<times> filters" where
  "get_filter name fs =
     (case find_filter (fst fs) name of
        None \<Rightarrow> (None, fs)
      | Some e \<Rightarrow> if fe_visited e then (None, (fst fs, Some (fe_name e)))
                   else (Some (fe_filter e), (mark_visited (fst fs) name, snd fs)))"

text \<open>
  The names in error messages. The array has no entry for booleans: the null pointer is printed by the C library as \<open>(null)\<close>.
  The entry after the integers is meant for booleans and is that of comparisons of two keys.
\<close>

fun expr_names :: "key_type \<Rightarrow> string" where
  "expr_names KEY_STR = ''a string''" | "expr_names KEY_INT = ''an integer''" | "expr_names KEY_ID = ''a boolean''"
| "expr_names KEY_BOOL = ''(null)''"

text \<open>The key and the type of a leaf.\<close>

fun leaf_key :: "expr \<Rightarrow> (string \<times> key_type) option" where
  "leaf_key (EXPR_STR key _ _) = Some (key, KEY_STR)"
| "leaf_key (EXPR_INT key _ _) = Some (key, KEY_INT)"
| "leaf_key (EXPR_ID key _ _) = Some (key, KEY_ID)"
| "leaf_key (EXPR_BOOL key) = Some (key, KEY_BOOL)"
| "leaf_key _ = None"

partial_function (option) expr_check_leaves ::
    "(string \<Rightarrow> string option) \<Rightarrow> expr \<Rightarrow> filters \<Rightarrow> (filters \<times> (string + expr)) option" where
  [code]: "expr_check_leaves to_utf8 e fs =
     (case e of
        Bin b l r \<Rightarrow>
          (case l of None \<Rightarrow> None | Some l \<Rightarrow>
             do { (fs, res) \<leftarrow> expr_check_leaves to_utf8 l fs;
                  case res of Inl m \<Rightarrow> Some (fs, Inl m)
                  | Inr l \<Rightarrow>
                      (case r of None \<Rightarrow> Some (fs, Inr (Bin b (Some l) None))
                       | Some r \<Rightarrow>
                           do { (fs, res) \<leftarrow> expr_check_leaves to_utf8 r fs;
                                Some (fs, case res of Inl m \<Rightarrow> Inl m | Inr r \<Rightarrow> Inr (Bin b (Some l) (Some r))) }) })
      | EXPR_NOT l \<Rightarrow>
          do { (fs, res) \<leftarrow> expr_check_leaves to_utf8 l fs;
               Some (fs, case res of Inl m \<Rightarrow> Inl m | Inr l \<Rightarrow> Inr (EXPR_NOT l)) }
      | _ \<Rightarrow>
          do { (key, t) \<leftarrow> leaf_key e;
               case lookup_key_type key of
                 Some t' \<Rightarrow> Some (fs, if t' \<noteq> t then Inl (key @ '' is '' @ expr_names t') else Inr e)
               | None \<Rightarrow>
                   if t \<noteq> KEY_BOOL then Some (fs, Inl (''unknown key '' @ key))
                   else case get_filter key fs of
                          (None, fs) \<Rightarrow> Some (fs, Inl (''unknown filter or boolean '' @ key))
                        | (Some filt, fs) \<Rightarrow>
                            do { p \<leftarrow> expr_parse to_utf8 filt;
                                 case p of Inl m \<Rightarrow> Some (fs, Inl m)
                                 | Inr e' \<Rightarrow> expr_check_leaves to_utf8 e' fs } })"

section \<open>What a checked expression is\<close>

text \<open>
  An expression with its user defined filters replaced by what they stand for; a leaf with a built-in key has to have that key's
  type.
\<close>

inductive resolves :: "(string \<Rightarrow> string option) \<Rightarrow> filter_entry list \<Rightarrow> expr \<Rightarrow> expr \<Rightarrow> bool"
  for to_utf8 :: "string \<Rightarrow> string option" and fes :: "filter_entry list" where
  bin: "resolves to_utf8 fes l l' \<Longrightarrow> resolves to_utf8 fes r r' \<Longrightarrow>
    resolves to_utf8 fes (Bin b (Some l) (Some r)) (Bin b (Some l') (Some r'))"
| no: "resolves to_utf8 fes e e' \<Longrightarrow> resolves to_utf8 fes (EXPR_NOT e) (EXPR_NOT e')"
| builtin: "leaf_key e = Some (key, t) \<Longrightarrow> lookup_key_type key = Some t \<Longrightarrow> resolves to_utf8 fes e e"
| user: "lookup_key_type key = None \<Longrightarrow> find_filter fes key = Some f \<Longrightarrow>
    expr_parse to_utf8 (fe_filter f) = Some (Inr e) \<Longrightarrow> resolves to_utf8 fes e e' \<Longrightarrow> resolves to_utf8 fes (EXPR_BOOL key) e'"

fun leaves_ok :: "expr \<Rightarrow> bool" where
  "leaves_ok (Bin b l r) \<longleftrightarrow> (case l of None \<Rightarrow> False | Some l \<Rightarrow> leaves_ok l) \<and> (case r of None \<Rightarrow> False | Some r \<Rightarrow> leaves_ok r)"
| "leaves_ok (EXPR_NOT e) \<longleftrightarrow> leaves_ok e"
| "leaves_ok (EXPR_STR key _ _) \<longleftrightarrow> lookup_key_type key = Some KEY_STR"
| "leaves_ok (EXPR_INT key _ _) \<longleftrightarrow> lookup_key_type key = Some KEY_INT"
| "leaves_ok (EXPR_ID key _ _) \<longleftrightarrow> False"
| "leaves_ok (EXPR_BOOL key) \<longleftrightarrow> lookup_key_type key = Some KEY_BOOL"

lemma builtin_not_id: "lookup_key_type key \<noteq> Some KEY_ID"
  unfolding lookup_key_type_def builtin_def by (simp add: Let_def)

lemma resolves_ok: "resolves to_utf8 fes e e' \<Longrightarrow> leaves_ok e' \<and> complete e'"
proof (induction rule: resolves.induct)
  case (builtin e key t)
  then show ?case using builtin_not_id by (cases e) auto
qed simp_all

text \<open>A check changes no more of the filters than to mark some as visited.\<close>

definition marks :: "filter_entry \<Rightarrow> filter_entry \<Rightarrow> bool" where
  "marks f f' \<longleftrightarrow> fe_name f' = fe_name f \<and> fe_filter f' = fe_filter f \<and> fe_act_stat f' = fe_act_stat f \<and>
     fe_sel_stat f' = fe_sel_stat f \<and> (fe_visited f \<longrightarrow> fe_visited f')"

definition marked :: "filter_entry list \<Rightarrow> filter_entry list \<Rightarrow> bool" where
  "marked = list_all2 marks"

lemma marks_refl: "marks f f" "marks f (f\<lparr>fe_visited := True\<rparr>)"
  by (simp_all add: marks_def)

definition unvisited :: "filter_entry list \<Rightarrow> nat" where
  "unvisited fes = length (filter (\<lambda>f. \<not> fe_visited f) fes)"

definition filters_parse :: "(string \<Rightarrow> string option) \<Rightarrow> filter_entry list \<Rightarrow> bool" where
  "filters_parse to_utf8 fes \<longleftrightarrow> (\<forall>f\<in>set fes. \<exists>e. expr_parse to_utf8 (fe_filter f) = Some (Inr e))"

lemma marked_refl: "marked fes fes"
  by (simp add: marked_def list_all2_refl marks_refl)

lemma marked_trans: "marked a b \<Longrightarrow> marked b c \<Longrightarrow> marked a c"
  unfolding marked_def using list_all2_trans [of marks marks marks a b c] by (auto simp: marks_def)

lemma marked_parse: "marked fes fes' \<Longrightarrow> filters_parse to_utf8 fes \<Longrightarrow> filters_parse to_utf8 fes'"
  unfolding marked_def filters_parse_def by (induction rule: list_all2_induct) (simp_all add: marks_def)

lemma marked_unvisited: "marked fes fes' \<Longrightarrow> unvisited fes' \<le> unvisited fes"
  unfolding marked_def unvisited_def by (induction rule: list_all2_induct) (auto simp: marks_def)

lemma marked_find:
  assumes "marked fes fes'" "find_filter fes' key = Some f"
  shows "\<exists>f'. find_filter fes key = Some f' \<and> fe_filter f' = fe_filter f"
  using assms unfolding marked_def by (induction rule: list_all2_induct) (auto simp: marks_def split: if_splits)

lemma mark_visited_marked: "marked fes (mark_visited fes key)"
proof (induction fes)
  case (Cons f fes)
  then show ?case using marked_refl [of fes] marks_refl by (simp add: marked_def)
qed (simp add: marked_def)

lemma mark_visited_fewer:
  "find_filter fes key = Some f \<Longrightarrow> \<not> fe_visited f \<Longrightarrow> unvisited (mark_visited fes key) < unvisited fes"
  unfolding unvisited_def by (induction fes) (auto split: if_splits)

lemma find_in: "find_filter fes key = Some f \<Longrightarrow> f \<in> set fes \<and> fe_name f = key"
  by (induction fes) (auto split: if_splits)

lemma resolves_marked:
  assumes "resolves to_utf8 fes' e e'" "marked fes fes'"
  shows "resolves to_utf8 fes e e'"
  using assms(1)
proof (induction rule: resolves.induct)
  case (user key f e e')
  obtain f' where f': "find_filter fes key = Some f'" "fe_filter f' = fe_filter f"
    using marked_find [OF assms(2) user(2)] by blast
  show ?case using resolves.user [OF user(1) f'(1)] user(3,5) f'(2) by simp
qed (auto intro: resolves.intros)

definition checks :: "(string \<Rightarrow> string option) \<Rightarrow> filter_entry list \<Rightarrow> expr \<Rightarrow> (filters \<times> (string + expr)) option \<Rightarrow> bool" where
  "checks to_utf8 fes e c \<longleftrightarrow>
     (\<exists>fs' res. c = Some (fs', res) \<and> marked fes (fst fs') \<and> (\<forall>e'. res = Inr e' \<longrightarrow> resolves to_utf8 fes e e'))"

lemma check_leaf_eq:
  "leaf_key e = Some (key, t) \<Longrightarrow> expr_check_leaves to_utf8 e fs =
     (case lookup_key_type key of
        Some t' \<Rightarrow> Some (fs, if t' \<noteq> t then Inl (key @ '' is '' @ expr_names t') else Inr e)
      | None \<Rightarrow>
          if t \<noteq> KEY_BOOL then Some (fs, Inl (''unknown key '' @ key))
          else case get_filter key fs of
                 (None, fs) \<Rightarrow> Some (fs, Inl (''unknown filter or boolean '' @ key))
               | (Some filt, fs) \<Rightarrow>
                   do { p \<leftarrow> expr_parse to_utf8 filt;
                        case p of Inl m \<Rightarrow> Some (fs, Inl m) | Inr e' \<Rightarrow> expr_check_leaves to_utf8 e' fs })"
  by (subst expr_check_leaves.simps) (cases e; simp; hypsubst; rule refl)

lemma check_leaf:
  assumes IH: "\<And>e fes rec. unvisited fes < n \<Longrightarrow> complete e \<Longrightarrow> filters_parse to_utf8 fes \<Longrightarrow>
      checks to_utf8 fes e (expr_check_leaves to_utf8 e (fes, rec))"
    and e: "leaf_key e = Some (key, t)" "unvisited fes \<le> n" "filters_parse to_utf8 fes"
  shows "checks to_utf8 fes e (expr_check_leaves to_utf8 e (fes, rec))"
proof (cases "lookup_key_type key = None \<and> t = KEY_BOOL")
  case False
  then show ?thesis using e(1) resolves.builtin [OF e(1)] marked_refl
    by (auto simp: check_leaf_eq [OF e(1)] checks_def split: option.splits)
next
  case True
  then have eq: "e = EXPR_BOOL key" using e(1) by (cases e) auto
  show ?thesis
  proof (cases "find_filter fes key")
    case None
    then show ?thesis using True marked_refl by (simp add: check_leaf_eq [OF e(1)] checks_def get_filter_def)
  next
    case (Some f)
    show ?thesis
    proof (cases "fe_visited f")
      case True': True
      then show ?thesis using True Some marked_refl
        by (simp add: check_leaf_eq [OF e(1)] checks_def get_filter_def)
    next
      case False
      let ?fes = "mark_visited fes key"
      obtain e0 where e0: "expr_parse to_utf8 (fe_filter f) = Some (Inr e0)"
        using e(3) find_in [OF Some] unfolding filters_parse_def by blast
      have run: "expr_check_leaves to_utf8 e (fes, rec) = expr_check_leaves to_utf8 e0 (?fes, rec)"
        using True Some False e0 by (simp add: check_leaf_eq [OF e(1)] get_filter_def)
      have "unvisited ?fes < n" using mark_visited_fewer [OF Some False] e(2) by simp
      then have "checks to_utf8 ?fes e0 (expr_check_leaves to_utf8 e0 (?fes, rec))"
        using IH [of ?fes e0 rec] parsed_complete [OF e0] marked_parse [OF mark_visited_marked e(3)] by blast
      then show ?thesis unfolding run checks_def
        using marked_trans [OF mark_visited_marked] resolves_marked [OF _ mark_visited_marked] resolves.user [OF _ Some e0] True
        by (metis eq)
    qed
  qed
qed

lemma check_checks:
  "complete e \<Longrightarrow> filters_parse to_utf8 fes \<Longrightarrow> checks to_utf8 fes e (expr_check_leaves to_utf8 e (fes, rec))"
proof (induction "unvisited fes" arbitrary: e fes rec rule: less_induct)
  case less
  note IH = less(1)
  have leaf: "checks to_utf8 fes' e (expr_check_leaves to_utf8 e (fes', rec))"
    if "leaf_key e = Some (key, t)" "marked fes fes'" for e key t fes' rec
    using check_leaf [of "unvisited fes" to_utf8 e key t fes' rec] IH that marked_unvisited marked_parse less(3) by blast
  have "complete e \<Longrightarrow> marked fes fes' \<Longrightarrow> checks to_utf8 fes' e (expr_check_leaves to_utf8 e (fes', rec))" for e fes' rec
  proof (induction e arbitrary: fes' rec)
    case (Bin b l r)
    obtain x y where lr: "l = Some x" "r = Some y" "complete x" "complete y" using Bin(3) by (auto split: option.splits)
    obtain fes1 rec1 res where l: "expr_check_leaves to_utf8 x (fes', rec) = Some ((fes1, rec1), res)" "marked fes' fes1"
      "\<forall>e'. res = Inr e' \<longrightarrow> resolves to_utf8 fes' x e'"
      using Bin(1) [of x fes' rec] lr Bin(4) by (auto simp: checks_def)
    show ?case
    proof (cases res)
      case (Inl m)
      have "expr_check_leaves to_utf8 (Bin b l r) (fes', rec) = Some ((fes1, rec1), Inl m)"
        by (subst expr_check_leaves.simps) (simp add: lr l(1) Inl)
      then show ?thesis using l by (simp add: checks_def)
    next
      case (Inr x')
      obtain fs2 res2 where r: "expr_check_leaves to_utf8 y (fes1, rec1) = Some (fs2, res2)" "marked fes1 (fst fs2)"
        "\<forall>e'. res2 = Inr e' \<longrightarrow> resolves to_utf8 fes1 y e'"
        using Bin(2) [of y fes1 rec1] lr marked_trans [OF Bin(4) l(2)] by (auto simp: checks_def)
      have "expr_check_leaves to_utf8 (Bin b l r) (fes', rec) =
          Some (fs2, case res2 of Inl m \<Rightarrow> Inl m | Inr y' \<Rightarrow> Inr (Bin b (Some x') (Some y')))"
        by (subst expr_check_leaves.simps) (simp add: lr l(1) Inr r(1))
      then show ?thesis unfolding checks_def
        using l(2,3) r(2,3) Inr marked_trans resolves_marked [OF _ l(2)] resolves.bin lr by (auto split: sum.splits)
    qed
  next
    case (EXPR_NOT e)
    obtain fs1 res where l: "expr_check_leaves to_utf8 e (fes', rec) = Some (fs1, res)" "marked fes' (fst fs1)"
      "\<forall>e'. res = Inr e' \<longrightarrow> resolves to_utf8 fes' e e'"
      using EXPR_NOT(1) [of fes' rec] EXPR_NOT(2,3) unfolding checks_def by (metis complete.simps(2))
    have "expr_check_leaves to_utf8 (EXPR_NOT e) (fes', rec) = Some (fs1, case res of Inl m \<Rightarrow> Inl m | Inr e \<Rightarrow> Inr (EXPR_NOT e))"
      by (subst expr_check_leaves.simps) (simp add: l(1))
    then show ?case unfolding checks_def using l(2,3) resolves.no by (auto split: sum.splits)
  qed (rule leaf, simp, assumption)+
  then show ?case using less(2) marked_refl by blast
qed

section \<open>The operations of filters.c\<close>

text \<open>
  What the operations make happen elsewhere: a message, the text for the command line (the buffer of 512 bytes truncates it),
  the new filter of the library, a change of the window.
\<close>

datatype filter_event = Error_Msg string | Edit string | Set_Filter "expr option" | Win_Changed

definition edit_sel_filter :: "filter_entry option \<Rightarrow> filter_event list" where
  "edit_sel_filter sel =
     (case sel of None \<Rightarrow> [] | Some e \<Rightarrow> [Edit (take 511 (''fset '' @ fe_name e @ ''='' @ fe_filter e))])"

text \<open>The loop of \<open>filters_activate\<close> over the filters: marks, parses and joins the selected ones.\<close>

fun and_selected ::
    "(string \<Rightarrow> string option) \<Rightarrow> filter_entry list \<Rightarrow> expr option \<Rightarrow> (filter_entry list \<times> (string + expr option)) option" where
  "and_selected to_utf8 [] expr = Some ([], Inr expr)"
| "and_selected to_utf8 (f # fes) expr =
     (let f = f\<lparr>fe_visited := False\<rparr>
      in if fe_sel_stat f = FS_IGNORE
         then map_option (\<lambda>(fes, r). (f # fes, r)) (and_selected to_utf8 fes expr)
         else let f = f\<lparr>fe_visited := True\<rparr>
           in do { p \<leftarrow> expr_parse to_utf8 (fe_filter f);
                   case p of Inl m \<Rightarrow> Some (f # fes, Inl (''error parsing filter '' @ fe_name f @ '': '' @ m))
                   | Inr e \<Rightarrow>
                       (let e = (if fe_sel_stat f = FS_NO then EXPR_NOT e else e);
                            expr = (case expr of None \<Rightarrow> e | Some x \<Rightarrow> Bin EXPR_AND (Some x) (Some e))
                        in map_option (\<lambda>(fes, r). (f # fes, r)) (and_selected to_utf8 fes (Some expr))) })"

text \<open>The check with the message of \<open>filters_activate\<close> and \<open>parse_filter\<close> when it fails.\<close>

definition check_filter :: "(string \<Rightarrow> string option) \<Rightarrow> expr \<Rightarrow> filter_entry list \<Rightarrow> (filters \<times> (string + expr)) option" where
  "check_filter to_utf8 e fes =
     do { (fs, res) \<leftarrow> expr_check_leaves to_utf8 e (fes, None);
          Some (fs, case res of Inr e \<Rightarrow> Inr e
                    | Inl m \<Rightarrow> Inl (case snd fs of Some name \<Rightarrow> ''recursion detected in filter '' @ name
                                     | None \<Rightarrow> ''error parsing filter: '' @ m)) }"

text \<open>The argument \<open>sel\<close> is the selected entry of the window.\<close>

definition filters_activate ::
    "(string \<Rightarrow> string option) \<Rightarrow> filter_entry option \<Rightarrow> bool \<Rightarrow> filters \<Rightarrow> (filters \<times> filter_event list) option" where
  "filters_activate to_utf8 sel win_activate fs =
     (let unchanged = list_all (\<lambda>f. fe_act_stat f = fe_sel_stat f) (fst fs);
          edit = (if unchanged \<and> win_activate then edit_sel_filter sel else [])
      in if unchanged \<and> \<not> win_activate then Some (fs, [])
         else do { (fes, r) \<leftarrow> and_selected to_utf8 (fst fs) None;
                   case r of Inl m \<Rightarrow> Some ((fes, snd fs), edit @ [Error_Msg m])
                   | Inr None \<Rightarrow>
                       Some ((map (\<lambda>f. f\<lparr>fe_act_stat := fe_sel_stat f\<rparr>) fes, None), edit @ [Set_Filter None, Win_Changed])
                   | Inr (Some e) \<Rightarrow>
                       do { (fs, res) \<leftarrow> check_filter to_utf8 e fes;
                            case res of Inl m \<Rightarrow> Some (fs, edit @ [Error_Msg m])
                            | Inr e \<Rightarrow>
                                Some ((map (\<lambda>f. f\<lparr>fe_act_stat := fe_sel_stat f\<rparr>) (fst fs), snd fs),
                                      edit @ [Set_Filter (Some e), Win_Changed]) } })"

text \<open>
  The loop over the names in \<open>str\<close>: \<open>cb\<close> changes a state and may stop the loop with a message; its \<open>None\<close> is a fault. A \<open>!\<close>
  without a name ends the loop like the end of the string.
\<close>

function for_each_name ::
    "(string \<Rightarrow> filter_stat \<Rightarrow> 's \<Rightarrow> ('s \<times> string option) option) \<Rightarrow> string \<Rightarrow> 's \<Rightarrow> ('s \<times> string option) option" where
  "for_each_name cb str st =
     (let s = dropWhile (\<lambda>c. c = CHR '' '') str;
          neg = (s \<noteq> [] \<and> hd s = CHR ''!'');
          s = (if neg then tl s else s);
          name = takeWhile (\<lambda>c. c \<noteq> CHR '' '') s
      in if name = [] then Some (st, None)
         else if length name \<ge> 64 then Some (st, Some ''filter name too long'')
         else case cb name (if neg then FS_NO else FS_YES) st of
                None \<Rightarrow> None
              | Some (st, Some m) \<Rightarrow> Some (st, Some m)
              | Some (st, None) \<Rightarrow> for_each_name cb (drop (length name) s) st)"
  by pat_completeness auto
termination
proof (relation "measure (\<lambda>(_, str, _). length str)", goal_cases)
  case (2 cb str st s neg s' name)
  have "length s \<le> length str" unfolding 2(1) by (rule length_dropWhile_le)
  moreover have "length s' \<le> length s" unfolding 2(3) by simp
  moreover have "length (drop (length name) s') < length s'" using 2(4,5) by (cases s') auto
  ultimately show ?case by simp
qed simp

declare for_each_name.simps [simp del]

definition ensure_filter_name :: "filter_entry list \<Rightarrow> string \<Rightarrow> filter_stat \<Rightarrow> unit \<Rightarrow> (unit \<times> string option) option" where
  "ensure_filter_name fes name sel_stat u =
     Some ((), if find_filter fes name = None then Some (''no such filter '' @ name) else None)"

fun set_sel :: "filter_entry list \<Rightarrow> string \<Rightarrow> filter_stat \<Rightarrow> filter_entry list option" where
  "set_sel [] name sel_stat = None"
| "set_sel (f # fes) name sel_stat =
     (if fe_name f = name then Some (f\<lparr>fe_sel_stat := sel_stat\<rparr> # fes) else map_option ((#) f) (set_sel fes name sel_stat))"

definition select_filter :: "string \<Rightarrow> filter_stat \<Rightarrow> filter_entry list \<Rightarrow> (filter_entry list \<times> string option) option" where
  "select_filter name sel_stat fes = map_option (\<lambda>fes. (fes, None)) (set_sel fes name sel_stat)"

definition filters_activate_names ::
    "(string \<Rightarrow> string option) \<Rightarrow> string option \<Rightarrow> filters \<Rightarrow> (filters \<times> filter_event list) option" where
  "filters_activate_names to_utf8 str fs =
     do { (u, err) \<leftarrow> (case str of None \<Rightarrow> Some ((), None) | Some s \<Rightarrow> for_each_name (ensure_filter_name (fst fs)) s ());
          case err of Some m \<Rightarrow> Some (fs, [Error_Msg m])
          | None \<Rightarrow>
              (let fes = map (\<lambda>f. f\<lparr>fe_sel_stat := FS_IGNORE\<rparr>) (fst fs)
               in do { (fes, err) \<leftarrow> (case str of None \<Rightarrow> Some (fes, None) | Some s \<Rightarrow> for_each_name select_filter s fes);
                       (fs, ev) \<leftarrow> filters_activate to_utf8 None False (fes, snd fs);
                       Some (fs, (case err of None \<Rightarrow> [] | Some m \<Rightarrow> [Error_Msg m]) @ ev) }) }"

text \<open>The position \<open>sel\<close> of the selected entry is none when the list is empty.\<close>

fun next_stat :: "filter_stat \<Rightarrow> filter_stat" where
  "next_stat FS_IGNORE = FS_YES" | "next_stat FS_YES = FS_NO" | "next_stat FS_NO = FS_IGNORE"

definition filters_toggle_filter :: "nat option \<Rightarrow> filter_entry list \<Rightarrow> filter_entry list" where
  "filters_toggle_filter sel fes =
     (case sel of None \<Rightarrow> fes | Some i \<Rightarrow> fes[i := (fes ! i)\<lparr>fe_sel_stat := next_stat (fe_sel_stat (fes ! i))\<rparr>])"

definition filters_delete_filter :: "nat option \<Rightarrow> bool \<Rightarrow> filter_entry list \<Rightarrow> filter_entry list" where
  "filters_delete_filter sel answer_yes fes =
     (case sel of None \<Rightarrow> fes | Some i \<Rightarrow> if answer_yes then take i fes @ drop (Suc i) fes else fes)"

definition validate_filter_name :: "string \<Rightarrow> bool" where
  "validate_filter_name name \<longleftrightarrow>
     list_all (\<lambda>c. c_isalpha c \<or> c_isdigit c \<or> c = CHR ''_'' \<or> c = CHR ''-'') name \<and> name \<noteq> []"

text \<open>Adding before the first greater name, or replacing.\<close>

fun add_or_replace :: "filter_entry \<Rightarrow> filter_entry list \<Rightarrow> filter_entry list" where
  "add_or_replace new [] = [new]"
| "add_or_replace new (e # r) =
     (let res = strcmp (fe_name new) (fe_name e)
      in if res < 0 then new # e # r
         else if res = 0 then new\<lparr>fe_sel_stat := fe_sel_stat e\<rparr> # r
         else e # add_or_replace new r)"

text \<open>The \<open>visited\<close> flag of a new entry is not initialised: \<open>junk\<close>.\<close>

definition do_filters_set_filter ::
    "(string \<Rightarrow> string option) \<Rightarrow> bool \<Rightarrow> bool \<Rightarrow> string \<Rightarrow> filter_entry list \<Rightarrow> (filter_entry list \<times> filter_event list) option" where
  "do_filters_set_filter to_utf8 ui_initialized junk keyval fes =
     (let msg = (\<lambda>m. if ui_initialized then [Error_Msg m] else []);
          key = takeWhile (\<lambda>c. c \<noteq> CHR ''='') keyval
      in if CHR ''='' \<notin> set keyval then Some (fes, msg (''invalid argument ('' @ [CHR 0x27] @ ''key=value'' @ [CHR 0x27] @ '' expected)''))
         else let val = drop (Suc (length key)) keyval
           in if \<not> validate_filter_name key
              then Some (fes, msg (''invalid filter name (can only contain '' @ [CHR 0x27] @ ''a-zA-Z0-9_-'' @ [CHR 0x27] @ '' characters)''))
              else do { p \<leftarrow> expr_parse to_utf8 val;
                        case p of Inl m \<Rightarrow> Some (fes, msg (''error parsing filter '' @ val @ '': '' @ m))
                        | Inr _ \<Rightarrow>
                            Some (add_or_replace
                                    \<lparr>fe_name = key, fe_filter = val, fe_act_stat = FS_IGNORE, fe_sel_stat = FS_IGNORE, fe_visited = junk\<rparr> fes,
                                  if ui_initialized then [Win_Changed] else []) })"

definition parse_filter :: "(string \<Rightarrow> string option) \<Rightarrow> string option \<Rightarrow> filters \<Rightarrow> (filters \<times> (string + expr option)) option" where
  "parse_filter to_utf8 val fs =
     (let fes = map (\<lambda>f. f\<lparr>fe_visited := False\<rparr>) (fst fs)
      in case val of None \<Rightarrow> Some ((fes, None), Inr None)
         | Some val \<Rightarrow>
             do { p \<leftarrow> expr_parse to_utf8 val;
                  case p of Inl m \<Rightarrow> Some (fs, Inl (''error parsing filter '' @ val @ '': '' @ m))
                  | Inr e \<Rightarrow>
                      do { (fs, res) \<leftarrow> check_filter to_utf8 e fes;
                           Some (fs, map_sum id Some res) } })"

definition filters_set_anonymous :: "(string \<Rightarrow> string option) \<Rightarrow> string option \<Rightarrow> filters \<Rightarrow> (filters \<times> filter_event list) option" where
  "filters_set_anonymous to_utf8 val fs =
     (let deactivate = map (\<lambda>f. f\<lparr>fe_act_stat := FS_IGNORE\<rparr>)
      in case val of None \<Rightarrow> Some ((deactivate (fst fs), snd fs), [Set_Filter None, Win_Changed])
         | Some _ \<Rightarrow>
             do { (fs', r) \<leftarrow> parse_filter to_utf8 val fs;
                  case r of Inl m \<Rightarrow> Some (fs', [Error_Msg m])
                  | Inr e \<Rightarrow> Some ((deactivate (fst fs'), snd fs'), [Set_Filter e, Win_Changed]) })"

section \<open>Filters by name\<close>

text \<open>The same names and filter texts, whatever the flags.\<close>

definition same_filters :: "filter_entry list \<Rightarrow> filter_entry list \<Rightarrow> bool" where
  "same_filters = list_all2 (\<lambda>f f'. fe_name f' = fe_name f \<and> fe_filter f' = fe_filter f)"

lemma same_find:
  assumes "same_filters fes fes'" "find_filter fes' key = Some f"
  shows "\<exists>f'. find_filter fes key = Some f' \<and> fe_filter f' = fe_filter f"
  using assms unfolding same_filters_def by (induction rule: list_all2_induct) (auto split: if_splits)

lemma same_parse: "same_filters fes fes' \<Longrightarrow> filters_parse to_utf8 fes \<Longrightarrow> filters_parse to_utf8 fes'"
  unfolding same_filters_def filters_parse_def by (induction rule: list_all2_induct) simp_all

lemma same_map: "(\<And>f. fe_name (g f) = fe_name f \<and> fe_filter (g f) = fe_filter f) \<Longrightarrow> same_filters fes (map g fes)"
  unfolding same_filters_def by (induction fes) simp_all

lemma resolves_same:
  assumes "resolves to_utf8 fes' e e'" "same_filters fes fes'"
  shows "resolves to_utf8 fes e e'"
  using assms(1)
proof (induction rule: resolves.induct)
  case (user key f e e')
  obtain f' where f': "find_filter fes key = Some f'" "fe_filter f' = fe_filter f"
    using same_find [OF assms(2) user(2)] by blast
  show ?case using resolves.user [OF user(1) f'(1)] user(3,5) f'(2) by simp
qed (auto intro: resolves.intros)

section \<open>The conjunction of the selected filters\<close>

definition filter_expr :: "(string \<Rightarrow> string option) \<Rightarrow> filter_entry \<Rightarrow> expr" where
  "filter_expr to_utf8 f =
     (let e = projr (the (expr_parse to_utf8 (fe_filter f))) in if fe_sel_stat f = FS_NO then EXPR_NOT e else e)"

fun conj_all :: "expr option \<Rightarrow> expr list \<Rightarrow> expr option" where
  "conj_all acc [] = acc"
| "conj_all acc (e # es) = conj_all (Some (case acc of None \<Rightarrow> e | Some x \<Rightarrow> Bin EXPR_AND (Some x) (Some e))) es"

definition selected_conj :: "(string \<Rightarrow> string option) \<Rightarrow> filter_entry list \<Rightarrow> expr option" where
  "selected_conj to_utf8 fes = conj_all None (map (filter_expr to_utf8) (filter (\<lambda>f. fe_sel_stat f \<noteq> FS_IGNORE) fes))"

definition same_stats :: "filter_entry list \<Rightarrow> filter_entry list \<Rightarrow> bool" where
  "same_stats = list_all2 (\<lambda>f f'. fe_act_stat f' = fe_act_stat f \<and> fe_sel_stat f' = fe_sel_stat f)"

lemma and_selected_eq:
  "filters_parse to_utf8 fes \<Longrightarrow> \<exists>fes'. and_selected to_utf8 fes acc =
     Some (fes', Inr (conj_all acc (map (filter_expr to_utf8) (filter (\<lambda>f. fe_sel_stat f \<noteq> FS_IGNORE) fes)))) \<and>
     same_filters fes fes' \<and> same_stats fes fes'"
proof (induction fes arbitrary: acc)
  case Nil
  then show ?case by (simp add: same_filters_def same_stats_def)
next
  case (Cons f fes)
  obtain e where e: "expr_parse to_utf8 (fe_filter f) = Some (Inr e)" using Cons(2) by (auto simp: filters_parse_def)
  have ok: "filters_parse to_utf8 fes" using Cons(2) by (simp add: filters_parse_def)
  show ?case
  proof (cases "fe_sel_stat f = FS_IGNORE")
    case True
    then show ?thesis using Cons(1) [OF ok, of acc] by (auto simp: same_filters_def same_stats_def)
  next
    case False
    let ?acc = "Some (case acc of None \<Rightarrow> filter_expr to_utf8 f | Some x \<Rightarrow> Bin EXPR_AND (Some x) (Some (filter_expr to_utf8 f)))"
    have "and_selected to_utf8 (f # fes) acc =
        map_option (\<lambda>(fes, r). (f\<lparr>fe_visited := True\<rparr> # fes, r)) (and_selected to_utf8 fes ?acc)"
      using False by (cases acc) (simp_all add: e Let_def filter_expr_def)
    then show ?thesis using Cons(1) [OF ok, of ?acc] False by (auto simp: same_filters_def same_stats_def)
  qed
qed

lemma conj_all_complete:
  "\<lbrakk>case acc of None \<Rightarrow> True | Some x \<Rightarrow> complete x; list_all complete es; conj_all acc es = Some e\<rbrakk> \<Longrightarrow> complete e"
proof (induction es arbitrary: acc)
  case (Cons x es)
  show ?case by (rule Cons(1) [OF _ _ Cons(4) [unfolded conj_all.simps]]) (use Cons(2,3) in \<open>simp_all split: option.splits\<close>)
qed simp

lemma conj_all_None: "conj_all acc es = None \<longleftrightarrow> acc = None \<and> es = []"
  by (induction es arbitrary: acc) simp_all

lemma selected_complete:
  assumes "filters_parse to_utf8 fes" "selected_conj to_utf8 fes = Some e"
  shows "complete e"
proof -
  have "complete (filter_expr to_utf8 f)" if f: "f \<in> set fes" for f
  proof -
    obtain e where e: "expr_parse to_utf8 (fe_filter f) = Some (Inr e)" using assms(1) f unfolding filters_parse_def by blast
    show ?thesis using parsed_complete [OF e] by (simp add: filter_expr_def e Let_def)
  qed
  then have "list_all complete (map (filter_expr to_utf8) (filter (\<lambda>f. fe_sel_stat f \<noteq> FS_IGNORE) fes))"
    by (simp add: list_all_iff)
  then show ?thesis using conj_all_complete [OF _ _ assms(2) [unfolded selected_conj_def]] by simp
qed

text \<open>What activation may come to: nothing to do, an error that leaves the active filters as they were, or the new filter.\<close>

definition active :: "filter_entry list \<Rightarrow> filter_stat list" where
  "active fes = map fe_act_stat fes"

definition activated :: "(string \<Rightarrow> string option) \<Rightarrow> filter_entry list \<Rightarrow> filter_entry list \<Rightarrow> filter_event list \<Rightarrow> bool" where
  "activated to_utf8 fes fes' ev \<longleftrightarrow> active fes' = map fe_sel_stat fes \<and>
     (case selected_conj to_utf8 fes of
        None \<Rightarrow> ev = [Set_Filter None, Win_Changed]
      | Some e \<Rightarrow> \<exists>e'. resolves to_utf8 fes e e' \<and> ev = [Set_Filter (Some e'), Win_Changed])"

lemma same_stats_active: "same_stats fes fes' \<Longrightarrow> active fes' = active fes"
  unfolding same_stats_def active_def by (induction rule: list_all2_induct) simp_all

lemma same_stats_sel: "same_stats fes fes' \<Longrightarrow> map fe_sel_stat fes' = map fe_sel_stat fes"
  unfolding same_stats_def by (induction rule: list_all2_induct) simp_all

lemma marked_same: "marked fes fes' \<Longrightarrow> same_filters fes fes' \<and> same_stats fes fes'"
  unfolding marked_def same_filters_def same_stats_def by (induction rule: list_all2_induct) (simp_all add: marks_def)

lemma same_filters_trans: "same_filters a b \<Longrightarrow> same_filters b c \<Longrightarrow> same_filters a c"
  unfolding same_filters_def list_all2_conv_all_nth by simp

lemma check_filter_answers:
  assumes "complete e" "filters_parse to_utf8 fes"
  shows "\<exists>fs res. check_filter to_utf8 e fes = Some (fs, res) \<and> marked fes (fst fs) \<and>
    (\<forall>e'. res = Inr e' \<longrightarrow> resolves to_utf8 fes e e')"
  using check_checks [OF assms, of None] by (auto simp: checks_def check_filter_def split: sum.splits)

lemma sync_active: "active (map (\<lambda>f. f\<lparr>fe_act_stat := fe_sel_stat f\<rparr>) fes) = map fe_sel_stat fes"
  by (simp add: active_def)

lemma activate_answers:
  fixes sel :: "filter_entry option"
  assumes "filters_parse to_utf8 (fst fs)" "\<not> (list_all (\<lambda>f. fe_act_stat f = fe_sel_stat f) (fst fs) \<and> \<not> win)"
    and ed_def: "ed = (if list_all (\<lambda>f. fe_act_stat f = fe_sel_stat f) (fst fs) then edit_sel_filter sel else [])"
  shows "\<exists>fs' ev. filters_activate to_utf8 sel win fs = Some (fs', ed @ ev) \<and> same_filters (fst fs) (fst fs') \<and>
    (activated to_utf8 (fst fs) (fst fs') ev \<or> active (fst fs') = active (fst fs) \<and> (\<exists>m. ev = [Error_Msg m]))"
proof -
  obtain fes' where sel: "and_selected to_utf8 (fst fs) None = Some (fes', Inr (selected_conj to_utf8 (fst fs)))"
    "same_filters (fst fs) fes'" "same_stats (fst fs) fes'"
    using and_selected_eq [OF assms(1), of None] by (auto simp: selected_conj_def)
  have ed: "(if list_all (\<lambda>f. fe_act_stat f = fe_sel_stat f) (fst fs) \<and> win then edit_sel_filter sel else []) = ed"
    using assms(2) by (auto simp: ed_def)
  have sync: "same_filters a (map (\<lambda>f. f\<lparr>fe_act_stat := fe_sel_stat f\<rparr>) a)" for a by (rule same_map) simp
  show ?thesis
  proof (cases "selected_conj to_utf8 (fst fs)")
    case None
    have "filters_activate to_utf8 sel win fs =
        Some ((map (\<lambda>f. f\<lparr>fe_act_stat := fe_sel_stat f\<rparr>) fes', None), ed @ [Set_Filter None, Win_Changed])"
      using assms(2) by (simp add: filters_activate_def Let_def ed sel(1) None)
    then show ?thesis using None same_filters_trans [OF sel(2) sync] same_stats_sel [OF sel(3)]
      by (auto simp: activated_def sync_active)
  next
    case (Some e)
    obtain fs2 res where c: "check_filter to_utf8 e fes' = Some (fs2, res)" "marked fes' (fst fs2)"
      "\<forall>e'. res = Inr e' \<longrightarrow> resolves to_utf8 fes' e e'"
      using check_filter_answers [OF selected_complete [OF assms(1) Some] same_parse [OF sel(2) assms(1)]] by blast
    note m = marked_same [OF c(2)]
    have same: "same_filters (fst fs) (fst fs2)" using same_filters_trans [OF sel(2)] m by blast
    show ?thesis
    proof (cases res)
      case (Inl msg)
      have "filters_activate to_utf8 sel win fs = Some (fs2, ed @ [Error_Msg msg])"
        using assms(2) by (simp add: filters_activate_def Let_def ed sel(1) Some c(1) Inl)
      then show ?thesis using same same_stats_active [OF sel(3)] m same_stats_active by fastforce
    next
      case (Inr e')
      have run: "filters_activate to_utf8 sel win fs = Some ((map (\<lambda>f. f\<lparr>fe_act_stat := fe_sel_stat f\<rparr>) (fst fs2), snd fs2),
            ed @ [Set_Filter (Some e'), Win_Changed])"
        using assms(2) by (simp add: filters_activate_def Let_def ed sel(1) Some c(1) Inr)
      have "map fe_sel_stat (fst fs2) = map fe_sel_stat (fst fs)" using m same_stats_sel same_stats_sel [OF sel(3)] by metis
      then have "activated to_utf8 (fst fs) (map (\<lambda>f. f\<lparr>fe_act_stat := fe_sel_stat f\<rparr>) (fst fs2)) [Set_Filter (Some e'), Win_Changed]"
        using resolves_same [OF _ sel(2)] c(3) Inr by (auto simp: activated_def Some sync_active)
      then show ?thesis using run same_filters_trans [OF same sync] by auto
    qed
  qed
qed

section \<open>The list of filters\<close>

text \<open>Sorted by name, without duplicates, with valid names and with texts that parse.\<close>

definition filters_wf :: "(string \<Rightarrow> string option) \<Rightarrow> filter_entry list \<Rightarrow> bool" where
  "filters_wf to_utf8 fes \<longleftrightarrow> sorted_wrt (<) (map fe_name fes) \<and> list_all (\<lambda>f. validate_filter_name (fe_name f)) fes \<and>
     filters_parse to_utf8 fes"

lemma strcmp_simps: "strcmp a b < 0 \<longleftrightarrow> a < b" "strcmp a b = 0 \<longleftrightarrow> a = b"
  by (auto simp: strcmp_def)

lemma add_or_replace_names: "set (map fe_name (add_or_replace new fes)) = insert (fe_name new) (set (map fe_name fes))"
  by (induction fes) (auto simp: Let_def strcmp_simps)

lemma add_or_replace_in:
  "f \<in> set (add_or_replace new fes) \<Longrightarrow> f \<in> set fes \<or> fe_name f = fe_name new \<and> fe_filter f = fe_filter new"
  by (induction fes) (auto simp: Let_def split: if_splits)

lemma add_or_replace_sorted: "sorted_wrt (<) (map fe_name fes) \<Longrightarrow> sorted_wrt (<) (map fe_name (add_or_replace new fes))"
proof (induction fes)
  case (Cons e fes)
  show ?case
  proof (cases "fe_name new < fe_name e \<or> fe_name new = fe_name e")
    case True
    then show ?thesis using Cons(2) by (auto simp: Let_def strcmp_simps)
  next
    case False
    then have "\<forall>n\<in>set (map fe_name (add_or_replace new fes)). fe_name e < n"
      using Cons(2) unfolding add_or_replace_names by auto
    then show ?thesis using False Cons by (simp add: Let_def strcmp_simps)
  qed
qed simp

lemma sorted_find_None: "\<forall>f\<in>set fes. n < fe_name f \<Longrightarrow> find_filter fes n = None"
  by (induction fes) auto

lemma add_or_replace_find:
  assumes "sorted_wrt (<) (map fe_name fes)"
  shows "find_filter (add_or_replace new fes) n =
    (if n = fe_name new
     then Some (case find_filter fes n of None \<Rightarrow> new | Some f \<Rightarrow> new\<lparr>fe_sel_stat := fe_sel_stat f\<rparr>)
     else find_filter fes n)"
  using assms
proof (induction fes)
  case (Cons e fes)
  have less: "\<forall>f\<in>set (e # fes). n < fe_name f" if "n < fe_name e" for n using Cons(2) that by auto
  show ?case using Cons sorted_find_None [OF less, of "fe_name new"] by (auto simp: Let_def strcmp_simps)
qed simp

lemma set_filter_eq:
  assumes "CHR ''='' \<notin> set key"
  shows "do_filters_set_filter to_utf8 ui junk (key @ CHR ''='' # val) fes =
    (if \<not> validate_filter_name key
     then Some (fes, if ui then [Error_Msg (''invalid filter name (can only contain '' @ [CHR 0x27] @ ''a-zA-Z0-9_-'' @ [CHR 0x27] @ '' characters)'')] else [])
     else do { p \<leftarrow> expr_parse to_utf8 val;
               case p of Inl m \<Rightarrow> Some (fes, if ui then [Error_Msg (''error parsing filter '' @ val @ '': '' @ m)] else [])
               | Inr _ \<Rightarrow> Some (add_or_replace \<lparr>fe_name = key, fe_filter = val, fe_act_stat = FS_IGNORE, fe_sel_stat = FS_IGNORE, fe_visited = junk\<rparr> fes,
                            if ui then [Win_Changed] else []) })"
proof -
  have "takeWhile (\<lambda>c. c \<noteq> CHR ''='') (key @ CHR ''='' # val) = key"
    using assms by (induction key) auto
  then show ?thesis by (simp add: do_filters_set_filter_def Let_def)
qed

section \<open>Names in a string\<close>

definition next_name :: "string \<Rightarrow> filter_stat \<times> string \<times> string" where
  "next_name str =
     (let s = dropWhile (\<lambda>c. c = CHR '' '') str;
          neg = (s \<noteq> [] \<and> hd s = CHR ''!'');
          s = (if neg then tl s else s);
          name = takeWhile (\<lambda>c. c \<noteq> CHR '' '') s
      in (if neg then FS_NO else FS_YES, name, drop (length name) s))"

lemma for_each_name_eq:
  "for_each_name cb str st = (case next_name str of (stat, name, rest) \<Rightarrow>
     if name = [] then Some (st, None)
     else if length name \<ge> 64 then Some (st, Some ''filter name too long'')
     else case cb name stat st of
            None \<Rightarrow> None
          | Some (st, Some m) \<Rightarrow> Some (st, Some m)
          | Some (st, None) \<Rightarrow> for_each_name cb rest st)"
  by (subst for_each_name.simps) (simp only: next_name_def Let_def prod.case)

lemma for_each_name_next:
  "next_name str = (stat, name, rest) \<Longrightarrow> for_each_name cb str st =
     (if name = [] then Some (st, None)
      else if length name \<ge> 64 then Some (st, Some ''filter name too long'')
      else case cb name stat st of
             None \<Rightarrow> None
           | Some (st, Some m) \<Rightarrow> Some (st, Some m)
           | Some (st, None) \<Rightarrow> for_each_name cb rest st)"
  by (simp only: for_each_name_eq [of cb str] prod.case)

lemma next_name_shorter:
  assumes "next_name str = (stat, name, rest)" "name \<noteq> []"
  shows "length rest < length str"
proof -
  define s0 where "s0 = dropWhile (\<lambda>c. c = CHR '' '') str"
  define s where "s = (if s0 \<noteq> [] \<and> hd s0 = CHR ''!'' then tl s0 else s0)"
  have n: "name = takeWhile (\<lambda>c. c \<noteq> CHR '' '') s" "rest = drop (length name) s"
    using assms(1) unfolding next_name_def Let_def s0_def [symmetric] s_def [symmetric] by auto
  have "length rest < length s" using assms(2) n by (cases s) auto
  also have "length s \<le> length s0" by (simp add: s_def)
  also have "length s0 \<le> length str" unfolding s0_def by (rule length_dropWhile_le)
  finally show ?thesis .
qed

lemma set_sel_total: "find_filter fes name \<noteq> None \<Longrightarrow> \<exists>fes'. set_sel fes name stat = Some fes' \<and> same_filters fes fes'"
proof (induction fes)
  case (Cons f fes)
  have "same_filters fes fes" by (simp add: same_filters_def list_all2_refl)
  then show ?case using Cons by (auto simp: same_filters_def)
qed simp

lemma same_find_some: "same_filters fes fes' \<Longrightarrow> find_filter fes name \<noteq> None \<Longrightarrow> find_filter fes' name \<noteq> None"
  unfolding same_filters_def by (induction rule: list_all2_induct) auto

lemma select_names_total:
  "\<lbrakk>for_each_name (ensure_filter_name fes) str () = Some (u, None); same_filters fes fes'\<rbrakk> \<Longrightarrow>
    \<exists>fes2. for_each_name select_filter str fes' = Some (fes2, None) \<and> same_filters fes fes2"
proof (induction "length str" arbitrary: str fes' rule: less_induct)
  case less
  obtain stat name rest where n: "next_name str = (stat, name, rest)" by (cases "next_name str")
  show ?case
  proof (cases "name = []")
    case True
    then show ?thesis using less(3) by (simp add: for_each_name_next [OF n])
  next
    case False
    then have short: "length name < 64" and known: "find_filter fes name \<noteq> None"
      and rest: "for_each_name (ensure_filter_name fes) rest () = Some (u, None)"
      using less(2) by (auto simp: for_each_name_next [OF n] ensure_filter_name_def split: if_splits)
    obtain fes2 where sel: "set_sel fes' name stat = Some fes2" "same_filters fes' fes2"
      using set_sel_total same_find_some [OF less(3) known] by blast
    then show ?thesis
      using less(1) [OF next_name_shorter [OF n False] rest same_filters_trans [OF less(3) sel(2)]] False short
      by (simp add: for_each_name_next [OF n] select_filter_def)
  qed
qed

lemma ensure_names_total: "\<exists>u err. for_each_name (ensure_filter_name fes) str () = Some (u, err)"
proof (induction "length str" arbitrary: str rule: less_induct)
  case less
  obtain stat name rest where n: "next_name str = (stat, name, rest)" by (cases "next_name str")
  show ?case
  proof (cases "name = []")
    case True
    then show ?thesis by (simp add: for_each_name_next [OF n])
  next
    case False
    then show ?thesis using less [OF next_name_shorter [OF n False]] by (simp add: for_each_name_next [OF n] ensure_filter_name_def)
  qed
qed

section \<open>Properties\<close>

text \<open>Filters for the examples.\<close>

definition example_filters :: "filter_entry list" where
  "example_filters = [\<lparr>fe_name = ''net'', fe_filter = ''stream'', fe_act_stat = FS_IGNORE, fe_sel_stat = FS_YES, fe_visited = False\<rparr>]"

lemma stream_parses: "expr_parse (\<lambda>_. None) ''stream'' = Some (Inr (EXPR_BOOL ''stream''))"
  by code_simp

lemma net_key: "lookup_key_type ''net'' = None" "lookup_key_type ''stream'' = Some KEY_BOOL"
  by code_simp+

lemma example_parse: "filters_parse (\<lambda>_. None) example_filters"
  by (simp add: filters_parse_def example_filters_def stream_parses)

text \<open>
  C21. The check of an expression always comes to an end, also when filters refer to each other or to themselves, provided that
  the text of every filter parses; an expression it accepts is the given one with every user defined filter replaced by its own
  expression, and every leaf has a built-in key of the right type.
\<close>

theorem expr_check_leaves_correct:
  assumes "complete e" and "filters_parse to_utf8 fes"
  shows "\<exists>fs' res. expr_check_leaves to_utf8 e (fes, rec) = Some (fs', res) \<and> same_filters fes (fst fs') \<and>
    (\<forall>e'. res = Inr e' \<longrightarrow> resolves to_utf8 fes e e' \<and> leaves_ok e' \<and> complete e')"
  using check_checks [OF assms, of rec] marked_same resolves_ok unfolding checks_def by blast

theorem expr_check_leaves_correct_witness:
  "\<exists>fs' res. expr_check_leaves (\<lambda>_. None) (EXPR_NOT (EXPR_BOOL ''net'')) (example_filters, None) = Some (fs', res)"
  using expr_check_leaves_correct [of "EXPR_NOT (EXPR_BOOL ''net'')" "\<lambda>_. None" example_filters None] example_parse by auto

text \<open>
  A filter that occurs twice in an expression is refused as recursive although it is not: the mark of the first
  occurrence is never taken back.
\<close>

theorem filter_used_twice:
  assumes "lookup_key_type name = None" and "find_filter fes name = Some f" and "\<not> fe_visited f"
    and "expr_parse to_utf8 (fe_filter f) = Some (Inr e)" and "leaf_key e = Some (key, t)" and "lookup_key_type key = Some t"
  shows "\<exists>fes' m. expr_check_leaves to_utf8 (Bin b (Some (EXPR_BOOL name)) (Some (EXPR_BOOL name))) (fes, None) =
      Some ((fes', Some name), Inl m) \<and>
    resolves to_utf8 fes (Bin b (Some (EXPR_BOOL name)) (Some (EXPR_BOOL name))) (Bin b (Some e) (Some e))"
proof -
  let ?fes = "mark_visited fes name"
  have "\<exists>f'. find_filter ?fes name = Some f' \<and> fe_visited f' \<and> fe_name f' = name"
    using assms(2) by (induction fes) (auto split: if_splits)
  then obtain f' where f': "find_filter ?fes name = Some f'" "fe_visited f'" "fe_name f' = name" by blast
  have leaf: "leaf_key (EXPR_BOOL name) = Some (name, KEY_BOOL)" by simp
  have "expr_check_leaves to_utf8 (EXPR_BOOL name) (fes, None) = Some ((?fes, None), Inr e)"
    using assms(1-4) by (simp add: check_leaf_eq [OF leaf] get_filter_def check_leaf_eq [OF assms(5)] assms(6))
  moreover have "expr_check_leaves to_utf8 (EXPR_BOOL name) (?fes, None) =
      Some ((?fes, Some name), Inl (''unknown filter or boolean '' @ name))"
    using assms(1) f' by (simp add: check_leaf_eq [OF leaf] get_filter_def)
  ultimately have "expr_check_leaves to_utf8 (Bin b (Some (EXPR_BOOL name)) (Some (EXPR_BOOL name))) (fes, None) =
      Some ((?fes, Some name), Inl (''unknown filter or boolean '' @ name))"
    by (subst expr_check_leaves.simps) simp
  moreover have res: "resolves to_utf8 fes (EXPR_BOOL name) e"
    by (rule resolves.user [OF assms(1,2,4) resolves.builtin [OF assms(5,6)]])
  ultimately show ?thesis using resolves.bin [OF res res] by simp
qed

theorem filter_used_twice_witness:
  "\<exists>fes' m. expr_check_leaves (\<lambda>_. None) (Bin EXPR_OR (Some (EXPR_BOOL ''net'')) (Some (EXPR_BOOL ''net''))) (example_filters, None) =
     Some ((fes', Some ''net''), Inl m)"
  using filter_used_twice [OF net_key(1), of example_filters "hd example_filters" "\<lambda>_. None" "EXPR_BOOL ''stream''" "''stream''" KEY_BOOL EXPR_OR]
    net_key(2) stream_parses by (simp add: example_filters_def)

text \<open>
  C22. Adding or replacing a filter keeps the list sorted, free of duplicates, with valid names and texts that parse; afterwards
  the name stands for the new text and keeps its selection, and all other filters are as before; a bad name or text changes
  nothing.
\<close>

theorem set_filter_correct:
  assumes "filters_wf to_utf8 fes" and "CHR ''='' \<notin> set key" and "expr_parse to_utf8 val = Some p"
  shows "\<exists>fes' ev. do_filters_set_filter to_utf8 ui junk (key @ CHR ''='' # val) fes = Some (fes', ev) \<and> filters_wf to_utf8 fes' \<and>
    (\<forall>name. name \<noteq> key \<longrightarrow> find_filter fes' name = find_filter fes name) \<and>
    (if validate_filter_name key \<and> (\<exists>e. p = Inr e)
     then \<exists>f. find_filter fes' key = Some f \<and> fe_filter f = val \<and>
       fe_sel_stat f = (case find_filter fes key of None \<Rightarrow> FS_IGNORE | Some f0 \<Rightarrow> fe_sel_stat f0)
     else fes' = fes)"
proof (cases "validate_filter_name key \<and> (\<exists>e. p = Inr e)")
  case False
  then show ?thesis using assms(1,3) by (auto simp: set_filter_eq [OF assms(2)] split: sum.splits)
next
  case True
  then obtain e where e: "validate_filter_name key" "p = Inr e" by blast
  let ?new = "\<lparr>fe_name = key, fe_filter = val, fe_act_stat = FS_IGNORE, fe_sel_stat = FS_IGNORE, fe_visited = junk\<rparr>"
  let ?fes = "add_or_replace ?new fes"
  have run: "do_filters_set_filter to_utf8 ui junk (key @ CHR ''='' # val) fes = Some (?fes, if ui then [Win_Changed] else [])"
    using assms(3) e by (simp add: set_filter_eq [OF assms(2)])
  have ok: "validate_filter_name (fe_name f) \<and> (\<exists>e. expr_parse to_utf8 (fe_filter f) = Some (Inr e))" if "f \<in> set ?fes" for f
    using add_or_replace_in [OF that] assms(1,3) e by (auto simp: filters_wf_def list_all_iff filters_parse_def)
  have "filters_wf to_utf8 ?fes"
    using add_or_replace_sorted assms(1) ok by (simp add: filters_wf_def list_all_iff filters_parse_def)
  moreover have "sorted_wrt (<) (map fe_name fes)" using assms(1) by (simp add: filters_wf_def)
  ultimately show ?thesis using e(1,2)
    by (intro exI [of _ ?fes] exI [of _ "if ui then [Win_Changed] else []"]) (simp add: run add_or_replace_find split: option.splits)
qed

theorem set_filter_correct_witness:
  "\<exists>fes' ev. do_filters_set_filter (\<lambda>_. None) True False (''net'' @ CHR ''='' # ''stream'') example_filters = Some (fes', ev) \<and>
     filters_wf (\<lambda>_. None) fes'"
proof -
  have "validate_filter_name ''net''" by (simp add: validate_filter_name_def c_isalpha_def less_eq_char_def)
  then have wf: "filters_wf (\<lambda>_. None) example_filters"
    using example_parse by (simp add: filters_wf_def) (simp add: example_filters_def)
  show ?thesis using set_filter_correct [OF wf _ stream_parses, of "''net''" True False] by auto
qed

text \<open>
  C23. Activation always answers: it installs the conjunction of the selected filters, the inverted ones negated, with user defined
  filters replaced, and makes the selection the active one; or it gives an error and the active filters stay.
\<close>

theorem filters_activate_correct:
  assumes "filters_parse to_utf8 (fst fs)" and "\<not> list_all (\<lambda>f. fe_act_stat f = fe_sel_stat f) (fst fs)"
  shows "\<exists>fs' ev. filters_activate to_utf8 sel win fs = Some (fs', ev) \<and>
    (activated to_utf8 (fst fs) (fst fs') ev \<or> active (fst fs') = active (fst fs) \<and> (\<exists>m. ev = [Error_Msg m]))"
  using activate_answers [OF assms(1), of win "[]" sel] assms(2) by auto

theorem filters_activate_correct_witness:
  "\<exists>fs' ev. filters_activate (\<lambda>_. None) None False (example_filters, None) = Some (fs', ev)"
  using filters_activate_correct [of "\<lambda>_. None" "(example_filters, None)" None False] example_parse by (auto simp: example_filters_def)

text \<open>
  Activating filters by name never follows a null pointer: every name that is to be selected has been checked before, also in
  a string in which a \<open>!\<close> stands without a name.
\<close>

theorem activate_names_safe:
  assumes "filters_parse to_utf8 (fst fs)"
  shows "filters_activate_names to_utf8 str fs \<noteq> None"
proof -
  let ?fes = "map (\<lambda>f. f\<lparr>fe_sel_stat := FS_IGNORE\<rparr>) (fst fs)"
  have act: "filters_activate to_utf8 None False (fes, rec) \<noteq> None" if "same_filters (fst fs) fes" for fes rec
  proof (cases "list_all (\<lambda>f. fe_act_stat f = fe_sel_stat f) fes")
    case True
    then show ?thesis by (simp add: filters_activate_def)
  next
    case False
    then show ?thesis using activate_answers [of to_utf8 "(fes, rec)" False _ None] same_parse [OF that assms] by fastforce
  qed
  have same: "same_filters (fst fs) ?fes" by (rule same_map) simp
  show ?thesis
  proof (cases str)
    case None
    then show ?thesis using act [OF same, of "snd fs"] by (auto simp: filters_activate_names_def)
  next
    case (Some s)
    obtain u err where e: "for_each_name (ensure_filter_name (fst fs)) s () = Some (u, err)" using ensure_names_total by blast
    show ?thesis
    proof (cases err)
      case None
      then obtain fes2 where "for_each_name select_filter s ?fes = Some (fes2, None)" "same_filters (fst fs) fes2"
        using select_names_total [of "fst fs" s u ?fes] e same by auto
      then show ?thesis using act [of fes2 "snd fs"] e None Some by (auto simp: filters_activate_names_def)
    qed (simp add: filters_activate_names_def Some e)
  qed
qed

theorem activate_names_safe_witness: "filters_activate_names (\<lambda>_. None) (Some ''!net ! x'') (example_filters, None) \<noteq> None"
  using activate_names_safe [of "\<lambda>_. None" "(example_filters, None)"] example_parse by simp

end
