(* ===== verification/Expr_Eval.thy ===== *)
theory Expr_Eval
  imports Filters
begin

text \<open>
  The evaluation of a filter expression on a track, and what else \<^verbatim>\<open>src/app/expr.c\<close> computes from one. A comparison of bytes past the
  end of a string, a null pointer and a signed overflow are faults (\<open>None\<close>). The theory proves that the evaluation of an
  expression is its meaning as a formula over the track's values.
\<close>

unbundle bit_operations_syntax

section \<open>The values of a track\<close>

text \<open>\<open>Some None\<close> is the null pointer: the track has no such value.\<close>

definition str_val :: "(string \<Rightarrow> string option) \<Rightarrow> string \<Rightarrow> track_info \<Rightarrow> string option option" where
  "str_val to_utf8 key ti =
     (if key = ''filename'' then Some (Some (case to_utf8 (ti_filename ti) of Some s \<Rightarrow> s | None \<Rightarrow> ti_filename ti))
      else if key = ''codec'' then Some (ti_codec ti)
      else if key = ''codec_profile'' then Some (ti_codec_profile ti)
      else case ti_comments ti of None \<Rightarrow> None | Some c \<Rightarrow> key_value_get_value c key)"

text \<open>The rounded bit rate is computed over the reals.\<close>

definition int_val :: "string \<Rightarrow> track_info \<Rightarrow> int option" where
  "int_val key ti =
     (if key = ''duration'' then Some (if is_http_url (ti_filename ti) then 2 ^ 31 - 1 else ti_duration ti)
      else if key = ''date'' then Some (if ti_date ti \<ge> 0 then c_div (ti_date ti) 10000 else -1)
      else if key = ''originaldate'' then Some (if ti_originaldate ti \<ge> 0 then c_div (ti_originaldate ti) 10000 else -1)
      else if key = ''bitrate'' then (if ti_bitrate ti \<ge> 0 then c_signed 32 ((ti_bitrate ti + 500) div 1000) else Some (-1))
      else if key = ''play_count'' then Some (c_int (ti_play_count ti))
      else if key = ''bpm'' then Some (ti_bpm ti)
      else case ti_comments ti of None \<Rightarrow> None | Some c \<Rightarrow> comments_get_int c key)"

fun expr_op_to_bool :: "int \<Rightarrow> op \<Rightarrow> bool" where
  "expr_op_to_bool res OP_LT \<longleftrightarrow> res < 0"
| "expr_op_to_bool res OP_LE \<longleftrightarrow> res \<le> 0"
| "expr_op_to_bool res OP_EQ \<longleftrightarrow> res = 0"
| "expr_op_to_bool res OP_GE \<longleftrightarrow> res \<ge> 0"
| "expr_op_to_bool res OP_GT \<longleftrightarrow> res > 0"
| "expr_op_to_bool res OP_NE \<longleftrightarrow> res \<noteq> 0"

section \<open>Evaluation\<close>

definition eval_int :: "int \<Rightarrow> int \<Rightarrow> op \<Rightarrow> bool option" where
  "eval_int val n op =
     (if n = -1 \<and> op = OP_EQ then Some (val = -1)
      else if n = -1 \<and> op = OP_NE then Some (val \<noteq> -1)
      else if val = -1 then Some False
      else do { res \<leftarrow> c_signed 32 (val - n); Some (expr_op_to_bool res op) })"

text \<open>Two keys: the strings, when the first key has one; otherwise the numbers.\<close>

definition eval_id :: "(string \<Rightarrow> string option) \<Rightarrow> string \<Rightarrow> string \<Rightarrow> op \<Rightarrow> track_info \<Rightarrow> bool option" where
  "eval_id to_utf8 key key2 op ti =
     do { sa \<leftarrow> str_val to_utf8 key ti;
          case sa of
            Some sa \<Rightarrow>
              do { sb \<leftarrow> str_val to_utf8 key2 ti;
                   Some (case sb of Some sb \<Rightarrow> expr_op_to_bool (strcmp sa sb) op | None \<Rightarrow> False) }
          | None \<Rightarrow>
              do { a \<leftarrow> int_val key ti;
                   b \<leftarrow> int_val key2 ti;
                   res \<leftarrow> c_signed 32 (a - b);
                   Some (if (a = -1 \<or> b = -1) \<and> op \<noteq> OP_EQ \<and> op \<noteq> OP_NE then False else expr_op_to_bool res op) } }"

fun expr_eval ::
    "(uchar \<Rightarrow> uchar) \<Rightarrow> (uchar \<times> uchar) list \<Rightarrow> (string \<Rightarrow> string option) \<Rightarrow> expr \<Rightarrow> track_info \<Rightarrow> bool option" where
  "expr_eval lower tab to_utf8 (Bin b l r) ti =
     (case l of None \<Rightarrow> None | Some l \<Rightarrow>
        do { left \<leftarrow> expr_eval lower tab to_utf8 l ti;
             if (b = EXPR_AND) \<noteq> left then Some left
             else case r of None \<Rightarrow> None | Some r \<Rightarrow> expr_eval lower tab to_utf8 r ti })"
| "expr_eval lower tab to_utf8 (EXPR_NOT e) ti = map_option Not (expr_eval lower tab to_utf8 e ti)"
| "expr_eval lower tab to_utf8 (EXPR_STR key glob op) ti =
     do { val \<leftarrow> str_val to_utf8 key ti;
          res \<leftarrow> glob_match lower tab glob (case val of None \<Rightarrow> [] | Some v \<Rightarrow> v);
          Some (if op = OP_EQ then res else \<not> res) }"
| "expr_eval lower tab to_utf8 (EXPR_INT key n op) ti = do { val \<leftarrow> int_val key ti; eval_int val n op }"
| "expr_eval lower tab to_utf8 (EXPR_ID key key2 op) ti = eval_id to_utf8 key key2 op ti"
| "expr_eval lower tab to_utf8 (EXPR_BOOL key) ti =
     Some (if key = ''stream'' then is_http_url (ti_filename ti) else track_info_has_tag ti)"

section \<open>What an expression is about\<close>

text \<open>\<open>expr_get_match_type\<close>, as a set of bits.\<close>

fun leaf_name :: "expr \<Rightarrow> string" where
  "leaf_name (EXPR_STR key _ _) = key" | "leaf_name (EXPR_INT key _ _) = key" | "leaf_name (EXPR_ID key _ _) = key"
| "leaf_name (EXPR_BOOL key) = key" | "leaf_name _ = []"

fun expr_get_match_type :: "expr \<Rightarrow> u32 option" where
  "expr_get_match_type (Bin b l r) =
     (case l of None \<Rightarrow> None | Some l \<Rightarrow>
        (case r of None \<Rightarrow> None | Some r \<Rightarrow>
           do { left \<leftarrow> expr_get_match_type l; right \<leftarrow> expr_get_match_type r; Some (left OR right) }))"
| "expr_get_match_type (EXPR_NOT e) = expr_get_match_type e"
| "expr_get_match_type e =
     (let key = leaf_name e
      in Some (if key = ''artist'' \<or> key = ''albumartist'' then TI_MATCH_ARTIST
               else if key = ''album'' \<or> key = ''discnumber'' then TI_MATCH_ALBUM
               else if key = ''title'' \<or> key = ''tracknumber'' then TI_MATCH_TITLE else 0))"

definition expr_is_harmless :: "expr \<Rightarrow> bool option" where
  "expr_is_harmless e =
     (let plain = (\<lambda>e. case e of EXPR_INT key n op \<Rightarrow> op \<notin> {OP_LT, OP_EQ, OP_LE} | EXPR_ID _ _ _ \<Rightarrow> False | _ \<Rightarrow> True)
      in case e of
           Bin b l r \<Rightarrow> if b = EXPR_OR then Some False else map_option plain r
         | EXPR_NOT _ \<Rightarrow> Some False
         | _ \<Rightarrow> Some (plain e))"

section \<open>The meaning\<close>

text \<open>
  A formula over the values \<open>sv\<close> of the string keys, as characters, and \<open>iv\<close> of the integer keys, where \<open>-1\<close> stands for
  a missing value. \<open>pat\<close> is the pattern of a string literal.
\<close>

fun op_holds :: "op \<Rightarrow> int \<Rightarrow> int \<Rightarrow> bool" where
  "op_holds OP_LT a b \<longleftrightarrow> a < b" | "op_holds OP_LE a b \<longleftrightarrow> a \<le> b" | "op_holds OP_EQ a b \<longleftrightarrow> a = b"
| "op_holds OP_GE a b \<longleftrightarrow> a \<ge> b" | "op_holds OP_GT a b \<longleftrightarrow> a > b" | "op_holds OP_NE a b \<longleftrightarrow> a \<noteq> b"

record values_of =
  sv :: "string \<Rightarrow> uchar list"
  iv :: "string \<Rightarrow> int"
  flag :: "string \<Rightarrow> bool"

definition lit :: "string \<Rightarrow> int" where
  "lit num = c_int (fst (strtol num))"

fun sat :: "(uchar \<Rightarrow> uchar) \<Rightarrow> (string \<Rightarrow> uchar list) \<Rightarrow> values_of \<Rightarrow> syn \<Rightarrow> bool" where
  "sat g pat v (Syn_Bin EXPR_AND l r) \<longleftrightarrow> sat g pat v l \<and> sat g pat v r"
| "sat g pat v (Syn_Bin EXPR_OR l r) \<longleftrightarrow> sat g pat v l \<or> sat g pat v r"
| "sat g pat v (Syn_Not e) \<longleftrightarrow> \<not> sat g pat v e"
| "sat g pat v (Syn_Leaf (Str_Leaf key s ne)) \<longleftrightarrow> pattern_match g (pat s) (sv v key) \<noteq> ne"
| "sat g pat v (Syn_Leaf (Int_Leaf key num op)) \<longleftrightarrow>
     op_holds op (iv v key) (lit num) \<and> (iv v key = -1 \<longrightarrow> lit num = -1 \<and> op = OP_EQ)"
| "sat g pat v (Syn_Leaf (Id_Leaf key key2 op)) \<longleftrightarrow> False"
| "sat g pat v (Syn_Leaf (Bool_Leaf key)) \<longleftrightarrow> flag v key"

text \<open>
  Where the evaluation faults: it comes, past what the operators short-circuit, to a comparison of integers whose difference
  does not fit an \<open>int\<close>. Asking whether a value is set, or comparing one that is not set, computes no difference.
\<close>

definition diff_overflows :: "op \<Rightarrow> int \<Rightarrow> int \<Rightarrow> bool" where
  "diff_overflows op a n \<longleftrightarrow>
     a \<noteq> -1 \<and> \<not> (n = -1 \<and> (op = OP_EQ \<or> op = OP_NE)) \<and> (a - n < - (2 ^ 31) \<or> 2 ^ 31 \<le> a - n)"

fun overflows :: "(uchar \<Rightarrow> uchar) \<Rightarrow> (string \<Rightarrow> uchar list) \<Rightarrow> values_of \<Rightarrow> syn \<Rightarrow> bool" where
  "overflows g pat v (Syn_Bin EXPR_AND l r) \<longleftrightarrow> overflows g pat v l \<or> sat g pat v l \<and> overflows g pat v r"
| "overflows g pat v (Syn_Bin EXPR_OR l r) \<longleftrightarrow> overflows g pat v l \<or> \<not> sat g pat v l \<and> overflows g pat v r"
| "overflows g pat v (Syn_Not e) \<longleftrightarrow> overflows g pat v e"
| "overflows g pat v (Syn_Leaf (Int_Leaf key num op)) \<longleftrightarrow> diff_overflows op (iv v key) (lit num)"
| "overflows g pat v (Syn_Leaf l) \<longleftrightarrow> False"

fun leaves :: "syn \<Rightarrow> leaf list" where
  "leaves (Syn_Bin b l r) = leaves l @ leaves r"
| "leaves (Syn_Not e) = leaves e"
| "leaves (Syn_Leaf l) = [l]"

text \<open>
  What a leaf needs: texts in UTF-8 whose characters the matcher can compare, and no comparison of two keys, which the check
  of the leaves refuses in every filter.
\<close>

fun leaf_env ::
    "(uchar \<Rightarrow> uchar) \<Rightarrow> (uchar \<times> uchar) list \<Rightarrow> (string \<Rightarrow> string option) \<Rightarrow> (string \<Rightarrow> uchar list) \<Rightarrow> values_of \<Rightarrow> track_info \<Rightarrow> leaf \<Rightarrow> bool"
  where
  "leaf_env lower tab to_utf8 pat v ti (Str_Leaf key s ne) \<longleftrightarrow>
     utf8 (pat s) = s \<and> list_all code_point (pat s) \<and> list_all code_point (sv v key) \<and>
     glob_ok lower tab (set (pat s) \<union> set (sv v key)) \<and>
     (str_val to_utf8 key ti = Some (Some (utf8 (sv v key))) \<or> str_val to_utf8 key ti = Some None \<and> sv v key = [])"
| "leaf_env lower tab to_utf8 pat v ti (Int_Leaf key num op) \<longleftrightarrow>
     int_val key ti = Some (iv v key)"
| "leaf_env lower tab to_utf8 pat v ti (Id_Leaf key key2 op) \<longleftrightarrow> False"
| "leaf_env lower tab to_utf8 pat v ti (Bool_Leaf key) \<longleftrightarrow>
     flag v key = (if key = ''stream'' then is_http_url (ti_filename ti) else track_info_has_tag ti)"

lemma op_bool: "expr_op_to_bool (a - b) op \<longleftrightarrow> op_holds op a b"
  by (cases op) auto

lemma eval_leaf:
  assumes "leaf_env lower tab to_utf8 pat v ti l"
  shows "expr_eval lower tab to_utf8 (leaf_expr l) ti =
    (if overflows (norm_char lower (Some tab)) pat v (Syn_Leaf l) then None
     else Some (sat (norm_char lower (Some tab)) pat v (Syn_Leaf l)))"
proof (cases l)
  case (Str_Leaf key s ne)
  note env = assms [unfolded Str_Leaf leaf_env.simps]
  obtain items where items: "glob_compile (utf8 (pat s)) = Some items"
    "glob_match lower tab items (utf8 (sv v key)) = Some (pattern_match (norm_char lower (Some tab)) (pat s) (sv v key))"
    using glob_match_pattern [of lower tab "pat s" "sv v key"] env by blast
  then have g: "the (glob_compile s) = items" using env by simp
  have "\<exists>val. str_val to_utf8 key ti = Some val \<and> (case val of None \<Rightarrow> [] | Some y \<Rightarrow> y) = utf8 (sv v key)"
    using env by fastforce
  then show ?thesis using items(2) g by (auto simp: Str_Leaf)
next
  case (Int_Leaf key num op)
  note env = assms [unfolded Int_Leaf leaf_env.simps]
  then show ?thesis
    by (auto simp: Int_Leaf eval_int_def op_bool diff_overflows_def c_signed_def lit_def [symmetric])
qed (use assms in auto)

lemma eval_syn:
  "list_all (leaf_env lower tab to_utf8 pat v ti) (leaves e) \<Longrightarrow>
    expr_eval lower tab to_utf8 (syn_expr e) ti =
      (if overflows (norm_char lower (Some tab)) pat v e then None else Some (sat (norm_char lower (Some tab)) pat v e))"
proof (induction e)
  case (Syn_Bin b l r)
  then show ?case by (cases b) simp_all
next
  case (Syn_Leaf l)
  then show ?case using eval_leaf [of lower tab to_utf8 pat v ti l] by simp
qed simp

section \<open>Properties\<close>

text \<open>
  C24. Evaluating an expression on a track gives its truth value as a formula over the track's values: globs match as patterns,
  integers compare as integers with \<open>-1\<close> for a missing value, operators short-circuit. It faults exactly when it comes to a
  comparison of integers whose difference overflows. The texts have to be UTF-8 that the matcher can compare, and the expression
  has no comparison of two keys.
\<close>

theorem expr_eval_correct:
  assumes "list_all (leaf_env lower tab to_utf8 pat v ti) (leaves e)"
  shows "expr_eval lower tab to_utf8 (syn_expr e) ti =
    (if overflows (norm_char lower (Some tab)) pat v e then None else Some (sat (norm_char lower (Some tab)) pat v e))"
  by (rule eval_syn [OF assms])

definition example_stream :: track_info where
  "example_stream = example_track\<lparr>ti_filename := ''http://a'', ti_date := 19991231\<rparr>"

theorem expr_eval_correct_witness:
  "expr_eval id [] (\<lambda>_. None) (syn_expr (Syn_Bin EXPR_AND (Syn_Leaf (Bool_Leaf ''stream'')) (Syn_Leaf (Int_Leaf ''date'' ''1999'' OP_EQ))))
     example_stream = Some True"
proof -
  have lit: "lit ''1999'' = 1999" unfolding lit_def by code_simp
  let ?v = "\<lparr>sv = \<lambda>_. [], iv = \<lambda>_. 1999, flag = \<lambda>_. True\<rparr>"
  have "list_all (leaf_env id [] (\<lambda>_. None) (\<lambda>_. []) ?v example_stream)
      (leaves (Syn_Bin EXPR_AND (Syn_Leaf (Bool_Leaf ''stream'')) (Syn_Leaf (Int_Leaf ''date'' ''1999'' OP_EQ))))"
    by (simp add: lit example_stream_def int_val_def is_http_url_def c_div_def)
  from expr_eval_correct [OF this] show ?thesis by (simp add: lit diff_overflows_def)
qed

text \<open>
  For a stream, whose duration counts as the largest integer, a comparison of the duration with a negative number
  overflows a signed integer, unless it asks whether the duration is set.
\<close>

theorem duration_overflow:
  assumes "is_http_url (ti_filename ti)" and "n < 0" and "\<not> (n = -1 \<and> (op = OP_EQ \<or> op = OP_NE))"
  shows "expr_eval lower tab to_utf8 (EXPR_INT ''duration'' n op) ti = None"
  using assms by (auto simp: int_val_def eval_int_def c_signed_def)

theorem duration_overflow_witness:
  "expr_eval id [] (\<lambda>_. None) (EXPR_INT ''duration'' (-5) OP_GT) example_stream = None"
  using duration_overflow [of example_stream "-5" OP_GT] by (simp add: example_stream_def is_http_url_def)

end
