(* ===== verification/Simulation.thy ===== *)
theory Simulation
  imports Main
begin

text \<open>
  Refinement of an abstract type by a concrete one with faults: \<open>step c s\<close> is an operation of the code, \<open>spec c a\<close> its meaning,
  \<open>rep s a\<close> relates states, and \<open>ok c s\<close> is what the operation needs. One step proved correct gives every sequence of steps.
\<close>

primrec exec :: "('c \<Rightarrow> 's \<Rightarrow> 's option) \<Rightarrow> 'c list \<Rightarrow> 's \<Rightarrow> 's option" where
  "exec step [] s = Some s"
| "exec step (c # cs) s = (case step c s of None \<Rightarrow> None | Some s' \<Rightarrow> exec step cs s')"

text \<open>Every operation of the sequence meets its condition when its turn comes.\<close>

primrec all_ok :: "('c \<Rightarrow> 's \<Rightarrow> 's option) \<Rightarrow> ('c \<Rightarrow> 's \<Rightarrow> bool) \<Rightarrow> 'c list \<Rightarrow> 's \<Rightarrow> bool" where
  "all_ok step ok [] s \<longleftrightarrow> True"
| "all_ok step ok (c # cs) s \<longleftrightarrow> ok c s \<and> (case step c s of None \<Rightarrow> True | Some s' \<Rightarrow> all_ok step ok cs s')"

lemma all_ok_valid: "list_all valid cs \<Longrightarrow> all_ok step (\<lambda>c s. valid c) cs s"
  by (induction cs arbitrary: s) (auto split: option.splits)

locale simulation =
  fixes step :: "'c \<Rightarrow> 's \<Rightarrow> 's option"
    and spec :: "'c \<Rightarrow> 'a \<Rightarrow> 'a"
    and rep :: "'s \<Rightarrow> 'a \<Rightarrow> bool"
    and ok :: "'c \<Rightarrow> 's \<Rightarrow> bool"
  assumes sim_step: "rep s a \<Longrightarrow> ok c s \<Longrightarrow> \<exists>s'. step c s = Some s' \<and> rep s' (spec c a)"
begin

lemma sim_exec: "rep s a \<Longrightarrow> all_ok step ok cs s \<Longrightarrow> \<exists>s'. exec step cs s = Some s' \<and> rep s' (fold spec cs a)"
proof (induction cs arbitrary: s a)
  case (Cons c cs)
  then obtain s' where "step c s = Some s'" "rep s' (spec c a)" using sim_step by fastforce
  then show ?case using Cons by simp
qed simp

end

text \<open>
  The same where a condition is exact: a valid operation that meets \<open>fits\<close> refines its meaning, and any other faults. A sequence
  of valid operations then refines its meaning, or faults at the first operation that does not fit.
\<close>

locale exact_simulation =
  fixes step :: "'c \<Rightarrow> 's \<Rightarrow> 's option"
    and spec :: "'c \<Rightarrow> 'a \<Rightarrow> 'a"
    and rep :: "'s \<Rightarrow> 'a \<Rightarrow> bool"
    and valid :: "'c \<Rightarrow> bool"
    and fits :: "'c \<Rightarrow> 's \<Rightarrow> bool"
  assumes good: "rep s a \<Longrightarrow> valid c \<Longrightarrow> fits c s \<Longrightarrow> \<exists>s'. step c s = Some s' \<and> rep s' (spec c a)"
    and bad: "rep s a \<Longrightarrow> valid c \<Longrightarrow> \<not> fits c s \<Longrightarrow> step c s = None"
begin

lemma exact_exec:
  "rep s a \<Longrightarrow> list_all valid cs \<Longrightarrow>
   if all_ok step fits cs s then \<exists>s'. exec step cs s = Some s' \<and> rep s' (fold spec cs a) else exec step cs s = None"
proof (induction cs arbitrary: s a)
  case (Cons c cs)
  show ?case
  proof (cases "fits c s")
    case True
    then obtain s' where "step c s = Some s'" "rep s' (spec c a)" using good Cons.prems by fastforce
    then show ?thesis using Cons.IH [of s' "spec c a"] Cons.prems True by simp
  next
    case False
    then show ?thesis using bad Cons.prems by simp
  qed
qed simp

end

sublocale exact_simulation \<subseteq> simulation step spec rep "\<lambda>c s. valid c \<and> fits c s"
  by unfold_locales (use good in blast)

end
