(* ===== verification/Rbtree.thy ===== *)
theory Rbtree
  imports Prelude Simulation
begin

text \<open>
  The red-black trees of \<^verbatim>\<open>src/app/rbtree.c\<close>, on a store of nodes with parent pointers; address 0 is \<open>NULL\<close>. The two mirrored halves of
  each function are one definition with a direction. The theory relates the store to a tree with a hole, and proves that
  linking, recolouring, erasing, replacing and stepping do to the sequence of nodes what they should, and keep the
  tree balanced.
\<close>

section \<open>The model\<close>

datatype dir = L | R

fun opp :: "dir \<Rightarrow> dir" where
  "opp L = R"
| "opp R = L"

text \<open>\<open>rb_parent_color\<close> is the parent and the colour; \<open>rb_left\<close> and \<open>rb_right\<close> are \<open>rb_child\<close> at \<open>L\<close> and \<open>R\<close>.\<close>

record rb_node =
  rb_parent :: nat
  rb_black :: bool
  rb_child :: "dir \<Rightarrow> nat"

record rb =
  rb_nodes :: "nat \<Rightarrow> rb_node"
  rb_root :: nat

definition rb_get :: "nat \<Rightarrow> rb \<Rightarrow> rb_node option" where
  "rb_get p s = (if p = 0 then None else Some (rb_nodes s p))"

definition rb_upd :: "nat \<Rightarrow> (rb_node \<Rightarrow> rb_node) \<Rightarrow> rb \<Rightarrow> rb option" where
  "rb_upd p f s = (if p = 0 then None else Some (s\<lparr>rb_nodes := (rb_nodes s)(p := f (rb_nodes s p))\<rparr>))"

definition rb_set_parent :: "nat \<Rightarrow> nat \<Rightarrow> rb \<Rightarrow> rb option" where
  "rb_set_parent p q s = rb_upd p (\<lambda>n. n\<lparr>rb_parent := q\<rparr>) s"

definition rb_set_color :: "nat \<Rightarrow> bool \<Rightarrow> rb \<Rightarrow> rb option" where
  "rb_set_color p black s = rb_upd p (\<lambda>n. n\<lparr>rb_black := black\<rparr>) s"

definition rb_set_child :: "nat \<Rightarrow> dir \<Rightarrow> nat \<Rightarrow> rb \<Rightarrow> rb option" where
  "rb_set_child p d q s = rb_upd p (\<lambda>n. n\<lparr>rb_child := (rb_child n)(d := q)\<rparr>) s"

text \<open>The link to \<open>node\<close> in its parent or the root becomes \<open>new\<close>; the parent's child at \<open>d\<close> is looked at first.\<close>

definition replace_link :: "dir \<Rightarrow> nat \<Rightarrow> nat \<Rightarrow> nat \<Rightarrow> rb \<Rightarrow> rb option" where
  "replace_link d parent node new s =
     (if parent \<noteq> 0
      then do { n \<leftarrow> rb_get parent s;
                rb_set_child parent (if node = rb_child n d then d else opp d) new s }
      else Some (s\<lparr>rb_root := new\<rparr>))"

text \<open>\<open>_rb_rotate_left\<close> for \<open>d = L\<close>, \<open>_rb_rotate_right\<close> for \<open>d = R\<close>.\<close>

definition rb_rotate :: "dir \<Rightarrow> nat \<Rightarrow> rb \<Rightarrow> rb option" where
  "rb_rotate d node s =
     do { n \<leftarrow> rb_get node s;
          let right = rb_child n (opp d);
          let parent = rb_parent n;
          r \<leftarrow> rb_get right s;
          let inner = rb_child r d;
          s \<leftarrow> rb_set_child node (opp d) inner s;
          s \<leftarrow> (if inner \<noteq> 0 then rb_set_parent inner node s else Some s);
          s \<leftarrow> rb_set_child right d node s;
          s \<leftarrow> rb_set_parent right parent s;
          s \<leftarrow> replace_link d parent node right s;
          rb_set_parent node right s }"

definition rb_is_red :: "nat \<Rightarrow> rb \<Rightarrow> bool option" where
  "rb_is_red p s = map_option (\<lambda>n. \<not> rb_black n) (rb_get p s)"

text \<open>\<open>p && rb_is_red(p)\<close>\<close>

definition red_child :: "nat \<Rightarrow> rb \<Rightarrow> bool option" where
  "red_child p s = (if p = 0 then Some False else rb_is_red p s)"

text \<open>One round of the loop of \<open>rb_insert_color\<close>: the final store, or the next node and store.\<close>

definition insert_step :: "nat \<Rightarrow> rb \<Rightarrow> (rb + nat \<times> rb) option" where
  "insert_step node s =
     do { n \<leftarrow> rb_get node s;
          let parent = rb_parent n;
          red \<leftarrow> red_child parent s;
          if \<not> red then Some (Inl s)
          else do { pn \<leftarrow> rb_get parent s;
                    let gparent = rb_parent pn;
                    g \<leftarrow> rb_get gparent s;
                    let d = (if parent = rb_child g L then L else R);
                    let uncle = rb_child g (opp d);
                    red \<leftarrow> red_child uncle s;
                    if red
                    then do { s \<leftarrow> rb_set_color uncle True s;
                              s \<leftarrow> rb_set_color parent True s;
                              s \<leftarrow> rb_set_color gparent False s;
                              Some (Inr (gparent, s)) }
                    else do { (parent, node, s) \<leftarrow>
                                (if rb_child pn (opp d) = node
                                 then map_option (\<lambda>s. (node, parent, s)) (rb_rotate d parent s)
                                 else Some (parent, node, s));
                              s \<leftarrow> rb_set_color parent True s;
                              s \<leftarrow> rb_set_color gparent False s;
                              s \<leftarrow> rb_rotate (opp d) gparent s;
                              Some (Inr (node, s)) } } }"

partial_function (option) insert_loop :: "nat \<Rightarrow> rb \<Rightarrow> rb option" where
  [code]: "insert_loop node s =
     do { r \<leftarrow> insert_step node s;
          case r of Inl s \<Rightarrow> Some s | Inr (node, s) \<Rightarrow> insert_loop node s }"

definition rb_insert_color :: "nat \<Rightarrow> rb \<Rightarrow> rb option" where
  "rb_insert_color node s = do { s \<leftarrow> insert_loop node s; rb_set_color (rb_root s) True s }"

text \<open>The link is the root, or the child of \<open>parent\<close> at \<open>d\<close>.\<close>

definition rb_link_node :: "nat \<Rightarrow> nat \<Rightarrow> dir \<Rightarrow> rb \<Rightarrow> rb option" where
  "rb_link_node node parent d s =
     do { s \<leftarrow> rb_upd node (\<lambda>_. \<lparr>rb_parent = parent, rb_black = False, rb_child = (\<lambda>_. 0)\<rparr>) s;
          if parent = 0 then Some (s\<lparr>rb_root := node\<rparr>) else rb_set_child parent d node s }"

text \<open>
  One round of the loop of \<open>_rb_erase_color\<close>: the node to paint at the end, or the next node and its parent. First what is done when
  the sibling \<open>other\<close> is black.
\<close>

definition erase_black :: "dir \<Rightarrow> nat \<Rightarrow> nat \<Rightarrow> rb \<Rightarrow> (nat \<times> rb + nat \<times> nat \<times> rb) option" where
  "erase_black d parent other s =
     do { n' \<leftarrow> rb_get other s;
          near \<leftarrow> red_child (rb_child n' d) s;
          far \<leftarrow> red_child (rb_child n' (opp d)) s;
          if \<not> near \<and> \<not> far
          then do { s \<leftarrow> rb_set_color other False s;
                    n \<leftarrow> rb_get parent s;
                    Some (Inr (parent, rb_parent n, s)) }
          else do { (other, s) \<leftarrow>
                      (if \<not> far
                       then do { s \<leftarrow> rb_set_color (rb_child n' d) True s;
                                 s \<leftarrow> rb_set_color other False s;
                                 s \<leftarrow> rb_rotate (opp d) other s;
                                 n \<leftarrow> rb_get parent s;
                                 Some (rb_child n (opp d), s) }
                       else Some (other, s));
                    n \<leftarrow> rb_get parent s;
                    s \<leftarrow> rb_set_color other (rb_black n) s;
                    s \<leftarrow> rb_set_color parent True s;
                    n' \<leftarrow> rb_get other s;
                    s \<leftarrow> rb_set_color (rb_child n' (opp d)) True s;
                    s \<leftarrow> rb_rotate d parent s;
                    Some (Inl (rb_root s, s)) } }"

definition erase_step :: "nat \<Rightarrow> nat \<Rightarrow> rb \<Rightarrow> (nat \<times> rb + nat \<times> nat \<times> rb) option" where
  "erase_step node parent s =
     do { red \<leftarrow> red_child node s;
          if red \<or> node = rb_root s then Some (Inl (node, s))
          else do { n \<leftarrow> rb_get parent s;
                    let d = (if rb_child n L = node then L else R);
                    let other = rb_child n (opp d);
                    red \<leftarrow> rb_is_red other s;
                    if red
                    then do { s \<leftarrow> rb_set_color other True s;
                              s \<leftarrow> rb_set_color parent False s;
                              s \<leftarrow> rb_rotate d parent s;
                              n \<leftarrow> rb_get parent s;
                              erase_black d parent (rb_child n (opp d)) s }
                    else erase_black d parent other s } }"

partial_function (option) erase_loop :: "nat \<Rightarrow> nat \<Rightarrow> rb \<Rightarrow> (nat \<times> rb) option" where
  [code]: "erase_loop node parent s =
     do { r \<leftarrow> erase_step node parent s;
          case r of Inl res \<Rightarrow> Some res | Inr (node, parent, s) \<Rightarrow> erase_loop node parent s }"

definition rb_erase_color :: "nat \<Rightarrow> nat \<Rightarrow> rb \<Rightarrow> rb option" where
  "rb_erase_color node parent s =
     do { (node, s) \<leftarrow> erase_loop node parent s;
          if node \<noteq> 0 then rb_set_color node True s else Some s }"

text \<open>As far as possible in one direction: \<open>while ((left = node->rb_left) != NULL) node = left\<close>.\<close>

partial_function (option) descend :: "dir \<Rightarrow> nat \<Rightarrow> rb \<Rightarrow> nat option" where
  [code]: "descend d node s =
     do { n \<leftarrow> rb_get node s;
          if rb_child n d = 0 then Some node else descend d (rb_child n d) s }"

text \<open>
  The parts of \<open>rb_erase\<close>: the successor \<open>node\<close> takes the place of \<open>old\<close>; a node is taken out. Both give the child that moved up, its
  parent and the colour that was lost.
\<close>

definition take_place :: "nat \<Rightarrow> nat \<Rightarrow> rb \<Rightarrow> (nat \<times> nat \<times> bool \<times> rb) option" where
  "take_place old node s =
     do { n \<leftarrow> rb_get old s;
          s \<leftarrow> replace_link L (rb_parent n) old node s;
          m \<leftarrow> rb_get node s;
          let child = rb_child m R;
          let parent = rb_parent m;
          let color = rb_black m;
          (parent, s) \<leftarrow>
            (if parent = old then Some (node, s)
             else do { s \<leftarrow> (if child \<noteq> 0 then rb_set_parent child parent s else Some s);
                       s \<leftarrow> rb_set_child parent L child s;
                       n \<leftarrow> rb_get old s;
                       s \<leftarrow> rb_set_child node R (rb_child n R) s;
                       s \<leftarrow> rb_set_parent (rb_child n R) node s;
                       Some (parent, s) });
          n \<leftarrow> rb_get old s;
          s \<leftarrow> rb_upd node (\<lambda>m. m\<lparr>rb_parent := rb_parent n, rb_black := rb_black n\<rparr>) s;
          s \<leftarrow> rb_set_child node L (rb_child n L) s;
          s \<leftarrow> rb_set_parent (rb_child n L) node s;
          Some (child, parent, color, s) }"

definition take_out :: "nat \<Rightarrow> rb \<Rightarrow> (nat \<times> nat \<times> bool \<times> rb) option" where
  "take_out node s =
     do { n \<leftarrow> rb_get node s;
          if rb_child n L = 0 \<or> rb_child n R = 0
          then do { let child = (if rb_child n L = 0 then rb_child n R else rb_child n L);
                    let parent = rb_parent n;
                    s \<leftarrow> (if child \<noteq> 0 then rb_set_parent child parent s else Some s);
                    s \<leftarrow> replace_link L parent node child s;
                    Some (child, parent, rb_black n, s) }
          else do { next \<leftarrow> descend L (rb_child n R) s; take_place node next s } }"

definition rb_erase :: "nat \<Rightarrow> rb \<Rightarrow> rb option" where
  "rb_erase node s =
     do { (child, parent, color, s) \<leftarrow> take_out node s;
          if color then rb_erase_color child parent s else Some s }"

text \<open>\<open>rb_first\<close> for \<open>d = L\<close>, \<open>rb_last\<close> for \<open>d = R\<close>; 0 when the tree is empty.\<close>

definition rb_end :: "dir \<Rightarrow> rb \<Rightarrow> nat option" where
  "rb_end d s = (if rb_root s = 0 then Some 0 else descend d (rb_root s) s)"

partial_function (option) climb :: "dir \<Rightarrow> nat \<Rightarrow> rb \<Rightarrow> nat option" where
  [code]: "climb d node s =
     do { n \<leftarrow> rb_get node s;
          if rb_parent n = 0 then Some 0
          else do { p \<leftarrow> rb_get (rb_parent n) s;
                    if node = rb_child p d then climb d (rb_parent n) s else Some (rb_parent n) } }"

text \<open>\<open>rb_next\<close> for \<open>d = R\<close>, \<open>rb_prev\<close> for \<open>d = L\<close>; a cleared node is its own parent.\<close>

definition rb_step :: "dir \<Rightarrow> nat \<Rightarrow> rb \<Rightarrow> nat option" where
  "rb_step d node s =
     do { n \<leftarrow> rb_get node s;
          if rb_parent n = node then Some 0
          else if rb_child n d \<noteq> 0 then descend (opp d) (rb_child n d) s
          else climb d node s }"

definition rb_replace_node :: "nat \<Rightarrow> nat \<Rightarrow> rb \<Rightarrow> rb option" where
  "rb_replace_node victim new s =
     do { n \<leftarrow> rb_get victim s;
          s \<leftarrow> replace_link L (rb_parent n) victim new s;
          s \<leftarrow> (if rb_child n L \<noteq> 0 then rb_set_parent (rb_child n L) new s else Some s);
          s \<leftarrow> (if rb_child n R \<noteq> 0 then rb_set_parent (rb_child n R) new s else Some s);
          n \<leftarrow> rb_get victim s;
          rb_upd new (\<lambda>_. n) s }"

definition rb_clear_node :: "nat \<Rightarrow> rb \<Rightarrow> rb option" where
  "rb_clear_node node s = rb_set_parent node node s"

definition rb_empty_node :: "nat \<Rightarrow> rb \<Rightarrow> bool option" where
  "rb_empty_node node s = map_option (\<lambda>n. rb_parent n = node) (rb_get node s)"

section \<open>Trees\<close>

datatype rb_tree = Leaf | Node bool rb_tree nat rb_tree

text \<open>A node whose child at \<open>d\<close> is \<open>x\<close> and whose other child is \<open>y\<close>.\<close>

fun node :: "dir \<Rightarrow> bool \<Rightarrow> nat \<Rightarrow> rb_tree \<Rightarrow> rb_tree \<Rightarrow> rb_tree" where
  "node L c a x y = Node c x a y"
| "node R c a x y = Node c y a x"

fun inorder :: "rb_tree \<Rightarrow> nat list" where
  "inorder Leaf = []"
| "inorder (Node c l a r) = inorder l @ a # inorder r"

fun nodes :: "rb_tree \<Rightarrow> nat set" where
  "nodes Leaf = {}"
| "nodes (Node c l a r) = insert a (nodes l \<union> nodes r)"

fun root_ptr :: "rb_tree \<Rightarrow> nat" where
  "root_ptr Leaf = 0"
| "root_ptr (Node c l a r) = a"

fun black :: "rb_tree \<Rightarrow> bool" where
  "black Leaf \<longleftrightarrow> True"
| "black (Node c l a r) \<longleftrightarrow> c"

text \<open>A hole in a tree: from the hole up, the side it is on, the node above it and that node's other subtree.\<close>

type_synonym frame = "dir \<times> bool \<times> nat \<times> rb_tree"

fun plug :: "frame list \<Rightarrow> rb_tree \<Rightarrow> rb_tree" where
  "plug [] t = t"
| "plug ((d, c, a, u) # z) t = plug z (node d c a t u)"

fun frame_nodes :: "frame list \<Rightarrow> nat set" where
  "frame_nodes [] = {}"
| "frame_nodes ((d, c, a, u) # z) = insert a (nodes u \<union> frame_nodes z)"

fun above :: "frame list \<Rightarrow> nat" where
  "above [] = 0"
| "above ((d, c, a, u) # z) = a"

lemma opp_opp [simp]: "opp (opp d) = d"
  by (cases d) simp_all

lemma opp_neq [simp]: "opp d \<noteq> d" "d \<noteq> opp d"
  by (cases d; simp)+

lemma nodes_inorder: "set (inorder t) = nodes t"
  by (induction t) auto

lemma nodes_node [simp]: "nodes (node d c a x y) = insert a (nodes x \<union> nodes y)"
  by (cases d) auto

lemma nodes_plug: "nodes (plug z t) = frame_nodes z \<union> nodes t"
  by (induction z t rule: plug.induct) auto

lemma black_node [simp]: "black (node d c a x y) = c" "root_ptr (node d c a x y) = a" "node d c a x y \<noteq> Leaf"
  by (cases d; simp)+

lemma node_opp: "node (opp d) c a x y = node d c a y x"
  by (cases d) simp_all

lemma Node_node: "Node c l a r = node L c a l r"
  by simp

section \<open>The store holds a tree\<close>

fun tree :: "(nat \<Rightarrow> rb_node) \<Rightarrow> nat \<Rightarrow> nat \<Rightarrow> rb_tree \<Rightarrow> bool" where
  "tree h p par Leaf \<longleftrightarrow> p = 0"
| "tree h p par (Node c l a r) \<longleftrightarrow> p = a \<and> a \<noteq> 0 \<and> rb_parent (h a) = par \<and> rb_black (h a) = c \<and>
     tree h (rb_child (h a) L) a l \<and> tree h (rb_child (h a) R) a r \<and> a \<notin> nodes l \<and> a \<notin> nodes r \<and> nodes l \<inter> nodes r = {}"

fun holes :: "(nat \<Rightarrow> rb_node) \<Rightarrow> nat \<Rightarrow> frame list \<Rightarrow> nat \<Rightarrow> bool" where
  "holes h rt [] p \<longleftrightarrow> rt = p"
| "holes h rt ((d, c, a, u) # z) p \<longleftrightarrow> a \<noteq> 0 \<and> rb_parent (h a) = above z \<and> rb_black (h a) = c \<and> rb_child (h a) d = p \<and>
     tree h (rb_child (h a) (opp d)) a u \<and> holes h rt z a \<and> a \<notin> nodes u \<and> a \<notin> frame_nodes z \<and> nodes u \<inter> frame_nodes z = {}"

text \<open>\<open>G\<close> are nodes outside of the tree, and what they hold.\<close>

definition kept :: "(nat \<Rightarrow> rb_node option) \<Rightarrow> rb \<Rightarrow> nat set \<Rightarrow> bool" where
  "kept G s N \<longleftrightarrow> (\<forall>b n. G b = Some n \<longrightarrow> b \<notin> N \<and> rb_nodes s b = n)"

definition focus :: "(nat \<Rightarrow> rb_node option) \<Rightarrow> rb \<Rightarrow> frame list \<Rightarrow> rb_tree \<Rightarrow> bool" where
  "focus G s z t \<longleftrightarrow> tree (rb_nodes s) (root_ptr t) (above z) t \<and> holes (rb_nodes s) (rb_root s) z (root_ptr t) \<and> nodes t \<inter> frame_nodes z = {} \<and>
     kept G s (nodes t \<union> frame_nodes z)"

definition holds_tree :: "(nat \<Rightarrow> rb_node option) \<Rightarrow> rb \<Rightarrow> rb_tree \<Rightarrow> bool" where
  "holds_tree G s t \<longleftrightarrow> focus G s [] t"

lemma kept_change:
  assumes "kept G s N" "N' \<subseteq> N" "\<And>b. b \<notin> N \<Longrightarrow> rb_nodes s' b = rb_nodes s b"
  shows "kept G s' N'"
  using assms unfolding kept_def by blast

lemma kept_new:
  assumes "kept G s N" "N' \<subseteq> insert p N" "G p = None" "\<And>b. b \<notin> N \<Longrightarrow> b \<noteq> p \<Longrightarrow> rb_nodes s' b = rb_nodes s b"
  shows "kept G s' N'"
  unfolding kept_def
proof (intro allI impI)
  fix b n assume b: "G b = Some n"
  then have "b \<noteq> p" "b \<notin> N" "rb_nodes s b = n" using assms(1,3) by (auto simp: kept_def)
  then show "b \<notin> N' \<and> rb_nodes s' b = n" using assms(2,4) by auto
qed

lemma kept_upd [simp]: "a \<in> N \<Longrightarrow> kept G s N \<Longrightarrow> kept G (s\<lparr>rb_nodes := (rb_nodes s)(a := v)\<rparr>) N"
  by (erule kept_change) auto

lemma kept_root [simp]: "kept G (s\<lparr>rb_root := p\<rparr>) N = kept G s N"
  by (simp add: kept_def)

lemma tree_ptr: "tree h p par t \<Longrightarrow> p = root_ptr t"
  by (cases t) auto

lemma tree_node [simp]:
  "tree h p par (node d c a x y) \<longleftrightarrow> p = a \<and> a \<noteq> 0 \<and> rb_parent (h a) = par \<and> rb_black (h a) = c \<and>
     tree h (rb_child (h a) d) a x \<and> tree h (rb_child (h a) (opp d)) a y \<and> a \<notin> nodes x \<and> a \<notin> nodes y \<and> nodes x \<inter> nodes y = {}"
  by (cases d) auto

lemma tree_frame [simp]: "a \<notin> nodes t \<Longrightarrow> tree (h(a := v)) p par t = tree h p par t"
  by (induction t arbitrary: p par) auto

lemma holes_frame [simp]: "a \<notin> frame_nodes z \<Longrightarrow> holes (h(a := v)) rt z p = holes h rt z p"
  by (induction h rt z p rule: holes.induct) auto

lemma tree_not_null: "tree h p par t \<Longrightarrow> 0 \<notin> nodes t"
  by (induction t arbitrary: p par) auto

lemma holes_not_null: "holes h rt z p \<Longrightarrow> 0 \<notin> frame_nodes z"
  by (induction h rt z p rule: holes.induct) (auto dest: tree_not_null)

lemma focus_up: "focus G s ((d, c, a, u) # z) t \<longleftrightarrow> focus G s z (node d c a t u)"
proof
  assume "focus G s ((d, c, a, u) # z) t"
  then show "focus G s z (node d c a t u)" unfolding focus_def by (auto simp: Un_assoc)
next
  assume f: "focus G s z (node d c a t u)"
  then have "rb_child (rb_nodes s a) d = root_ptr t" unfolding focus_def by (auto dest: tree_ptr)
  then show "focus G s ((d, c, a, u) # z) t" using f unfolding focus_def by (auto simp: Un_assoc)
qed

lemma focus_plug: "focus G s z t \<longleftrightarrow> holds_tree G s (plug z t)"
  unfolding holds_tree_def by (induction z t rule: plug.induct) (simp_all add: focus_up)

lemma get_not_null: "p \<noteq> 0 \<Longrightarrow> rb_get p s = Some (rb_nodes s p)"
  by (simp add: rb_get_def)

lemma upd_not_null: "p \<noteq> 0 \<Longrightarrow> rb_upd p f s = Some (s\<lparr>rb_nodes := (rb_nodes s)(p := f (rb_nodes s p))\<rparr>)"
  by (simp add: rb_upd_def)

lemmas rb_ops = rb_set_parent_def rb_set_color_def rb_set_child_def get_not_null upd_not_null

lemma root_ptr_in: "t \<noteq> Leaf \<Longrightarrow> root_ptr t \<in> nodes t"
  by (cases t) simp_all

text \<open>The subtree below gets another parent.\<close>

lemma tree_reparent: "tree h p par t \<Longrightarrow> p \<noteq> 0 \<Longrightarrow> tree (h(p := (h p)\<lparr>rb_parent := q\<rparr>)) p q t"
  by (cases t) auto

text \<open>The link to the hole becomes \<open>q\<close>.\<close>

fun link :: "frame list \<Rightarrow> nat \<Rightarrow> rb \<Rightarrow> rb" where
  "link [] q s = s\<lparr>rb_root := q\<rparr>"
| "link ((d, c, a, u) # z) q s = s\<lparr>rb_nodes := (rb_nodes s)(a := (rb_nodes s a)\<lparr>rb_child := (rb_child (rb_nodes s a))(d := q)\<rparr>)\<rparr>"

lemma link_other [simp]: "a \<notin> frame_nodes z \<Longrightarrow> rb_nodes (link z q s) a = rb_nodes s a"
  by (induction z q s rule: link.induct) auto

lemma link_tree [simp]: "nodes t \<inter> frame_nodes z = {} \<Longrightarrow> tree (rb_nodes (link z q s)) p par t = tree (rb_nodes s) p par t"
  by (induction z q s rule: link.induct) auto

lemma link_holes: "holes (rb_nodes s) (rb_root s) z p \<Longrightarrow> holes (rb_nodes (link z q s)) (rb_root (link z q s)) z q"
  by (induction z q s rule: link.induct) auto

lemma replace_link:
  assumes "holes (rb_nodes s) (rb_root s) z p" "p \<noteq> 0" "p \<notin> frame_nodes z"
  shows "replace_link e (above z) p q s = Some (link z q s)"
proof (cases z)
  case Nil
  then show ?thesis by (simp add: replace_link_def)
next
  case (Cons f z')
  obtain d c a u where f: "f = (d, c, a, u)" by (cases f)
  have "rb_child (rb_nodes s a) (opp d) = root_ptr u" using assms(1) Cons f tree_ptr by auto
  then have "rb_child (rb_nodes s a) (opp d) \<noteq> p" using assms(2,3) Cons f root_ptr_in [of u] by (cases u) auto
  moreover have "a \<noteq> 0" "rb_child (rb_nodes s a) d = p" using assms(1) Cons f by auto
  moreover have "e = d \<or> e = opp d" by (cases e; cases d) simp_all
  ultimately show ?thesis by (auto simp: Cons f replace_link_def rb_ops)
qed

section \<open>Rotations\<close>

lemma rotate:
  assumes "focus G s z (node d c a x (node d c' b y w))"
  shows "\<exists>s'. rb_rotate d a s = Some s' \<and> focus G s' z (node d c' b (node d c a x y) w)"
proof -
  let ?h = "rb_nodes s"
  note f = assms[unfolded focus_def, simplified]
  have a: "a \<noteq> 0" "b \<noteq> 0" "a \<noteq> b" "a \<notin> frame_nodes z" "b \<notin> frame_nodes z" using f by auto
  define h1 where "h1 = ?h(a := (?h a)\<lparr>rb_child := (rb_child (?h a))(opp d := root_ptr y)\<rparr>)"
  define h2 where "h2 = (if root_ptr y \<noteq> 0 then h1(root_ptr y := (h1 (root_ptr y))\<lparr>rb_parent := a\<rparr>) else h1)"
  define h3 where "h3 = h2(b := (h2 b)\<lparr>rb_child := (rb_child (h2 b))(d := a), rb_parent := above z\<rparr>)"
  let ?s = "link z b (s\<lparr>rb_nodes := h3\<rparr>)"
  have y: "rb_child (?h b) d = root_ptr y" "root_ptr y \<notin> frame_nodes z" "root_ptr y \<noteq> a" "root_ptr y \<noteq> b"
    using f tree_ptr holes_not_null root_ptr_in [of y] by (cases y; auto)+
  have nb: "rb_child (?h a) (opp d) = b" "rb_parent (?h a) = above z" using f by auto
  have hol: "holes h3 (rb_root s) z a" using f y a by (simp add: h1_def h2_def h3_def)
  then have rl: "replace_link d (above z) a b (s\<lparr>rb_nodes := h3\<rparr>) = Some ?s"
    using a by (intro replace_link) auto
  have "rb_rotate d a s = Some (?s\<lparr>rb_nodes := (rb_nodes ?s)(a := (rb_nodes ?s a)\<lparr>rb_parent := b\<rparr>)\<rparr>)"
    using a nb y rl by (cases "root_ptr y = 0") (simp_all add: rb_rotate_def rb_ops h1_def h2_def h3_def Let_def)
  moreover have "focus G (?s\<lparr>rb_nodes := (rb_nodes ?s)(a := (rb_nodes ?s a)\<lparr>rb_parent := b\<rparr>)\<rparr>) z (node d c' b (node d c a x y) w)"
  proof -
    define g where "g = (rb_nodes ?s)(a := (rb_nodes ?s a)\<lparr>rb_parent := b\<rparr>)"
    have dis: "a \<notin> nodes x" "a \<notin> nodes y" "a \<notin> nodes w" "b \<notin> nodes x" "b \<notin> nodes y" "b \<notin> nodes w" "nodes x \<inter> nodes y = {}"
      "nodes x \<inter> nodes w = {}" "nodes y \<inter> nodes w = {}" "nodes x \<inter> frame_nodes z = {}" "nodes y \<inter> frame_nodes z = {}"
      "nodes w \<inter> frame_nodes z = {}"
      using f by auto
    have col: "rb_black (?h a) = c" "rb_black (?h b) = c'" using f by auto
    have sub: "tree ?h (rb_child (?h a) d) a x" "tree ?h (rb_child (?h b) (opp d)) b w" "tree ?h (root_ptr y) b y"
      using f y(1) by auto
    have yn: "root_ptr y \<notin> nodes x" "root_ptr y \<notin> nodes w"
      using dis(7,9) tree_not_null [OF sub(1)] tree_not_null [OF sub(2)] by (cases y; auto)+
    have "h3 a = (?h a)\<lparr>rb_child := (rb_child (?h a))(opp d := root_ptr y)\<rparr>"
      "h3 b = (?h b)\<lparr>rb_child := (rb_child (?h b))(d := a), rb_parent := above z\<rparr>"
      using a y(3,4) by (simp_all add: h1_def h2_def h3_def)
    then have g: "g a = (?h a)\<lparr>rb_child := (rb_child (?h a))(opp d := root_ptr y), rb_parent := b\<rparr>"
      "g b = (?h b)\<lparr>rb_child := (rb_child (?h b))(d := a), rb_parent := above z\<rparr>"
      using a by (simp_all add: g_def)
    have "tree g (rb_child (?h a) d) a x" "tree g (rb_child (?h b) (opp d)) b w"
      using sub dis yn by (simp_all add: g_def h1_def h2_def h3_def)
    moreover have "tree g (root_ptr y) a y"
    proof (cases y)
      case (Node k l e r)
      then have t: "tree (?h(e := (?h e)\<lparr>rb_parent := a\<rparr>)) (root_ptr y) a y"
        using tree_reparent [OF sub(3)] tree_not_null [OF sub(3)] by simp
      have "h3 = ((?h(e := (?h e)\<lparr>rb_parent := a\<rparr>))(a := h3 a))(b := h3 b)"
        using Node a y tree_not_null [OF sub(3)] by (auto simp: h1_def h2_def h3_def)
      then have "tree h3 (root_ptr y) a y = tree (((?h(e := (?h e)\<lparr>rb_parent := a\<rparr>))(a := h3 a))(b := h3 b)) (root_ptr y) a y" by (rule arg_cong)
      then have "tree h3 (root_ptr y) a y" using t dis by simp
      then show ?thesis using dis by (simp add: g_def)
    qed simp
    moreover have "holes g (rb_root ?s) z b" using link_holes [of "s\<lparr>rb_nodes := h3\<rparr>" z a b] hol a by (simp add: g_def)
    moreover have "kept G (?s\<lparr>rb_nodes := g\<rparr>) (nodes (node d c' b (node d c a x y) w) \<union> frame_nodes z)"
    proof (rule kept_change)
      show "kept G s (nodes (node d c a x (node d c' b y w)) \<union> frame_nodes z)" using assms by (simp add: focus_def)
      show "nodes (node d c' b (node d c a x y) w) \<union> frame_nodes z \<subseteq> nodes (node d c a x (node d c' b y w)) \<union> frame_nodes z" by auto
      fix e assume e: "e \<notin> nodes (node d c a x (node d c' b y w)) \<union> frame_nodes z"
      then have "root_ptr y \<noteq> 0 \<Longrightarrow> e \<noteq> root_ptr y" using root_ptr_in [of y] by (cases y) auto
      then show "rb_nodes (?s\<lparr>rb_nodes := g\<rparr>) e = rb_nodes s e" using e by (auto simp: g_def h1_def h2_def h3_def)
    qed
    ultimately show ?thesis
      using a dis col g unfolding focus_def g_def [symmetric] by auto
  qed
  ultimately show ?thesis by blast
qed

section \<open>Reading and painting\<close>

fun paint :: "bool \<Rightarrow> rb_tree \<Rightarrow> rb_tree" where
  "paint c Leaf = Leaf"
| "paint c (Node c' l a r) = Node c l a r"

lemma paint_node [simp]: "paint c (node d c' a x y) = node d c a x y"
  by (cases d) simp_all

lemma nodes_paint [simp]: "nodes (paint c t) = nodes t" "inorder (paint c t) = inorder t" "root_ptr (paint c t) = root_ptr t"
  by (cases t; simp)+

lemma focus_root: "focus G s z t \<Longrightarrow> t \<noteq> Leaf \<Longrightarrow> root_ptr t \<noteq> 0"
  unfolding focus_def by (cases t) auto

lemma focus_leaf: "focus G s z t \<Longrightarrow> root_ptr t = 0 \<longleftrightarrow> t = Leaf"
  by (cases t) (auto simp: focus_def)

lemma focus_get:
  assumes "focus G s z (node d c a x y)"
  shows "a \<noteq> 0" "rb_get a s = Some (rb_nodes s a)" "rb_parent (rb_nodes s a) = above z" "rb_black (rb_nodes s a) = c"
    "rb_child (rb_nodes s a) d = root_ptr x" "rb_child (rb_nodes s a) (opp d) = root_ptr y"
  using assms unfolding focus_def by (auto simp: rb_get_def dest: tree_ptr)

lemma focus_red: "focus G s z t \<Longrightarrow> red_child (root_ptr t) s = Some (\<not> black t)"
  by (cases t) (auto simp: focus_def red_child_def rb_is_red_def rb_get_def)

text \<open>The other subtree is a subtree as well.\<close>

lemma focus_down: "focus G s z (node d c a x y) \<longleftrightarrow> focus G s ((d, c, a, y) # z) x" "focus G s z (node d c a x y) \<longleftrightarrow> focus G s ((opp d, c, a, x) # z) y"
  using focus_up [of G s "opp d" c a x z y] by (simp_all add: focus_up node_opp)

lemma focus_sibling:
  assumes "focus G s z (node d c a x y)" "x \<noteq> Leaf"
  shows "root_ptr y \<noteq> root_ptr x"
proof (cases "y = Leaf")
  case True
  then show ?thesis using focus_root assms focus_down(1) by fastforce
next
  case False
  have "nodes x \<inter> nodes y = {}" using assms(1) by (auto simp: focus_def)
  then show ?thesis using root_ptr_in [OF assms(2)] root_ptr_in [OF False] by auto
qed

lemma focus_side:
  assumes "focus G s z (node d c a x y)" "x \<noteq> Leaf"
  shows "(if root_ptr x = rb_child (rb_nodes s a) L then L else R) = d"
proof (cases d)
  case R
  then show ?thesis using focus_get(6) [OF assms(1)] focus_sibling [OF assms] by simp
qed (use focus_get(5) [OF assms(1)] in simp)

lemma set_color:
  assumes "focus G s z t" "t \<noteq> Leaf"
  shows "\<exists>s'. rb_set_color (root_ptr t) c s = Some s' \<and> focus G s' z (paint c t)"
proof (cases t)
  case (Node k l a r)
  have "a \<noteq> 0" "a \<notin> frame_nodes z" using assms(1) Node by (auto simp: focus_def)
  then show ?thesis using assms(1) Node by (auto simp: rb_ops focus_def)
qed (use assms in simp)

lemma set_color_node:
  assumes "focus G s z (node d k a x y)"
  shows "\<exists>s'. rb_set_color a c s = Some s' \<and> focus G s' z (node d c a x y)"
  using set_color [OF assms, of c] by simp

section \<open>Insertion\<close>

lemma step_black:
  assumes "focus G s z t" "t \<noteq> Leaf" "case z of [] \<Rightarrow> True | (d, c, a, u) # _ \<Rightarrow> c"
  shows "insert_step (root_ptr t) s = Some (Inl s)"
proof (cases t)
  case (Node k l a r)
  then have g: "focus G s z (node L k a l r)" using assms(1) by simp
  show ?thesis
  proof (cases z)
    case Nil
    then show ?thesis using focus_get [OF g] Node by (simp add: insert_step_def red_child_def)
  next
    case (Cons f z')
    obtain d c b u where f: "f = (d, c, b, u)" by (cases f)
    have "focus G s z' (node d c b t u)" using assms(1) Cons f by (simp add: focus_up)
    then have "red_child b s = Some False" using focus_red [of G s z' "node d c b t u"] assms(3) Cons f by simp
    then show ?thesis using focus_get [OF g] Node Cons f by (simp add: insert_step_def)
  qed
qed (use assms in simp)

lemma step_start:
  assumes "focus G s ((d1, False, a, v) # (d2, c, g, u) # z) t" "t \<noteq> Leaf"
  shows "rb_get (root_ptr t) s = Some (rb_nodes s (root_ptr t))" "rb_parent (rb_nodes s (root_ptr t)) = a" "red_child a s = Some True"
    "rb_get a s = Some (rb_nodes s a)" "rb_parent (rb_nodes s a) = g" "rb_get g s = Some (rb_nodes s g)"
    "(if a = rb_child (rb_nodes s g) L then L else R) = d2" "rb_child (rb_nodes s g) (opp d2) = root_ptr u" "red_child (root_ptr u) s = Some (\<not> black u)"
    "rb_child (rb_nodes s a) d1 = root_ptr t" "rb_child (rb_nodes s a) (opp d1) = root_ptr v"
proof -
  have 1: "focus G s ((d2, c, g, u) # z) (node d1 False a t v)" using assms(1) by (simp add: focus_up)
  then have 2: "focus G s z (node d2 c g (node d1 False a t v) u)" by (simp add: focus_up)
  obtain k l b r where t: "t = node L k b l r" using assms(2) by (cases t) auto
  have 3: "focus G s ((d1, False, a, v) # (d2, c, g, u) # z) (node L k b l r)" using assms(1) t by simp
  show "rb_get (root_ptr t) s = Some (rb_nodes s (root_ptr t))" "rb_parent (rb_nodes s (root_ptr t)) = a" using focus_get [OF 3] t by simp_all
  show "red_child a s = Some True" using focus_red [OF 1] by simp
  show "rb_get a s = Some (rb_nodes s a)" "rb_parent (rb_nodes s a) = g" using focus_get [OF 1] by simp_all
  show "rb_child (rb_nodes s a) d1 = root_ptr t" "rb_child (rb_nodes s a) (opp d1) = root_ptr v" using focus_get(5,6) [OF 1] .
  show "rb_get g s = Some (rb_nodes s g)" "rb_child (rb_nodes s g) (opp d2) = root_ptr u" using focus_get [OF 2] by simp_all
  show "(if a = rb_child (rb_nodes s g) L then L else R) = d2" using focus_side [OF 2] by simp
  show "red_child (root_ptr u) s = Some (\<not> black u)" using focus_red [of G s _ u] 2 focus_down(2) [of G s z d2] by blast
qed

lemma step_recolor:
  assumes "focus G s ((d1, False, a, v) # (d2, c, g, u) # z) t" "t \<noteq> Leaf" "\<not> black u"
  shows "\<exists>s'. insert_step (root_ptr t) s = Some (Inr (g, s')) \<and> focus G s' z (node d2 False g (node d1 True a t v) (paint True u))"
proof -
  have u: "u \<noteq> Leaf" using assms(3) by auto
  have "focus G s ((opp d2, c, g, node d1 False a t v) # z) u" using assms(1) by (simp add: focus_up node_opp)
  then obtain s1 where s1: "rb_set_color (root_ptr u) True s = Some s1" "focus G s1 z (node d2 c g (node d1 False a t v) (paint True u))"
    using set_color [OF _ u, of G s _ True] by (fastforce simp: focus_up node_opp)
  then obtain s2 where s2: "rb_set_color a True s1 = Some s2" "focus G s2 z (node d2 c g (node d1 True a t v) (paint True u))"
    using set_color_node [of G s1 "(d2, c, g, paint True u) # z" d1 False a t v True] by (auto simp: focus_up)
  then obtain s3 where "rb_set_color g False s2 = Some s3" "focus G s3 z (node d2 False g (node d1 True a t v) (paint True u))"
    using set_color_node [OF s2(2), of False] by auto
  then show ?thesis using step_start [OF assms(1,2)] assms(3) s1(1) s2(1) by (simp add: insert_step_def Let_def)
qed

lemma step_outer:
  assumes "focus G s ((d, False, a, v) # (d, c, g, u) # z) t" "t \<noteq> Leaf" "black u"
  shows "\<exists>s'. insert_step (root_ptr t) s = Some (Inr (root_ptr t, s')) \<and> focus G s' z (node d True a t (node d False g v u))"
proof -
  have f: "focus G s ((d, c, g, u) # z) (node d False a t v)" using assms(1) by (simp add: focus_up)
  then obtain s1 where s1: "rb_set_color a True s = Some s1" "focus G s1 z (node d c g (node d True a t v) u)"
    using set_color_node [of G s "(d, c, g, u) # z" d False a t v True] by (auto simp: focus_up)
  then obtain s2 where s2: "rb_set_color g False s1 = Some s2" "focus G s2 z (node (opp d) False g u (node (opp d) True a v t))"
    using set_color_node [OF s1(2), of False] by (auto simp: node_opp)
  then obtain s3 where "rb_rotate (opp d) g s2 = Some s3" "focus G s3 z (node d True a t (node d False g v u))"
    using rotate [OF s2(2)] by (auto simp: node_opp)
  moreover have "root_ptr v \<noteq> root_ptr t"
    by (rule focus_sibling [OF f assms(2)])
  ultimately show ?thesis using step_start [OF assms(1,2)] assms(3) s1(1) s2(1) by (simp add: insert_step_def Let_def)
qed

lemma step_inner:
  assumes "focus G s ((opp d, False, a, v) # (d, c, g, u) # z) (node d k p y w)" "black u"
  shows "\<exists>s'. insert_step p s = Some (Inr (a, s')) \<and> focus G s' z (node d True p (node d False a v y) (node d k g w u)) \<or> k"
proof (cases k)
  case False
  have "focus G s ((d, c, g, u) # z) (node d False a v (node d False p y w))" using assms(1) False by (simp add: focus_up node_opp)
  then obtain s1 where s1: "rb_rotate d a s = Some s1" "focus G s1 ((d, c, g, u) # z) (node d False p (node d False a v y) w)"
    using rotate by blast
  then obtain s2 where s2: "rb_set_color p True s1 = Some s2" "focus G s2 z (node d c g (node d True p (node d False a v y) w) u)"
    using set_color_node [OF s1(2), of True] by (auto simp: focus_up)
  then obtain s3 where s3: "rb_set_color g False s2 = Some s3" "focus G s3 z (node (opp d) False g u (node (opp d) True p w (node d False a v y)))"
    using set_color_node [OF s2(2), of False] by (auto simp: node_opp)
  then obtain s4 where "rb_rotate (opp d) g s3 = Some s4" "focus G s4 z (node d True p (node d False a v y) (node d False g w u))"
    using rotate [OF s3(2)] by (auto simp: node_opp)
  then show ?thesis using step_start [OF assms(1)] assms(2) s1(1) s2(1) s3(1) False by (simp add: insert_step_def Let_def)
qed simp

section \<open>Balance\<close>

fun bh :: "rb_tree \<Rightarrow> nat \<Rightarrow> bool" where
  "bh Leaf n \<longleftrightarrow> n = 0"
| "bh (Node c l a r) n \<longleftrightarrow> (if c then n \<noteq> 0 \<and> bh l (n - 1) \<and> bh r (n - 1) else bh l n \<and> bh r n)"

fun nrr :: "rb_tree \<Rightarrow> bool" where
  "nrr Leaf \<longleftrightarrow> True"
| "nrr (Node c l a r) \<longleftrightarrow> nrr l \<and> nrr r \<and> (c \<or> black l \<and> black r)"

text \<open>A balanced tree: a black root, no red node below a red one, equally many black nodes on each path.\<close>

definition balanced :: "rb_tree \<Rightarrow> bool" where
  "balanced t \<longleftrightarrow> black t \<and> nrr t \<and> (\<exists>n. bh t n)"

text \<open>The same for a tree with a hole that takes a black subtree with \<open>n\<close> black nodes on each path.\<close>

fun top_black :: "frame list \<Rightarrow> bool" where
  "top_black [] \<longleftrightarrow> False"
| "top_black ((d, c, a, u) # z) \<longleftrightarrow> c"

fun hole_nrr :: "frame list \<Rightarrow> bool" where
  "hole_nrr [] \<longleftrightarrow> True"
| "hole_nrr ((d, c, a, u) # z) \<longleftrightarrow> nrr u \<and> (c \<or> black u \<and> top_black z) \<and> hole_nrr z"

fun hole_bh :: "frame list \<Rightarrow> nat \<Rightarrow> bool" where
  "hole_bh [] n \<longleftrightarrow> True"
| "hole_bh ((d, c, a, u) # z) n \<longleftrightarrow> bh u n \<and> hole_bh z (if c then Suc n else n)"

lemma bh_node [simp]: "bh (node d c a x y) n \<longleftrightarrow> (if c then n \<noteq> 0 \<and> bh x (n - 1) \<and> bh y (n - 1) else bh x n \<and> bh y n)"
  by (cases d) auto

lemma nrr_node [simp]: "nrr (node d c a x y) \<longleftrightarrow> nrr x \<and> nrr y \<and> (c \<or> black x \<and> black y)"
  by (cases d) auto

lemma bh_paint: "bh t n \<Longrightarrow> \<not> black t \<Longrightarrow> bh (paint True t) (Suc n)"
  by (cases t) auto

lemma nrr_paint [simp]: "nrr t \<Longrightarrow> nrr (paint True t)" "black (paint True t)"
  by (cases t; simp)+

lemma black_plug: "black (plug z t) \<longleftrightarrow> (if z = [] then black t else fst (snd (last z)))"
  by (induction z t rule: plug.induct) auto

lemma ex_Suc: "(\<exists>n. n \<noteq> 0 \<and> Q (n - 1) n) \<longleftrightarrow> (\<exists>n. Q n (Suc n))" for Q :: "nat \<Rightarrow> nat \<Rightarrow> bool"
  by (metis Suc_pred' diff_Suc_1 nat.simps(3) neq0_conv)

lemma node_cases: "t \<noteq> Leaf \<Longrightarrow> \<exists>a x y. t = node d (black t) a x y"
  by (cases t; cases d) auto

lemma plug_bh: "(\<exists>m. bh (plug z t) m) \<longleftrightarrow> (\<exists>n. bh t n \<and> hole_bh z n)"
proof (induction z t rule: plug.induct)
  case (2 d c a u z t)
  have "(\<exists>n. bh (node d c a t u) n \<and> hole_bh z n) \<longleftrightarrow> (\<exists>n. bh t n \<and> bh u n \<and> hole_bh z (if c then Suc n else n))"
    using ex_Suc [of "\<lambda>k n. bh t k \<and> bh u k \<and> hole_bh z n"] by (cases c) (simp_all add: conj_assoc)
  then show ?case using 2 by auto
qed simp

lemma plug_nrr: "hole_nrr z \<Longrightarrow> nrr t \<Longrightarrow> z = [] \<or> black t \<or> top_black z \<Longrightarrow> nrr (plug z t)"
proof (induction z t rule: plug.induct)
  case (2 d c a u z t)
  have "nrr (node d c a t u)" "z = [] \<or> c \<or> top_black z" using 2(2-4) by (cases c; simp)+
  then show ?case using 2(1,2) by simp
qed simp

lemma nrr_plugD: "nrr (plug z t) \<Longrightarrow> black (plug z t) \<Longrightarrow> hole_nrr z \<and> nrr t \<and> (z = [] \<or> black t \<or> top_black z)"
proof (induction z t rule: plug.induct)
  case (2 d c a u z t)
  then have ih: "hole_nrr z" "nrr (node d c a t u)" "z = [] \<or> c \<or> top_black z" by (metis plug.simps(2) black_node(1))+
  moreover have "c" if "z = []" using 2(3) that by simp
  ultimately show ?case by (cases c; cases "z = []") simp_all
qed simp

lemma plug_inorder: "inorder t = inorder u \<Longrightarrow> inorder (plug z t) = inorder (plug z u)"
proof (induction z arbitrary: t u)
  case (Cons f z)
  obtain d c a v where f: "f = (d, c, a, v)" by (cases f)
  have "inorder (node d c a t v) = inorder (node d c a u v)" using Cons.prems by (cases d) simp_all
  then show ?case unfolding f plug.simps by (rule Cons.IH)
qed simp

lemma inorder_node: "inorder (node d c a x y) = (if d = L then inorder x @ a # inorder y else inorder y @ a # inorder x)"
  by (cases d) simp_all

text \<open>The loop repairs a red node in a hole for a black subtree.\<close>

lemma insert_loop:
  assumes "focus G s z t" "t \<noteq> Leaf" "\<not> black t" "nrr t" "bh t n" "hole_nrr z" "hole_bh z n"
  shows "\<exists>s' t'. insert_loop (root_ptr t) s = Some s' \<and> holds_tree G s' t' \<and> nrr t' \<and> (\<exists>m. bh t' m) \<and> inorder t' = inorder (plug z t)"
  using assms
proof (induction "length z" arbitrary: s z t n rule: less_induct)
  case less
  have stop: "\<exists>s' t'. insert_loop (root_ptr t) s = Some s' \<and> holds_tree G s' t' \<and> nrr t' \<and> (\<exists>m. bh t' m) \<and> inorder t' = inorder (plug z t)"
    if "focus G s z t" "t \<noteq> Leaf" "nrr t" "bh t n" "hole_nrr z" "hole_bh z n" "z = [] \<or> top_black z" for s z t n
  proof -
    have "case z of [] \<Rightarrow> True | (d, c, a, u) # _ \<Rightarrow> c" using that(7) by (cases z rule: top_black.cases) auto
    then have "insert_loop (root_ptr t) s = Some s" using step_black [OF that(1,2)] by (subst insert_loop.simps) simp
    moreover have "nrr (plug z t)" "\<exists>m. bh (plug z t) m" using that plug_nrr plug_bh by blast+
    ultimately show ?thesis using that(1) focus_plug by blast
  qed
  show ?case
  proof (cases "z = [] \<or> top_black z")
    case True
    then show ?thesis using stop less.prems by blast
  next
    case False
    then obtain d1 a v d2 g u z' where z: "z = (d1, False, a, v) # (d2, True, g, u) # z'"
      using less.prems(6) by (cases z rule: top_black.cases; cases "tl z" rule: top_black.cases) auto
    have inv: "nrr v" "black v" "nrr u" "hole_nrr z'" "bh v n" "bh u n" "hole_bh z' (Suc n)" using less.prems(6,7) z by auto
    note f = less.prems(1) [unfolded z]
    show ?thesis
    proof (cases "black u")
      case uncle: False
      obtain s' where s': "insert_step (root_ptr t) s = Some (Inr (g, s'))" "focus G s' z' (node d2 False g (node d1 True a t v) (paint True u))"
        using step_recolor [OF f less.prems(2) uncle] by blast
      let ?t = "node d2 False g (node d1 True a t v) (paint True u)"
      have "inorder (plug z' ?t) = inorder (plug z t)" unfolding z plug.simps by (intro plug_inorder) (simp add: inorder_node)
      moreover have "\<exists>s'' t'. insert_loop (root_ptr ?t) s' = Some s'' \<and> holds_tree G s'' t' \<and> nrr t' \<and> (\<exists>m. bh t' m) \<and> inorder t' = inorder (plug z' ?t)"
        using less.hyps [of z' s' ?t "Suc n"] s'(2) less.prems(2-5) inv uncle bh_paint [of u n] z by auto
      ultimately show ?thesis using s'(1) by (subst insert_loop.simps) simp
    next
      case uncle: True
      show ?thesis
      proof (cases "d1 = d2")
        case True
        let ?t = "node d2 False g v u"
        obtain s' where s': "insert_step (root_ptr t) s = Some (Inr (root_ptr t, s'))" "focus G s' z' (node d2 True a t ?t)"
          using step_outer [of G s d2 a v True g u z' t] f True less.prems(2) uncle by blast
        have "focus G s' ((d2, True, a, ?t) # z') t" using s'(2) by (simp add: focus_up)
        then have "\<exists>s'' t'. insert_loop (root_ptr t) s' = Some s'' \<and> holds_tree G s'' t' \<and> nrr t' \<and> (\<exists>m. bh t' m) \<and> inorder t' = inorder (plug ((d2, True, a, ?t) # z') t)"
          using less.prems(2-5) inv uncle by (intro stop [of _ _ _ n]) auto
        moreover have "inorder (plug ((d2, True, a, ?t) # z') t) = inorder (plug z t)" unfolding z True plug.simps by (intro plug_inorder) (simp add: inorder_node)
        ultimately show ?thesis using s'(1) by (subst insert_loop.simps) simp
      next
        case False
        then have d1: "d1 = opp d2" by (cases d1; cases d2) auto
        obtain p y w where t: "t = node d2 False p y w" using less.prems(2,3) node_cases [of t d2] by auto
        let ?t = "node d2 False a v y" and ?u = "node d2 False g w u"
        obtain s' where s': "insert_step p s = Some (Inr (a, s'))" "focus G s' z' (node d2 True p ?t ?u)"
          using step_inner [of G s d2 a v True g u z' False p y w] f d1 t uncle by auto
        have "focus G s' ((d2, True, p, ?u) # z') ?t" using s'(2) by (simp add: focus_up)
        then have "\<exists>s'' t'. insert_loop (root_ptr ?t) s' = Some s'' \<and> holds_tree G s'' t' \<and> nrr t' \<and> (\<exists>m. bh t' m) \<and> inorder t' = inorder (plug ((d2, True, p, ?u) # z') ?t)"
          using less.prems(2-5) inv uncle t by (intro stop [of _ _ _ n]) auto
        moreover have "inorder (plug ((d2, True, p, ?u) # z') ?t) = inorder (plug z t)" unfolding z d1 t plug.simps by (intro plug_inorder) (cases d2; simp)
        ultimately show ?thesis using s'(1) t by (subst insert_loop.simps) simp
      qed
    qed
  qed
qed

lemma insert_color:
  assumes "focus G s z (Node False Leaf p Leaf)" "balanced (plug z Leaf)"
  shows "\<exists>s' t'. rb_insert_color p s = Some s' \<and> holds_tree G s' t' \<and> balanced t' \<and> inorder t' = inorder (plug z (Node False Leaf p Leaf))"
proof -
  obtain n where "hole_nrr z" "hole_bh z n" "n = 0"
    using assms(2) nrr_plugD [of z Leaf] plug_bh [of z Leaf] unfolding balanced_def by auto
  then obtain s1 t1 where s1: "insert_loop p s = Some s1" "holds_tree G s1 t1" "nrr t1" "\<exists>m. bh t1 m" "inorder t1 = inorder (plug z (Node False Leaf p Leaf))"
    using insert_loop [OF assms(1), of 0] by auto
  have "t1 \<noteq> Leaf"
  proof
    assume "t1 = Leaf"
    moreover have "p \<in> set (inorder (plug z (Node False Leaf p Leaf)))" by (simp add: nodes_inorder nodes_plug)
    ultimately show False using s1(5) by simp
  qed
  moreover have "rb_root s1 = root_ptr t1" using s1(2) by (simp add: holds_tree_def focus_def)
  ultimately obtain s2 where "rb_set_color (rb_root s1) True s1 = Some s2" "holds_tree G s2 (paint True t1)"
    using set_color [of G s1 "[]" t1 True] s1(2) by (auto simp: holds_tree_def)
  moreover have "balanced (paint True t1)" using s1(3,4) bh_paint by (cases "black t1"; cases t1) (auto simp: balanced_def)
  ultimately show ?thesis using s1(1,5) by (auto simp: rb_insert_color_def)
qed

section \<open>Repair after a black node has been removed\<close>

lemma holes_root: "holes h rt z p \<Longrightarrow> z \<noteq> [] \<Longrightarrow> rt \<in> frame_nodes z"
proof (induction h rt z p rule: holes.induct)
  case (2 h rt d c a u z p)
  then show ?case by (cases z) auto
qed simp

lemma focus_not_root:
  assumes "focus G s z t" "z \<noteq> []"
  shows "root_ptr t \<noteq> rb_root s"
proof -
  have "rb_root s \<in> frame_nodes z" "0 \<notin> frame_nodes z" "nodes t \<inter> frame_nodes z = {}"
    using assms holes_root holes_not_null unfolding focus_def by blast+
  moreover from this have "rb_root s \<noteq> 0" by metis
  ultimately show ?thesis using root_ptr_in [of t] by (cases t) auto
qed

lemma hole_nrr_black: "hole_nrr z \<Longrightarrow> z \<noteq> [] \<Longrightarrow> black (plug z t)"
proof (induction z t rule: plug.induct)
  case (2 d c a u z t)
  then show ?case by (cases "z = []") auto
qed simp

lemma erase_black:
  assumes f: "focus G s ((d, c, a, u) # z) t" and u: "u = node d True b y w"
  shows "black y \<Longrightarrow> black w \<Longrightarrow>
      \<exists>s'. erase_black d a b s = Some (Inr (a, above z, s')) \<and> focus G s' z (node d c a t (node d False b y w))"
    and "\<not> black w \<Longrightarrow>
      \<exists>s'. erase_black d a b s = Some (Inl (rb_root s', s')) \<and> focus G s' z (node d c b (node d True a t y) (paint True w))"
    and "black w \<Longrightarrow> y = node d False e y1 y2 \<Longrightarrow>
      \<exists>s'. erase_black d a b s = Some (Inl (rb_root s', s')) \<and> focus G s' z (node d c e (node d True a t y1) (node d True b y2 w))"
proof -
  have fa: "focus G s z (node d c a t (node d True b y w))" using f u by (simp add: focus_up)
  have fb: "focus G s ((opp d, c, a, t) # z) (node d True b y w)" using fa focus_down(2) by blast
  note g = focus_get [OF fb] focus_get [OF fa]
  have near: "red_child (root_ptr y) s = Some (\<not> black y)" using focus_red fb focus_down(1) by blast
  have far: "red_child (root_ptr w) s = Some (\<not> black w)" using focus_red fb focus_down(2) by blast
  show "\<exists>s'. erase_black d a b s = Some (Inr (a, above z, s')) \<and> focus G s' z (node d c a t (node d False b y w))" if "black y" "black w"
  proof -
    obtain s1 where s1: "rb_set_color b False s = Some s1" "focus G s1 ((opp d, c, a, t) # z) (node d False b y w)"
      using set_color_node [OF fb, of False] by auto
    then have f1: "focus G s1 z (node d c a t (node d False b y w))" using focus_down(2) by blast
    then show ?thesis using g near far s1(1) that focus_get [OF f1] by (simp add: erase_black_def)
  qed
  have final: "\<exists>s'. do { n \<leftarrow> rb_get a s; s \<leftarrow> rb_set_color b' (rb_black n) s; s \<leftarrow> rb_set_color a True s; n' \<leftarrow> rb_get b' s;
        s \<leftarrow> rb_set_color (rb_child n' (opp d)) True s; s \<leftarrow> rb_rotate d a s; Some (Inl (rb_root s, s)) } =
        Some (Inl (rb_root s', s') :: nat \<times> rb + nat \<times> nat \<times> rb) \<and>
      focus G s' z (node d c b' (node d True a t y') (paint True w'))"
    if f: "focus G s z (node d c a t (node d k b' y' w'))" and w: "w' \<noteq> Leaf" for s b' y' w' k
  proof -
    obtain s1 where s1: "rb_set_color b' c s = Some s1" "focus G s1 z (node d c a t (node d c b' y' w'))"
      using set_color_node f focus_down(2) by metis
    obtain s2 where s2: "rb_set_color a True s1 = Some s2" "focus G s2 z (node d True a t (node d c b' y' w'))"
      using set_color_node [OF s1(2)] by blast
    have f2: "focus G s2 ((opp d, True, a, t) # z) (node d c b' y' w')" using s2(2) focus_down(2) by blast
    then have "focus G s2 ((opp d, c, b', y') # (opp d, True, a, t) # z) w'" using focus_down(2) by blast
    then obtain s3 where s3: "rb_set_color (root_ptr w') True s2 = Some s3" "focus G s3 ((opp d, c, b', y') # (opp d, True, a, t) # z) (paint True w')"
      using set_color w by blast
    then have "focus G s3 z (node d True a t (node d c b' y' (paint True w')))" using focus_down(2) by blast
    then obtain s4 where "rb_rotate d a s3 = Some s4" "focus G s4 z (node d c b' (node d True a t y') (paint True w'))" using rotate by blast
    then show ?thesis using focus_get [OF f] s1(1) s2(1) s3(1) focus_get [OF f2] by simp
  qed
  show "\<exists>s'. erase_black d a b s = Some (Inl (rb_root s', s')) \<and> focus G s' z (node d c b (node d True a t y) (paint True w))" if "\<not> black w"
  proof -
    have "w \<noteq> Leaf" using that by auto
    then show ?thesis using final [OF fa] g near far that by (simp add: erase_black_def)
  qed
  show "\<exists>s'. erase_black d a b s = Some (Inl (rb_root s', s')) \<and> focus G s' z (node d c e (node d True a t y1) (node d True b y2 w))"
    if w: "black w" and y: "y = node d False e y1 y2"
  proof -
    have "focus G s ((d, True, b, w) # (opp d, c, a, t) # z) (node d False e y1 y2)" using fb y focus_down(1) by blast
    then obtain s1 where s1: "rb_set_color e True s = Some s1" "focus G s1 ((opp d, c, a, t) # z) (node d True b (node d True e y1 y2) w)"
      using set_color_node focus_down(1) by metis
    then obtain s2 where s2: "rb_set_color b False s1 = Some s2" "focus G s2 ((opp d, c, a, t) # z) (node (opp d) False b w (node (opp d) True e y2 y1))"
      using set_color_node [OF s1(2), of False] by (auto simp: node_opp)
    then obtain s3 where s3: "rb_rotate (opp d) b s2 = Some s3" "focus G s3 ((opp d, c, a, t) # z) (node d True e y1 (node d False b y2 w))"
      using rotate [OF s2(2)] by (auto simp: node_opp)
    then have f3: "focus G s3 z (node d c a t (node d True e y1 (node d False b y2 w)))" using focus_down(2) by blast
    show ?thesis using final [OF f3] g near far w y s1(1) s2(1) s3(1) focus_get [OF f3] by (simp add: erase_black_def)
  qed
qed

text \<open>The invariant of the loop: painted black, the node makes the tree balanced, or one black node is missing on every path through it.\<close>

definition missing :: "frame list \<Rightarrow> rb_tree \<Rightarrow> bool" where
  "missing z t \<longleftrightarrow> nrr (paint True t) \<and> (black t \<longrightarrow> nrr t) \<and> hole_nrr z \<and> (\<exists>k. bh t k \<and> hole_bh z (Suc k))"

lemma missing_red: "missing z t \<Longrightarrow> \<not> black t \<Longrightarrow> balanced (plug z (paint True t))"
  unfolding missing_def balanced_def using bh_paint [of t] plug_bh plug_nrr hole_nrr_black
  by (metis black_plug nrr_paint(2))

lemma missing_root:
  assumes "missing [] t"
  shows "balanced (paint True t)"
proof -
  obtain k where k: "bh t k" using assms by (auto simp: missing_def)
  have "\<exists>n. bh (paint True t) n" using bh_paint [OF k] k by (cases "black t"; cases t) (auto simp del: bh.simps)
  then show ?thesis using assms by (simp add: missing_def balanced_def)
qed

lemma erase_loop:
  assumes "focus G s z t" "missing z t"
  shows "\<exists>s' z' t'. erase_loop (root_ptr t) (above z) s = Some (root_ptr t', s') \<and> focus G s' z' t' \<and>
    balanced (plug z' (paint True t')) \<and> inorder (plug z' t') = inorder (plug z t)"
  using assms
proof (induction "length z" arbitrary: s z t)
  case 0
  then have "rb_root s = root_ptr t" by (simp add: focus_def)
  then have "erase_loop (root_ptr t) (above z) s = Some (root_ptr t, s)"
    using focus_red [OF 0(2)] by (subst erase_loop.simps) (simp add: erase_step_def)
  then show ?case using 0 missing_root by force
next
  case (Suc n)
  have stop: "\<exists>s' z' t'. erase_loop (root_ptr t) (above z) s = Some (root_ptr t', s') \<and> focus G s' z' t' \<and>
      balanced (plug z' (paint True t')) \<and> inorder (plug z' t') = inorder (plug z t)"
    if "focus G s z t" "missing z t" "\<not> black t" for s z t
  proof -
    have "erase_loop (root_ptr t) (above z) s = Some (root_ptr t, s)"
      using focus_red [OF that(1)] that(3) by (subst erase_loop.simps) (simp add: erase_step_def)
    then show ?thesis using that missing_red by blast
  qed
  obtain d c a u z1 where z: "z = (d, c, a, u) # z1" "n = length z1" using Suc.hyps(2) by (cases z) auto
  show ?case
  proof (cases "black t")
    case False
    then show ?thesis using stop Suc.prems by blast
  next
    case True
    obtain k where inv: "nrr t" "bh t k" "bh u (Suc k)" "nrr u" "c \<or> black u \<and> top_black z1" "hole_nrr z1" "hole_bh z1 (if c then Suc (Suc k) else Suc k)"
      using Suc.prems(2) True z(1) by (auto simp: missing_def)
    then have u: "u \<noteq> Leaf" by auto
    note f = Suc.prems(1) [unfolded z(1)]
    have fa: "focus G s z1 (node d c a t u)" using f by (simp add: focus_up)
    have fu: "focus G s ((opp d, c, a, t) # z1) u" using fa focus_down(2) by blast
    have side: "(if rb_child (rb_nodes s a) L = root_ptr t then L else R) = d"
      using focus_get(5,6) [OF fa] focus_sibling [of G s z1 "opp d" c a u t] fa u by (cases d) (auto simp: node_opp)
    have start: "erase_step (root_ptr t) (above z) s = (if black u then erase_black d a (root_ptr u) s
       else do { s \<leftarrow> rb_set_color (root_ptr u) True s; s \<leftarrow> rb_set_color a False s; s \<leftarrow> rb_rotate d a s; n \<leftarrow> rb_get a s;
                 erase_black d a (rb_child n (opp d)) s })"
      using focus_red [OF Suc.prems(1)] True focus_not_root [OF Suc.prems(1)] side focus_get [OF fa] focus_red [OF fu] u focus_root [OF fu u]
      by (simp add: erase_step_def z(1) Let_def red_child_def split: if_splits)
    txt \<open>With a black sibling the loop ends, or goes on one level up.\<close>
    have black: "(\<exists>s' t'. erase_black d a (root_ptr v) s1 = Some (Inl (root_ptr t', s')) \<and> focus G s' [] t' \<and> balanced t' \<and>
        inorder t' = inorder (plug ((d, c1, a, v) # z2) t)) \<or>
      (\<exists>s' t'. erase_black d a (root_ptr v) s1 = Some (Inr (a, above z2, s')) \<and> focus G s' z2 t' \<and> root_ptr t' = a \<and> missing z2 t' \<and>
        (c1 \<or> \<not> black t') \<and> inorder (plug z2 t') = inorder (plug ((d, c1, a, v) # z2) t))"
      if g: "focus G s1 ((d, c1, a, v) # z2) t" "black v" "bh v (Suc k)" "nrr v" "c1 \<or> top_black z2" "hole_nrr z2" "hole_bh z2 (if c1 then Suc (Suc k) else Suc k)"
      for s1 c1 v z2
    proof -
      have "v \<noteq> Leaf" using g(3) by auto
      then obtain b y w where v: "v = node d True b y w" using node_cases [of v d] g(2) by auto
      have yw: "bh y k" "bh w k" "nrr y" "nrr w" using g(3,4) v by simp_all
      have fin: "balanced (plug z2 t') \<and> inorder (plug z2 t') = inorder (plug ((d, c1, a, v) # z2) t)"
        if "nrr t'" "bh t' (if c1 then Suc (Suc k) else Suc k)" "z2 = [] \<longrightarrow> black t'" "black t' \<or> top_black z2" "inorder t' = inorder (node d c1 a t v)" for t'
        using that g(6,7) plug_nrr [of z2 t'] plug_bh [of z2 t'] hole_nrr_black [of z2 t'] plug_inorder [OF that(5), of z2] unfolding balanced_def
        by (cases "z2 = []") auto
      have root: "rb_root s' = root_ptr (plug z2 t') \<and> focus G s' [] (plug z2 t')" if "focus G s' z2 t'" for s' t'
        using that focus_plug [of G s' z2 t'] by (simp add: holds_tree_def focus_def)
      consider "black y" "black w" | "\<not> black w" | "black w" "\<not> black y" by blast
      then show ?thesis
      proof cases
        case 1
        let ?t = "node d c1 a t (node d False b y w)"
        obtain s' where "erase_black d a b s1 = Some (Inr (a, above z2, s'))" "focus G s' z2 ?t"
          using erase_black(1) [OF g(1) v 1] by blast
        moreover have "missing z2 ?t" using inv(1,2) yw g(6,7) 1 True unfolding missing_def by (cases c1) auto
        moreover have "inorder (plug z2 ?t) = inorder (plug ((d, c1, a, v) # z2) t)"
          unfolding plug.simps v by (intro plug_inorder) (simp add: inorder_node)
        ultimately show ?thesis using v by auto
      next
        case 2
        let ?t = "node d c1 b (node d True a t y) (paint True w)"
        obtain s' where s': "erase_black d a b s1 = Some (Inl (rb_root s', s'))" "focus G s' z2 ?t"
          using erase_black(2) [OF g(1) v 2] by blast
        have "nrr ?t" "bh ?t (if c1 then Suc (Suc k) else Suc k)" using inv(1,2) yw 2 bh_paint [of w k] by simp_all
        then have "balanced (plug z2 ?t) \<and> inorder (plug z2 ?t) = inorder (plug ((d, c1, a, v) # z2) t)"
          using g(5) v by (intro fin) (auto simp: inorder_node)
        then show ?thesis using s'(1) root [OF s'(2)] v by auto
      next
        case 3
        then obtain e y1 y2 where y: "y = node d False e y1 y2" using node_cases [of y d] by (cases "y = Leaf") auto
        let ?t = "node d c1 e (node d True a t y1) (node d True b y2 w)"
        obtain s' where s': "erase_black d a b s1 = Some (Inl (rb_root s', s'))" "focus G s' z2 ?t"
          using erase_black(3) [OF g(1) v 3(1) y] by blast
        have "nrr ?t" "bh ?t (if c1 then Suc (Suc k) else Suc k)" using inv(1,2) yw y by simp_all
        then have "balanced (plug z2 ?t) \<and> inorder (plug z2 ?t) = inorder (plug ((d, c1, a, v) # z2) t)"
          using g(5) v y by (intro fin) (auto simp: inorder_node)
        then show ?thesis using s'(1) root [OF s'(2)] v by auto
      qed
    qed
    have finish: "paint True t' = t'" if "balanced t'" for t' using that by (cases t') (auto simp: balanced_def)
    show ?thesis
    proof (cases "black u")
      case u': True
      from black [OF f u' inv(3,4) _ inv(6,7)] inv(5) u'
      consider (stop) s' t' where "erase_black d a (root_ptr u) s = Some (Inl (root_ptr t', s'))" "focus G s' [] t'" "balanced t'"
          "inorder t' = inorder (plug ((d, c, a, u) # z1) t)"
        | (up) s' t' where "erase_black d a (root_ptr u) s = Some (Inr (a, above z1, s'))" "focus G s' z1 t'" "root_ptr t' = a" "missing z1 t'"
          "inorder (plug z1 t') = inorder (plug ((d, c, a, u) # z1) t)" by blast
      then show ?thesis
      proof cases
        case stop
        then have "erase_loop (root_ptr t) (above z) s = Some (root_ptr t', s')" using start u' by (subst erase_loop.simps) simp
        then show ?thesis using stop finish [OF stop(3)] z(1) by force
      next
        case up
        then have "erase_loop (root_ptr t) (above z) s = erase_loop (root_ptr t') (above z1) s'" using start u' by (subst erase_loop.simps) simp
        then show ?thesis using Suc.hyps(1) [OF z(2) up(2,4)] up(5) z(1) by simp
      qed
    next
      case u': False
      then have c: c using inv(5) by simp
      obtain b y w where uu: "u = node d False b y w" using node_cases [OF u, of d] u' by auto
      have yw: "black y" "black w" "bh y (Suc k)" "bh w (Suc k)" "nrr y" "nrr w" using inv(3,4) uu by simp_all
      obtain s1 where s1: "rb_set_color b True s = Some s1" "focus G s1 z1 (node d c a t (node d True b y w))"
        using set_color_node [of G s _ d False b y w True] fu uu focus_down(2) by metis
      obtain s2 where s2: "rb_set_color a False s1 = Some s2" "focus G s2 z1 (node d False a t (node d True b y w))"
        using set_color_node [OF s1(2)] by blast
      then obtain s3 where s3: "rb_rotate d a s2 = Some s3" "focus G s3 z1 (node d True b (node d False a t y) w)" using rotate by blast
      let ?z = "(d, True, b, w) # z1"
      have f3: "focus G s3 ?z (node d False a t y)" "focus G s3 ((d, False, a, y) # ?z) t" using s3(2) focus_down(1) by blast+
      have step: "erase_step (root_ptr t) (above z) s = erase_black d a (root_ptr y) s3"
        using start u' uu s1(1) s2(1) s3(1) focus_get [OF f3(1)] by simp
      have ord: "inorder (plug ((d, False, a, y) # ?z) t) = inorder (plug z t)"
        unfolding z(1) plug.simps uu by (intro plug_inorder) (simp add: inorder_node)
      have "hole_nrr ?z" "hole_bh ?z (Suc k)" using inv c yw by simp_all
      from black [OF f3(2) yw(1,3,5) _ this(1)] this(2)
      consider (over) s' t' where "erase_black d a (root_ptr y) s3 = Some (Inl (root_ptr t', s'))" "focus G s' [] t'" "balanced t'"
          "inorder t' = inorder (plug ((d, False, a, y) # ?z) t)"
        | (up) s' t' where "erase_black d a (root_ptr y) s3 = Some (Inr (a, above ?z, s'))" "focus G s' ?z t'" "root_ptr t' = a" "missing ?z t'"
          "\<not> black t'" "inorder (plug ?z t') = inorder (plug ((d, False, a, y) # ?z) t)" by auto
      then show ?thesis
      proof cases
        case over
        then have "erase_loop (root_ptr t) (above z) s = Some (root_ptr t', s')" using step by (subst erase_loop.simps) simp
        then show ?thesis using over finish [OF over(3)] ord by force
      next
        case up
        then have "erase_loop (root_ptr t) (above z) s = erase_loop (root_ptr t') (above ?z) s'" using step by (subst erase_loop.simps) simp
        then show ?thesis using stop [OF up(2,4,5)] up(6) ord by simp
      qed
    qed
  qed
qed

lemma erase_color:
  assumes "focus G s z t" "missing z t"
  shows "\<exists>s' t'. rb_erase_color (root_ptr t) (above z) s = Some s' \<and> holds_tree G s' t' \<and> balanced t' \<and> inorder t' = inorder (plug z t)"
proof -
  obtain s1 z1 t1 where r: "erase_loop (root_ptr t) (above z) s = Some (root_ptr t1, s1)" "focus G s1 z1 t1" "balanced (plug z1 (paint True t1))"
    "inorder (plug z1 t1) = inorder (plug z t)"
    using erase_loop [OF assms] by blast
  have ord: "inorder (plug z1 (paint True t1)) = inorder (plug z t)" using plug_inorder [of "paint True t1" t1 z1] r(4) by simp
  show ?thesis
  proof (cases "t1 = Leaf")
    case True
    then show ?thesis using r focus_plug by (auto simp: rb_erase_color_def)
  next
    case False
    then obtain s2 where "rb_set_color (root_ptr t1) True s1 = Some s2" "focus G s2 z1 (paint True t1)" using set_color [OF r(2)] by blast
    then show ?thesis using r(1,3) ord focus_root [OF r(2) False] focus_plug by (auto simp: rb_erase_color_def)
  qed
qed

section \<open>Linking, replacing and erasing\<close>

lemma link_node:
  assumes "focus G s z Leaf" "p \<noteq> 0" "p \<notin> frame_nodes z" "z \<noteq> [] \<longrightarrow> fst (hd z) = d" "G p = None"
  shows "\<exists>s'. rb_link_node p (above z) d s = Some s' \<and> focus G s' z (Node False Leaf p Leaf)"
proof -
  let ?n = "\<lparr>rb_parent = above z, rb_black = False, rb_child = (\<lambda>_. 0)\<rparr>"
  let ?s = "s\<lparr>rb_nodes := (rb_nodes s)(p := ?n)\<rparr>"
  have run: "rb_link_node p (above z) d s = Some (link z p ?s)"
    using assms by (cases z rule: top_black.cases) (auto simp: rb_link_node_def rb_ops focus_def)
  have "holes (rb_nodes ?s) (rb_root ?s) z 0" using assms(1,3) by (simp add: focus_def)
  moreover have "kept G (link z p ?s) (insert p (frame_nodes z))"
  proof (rule kept_new)
    show "kept G s (frame_nodes z)" using assms(1) by (simp add: focus_def)
    show "rb_nodes (link z p ?s) b = rb_nodes s b" if "b \<notin> frame_nodes z" "b \<noteq> p" for b using that by simp
  qed (use assms(5) in auto)
  ultimately have "focus G (link z p ?s) z (Node False Leaf p Leaf)" using link_holes [of ?s z 0 p] assms(2,3) by (simp add: focus_def)
  then show ?thesis using run by blast
qed

lemma link_upd:
  "a \<notin> frame_nodes z \<Longrightarrow> link z q (s\<lparr>rb_nodes := (rb_nodes s)(a := v)\<rparr>) = (link z q s)\<lparr>rb_nodes := (rb_nodes (link z q s))(a := v)\<rparr>"
  by (induction z q s rule: link.induct) (auto simp: fun_upd_twist)

text \<open>The subtrees' parents become \<open>m\<close>.\<close>

definition reparent :: "nat \<Rightarrow> nat \<Rightarrow> (nat \<Rightarrow> rb_node) \<Rightarrow> nat \<Rightarrow> rb_node" where
  "reparent p m h = (if p \<noteq> 0 then h(p := (h p)\<lparr>rb_parent := m\<rparr>) else h)"

lemma reparent_other [simp]: "a \<noteq> p \<Longrightarrow> reparent p m h a = h a"
  by (simp add: reparent_def)

lemma tree_reparent_other [simp]: "p \<notin> nodes t \<Longrightarrow> tree (reparent p m h) q par t = tree h q par t"
  by (simp add: reparent_def)

lemma holes_reparent [simp]: "p \<notin> frame_nodes z \<Longrightarrow> holes (reparent p m h) rt z q = holes h rt z q"
  by (simp add: reparent_def)

lemma tree_reparented: "tree h p par t \<Longrightarrow> tree (reparent p m h) p m t"
  using tree_reparent [of h p par t m] by (cases t) (auto simp: reparent_def)

lemma set_parent_reparent: "(if p \<noteq> 0 then rb_set_parent p m s else Some s) = Some (s\<lparr>rb_nodes := reparent p m (rb_nodes s)\<rparr>)"
  by (simp add: reparent_def rb_ops)

text \<open>\<open>rb_replace_node\<close> in one expression.\<close>

definition moved :: "frame list \<Rightarrow> nat \<Rightarrow> nat \<Rightarrow> rb \<Rightarrow> rb" where
  "moved z a m s =
     (let n = rb_nodes s a; s = link z m s; h = reparent (rb_child n R) m (reparent (rb_child n L) m (rb_nodes s))
      in s\<lparr>rb_nodes := h(m := n)\<rparr>)"

lemma moved:
  assumes "focus G s z (Node c l a r)" "m \<noteq> 0" "m \<notin> frame_nodes z" "m \<notin> nodes l" "m \<notin> nodes r" "G m = None"
  shows "focus G (moved z a m s) z (Node c l m r)"
proof -
  let ?n = "rb_nodes s a" and ?s = "link z m s"
  define h where "h = reparent (rb_child ?n R) m (reparent (rb_child ?n L) m (rb_nodes ?s))"
  have f: "tree (rb_nodes s) (rb_child ?n L) a l" "tree (rb_nodes s) (rb_child ?n R) a r" "nodes l \<inter> nodes r = {}" "a \<notin> frame_nodes z"
    "nodes l \<inter> frame_nodes z = {}" "nodes r \<inter> frame_nodes z = {}" "rb_parent ?n = above z" "rb_black ?n = c" "holes (rb_nodes s) (rb_root s) z a"
    using assms(1) by (auto simp: focus_def)
  have p: "rb_child ?n L = root_ptr l" "rb_child ?n R = root_ptr r" using f(1,2) tree_ptr by blast+
  have 0: "0 \<notin> nodes l" "0 \<notin> nodes r" "0 \<notin> frame_nodes z" using f(1,2,9) tree_not_null holes_not_null by blast+
  have q: "root_ptr l \<notin> nodes r" "root_ptr r \<notin> nodes l" "root_ptr l \<notin> frame_nodes z" "root_ptr r \<notin> frame_nodes z"
    using f(3,5,6) 0 by (cases l; cases r; auto)+
  have "tree (rb_nodes ?s) (rb_child ?n L) a l" "tree (rb_nodes ?s) (rb_child ?n R) a r" using f by simp_all
  then have "tree h (rb_child ?n L) m l" "tree h (rb_child ?n R) m r"
    unfolding h_def p using q tree_reparented by simp_all
  moreover have "holes h (rb_root ?s) z m" unfolding h_def p using q link_holes [OF f(9)] by simp
  moreover have "kept G (moved z a m s) (insert m (nodes l \<union> nodes r) \<union> frame_nodes z)"
  proof (rule kept_new)
    show "G m = None" by (rule assms(6))
    show "kept G s (insert a (nodes l \<union> nodes r) \<union> frame_nodes z)" using assms(1) by (simp add: focus_def)
    show "insert m (nodes l \<union> nodes r) \<union> frame_nodes z \<subseteq> insert m (insert a (nodes l \<union> nodes r) \<union> frame_nodes z)" by blast
    fix e assume e: "e \<notin> insert a (nodes l \<union> nodes r) \<union> frame_nodes z" "e \<noteq> m"
    then have "root_ptr l \<noteq> 0 \<Longrightarrow> e \<noteq> root_ptr l" "root_ptr r \<noteq> 0 \<Longrightarrow> e \<noteq> root_ptr r" by (cases l; cases r; auto)+
    then show "rb_nodes (moved z a m s) e = rb_nodes s e" using e p by (auto simp: moved_def Let_def reparent_def)
  qed
  ultimately show ?thesis using assms f by (auto simp: focus_def moved_def Let_def h_def [symmetric])
qed

lemma replace_node:
  assumes "focus G s z (Node c l a r)" "m \<noteq> 0" "m \<notin> nodes (plug z (Node c l a r))" "G m = None"
  shows "\<exists>s'. rb_replace_node a m s = Some s' \<and> focus G s' z (Node c l m r)"
proof -
  have m: "m \<notin> frame_nodes z" "m \<notin> nodes l" "m \<notin> nodes r" "m \<noteq> a" using assms(3) by (auto simp: nodes_plug)
  have g: "focus G s z (node L c a l r)" using assms(1) by simp
  have a: "a \<notin> frame_nodes z" "a \<notin> nodes l" "a \<notin> nodes r" "holes (rb_nodes s) (rb_root s) z a" using assms(1) by (auto simp: focus_def)
  note n = focus_get [OF g]
  have "root_ptr l \<noteq> a" "root_ptr r \<noteq> a" using a(2,3) n(1) root_ptr_in by (metis root_ptr.simps(1))+
  then have "rb_replace_node a m s = Some (moved z a m s)"
    using n m assms(2) a replace_link [OF a(4) n(1) a(1), of L m]
    unfolding rb_replace_node_def set_parent_reparent by (simp add: moved_def Let_def get_not_null upd_not_null)
  then show ?thesis using moved [OF assms(1,2) m(1-3) assms(4)] by simp
qed

lemma splice:
  assumes "focus G s z (Node c l a r)" "l = Leaf \<and> x = r \<or> r = Leaf \<and> x = l"
  shows "focus G (link z (root_ptr x) (s\<lparr>rb_nodes := reparent (root_ptr x) (above z) (rb_nodes s)\<rparr>)) z x"
proof -
  let ?s = "s\<lparr>rb_nodes := reparent (root_ptr x) (above z) (rb_nodes s)\<rparr>"
  have f: "tree (rb_nodes s) (root_ptr x) a x" "nodes x \<inter> frame_nodes z = {}" "holes (rb_nodes s) (rb_root s) z a"
    using assms tree_ptr unfolding focus_def by auto
  have "root_ptr x \<notin> frame_nodes z" using f(2) holes_not_null [OF f(3)] by (cases x) auto
  then have "holes (rb_nodes ?s) (rb_root ?s) z a" using f(3) by simp
  moreover have "tree (rb_nodes ?s) (root_ptr x) (above z) x" using tree_reparented [OF f(1)] by simp
  moreover have "kept G (link z (root_ptr x) ?s) (nodes x \<union> frame_nodes z)"
  proof (rule kept_change)
    show "kept G s (nodes (Node c l a r) \<union> frame_nodes z)" using assms(1) by (simp add: focus_def)
    show "nodes x \<union> frame_nodes z \<subseteq> nodes (Node c l a r) \<union> frame_nodes z" using assms(2) by auto
    fix e assume e: "e \<notin> nodes (Node c l a r) \<union> frame_nodes z"
    then have "root_ptr x \<noteq> 0 \<Longrightarrow> e \<noteq> root_ptr x" using assms(2) by (cases x) auto
    then show "rb_nodes (link z (root_ptr x) ?s) e = rb_nodes s e" using e by (auto simp: reparent_def)
  qed
  ultimately show ?thesis using link_holes [of ?s z a "root_ptr x"] f(2) unfolding focus_def by simp
qed

lemma focus_cong:
  assumes "focus G s z t" "rb_root s' = rb_root s" "\<And>a. a \<in> nodes t \<or> a \<in> frame_nodes z \<Longrightarrow> rb_nodes s' a = rb_nodes s a"
    "kept G s' (nodes t \<union> frame_nodes z)"
  shows "focus G s' z t"
proof -
  have tree: "tree h' p par t = tree h p par t" if "\<forall>a \<in> nodes t. h' a = h a" for h h' p par t
    using that by (induction t arbitrary: p par) auto
  have holes: "holes h' rt z p = holes h rt z p" if "\<forall>a \<in> frame_nodes z. h' a = h a" for h h' rt p
    using that
  proof (induction h rt z p rule: holes.induct)
    case (2 h rt d c a u z p)
    then show ?case using tree [of u h' h] by auto
  qed simp
  show ?thesis using assms(1,2,4) tree [of t "rb_nodes s'" "rb_nodes s"] holes [of "rb_nodes s'" "rb_nodes s"] assms(3) unfolding focus_def by simp
qed

text \<open>Down in one direction.\<close>

definition straight :: "dir \<Rightarrow> frame list \<Rightarrow> bool" where
  "straight d z \<longleftrightarrow> (\<forall>f \<in> set z. fst f = d)"

lemma descend:
  "focus G s z t \<Longrightarrow> t \<noteq> Leaf \<Longrightarrow> \<exists>zl c m x. descend d (root_ptr t) s = Some m \<and> t = plug zl (node d c m Leaf x) \<and> straight d zl"
proof (induction "size t" arbitrary: z t rule: less_induct)
  case less
  obtain c a x y where t: "t = node d c a x y" using node_cases less.prems(2) by blast
  note g = focus_get [OF less.prems(1) [unfolded t]]
  have fx: "focus G s ((d, c, a, y) # z) x" using less.prems(1) t focus_down(1) by blast
  show ?case
  proof (cases "x = Leaf")
    case True
    then have "descend d (root_ptr t) s = Some a" using g t by (subst descend.simps) simp
    then show ?thesis using t True by (intro exI [of _ "[]"] exI [of _ c] exI [of _ a] exI [of _ y]) (simp add: straight_def)
  next
    case False
    have "size x < size t" unfolding t by (cases d) simp_all
    then obtain zl c' m x' where ih: "descend d (root_ptr x) s = Some m" "x = plug zl (node d c' m Leaf x')" "straight d zl"
      using less.hyps [OF _ fx False] by blast
    have "descend d (root_ptr t) s = Some m" using g t ih(1) focus_root [OF fx False] by (subst descend.simps) simp
    moreover have "t = plug (zl @ [(d, c, a, y)]) (node d c' m Leaf x')"
    proof -
      have "plug (zl @ zr) u = plug zr (plug zl u)" for zr u by (induction zl u rule: plug.induct) simp_all
      then show ?thesis by (simp add: t ih(2))
    qed
    moreover have "straight d (zl @ [(d, c, a, y)])" using ih(3) by (simp add: straight_def)
    ultimately show ?thesis by blast
  qed
qed

lemma link_upds:
  "a \<notin> frame_nodes z \<Longrightarrow> link z q (s\<lparr>rb_nodes := h(a := v)\<rparr>) = (link z q (s\<lparr>rb_nodes := h\<rparr>))\<lparr>rb_nodes := (rb_nodes (link z q (s\<lparr>rb_nodes := h\<rparr>)))(a := v)\<rparr>"
  "s\<lparr>rb_nodes := rb_nodes s\<rparr> = s"
  using link_upd [of a z q "s\<lparr>rb_nodes := h\<rparr>" v] by simp_all

lemma plug_append: "plug (z1 @ z2) t = plug z2 (plug z1 t)"
  by (induction z1 t rule: plug.induct) simp_all

lemma frame_nodes_append [simp]: "frame_nodes (z1 @ z2) = frame_nodes z1 \<union> frame_nodes z2"
  by (induction z1 rule: frame_nodes.induct) auto

lemma focus_append: "focus G s (z1 @ z2) t \<longleftrightarrow> focus G s z2 (plug z1 t)"
  by (simp add: focus_plug plug_append)

lemma children_eqI: "f L = g L \<Longrightarrow> f R = g R \<Longrightarrow> f = g" for f g :: "dir \<Rightarrow> nat"
  by (rule ext) (metis dir.exhaust)

lemma reparent_same: "rb_parent (h p) = m \<Longrightarrow> reparent p m h = h"
  by (rule ext) (simp add: reparent_def)

text \<open>The successor is the right child of the node.\<close>

lemma take_place_child:
  assumes "focus G s z (Node c l a (Node k Leaf m x))" "l \<noteq> Leaf"
  shows "\<exists>s'. take_place a m s = Some (root_ptr x, m, k, s') \<and> focus G s' ((R, c, m, l) # z) x"
proof -
  have inside: "G m = None" using assms by (cases "G m") (auto simp: focus_def kept_def nodes_plug)
  define z1 where "z1 = (R, c, a, l) # z"
  have f1: "focus G s z1 (Node k Leaf m x)" using assms(1) by (simp add: z1_def focus_up)
  define sA where "sA = link z1 (root_ptr x) (s\<lparr>rb_nodes := reparent (root_ptr x) a (rb_nodes s)\<rparr>)"
  have "focus G sA z1 x" using splice [OF f1, of x] by (simp add: sA_def z1_def)
  then have fA: "focus G sA z (Node c l a x)" by (simp add: z1_def focus_up)
  have m: "m \<noteq> 0" "m \<notin> frame_nodes z" "m \<notin> nodes l" "m \<notin> nodes x" "m \<noteq> a" "a \<notin> frame_nodes z" "a \<noteq> 0" "a \<notin> nodes l" "a \<notin> nodes x"
    "nodes l \<inter> nodes x = {}" "nodes l \<inter> frame_nodes z = {}" "nodes x \<inter> frame_nodes z = {}" "holes (rb_nodes s) (rb_root s) z a"
    using assms(1) by (auto simp: focus_def)
  have fm: "focus G (moved z a m sA) z (Node c l m x)" using moved [OF fA m(1-4)] inside by simp
  note ga = focus_get [of G s z L c a l "Node k Leaf m x", simplified, OF assms(1)]
  note gm = focus_get [of G s z1 L k m Leaf x, simplified, OF f1]
  have px: "root_ptr x \<noteq> a" "root_ptr x \<noteq> m" "root_ptr x \<notin> frame_nodes z" "root_ptr l \<noteq> a" "root_ptr l \<noteq> m" "root_ptr l \<notin> frame_nodes z" "root_ptr l \<noteq> 0"
  proof -
    have x: "root_ptr x = 0 \<or> root_ptr x \<in> nodes x" by (cases x) auto
    have l: "root_ptr l \<noteq> 0" "root_ptr l \<in> nodes l"
      using focus_root [of G s "(L, c, a, Node k Leaf m x) # z" l] root_ptr_in assms by (simp_all add: focus_up)
    show "root_ptr x \<noteq> a" "root_ptr x \<noteq> m" using x m(1,4,7,9) by auto
    show "root_ptr x \<notin> frame_nodes z" using x m(12) holes_not_null [OF m(13)] by auto
    show "root_ptr l \<noteq> a" "root_ptr l \<noteq> m" using l m(3,8) by auto
    show "root_ptr l \<notin> frame_nodes z" using l m(11) by auto
    show "root_ptr l \<noteq> 0" by (rule l)
  qed
  have px': "root_ptr x \<noteq> root_ptr l" using m(10) root_ptr_in [of x] root_ptr_in [OF assms(2)] px(7) by (cases x) auto
  let ?h = "rb_nodes (link z m s)"
  define h' where "h' = (?h(m := (?h m)\<lparr>rb_parent := above z, rb_black := c, rb_child := (rb_child (?h m))(L := root_ptr l)\<rparr>))
    (root_ptr l := (?h (root_ptr l))\<lparr>rb_parent := m\<rparr>)"
  have run: "take_place a m s = Some (root_ptr x, m, k, (link z m s)\<lparr>rb_nodes := h'\<rparr>)"
    using ga gm m px replace_link [OF m(13,7,6), of L m]
    by (simp add: take_place_def rb_ops z1_def h'_def Let_def)
  have "focus G ((link z m s)\<lparr>rb_nodes := h'\<rparr>) z (Node c l m x)"
  proof (rule focus_cong [OF fm])
    have sA: "link z m sA = (link z m s)\<lparr>rb_nodes := (reparent (root_ptr x) a ?h)(a := (rb_nodes s a)\<lparr>rb_child := (rb_child (rb_nodes s a))(R := root_ptr x)\<rparr>)\<rparr>"
      using px m by (simp add: sA_def z1_def link_upds reparent_def)
    show "rb_root ((link z m s)\<lparr>rb_nodes := h'\<rparr>) = rb_root (moved z a m sA)"
      by (simp add: moved_def Let_def sA)
    show "kept G ((link z m s)\<lparr>rb_nodes := h'\<rparr>) (nodes (Node c l m x) \<union> frame_nodes z)"
    proof (rule kept_change)
      show "kept G s (nodes (Node c l a (Node k Leaf m x)) \<union> frame_nodes z)" using assms(1) by (simp add: focus_def)
      show "nodes (Node c l m x) \<union> frame_nodes z \<subseteq> nodes (Node c l a (Node k Leaf m x)) \<union> frame_nodes z" by auto
      fix e assume "e \<notin> nodes (Node c l a (Node k Leaf m x)) \<union> frame_nodes z"
      then show "rb_nodes ((link z m s)\<lparr>rb_nodes := h'\<rparr>) e = rb_nodes s e" using root_ptr_in [OF assms(2)] by (auto simp: h'_def)
    qed
    fix e assume "e \<in> nodes (Node c l m x) \<or> e \<in> frame_nodes z"
    then have "e \<noteq> a" using m by auto
    have nA: "rb_nodes sA a = (rb_nodes s a)\<lparr>rb_child := (rb_child (rb_nodes s a))(R := root_ptr x)\<rparr>"
      using px by (simp add: sA_def z1_def)
    have mv: "rb_nodes (moved z a m sA) = (reparent (root_ptr x) m (reparent (root_ptr l) m ((reparent (root_ptr x) a ?h)
        (a := rb_nodes sA a))))(m := rb_nodes sA a)"
      using ga(5) by (simp add: moved_def Let_def sA nA)
    have "rb_nodes (moved z a m sA) e = (if e = m then rb_nodes sA a else if e = root_ptr l then (?h e)\<lparr>rb_parent := m\<rparr>
        else if e = root_ptr x \<and> e \<noteq> 0 then (?h e)\<lparr>rb_parent := m\<rparr> else ?h e)"
      using \<open>e \<noteq> a\<close> px(1,4,7) px' unfolding mv by (simp add: reparent_def)
    moreover have "h' m = rb_nodes sA a"
      unfolding nA h'_def using px(5,7) ga gm m(2,4) by (intro rb_node.equality children_eqI) (simp_all add: z1_def)
    moreover have "rb_parent (rb_nodes s (root_ptr x)) = m" if "root_ptr x \<noteq> 0"
      using f1 that by (cases x) (auto simp: focus_def)
    ultimately show "rb_nodes ((link z m s)\<lparr>rb_nodes := h'\<rparr>) e = rb_nodes (moved z a m sA) e"
      using px px' m by (auto simp: h'_def)
  qed
  then have "focus G ((link z m s)\<lparr>rb_nodes := h'\<rparr>) ((R, c, m, l) # z) x" by (simp add: focus_up)
  then show ?thesis using run by blast
qed

text \<open>The successor is deeper: \<open>p\<close> is the node above it.\<close>

lemma straight_plug: "straight d zl \<Longrightarrow> zl \<noteq> [] \<Longrightarrow> \<exists>zr c p y. zl = (d, c, p, y) # zr"
  by (cases zl) (auto simp: straight_def)

lemma root_plug: "zl \<noteq> [] \<Longrightarrow> root_ptr (plug zl t) = root_ptr (plug zl u) \<and> root_ptr (plug zl t) \<in> frame_nodes zl"
proof (induction zl arbitrary: t u)
  case (Cons f zl)
  obtain d c a v where f: "f = (d, c, a, v)" by (cases f)
  show ?case using Cons.IH [of "node d c a t v" "node d c a u v"] f by (cases "zl = []") auto
qed simp

lemma take_place_deep:
  assumes "focus G s z (Node c l a r)" "r = plug zl (Node k Leaf m x)" "zl = (L, c', p, y) # zr" "l \<noteq> Leaf"
  shows "\<exists>s'. take_place a m s = Some (root_ptr x, p, k, s') \<and> focus G s' (zl @ (R, c, m, l) # z) x"
proof -
  have inside: "G m = None" using assms by (cases "G m") (auto simp: focus_def kept_def nodes_plug)
  define z1 where "z1 = (R, c, a, l) # z"
  have f1: "focus G s (zl @ z1) (Node k Leaf m x)" using assms(1,2) by (simp add: z1_def focus_append focus_up)
  define sA where "sA = link (zl @ z1) (root_ptr x) (s\<lparr>rb_nodes := reparent (root_ptr x) p (rb_nodes s)\<rparr>)"
  have "focus G sA (zl @ z1) x" using splice [OF f1, of x] by (simp add: sA_def assms(3))
  then have fA: "focus G sA z (Node c l a (plug zl x))" by (simp add: z1_def focus_append focus_up)
  let ?q = "root_ptr r"
  have zl: "zl \<noteq> []" using assms(3) by simp
  have q: "?q = root_ptr (plug zl x)" "?q \<in> frame_nodes zl" using root_plug [OF zl, of "Node k Leaf m x" x] unfolding assms(2) by metis+
  have r: "nodes r = frame_nodes zl \<union> insert m (nodes x)" using assms(2) by (simp add: nodes_plug)
  have fr: "frame_nodes zl \<inter> insert m (nodes x) = {}" "m \<notin> nodes x" using f1 by (auto simp: focus_def)
  have f: "a \<noteq> 0" "a \<notin> nodes l" "a \<notin> nodes r" "nodes l \<inter> nodes r = {}" "nodes l \<inter> frame_nodes z = {}" "nodes r \<inter> frame_nodes z = {}"
    "a \<notin> frame_nodes z" "holes (rb_nodes s) (rb_root s) z a" "0 \<notin> nodes l" "0 \<notin> nodes r"
    using assms(1) tree_not_null by (auto simp: focus_def)
  have p: "p \<in> frame_nodes zl" using assms(3) by simp
  have m: "m \<noteq> 0" "m \<noteq> a" "m \<noteq> p" "m \<notin> frame_nodes z" "m \<notin> nodes l" "m \<noteq> ?q" "p \<noteq> 0" "p \<noteq> a" "p \<notin> frame_nodes z" "?q \<noteq> 0" "?q \<noteq> a" "?q \<notin> frame_nodes z"
    "m \<notin> nodes (plug zl x)"
    using f fr r p q(2) by (auto simp: nodes_plug)
  have fm: "focus G (moved z a m sA) z (Node c l m (plug zl x))" using moved [OF fA m(1,4,5)] m(13) inside by simp
  note ga = focus_get [of G s z L c a l r, simplified, OF assms(1)]
  note gm = focus_get [of G s "zl @ z1" L k m Leaf x, simplified, OF f1]
  have above: "above (zl @ z1) = p" by (simp add: assms(3))
  have pl: "root_ptr l \<in> nodes l" "root_ptr l \<noteq> 0" "root_ptr l \<noteq> a" "root_ptr l \<noteq> m" "root_ptr l \<noteq> p" "root_ptr l \<noteq> ?q" "root_ptr l \<notin> frame_nodes z"
    using root_ptr_in [OF assms(4)] f m p q(2) r by auto
  have px: "root_ptr x \<noteq> a" "root_ptr x \<noteq> m" "root_ptr x \<noteq> p" "root_ptr x \<noteq> ?q" "root_ptr x \<noteq> root_ptr l" "root_ptr x \<notin> frame_nodes z"
  proof -
    consider "x = Leaf" "root_ptr x = 0" | "root_ptr x \<in> nodes x" using root_ptr_in [of x] by (cases x) auto
    then show "root_ptr x \<noteq> a" "root_ptr x \<noteq> m" "root_ptr x \<noteq> p" "root_ptr x \<noteq> ?q" "root_ptr x \<noteq> root_ptr l" "root_ptr x \<notin> frame_nodes z"
      using f(1,3,4,6) m(1,7,10) pl(1,2) r fr p q(2) holes_not_null [OF f(8)] by (cases; auto)+
  qed
  let ?h = "rb_nodes (link z m s)"
  define h3 where "h3 = (let h = reparent (root_ptr x) p ?h in h(p := (h p)\<lparr>rb_child := (rb_child (h p))(L := root_ptr x)\<rparr>))"
  define h' where "h' = (let h = h3(m := (h3 m)\<lparr>rb_child := (rb_child (h3 m))(R := ?q)\<rparr>); h = h(?q := (h ?q)\<lparr>rb_parent := m\<rparr>);
    h = h(m := (h m)\<lparr>rb_parent := above z, rb_black := c, rb_child := (rb_child (h m))(L := root_ptr l)\<rparr>)
    in h(root_ptr l := (h (root_ptr l))\<lparr>rb_parent := m\<rparr>))"
  have run: "take_place a m s = Some (root_ptr x, p, k, (link z m s)\<lparr>rb_nodes := h'\<rparr>)"
    unfolding take_place_def set_parent_reparent
    using ga gm m pl px f(7) above replace_link [OF f(8,1,7), of L m]
    by (simp add: rb_set_parent_def rb_set_child_def get_not_null upd_not_null h'_def h3_def Let_def)
  have sA: "link z m sA = (link z m s)\<lparr>rb_nodes := h3\<rparr>"
    using px m by (simp add: sA_def assms(3) link_upds reparent_def h3_def Let_def)
  have "(link z m s)\<lparr>rb_nodes := h'\<rparr> = moved z a m sA"
  proof -
    have nA: "rb_nodes sA a = rb_nodes s a" using px m by (simp add: sA_def assms(3) reparent_def)
    have "h' e = rb_nodes (moved z a m sA) e" for e
    proof (cases "e = m")
      case True
      have "h3 m = rb_nodes s m" using m(3,4) px(2) by (simp add: h3_def Let_def)
      then have "h' m = (rb_nodes s m)\<lparr>rb_parent := above z, rb_black := c, rb_child := (rb_child (rb_nodes s m))(R := ?q, L := root_ptr l)\<rparr>"
        using m(6) pl(4) by (simp add: h'_def Let_def)
      then have "h' m = rb_nodes s a" using ga(3-6) by (intro rb_node.equality children_eqI) simp_all
      then show ?thesis using True by (simp add: moved_def Let_def nA)
    next
      case False
      then show ?thesis using ga(5,6) m(6,10) pl(2,4,6) px(2,4,5) by (simp add: moved_def Let_def sA nA h'_def reparent_def)
    qed
    then have "h' = rb_nodes (moved z a m sA)" by (rule ext)
    then show ?thesis by (simp add: moved_def Let_def sA)
  qed
  then have "focus G ((link z m s)\<lparr>rb_nodes := h'\<rparr>) (zl @ (R, c, m, l) # z) x" using fm by (simp add: focus_append focus_up)
  then show ?thesis using run by blast
qed

lemma inorder_plug: "\<exists>b e. \<forall>t. inorder (plug z t) = b @ inorder t @ e"
proof (induction z)
  case (Cons f z)
  obtain d c a u where f: "f = (d, c, a, u)" by (cases f)
  obtain b e where be: "\<And>t. inorder (plug z t) = b @ inorder t @ e" using Cons.IH by blast
  show ?case
  proof (cases d)
    case L
    then show ?thesis using be f by (intro exI [of _ b] exI [of _ "a # inorder u @ e"]) simp
  next
    case R
    then show ?thesis using be f by (intro exI [of _ "b @ inorder u @ [a]"] exI [of _ e]) simp
  qed
qed (auto intro: exI [of _ "[]"])

lemma inorder_straight: "straight L z \<Longrightarrow> \<exists>e. \<forall>t. inorder (plug z t) = inorder t @ e"
proof (induction z)
  case (Cons f z)
  obtain c a u where f: "f = (L, c, a, u)" using Cons.prems by (cases f) (auto simp: straight_def)
  have "straight L z" using Cons.prems by (simp add: straight_def)
  then obtain e where "\<And>t. inorder (plug z t) = inorder t @ e" using Cons.IH by blast
  then show ?case using f by (intro exI [of _ "a # inorder u @ e"]) simp
qed (auto intro: exI [of _ "[]"])

lemma distinct_inorder: "tree h p par t \<Longrightarrow> distinct (inorder t)"
  by (induction t arbitrary: p par) (auto simp: nodes_inorder)

lemma holds_distinct: "holds_tree G s t \<Longrightarrow> distinct (inorder t) \<and> 0 \<notin> set (inorder t)"
  using distinct_inorder tree_not_null unfolding holds_tree_def focus_def nodes_inorder by blast

text \<open>What is left when a node with one subtree is taken out of a balanced tree.\<close>

lemma taken:
  assumes "balanced (plug z (Node c l a r))" "l = Leaf \<and> x = r \<or> r = Leaf \<and> x = l"
  shows "c \<Longrightarrow> missing z x" "\<not> c \<Longrightarrow> balanced (plug z x)"
proof -
  have n: "hole_nrr z" "nrr (Node c l a r)" using nrr_plugD assms(1) unfolding balanced_def by blast+
  obtain k where k: "bh (Node c l a r) k" "hole_bh z k" using plug_bh assms(1) unfolding balanced_def by blast
  show "missing z x" if c
    using n k that assms(2) unfolding missing_def by (cases k; cases x) auto
  show "balanced (plug z x)" if "\<not> c"
  proof -
    have "x = Leaf" "k = 0" using n k that assms(2) by (cases x; auto)+
    then show ?thesis using n k plug_bh [of z Leaf] plug_nrr [of z Leaf] hole_nrr_black [of z Leaf] unfolding balanced_def by (cases "z = []") auto
  qed
qed

lemma taken_end:
  assumes "focus G s z x" "col \<Longrightarrow> missing z x" "\<not> col \<Longrightarrow> balanced (plug z x)"
  shows "\<exists>s' t'. (if col then rb_erase_color (root_ptr x) (above z) s else Some s) = Some s' \<and> holds_tree G s' t' \<and> balanced t' \<and>
    inorder t' = inorder (plug z x)"
  using assms erase_color focus_plug by (cases col) auto

text \<open>Colours and heights do not depend on the name of a node.\<close>

lemma rename_hole: "hole_nrr (z1 @ (d, c, a, u) # z2) = hole_nrr (z1 @ (d, c, b, u) # z2)" "hole_bh (z1 @ (d, c, a, u) # z2) n = hole_bh (z1 @ (d, c, b, u) # z2) n"
proof -
  have "top_black (z @ (d, c, a, u) # z2) = top_black (z @ (d, c, b, u) # z2)" for z by (cases z rule: top_black.cases) simp_all
  then show "hole_nrr (z1 @ (d, c, a, u) # z2) = hole_nrr (z1 @ (d, c, b, u) # z2)" by (induction z1 rule: hole_nrr.induct) simp_all
  show "hole_bh (z1 @ (d, c, a, u) # z2) n = hole_bh (z1 @ (d, c, b, u) # z2) n" by (induction z1 n rule: hole_bh.induct) simp_all
qed

lemma rename_balanced: "balanced (plug (z1 @ (d, c, a, u) # z2) t) \<Longrightarrow> balanced (plug (z1 @ (d, c, b, u) # z2) t)"
  unfolding balanced_def plug_bh rename_hole(2) [of z1 d c a u z2 _ b]
  using nrr_plugD [of "z1 @ (d, c, a, u) # z2" t] plug_nrr [of "z1 @ (d, c, b, u) # z2" t] hole_nrr_black [of "z1 @ (d, c, b, u) # z2" t]
    rename_hole(1) [of z1 d c a u z2 b]
  by (cases z1 rule: top_black.cases) auto

lemma erase:
  assumes "focus G s z (Node c l a r)" "balanced (plug z (Node c l a r))"
  shows "\<exists>s' t'. rb_erase a s = Some s' \<and> holds_tree G s' t' \<and> balanced t' \<and> inorder t' = remove1 a (inorder (plug z (Node c l a r)))"
proof -
  obtain b e where be: "\<And>t. inorder (plug z t) = b @ inorder t @ e" using inorder_plug by blast
  have "distinct (inorder (plug z (Node c l a r)))" using assms(1) holds_distinct focus_plug by blast
  then have rem: "remove1 a (inorder (plug z (Node c l a r))) = b @ inorder l @ inorder r @ e" by (simp add: be remove1_append)
  note g = focus_get [of G s z L c a l r, simplified, OF assms(1)]
  have leaf: "root_ptr l = 0 \<longleftrightarrow> l = Leaf" "root_ptr r = 0 \<longleftrightarrow> r = Leaf"
    using focus_leaf focus_down [of G s z L c a l r] assms(1) by auto
  show ?thesis
  proof (cases "l = Leaf \<or> r = Leaf")
    case True
    define x where "x = (if l = Leaf then r else l)"
    have x: "l = Leaf \<and> x = r \<or> r = Leaf \<and> x = l" using True by (auto simp: x_def)
    define s1 where "s1 = link z (root_ptr x) (s\<lparr>rb_nodes := reparent (root_ptr x) (above z) (rb_nodes s)\<rparr>)"
    have f1: "focus G s1 z x" using splice [OF assms(1) x] by (simp add: s1_def)
    have a: "holes (rb_nodes s) (rb_root s) z a" "a \<notin> frame_nodes z" "nodes x \<inter> frame_nodes z = {}" using assms(1) x by (auto simp: focus_def)
    then have "root_ptr x \<notin> frame_nodes z" using holes_not_null [OF a(1)] by (cases x) auto
    then have "take_out a s = Some (root_ptr x, above z, c, s1)"
      using g leaf x True a replace_link [of "s\<lparr>rb_nodes := reparent (root_ptr x) (above z) (rb_nodes s)\<rparr>" z a L "root_ptr x"]
      unfolding take_out_def set_parent_reparent by (auto simp: x_def s1_def Let_def)
    moreover have "inorder (plug z x) = b @ inorder l @ inorder r @ e" using x by (auto simp: be)
    ultimately show ?thesis using taken_end [OF f1 taken [OF assms(2) x]] rem by (auto simp: rb_erase_def)
  next
    case False
    then have lr: "l \<noteq> Leaf" "r \<noteq> Leaf" by simp_all
    have fr: "focus G s ((R, c, a, l) # z) r" using assms(1) by (simp add: focus_up)
    obtain zl k m x where nx: "descend L (root_ptr r) s = Some m" "r = plug zl (Node k Leaf m x)" "straight L zl"
      using descend [OF fr lr(2), of L] by auto
    define z' where "z' = zl @ (R, c, m, l) # z"
    have "\<exists>s'. take_place a m s = Some (root_ptr x, above z', k, s') \<and> focus G s' z' x"
    proof (cases zl)
      case Nil
      then show ?thesis using take_place_child [of G s z c l a k m x] assms(1) lr(1) nx(2) by (simp add: z'_def)
    next
      case (Cons f zr)
      then obtain c' p y where "zl = (L, c', p, y) # zr" using nx(3) by (cases f) (auto simp: straight_def)
      then show ?thesis using take_place_deep [OF assms(1) nx(2) _ lr(1)] by (auto simp: z'_def)
    qed
    then obtain s1 where s1: "take_place a m s = Some (root_ptr x, above z', k, s1)" "focus G s1 z' x" by blast
    have "take_out a s = Some (root_ptr x, above z', k, s1)" using g leaf lr nx(1) s1(1) by (simp add: take_out_def)
    moreover have "balanced (plug z' (Node k Leaf m x))"
      using rename_balanced [of zl R c a l z _ m] assms(2) nx(2) by (simp add: z'_def plug_append)
    then have "\<exists>s' t'. (if k then rb_erase_color (root_ptr x) (above z') s1 else Some s1) = Some s' \<and> holds_tree G s' t' \<and> balanced t' \<and>
        inorder t' = inorder (plug z' x)"
      using taken_end [OF s1(2)] taken [of z' k Leaf m x x] by blast
    moreover have "inorder (plug z' x) = b @ inorder l @ inorder r @ e"
    proof -
      obtain e' where "\<And>t. inorder (plug zl t) = inorder t @ e'" using inorder_straight [OF nx(3)] by blast
      then show ?thesis by (simp add: z'_def plug_append be nx(2))
    qed
    ultimately show ?thesis using rem by (auto simp: rb_erase_def)
  qed
qed

section \<open>Stepping\<close>

definition head0 :: "nat list \<Rightarrow> nat" where
  "head0 xs = (case xs of [] \<Rightarrow> 0 | x # _ \<Rightarrow> x)"

text \<open>The nodes in direction \<open>d\<close>, and those outside of the hole in direction \<open>d\<close>, from the nearest on.\<close>

definition order :: "dir \<Rightarrow> rb_tree \<Rightarrow> nat list" where
  "order d t = (if d = R then inorder t else rev (inorder t))"

fun side :: "dir \<Rightarrow> frame list \<Rightarrow> nat list" where
  "side d [] = []"
| "side d ((d', c, a, u) # z) = (if d' = d then side d z else a # order d u @ side d z)"

lemma head0_simps [simp]: "head0 [] = 0" "head0 (x # xs) = x"
  by (simp_all add: head0_def)

lemma order_node: "order d (node d' c a x y) = (if d' = d then order d y @ a # order d x else order d x @ a # order d y)"
  by (cases d; cases d') (simp_all add: order_def)

lemma order_Node: "order d (Node c x a y) = (if d = R then order d x @ a # order d y else order d y @ a # order d x)"
  by (simp add: order_def)

lemma head0_append: "head0 (xs @ ys) = (if xs = [] then head0 ys else head0 xs)"
  by (cases xs) simp_all

lemma inorder_Nil [simp]: "inorder t = [] \<longleftrightarrow> t = Leaf"
  by (cases t) simp_all

lemma order_plug: "order d (plug z t) = rev (side (opp d) z) @ order d t @ side d z"
proof (induction z t rule: plug.induct)
  case (2 d' c a u z t)
  have "rev (order (opp d) u) = order d u" by (cases d) (simp_all add: order_def)
  then show ?case using 2 by (cases d; cases d') (simp_all add: order_Node)
qed simp

lemma climb: "focus G s z t \<Longrightarrow> t \<noteq> Leaf \<Longrightarrow> climb d (root_ptr t) s = Some (head0 (side d z))"
proof (induction z arbitrary: t)
  case Nil
  then obtain c a x y where "t = node L c a x y" using node_cases by blast
  then show ?case using focus_get [of G s "[]" L c a x y] Nil by (subst climb.simps) simp
next
  case (Cons f z)
  obtain d' c a u where f: "f = (d', c, a, u)" by (cases f)
  obtain c' b x y where t: "t = node L c' b x y" using node_cases Cons.prems(2) by blast
  have fa: "focus G s z (node d' c a t u)" using Cons.prems(1) f by (simp add: focus_up)
  have dir: "root_ptr t = rb_child (rb_nodes s a) d \<longleftrightarrow> d' = d"
    using focus_get(5,6) [OF fa] focus_sibling [OF fa Cons.prems(2)] by (cases d; cases d') auto
  have "rb_get (root_ptr t) s = Some (rb_nodes s (root_ptr t))" "rb_parent (rb_nodes s (root_ptr t)) = a" "a \<noteq> 0" "rb_get a s = Some (rb_nodes s a)"
    using focus_get [of G s "f # z" L c' b x y] focus_get [OF fa] Cons.prems(1) t f by simp_all
  then have "climb d (root_ptr t) s = (if d' = d then climb d a s else Some a)" using dir by (subst climb.simps) simp
  then show ?case using Cons.IH [OF fa] f by simp
qed

lemma find_node: "a \<in> nodes t \<Longrightarrow> \<exists>z c l r. t = plug z (Node c l a r)"
proof (induction t)
  case (Node c l b r)
  show ?case
  proof (cases "a = b")
    case True
    then show ?thesis by (metis plug.simps(1))
  next
    case False
    then consider "a \<in> nodes l" | "a \<in> nodes r" using Node.prems by auto
    then show ?thesis
    proof cases
      case 1
      then obtain z c' l' r' where "l = plug z (Node c' l' a r')" using Node.IH by blast
      then have "Node c l b r = plug (z @ [(L, c, b, r)]) (Node c' l' a r')" by (simp add: plug_append)
      then show ?thesis by blast
    next
      case 2
      then obtain z c' l' r' where "r = plug z (Node c' l' a r')" using Node.IH by blast
      then have "Node c l b r = plug (z @ [(R, c, b, l)]) (Node c' l' a r')" by (simp add: plug_append)
      then show ?thesis by blast
    qed
  qed
qed simp

lemma descend_order:
  assumes "focus G s z t" "t \<noteq> Leaf"
  shows "descend (opp d) (root_ptr t) s = Some (head0 (order d t))"
proof -
  obtain zl c m x where d: "descend (opp d) (root_ptr t) s = Some m" "t = plug zl (node (opp d) c m Leaf x)" "straight (opp d) zl"
    using descend [OF assms] by blast
  have "side (opp d) zl = []" using d(3) by (induction "opp d" zl rule: side.induct) (auto simp: straight_def)
  moreover have "order d Leaf = []" by (simp add: order_def)
  ultimately have "order d t = m # order d x @ side d zl" by (simp add: d(2) order_plug order_node)
  then show ?thesis using d(1) by simp
qed

lemma rb_step:
  assumes "focus G s z (Node c l a r)"
  shows "rb_step R a s = Some (head0 (inorder r @ side R z))" "rb_step L a s = Some (head0 (rev (inorder l) @ side L z))"
proof -
  note g = focus_get [of G s z L c a l r, simplified, OF assms]
  have par: "rb_parent (rb_nodes s a) \<noteq> a" using assms by (cases z) (auto simp: focus_def)
  have fl: "focus G s ((L, c, a, r) # z) l" "focus G s ((R, c, a, l) # z) r" using assms by (simp_all add: focus_up)
  have cl: "climb d a s = Some (head0 (side d z))" for d using climb [OF assms, of d] by simp
  show "rb_step R a s = Some (head0 (inorder r @ side R z))"
    using g par cl [of R] descend_order [OF fl(2), of R] focus_leaf [OF fl(2)]
    by (cases "r = Leaf") (simp_all add: rb_step_def order_def head0_append)
  show "rb_step L a s = Some (head0 (rev (inorder l) @ side L z))"
    using g par cl [of L] descend_order [OF fl(1), of L] focus_leaf [OF fl(1)]
    by (cases "l = Leaf") (simp_all add: rb_step_def order_def head0_append)
qed

lemma rb_end:
  assumes "holds_tree G s t"
  shows "rb_end L s = Some (head0 (inorder t))" "rb_end R s = Some (head0 (rev (inorder t)))"
proof -
  have f: "focus G s [] t" "rb_root s = root_ptr t" using assms by (simp_all add: holds_tree_def focus_def)
  show "rb_end L s = Some (head0 (inorder t))" "rb_end R s = Some (head0 (rev (inorder t)))"
    using f focus_leaf [OF f(1)] descend_order [OF f(1), of R] descend_order [OF f(1), of L]
    by (cases "t = Leaf"; simp add: rb_end_def order_def)+
qed

section \<open>Sequences of nodes\<close>

text \<open>The operations as the library uses them: a node is linked below a node without a child on that side, and the tree repaired.\<close>

datatype rb_op = Link nat nat dir | Erase nat | Replace nat nat

fun run_rb :: "rb_op \<Rightarrow> rb \<Rightarrow> rb option" where
  "run_rb (Link new parent d) s = do { s \<leftarrow> rb_link_node new parent d s; rb_insert_color new s }"
| "run_rb (Erase a) s = rb_erase a s"
| "run_rb (Replace a new) s = rb_replace_node a new s"

text \<open>Their meaning on the sequence: insertion just before or behind the parent.\<close>

fun insert_at :: "dir \<Rightarrow> nat \<Rightarrow> nat \<Rightarrow> nat list \<Rightarrow> nat list" where
  "insert_at d new p [] = [new]"
| "insert_at d new p (x # xs) = (if x = p then (if d = L then new # x # xs else x # new # xs) else x # insert_at d new p xs)"

fun meaning :: "rb_op \<Rightarrow> nat list \<Rightarrow> nat list" where
  "meaning (Link new parent d) xs = insert_at d new parent xs"
| "meaning (Erase a) xs = remove1 a xs"
| "meaning (Replace a new) xs = map (\<lambda>x. if x = a then new else x) xs"

definition rb_holds :: "rb \<Rightarrow> nat list \<Rightarrow> bool" where
  "rb_holds s xs \<longleftrightarrow> (\<exists>t. holds_tree (\<lambda>_. None) s t \<and> balanced t \<and> inorder t = xs)"

text \<open>What the operations need, in terms of the nodes reached from the root.\<close>

partial_function (option) collect :: "nat \<Rightarrow> rb \<Rightarrow> nat list option" where
  [code]: "collect p s = (if p = 0 then Some []
     else do { l \<leftarrow> collect (rb_child (rb_nodes s p) L) s; r \<leftarrow> collect (rb_child (rb_nodes s p) R) s; Some (l @ p # r) })"

fun rb_ok :: "rb_op \<Rightarrow> rb \<Rightarrow> bool" where
  "rb_ok (Link new parent d) s \<longleftrightarrow> new \<noteq> 0 \<and> (case collect (rb_root s) s of None \<Rightarrow> False | Some xs \<Rightarrow> new \<notin> set xs \<and>
     (if xs = [] then parent = 0 else parent \<in> set xs \<and> rb_child (rb_nodes s parent) d = 0))"
| "rb_ok (Erase a) s \<longleftrightarrow> (case collect (rb_root s) s of None \<Rightarrow> False | Some xs \<Rightarrow> a \<in> set xs)"
| "rb_ok (Replace a new) s \<longleftrightarrow> new \<noteq> 0 \<and> (case collect (rb_root s) s of None \<Rightarrow> False | Some xs \<Rightarrow> a \<in> set xs \<and> new \<notin> set xs)"

lemma collect: "tree (rb_nodes s) p par t \<Longrightarrow> collect p s = Some (inorder t)"
proof (induction t arbitrary: p par)
  case Leaf
  then show ?case by (subst collect.simps) simp
next
  case (Node c l a r)
  have "tree (rb_nodes s) (rb_child (rb_nodes s a) L) a l" "tree (rb_nodes s) (rb_child (rb_nodes s a) R) a r" using Node.prems by simp_all
  then have "collect (rb_child (rb_nodes s a) L) s = Some (inorder l)" "collect (rb_child (rb_nodes s a) R) s = Some (inorder r)"
    using Node.IH by blast+
  then show ?case using Node.prems by (subst collect.simps) simp
qed

lemma collect_holds: "holds_tree G s t \<Longrightarrow> collect (rb_root s) s = Some (inorder t)"
  using collect [of s "rb_root s" 0 t] by (simp add: holds_tree_def focus_def)

lemma rename_root:
  assumes "balanced (plug z (Node c l a r))"
  shows "balanced (plug z (Node c l b r))"
  using rename_balanced [of "[]" L c a r z l b] assms by simp

lemma insert_at_split: "p \<notin> set xs \<Longrightarrow> insert_at d new p (xs @ p # ys) = xs @ (if d = L then [new, p] else [p, new]) @ ys"
  by (induction xs) auto

lemma run_link:
  assumes "holds_tree G s t" "balanced t" "rb_ok (Link new p d) s" "G new = None"
  shows "\<exists>s' t'. run_rb (Link new p d) s = Some s' \<and> holds_tree G s' t' \<and> balanced t' \<and> inorder t' = insert_at d new p (inorder t)"
proof -
  have new: "new \<noteq> 0" "new \<notin> nodes t" using assms(3) collect_holds [OF assms(1)] by (auto simp: nodes_inorder)
  have "\<exists>z. t = plug z Leaf \<and> above z = p \<and> (z \<noteq> [] \<longrightarrow> fst (hd z) = d) \<and> inorder (plug z (Node False Leaf new Leaf)) = insert_at d new p (inorder t)"
  proof (cases "t = Leaf")
    case True
    then show ?thesis using assms(3) collect_holds [OF assms(1)] by (intro exI [of _ "[]"]) simp
  next
    case False
    then have p: "p \<in> nodes t" "rb_child (rb_nodes s p) d = 0"
      using assms(3) collect_holds [OF assms(1)] by (auto simp: nodes_inorder split: if_splits)
    then obtain z c l r where t: "t = plug z (Node c l p r)" using find_node by blast
    have f: "focus G s z (Node c l p r)" using assms(1) t focus_plug by simp
    obtain u v where n: "Node c l p r = node d c p u v"
    proof (cases d)
      case L
      then show ?thesis using that [of l r] by simp
    next
      case R
      then show ?thesis using that [of r l] by simp
    qed
    have u: "u = Leaf" using focus_get(5) [OF f [unfolded n]] p(2) focus_leaf focus_down(1) f n by metis
    obtain b e where be: "\<And>t. inorder (plug z t) = b @ inorder t @ e" using inorder_plug by blast
    have "distinct (inorder t)" using holds_distinct assms(1) by blast
    then have pb: "p \<notin> set b \<and> p \<notin> nodes l" using t be by (auto simp: nodes_inorder)
    have "insert_at d new p (inorder t) = b @ inorder (node d c p (Node False Leaf new Leaf) v) @ e"
    proof (cases d)
      case L
      then have "inorder t = b @ p # inorder v @ e" using t n u be by simp
      then show ?thesis using L pb by (simp add: insert_at_split)
    next
      case R
      then have "inorder t = (b @ inorder v) @ p # e" "v = l" using t n u be by simp_all
      then show ?thesis using R pb by (simp add: insert_at_split nodes_inorder del: append_assoc)
    qed
    then show ?thesis using t n u be by (intro exI [of _ "(d, c, p, v) # z"]) simp
  qed
  then obtain z where z: "t = plug z Leaf" "above z = p" "z \<noteq> [] \<longrightarrow> fst (hd z) = d" "inorder (plug z (Node False Leaf new Leaf)) = insert_at d new p (inorder t)"
    by blast
  have "focus G s z Leaf" using assms(1) z(1) focus_plug by simp
  moreover have "new \<notin> frame_nodes z" using new(2) z(1) by (simp add: nodes_plug)
  ultimately obtain s1 where s1: "rb_link_node new p d s = Some s1" "focus G s1 z (Node False Leaf new Leaf)"
    using link_node [of G s z new d] new(1) z(2,3) assms(4) by blast
  then show ?thesis using insert_color [OF s1(2)] assms(2) z(1,4) by auto
qed

lemma rename_fresh: "a \<notin> set xs \<Longrightarrow> map (\<lambda>x. if x = a then b else x) xs = xs"
  by (induction xs) auto

text \<open>One operation, on nodes \<open>G\<close> outside of the tree that it leaves alone.\<close>

fun added :: "rb_op \<Rightarrow> nat set" where
  "added (Link new parent d) = {new}"
| "added (Erase a) = {}"
| "added (Replace a new) = {new}"

lemma run_rb_step_kept:
  assumes "holds_tree G s t" "balanced t" "rb_ok c s" "\<forall>a \<in> added c. G a = None"
  shows "\<exists>s' t'. run_rb c s = Some s' \<and> holds_tree G s' t' \<and> balanced t' \<and> inorder t' = meaning c (inorder t)"
proof -
  note col = collect_holds [OF assms(1)]
  show ?thesis
  proof (cases c)
    case (Link new p d)
    then show ?thesis using run_link [OF assms(1,2), of new p d] assms(3,4) by auto
  next
    case (Erase a)
    then have "a \<in> nodes t" using assms(3) col by (auto simp: nodes_inorder)
    then obtain z k l r where "t = plug z (Node k l a r)" using find_node by blast
    then show ?thesis using erase [of G s z k l a r] assms(1,2) Erase focus_plug by auto
  next
    case (Replace a new)
    then have a: "a \<in> nodes t" "new \<noteq> 0" "new \<notin> nodes t" using assms(3) col by (auto simp: nodes_inorder)
    then obtain z k l r where z: "t = plug z (Node k l a r)" using find_node by blast
    then obtain s' where s': "rb_replace_node a new s = Some s'" "holds_tree G s' (plug z (Node k l new r))"
      using replace_node [of G s z k l a r new] assms(1,4) a Replace focus_plug by auto
    obtain b e where be: "\<And>t. inorder (plug z t) = b @ inorder t @ e" using inorder_plug by blast
    have "distinct (inorder t)" using holds_distinct [OF assms(1)] by simp
    then have "map (\<lambda>x. if x = a then new else x) (inorder t) = inorder (plug z (Node k l new r))"
      unfolding z be by (auto simp: rename_fresh)
    then show ?thesis using s' Replace rename_root [of z k l a r new] assms(2) z by auto
  qed
qed

lemma run_rb_step:
  assumes "rb_holds s xs" "rb_ok c s"
  shows "\<exists>s'. run_rb c s = Some s' \<and> rb_holds s' (meaning c xs)"
  using assms run_rb_step_kept [of "\<lambda>_. None" s _ c] unfolding rb_holds_def by fastforce

text \<open>The other nodes do not change.\<close>

lemma run_rb_frame:
  assumes "rb_holds s xs" "rb_ok c s"
  shows "\<exists>s'. run_rb c s = Some s' \<and> rb_holds s' (meaning c xs) \<and> (\<forall>a. a \<notin> set xs \<longrightarrow> a \<notin> added c \<longrightarrow> rb_nodes s' a = rb_nodes s a)"
proof -
  obtain t where t: "holds_tree (\<lambda>_. None) s t" "balanced t" "inorder t = xs" using assms(1) by (auto simp: rb_holds_def)
  define G where "G a = (if a \<in> set xs \<or> a \<in> added c then None else Some (rb_nodes s a))" for a
  have "holds_tree G s t" using t(1,3) by (auto simp: holds_tree_def focus_def kept_def G_def simp flip: nodes_inorder split: if_splits)
  then obtain s' t' where s': "run_rb c s = Some s'" "holds_tree G s' t'" "balanced t'" "inorder t' = meaning c xs"
    using run_rb_step_kept [of G s t c] t assms(2) by (auto simp: G_def)
  have "holds_tree (\<lambda>_. None) s' t'" using s'(2) by (simp add: holds_tree_def focus_def kept_def)
  moreover have "rb_nodes s' a = rb_nodes s a" if "a \<notin> set xs" "a \<notin> added c" for a
    using s'(2) that by (auto simp: holds_tree_def focus_def kept_def G_def)
  ultimately show ?thesis using s'(1,3,4) by (auto simp: rb_holds_def)
qed

text \<open>Stepping, on sequences.\<close>

lemma rb_steps:
  assumes "rb_holds s (xs @ a # ys)"
  shows "rb_step R a s = Some (head0 ys) \<and> rb_step L a s = Some (head0 (rev xs)) \<and>
    rb_end L s = Some (head0 (xs @ [a])) \<and> rb_end R s = Some (head0 (rev ys @ [a]))"
proof -
  obtain t where t: "holds_tree (\<lambda>_. None) s t" "inorder t = xs @ a # ys" using assms by (auto simp: rb_holds_def)
  then have "a \<in> nodes t" by (simp flip: nodes_inorder)
  then obtain z c l r where z: "t = plug z (Node c l a r)" using find_node by blast
  have f: "focus (\<lambda>_. None) s z (Node c l a r)" using t(1) z focus_plug by simp
  have "xs @ a # ys = (rev (side L z) @ inorder l) @ a # (inorder r @ side R z)"
    using t(2) order_plug [of R z "Node c l a r"] by (simp add: order_def z)
  moreover have "distinct (xs @ a # ys)" using holds_distinct t by metis
  ultimately have "xs = rev (side L z) @ inorder l" "ys = inorder r @ side R z"
    by (metis append_Cons_eq_iff distinct_append not_distinct_conv_prefix distinct.simps(2) append_eq_append_conv2)+
  then show ?thesis using rb_step [OF f] rb_end [OF t(1)] by (simp add: t(2) head0_append)
qed

text \<open>The nodes of the sequence are neither null nor cleared, and nothing else matters.\<close>

lemma tree_cong: "tree h p par t \<Longrightarrow> (\<And>a. a \<in> nodes t \<Longrightarrow> h' a = h a) \<Longrightarrow> tree h' p par t"
  by (induction t arbitrary: p par) auto

lemma rb_holds_cong:
  assumes "rb_holds s xs" "\<And>a. a \<in> set xs \<Longrightarrow> rb_nodes s' a = rb_nodes s a" "rb_root s' = rb_root s"
  shows "rb_holds s' xs"
  using assms tree_cong [of "rb_nodes s" "rb_root s" 0 _ "rb_nodes s'"]
  unfolding rb_holds_def holds_tree_def focus_def kept_def by (fastforce simp flip: nodes_inorder)

lemma rb_holds_nodes:
  assumes "rb_holds s xs"
  shows "distinct xs" "0 \<notin> set xs" "rb_root s = 0 \<longleftrightarrow> xs = []" "a \<in> set xs \<Longrightarrow> rb_parent (rb_nodes s a) \<noteq> a"
proof -
  obtain t where t: "holds_tree (\<lambda>_. None) s t" "inorder t = xs" using assms by (auto simp: rb_holds_def)
  show "distinct xs" "0 \<notin> set xs" using holds_distinct [OF t(1)] t(2) by auto
  show "rb_root s = 0 \<longleftrightarrow> xs = []" using t focus_leaf [of _ s "[]" t] by (auto simp: holds_tree_def focus_def)
  assume "a \<in> set xs"
  then have "a \<in> nodes t" using t(2) by (simp flip: nodes_inorder)
  then obtain z c l r where z: "t = plug z (Node c l a r)" using find_node by blast
  have "focus (\<lambda>_. None) s z (Node c l a r)" using t(1) z focus_plug by simp
  then show "rb_parent (rb_nodes s a) \<noteq> a" by (cases z) (auto simp: focus_def)
qed

interpretation rb_tree: simulation run_rb meaning rb_holds rb_ok
  by unfold_locales (rule run_rb_step)

fun depth :: "rb_tree \<Rightarrow> nat" where
  "depth Leaf = 0"
| "depth (Node c l a r) = Suc (max (depth l) (depth r))"

lemma depth_bh: "bh t n \<Longrightarrow> nrr t \<Longrightarrow> depth t \<le> 2 * n + (if black t then 0 else 1)"
proof (induction t arbitrary: n)
  case (Node c l a r)
  then show ?case by (cases c) (fastforce split: if_splits)+
qed simp

lemma bh_length: "bh t n \<Longrightarrow> 2 ^ n \<le> Suc (length (inorder t))"
proof (induction t arbitrary: n)
  case (Node c l a r)
  show ?case
  proof (cases c)
    case True
    then obtain k where "n = Suc k" "bh l k" "bh r k" using Node.prems by (cases n) auto
    then show ?thesis using Node.IH(1) [of k] Node.IH(2) [of k] by simp
  next
    case False
    then show ?thesis using Node.prems Node.IH(1) [of n] by simp
  qed
qed simp

section \<open>Properties\<close>

text \<open>
  C29. Any sequence of linking (with its repair), erasing and replacing nodes runs without a fault, and does to the sequence of
  the nodes what the operations say; the tree stays balanced.
\<close>

theorem rb_refines_sequence:
  assumes "rb_holds s xs" "all_ok run_rb rb_ok ops s"
  shows "\<exists>s'. exec run_rb ops s = Some s' \<and> rb_holds s' (fold meaning ops xs)"
  using rb_tree.sim_exec [OF assms] .

definition rb_empty :: rb where
  "rb_empty = \<lparr>rb_nodes = (\<lambda>_. \<lparr>rb_parent = 0, rb_black = False, rb_child = (\<lambda>_. 0)\<rparr>), rb_root = 0\<rparr>"

lemma rb_empty: "rb_holds rb_empty []"
  unfolding rb_holds_def by (intro exI [of _ Leaf]) (simp add: holds_tree_def focus_def rb_empty_def balanced_def kept_def)

definition example_ops :: "rb_op list" where
  "example_ops = [Link 5 0 L, Link 3 5 L, Link 8 5 R, Link 9 8 R, Link 7 8 L, Erase 5, Replace 3 4]"

theorem rb_refines_sequence_witness:
  "\<exists>s'. exec run_rb example_ops rb_empty = Some s' \<and> rb_holds s' [4, 7, 8, 9]"
proof -
  have "all_ok run_rb rb_ok example_ops rb_empty" by code_simp
  moreover have "fold meaning example_ops [] = [4, 7, 8, 9]" by (simp add: example_ops_def)
  ultimately show ?thesis using rb_refines_sequence [OF rb_empty, of example_ops] by simp
qed

text \<open>
  C30. In a balanced tree \<open>rb_next\<close>, \<open>rb_prev\<close>, \<open>rb_first\<close> and \<open>rb_last\<close> return, and give the neighbours and the ends of the sequence
  of nodes, or NULL.
\<close>

theorem rb_stepping:
  assumes "rb_holds s (xs @ a # ys)"
  shows "rb_step R a s = Some (head0 ys) \<and> rb_step L a s = Some (head0 (rev xs)) \<and>
    rb_end L s = Some (head0 (xs @ [a])) \<and> rb_end R s = Some (head0 (rev ys @ [a]))"
  using rb_steps [OF assms] .

text \<open>
  The depth of a balanced tree of \<open>n\<close> nodes is at most twice the logarithm of \<open>n + 1\<close>, so every walk from the root or to it is short.
\<close>

theorem rb_depth:
  assumes "holds_tree G s t" "balanced t"
  shows "2 ^ depth t \<le> (Suc (length (inorder t))) ^ 2"
proof -
  obtain n where n: "bh t n" "nrr t" "black t" using assms(2) by (auto simp: balanced_def)
  have "(2 :: nat) ^ depth t \<le> 2 ^ (2 * n)" using depth_bh [OF n(1,2)] n(3) by (intro power_increasing) simp_all
  also have "\<dots> = (2 ^ n) ^ 2" by (simp add: power_mult power_commutes mult.commute [of 2])
  also have "\<dots> \<le> (Suc (length (inorder t))) ^ 2" using bh_length [OF n(1)] by (rule power_mono) simp
  finally show ?thesis .
qed

text \<open>Three nodes, the middle one at the root.\<close>

definition three :: rb where
  "three = \<lparr>rb_nodes = (\<lambda>a. if a = 2 then \<lparr>rb_parent = 0, rb_black = True, rb_child = (\<lambda>d. if d = L then 1 else 3)\<rparr>
     else \<lparr>rb_parent = 2, rb_black = False, rb_child = (\<lambda>_. 0)\<rparr>), rb_root = 2\<rparr>"

definition three_tree :: rb_tree where
  "three_tree = Node True (Node False Leaf 1 Leaf) 2 (Node False Leaf 3 Leaf)"

lemma three: "holds_tree (\<lambda>_. None) three three_tree" "balanced three_tree" "rb_holds three [1, 2, 3]"
proof -
  show "holds_tree (\<lambda>_. None) three three_tree" by (simp add: holds_tree_def focus_def kept_def three_def three_tree_def)
  moreover show "balanced three_tree" unfolding balanced_def by (simp add: three_tree_def) (intro exI [of _ 1], simp)
  ultimately show "rb_holds three [1, 2, 3]" unfolding rb_holds_def by (intro exI [of _ three_tree]) (simp add: three_tree_def)
qed

theorem rb_stepping_witness: "rb_step R 2 three = Some 3 \<and> rb_step L 2 three = Some 1 \<and> rb_end L three = Some 1 \<and> rb_end R three = Some 3"
  using rb_stepping [of three "[1]" 2 "[3]"] three(3) by simp

theorem rb_depth_witness: "2 ^ depth three_tree \<le> (16 :: nat)"
  using rb_depth [OF three(1,2)] by (simp add: three_tree_def)

end
