(* ===== verification/Linked_List.thy ===== *)
theory Linked_List
  imports Prelude
begin

text \<open>
  The intrusive doubly linked lists of \<^verbatim>\<open>src/app/list.h\<close>, on a store: the memory is the record \<open>links\<close> of the
  members \<open>next\<close> and \<open>prev\<close> of every \<^verbatim>\<open>struct list_head\<close>, which are addresses. A list is a ring through its head.
  \<open>is_list h head xs\<close> says that the ring at \<open>head\<close> runs through the nodes \<open>xs\<close>, in both directions; every
  operation is shown to do on \<open>xs\<close> what its comment says, and to leave all other nodes alone.
\<close>

type_synonym addr = nat

record links =
  nxt :: "addr \<Rightarrow> addr"
  prv :: "addr \<Rightarrow> addr"

section \<open>The model\<close>

definition LIST_POISON1 :: addr where "LIST_POISON1 = 0x00100100"
definition LIST_POISON2 :: addr where "LIST_POISON2 = 0x00200200"

text \<open>The assignments \<open>a->next = b\<close> and \<open>a->prev = b\<close>.\<close>

definition set_next :: "addr \<Rightarrow> addr \<Rightarrow> links \<Rightarrow> links" where
  "set_next a b h = h\<lparr>nxt := (nxt h)(a := b)\<rparr>"

definition set_prev :: "addr \<Rightarrow> addr \<Rightarrow> links \<Rightarrow> links" where
  "set_prev a b h = h\<lparr>prv := (prv h)(a := b)\<rparr>"

definition list_init :: "addr \<Rightarrow> links \<Rightarrow> links" where
  "list_init head h = set_prev head head (set_next head head h)"

definition list_link :: "addr \<Rightarrow> addr \<Rightarrow> addr \<Rightarrow> links \<Rightarrow> links" where
  "list_link new p n h =
     (let h = set_prev n new h;
          h = set_next new n h;
          h = set_prev new p h
      in set_next p new h)"

definition list_prev :: "links \<Rightarrow> addr \<Rightarrow> addr" where
  "list_prev h l = prv h l"

definition list_next :: "links \<Rightarrow> addr \<Rightarrow> addr" where
  "list_next h l = nxt h l"

definition list_add :: "addr \<Rightarrow> addr \<Rightarrow> links \<Rightarrow> links" where
  "list_add new head h = list_link new head (nxt h head) h"

definition list_add_tail :: "addr \<Rightarrow> addr \<Rightarrow> links \<Rightarrow> links" where
  "list_add_tail new head h = list_link new (prv h head) head h"

definition list_unlink :: "addr \<Rightarrow> addr \<Rightarrow> links \<Rightarrow> links" where
  "list_unlink p n h = set_next p n (set_prev n p h)"

definition list_del :: "addr \<Rightarrow> links \<Rightarrow> links" where
  "list_del entry h =
     (let h = list_unlink (prv h entry) (nxt h entry) h
      in set_prev entry LIST_POISON2 (set_next entry LIST_POISON1 h))"

definition list_del_init :: "addr \<Rightarrow> links \<Rightarrow> links" where
  "list_del_init entry h = list_init entry (list_unlink (prv h entry) (nxt h entry) h)"

definition list_move :: "addr \<Rightarrow> addr \<Rightarrow> links \<Rightarrow> links" where
  "list_move l head h = list_add l head (list_unlink (prv h l) (nxt h l) h)"

definition list_move_tail :: "addr \<Rightarrow> addr \<Rightarrow> links \<Rightarrow> links" where
  "list_move_tail l head h = list_add_tail l head (list_unlink (prv h l) (nxt h l) h)"

definition list_empty :: "links \<Rightarrow> addr \<Rightarrow> bool" where
  "list_empty h head \<longleftrightarrow> nxt h head = head"

definition list_splice_at :: "addr \<Rightarrow> addr \<Rightarrow> links \<Rightarrow> links" where
  "list_splice_at l head h =
     (let first = nxt h l; last = prv h l; at = nxt h head;
          h = set_prev first head h;
          h = set_next head first h;
          h = set_next last at h
      in set_prev at last h)"

definition list_splice :: "addr \<Rightarrow> addr \<Rightarrow> links \<Rightarrow> links" where
  "list_splice l head h = (if \<not> list_empty h l then list_splice_at l head h else h)"

definition list_splice_init :: "addr \<Rightarrow> addr \<Rightarrow> links \<Rightarrow> links" where
  "list_splice_init l head h = (if \<not> list_empty h l then list_init l (list_splice_at l head h) else h)"

text \<open>
  The loops \<^verbatim>\<open>list_for_each\<close> and \<^verbatim>\<open>list_for_each_prev\<close>, as the nodes that \<open>pos\<close> visits from \<open>pos\<close> on; a walk
  that does not come back to the head has no value.
\<close>

partial_function (option) list_for_each :: "links \<Rightarrow> addr \<Rightarrow> addr \<Rightarrow> addr list option" where
  [code]: "list_for_each h head pos =
     (if pos = head then Some [] else do { r \<leftarrow> list_for_each h head (nxt h pos); Some (pos # r) })"

partial_function (option) list_for_each_prev :: "links \<Rightarrow> addr \<Rightarrow> addr \<Rightarrow> addr list option" where
  [code]: "list_for_each_prev h head pos =
     (if pos = head then Some [] else do { r \<leftarrow> list_for_each_prev h head (prv h pos); Some (pos # r) })"

definition list_len :: "links \<Rightarrow> addr \<Rightarrow> nat option" where
  "list_len h l = map_option length (list_for_each h l (nxt h l))"

section \<open>Rings\<close>

text \<open>Consecutive nodes of a sequence point at each other.\<close>

fun linked :: "links \<Rightarrow> addr list \<Rightarrow> bool" where
  "linked h (a # b # r) \<longleftrightarrow> nxt h a = b \<and> prv h b = a \<and> linked h (b # r)"
| "linked h _ \<longleftrightarrow> True"

definition is_list :: "links \<Rightarrow> addr \<Rightarrow> addr list \<Rightarrow> bool" where
  "is_list h head xs \<longleftrightarrow> distinct (head # xs) \<and> linked h (head # xs @ [head])"

text \<open>Two memories that agree outside of a set of nodes.\<close>

definition same_outside :: "addr set \<Rightarrow> links \<Rightarrow> links \<Rightarrow> bool" where
  "same_outside A h h' \<longleftrightarrow> (\<forall>a. a \<notin> A \<longrightarrow> nxt h' a = nxt h a \<and> prv h' a = prv h a)"

lemma links_sel [simp]:
  "nxt (set_next a b h) = (nxt h)(a := b)" "prv (set_next a b h) = prv h"
  "prv (set_prev a b h) = (prv h)(a := b)" "nxt (set_prev a b h) = nxt h"
  by (simp_all add: set_next_def set_prev_def)

lemma list_link_sel [simp]:
  "nxt (list_link new p n h) = (nxt h)(new := n, p := new)" "prv (list_link new p n h) = (prv h)(n := new, new := p)"
  "nxt (list_unlink p n h) = (nxt h)(p := n)" "prv (list_unlink p n h) = (prv h)(n := p)"
  by (simp_all add: list_link_def list_unlink_def Let_def)

lemma linked_Cons: "linked h (a # ys) \<longleftrightarrow> ys = [] \<or> (nxt h a = hd ys \<and> prv h (hd ys) = a \<and> linked h ys)"
  by (cases ys) auto

lemma linked_append: "linked h (xs @ a # ys) \<longleftrightarrow> linked h (xs @ [a]) \<and> linked h (a # ys)"
proof (induction xs)
  case (Cons x xs)
  then show ?case by (cases xs) auto
qed (cases ys; simp)

lemma linked_cong:
  assumes "\<And>a. a \<in> set (butlast ys) \<Longrightarrow> nxt h' a = nxt h a" "\<And>a. a \<in> set (tl ys) \<Longrightarrow> prv h' a = prv h a"
  shows "linked h' ys \<longleftrightarrow> linked h ys"
  using assms
proof (induction ys rule: linked.induct [of _ h])
  case (1 h a b r)
  have "linked h' (b # r) \<longleftrightarrow> linked h (b # r)"
    by (rule 1(1)) (use 1(2,3) in \<open>auto dest: list.set_sel(2)\<close>)
  then show ?case using 1(2) [of a] 1(3) [of b] by simp
qed simp_all

lemma is_list_cong:
  assumes "\<And>a. a \<in> set (head # xs) \<Longrightarrow> nxt h' a = nxt h a \<and> prv h' a = prv h a"
  shows "is_list h' head xs \<longleftrightarrow> is_list h head xs"
proof -
  have "linked h' (head # xs @ [head]) \<longleftrightarrow> linked h (head # xs @ [head])"
    by (rule linked_cong) (use assms in \<open>auto dest: in_set_butlastD\<close>)
  then show ?thesis by (simp add: is_list_def)
qed

lemma is_list_frame: "same_outside A h h' \<Longrightarrow> A \<inter> set (head # xs) = {} \<Longrightarrow> is_list h' head xs \<longleftrightarrow> is_list h head xs"
  by (rule is_list_cong) (auto simp: same_outside_def)

lemma same_outside_refl [simp]: "same_outside A h h"
  by (simp add: same_outside_def)

lemma same_outside_trans: "same_outside A h h' \<Longrightarrow> same_outside B h' h'' \<Longrightarrow> A \<union> B \<subseteq> C \<Longrightarrow> same_outside C h h''"
  unfolding same_outside_def by (metis UnCI subsetD)

lemma is_list_split:
  "is_list h head (xs @ ys) \<longleftrightarrow> distinct (head # xs @ ys) \<and> linked h (head # xs) \<and> linked h (ys @ [head]) \<and>
     nxt h (last (head # xs)) = hd (ys @ [head]) \<and> prv h (hd (ys @ [head])) = last (head # xs)"
proof -
  obtain zs p where p: "head # xs = zs @ [p]" "p = last (head # xs)"
    by (metis append_butlast_last_id list.distinct(1))
  have "linked h (head # (xs @ ys) @ [head]) \<longleftrightarrow> linked h (zs @ [p]) \<and> linked h (p # ys @ [head])"
    using linked_append [of h zs p "ys @ [head]"] p(1) by (metis append.assoc append_Cons append_Nil)
  also have "\<dots> \<longleftrightarrow> linked h (head # xs) \<and> nxt h p = hd (ys @ [head]) \<and> prv h (hd (ys @ [head])) = p \<and> linked h (ys @ [head])"
    by (simp add: p(1) linked_Cons [of h p])
  finally show ?thesis unfolding is_list_def p(2) by auto
qed

lemma ring_ends: "hd (ys @ [head]) \<in> insert head (set ys)" "last (head # ys) \<in> insert head (set ys)"
proof -
  show "hd (ys @ [head]) \<in> insert head (set ys)" by (cases ys) simp_all
  show "last (head # ys) \<in> insert head (set ys)" by (cases ys rule: rev_cases) simp_all
qed

text \<open>The two halves of a ring only depend on the links inside of them.\<close>

lemma linked_left:
  assumes "distinct (head # xs)" "\<And>a. a \<in> set (head # xs) \<Longrightarrow> a \<noteq> last (head # xs) \<Longrightarrow> nxt h' a = nxt h a"
    "\<And>a. a \<in> set xs \<Longrightarrow> prv h' a = prv h a"
  shows "linked h' (head # xs) \<longleftrightarrow> linked h (head # xs)"
proof (rule linked_cong)
  fix a assume a: "a \<in> set (butlast (head # xs))"
  have "distinct (butlast (head # xs) @ [last (head # xs)])" using assms(1) by (subst append_butlast_last_id) auto
  then have "a \<noteq> last (head # xs)" using a by auto
  then show "nxt h' a = nxt h a" using assms(2) in_set_butlastD [OF a] by blast
qed (use assms(3) in simp)

lemma linked_right:
  assumes "distinct (ys @ [head])" "\<And>a. a \<in> set ys \<Longrightarrow> nxt h' a = nxt h a"
    "\<And>a. a \<in> set (ys @ [head]) \<Longrightarrow> a \<noteq> hd (ys @ [head]) \<Longrightarrow> prv h' a = prv h a"
  shows "linked h' (ys @ [head]) \<longleftrightarrow> linked h (ys @ [head])"
proof (rule linked_cong)
  fix a assume a: "a \<in> set (tl (ys @ [head]))"
  then have "a \<noteq> hd (ys @ [head])" "a \<in> set (ys @ [head])" using assms(1) by (cases ys; auto)+
  then show "prv h' a = prv h a" using assms(3) by blast
qed (use assms(2) in \<open>simp add: butlast_append\<close>)

lemma is_list_ends:
  assumes "is_list h head xs"
  shows "nxt h head = hd (xs @ [head])" "prv h head = last (head # xs)"
  using assms is_list_split [of h head "[]" xs] is_list_split [of h head xs "[]"] by simp_all

lemma is_list_entry:
  assumes "is_list h head (xs @ e # ys)"
  shows "nxt h e = hd (ys @ [head])" "prv h e = last (head # xs)"
  using assms is_list_split [of h head "xs @ [e]" ys] is_list_split [of h head xs "e # ys"] by simp_all

section \<open>What the operations do\<close>

lemma list_init_list: "is_list (list_init head h) head []" "same_outside {head} h (list_init head h)"
  by (simp_all add: list_init_def is_list_def same_outside_def)

lemma list_link_list:
  assumes "is_list h head (xs @ ys)" "new \<notin> set (head # xs @ ys)"
    and p: "p = last (head # xs)" and n: "n = hd (ys @ [head])"
  shows "is_list (list_link new p n h) head (xs @ new # ys)"
    and "same_outside (set (new # head # xs @ ys)) h (list_link new p n h)"
proof -
  have d: "distinct (head # xs @ ys)" and l: "linked h (head # xs)" "linked h (ys @ [head])"
    using assms(1) by (auto simp: is_list_split)
  let ?h = "list_link new p n h"
  have np: "n \<in> set ys \<or> n = head" "p \<in> set xs \<or> p = head"
    using n p ring_ends(1) [of ys head] ring_ends(2) [where ys = xs and head = head] by auto
  then have notin: "new \<noteq> p" "new \<noteq> n" "n \<notin> set xs" "p \<notin> set ys" using assms(2) d by auto
  have 1: "linked ?h (head # xs)"
    using l(1) assms(2) d notin p by (subst linked_left [of _ _ _ h]) auto
  have 2: "linked ?h (ys @ [head])"
    using l(2) assms(2) d notin n by (subst linked_right [of _ _ _ h]) auto
  obtain zs where zs: "head # xs = zs @ [p]" using p by (metis append_butlast_last_id list.distinct(1))
  have "linked ?h (zs @ [p]) \<and> linked ?h (p # [new])" using 1 notin zs by simp
  then have "linked ?h (zs @ p # [new])" by (subst linked_append) simp
  then have "linked ?h (head # xs @ [new])" using zs by (metis append.assoc append_Cons append_Nil)
  then have "is_list ?h head ((xs @ [new]) @ ys)"
    using 2 n notin d assms(2) by (subst is_list_split) auto
  then show "is_list ?h head (xs @ new # ys)" by simp
  show "same_outside (set (new # head # xs @ ys)) h ?h"
    using np by (auto simp: same_outside_def)
qed

lemma list_add_list:
  assumes "is_list h head xs" "new \<notin> set (head # xs)"
  shows "is_list (list_add new head h) head (new # xs)" "same_outside (set (new # head # xs)) h (list_add new head h)"
  using list_link_list [of h head "[]" xs new head "nxt h head"] assms is_list_ends [OF assms(1)]
  by (simp_all add: list_add_def)

lemma list_add_tail_list:
  assumes "is_list h head xs" "new \<notin> set (head # xs)"
  shows "is_list (list_add_tail new head h) head (xs @ [new])"
    "same_outside (set (new # head # xs)) h (list_add_tail new head h)"
  using list_link_list [of h head xs "[]" new "prv h head" head] assms is_list_ends [OF assms(1)]
  by (simp_all add: list_add_tail_def)

lemma list_unlink_list:
  assumes "is_list h head (xs @ e # ys)"
  shows "is_list (list_unlink (prv h e) (nxt h e) h) head (xs @ ys)"
    and "same_outside (set (head # xs @ ys)) h (list_unlink (prv h e) (nxt h e) h)"
proof -
  let ?p = "prv h e" and ?n = "nxt h e"
  let ?h = "list_unlink ?p ?n h"
  have p: "?p = last (head # xs)" and n: "?n = hd (ys @ [head])" using is_list_entry [OF assms] by auto
  have d: "distinct (head # xs @ e # ys)" and l: "linked h (head # xs)" "linked h (e # ys @ [head])"
    using assms is_list_split [of h head xs "e # ys"] by auto
  have np: "?n \<in> set ys \<or> ?n = head" "?p \<in> set xs \<or> ?p = head"
    using n p ring_ends(1) [of ys head] ring_ends(2) [where ys = xs and head = head] by auto
  then have notin: "?n \<notin> set xs" "?p \<notin> set ys" using d by auto
  have 1: "linked ?h (head # xs)"
    using l(1) d notin p by (subst linked_left [of _ _ _ h]) auto
  have 2: "linked ?h (ys @ [head])"
    using l(2) d notin n by (subst linked_right [of _ _ _ h]) (auto simp: linked_Cons [of h e])
  show "is_list ?h head (xs @ ys)"
    using 1 2 d p n by (subst is_list_split) simp
  show "same_outside (set (head # xs @ ys)) h ?h"
    using np by (auto simp: same_outside_def)
qed

lemma same_outside_entry: "same_outside {e} h (set_prev e a (set_next e b h))" "same_outside {e} h (list_init e h)"
  by (simp_all add: same_outside_def list_init_def)

lemma list_del_list:
  assumes "is_list h head (xs @ e # ys)"
  shows "is_list (list_del e h) head (xs @ ys)" "same_outside (set (head # xs @ e # ys)) h (list_del e h)"
    "is_list (list_del_init e h) head (xs @ ys)" "same_outside (set (head # xs @ e # ys)) h (list_del_init e h)"
    "is_list (list_del_init e h) e []"
proof -
  note u = list_unlink_list [OF assms]
  have e: "{e} \<inter> set (head # xs @ ys) = {}" using assms by (auto simp: is_list_def)
  let ?h = "list_unlink (prv h e) (nxt h e) h"
  show "is_list (list_del e h) head (xs @ ys)" "is_list (list_del_init e h) head (xs @ ys)"
    using is_list_frame [OF same_outside_entry(1) e] is_list_frame [OF same_outside_entry(2) e] u(1)
    by (simp_all add: list_del_def list_del_init_def)
  show "same_outside (set (head # xs @ e # ys)) h (list_del e h)" "same_outside (set (head # xs @ e # ys)) h (list_del_init e h)"
    using same_outside_trans [OF u(2) same_outside_entry(1) [of e]] same_outside_trans [OF u(2) same_outside_entry(2) [of e]]
    by (simp_all add: list_del_def list_del_init_def Let_def subset_insertI2)
  show "is_list (list_del_init e h) e []" by (simp add: list_del_init_def list_init_list)
qed

text \<open>Moving a node to another list, with \<open>list_move\<close> or by deleting and adding it.\<close>

lemma move_list:
  assumes "is_list h head (xs @ e # ys)" "is_list h to zs" "set (head # xs @ e # ys) \<inter> set (to # zs) = {}"
  shows "is_list (list_move e to h) head (xs @ ys)" "is_list (list_move e to h) to (e # zs)"
    "is_list (list_move_tail e to h) head (xs @ ys)" "is_list (list_move_tail e to h) to (zs @ [e])"
    "is_list (list_add_tail e to (list_del e h)) head (xs @ ys)" "is_list (list_add_tail e to (list_del e h)) to (zs @ [e])"
    "same_outside (set (head # xs @ e # ys) \<union> set (to # zs)) h (list_add_tail e to (list_del e h))"
proof -
  note u = list_unlink_list [OF assms(1)] and d = list_del_list(1,2) [OF assms(1)]
  have e: "e \<notin> set (to # zs)" and disj: "set (e # to # zs) \<inter> set (head # xs @ ys) = {}"
    using assms by (auto simp: is_list_def)
  let ?u = "list_unlink (prv h e) (nxt h e) h"
  have to: "is_list ?u to zs" "is_list (list_del e h) to zs"
    using is_list_frame [OF u(2)] is_list_frame [OF d(2)] assms(2,3) by auto
  note a = list_add_list [OF to(1) e] list_add_tail_list [OF to(1) e] list_add_tail_list [OF to(2) e]
  show "is_list (list_move e to h) head (xs @ ys)" "is_list (list_move_tail e to h) head (xs @ ys)"
    "is_list (list_add_tail e to (list_del e h)) head (xs @ ys)"
    using is_list_frame [OF a(2) disj] is_list_frame [OF a(4) disj] is_list_frame [OF a(6) disj] u(1) d(1)
    by (simp_all add: list_move_def list_move_tail_def)
  show "is_list (list_move e to h) to (e # zs)" "is_list (list_move_tail e to h) to (zs @ [e])"
    "is_list (list_add_tail e to (list_del e h)) to (zs @ [e])"
    using a by (simp_all add: list_move_def list_move_tail_def)
  show "same_outside (set (head # xs @ e # ys) \<union> set (to # zs)) h (list_add_tail e to (list_del e h))"
    by (rule same_outside_trans [OF d(2) a(6)]) auto
qed

text \<open>Joining a list into another one.\<close>

lemma splice_at_list:
  assumes "is_list h l xs" "is_list h head ys" "set (l # xs) \<inter> set (head # ys) = {}" "xs \<noteq> []"
  shows "is_list (list_splice_at l head h) head (xs @ ys)"
proof -
  have e: "nxt h l = hd xs" "prv h l = last xs" "nxt h head = hd (ys @ [head])"
    using is_list_ends [OF assms(1)] is_list_ends [OF assms(2)] assms(4) by simp_all
  let ?h = "list_splice_at l head h"
  have d: "distinct (l # xs)" "distinct (head # ys)" and l: "linked h (xs @ [l])" "linked h (l # xs)" "linked h (ys @ [head])"
    using assms(1,2) is_list_split [of h l "[]" xs] is_list_split [of h l xs "[]"] is_list_split [of h head "[]" ys] by auto
  have x: "hd xs \<in> set xs" "last xs \<in> set xs" "hd (ys @ [head]) \<in> insert head (set ys)"
    using assms(4) ring_ends(1) by (simp_all only: hd_in_set last_in_set not_False_eq_True)
  have sel: "nxt ?h = (nxt h)(head := hd xs, last xs := hd (ys @ [head]))"
    "prv ?h = (prv h)(hd xs := head, hd (ys @ [head]) := last xs)"
    by (simp_all add: list_splice_at_def Let_def e)
  obtain x0 xs' where xs: "xs = x0 # xs'" using assms(4) by (cases xs) auto
  have neq: "last xs \<noteq> head" "hd (ys @ [head]) \<noteq> hd xs" "last xs \<notin> set ys" "hd (ys @ [head]) \<notin> set xs"
    "hd xs \<noteq> head" "hd xs \<notin> set ys"
    using x assms(3) by auto
  have "linked h xs" using l(2) xs by simp
  then have "linked ?h xs" unfolding xs
    by (subst linked_left [of _ _ _ h]) (use d(1) x neq assms(3) in \<open>auto simp: sel xs\<close>)
  then have 1: "linked ?h (head # xs)" using neq by (simp add: linked_Cons [of _ head] sel assms(4))
  have 2: "linked ?h (ys @ [head])"
    using l(3) by (subst linked_right [of _ _ _ h]) (use d(2) neq in \<open>auto simp: sel\<close>)
  show ?thesis using 1 2 d assms(3,4) neq by (subst is_list_split) (auto simp: sel)
qed

lemma splice_list:
  assumes "is_list h l xs" "is_list h head ys" "set (l # xs) \<inter> set (head # ys) = {}"
  shows "is_list (list_splice l head h) head (xs @ ys)"
    "is_list (list_splice_init l head h) head (xs @ ys)" "is_list (list_splice_init l head h) l []"
proof -
  have emp: "list_empty h l \<longleftrightarrow> xs = []"
    using is_list_ends [OF assms(1)] assms(1) by (cases xs) (auto simp: list_empty_def is_list_def)
  have l: "{l} \<inter> set (head # xs @ ys) = {}" using assms by (auto simp: is_list_def)
  show "is_list (list_splice l head h) head (xs @ ys)"
    using splice_at_list [OF assms] assms(2) by (simp add: list_splice_def emp)
  show "is_list (list_splice_init l head h) head (xs @ ys)"
    using splice_at_list [OF assms] assms(2) is_list_frame [OF list_init_list(2) l]
    by (simp add: list_splice_init_def emp)
  show "is_list (list_splice_init l head h) l []"
    using assms(1) list_init_list(1) by (cases "xs = []") (simp_all add: list_splice_init_def emp)
qed

text \<open>The two walks visit the nodes in order and in reverse order; both end.\<close>

lemma walk_next: "linked h (ys @ [head]) \<Longrightarrow> head \<notin> set ys \<Longrightarrow> list_for_each h head (hd (ys @ [head])) = Some ys"
proof (induction ys)
  case (Cons y ys)
  then show ?case by (subst list_for_each.simps) (auto simp: linked_Cons)
qed (simp add: list_for_each.simps)

lemma walk_prev: "linked h (head # ys) \<Longrightarrow> head \<notin> set ys \<Longrightarrow> list_for_each_prev h head (last (head # ys)) = Some (rev ys)"
proof (induction ys rule: rev_induct)
  case (snoc y ys)
  obtain zs where zs: "head # ys = zs @ [last (head # ys)]" by (metis append_butlast_last_id list.distinct(1))
  have "linked h (zs @ last (head # ys) # [y])" using snoc(2) zs by (metis append.assoc append_Cons append_Nil)
  then have "linked h (zs @ [last (head # ys)])" "prv h y = last (head # ys)"
    using linked_append [of h zs "last (head # ys)" "[y]"] by auto
  then show ?case using snoc(1,3) zs by (subst list_for_each_prev.simps) simp
qed (simp add: list_for_each_prev.simps)

lemma list_walks:
  assumes "is_list h head xs"
  shows "list_for_each h head (nxt h head) = Some xs" "list_for_each_prev h head (prv h head) = Some (rev xs)"
    "list_len h head = Some (length xs)" "list_empty h head \<longleftrightarrow> xs = []"
proof -
  have "linked h (head # xs)" "linked h (xs @ [head])" "head \<notin> set xs"
    using assms is_list_split [of h head "[]" xs] is_list_split [of h head xs "[]"] by auto
  then show w: "list_for_each h head (nxt h head) = Some xs" "list_for_each_prev h head (prv h head) = Some (rev xs)"
    using is_list_ends [OF assms] walk_next walk_prev by auto
  show "list_len h head = Some (length xs)" by (simp add: list_len_def w)
  show "list_empty h head \<longleftrightarrow> xs = []"
    using is_list_ends [OF assms] \<open>head \<notin> set xs\<close> by (cases xs) (auto simp: list_empty_def)
qed

section \<open>Properties\<close>

text \<open>
  C17. On disjoint well-formed rings with the nodes \<open>xs @ e # ys\<close> and \<open>zs\<close> and a node \<open>new\<close> outside of them: adding
  puts the node first or last, deleting takes out just the entry, moving does both, joining puts the
  nodes of the one list in front of the other's, and the walks in both directions and \<open>list_len\<close> end after
  exactly the nodes of the ring.
\<close>

theorem list_operations:
  assumes "is_list h head (xs @ e # ys)" "is_list h to zs" "set (head # xs @ e # ys) \<inter> set (to # zs) = {}"
    and "new \<notin> set (to # zs)"
  shows "is_list (list_add new to h) to (new # zs) \<and> is_list (list_add_tail new to h) to (zs @ [new]) \<and>
    is_list (list_del e h) head (xs @ ys) \<and> is_list (list_del_init e h) head (xs @ ys) \<and> is_list (list_del_init e h) e [] \<and>
    is_list (list_move e to h) to (e # zs) \<and> is_list (list_move e to h) head (xs @ ys) \<and>
    is_list (list_move_tail e to h) to (zs @ [e]) \<and> is_list (list_move_tail e to h) head (xs @ ys) \<and>
    is_list (list_splice to head h) head (zs @ xs @ e # ys) \<and>
    is_list (list_splice_init to head h) head (zs @ xs @ e # ys) \<and> is_list (list_splice_init to head h) to [] \<and>
    list_for_each h to (nxt h to) = Some zs \<and> list_for_each_prev h to (prv h to) = Some (rev zs) \<and>
    list_len h to = Some (length zs) \<and> (list_empty h to \<longleftrightarrow> zs = [])"
  using list_add_list(1) [OF assms(2,4)] list_add_tail_list(1) [OF assms(2,4)] list_del_list(1,3,5) [OF assms(1)]
    move_list(1-4) [OF assms(1-3)] splice_list [OF assms(2,1)] assms(3) list_walks [OF assms(2)]
  by (simp add: Int_commute)

theorem list_operations_witness:
  "let h = list_add_tail 2 0 (list_add_tail 1 0 (list_init 0 (list_init 9 \<lparr>nxt = \<lambda>_. 0, prv = \<lambda>_. 0\<rparr>)))
   in is_list h 0 [1, 2] \<and> is_list (list_move 2 9 h) 9 [2]"
proof -
  let ?h = "list_add_tail 2 0 (list_add_tail 1 0 (list_init 0 (list_init 9 \<lparr>nxt = \<lambda>_. 0, prv = \<lambda>_. 0\<rparr>)))"
  have h: "is_list ?h 0 ([1] @ 2 # [])" "is_list ?h 9 []"
    by (simp_all add: list_init_def list_add_tail_def is_list_def)
  then have "is_list (list_move 2 9 ?h) 9 (2 # [])" using list_operations [of ?h 0 "[1]" 2 "[]" 9 "[]" 5] by simp
  then show ?thesis using h by (simp add: Let_def)
qed

end
