(* ===== verification/Track_List.thy ===== *)
theory Track_List
  imports Linked_List Rbtree Track_Info "HOL-Library.Multiset"
begin

text \<open>
  The lists of tracks of \<^verbatim>\<open>src/app/track.c\<close>: every track is a node of a ring (\<^verbatim>\<open>list.h\<close>), and the first of each group of tracks that
  compare equal is a node of a red-black tree (\<^verbatim>\<open>rbtree.c\<close>), in which the place of a new track is found. A track, its list node
  and its tree node have one address, and \<open>NULL\<close> is 0. The theory proves that adding, removing and sorting keep the ring sorted,
  with the tree holding the first of every group, and treats the shuffled order of tracks.
\<close>

section \<open>The model\<close>

record tracks =
  tr_links :: links
  tr_rb :: rb

text \<open>A new track is in no tree.\<close>

definition simple_track_init :: "nat \<Rightarrow> tracks \<Rightarrow> tracks option" where
  "simple_track_init track s = map_option (\<lambda>rb. s\<lparr>tr_rb := rb\<rparr>) (rb_clear_node track (tr_rb s))"

text \<open>
  The search for the place of a track: its parent, the side of the link, and the last result. \<open>cmp\<close> is \<open>track_info_cmp\<close> of the
  track and a node.
\<close>

partial_function (option) locate :: "(nat \<Rightarrow> int) \<Rightarrow> nat \<Rightarrow> dir \<Rightarrow> int \<Rightarrow> nat \<Rightarrow> rb \<Rightarrow> (nat \<times> dir \<times> int) option" where
  [code]: "locate cmp parent d result item s =
     (if item = 0 then Some (parent, d, result)
      else do { let result = cmp item;
                n \<leftarrow> rb_get item s;
                if result < 0 then locate cmp item L result (rb_child n L) s
                else if result > 0 then locate cmp item R result (rb_child n R) s
                else Some (item, d, result) })"

text \<open>\<open>next ? &(tree_node_to_simple_track(next)->node) : head\<close>\<close>

definition node_or_head :: "addr \<Rightarrow> nat \<Rightarrow> addr" where
  "node_or_head head p = (if p \<noteq> 0 then p else head)"

definition sorted_list_add_track :: "(nat \<Rightarrow> nat \<Rightarrow> int) \<Rightarrow> addr \<Rightarrow> nat \<Rightarrow> int \<Rightarrow> tracks \<Rightarrow> tracks option" where
  "sorted_list_add_track cmp head track tiebreak s =
     do { let rb = tr_rb s;
          (parent, d, result) \<leftarrow> locate (cmp track) 0 L 0 (rb_root rb) rb;
          (pos, rb) \<leftarrow>
            (if parent \<noteq> 0 \<and> result = 0
             then if tiebreak < 0
                  then do { rb \<leftarrow> rb_replace_node parent track rb;
                            rb \<leftarrow> rb_clear_node parent rb;
                            Some (parent, rb) }
                  else do { after \<leftarrow> rb_step R parent rb;
                            Some (node_or_head head after, rb) }
             else do { rb \<leftarrow> rb_link_node track parent d rb;
                       rb \<leftarrow> rb_insert_color track rb;
                       if result < 0 then Some (parent, rb)
                       else if result > 0
                       then do { after \<leftarrow> rb_step R track rb;
                                 Some (node_or_head head after, rb) }
                       else Some (head, rb) });
          Some (s\<lparr>tr_rb := rb, tr_links := list_add track (prv (tr_links s) pos) (tr_links s)\<rparr>) }"

definition sorted_list_remove_track :: "addr \<Rightarrow> nat \<Rightarrow> tracks \<Rightarrow> tracks option" where
  "sorted_list_remove_track head track s =
     do { let rb = tr_rb s;
          empty \<leftarrow> rb_empty_node track rb;
          rb \<leftarrow> (if \<not> empty
                then do { let next_track = (if nxt (tr_links s) track \<noteq> head then nxt (tr_links s) track else 0);
                          tree_next \<leftarrow> rb_step R track rb;
                          if next_track \<noteq> 0 \<and> (tree_next = 0 \<or> tree_next \<noteq> next_track)
                          then do { rb \<leftarrow> rb_replace_node track next_track rb; rb_clear_node track rb }
                          else rb_erase track rb }
                else Some rb);
          Some (s\<lparr>tr_rb := rb, tr_links := list_del track (tr_links s)\<rparr>) }"

text \<open>The tracks' nodes with another tree root: the old list and the list under construction share them.\<close>

definition with_root :: "nat \<Rightarrow> tracks \<Rightarrow> tracks" where
  "with_root p s = s\<lparr>tr_rb := (tr_rb s)\<lparr>rb_root := p\<rparr>\<rparr>"

definition root_of :: "tracks \<Rightarrow> nat" where
  "root_of s = rb_root (tr_rb s)"

text \<open>The loop of \<open>sorted_list_rebuild\<close> from \<open>item\<close> on; it gives the root of the new tree.\<close>

partial_function (option) rebuild_loop :: "(nat \<Rightarrow> nat \<Rightarrow> int) \<Rightarrow> addr \<Rightarrow> addr \<Rightarrow> addr \<Rightarrow> nat \<Rightarrow> tracks \<Rightarrow> (nat \<times> tracks) option" where
  [code]: "rebuild_loop cmp head tmp_head item tmp_root s =
     (if item = head then Some (tmp_root, s)
      else do { let after = nxt (tr_links s) item;
                s \<leftarrow> sorted_list_remove_track head item s;
                s' \<leftarrow> sorted_list_add_track cmp tmp_head item 0 (with_root tmp_root s);
                rebuild_loop cmp head tmp_head after (root_of s') (with_root (root_of s) s') })"

text \<open>\<open>tree_root->rb_node = tmp_tree.rb_node; _list_add(head, tmp_head.prev, tmp_head.next)\<close>\<close>

definition take_over :: "addr \<Rightarrow> addr \<Rightarrow> nat \<Rightarrow> tracks \<Rightarrow> tracks" where
  "take_over head tmp_head tmp_root s =
     (with_root tmp_root s)\<lparr>tr_links := list_link head (prv (tr_links s) tmp_head) (nxt (tr_links s) tmp_head) (tr_links s)\<rparr>"

definition sorted_list_rebuild :: "(nat \<Rightarrow> nat \<Rightarrow> int) \<Rightarrow> addr \<Rightarrow> addr \<Rightarrow> tracks \<Rightarrow> tracks option" where
  "sorted_list_rebuild cmp head tmp_head s =
     do { let s = s\<lparr>tr_links := list_init tmp_head (tr_links s)\<rparr>;
          (tmp_root, s) \<leftarrow> rebuild_loop cmp head tmp_head (nxt (tr_links s) head) 0 s;
          Some (take_over head tmp_head tmp_root s) }"

section \<open>The search\<close>

lemma locate:
  assumes "focus G s z t" "sorted_wrt (\<lambda>a b. c a \<le> 0 \<longrightarrow> c b < 0) (inorder t)"
  shows "(\<exists>a d'. a \<in> nodes t \<and> c a = 0 \<and> locate c (above z) d r0 (root_ptr t) s = Some (a, d', 0)) \<or>
    t = Leaf \<and> locate c (above z) d r0 (root_ptr t) s = Some (above z, d, r0) \<or>
    (\<exists>us p vs d'. inorder t = us @ p # vs \<and> rb_child (rb_nodes s p) d' = 0 \<and> locate c (above z) d r0 (root_ptr t) s = Some (p, d', c p) \<and>
       (\<forall>a \<in> set us. c a > 0) \<and> (\<forall>a \<in> set vs. c a < 0) \<and> (d' = L \<and> c p < 0 \<or> d' = R \<and> c p > 0))"
  using assms
proof (induction t arbitrary: z d r0)
  case Leaf
  then show ?case by (subst locate.simps) simp
next
  case (Node col l a r)
  note g = focus_get [of G s z L col a l r, simplified, OF Node.prems(1)]
  have fl: "focus G s ((L, col, a, r) # z) l" "focus G s ((R, col, a, l) # z) r" using Node.prems(1) by (simp_all add: focus_up)
  have sl: "sorted_wrt (\<lambda>a b. c a \<le> 0 \<longrightarrow> c b < 0) (inorder l)" "sorted_wrt (\<lambda>a b. c a \<le> 0 \<longrightarrow> c b < 0) (inorder r)"
    and sa: "\<And>b. b \<in> set (inorder l) \<Longrightarrow> c b \<le> 0 \<Longrightarrow> c a < 0" "\<And>b. b \<in> set (inorder r) \<Longrightarrow> c a \<le> 0 \<Longrightarrow> c b < 0"
    using Node.prems(2) by (auto simp: sorted_wrt_append)
  have step: "locate c (above z) d r0 a s = (if c a < 0 then locate c a L (c a) (rb_child (rb_nodes s a) L) s
      else if c a > 0 then locate c a R (c a) (rb_child (rb_nodes s a) R) s else Some (a, d, 0))"
    using g by (subst locate.simps) simp
  consider "c a = 0" | "c a < 0" | "c a > 0" by linarith
  then show ?case
  proof cases
    case 1
    then show ?thesis using step by auto
  next
    case 2
    then have le: "locate c (above z) d r0 a s = locate c (above ((L, col, a, r) # z)) L (c a) (root_ptr l) s" using step g by simp
    from Node.IH(1) [OF fl(1) sl(1), of L "c a"] show ?thesis
    proof (elim disjE exE conjE)
      fix us p vs d' assume "inorder l = us @ p # vs" "rb_child (rb_nodes s p) d' = 0"
        "locate c (above ((L, col, a, r) # z)) L (c a) (root_ptr l) s = Some (p, d', c p)"
        "\<forall>a \<in> set us. c a > 0" "\<forall>a \<in> set vs. c a < 0" "d' = L" "c p < 0"
      then show ?thesis using le 2 sa(2)
        by (intro disjI2) (rule exI [of _ us], rule exI [of _ p], rule exI [of _ "vs @ a # inorder r"], auto)
    next
      fix us p vs d' assume "inorder l = us @ p # vs" "rb_child (rb_nodes s p) d' = 0"
        "locate c (above ((L, col, a, r) # z)) L (c a) (root_ptr l) s = Some (p, d', c p)"
        "\<forall>a \<in> set us. c a > 0" "\<forall>a \<in> set vs. c a < 0" "d' = R" "c p > 0"
      then show ?thesis using le 2 sa(2)
        by (intro disjI2) (rule exI [of _ us], rule exI [of _ p], rule exI [of _ "vs @ a # inorder r"], auto)
    next
      assume "l = Leaf" "locate c (above ((L, col, a, r) # z)) L (c a) (root_ptr l) s = Some (above ((L, col, a, r) # z), L, c a)"
      then show ?thesis using le 2 sa(2) g
        by (intro disjI2) (rule exI [of _ "[]"], rule exI [of _ a], rule exI [of _ "inorder r"], auto)
    qed (use le in auto)
  next
    case 3
    then have le: "locate c (above z) d r0 a s = locate c (above ((R, col, a, l) # z)) R (c a) (root_ptr r) s" using step g by simp
    have sl0: "\<forall>b \<in> set (inorder l). c b > 0" using sa(1) 3 by (meson linorder_not_le not_less_iff_gr_or_eq)
    from Node.IH(2) [OF fl(2) sl(2), of R "c a"] show ?thesis
    proof (elim disjE exE conjE)
      fix us p vs d' assume "inorder r = us @ p # vs" "rb_child (rb_nodes s p) d' = 0"
        "locate c (above ((R, col, a, l) # z)) R (c a) (root_ptr r) s = Some (p, d', c p)"
        "\<forall>a \<in> set us. c a > 0" "\<forall>a \<in> set vs. c a < 0" "d' = L" "c p < 0"
      then show ?thesis using le 3 sl0
        by (intro disjI2) (rule exI [of _ "inorder l @ a # us"], rule exI [of _ p], rule exI [of _ vs], auto)
    next
      fix us p vs d' assume "inorder r = us @ p # vs" "rb_child (rb_nodes s p) d' = 0"
        "locate c (above ((R, col, a, l) # z)) R (c a) (root_ptr r) s = Some (p, d', c p)"
        "\<forall>a \<in> set us. c a > 0" "\<forall>a \<in> set vs. c a < 0" "d' = R" "c p > 0"
      then show ?thesis using le 3 sl0
        by (intro disjI2) (rule exI [of _ "inorder l @ a # us"], rule exI [of _ p], rule exI [of _ vs], auto)
    next
      assume "r = Leaf" "locate c (above ((R, col, a, l) # z)) R (c a) (root_ptr r) s = Some (above ((R, col, a, l) # z), R, c a)"
      then show ?thesis using le 3 sl0 g
        by (intro disjI2) (rule exI [of _ "inorder l"], rule exI [of _ a], rule exI [of _ "[]"], auto)
    qed (use le in auto)
  qed
qed

lemma locate_root:
  assumes "rb_holds s xs" "sorted_wrt (\<lambda>a b. c a \<le> 0 \<longrightarrow> c b < 0) xs"
  shows "(\<exists>a d'. a \<in> set xs \<and> c a = 0 \<and> locate c 0 L 0 (rb_root s) s = Some (a, d', 0)) \<or>
    xs = [] \<and> locate c 0 L 0 (rb_root s) s = Some (0, L, 0) \<or>
    (\<exists>us p vs d'. xs = us @ p # vs \<and> rb_child (rb_nodes s p) d' = 0 \<and> locate c 0 L 0 (rb_root s) s = Some (p, d', c p) \<and>
       (\<forall>a \<in> set us. c a > 0) \<and> (\<forall>a \<in> set vs. c a < 0) \<and> (d' = L \<and> c p < 0 \<or> d' = R \<and> c p > 0))"
proof -
  obtain t where t: "holds_tree (\<lambda>_. None) s t" "inorder t = xs" using assms(1) by (auto simp: rb_holds_def)
  then have f: "focus (\<lambda>_. None) s [] t" "rb_root s = root_ptr t" by (simp_all add: holds_tree_def focus_def)
  show ?thesis using locate [OF f(1), of c L 0] assms(2) t(2) f(2) by (auto simp flip: nodes_inorder)
qed

lemma collect_rb: "rb_holds s xs \<Longrightarrow> collect (rb_root s) s = Some xs"
  using collect_holds by (auto simp: rb_holds_def)

section \<open>Groups of equal tracks\<close>

text \<open>The list falls into groups of equal tracks, in ascending order. The tree has the first one of each.\<close>

definition groups :: "(nat \<Rightarrow> nat \<Rightarrow> int) \<Rightarrow> nat list list \<Rightarrow> bool" where
  "groups cmp gs \<longleftrightarrow> [] \<notin> set gs \<and> (\<forall>g \<in> set gs. \<forall>a \<in> set g. \<forall>b \<in> set g. cmp a b = 0) \<and>
     sorted_wrt (\<lambda>g h. \<forall>a \<in> set g. \<forall>b \<in> set h. cmp a b < 0) gs"

definition grouped :: "(nat \<Rightarrow> nat \<Rightarrow> int) \<Rightarrow> addr \<Rightarrow> tracks \<Rightarrow> nat list list \<Rightarrow> bool" where
  "grouped cmp head s gs \<longleftrightarrow> groups cmp gs \<and> is_list (tr_links s) head (concat gs) \<and> rb_holds (tr_rb s) (map hd gs) \<and> 0 \<notin> set (concat gs)"

text \<open>The tree nodes of the other tracks are cleared.\<close>

definition cleared :: "nat \<Rightarrow> tracks \<Rightarrow> bool" where
  "cleared a s \<longleftrightarrow> rb_parent (rb_nodes (tr_rb s) a) = a"

lemma simple_track_init: "track \<noteq> 0 \<Longrightarrow> \<exists>s'. simple_track_init track s = Some s' \<and> cleared track s' \<and> (cleared a s \<longrightarrow> cleared a s')"
  by (simp add: simple_track_init_def rb_clear_node_def rb_ops cleared_def)

definition rest_cleared :: "tracks \<Rightarrow> nat list list \<Rightarrow> bool" where
  "rest_cleared s gs \<longleftrightarrow> (\<forall>a \<in> set (concat gs) - set (map hd gs). cleared a s)"

text \<open>What an operation leaves alone: the tree nodes and the links of other tracks.\<close>

definition others_kept :: "nat set \<Rightarrow> addr \<Rightarrow> tracks \<Rightarrow> tracks \<Rightarrow> bool" where
  "others_kept A head s s' \<longleftrightarrow> (\<forall>a. a \<notin> A \<longrightarrow> rb_nodes (tr_rb s') a = rb_nodes (tr_rb s) a) \<and>
     same_outside (insert head A) (tr_links s) (tr_links s')"

lemma groups_append:
  "groups cmp (as @ bs) \<longleftrightarrow> groups cmp as \<and> groups cmp bs \<and> (\<forall>a \<in> set (concat as). \<forall>b \<in> set (concat bs). cmp a b < 0)"
  by (auto simp: groups_def sorted_wrt_append)

lemma groups_Cons:
  "groups cmp (g # gs) \<longleftrightarrow> g \<noteq> [] \<and> (\<forall>a \<in> set g. \<forall>b \<in> set g. cmp a b = 0) \<and> groups cmp gs \<and>
     (\<forall>a \<in> set g. \<forall>b \<in> set (concat gs). cmp a b < 0)"
  by (auto simp: groups_def)

lemma groups_Nil [simp]: "groups cmp []"
  by (simp add: groups_def)

lemma heads_in: "groups cmp gs \<Longrightarrow> set (map hd gs) \<subseteq> set (concat gs)"
proof (induction gs)
  case (Cons g gs)
  then show ?case using hd_in_set [of g] by (auto simp: groups_Cons)
qed simp

lemma heads_of_append: "groups cmp (as @ g # bs) \<Longrightarrow> distinct (concat (as @ g # bs)) \<Longrightarrow> a \<in> set g \<Longrightarrow> a \<in> set (map hd (as @ g # bs)) \<longleftrightarrow> a = hd g"
  using heads_in [of cmp as] heads_in [of cmp bs] by (auto simp: groups_append groups_Cons simp del: set_map)

lemma hd_concat: "groups cmp gs \<Longrightarrow> gs \<noteq> [] \<Longrightarrow> concat gs \<noteq> [] \<and> hd (concat gs) = hd (hd gs)"
  by (cases gs) (auto simp: groups_Cons hd_append)

lemma head0_heads: "groups cmp gs \<Longrightarrow> 0 \<notin> set (concat gs) \<Longrightarrow> node_or_head head (head0 (map hd gs)) = hd (concat gs @ [head])"
  using heads_in [of cmp gs] hd_concat [of cmp gs]
  by (cases gs) (auto simp: node_or_head_def hd_append split: list.splits)

lemma rest_cleared_mono:
  assumes "rest_cleared s gs" "\<And>a. a \<in> set (concat gs') \<Longrightarrow> a \<notin> set (map hd gs') \<Longrightarrow>
    a \<in> set (concat gs) \<and> a \<notin> set (map hd gs) \<and> rb_nodes (tr_rb s') a = rb_nodes (tr_rb s) a"
  shows "rest_cleared s' gs'"
  using assms unfolding rest_cleared_def cleared_def by (metis DiffD1 DiffD2 DiffI)

section \<open>The ring\<close>

lemma add_before_list:
  assumes "is_list h head (xs @ ys)" "new \<notin> set (head # xs @ ys)"
  shows "is_list (list_add new (prv h (hd (ys @ [head]))) h) head (xs @ new # ys)"
    "same_outside (set (new # head # xs @ ys)) h (list_add new (prv h (hd (ys @ [head]))) h)"
proof -
  have "prv h (hd (ys @ [head])) = last (head # xs)" "nxt h (last (head # xs)) = hd (ys @ [head])"
    using assms(1) by (simp_all only: is_list_split)
  then show "is_list (list_add new (prv h (hd (ys @ [head]))) h) head (xs @ new # ys)"
    "same_outside (set (new # head # xs @ ys)) h (list_add new (prv h (hd (ys @ [head]))) h)"
    using list_link_list [OF assms] by (simp_all only: list_add_def)
qed

lemma clear_outside:
  assumes "rb_holds s xs" "a \<notin> set xs" "a \<noteq> 0"
  shows "\<exists>s'. rb_clear_node a s = Some s' \<and> rb_holds s' xs \<and> rb_parent (rb_nodes s' a) = a \<and> (\<forall>b. b \<noteq> a \<longrightarrow> rb_nodes s' b = rb_nodes s b) \<and> rb_root s' = rb_root s"
proof -
  let ?s = "s\<lparr>rb_nodes := (rb_nodes s)(a := (rb_nodes s a)\<lparr>rb_parent := a\<rparr>)\<rparr>"
  have "rb_holds ?s xs" by (rule rb_holds_cong [OF assms(1)]) (use assms(2) in auto)
  then show ?thesis using assms(3) by (intro exI [of _ ?s]) (simp add: rb_clear_node_def rb_ops)
qed

text \<open>A tree node is replaced by a track that was not in the tree, and cleared.\<close>

lemma replace_clear:
  assumes "rb_holds s (xs @ a # ys)" "new \<noteq> 0" "new \<notin> set (xs @ a # ys)"
  shows "\<exists>s1 s2. rb_replace_node a new s = Some s1 \<and> rb_clear_node a s1 = Some s2 \<and> rb_holds s2 (xs @ new # ys) \<and>
    rb_parent (rb_nodes s2 a) = a \<and> (\<forall>b. b \<notin> set (new # xs @ a # ys) \<longrightarrow> rb_nodes s2 b = rb_nodes s b)"
proof -
  have ok: "rb_ok (Replace a new) s" using collect_rb [OF assms(1)] assms(2,3) by simp
  have d: "distinct (xs @ a # ys)" "a \<noteq> 0" using rb_holds_nodes(1,2) [OF assms(1)] by auto
  have m: "meaning (Replace a new) (xs @ a # ys) = xs @ new # ys" using d by (auto simp: rename_fresh)
  obtain s1 where s1: "rb_replace_node a new s = Some s1" "rb_holds s1 (xs @ new # ys)"
    "\<forall>b. b \<notin> set (xs @ a # ys) \<longrightarrow> b \<notin> {new} \<longrightarrow> rb_nodes s1 b = rb_nodes s b"
    using run_rb_frame [OF assms(1) ok] unfolding m by (auto simp del: meaning.simps)
  have "a \<notin> set (xs @ new # ys)" using d assms(3) by auto
  from clear_outside [OF s1(2) this d(2)] obtain s2 where "rb_clear_node a s1 = Some s2" "rb_holds s2 (xs @ new # ys)"
    "rb_parent (rb_nodes s2 a) = a" "\<forall>b. b \<noteq> a \<longrightarrow> rb_nodes s2 b = rb_nodes s1 b" by blast
  then show ?thesis using s1 by auto
qed

lemma link_insert:
  assumes "rb_holds s (us @ p # vs)" "new \<noteq> 0" "new \<notin> set (us @ p # vs)" "rb_child (rb_nodes s p) d = 0"
  shows "\<exists>s1 s2. rb_link_node new p d s = Some s1 \<and> rb_insert_color new s1 = Some s2 \<and>
    rb_holds s2 (us @ (if d = L then [new, p] else [p, new]) @ vs) \<and> (\<forall>b. b \<notin> set (new # us @ p # vs) \<longrightarrow> rb_nodes s2 b = rb_nodes s b)"
proof -
  have ok: "rb_ok (Link new p d) s" using collect_rb [OF assms(1)] assms(2-4) by simp
  have "p \<notin> set us" using rb_holds_nodes(1) [OF assms(1)] by simp
  then have m: "meaning (Link new p d) (us @ p # vs) = us @ (if d = L then [new, p] else [p, new]) @ vs" by (simp add: insert_at_split)
  show ?thesis using run_rb_frame [OF assms(1) ok] unfolding m by (auto simp: bind_eq_Some_conv simp del: meaning.simps)
qed

lemma link_first:
  assumes "rb_holds s []" "new \<noteq> 0"
  shows "\<exists>s1 s2. rb_link_node new 0 d s = Some s1 \<and> rb_insert_color new s1 = Some s2 \<and>
    rb_holds s2 [new] \<and> (\<forall>b. b \<noteq> new \<longrightarrow> rb_nodes s2 b = rb_nodes s b)"
proof -
  have ok: "rb_ok (Link new 0 d) s" using collect_rb [OF assms(1)] assms(2) by simp
  show ?thesis using run_rb_frame [OF assms(1) ok] by (auto simp: bind_eq_Some_conv)
qed

lemma erase_head:
  assumes "rb_holds s (xs @ a # ys)"
  shows "\<exists>s'. rb_erase a s = Some s' \<and> rb_holds s' (xs @ ys) \<and> (\<forall>b. b \<notin> set (xs @ a # ys) \<longrightarrow> rb_nodes s' b = rb_nodes s b)"
proof -
  have ok: "rb_ok (Erase a) s" using collect_rb [OF assms(1)] by simp
  have "a \<notin> set xs" using rb_holds_nodes(1) [OF assms(1)] by simp
  then show ?thesis using run_rb_frame [OF assms(1) ok] by (auto simp: remove1_append)
qed

section \<open>Adding and removing\<close>

text \<open>What adding does to the sequence of tracks: before or behind the equal ones.\<close>

definition insert_track :: "(nat \<Rightarrow> nat \<Rightarrow> int) \<Rightarrow> int \<Rightarrow> nat \<Rightarrow> nat list \<Rightarrow> nat list" where
  "insert_track cmp tiebreak x xs =
     (let before = (\<lambda>y. if tiebreak < 0 then cmp y x < 0 else cmp y x \<le> 0)
      in takeWhile before xs @ x # dropWhile before xs)"

lemma insert_track_at:
  assumes "\<forall>y \<in> set us. if tiebreak < 0 then cmp y x < 0 else cmp y x \<le> 0"
    "\<forall>y \<in> set vs. \<not> (if tiebreak < 0 then cmp y x < 0 else cmp y x \<le> 0)"
  shows "insert_track cmp tiebreak x (us @ vs) = us @ x # vs"
proof -
  have "takeWhile P vs = [] \<and> dropWhile P vs = vs" if "\<forall>y \<in> set vs. \<not> P y" for P :: "nat \<Rightarrow> bool"
    using that by (cases vs) auto
  from this [OF assms(2)] show ?thesis using assms(1) by (simp add: insert_track_def Let_def takeWhile_append2 dropWhile_append2)
qed

lemma set_insert_track: "set (insert_track cmp tb x ys) = insert x (set ys)" "mset (insert_track cmp tb x ys) = add_mset x (mset ys)"
proof -
  have "mset (takeWhile P ys) + mset (dropWhile P ys) = mset ys" for P by (metis mset_append takeWhile_dropWhile_id)
  then show "mset (insert_track cmp tb x ys) = add_mset x (mset ys)" by (simp add: insert_track_def Let_def)
  then show "set (insert_track cmp tb x ys) = insert x (set ys)" by (metis set_mset_add_mset_insert set_mset_mset)
qed

lemma grouped_nodes:
  assumes "grouped cmp head s gs"
  shows "distinct (head # concat gs)" "0 \<notin> set (concat gs)" "set (map hd gs) \<subseteq> set (concat gs)" "groups cmp gs"
  using assms heads_in [of cmp gs] by (simp_all only: grouped_def is_list_def distinct.simps simp_thms)

text \<open>The ring after an insertion in front of the groups \<open>bs\<close>.\<close>

lemma ring_insert:
  assumes "is_list h head (xs @ concat bs)" "new \<notin> set (head # xs @ concat bs)" "groups cmp bs" "0 \<notin> set (concat bs)"
  shows "is_list (list_add new (prv h (node_or_head head (head0 (map hd bs)))) h) head (xs @ new # concat bs)"
    "same_outside (set (new # head # xs @ concat bs)) h (list_add new (prv h (node_or_head head (head0 (map hd bs)))) h)"
  unfolding head0_heads [OF assms(3,4)] using add_before_list [OF assms(1,2)] .

text \<open>A new state of the ring and of the tree, both with the new track.\<close>

lemma grouped_insert:
  assumes "grouped cmp head s gs" "new \<notin> set (head # concat gs)" "new \<noteq> 0"
    and "groups cmp gs'" "concat gs' = us @ new # vs" "concat gs = us @ vs" "rb_holds rb (map hd gs')"
    and "pos = hd (vs @ [head])" "\<forall>b. b \<notin> set (new # concat gs) \<longrightarrow> rb_nodes rb b = rb_nodes (tr_rb s) b"
  shows "grouped cmp head (s\<lparr>tr_rb := rb, tr_links := list_add new (prv (tr_links s) pos) (tr_links s)\<rparr>) gs' \<and>
    others_kept (set (new # concat gs)) head s (s\<lparr>tr_rb := rb, tr_links := list_add new (prv (tr_links s) pos) (tr_links s)\<rparr>)"
proof -
  have l: "is_list (tr_links s) head (us @ vs)" and z: "0 \<notin> set (us @ vs)" using assms(1,6) by (simp_all add: grouped_def)
  have n: "new \<notin> set (head # us @ vs)" using assms(2,6) by (auto simp del: set_concat)
  note a = add_before_list [OF l n]
  have "0 \<notin> set (us @ new # vs)" using z assms(3) by auto
  then have "grouped cmp head (s\<lparr>tr_rb := rb, tr_links := list_add new (prv (tr_links s) pos) (tr_links s)\<rparr>) gs'"
    using a(1) assms(4,5,7,8) by (simp add: grouped_def del: set_concat)
  moreover have "set (new # head # us @ vs) = insert head (set (new # concat gs))" unfolding assms(6) by auto
  ultimately show ?thesis using a(2) assms(8,9) by (simp add: others_kept_def del: set_concat)
qed

text \<open>The order of the tracks, given by \<open>track_info_cmp\<close> with the sort keys.\<close>

locale track_order = comparator ok cmp for ok :: "nat \<Rightarrow> bool" and cmp :: "nat \<Rightarrow> nat \<Rightarrow> int"
begin

lemma place_cases:
  assumes "groups cmp gs" "\<forall>y \<in> set (concat gs). ok y" "ok x"
  shows "sorted_wrt (\<lambda>a b. cmp x a \<le> 0 \<longrightarrow> cmp x b < 0) (map hd gs)"
  using assms
proof (induction gs)
  case (Cons g gs)
  have g: "hd g \<in> set g" using Cons.prems(1) by (simp add: groups_Cons)
  have "cmp x b < 0" if "cmp x (hd g) \<le> 0" "b \<in> set (map hd gs)" for b
  proof -
    have b: "b \<in> set (concat gs)" using that(2) heads_in [of cmp gs] Cons.prems(1) by (auto simp: groups_Cons simp del: set_map)
    then have "cmp (hd g) b < 0" using Cons.prems(1) g by (simp add: groups_Cons del: set_concat)
    then show ?thesis using strict_right [of x "hd g" b] Cons.prems g b that(1) by simp
  qed
  then show ?case using Cons by (simp add: groups_Cons)
qed simp

lemma equal_head:
  assumes "\<forall>a \<in> set g. \<forall>b \<in> set g. cmp a b = 0" "\<forall>y \<in> set g. ok y" "ok x" "a \<in> set g" "b \<in> set g"
  shows "sgn (cmp x a) = sgn (cmp x b)" "sgn (cmp a x) = - sgn (cmp x b)"
proof -
  have e: "cmp a b = 0" "cmp b a = 0" "ok a" "ok b" using assms by auto
  consider "cmp x a < 0" | "cmp x a = 0" | "cmp x a > 0" by linarith
  then show "sgn (cmp x a) = sgn (cmp x b)"
  proof cases
    case 1
    then have "cmp x b < 0" using strict_left [of x a b] e assms(3) by simp
    then show ?thesis using 1 by simp
  next
    case 2
    then have "cmp x b \<le> 0" "cmp b x \<le> 0" using trans [of x a b] trans [of b a x] swap_sign [of a x] e assms(3) by simp_all
    then have "cmp x b = 0" using swap_sign [of x b] e assms(3) by linarith
    then show ?thesis using 2 by simp
  next
    case 3
    then have "cmp a x < 0" using swap_sign [of a x] e assms(3) by simp
    then have "cmp b x < 0" using strict_right [of b a x] e assms(3) by simp
    then have "cmp x b > 0" using swap_sign [of b x] e assms(3) by simp
    then show ?thesis using 3 by simp
  qed
  then show "sgn (cmp a x) = - sgn (cmp x b)" using anti [of x a] e assms(3) by simp
qed

lemma heads_sgn:
  assumes "groups cmp gs" "\<forall>y \<in> set (concat gs). ok y" "ok x" "\<forall>a \<in> set (map hd gs). sgn (cmp x a) = k" "y \<in> set (concat gs)"
  shows "sgn (cmp x y) = k" "sgn (cmp y x) = - k"
proof -
  obtain g where g: "g \<in> set gs" "y \<in> set g" using assms(5) by auto
  have e: "\<forall>a \<in> set g. \<forall>b \<in> set g. cmp a b = 0" "\<forall>y \<in> set g. ok y" "g \<noteq> []"
    using assms(1,2) g by (auto simp: groups_def)
  note e = e(1,2) list.set_sel(1) [OF e(3)]
  have "sgn (cmp x (hd g)) = k" using assms(4) g by auto
  then show "sgn (cmp x y) = k" "sgn (cmp y x) = - k" using equal_head [OF e(1,2) assms(3)] g(2) e(3) by metis+
qed

lemma groups_single:
  assumes "groups cmp (as @ bs)" "ok x" "\<forall>y \<in> set (concat as). cmp y x < 0" "\<forall>y \<in> set (concat bs). cmp x y < 0"
  shows "groups cmp (as @ [x] # bs)"
  using assms self_zero [of x] by (auto simp: groups_append groups_Cons simp del: set_concat)

lemma groups_join:
  assumes "groups cmp (as @ g # bs)" "\<forall>y \<in> set (concat (as @ g # bs)). ok y" "ok x" "cmp x (hd g) = 0" "g' \<noteq> []" "set g' = insert x (set g)"
  shows "groups cmp (as @ g' # bs)" "\<forall>y \<in> set (concat as). cmp y x < 0" "\<forall>y \<in> set g. cmp y x = 0" "\<forall>y \<in> set (concat bs). cmp x y < 0"
    "\<forall>y \<in> set (concat bs). cmp y x > 0"
proof -
  have e: "\<forall>a \<in> set g. \<forall>b \<in> set g. cmp a b = 0" "\<forall>y \<in> set g. ok y" "hd g \<in> set g"
    using assms(1,2) by (auto simp: groups_append groups_Cons)
  then have g: "\<forall>y \<in> set g. cmp x y = 0 \<and> cmp y x = 0"
    using equal_head [OF e(1,2) assms(3), of _ "hd g"] assms(4) by (auto simp: sgn_0_0)
  show as: "\<forall>y \<in> set (concat as). cmp y x < 0" and bs: "\<forall>y \<in> set (concat bs). cmp x y < 0"
  proof -
    show "\<forall>y \<in> set (concat as). cmp y x < 0"
    proof
      fix y assume y: "y \<in> set (concat as)"
      have "cmp y (hd g) < 0" using assms(1) y e(3) by (auto simp: groups_append groups_Cons simp del: set_concat)
      then show "cmp y x < 0" using strict_left [of y "hd g" x] y assms(2,3) e(3) g by simp
    qed
    show "\<forall>y \<in> set (concat bs). cmp x y < 0"
    proof
      fix y assume y: "y \<in> set (concat bs)"
      have "cmp (hd g) y < 0" using assms(1) y e(3) by (auto simp: groups_append groups_Cons simp del: set_concat)
      then show "cmp x y < 0" using strict_right [of x "hd g" y] y assms(2,3) e(3) g by simp
    qed
  qed
  show "\<forall>y \<in> set (concat bs). cmp y x > 0"
  proof
    fix y assume y: "y \<in> set (concat bs)"
    then have "ok y" "cmp x y < 0" using assms(2) bs by auto
    then show "cmp y x > 0" using swap_sign(2) [of y x] assms(3) by simp
  qed
  show "\<forall>y \<in> set g. cmp y x = 0" using g by simp
  show "groups cmp (as @ g' # bs)"
    using assms(1,3,5,6) as bs g e(1) self_zero [of x] by (auto simp: groups_append groups_Cons simp del: set_concat)
qed

lemma add_equal:
  assumes s: "grouped cmp head s (as @ g # bs)" and x: "x \<notin> set (head # concat (as @ g # bs))" "x \<noteq> 0"
    and ok: "ok x" "\<forall>y \<in> set (concat (as @ g # bs)). ok y" and eq: "cmp x (hd g) = 0"
    and loc: "locate (cmp x) 0 L 0 (rb_root (tr_rb s)) (tr_rb s) = Some (hd g, d, 0)"
  shows "\<exists>s' gs'. sorted_list_add_track cmp head x tb s = Some s' \<and> grouped cmp head s' gs' \<and>
    concat gs' = insert_track cmp tb x (concat (as @ g # bs)) \<and> others_kept (set (x # concat (as @ g # bs))) head s s' \<and>
    (rest_cleared s (as @ g # bs) \<and> cleared x s \<longrightarrow> rest_cleared s' gs')"
proof -
  note n = grouped_nodes [OF s] and j = groups_join [OF grouped_nodes(4) [OF s] ok(2,1) eq]
  have "hd g \<in> set g" using n(4) by (auto simp: groups_append groups_Cons)
  then have "hd g \<in> set (concat (as @ g # bs))" by auto
  then have "hd g \<noteq> 0" using n(2) by metis
  moreover have "g \<noteq> []" using \<open>hd g \<in> set g\<close> by auto
  ultimately have ne: "g \<noteq> []" "hd g \<noteq> 0" by auto
  have rb: "rb_holds (tr_rb s) (map hd as @ hd g # map hd bs)" using s by (simp add: grouped_def)
  show ?thesis
  proof (cases "tb < 0")
    case True
    have xn: "x \<notin> set (map hd as @ hd g # map hd bs)" using x(1) n(3) by auto
    obtain s1 s2 where r: "rb_replace_node (hd g) x (tr_rb s) = Some s1" "rb_clear_node (hd g) s1 = Some s2"
      "rb_holds s2 (map hd as @ x # map hd bs)" "rb_parent (rb_nodes s2 (hd g)) = hd g"
      "\<forall>b. b \<notin> set (x # map hd as @ hd g # map hd bs) \<longrightarrow> rb_nodes s2 b = rb_nodes (tr_rb s) b"
      using replace_clear [OF rb x(2) xn] by blast
    let ?gs = "as @ (x # g) # bs" and ?s = "s\<lparr>tr_rb := s2, tr_links := list_add x (prv (tr_links s) (hd g)) (tr_links s)\<rparr>"
    have run: "sorted_list_add_track cmp head x tb s = Some ?s"
      using loc r(1,2) True ne by (simp add: sorted_list_add_track_def Let_def)
    have k: "\<forall>b. b \<notin> set (x # concat (as @ g # bs)) \<longrightarrow> rb_nodes s2 b = rb_nodes (tr_rb s) b"
    proof (intro allI impI)
      fix b assume "b \<notin> set (x # concat (as @ g # bs))"
      then have "b \<notin> set (x # map hd as @ hd g # map hd bs)"
        using n(3) unfolding map_append list.map list.set(2) by blast
      then show "rb_nodes s2 b = rb_nodes (tr_rb s) b" using r(5) by blast
    qed
    have "grouped cmp head ?s ?gs \<and> others_kept (set (x # concat (as @ g # bs))) head s ?s"
    proof (rule grouped_insert [OF s x])
      show "groups cmp ?gs" using j(1) [of "x # g"] by simp
      show "hd g = hd ((g @ concat bs) @ [head])" using ne(1) by simp
      show "concat ?gs = concat as @ x # (g @ concat bs)" "concat (as @ g # bs) = concat as @ (g @ concat bs)" by simp_all
      show "rb_holds s2 (map hd ?gs)" using r(3) by simp
    qed (use k in blast)
    moreover have "insert_track cmp tb x (concat as @ (g @ concat bs)) = concat as @ x # (g @ concat bs)"
    proof (rule insert_track_at)
      show "\<forall>y\<in>set (g @ concat bs). \<not> (if tb < 0 then cmp y x < 0 else cmp y x \<le> 0)"
        using j(3,5) [of "x # g"] True by fastforce
    qed (use j(2) [of "x # g"] True in simp)
    moreover have "rest_cleared ?s ?gs" if "rest_cleared s (as @ g # bs)"
    proof -
      have "cleared a ?s" if a: "a \<in> set (concat ?gs) - set (map hd ?gs)" for a
      proof (cases "a = hd g")
        case False
        then have "a \<in> set (concat (as @ g # bs)) - set (map hd (as @ g # bs))" "a \<notin> set (x # map hd as @ hd g # map hd bs)" using a by auto
        then show ?thesis using \<open>rest_cleared s (as @ g # bs)\<close> r(5) by (simp add: rest_cleared_def cleared_def)
      qed (use r(4) in \<open>simp add: cleared_def\<close>)
      then show ?thesis by (simp add: rest_cleared_def)
    qed
    ultimately show ?thesis using run by (intro exI [of _ ?s] exI [of _ ?gs]) simp
  next
    case False
    have st: "rb_step R (hd g) (tr_rb s) = Some (head0 (map hd bs))" using rb_steps [OF rb] by simp
    have gb: "groups cmp bs" "0 \<notin> set (concat bs)" using n(2,4) by (auto simp: groups_append groups_Cons)
    let ?gs = "as @ (g @ [x]) # bs" and ?s = "s\<lparr>tr_rb := tr_rb s, tr_links := list_add x (prv (tr_links s) (node_or_head head (head0 (map hd bs)))) (tr_links s)\<rparr>"
    have run: "sorted_list_add_track cmp head x tb s = Some ?s"
      using loc st False ne by (simp add: sorted_list_add_track_def Let_def)
    have "grouped cmp head ?s ?gs \<and> others_kept (set (x # concat (as @ g # bs))) head s ?s"
    proof (rule grouped_insert [OF s x])
      show "groups cmp ?gs" using j(1) [of "g @ [x]"] by simp
      show "node_or_head head (head0 (map hd bs)) = hd (concat bs @ [head])" using head0_heads [OF gb] .
      show "concat ?gs = (concat as @ g) @ x # concat bs" "concat (as @ g # bs) = (concat as @ g) @ concat bs" by simp_all
      show "rb_holds (tr_rb s) (map hd ?gs)" using rb ne by simp
    qed simp
    moreover have "insert_track cmp tb x ((concat as @ g) @ concat bs) = (concat as @ g) @ x # concat bs"
    proof (rule insert_track_at)
      show "\<forall>y\<in>set (concat bs). \<not> (if tb < 0 then cmp y x < 0 else cmp y x \<le> 0)"
        using j(5) [of "g @ [x]"] False by fastforce
    qed (use j(2,3) [of "g @ [x]"] False in fastforce)
    moreover have "rest_cleared ?s ?gs" if "rest_cleared s (as @ g # bs)" "cleared x s"
      using that ne unfolding rest_cleared_def cleared_def by auto
    ultimately show ?thesis using run by (intro exI [of _ ?s] exI [of _ ?gs]) simp
  qed
qed

text \<open>A track between the groups \<open>as\<close> and \<open>bs\<close>, with a tree that has it at its place.\<close>

lemma add_between:
  assumes s: "grouped cmp head s (as @ bs)" and x: "x \<notin> set (head # concat (as @ bs))" "x \<noteq> 0" and ok: "ok x" "\<forall>y \<in> set (concat (as @ bs)). ok y"
    and gt: "\<forall>a \<in> set (map hd as). cmp x a > 0" and lt: "\<forall>a \<in> set (map hd bs). cmp x a < 0"
    and rb: "rb_holds rb (map hd as @ x # map hd bs)"
    and kept: "\<forall>b. b \<notin> set (x # map hd (as @ bs)) \<longrightarrow> rb_nodes rb b = rb_nodes (tr_rb s) b"
    and pos: "pos = hd (concat bs @ [head])"
    and run: "sorted_list_add_track cmp head x tb s = Some (s\<lparr>tr_rb := rb, tr_links := list_add x (prv (tr_links s) pos) (tr_links s)\<rparr>)"
  shows "\<exists>s' gs'. sorted_list_add_track cmp head x tb s = Some s' \<and> grouped cmp head s' gs' \<and>
    concat gs' = insert_track cmp tb x (concat (as @ bs)) \<and> others_kept (set (x # concat (as @ bs))) head s s' \<and>
    (rest_cleared s (as @ bs) \<and> cleared x s \<longrightarrow> rest_cleared s' gs')"
proof -
  note n = grouped_nodes [OF s]
  have ga: "groups cmp as" "groups cmp bs" "\<forall>y \<in> set (concat as). ok y" "\<forall>y \<in> set (concat bs). ok y"
    using n(4) ok(2) by (auto simp: groups_append)
  have g1: "\<forall>a \<in> set (map hd as). sgn (cmp x a) = 1" and l1: "\<forall>a \<in> set (map hd bs). sgn (cmp x a) = -1"
    using gt lt by simp_all
  have ca: "\<forall>y \<in> set (concat as). cmp y x < 0" using heads_sgn(2) [OF ga(1,3) ok(1) g1] unfolding sgn_1_neg by blast
  have "\<forall>y \<in> set (concat bs). sgn (cmp x y) = -1 \<and> sgn (cmp y x) = 1" using heads_sgn [OF ga(2,4) ok(1) l1] by simp
  then have cb: "\<forall>y \<in> set (concat bs). cmp x y < 0 \<and> cmp y x > 0" unfolding sgn_1_neg sgn_1_pos .
  let ?gs = "as @ [x] # bs" and ?s = "s\<lparr>tr_rb := rb, tr_links := list_add x (prv (tr_links s) pos) (tr_links s)\<rparr>"
  have k: "\<forall>b. b \<notin> set (x # concat (as @ bs)) \<longrightarrow> rb_nodes rb b = rb_nodes (tr_rb s) b"
    using kept n(3) unfolding list.set(2) by blast
  have "grouped cmp head ?s ?gs \<and> others_kept (set (x # concat (as @ bs))) head s ?s"
  proof (rule grouped_insert [OF s x])
    show "groups cmp ?gs" using groups_single [OF n(4) ok(1) ca] cb by simp
    show "concat ?gs = concat as @ x # concat bs" "concat (as @ bs) = concat as @ concat bs" by simp_all
    show "rb_holds rb (map hd ?gs)" using rb by simp
  qed (use pos k in blast)+
  moreover have "insert_track cmp tb x (concat as @ concat bs) = concat as @ x # concat bs"
  proof (rule insert_track_at)
    show "\<forall>y \<in> set (concat as). if tb < 0 then cmp y x < 0 else cmp y x \<le> 0" using ca by (metis order_less_imp_le)
    show "\<forall>y \<in> set (concat bs). \<not> (if tb < 0 then cmp y x < 0 else cmp y x \<le> 0)" using cb by (metis order_less_not_sym not_le)
  qed
  moreover have "rest_cleared ?s ?gs" if "rest_cleared s (as @ bs)"
    using that kept unfolding rest_cleared_def cleared_def by auto
  ultimately show ?thesis using run by (intro exI [of _ ?s] exI [of _ ?gs]) simp
qed

lemma add_track:
  assumes s: "grouped cmp head s gs" and x: "x \<notin> set (head # concat gs)" "x \<noteq> 0" and ok: "ok x" "\<forall>y \<in> set (concat gs). ok y"
  shows "\<exists>s' gs'. sorted_list_add_track cmp head x tb s = Some s' \<and> grouped cmp head s' gs' \<and>
    concat gs' = insert_track cmp tb x (concat gs) \<and> others_kept (set (x # concat gs)) head s s' \<and>
    (rest_cleared s gs \<and> cleared x s \<longrightarrow> rest_cleared s' gs')"
proof -
  note n = grouped_nodes [OF s]
  have rb: "rb_holds (tr_rb s) (map hd gs)" using s by (simp add: grouped_def)
  have xn: "x \<notin> set (map hd gs)" using x(1) n(3) by auto
  consider (equal) a d where "a \<in> set (map hd gs)" "cmp x a = 0" "locate (cmp x) 0 L 0 (rb_root (tr_rb s)) (tr_rb s) = Some (a, d, 0)"
    | (none) "gs = []" "locate (cmp x) 0 L 0 (rb_root (tr_rb s)) (tr_rb s) = Some (0, L, 0)"
    | (place) us p vs d where "map hd gs = us @ p # vs" "rb_child (rb_nodes (tr_rb s) p) d = 0"
        "locate (cmp x) 0 L 0 (rb_root (tr_rb s)) (tr_rb s) = Some (p, d, cmp x p)"
        "\<forall>a \<in> set us. cmp x a > 0" "\<forall>a \<in> set vs. cmp x a < 0" "d = L \<and> cmp x p < 0 \<or> d = R \<and> cmp x p > 0"
    using locate_root [OF rb place_cases [OF n(4) ok(2,1)]] by blast
  then show ?thesis
  proof cases
    case equal
    then obtain g where "g \<in> set gs" "a = hd g" by auto
    then obtain as bs where "gs = as @ g # bs" by (meson split_list)
    then show ?thesis using add_equal [of head s as g bs x d tb] s x ok equal \<open>a = hd g\<close> by simp
  next
    case none
    then obtain s1 s2 where r: "rb_link_node x 0 L (tr_rb s) = Some s1" "rb_insert_color x s1 = Some s2" "rb_holds s2 [x]"
      "\<forall>b. b \<noteq> x \<longrightarrow> rb_nodes s2 b = rb_nodes (tr_rb s) b"
      using link_first [of "tr_rb s" x L] rb x(2) by auto
    show ?thesis
      using add_between [of head s "[]" "[]" x s2 head tb] s x ok none r by (simp add: sorted_list_add_track_def Let_def)
  next
    case place
    have p: "p \<noteq> 0" "x \<notin> set (us @ p # vs)" using rb_holds_nodes(2) [OF rb] place(1) xn by auto
    have rb': "rb_holds (tr_rb s) (us @ p # vs)" using rb place(1) by simp
    obtain s1 s2 where r: "rb_link_node x p d (tr_rb s) = Some s1" "rb_insert_color x s1 = Some s2"
      "rb_holds s2 (us @ (if d = L then [x, p] else [p, x]) @ vs)" "\<forall>b. b \<notin> set (x # us @ p # vs) \<longrightarrow> rb_nodes s2 b = rb_nodes (tr_rb s) b"
      using link_insert [OF rb' x(2) p(2) place(2)] by blast
    obtain as g bs where gs: "gs = as @ g # bs" "us = map hd as" "p = hd g" "vs = map hd bs"
      using place(1) by (auto simp: map_eq_append_conv map_eq_Cons_conv)
    have gb: "groups cmp bs" "0 \<notin> set (concat bs)" "g \<noteq> []" using n(2,4) gs(1) by (auto simp: groups_append groups_Cons)
    have k: "\<forall>b. b \<notin> set (x # map hd gs) \<longrightarrow> rb_nodes s2 b = rb_nodes (tr_rb s) b" using r(4) place(1) by simp
    from place(6) show ?thesis
    proof
      assume d: "d = L \<and> cmp x p < 0"
      have run: "sorted_list_add_track cmp head x tb s =
          Some (s\<lparr>tr_rb := s2, tr_links := list_add x (prv (tr_links s) p) (tr_links s)\<rparr>)"
        using place(3) r(1,2) d p(1) by (simp add: sorted_list_add_track_def Let_def)
      show ?thesis unfolding gs(1)
        by (rule add_between [OF _ _ x(2) ok(1) _ _ _ _ _ _ run]) (use s x ok gs place(4,5) d r(3) k gb(3) in \<open>auto simp del: set_map\<close>)
    next
      assume d: "d = R \<and> cmp x p > 0"
      have "rb_holds s2 ((map hd as @ [hd g]) @ x # map hd bs)" using r(3) gs d by simp
      from rb_steps [OF this] have st: "rb_step R x s2 = Some (head0 (map hd bs))" by simp
      have run: "sorted_list_add_track cmp head x tb s =
          Some (s\<lparr>tr_rb := s2, tr_links := list_add x (prv (tr_links s) (node_or_head head (head0 (map hd bs)))) (tr_links s)\<rparr>)"
        using place(3) r(1,2) d p(1) st by (simp add: sorted_list_add_track_def Let_def)
      have "gs = (as @ [g]) @ bs" using gs(1) by simp
      then show ?thesis using add_between [of head s "as @ [g]" bs x s2 "node_or_head head (head0 (map hd bs))" tb] s x ok gs place(4,5) d r(3) k head0_heads [OF gb(1,2), of head] run
        by (simp del: set_map set_concat)
    qed
  qed
qed

end

lemma grouped_delete:
  assumes "grouped cmp head s gs" "groups cmp gs'" "concat gs = us @ x # vs" "concat gs' = us @ vs" "rb_holds rb (map hd gs')"
    and "\<forall>b. b \<notin> set (concat gs) \<longrightarrow> rb_nodes rb b = rb_nodes (tr_rb s) b"
  shows "grouped cmp head (s\<lparr>tr_rb := rb, tr_links := list_del x (tr_links s)\<rparr>) gs' \<and>
    others_kept (set (concat gs)) head s (s\<lparr>tr_rb := rb, tr_links := list_del x (tr_links s)\<rparr>)"
proof -
  have l: "is_list (tr_links s) head (us @ x # vs)" and z: "0 \<notin> set (us @ x # vs)" using assms(1,3) by (simp_all add: grouped_def)
  show ?thesis using list_del_list(1,2) [OF l] z assms(2,4-6) unfolding grouped_def others_kept_def assms(3,4) by simp
qed

lemma groups_shrink:
  assumes "groups cmp (as @ (us @ x # vs) # bs)"
  shows "groups cmp (as @ (if us @ vs = [] then [] else [us @ vs]) @ bs)"
  using assms by (auto simp: groups_append groups_Cons simp del: set_concat)

lemma remove_other:
  assumes s: "grouped cmp head s (as @ (us @ x # vs) # bs)" and us: "us \<noteq> []" "cleared x s"
  shows "\<exists>s'. sorted_list_remove_track head x s = Some s' \<and> grouped cmp head s' (as @ [us @ vs] @ bs) \<and>
    others_kept (set (concat (as @ (us @ x # vs) # bs))) head s s' \<and>
    (rest_cleared s (as @ (us @ x # vs) # bs) \<longrightarrow> rest_cleared s' (as @ [us @ vs] @ bs))"
proof -
  note n = grouped_nodes [OF s]
  let ?s = "s\<lparr>tr_rb := tr_rb s, tr_links := list_del x (tr_links s)\<rparr>"
  have "x \<noteq> 0" using n(2) by auto
  then have run: "sorted_list_remove_track head x s = Some ?s"
    using us(2) by (simp add: sorted_list_remove_track_def rb_empty_node_def cleared_def get_not_null)
  have "grouped cmp head ?s (as @ [us @ vs] @ bs) \<and> others_kept (set (concat (as @ (us @ x # vs) # bs))) head s ?s"
  proof (rule grouped_delete [OF s])
    show "concat (as @ (us @ x # vs) # bs) = (concat as @ us) @ x # (vs @ concat bs)"
      "concat (as @ [us @ vs] @ bs) = (concat as @ us) @ (vs @ concat bs)" by simp_all
    show "groups cmp (as @ [us @ vs] @ bs)" using groups_shrink [OF n(4)] us(1) by simp
    show "rb_holds (tr_rb s) (map hd (as @ [us @ vs] @ bs))" using s us(1) by (simp add: grouped_def)
  qed simp
  moreover have "rest_cleared s (as @ (us @ x # vs) # bs) \<longrightarrow> rest_cleared ?s (as @ [us @ vs] @ bs)"
    using us(1) unfolding rest_cleared_def cleared_def by auto
  ultimately show ?thesis using run by (intro exI [of _ ?s] conjI) blast+
qed

lemma remove_head:
  assumes s: "grouped cmp head s (as @ (x # vs) # bs)"
  shows "\<exists>s'. sorted_list_remove_track head x s = Some s' \<and> grouped cmp head s' (as @ (if vs = [] then [] else [vs]) @ bs) \<and>
    others_kept (set (concat (as @ (x # vs) # bs))) head s s' \<and>
    (rest_cleared s (as @ (x # vs) # bs) \<longrightarrow> rest_cleared s' (as @ (if vs = [] then [] else [vs]) @ bs))"
proof -
  note n = grouped_nodes [OF s]
  have gb: "groups cmp bs" "0 \<notin> set (concat bs)" "x \<noteq> 0" using n(2,4) by (auto simp: groups_append groups_Cons)
  have rb: "rb_holds (tr_rb s) (map hd as @ x # map hd bs)" using s by (simp add: grouped_def)
  have ne: "rb_empty_node x (tr_rb s) = Some False"
    using rb_holds_nodes(4) [OF rb, of x] gb(3) by (simp add: rb_empty_node_def get_not_null)
  have st: "rb_step R x (tr_rb s) = Some (head0 (map hd bs))" using rb_steps [OF rb] by simp
  have "is_list (tr_links s) head (concat as @ x # (vs @ concat bs))" using s by (simp add: grouped_def)
  from is_list_entry(1) [OF this] have nx: "nxt (tr_links s) x = hd (vs @ concat bs @ [head])" by simp
  have sub: "set (map hd as @ x # map hd bs) \<subseteq> set (concat (as @ (x # vs) # bs))" using n(3) by simp
  show ?thesis
  proof (cases vs)
    case Nil
    have hh: "nxt (tr_links s) x = node_or_head head (head0 (map hd bs))" using nx Nil head0_heads [OF gb(1,2)] by simp
    have "head0 (map hd bs) \<noteq> head" if "bs \<noteq> []"
      using n(1,3) that by (cases bs) auto
    then have same: "(nxt (tr_links s) x \<noteq> head \<longrightarrow> nxt (tr_links s) x = head0 (map hd bs))"
      using hh by (auto simp: node_or_head_def split: if_splits)
    obtain rb' where r: "rb_erase x (tr_rb s) = Some rb'" "rb_holds rb' (map hd as @ map hd bs)"
      "\<forall>b. b \<notin> set (map hd as @ x # map hd bs) \<longrightarrow> rb_nodes rb' b = rb_nodes (tr_rb s) b" using erase_head [OF rb] by blast
    let ?s = "s\<lparr>tr_rb := rb', tr_links := list_del x (tr_links s)\<rparr>"
    have run: "sorted_list_remove_track head x s = Some ?s"
      using ne st r(1) same by (auto simp: sorted_list_remove_track_def Let_def)
    have "grouped cmp head ?s (as @ bs) \<and> others_kept (set (concat (as @ (x # vs) # bs))) head s ?s"
    proof (rule grouped_delete [OF s])
      show "concat (as @ (x # vs) # bs) = concat as @ x # concat bs" "concat (as @ bs) = concat as @ concat bs" using Nil by simp_all
      show "groups cmp (as @ bs)" using groups_shrink [of cmp as "[]" x vs bs] n(4) Nil by simp
      show "rb_holds rb' (map hd (as @ bs))" using r(2) by simp
      show "\<forall>b. b \<notin> set (concat (as @ (x # vs) # bs)) \<longrightarrow> rb_nodes rb' b = rb_nodes (tr_rb s) b" using r(3) sub by blast
    qed
    moreover have "rest_cleared s (as @ (x # vs) # bs) \<longrightarrow> rest_cleared ?s (as @ bs)"
    proof (rule impI, rule rest_cleared_mono)
      fix a assume a: "a \<in> set (concat (as @ bs))" "a \<notin> set (map hd (as @ bs))"
      have "x \<notin> set (concat (as @ bs))" using n(1) by auto
      then have "a \<noteq> x" using a(1) by metis
      then have "a \<notin> set (map hd as @ x # map hd bs)" "a \<notin> set (map hd (as @ (x # vs) # bs))" using a(2) by auto
      moreover have "a \<in> set (concat (as @ (x # vs) # bs))" using a(1) by auto
      ultimately show "a \<in> set (concat (as @ (x # vs) # bs)) \<and> a \<notin> set (map hd (as @ (x # vs) # bs)) \<and>
          rb_nodes (tr_rb ?s) a = rb_nodes (tr_rb s) a" using r(3) by simp
    qed
    ultimately show ?thesis using run Nil by (intro exI [of _ ?s]) simp
  next
    case (Cons y ws)
    have y: "nxt (tr_links s) x = y" "y \<noteq> head" "y \<noteq> 0" "y \<notin> set (concat as)" "y \<notin> set (concat bs)" "y \<noteq> x"
      using nx n(1,2) Cons by (auto simp del: set_concat)
    have yh: "y \<notin> set (map hd as @ x # map hd bs)"
      using y heads_in [of cmp as] heads_in [of cmp bs] n(4) by (auto simp: groups_append groups_Cons simp del: set_map set_concat)
    then have "head0 (map hd bs) \<noteq> y" using y(3) by (cases bs) auto
    then obtain s1 s2 where r: "rb_replace_node x y (tr_rb s) = Some s1" "rb_clear_node x s1 = Some s2" "rb_holds s2 (map hd as @ y # map hd bs)"
      "\<forall>b. b \<notin> set (y # map hd as @ x # map hd bs) \<longrightarrow> rb_nodes s2 b = rb_nodes (tr_rb s) b" "head0 (map hd bs) \<noteq> y"
      using replace_clear [OF rb y(3) yh] by blast
    let ?s = "s\<lparr>tr_rb := s2, tr_links := list_del x (tr_links s)\<rparr>"
    have run: "sorted_list_remove_track head x s = Some ?s"
      using ne st r y(1-3) by (simp add: sorted_list_remove_track_def Let_def)
    have "grouped cmp head ?s (as @ [vs] @ bs) \<and> others_kept (set (concat (as @ (x # vs) # bs))) head s ?s"
    proof (rule grouped_delete [OF s])
      show "concat (as @ (x # vs) # bs) = concat as @ x # (vs @ concat bs)" "concat (as @ [vs] @ bs) = concat as @ (vs @ concat bs)" by simp_all
      show "groups cmp (as @ [vs] @ bs)" using groups_shrink [of cmp as "[]" x vs bs] n(4) Cons by simp
      show "rb_holds s2 (map hd (as @ [vs] @ bs))" using r(3) Cons by simp
      have "set (y # map hd as @ x # map hd bs) \<subseteq> set (concat (as @ (x # vs) # bs))" using Cons sub by auto
      then show "\<forall>b. b \<notin> set (concat (as @ (x # vs) # bs)) \<longrightarrow> rb_nodes s2 b = rb_nodes (tr_rb s) b"
        using r(4) by blast
    qed
    moreover have "rest_cleared s (as @ (x # vs) # bs) \<longrightarrow> rest_cleared ?s (as @ [vs] @ bs)"
    proof (rule impI, rule rest_cleared_mono)
      fix a assume a: "a \<in> set (concat (as @ [vs] @ bs))" "a \<notin> set (map hd (as @ [vs] @ bs))"
      have "x \<notin> set (concat (as @ [vs] @ bs))" using n(1) by auto
      then have "a \<noteq> x" using a(1) by metis
      then have "a \<notin> set (y # map hd as @ x # map hd bs)" "a \<notin> set (map hd (as @ (x # vs) # bs))" using a(2) Cons by auto
      moreover have "a \<in> set (concat (as @ (x # vs) # bs))" using a(1) by auto
      ultimately show "a \<in> set (concat (as @ (x # vs) # bs)) \<and> a \<notin> set (map hd (as @ (x # vs) # bs)) \<and>
          rb_nodes (tr_rb ?s) a = rb_nodes (tr_rb s) a" using r(4) by simp
    qed
    ultimately show ?thesis using run Cons by (intro exI [of _ ?s]) simp
  qed
qed

lemma remove_track:
  assumes "grouped cmp head s (as @ (us @ x # vs) # bs)" "us = [] \<or> cleared x s"
  shows "\<exists>s'. sorted_list_remove_track head x s = Some s' \<and> grouped cmp head s' (as @ (if us @ vs = [] then [] else [us @ vs]) @ bs) \<and>
    others_kept (set (concat (as @ (us @ x # vs) # bs))) head s s' \<and>
    (rest_cleared s (as @ (us @ x # vs) # bs) \<longrightarrow> rest_cleared s' (as @ (if us @ vs = [] then [] else [us @ vs]) @ bs))"
  using remove_head [of cmp head s as x vs bs] remove_other [of cmp head s as us x vs bs] assms by (cases "us = []") auto

section \<open>Sorting again\<close>

lemma with_root_simps [simp]:
  "with_root p (with_root q s) = with_root p s" "with_root (root_of s) s = s" "root_of (with_root p s) = p"
  "tr_links (with_root p s) = tr_links s" "rb_nodes (tr_rb (with_root p s)) = rb_nodes (tr_rb s)" "rb_root (tr_rb (with_root p s)) = p"
  by (simp_all add: with_root_def root_of_def)

lemma others_kept_root [simp]:
  "others_kept A head (with_root p s) s' = others_kept A head s s'" "others_kept A head s (with_root p s') = others_kept A head s s'"
  by (simp_all add: others_kept_def)

lemma cleared_root [simp]: "cleared a (with_root p s) = cleared a s"
  by (simp add: cleared_def)

text \<open>An operation on one list leaves another one alone.\<close>

lemma grouped_frame:
  assumes "grouped cmp tmp (with_root r s) gs" "others_kept A head s s'" "insert head A \<inter> set (tmp # concat gs) = {}"
  shows "grouped cmp tmp (with_root r s') gs"
proof -
  note n = grouped_nodes [OF assms(1)]
  have "is_list (tr_links s') tmp (concat gs)"
    using is_list_frame [of "insert head A" "tr_links s" "tr_links s'" tmp "concat gs"] assms by (simp add: others_kept_def grouped_def)
  moreover have "rb_holds (tr_rb (with_root r s')) (map hd gs)"
  proof (rule rb_holds_cong)
    show "rb_holds (tr_rb (with_root r s)) (map hd gs)" using assms(1) by (simp add: grouped_def)
    fix a assume "a \<in> set (map hd gs)"
    then have "a \<in> set (concat gs)" using n(3) by blast
    then have "a \<notin> A" using assms(3) unfolding list.set(2) by blast
    then show "rb_nodes (tr_rb (with_root r s')) a = rb_nodes (tr_rb (with_root r s)) a" using assms(2) by (simp add: others_kept_def)
  qed simp
  ultimately show ?thesis using assms(1) by (simp add: grouped_def)
qed

text \<open>The first track of a list.\<close>

lemma remove_first:
  assumes "grouped cmp head s gs" "concat gs = x # xs"
  shows "\<exists>s' gs'. sorted_list_remove_track head x s = Some s' \<and> grouped cmp head s' gs' \<and> concat gs' = xs \<and>
    others_kept (set (x # xs)) head s s' \<and> nxt (tr_links s) x = hd (xs @ [head]) \<and> x \<noteq> head \<and> x \<noteq> 0"
proof -
  note n = grouped_nodes [OF assms(1)]
  obtain vs bs where gs: "gs = (x # vs) # bs" "xs = vs @ concat bs"
  proof (cases gs)
    case (Cons g bs)
    then obtain vs where "g = x # vs" using assms(2) n(4) by (cases g) (auto simp: groups_Cons)
    then show thesis using that Cons assms(2) by simp
  qed (use assms(2) in simp)
  have "is_list (tr_links s) head ([] @ x # xs)" using assms by (simp add: grouped_def)
  from is_list_entry(1) [OF this] have "nxt (tr_links s) x = hd (xs @ [head])" by simp
  moreover have "x \<noteq> head" "x \<noteq> 0" using n(1,2) assms(2) by auto
  ultimately show ?thesis using remove_head [of cmp head s "[]" x vs bs] assms gs by (cases vs) fastforce+
qed

lemma rb_holds_empty: "rb_root s = 0 \<Longrightarrow> rb_holds s []"
  unfolding rb_holds_def holds_tree_def focus_def kept_def balanced_def by (intro exI [of _ Leaf]) (simp add: exI [of _ 0])

lemma grouped_empty: "is_list (tr_links s) head [] \<Longrightarrow> rb_root (tr_rb s) = 0 \<Longrightarrow> grouped cmp head s []"
  by (simp add: grouped_def rb_holds_empty)

lemma grouped_none: "grouped cmp head s gs \<Longrightarrow> concat gs = [] \<Longrightarrow> gs = [] \<and> is_list (tr_links s) head []"
  by (cases gs) (auto simp: grouped_def groups_Cons)

text \<open>The ring of the temporary head becomes the ring of the list's own head.\<close>

lemma ring_take_over:
  assumes "is_list h tmp ys" "ys \<noteq> []" "head \<notin> set ys"
  shows "is_list (list_link head (prv h tmp) (nxt h tmp) h) head ys"
proof -
  let ?h = "list_link head (prv h tmp) (nxt h tmp) h"
  have e: "nxt h tmp = hd ys" "prv h tmp = last ys" using is_list_ends [OF assms(1)] assms(2) by simp_all
  have d: "distinct ys" and l: "linked h (ys @ [tmp])" using assms(1) is_list_split [of h tmp "[]" ys] by auto
  obtain zs p where zs: "ys = zs @ [p]" using assms(2) by (metis append_butlast_last_id)
  have "linked h (zs @ [p])" using l linked_append [of h zs p "[tmp]"] zs by simp
  then have "linked ?h (zs @ [p])"
  proof (subst linked_cong [of _ _ h])
    fix a assume "a \<in> set (butlast (zs @ [p]))"
    then have "a \<noteq> p" "a \<noteq> head" using d assms(3) zs by auto
    then show "nxt ?h a = nxt h a" using e zs by simp
  next
    fix a assume a: "a \<in> set (tl (zs @ [p]))"
    then have "a \<noteq> hd ys" "a \<in> set ys" using d zs by (cases zs; auto)+
    then show "prv ?h a = prv h a" using e assms(3) by auto
  qed
  then have "linked ?h (ys @ [head])" using linked_append [of ?h zs p "[head]"] zs e d assms(3) by auto
  moreover have "hd ys \<in> set ys" using assms(2) by simp
  ultimately show ?thesis
    using is_list_split [of ?h head "[]" ys] e d assms(2,3) by (auto simp: linked_Cons)
qed

context track_order
begin

lemma rebuild_loop:
  assumes "grouped cmp0 head s gs" "grouped cmp tmp (with_root r s) gs2"
    and "set (head # concat gs) \<inter> set (tmp # concat gs2) = {}" "\<forall>a \<in> set (concat gs). ok a" "\<forall>a \<in> set (concat gs2). ok a"
  shows "\<exists>r' s' gs'. rebuild_loop cmp head tmp (hd (concat gs @ [head])) r s = Some (r', s') \<and> grouped cmp tmp (with_root r' s') gs' \<and>
    concat gs' = fold (insert_track cmp 0) (concat gs) (concat gs2)"
  using assms
proof (induction "concat gs" arbitrary: gs gs2 s r)
  case Nil
  have "rebuild_loop cmp head tmp (hd (concat gs @ [head])) r s = Some (r, s)"
    unfolding Nil.hyps [symmetric] by (subst rebuild_loop.simps) simp
  moreover have "fold (insert_track cmp 0) (concat gs) (concat gs2) = concat gs2" unfolding Nil.hyps [symmetric] by simp
  ultimately show ?case using Nil.prems(2) by (intro exI [of _ r] exI [of _ s] exI [of _ gs2]) simp
next
  case (Cons x xs)
  obtain s1 gs1 where r1: "sorted_list_remove_track head x s = Some s1" "grouped cmp0 head s1 gs1" "concat gs1 = xs"
    "others_kept (set (x # xs)) head s s1" "nxt (tr_links s) x = hd (xs @ [head])" "x \<noteq> head" "x \<noteq> 0"
    using remove_first [OF Cons.prems(1)] Cons.hyps(2) by metis
  have d: "insert head (set (x # xs)) \<inter> set (tmp # concat gs2) = {}" using Cons.prems(3) Cons.hyps(2) by (metis list.set(2))
  note t1 = grouped_frame [OF Cons.prems(2) r1(4) d]
  have xn: "x \<notin> set (tmp # concat gs2)" using d by auto
  have okx: "ok x" using Cons.prems(4) Cons.hyps(2) by (metis list.set_intros(1))
  obtain s2 gs2' where r2: "sorted_list_add_track cmp tmp x 0 (with_root r s1) = Some s2" "grouped cmp tmp s2 gs2'"
    "concat gs2' = insert_track cmp 0 x (concat gs2)" "others_kept (set (x # concat gs2)) tmp s1 s2"
    using add_track [OF t1 xn r1(7) okx Cons.prems(5), of 0] by auto
  have dist: "distinct (head # x # xs)" using grouped_nodes(1) [OF Cons.prems(1)] Cons.hyps(2) by metis
  have d2: "insert tmp (set (x # concat gs2)) \<inter> set (head # concat gs1) = {}" using d dist r1(3) by auto
  have g1: "grouped cmp0 head (with_root (root_of s1) s2) gs1"
    by (rule grouped_frame [OF _ r2(4) d2]) (simp add: r1(2))
  have st: "set (concat gs2') = insert x (set (concat gs2))" unfolding r2(3) by (rule set_insert_track)
  have "\<exists>r' s' gs'. rebuild_loop cmp head tmp (hd (concat gs1 @ [head])) (root_of s2) (with_root (root_of s1) s2) = Some (r', s') \<and>
      grouped cmp tmp (with_root r' s') gs' \<and> concat gs' = fold (insert_track cmp 0) (concat gs1) (concat gs2')"
  proof (rule Cons.hyps(1))
    show "xs = concat gs1" by (simp add: r1(3))
    show "grouped cmp tmp (with_root (root_of s2) (with_root (root_of s1) s2)) gs2'" using r2(2) by simp
    show "set (head # concat gs1) \<inter> set (tmp # concat gs2') = {}" using d dist st r1(3) by auto
    show "\<forall>a \<in> set (concat gs1). ok a" using Cons.prems(4) Cons.hyps(2) r1(3) by (metis list.set_intros(2))
    show "\<forall>a \<in> set (concat gs2'). ok a" using Cons.prems(5) st okx by auto
  qed (use g1 in simp)
  moreover have "rebuild_loop cmp head tmp (hd (concat gs @ [head])) r s =
      rebuild_loop cmp head tmp (hd (concat gs1 @ [head])) (root_of s2) (with_root (root_of s1) s2)"
    using r1 r2(1) unfolding Cons.hyps(2) [symmetric] by (subst rebuild_loop.simps) simp
  ultimately show ?case unfolding Cons.hyps(2) [symmetric] using r1(3) r2(3) by simp
qed

lemma take_over_grouped:
  assumes "grouped cmp tmp (with_root r s) gs" "gs \<noteq> []" "head \<notin> set (concat gs)"
  shows "grouped cmp head (take_over head tmp r s) gs"
proof -
  have "concat gs \<noteq> []" using hd_concat grouped_nodes(4) [OF assms(1)] assms(2) by blast
  then show ?thesis using assms(1) ring_take_over [of "tr_links s" tmp "concat gs" head] assms(3) by (simp add: grouped_def take_over_def)
qed

lemma rebuild:
  assumes "grouped cmp0 head s gs" "concat gs \<noteq> []" "tmp \<notin> set (head # concat gs)" "\<forall>a \<in> set (concat gs). ok a"
  shows "\<exists>s' gs'. sorted_list_rebuild cmp head tmp s = Some s' \<and> grouped cmp head s' gs' \<and>
    concat gs' = fold (insert_track cmp 0) (concat gs) []"
proof -
  note n = grouped_nodes [OF assms(1)]
  let ?s = "s\<lparr>tr_links := list_init tmp (tr_links s)\<rparr>"
  have k: "others_kept {} tmp s ?s" by (simp add: others_kept_def list_init_list)
  have s: "grouped cmp0 head (with_root (root_of s) s) gs" "insert tmp {} \<inter> set (head # concat gs) = {}" using assms(1,3) by auto
  have "grouped cmp0 head (with_root (root_of s) ?s) gs" by (rule grouped_frame [OF s(1) k s(2)])
  moreover have "with_root (root_of s) ?s = ?s" by (simp add: with_root_def root_of_def)
  ultimately have g: "grouped cmp0 head ?s gs" by simp
  have t: "grouped cmp tmp (with_root 0 ?s) []" by (rule grouped_empty) (simp_all add: list_init_list)
  have nx: "nxt (tr_links ?s) head = hd (concat gs @ [head])" using g is_list_ends(1) by (simp add: grouped_def)
  obtain r' s' gs' where l: "rebuild_loop cmp head tmp (hd (concat gs @ [head])) 0 ?s = Some (r', s')" "grouped cmp tmp (with_root r' s') gs'"
    "concat gs' = fold (insert_track cmp 0) (concat gs) []"
  proof -
    have "set (head # concat gs) \<inter> set (tmp # concat []) = {}" "\<forall>a \<in> set (concat []). ok a" using assms(3) by auto
    from rebuild_loop [OF g t this(1) assms(4) this(2)] show thesis using that by force
  qed
  have st: "set (fold (insert_track cmp 0) xs ys) = set xs \<union> set ys" for xs ys
  proof (induction xs arbitrary: ys)
    case (Cons x xs)
    then show ?case by (simp add: set_insert_track)
  qed simp
  have eq: "set (concat gs') = set (concat gs)" unfolding l(3) st by simp
  then have "concat gs' \<noteq> []" using assms(2) by (metis set_empty)
  then have "gs' \<noteq> []" by auto
  moreover have "head \<notin> set (concat gs')" unfolding eq using n(1) by simp
  ultimately have "grouped cmp head (take_over head tmp r' s') gs'" using take_over_grouped [OF l(2)] by metis
  moreover have "sorted_list_rebuild cmp head tmp s = Some (take_over head tmp r' s')"
    using l(1) nx by (simp add: sorted_list_rebuild_def Let_def)
  ultimately show ?thesis using l(3) by blast
qed

end

section \<open>Rebuilding in random order\<close>

text \<open>
  \<^verbatim>\<open>shuffle_array\<close> of \<^verbatim>\<open>misc.c\<close>: \<open>rnd i\<close> is the value of the call of \<open>rand\<close> in round \<open>i\<close>, at most \<open>rand_max\<close>. \<open>swap_at\<close> are the three calls of
  \<open>memcpy\<close>, which fault outside of the array.
\<close>

definition swap_at :: "nat \<Rightarrow> nat \<Rightarrow> 'a list \<Rightarrow> 'a list option" where
  "swap_at i j arr = (if i < length arr \<and> j < length arr then Some (arr[j := arr ! i, i := arr ! j]) else None)"

function shuffle_loop :: "nat \<Rightarrow> (nat \<Rightarrow> nat) \<Rightarrow> nat \<Rightarrow> 'a list \<Rightarrow> 'a list option" where
  "shuffle_loop rand_max rnd i arr =
     (let n = length arr
      in if i + 1 < n
         then do { let j = i + rnd i div (rand_max div (n - i) + 1);
                   arr' \<leftarrow> swap_at i j arr;
                   shuffle_loop rand_max rnd (i + 1) arr' }
         else Some arr)"
  by auto
termination by (relation "measure (\<lambda>(m, r, i, arr). length arr - i)") (auto simp: swap_at_def split: if_splits)

declare shuffle_loop.simps [simp del]

definition shuffle_array :: "nat \<Rightarrow> (nat \<Rightarrow> nat) \<Rightarrow> 'a list \<Rightarrow> 'a list option" where
  "shuffle_array rand_max rnd arr = shuffle_loop rand_max rnd 0 arr"

text \<open>The two loops of \<open>rand_list_rebuild\<close>; \<open>list_for_each_safe\<close> stores the tracks in the array.\<close>

partial_function (option) take_all :: "addr \<Rightarrow> addr \<Rightarrow> tracks \<Rightarrow> (nat list \<times> tracks) option" where
  [code]: "take_all head item s =
     (if item = head then Some ([], s)
      else do { let after = nxt (tr_links s) item;
                s \<leftarrow> sorted_list_remove_track head item s;
                (r, s) \<leftarrow> take_all head after s;
                Some (item # r, s) })"

primrec add_all :: "(nat \<Rightarrow> nat \<Rightarrow> int) \<Rightarrow> addr \<Rightarrow> nat list \<Rightarrow> tracks \<Rightarrow> tracks option" where
  "add_all cmp head [] s = Some s"
| "add_all cmp head (x # xs) s = do { s \<leftarrow> sorted_list_add_track cmp head x 0 s; add_all cmp head xs s }"

definition rand_list_rebuild :: "nat \<Rightarrow> (nat \<Rightarrow> nat) \<Rightarrow> addr \<Rightarrow> addr \<Rightarrow> tracks \<Rightarrow> tracks option" where
  "rand_list_rebuild rand_max rnd head tmp_head s =
     do { let s = s\<lparr>tr_links := list_init tmp_head (tr_links s)\<rparr>;
          (arr, s) \<leftarrow> take_all head (nxt (tr_links s) head) s;
          arr \<leftarrow> shuffle_array rand_max rnd arr;
          s \<leftarrow> add_all (\<lambda>_ _. 0) tmp_head arr (with_root 0 s);
          Some (take_over head tmp_head (root_of s) s) }"

lemma shuffle_loop:
  assumes "\<forall>k. rnd k \<le> rand_max"
  shows "\<exists>arr'. shuffle_loop rand_max rnd i arr = Some arr' \<and> mset arr' = mset arr"
proof (induction "length arr - i" arbitrary: i arr)
  case 0
  then show ?case by (subst shuffle_loop.simps) simp
next
  case (Suc k)
  let ?n = "length arr"
  let ?d = "rnd i div (rand_max div (?n - i) + 1)"
  show ?case
  proof (cases "i + 1 < ?n")
    case True
    have "rand_max < (?n - i) * (rand_max div (?n - i) + 1)"
      using True by (metis Suc_eq_plus1 add_diff_cancel_left' add_lessD1 dividend_less_times_div mult.commute mult_Suc_right zero_less_diff)
    then have "rnd i < (?n - i) * (rand_max div (?n - i) + 1)" using assms le_less_trans by blast
    then have "?d < ?n - i" by (simp add: less_mult_imp_div_less)
    then have j: "i + ?d < ?n" by simp
    let ?arr = "arr[i + ?d := arr ! i, i := arr ! (i + ?d)]"
    have m: "mset ?arr = mset arr" "length ?arr = ?n" using mset_swap [of "i" arr "i + ?d"] j True by (auto simp: list_update_swap)
    have "k = length ?arr - (i + 1)" using Suc.hyps(2) by simp
    from Suc.hyps(1) [OF this] obtain arr' where a: "shuffle_loop rand_max rnd (i + 1) ?arr = Some arr'" "mset arr' = mset ?arr" by blast
    have "swap_at i (i + ?d) arr = Some ?arr" using True j by (simp add: swap_at_def)
    then have "shuffle_loop rand_max rnd i arr = Some arr'" using True a(1) by (subst shuffle_loop.simps) (simp add: Let_def)
    then show ?thesis using a(2) m(1) by metis
  qed (subst shuffle_loop.simps, simp)
qed

lemma take_all:
  assumes "grouped cmp0 head s gs"
  shows "\<exists>s'. take_all head (hd (concat gs @ [head])) s = Some (concat gs, s') \<and> grouped cmp0 head s' [] \<and> others_kept (set (concat gs)) head s s'"
  using assms
proof (induction "concat gs" arbitrary: gs s)
  case Nil
  have "take_all head (hd (concat gs @ [head])) s = Some ([], s)" unfolding Nil.hyps [symmetric] by (subst take_all.simps) simp
  moreover have "gs = []" using grouped_none [OF Nil.prems] Nil.hyps by simp
  ultimately show ?case using Nil.prems by (intro exI [of _ s]) (simp add: others_kept_def)
next
  case (Cons x xs)
  obtain s1 gs1 where r1: "sorted_list_remove_track head x s = Some s1" "grouped cmp0 head s1 gs1" "concat gs1 = xs"
    "others_kept (set (x # xs)) head s s1" "nxt (tr_links s) x = hd (xs @ [head])" "x \<noteq> head"
    using remove_first [OF Cons.prems] Cons.hyps(2) by metis
  obtain s2 where r2: "take_all head (hd (xs @ [head])) s1 = Some (xs, s2)" "grouped cmp0 head s2 []" "others_kept (set xs) head s1 s2"
    using Cons.hyps(1) [OF r1(3) [symmetric] r1(2)] r1(3) by auto
  have "take_all head (hd (concat gs @ [head])) s = Some (x # xs, s2)"
    unfolding Cons.hyps(2) [symmetric] using r1 r2(1) by (subst take_all.simps) simp
  moreover have "others_kept (set (x # xs)) head s s2"
    using r1(4) r2(3) same_outside_trans [of _ "tr_links s" "tr_links s1" _ "tr_links s2" "insert head (set (x # xs))"]
    by (auto simp: others_kept_def)
  ultimately show ?case unfolding Cons.hyps(2) [symmetric] using r2(2) by blast
qed

interpretation no_order: track_order "\<lambda>_. True" "\<lambda>_ _. 0"
  by unfold_locales simp_all

lemma insert_last: "insert_track (\<lambda>_ _. 0) 0 x xs = xs @ [x]"
  using insert_track_at [of xs 0 "\<lambda>_ _. 0" x "[]"] by simp

lemma add_all:
  assumes "grouped (\<lambda>_ _. 0) tmp s gs" "distinct (tmp # concat gs @ xs)" "0 \<notin> set xs"
  shows "\<exists>s' gs'. add_all (\<lambda>_ _. 0) tmp xs s = Some s' \<and> grouped (\<lambda>_ _. 0) tmp s' gs' \<and> concat gs' = concat gs @ xs"
  using assms
proof (induction xs arbitrary: s gs)
  case (Cons x xs)
  have "x \<notin> set (tmp # concat gs)" "x \<noteq> 0" using Cons.prems(2,3) by auto
  then obtain s1 gs1 where r: "sorted_list_add_track (\<lambda>_ _. 0) tmp x 0 s = Some s1" "grouped (\<lambda>_ _. 0) tmp s1 gs1" "concat gs1 = concat gs @ [x]"
    using no_order.add_track [OF Cons.prems(1), of x 0] by (auto simp: insert_last simp del: set_concat)
  have "distinct (tmp # concat gs1 @ xs)" "0 \<notin> set xs" using Cons.prems(2,3) r(3) by (auto simp del: set_concat)
  from Cons.IH [OF r(2) this] show ?case using r(1,3) by simp
qed auto

lemma rand_rebuild:
  assumes "grouped cmp0 head s gs" "concat gs \<noteq> []" "tmp \<notin> set (head # concat gs)" "\<forall>k. rnd k \<le> rand_max"
  shows "\<exists>s' gs'. rand_list_rebuild rand_max rnd head tmp s = Some s' \<and> grouped (\<lambda>_ _. 0) head s' gs' \<and>
    shuffle_array rand_max rnd (concat gs) = Some (concat gs') \<and> mset (concat gs') = mset (concat gs)"
proof -
  note n = grouped_nodes [OF assms(1)]
  let ?s = "s\<lparr>tr_links := list_init tmp (tr_links s)\<rparr>"
  have k: "others_kept {} tmp s ?s" by (simp add: others_kept_def list_init_list)
  have s: "grouped cmp0 head (with_root (root_of s) s) gs" "insert tmp {} \<inter> set (head # concat gs) = {}" using assms(1,3) by auto
  have "grouped cmp0 head (with_root (root_of s) ?s) gs" by (rule grouped_frame [OF s(1) k s(2)])
  moreover have "with_root (root_of s) ?s = ?s" by (simp add: with_root_def root_of_def)
  ultimately have g: "grouped cmp0 head ?s gs" by simp
  have nx: "nxt (tr_links ?s) head = hd (concat gs @ [head])" using g is_list_ends(1) by (simp add: grouped_def)
  obtain s1 where r1: "take_all head (hd (concat gs @ [head])) ?s = Some (concat gs, s1)" "others_kept (set (concat gs)) head ?s s1"
    using take_all [OF g] by blast
  obtain ys where ys: "shuffle_array rand_max rnd (concat gs) = Some ys" "mset ys = mset (concat gs)"
    using shuffle_loop [OF assms(4)] unfolding shuffle_array_def by blast
  have sy: "set ys = set (concat gs)" "distinct ys" "ys \<noteq> []"
  proof -
    show "set ys = set (concat gs)" by (rule mset_eq_setD [OF ys(2)])
    then show "ys \<noteq> []" using assms(2) by (metis set_empty)
    show "distinct ys" using mset_eq_imp_distinct_iff [OF ys(2)] n(1) by simp
  qed
  have "grouped (\<lambda>_ _. 0) tmp (with_root 0 ?s) []" by (rule grouped_empty) (simp_all add: list_init_list)
  then have t: "grouped (\<lambda>_ _. 0) tmp (with_root 0 s1) []"
    using grouped_frame [of "\<lambda>_ _. 0" tmp 0 ?s "[]" "set (concat gs)" head s1] r1(2) assms(3) by auto
  have "distinct (tmp # concat [] @ ys)" "0 \<notin> set ys" using sy assms(3) n(2) by auto
  from add_all [OF t this] obtain s2 gs' where r2: "add_all (\<lambda>_ _. 0) tmp ys (with_root 0 s1) = Some s2" "grouped (\<lambda>_ _. 0) tmp s2 gs'" "concat gs' = ys"
    by auto
  have "grouped (\<lambda>_ _. 0) tmp (with_root (root_of s2) s2) gs'" "gs' \<noteq> []" "head \<notin> set (concat gs')"
    using r2(2,3) sy n(1) by auto
  then have "grouped (\<lambda>_ _. 0) head (take_over head tmp (root_of s2) s2) gs'" by (rule no_order.take_over_grouped)
  moreover have "rand_list_rebuild rand_max rnd head tmp s = Some (take_over head tmp (root_of s2) s2)"
    using r1(1) ys(1) r2(1) nx by (simp add: rand_list_rebuild_def Let_def)
  ultimately show ?thesis using ys r2(3) by auto
qed

section \<open>Walking the list\<close>

text \<open>
  \<open>simple_list_get_next\<close> and \<open>simple_list_get_prev\<close>: \<open>step\<close> is \<open>next\<close> or \<open>prev\<close> of the ring, \<open>filter_cb\<close> the filter on albums
  (always true when there is none) and \<open>wrap\<close> is \<open>allow_repeat && repeat\<close>. The loop has no end when no track passes the filter and \<open>wrap\<close> is set.
\<close>

partial_function (option) get_loop :: "(addr \<Rightarrow> addr) \<Rightarrow> addr \<Rightarrow> (nat \<Rightarrow> bool) \<Rightarrow> bool \<Rightarrow> addr \<Rightarrow> nat option" where
  [code]: "get_loop step head filter_cb wrap item =
     (if item = head then (if wrap then get_loop step head filter_cb wrap (step head) else Some 0)
      else if filter_cb item then Some item
      else get_loop step head filter_cb wrap (step item))"

definition simple_list_get :: "(addr \<Rightarrow> addr) \<Rightarrow> addr \<Rightarrow> nat \<Rightarrow> (nat \<Rightarrow> bool) \<Rightarrow> bool \<Rightarrow> bool \<Rightarrow> nat option" where
  "simple_list_get step head cur filter_cb allow_repeat repeat =
     (if cur = 0 then (if \<not> allow_repeat then Some 0 else Some (step head))
      else get_loop step head filter_cb (allow_repeat \<and> repeat) (step cur))"

definition simple_list_get_next :: "addr \<Rightarrow> nat \<Rightarrow> (nat \<Rightarrow> bool) \<Rightarrow> bool \<Rightarrow> bool \<Rightarrow> links \<Rightarrow> nat option" where
  "simple_list_get_next head cur filter_cb allow_repeat repeat h = simple_list_get (nxt h) head cur filter_cb allow_repeat repeat"

definition simple_list_get_prev :: "addr \<Rightarrow> nat \<Rightarrow> (nat \<Rightarrow> bool) \<Rightarrow> bool \<Rightarrow> bool \<Rightarrow> links \<Rightarrow> nat option" where
  "simple_list_get_prev head cur filter_cb allow_repeat repeat h = simple_list_get (prv h) head cur filter_cb allow_repeat repeat"

text \<open>
  The loops of \<open>simple_list_for_each\<close> and \<open>simple_list_for_each_marked\<close>: the callback \<open>cb\<close> takes and gives its data \<open>d\<close> and leaves the
  ring alone; a result other than 0 ends the loop.
\<close>

partial_function (option) each_track :: "(addr \<Rightarrow> addr) \<Rightarrow> addr \<Rightarrow> (nat \<Rightarrow> bool) \<Rightarrow> (nat \<Rightarrow> 'd \<Rightarrow> int \<times> 'd) \<Rightarrow> addr \<Rightarrow> 'd \<Rightarrow> (int \<times> 'd) option" where
  [code]: "each_track step head wanted cb t d =
     (if t = head then Some (0, d)
      else if wanted t
      then (case cb t d of (rc, d) \<Rightarrow> if rc \<noteq> 0 then Some (rc, d) else each_track step head wanted cb (step t) d)
      else each_track step head wanted cb (step t) d)"

definition simple_list_for_each_marked :: "addr \<Rightarrow> (nat \<Rightarrow> bool) \<Rightarrow> (nat \<Rightarrow> 'd \<Rightarrow> int \<times> 'd) \<Rightarrow> 'd \<Rightarrow> bool \<Rightarrow> links \<Rightarrow> (int \<times> 'd) option" where
  "simple_list_for_each_marked head marked cb d reverse h =
     (if reverse then each_track (prv h) head marked cb (prv h head) d else each_track (nxt h) head marked cb (nxt h head) d)"

definition simple_list_for_each :: "addr \<Rightarrow> (nat \<Rightarrow> 'd \<Rightarrow> int \<times> 'd) \<Rightarrow> 'd \<Rightarrow> bool \<Rightarrow> links \<Rightarrow> (int \<times> 'd) option" where
  "simple_list_for_each head cb d reverse h =
     (if reverse then each_track (prv h) head (\<lambda>_. True) cb (prv h head) d else each_track (nxt h) head (\<lambda>_. True) cb (nxt h head) d)"

text \<open>A callback on a sequence, up to the first result other than 0.\<close>

primrec until_rc :: "('a \<Rightarrow> 'd \<Rightarrow> int \<times> 'd) \<Rightarrow> 'a list \<Rightarrow> 'd \<Rightarrow> int \<times> 'd" where
  "until_rc cb [] d = (0, d)"
| "until_rc cb (x # xs) d = (case cb x d of (rc, d) \<Rightarrow> if rc \<noteq> 0 then (rc, d) else until_rc cb xs d)"

text \<open>A walk along \<open>step\<close> through the nodes \<open>xs\<close> to the head.\<close>

fun leads :: "(addr \<Rightarrow> addr) \<Rightarrow> addr list \<Rightarrow> addr \<Rightarrow> bool" where
  "leads step [] head \<longleftrightarrow> True"
| "leads step (x # xs) head \<longleftrightarrow> step x = hd (xs @ [head]) \<and> leads step xs head"

lemma leads_next: "linked h (xs @ [head]) \<Longrightarrow> leads (nxt h) xs head"
  by (induction xs) (auto simp: linked_Cons)

lemma leads_snoc: "leads step (xs @ [x]) head \<longleftrightarrow> step x = head \<and> leads step xs x"
  by (induction xs) (auto simp: hd_append)

lemma leads_prev: "linked h (head # xs) \<Longrightarrow> leads (prv h) (rev xs) head"
proof (induction xs arbitrary: head)
  case (Cons x xs)
  then show ?case by (simp add: linked_Cons leads_snoc)
qed simp

lemma ring_leads:
  assumes "is_list h head xs"
  shows "leads (nxt h) xs head" "leads (prv h) (rev xs) head" "nxt h head = hd (xs @ [head])" "prv h head = hd (rev xs @ [head])" "head \<notin> set xs"
proof -
  have l: "linked h (head # xs)" "linked h (xs @ [head])" "head \<notin> set xs"
    using assms is_list_split [of h head "[]" xs] is_list_split [of h head xs "[]"] by auto
  show "leads (nxt h) xs head" "leads (prv h) (rev xs) head" using leads_next l leads_prev by blast+
  show "nxt h head = hd (xs @ [head])" "head \<notin> set xs" using is_list_ends [OF assms] l by simp_all
  show "prv h head = hd (rev xs @ [head])" using is_list_ends(2) [OF assms] by (cases xs rule: rev_cases) simp_all
qed

lemma each_track:
  "leads step xs head \<Longrightarrow> head \<notin> set xs \<Longrightarrow> each_track step head wanted cb (hd (xs @ [head])) d = Some (until_rc cb (filter wanted xs) d)"
proof (induction xs arbitrary: d)
  case Nil
  then show ?case by (subst each_track.simps) simp
next
  case (Cons x xs)
  then show ?case by (subst each_track.simps) (auto split: prod.splits)
qed

lemma for_each_walks:
  assumes "is_list h head xs"
  shows "simple_list_for_each head cb d reverse h = Some (until_rc cb (if reverse then rev xs else xs) d)"
    "simple_list_for_each_marked head marked cb d reverse h = Some (until_rc cb (filter marked (if reverse then rev xs else xs)) d)"
proof -
  note r = ring_leads [OF assms]
  have n: "head \<notin> set (rev xs)" using r(5) by simp
  show "simple_list_for_each head cb d reverse h = Some (until_rc cb (if reverse then rev xs else xs) d)"
    "simple_list_for_each_marked head marked cb d reverse h = Some (until_rc cb (filter marked (if reverse then rev xs else xs)) d)"
    by (simp_all add: simple_list_for_each_def simple_list_for_each_marked_def r(3,4) each_track [OF r(1,5)] each_track [OF r(2) n])
qed

text \<open>The first of \<open>xs\<close> that passes, or 0.\<close>

definition first_ok :: "(nat \<Rightarrow> bool) \<Rightarrow> nat list \<Rightarrow> nat" where
  "first_ok p xs = head0 (filter p xs)"

lemma get_part:
  "leads step xs head \<Longrightarrow> head \<notin> set xs \<Longrightarrow> get_loop step head p wrap (hd (xs @ [head])) =
     (if filter p xs \<noteq> [] then Some (first_ok p xs) else get_loop step head p wrap head)"
proof (induction xs)
  case (Cons x xs)
  then show ?case by (subst get_loop.simps) (auto simp: first_ok_def)
qed simp

lemma leads_append: "leads step (xs @ ys) head \<longleftrightarrow> leads step xs (hd (ys @ [head])) \<and> leads step ys head"
  by (induction xs) (auto simp: hd_append)

lemma get_walk:
  assumes l: "leads step (xs @ cur # ys) head" "step head = hd (xs @ cur # ys)" and n: "head \<notin> set (xs @ cur # ys)" "cur \<noteq> 0"
    and wrap: "allow_repeat \<and> repeat \<longrightarrow> filter p (xs @ cur # ys) \<noteq> []"
  shows "simple_list_get step head cur p allow_repeat repeat =
    Some (first_ok p (ys @ (if allow_repeat \<and> repeat then xs @ [cur] else [])))"
proof -
  have c: "step cur = hd (ys @ [head])" and ly: "leads step ys head" using l(1) by (auto simp: leads_append)
  have eq: "simple_list_get step head cur p allow_repeat repeat =
      (if filter p ys \<noteq> [] then Some (first_ok p ys) else get_loop step head p (allow_repeat \<and> repeat) head)"
    using get_part [OF ly, of p "allow_repeat \<and> repeat"] n c by (simp add: simple_list_get_def)
  show ?thesis
  proof (cases "allow_repeat \<and> repeat \<and> filter p ys = []")
    case True
    then have r: "get_loop step head p True head = Some (first_ok p (xs @ cur # ys))"
      using get_part [OF l(1) n(1), of p True] wrap l(2) by (subst get_loop.simps) (auto simp: hd_append split: if_splits)
    have "first_ok p (xs @ cur # ys) = first_ok p (ys @ xs @ [cur])" using True by (simp add: first_ok_def)
    then show ?thesis using eq r True by simp
  next
    case False
    have "get_loop step head p False head = Some 0" by (subst get_loop.simps) simp
    then show ?thesis using eq False by (auto simp: first_ok_def head0_append)
  qed
qed

section \<open>Stable sorting\<close>

definition stable_sort :: "(nat \<Rightarrow> nat \<Rightarrow> int) \<Rightarrow> nat list \<Rightarrow> nat list \<Rightarrow> bool" where
  "stable_sort cmp xs ys \<longleftrightarrow> mset ys = mset xs \<and> sorted_wrt (\<lambda>a b. cmp a b \<le> 0) ys \<and>
     (\<forall>z \<in> set xs. filter (\<lambda>y. cmp z y = 0) ys = filter (\<lambda>y. cmp z y = 0) xs)"

context track_order
begin

lemma insert_parts:
  assumes "sorted_wrt (\<lambda>a b. cmp a b \<le> 0) ys" "\<forall>y \<in> set ys. ok y" "ok x"
  shows "\<exists>us vs. ys = us @ vs \<and> insert_track cmp 0 x ys = us @ x # vs \<and> (\<forall>y \<in> set us. cmp y x \<le> 0) \<and> (\<forall>y \<in> set vs. cmp x y < 0)"
proof -
  let ?p = "\<lambda>y. cmp y x \<le> 0"
  let ?us = "takeWhile ?p ys" and ?vs = "dropWhile ?p ys"
  have "cmp x y < 0" if "y \<in> set ?vs" for y
  proof -
    have "?vs \<noteq> []" using that by force
    then obtain w r where w: "?vs = w # r" by (meson neq_Nil_conv)
    then have "\<not> ?p w" by (metis hd_dropWhile list.sel(1) list.distinct(1))
    moreover have "sorted_wrt (\<lambda>a b. cmp a b \<le> 0) ?vs" using assms(1) by (metis sorted_wrt_append takeWhile_dropWhile_id)
    moreover have "set ?vs \<subseteq> set ys" by (rule set_dropWhileD [THEN subsetI])
    ultimately have wy: "cmp w y \<le> 0 \<or> y = w" "ok w" "ok y" "cmp w x > 0" using w that assms(2) by auto
    have "cmp y x > 0"
    proof (rule ccontr)
      assume "\<not> cmp y x > 0"
      then have "cmp w x \<le> 0" using wy trans [of w y x] assms(3) by auto
      then show False using wy(4) by simp
    qed
    then show ?thesis using swap_sign(2) [of y x] wy(3) assms(3) by simp
  qed
  moreover have "insert_track cmp 0 x ys = ?us @ x # ?vs" by (simp add: insert_track_def Let_def)
  ultimately show ?thesis by (intro exI [of _ ?us] exI [of _ ?vs]) (auto dest: set_takeWhileD)
qed

lemma insert_stable:
  assumes "sorted_wrt (\<lambda>a b. cmp a b \<le> 0) ys" "\<forall>y \<in> set ys. ok y" "ok x"
  shows "sorted_wrt (\<lambda>a b. cmp a b \<le> 0) (insert_track cmp 0 x ys)"
    "ok z \<Longrightarrow> filter (\<lambda>y. cmp z y = 0) (insert_track cmp 0 x ys) = filter (\<lambda>y. cmp z y = 0) (ys @ [x])"
proof -
  obtain us vs where p: "ys = us @ vs" "insert_track cmp 0 x ys = us @ x # vs" "\<forall>y \<in> set us. cmp y x \<le> 0" "\<forall>y \<in> set vs. cmp x y < 0"
    using insert_parts [OF assms] by blast
  show "sorted_wrt (\<lambda>a b. cmp a b \<le> 0) (insert_track cmp 0 x ys)"
    using assms(1) p unfolding p(2) by (auto simp: sorted_wrt_append intro: order_less_imp_le)
  assume z: "ok z"
  have "filter (\<lambda>y. cmp z y = 0) vs = []" if "cmp z x = 0"
  proof -
    have "cmp z y < 0" if "y \<in> set vs" for y
      using strict_right [of z x y] z assms(2,3) p(1,4) that \<open>cmp z x = 0\<close> by auto
    then have "\<forall>y \<in> set vs. \<not> cmp z y = 0" by fastforce
    then show ?thesis by (rule filter_False)
  qed
  then show "filter (\<lambda>y. cmp z y = 0) (insert_track cmp 0 x ys) = filter (\<lambda>y. cmp z y = 0) (ys @ [x])"
    unfolding p(2) by (simp add: p(1))
qed

lemma fold_stable:
  assumes "sorted_wrt (\<lambda>a b. cmp a b \<le> 0) ys" "\<forall>y \<in> set (xs @ ys). ok y"
  shows "sorted_wrt (\<lambda>a b. cmp a b \<le> 0) (fold (insert_track cmp 0) xs ys) \<and> mset (fold (insert_track cmp 0) xs ys) = mset xs + mset ys \<and>
    (\<forall>z. ok z \<longrightarrow> filter (\<lambda>y. cmp z y = 0) (fold (insert_track cmp 0) xs ys) = filter (\<lambda>y. cmp z y = 0) (ys @ xs))"
  using assms
proof (induction xs arbitrary: ys)
  case (Cons x xs)
  have "\<forall>y \<in> set ys. ok y" "ok x" using Cons.prems(2) by auto
  note i = insert_stable [OF Cons.prems(1) this]
  have "\<forall>y \<in> set (xs @ insert_track cmp 0 x ys). ok y" using Cons.prems(2) by (simp add: set_insert_track)
  from Cons.IH [OF i(1) this] show ?case using i(2) by (simp add: set_insert_track)
qed simp

lemma fold_stable_sort: "\<forall>y \<in> set xs. ok y \<Longrightarrow> stable_sort cmp xs (fold (insert_track cmp 0) xs [])"
  using fold_stable [of "[]" xs] by (simp add: stable_sort_def)

end

section \<open>The operations on the tracks of the program\<close>

text \<open>\<open>info\<close> gives the track's \<open>track_info\<close>.\<close>

definition track_cmp :: "clib \<Rightarrow> sort_key list \<Rightarrow> (nat \<Rightarrow> track_info) \<Rightarrow> nat \<Rightarrow> nat \<Rightarrow> int" where
  "track_cmp cl keys info a b = track_info_cmp cl keys (info a) (info b)"

datatype list_op = Add_track nat int | Remove_track nat

fun run_list :: "clib \<Rightarrow> sort_key list \<Rightarrow> (nat \<Rightarrow> track_info) \<Rightarrow> addr \<Rightarrow> list_op \<Rightarrow> tracks \<Rightarrow> tracks option" where
  "run_list cl keys info head (Add_track x tiebreak) s = sorted_list_add_track (track_cmp cl keys info) head x tiebreak s"
| "run_list cl keys info head (Remove_track x) s = sorted_list_remove_track head x s"

text \<open>Their meaning on the sequence.\<close>

fun list_meaning :: "clib \<Rightarrow> sort_key list \<Rightarrow> (nat \<Rightarrow> track_info) \<Rightarrow> list_op \<Rightarrow> nat list \<Rightarrow> nat list" where
  "list_meaning cl keys info (Add_track x tiebreak) xs = insert_track (track_cmp cl keys info) tiebreak x xs"
| "list_meaning cl keys info (Remove_track x) xs = remove1 x xs"

definition in_ring :: "addr \<Rightarrow> tracks \<Rightarrow> nat \<Rightarrow> bool" where
  "in_ring head s x \<longleftrightarrow> (case list_for_each (tr_links s) head (nxt (tr_links s) head) of None \<Rightarrow> False | Some xs \<Rightarrow> x \<in> set xs)"

text \<open>A track is added when it is not in the list and its tree node is cleared, as \<open>simple_track_init\<close> leaves it.\<close>

fun list_op_ok :: "(nat \<Rightarrow> track_info) \<Rightarrow> addr \<Rightarrow> list_op \<Rightarrow> tracks \<Rightarrow> bool" where
  "list_op_ok info head (Add_track x tiebreak) s \<longleftrightarrow> x \<noteq> 0 \<and> x \<noteq> head \<and> \<not> in_ring head s x \<and> cleared x s \<and> track_ok (info x)"
| "list_op_ok info head (Remove_track x) s \<longleftrightarrow> in_ring head s x"

definition list_rep :: "clib \<Rightarrow> sort_key list \<Rightarrow> (nat \<Rightarrow> track_info) \<Rightarrow> addr \<Rightarrow> tracks \<Rightarrow> nat list \<Rightarrow> bool" where
  "list_rep cl keys info head s xs \<longleftrightarrow> (\<exists>gs. grouped (track_cmp cl keys info) head s gs \<and> concat gs = xs \<and> rest_cleared s gs) \<and>
     (\<forall>x \<in> set xs. track_ok (info x))"

lemma track_order_cmp: "strcoll_ok (cl_strcoll cl) \<Longrightarrow> track_order (\<lambda>a. track_ok (info a)) (track_cmp cl keys info)"
  unfolding track_order_def track_cmp_def by (rule comparator_image [OF track_info_cmp_comparator])

lemma in_ring: "grouped cmp head s gs \<Longrightarrow> in_ring head s x \<longleftrightarrow> x \<in> set (concat gs)"
  using list_walks(1) [of "tr_links s" head "concat gs"] by (simp add: in_ring_def grouped_def del: set_concat)

fun added_track :: "list_op \<Rightarrow> nat set" where
  "added_track (Add_track x tiebreak) = {x}"
| "added_track (Remove_track x) = {}"

lemma list_step_kept:
  assumes "strcoll_ok (cl_strcoll cl)" "list_rep cl keys info head s xs" "list_op_ok info head c s"
  shows "\<exists>s'. run_list cl keys info head c s = Some s' \<and> list_rep cl keys info head s' (list_meaning cl keys info c xs) \<and>
    (\<forall>a. a \<notin> set xs \<longrightarrow> a \<notin> added_track c \<longrightarrow> cleared a s \<longrightarrow> cleared a s')"
proof -
  let ?cmp = "track_cmp cl keys info"
  note add = track_order.add_track [OF track_order_cmp [OF assms(1), of info keys]]
  obtain gs where g: "grouped ?cmp head s gs" "concat gs = xs" "rest_cleared s gs" and ok: "\<forall>x \<in> set xs. track_ok (info x)"
    using assms(2) by (auto simp: list_rep_def)
  show ?thesis
  proof (cases c)
    case (Add_track x tb)
    then have x: "x \<notin> set (head # concat gs)" "x \<noteq> 0" "cleared x s" "track_ok (info x)" using assms(3) in_ring [OF g(1)] by simp_all
    have "\<forall>y \<in> set (concat gs). track_ok (info y)" using ok g(2) by simp
    from add [OF g(1) x(1,2,4) this, of tb] show ?thesis
      using Add_track g(2,3) x(3,4) ok by (auto simp: list_rep_def set_insert_track others_kept_def cleared_def)
  next
    case (Remove_track x)
    then have "x \<in> set (concat gs)" using assms(3) in_ring [OF g(1)] by simp
    then obtain gr where "gr \<in> set gs" "x \<in> set gr" by auto
    then obtain as bs where gs: "gs = as @ gr # bs" "x \<in> set gr" by (meson split_list)
    then obtain us vs where gr: "gr = us @ x # vs" by (meson split_list)
    have d: "distinct (concat gs)" "groups ?cmp gs" using grouped_nodes [OF g(1)] by simp_all
    have "us = [] \<or> cleared x s"
    proof (rule disjCI)
      assume "\<not> cleared x s"
      then have "x \<in> set (map hd gs)" using \<open>x \<in> set (concat gs)\<close> g(3) by (auto simp: rest_cleared_def simp del: set_map set_concat)
      then have "x = hd gr" using heads_of_append d gs by metis
      then show "us = []" using d(1) gs(1) gr by (cases us) auto
    qed
    with remove_track [of ?cmp head s as us x vs bs] g(1,3) gs(1) gr obtain s' where
      s': "sorted_list_remove_track head x s = Some s'" "grouped ?cmp head s' (as @ (if us @ vs = [] then [] else [us @ vs]) @ bs)"
        "rest_cleared s' (as @ (if us @ vs = [] then [] else [us @ vs]) @ bs)" "others_kept (set (concat gs)) head s s'" by blast
    have "xs = (concat as @ us) @ x # (vs @ concat bs)" using g(2) gs(1) gr by simp
    moreover from this have "x \<notin> set (concat as @ us)" using d(1) g(2) by simp
    ultimately have "remove1 x xs = (concat as @ us) @ vs @ concat bs" by (simp add: remove1_append)
    also have "\<dots> = concat (as @ (if us @ vs = [] then [] else [us @ vs]) @ bs)" by simp
    finally have "list_rep cl keys info head s' (remove1 x xs)"
      unfolding list_rep_def using s'(2,3) ok notin_set_remove1 [of _ xs x] by (metis (no_types))
    moreover have "cleared a s \<longrightarrow> cleared a s'" if "a \<notin> set xs" for a using s'(4) g(2) that by (simp add: others_kept_def cleared_def)
    ultimately show ?thesis using Remove_track s'(1) by simp
  qed
qed

lemma list_step:
  "strcoll_ok (cl_strcoll cl) \<Longrightarrow> list_rep cl keys info head s xs \<Longrightarrow> list_op_ok info head c s \<Longrightarrow>
    \<exists>s'. run_list cl keys info head c s = Some s' \<and> list_rep cl keys info head s' (list_meaning cl keys info c xs)"
  using list_step_kept by blast

lemma in_ring_rep: "list_rep cl keys info head s xs \<Longrightarrow> in_ring head s x \<longleftrightarrow> x \<in> set xs"
  using in_ring by (auto simp: list_rep_def simp del: set_concat)

text \<open>New tracks are added once, and tracks of the list removed: \<open>U\<close> are the tracks used so far, \<open>C\<close> the list's.\<close>

fun fresh_use :: "(nat \<Rightarrow> track_info) \<Rightarrow> addr \<Rightarrow> nat set \<Rightarrow> nat set \<Rightarrow> list_op list \<Rightarrow> bool" where
  "fresh_use info head U C [] \<longleftrightarrow> True"
| "fresh_use info head U C (Add_track x tiebreak # ops) \<longleftrightarrow> x \<noteq> 0 \<and> x \<noteq> head \<and> x \<notin> U \<and> track_ok (info x) \<and>
     fresh_use info head (insert x U) (insert x C) ops"
| "fresh_use info head U C (Remove_track x # ops) \<longleftrightarrow> x \<in> C \<and> fresh_use info head U (C - {x}) ops"

lemma fresh_use:
  assumes "strcoll_ok (cl_strcoll cl)"
  shows "list_rep cl keys info head s xs \<Longrightarrow> set xs \<subseteq> U \<Longrightarrow> \<forall>a. a \<notin> U \<longrightarrow> cleared a s \<Longrightarrow> fresh_use info head U (set xs) ops \<Longrightarrow>
    all_ok (run_list cl keys info head) (list_op_ok info head) ops s"
proof (induction ops arbitrary: s xs U)
  case (Cons c ops)
  have d: "distinct xs" using Cons.prems(1) grouped_nodes(1) by (auto simp: list_rep_def)
  have ok: "list_op_ok info head c s" using Cons.prems in_ring_rep [OF Cons.prems(1)] by (cases c) auto
  obtain s' where s': "run_list cl keys info head c s = Some s'" "list_rep cl keys info head s' (list_meaning cl keys info c xs)"
    "\<forall>a. a \<notin> set xs \<longrightarrow> a \<notin> added_track c \<longrightarrow> cleared a s \<longrightarrow> cleared a s'"
    using list_step_kept [OF assms Cons.prems(1) ok] by blast
  have "all_ok (run_list cl keys info head) (list_op_ok info head) ops s'"
    by (rule Cons.IH [OF s'(2), of "U \<union> added_track c"])
      (use Cons.prems s'(3) d in \<open>cases c; auto simp: set_insert_track dest: notin_set_remove1\<close>)+
  then show ?case using ok s'(1) by simp
qed simp

lemma list_simulation:
  "strcoll_ok (cl_strcoll cl) \<Longrightarrow> simulation (run_list cl keys info head) (list_meaning cl keys info) (list_rep cl keys info head) (list_op_ok info head)"
  by (rule simulation.intro) (rule list_step)

text \<open>In the C locale, where the collation is \<open>strcmp\<close>.\<close>

interpretation c_lists: simulation "run_list (cl\<lparr>cl_strcoll := strcmp\<rparr>) keys info head" "list_meaning (cl\<lparr>cl_strcoll := strcmp\<rparr>) keys info"
  "list_rep (cl\<lparr>cl_strcoll := strcmp\<rparr>) keys info head" "list_op_ok info head" for cl keys info head
  by (rule list_simulation) (simp add: strcoll_ok_strcmp)

text \<open>Playing on: \<open>n\<close> times the next track.\<close>

primrec play_on :: "addr \<Rightarrow> links \<Rightarrow> nat \<Rightarrow> nat \<Rightarrow> nat option" where
  "play_on head h 0 cur = Some cur"
| "play_on head h (Suc n) cur = do { cur \<leftarrow> simple_list_get_next head cur (\<lambda>_. True) True True h; play_on head h n cur }"

lemma get_around:
  assumes "is_list h head xs" "0 \<notin> set xs" "i < length xs"
  shows "simple_list_get_next head (xs ! i) (\<lambda>_. True) True True h = Some (xs ! (Suc i mod length xs))"
proof -
  note r = ring_leads [OF assms(1)]
  have x: "xs = take i xs @ xs ! i # drop (Suc i) xs" using assms(3) by (rule id_take_nth_drop)
  have "xs ! i \<noteq> 0" "xs \<noteq> []" using assms(2,3) by (metis nth_mem, auto)
  moreover have "nxt h head = hd xs" using r(3) assms(3) by (cases xs) auto
  ultimately have g: "simple_list_get_next head (xs ! i) (\<lambda>_. True) True True h = Some (first_ok (\<lambda>_. True) (drop (Suc i) xs @ take i xs @ [xs ! i]))"
    using get_walk [of "nxt h" "take i xs" "xs ! i" "drop (Suc i) xs" head True True "\<lambda>_. True"] r(1,5) x
    by (simp add: simple_list_get_next_def)
  have "head0 (drop (Suc i) xs @ take i xs @ [xs ! i]) = xs ! (Suc i mod length xs)"
  proof (cases "Suc i < length xs")
    case True
    then show ?thesis using Cons_nth_drop_Suc [OF True, symmetric] by simp
  next
    case False
    then have i: "Suc i = length xs" using assms(3) by simp
    have "take i xs @ [xs ! i] = xs" using take_Suc_conv_app_nth [OF assms(3)] i by simp
    then show ?thesis using i \<open>xs \<noteq> []\<close> by (cases xs) simp_all
  qed
  then show ?thesis using g by (simp add: first_ok_def)
qed

lemma play_on_around:
  assumes "is_list h head xs" "0 \<notin> set xs"
  shows "i < length xs \<Longrightarrow> play_on head h n (xs ! i) = Some (xs ! ((i + n) mod length xs))"
proof (induction n arbitrary: i)
  case (Suc n)
  have "Suc i mod length xs < length xs" using Suc.prems by (intro mod_less_divisor) (cases xs, simp_all)
  then have "play_on head h n (xs ! (Suc i mod length xs)) = Some (xs ! ((Suc i + n) mod length xs))"
    using Suc.IH by (simp add: mod_add_left_eq)
  then show ?case using get_around [OF assms Suc.prems] by simp
qed simp

section \<open>A node that is not cleared\<close>

lemma erase_alone:
  assumes "b \<noteq> 0" "rb_parent (rb_nodes s b) = 0" "rb_child (rb_nodes s b) L = 0" "rb_child (rb_nodes s b) R = 0"
  shows "rb_erase b s = Some (s\<lparr>rb_root := 0\<rparr>)" "rb_step R b s = Some 0" "rb_empty_node b s = Some False"
proof -
  have "rb_erase_color 0 0 (s\<lparr>rb_root := 0\<rparr>) = Some (s\<lparr>rb_root := 0\<rparr>)"
    by (simp add: rb_erase_color_def erase_loop.simps erase_step_def red_child_def)
  then show "rb_erase b s = Some (s\<lparr>rb_root := 0\<rparr>)"
    using assms by (simp add: rb_erase_def take_out_def get_not_null replace_link_def)
  have "climb R b s = Some 0" using assms by (subst climb.simps) (simp add: get_not_null)
  then show "rb_step R b s = Some 0" "rb_empty_node b s = Some False"
    using assms by (simp_all add: rb_step_def rb_empty_node_def get_not_null)
qed

lemma alone:
  assumes "rb_holds s [b]"
  shows "b \<noteq> 0" "rb_parent (rb_nodes s b) = 0" "rb_child (rb_nodes s b) L = 0" "rb_child (rb_nodes s b) R = 0" "rb_root s = b"
proof -
  obtain t where t: "holds_tree (\<lambda>_. None) s t" "inorder t = [b]" using assms by (auto simp: rb_holds_def)
  then obtain c where "t = Node c Leaf b Leaf" by (cases t) (auto simp: append_eq_Cons_conv)
  then show "b \<noteq> 0" "rb_parent (rb_nodes s b) = 0" "rb_child (rb_nodes s b) L = 0" "rb_child (rb_nodes s b) R = 0" "rb_root s = b"
    using t(1) by (simp_all add: holds_tree_def focus_def)
qed

text \<open>The last track of a list, when its tree node has neither a parent nor children.\<close>

lemma remove_alone:
  assumes "nxt (tr_links s) b = head" "b \<noteq> 0" "rb_parent (rb_nodes (tr_rb s) b) = 0"
    "rb_child (rb_nodes (tr_rb s) b) L = 0" "rb_child (rb_nodes (tr_rb s) b) R = 0"
  shows "sorted_list_remove_track head b s = Some (s\<lparr>tr_rb := (tr_rb s)\<lparr>rb_root := 0\<rparr>, tr_links := list_del b (tr_links s)\<rparr>)"
  using assms erase_alone [OF assms(2-5)] by (simp add: sorted_list_remove_track_def)

lemma one_group: "groups cmp gs \<Longrightarrow> concat gs = [b] \<Longrightarrow> gs = [[b]]"
  by (cases gs) (auto simp: groups_Cons append_eq_Cons_conv dest: hd_concat)

lemma add_behind:
  assumes "grouped (\<lambda>_ _. 0) head s [[a]]"
  shows "sorted_list_add_track (\<lambda>_ _. 0) head x 0 s = Some (s\<lparr>tr_links := list_add x (prv (tr_links s) head) (tr_links s)\<rparr>)"
proof -
  have r: "rb_holds (tr_rb s) [a]" using assms by (simp add: grouped_def)
  have "locate (\<lambda>_. 0) 0 L 0 a (tr_rb s) = Some (a, L, 0)" using alone [OF r] by (subst locate.simps) (simp add: get_not_null)
  moreover have "rb_step R a (tr_rb s) = Some 0" using rb_steps [of "tr_rb s" "[]" a "[]"] r by simp
  ultimately show ?thesis using alone [OF r] by (simp add: sorted_list_add_track_def node_or_head_def)
qed

lemma rebuild_two:
  assumes "grouped cmp0 head s [[a], [b]]" "tmp \<notin> {head, a, b}"
  shows "\<exists>s'. sorted_list_rebuild (\<lambda>_ _. 0) head tmp s = Some s' \<and> is_list (tr_links s') head [a, b] \<and> b \<noteq> 0 \<and>
    rb_parent (rb_nodes (tr_rb s') b) = 0 \<and> rb_child (rb_nodes (tr_rb s') b) L = 0 \<and> rb_child (rb_nodes (tr_rb s') b) R = 0"
proof -
  let ?z = "\<lambda>_ _. 0 :: int"
  have d: "distinct [head, a, b]" "a \<noteq> 0" "b \<noteq> 0" using grouped_nodes(1,2) [OF assms(1)] by auto
  let ?s = "s\<lparr>tr_links := list_init tmp (tr_links s)\<rparr>"
  have k: "others_kept {} tmp s ?s" by (simp add: others_kept_def list_init_list)
  have "grouped cmp0 head (with_root (root_of s) ?s) [[a], [b]]"
    by (rule grouped_frame [OF _ k]) (use assms in auto)
  moreover have "with_root (root_of s) ?s = ?s" by (simp add: with_root_def root_of_def)
  ultimately have g: "grouped cmp0 head ?s [[a], [b]]" by simp
  have t: "grouped ?z tmp (with_root 0 ?s) []" by (rule grouped_empty) (simp_all add: list_init_list)
  have nx: "nxt (tr_links ?s) head = a" using g is_list_ends(1) [of "tr_links ?s" head "[a, b]"] by (simp add: grouped_def)
  obtain s1 gs1 where r1: "sorted_list_remove_track head a ?s = Some s1" "grouped cmp0 head s1 gs1" "concat gs1 = [b]"
    "others_kept {a, b} head ?s s1" "nxt (tr_links ?s) a = b"
    using remove_first [OF g, of a "[b]"] by auto
  have gs1: "gs1 = [[b]]" using one_group grouped_nodes(4) [OF r1(2)] r1(3) by blast
  have t1: "grouped ?z tmp (with_root 0 s1) []" by (rule grouped_frame [OF t r1(4)]) (use assms(2) in auto)
  obtain s2 gs2 where r2: "sorted_list_add_track ?z tmp a 0 (with_root 0 s1) = Some s2" "grouped ?z tmp s2 gs2" "concat gs2 = [a]"
    "others_kept {a} tmp s1 s2"
    using no_order.add_track [OF t1, of a 0] assms(2) d by (auto simp: insert_last)
  have gs2: "gs2 = [[a]]" using one_group grouped_nodes(4) [OF r2(2)] r2(3) by blast
  let ?s2 = "with_root (root_of s1) s2"
  have g2: "grouped cmp0 head ?s2 [[b]]"
    by (rule grouped_frame [OF _ r2(4)]) (use r1(2) gs1 d assms(2) in auto)
  then have b: "rb_holds (tr_rb ?s2) [b]" and lb: "is_list (tr_links ?s2) head [b]" by (simp_all add: grouped_def)
  have nb: "nxt (tr_links ?s2) b = head" using is_list_entry(1) [of "tr_links ?s2" head "[]" b "[]"] lb by simp
  let ?s3 = "?s2\<lparr>tr_rb := (tr_rb ?s2)\<lparr>rb_root := 0\<rparr>, tr_links := list_del b (tr_links ?s2)\<rparr>"
  have r3: "sorted_list_remove_track head b ?s2 = Some ?s3" using remove_alone [OF nb alone(1-4) [OF b]] .
  have "others_kept {b} head s2 ?s3" using list_del_list(2) [of "tr_links ?s2" head "[]" b "[]"] lb by (simp add: others_kept_def insert_commute)
  then have t3: "grouped ?z tmp (with_root (root_of s2) ?s3) [[a]]"
    using grouped_frame [of ?z tmp "root_of s2" s2 "[[a]]" "{b}" head ?s3] r2(2) gs2 d assms(2) by auto
  let ?w = "with_root (root_of s2) ?s3"
  let ?s4 = "?w\<lparr>tr_links := list_add b (prv (tr_links ?w) tmp) (tr_links ?w)\<rparr>"
  have r4: "sorted_list_add_track ?z tmp b 0 ?w = Some ?s4" by (rule add_behind [OF t3])
  obtain gs4 where g4: "grouped ?z tmp ?s4 gs4" "concat gs4 = [a, b]"
    using no_order.add_track [OF t3, of b 0] assms(2) d r4 by (auto simp: insert_last)
  let ?r = "root_of ?s4" and ?s5 = "with_root (root_of ?s3) ?s4"
  have "rebuild_loop ?z head tmp a 0 ?s = rebuild_loop ?z head tmp b (root_of s2) ?s2"
    using r1(1,5) r2(1) d by (subst rebuild_loop.simps) simp
  also have "\<dots> = Some (?r, ?s5)"
    using r3 r4 nb d by (subst rebuild_loop.simps) (simp add: rebuild_loop.simps)
  finally have run: "sorted_list_rebuild ?z head tmp s = Some (take_over head tmp ?r ?s5)"
    using nx by (simp add: sorted_list_rebuild_def)
  have l: "is_list (tr_links ?s5) tmp [a, b]" using g4 by (simp add: grouped_def)
  have "is_list (tr_links (take_over head tmp ?r ?s5)) head [a, b]"
    using ring_take_over [OF l, of head] d by (simp add: take_over_def)
  moreover have "rb_nodes (tr_rb (take_over head tmp ?r ?s5)) b = rb_nodes (tr_rb ?s2) b" by (simp add: take_over_def with_root_def)
  ultimately show ?thesis using run alone [OF b] by auto
qed

section \<open>Properties\<close>

text \<open>
  C31. Any sequence of adding tracks, before or behind the equal ones, and removing tracks ends without a fault, and does to the sequence
  of tracks what it says, for every list of sort keys: the list stays sorted, the tree is balanced and holds the first of each group of equal
  tracks, and the tree nodes of all others are cleared.
\<close>

theorem sorted_list_operations:
  assumes "strcoll_ok (cl_strcoll cl)" "list_rep cl keys info head s xs" "all_ok (run_list cl keys info head) (list_op_ok info head) ops s"
  shows "\<exists>s'. exec (run_list cl keys info head) ops s = Some s' \<and> list_rep cl keys info head s' (fold (list_meaning cl keys info) ops xs)"
  using simulation.sim_exec [OF list_simulation [OF assms(1)] assms(2,3)] .

text \<open>
  C32. Sorting a list again, by other keys, ends without a fault. The new list is the stable sort of the old one, and the tree holds the first of
  each group of equal tracks.
\<close>

theorem sorted_list_rebuild_sorts:
  assumes "strcoll_ok (cl_strcoll cl)" "list_rep cl keys0 info head s xs" "xs \<noteq> []" "tmp \<notin> set (head # xs)"
  shows "\<exists>s' gs. sorted_list_rebuild (track_cmp cl keys info) head tmp s = Some s' \<and> grouped (track_cmp cl keys info) head s' gs \<and>
    stable_sort (track_cmp cl keys info) xs (concat gs)"
proof -
  note order = track_order_cmp [OF assms(1), of info keys]
  obtain gs where g: "grouped (track_cmp cl keys0 info) head s gs" "concat gs = xs" and ok: "\<forall>x \<in> set xs. track_ok (info x)"
    using assms(2) by (auto simp: list_rep_def)
  have "concat gs \<noteq> []" "tmp \<notin> set (head # concat gs)" "\<forall>x \<in> set (concat gs). track_ok (info x)" using g(2) assms(3,4) ok by simp_all
  from track_order.rebuild [OF order g(1) this] show ?thesis using track_order.fold_stable_sort [OF order ok] g(2) by metis
qed

text \<open>
  C33. When a list of two tracks that compare differently is sorted again without sort keys, the second track keeps the links of its old
  tree node, since \<open>sorted_list_rebuild\<close> does not clear a node that \<open>rb_erase\<close> took out. Removing that track later takes it for a node of
  the tree, and empties the tree, although the first track is still in the list.
\<close>

theorem removal_after_rebuild_empties_tree:
  assumes "list_rep cl keys info head s [a, b]" "track_cmp cl keys info a b \<noteq> 0" "tmp \<notin> {head, a, b}"
  shows "\<exists>s1 s2. sorted_list_rebuild (track_cmp cl [] info) head tmp s = Some s1 \<and> sorted_list_remove_track head b s1 = Some s2 \<and>
    is_list (tr_links s2) head [a] \<and> rb_root (tr_rb s2) = 0"
proof -
  obtain gs where g: "grouped (track_cmp cl keys info) head s gs" "concat gs = [a, b]" using assms(1) by (auto simp: list_rep_def)
  have "gs = [[a], [b]]"
    using g(2) grouped_nodes(4) [OF g(1)] assms(2) one_group [of "track_cmp cl keys info" "tl gs" b]
    by (cases gs) (auto simp: groups_Cons append_eq_Cons_conv dest: hd_concat)
  moreover have "track_cmp cl [] info = (\<lambda>_ _. 0)" by (simp add: track_cmp_def fun_eq_iff)
  ultimately obtain s1 where s1: "sorted_list_rebuild (track_cmp cl [] info) head tmp s = Some s1" "is_list (tr_links s1) head [a, b]" "b \<noteq> 0"
    "rb_parent (rb_nodes (tr_rb s1) b) = 0" "rb_child (rb_nodes (tr_rb s1) b) L = 0" "rb_child (rb_nodes (tr_rb s1) b) R = 0"
    using rebuild_two [of _ head s a b tmp] g(1) assms(3) by auto
  have "nxt (tr_links s1) b = head" using is_list_entry(1) [of "tr_links s1" head "[a]" b "[]"] s1(2) by simp
  from remove_alone [OF this s1(3-6)] list_del_list(1) [of "tr_links s1" head "[a]" b "[]"] s1(1,2) show ?thesis by simp
qed

text \<open>
  The next and the previous track: the first one behind, or before, the current track that passes the filter, going round the list when
  repeating; or none. The search ends when the current track passes.
\<close>

theorem next_and_previous_track:
  assumes "is_list h head (xs @ cur # ys)" "cur \<noteq> 0" "p cur"
  shows "simple_list_get_next head cur p allow_repeat repeat h = Some (first_ok p (ys @ (if allow_repeat \<and> repeat then xs @ [cur] else []))) \<and>
    simple_list_get_prev head cur p allow_repeat repeat h = Some (first_ok p (rev xs @ (if allow_repeat \<and> repeat then rev ys @ [cur] else [])))"
  using ring_leads [OF assms(1)] assms(2,3) get_walk [of "nxt h" xs cur ys head allow_repeat repeat p]
    get_walk [of "prv h" "rev ys" cur "rev xs" head allow_repeat repeat p]
  by (simp add: simple_list_get_next_def simple_list_get_prev_def hd_append)

text \<open>C34. When repeating, every track of the list is played: from every track, every other is reached within one round.\<close>

theorem every_track_is_played:
  assumes "is_list h head xs" "0 \<notin> set xs" "cur \<in> set xs" "t \<in> set xs"
  shows "\<exists>n \<le> length xs. play_on head h n cur = Some t"
proof -
  obtain i j where i: "i < length xs" "xs ! i = cur" and j: "j < length xs" "xs ! j = t" using assms(3,4) by (meson in_set_conv_nth)
  let ?n = "(j + (length xs - i)) mod length xs"
  have "(i + ?n) mod length xs = (i + (j + (length xs - i))) mod length xs" by (simp add: mod_add_right_eq)
  also have "\<dots> = j" using i(1) j(1) by (simp add: mod_add_self2)
  finally have "play_on head h ?n cur = Some t" using play_on_around [OF assms(1,2) i(1), of ?n] i(2) j(2) by simp
  moreover have "?n \<le> length xs" using i(1) mod_less_divisor [of "length xs" "j + (length xs - i)"] by linarith
  ultimately show ?thesis by blast
qed

text \<open>Five tracks, sorted by their numbers; the second and the third are equal.\<close>

definition no_tracks :: tracks where
  "no_tracks = \<lparr>tr_links = list_init 9 \<lparr>nxt = \<lambda>_. 0, prv = \<lambda>_. 0\<rparr>,
     tr_rb = \<lparr>rb_nodes = (\<lambda>a. \<lparr>rb_parent = a, rb_black = False, rb_child = (\<lambda>_. 0)\<rparr>), rb_root = 0\<rparr>\<rparr>"

definition number_of :: "nat \<Rightarrow> int" where
  "number_of a = (if a = 3 then 2 else if a < 10 then int a else 0)"

definition number :: "nat \<Rightarrow> track_info" where
  "number a = example_track\<lparr>ti_tracknumber := number_of a\<rparr>"

definition by_number :: "sort_key list" where
  "by_number = [(False, SORT_TRACKNUMBER)]"

lemma number_of: "0 \<le> number_of a" "number_of a < 10"
  by (simp_all add: number_of_def)

lemma number_cmp: "track_cmp example_clib by_number number = (\<lambda>a b. number_of a - number_of b)"
proof (intro ext)
  fix a b
  have "c_int (number_of a - number_of b) = number_of a - number_of b"
    using number_of [of a] number_of [of b] by (intro c_int_id) simp_all
  then show "track_cmp example_clib by_number number a b = number_of a - number_of b"
    by (simp add: track_cmp_def by_number_def number_def Let_def)
qed

lemma number_ok: "track_ok (number a)"
  using number_of [of a] by (simp add: track_ok_def number_def num_ok_def example_track_def)

lemma no_tracks: "list_rep example_clib keys info 9 no_tracks []"
  unfolding list_rep_def
  by (intro conjI exI [of _ "[]"]) (simp_all add: no_tracks_def grouped_def list_init_list rb_holds_empty rest_cleared_def)

definition five_ops :: "list_op list" where
  "five_ops = [Add_track 4 1, Add_track 2 1, Add_track 1 1, Add_track 3 1, Remove_track 2, Add_track 5 (- 1)]"

lemma five_ops: "all_ok (run_list example_clib by_number number 9) (list_op_ok number 9) five_ops no_tracks"
  by (rule fresh_use [OF _ no_tracks, of "{}"])
    (simp_all add: example_clib_def strcoll_ok_strcmp five_ops_def number_ok no_tracks_def cleared_def)

theorem sorted_list_operations_witness:
  "\<exists>s. exec (run_list example_clib by_number number 9) five_ops no_tracks = Some s \<and> list_rep example_clib by_number number 9 s [1, 3, 4, 5]"
proof -
  have "fold (list_meaning example_clib by_number number) five_ops [] = [1, 3, 4, 5]"
    by (simp add: five_ops_def number_cmp number_of_def insert_track_def)
  then show ?thesis using sorted_list_operations [OF _ no_tracks five_ops] by (simp add: example_clib_def strcoll_ok_strcmp)
qed

lemma example_state:
  assumes "fresh_use number 9 {} {} ops"
  shows "\<exists>s. list_rep example_clib by_number number 9 s (fold (list_meaning example_clib by_number number) ops [])"
proof -
  have c: "strcoll_ok (cl_strcoll example_clib)" by (simp add: example_clib_def strcoll_ok_strcmp)
  have "all_ok (run_list example_clib by_number number 9) (list_op_ok number 9) ops no_tracks"
    by (rule fresh_use [OF c no_tracks, of "{}"]) (use assms in \<open>simp_all add: no_tracks_def cleared_def\<close>)
  then show ?thesis using simulation.sim_exec [OF list_simulation [OF c] no_tracks] by blast
qed

lemma three_tracks: "\<exists>s. list_rep example_clib by_number number 9 s [1, 3, 4]"
  using example_state [of "[Add_track 4 1, Add_track 3 1, Add_track 1 1]"] by (simp add: number_ok number_cmp number_of_def insert_track_def)

lemma two_tracks: "\<exists>s. list_rep example_clib by_number number 9 s [1, 2]"
  using example_state [of "[Add_track 2 1, Add_track 1 1]"] by (simp add: number_ok number_cmp number_of_def insert_track_def)

theorem sorted_list_rebuild_sorts_witness:
  "\<exists>s s' gs. list_rep example_clib by_number number 9 s [1, 3, 4] \<and>
     sorted_list_rebuild (track_cmp example_clib [(True, SORT_TRACKNUMBER)] number) 9 8 s = Some s' \<and>
     stable_sort (track_cmp example_clib [(True, SORT_TRACKNUMBER)] number) [1, 3, 4] (concat gs)"
proof -
  have c: "strcoll_ok (cl_strcoll example_clib)" by (simp add: example_clib_def strcoll_ok_strcmp)
  show ?thesis using three_tracks sorted_list_rebuild_sorts [OF c, of by_number number 9 _ "[1, 3, 4]" 8] by fastforce
qed

theorem removal_after_rebuild_empties_tree_witness:
  "\<exists>s s1 s2. sorted_list_rebuild (track_cmp example_clib [] number) 9 8 s = Some s1 \<and> sorted_list_remove_track 9 2 s1 = Some s2 \<and>
    is_list (tr_links s2) 9 [1] \<and> rb_root (tr_rb s2) = 0"
proof -
  obtain s where s: "list_rep example_clib by_number number 9 s [1, 2]" using two_tracks by blast
  have "track_cmp example_clib by_number number 1 2 \<noteq> 0" "(8 :: nat) \<notin> {9, 1, 2}" by (simp_all add: number_cmp number_of_def)
  from removal_after_rebuild_empties_tree [OF s this] show ?thesis by blast
qed

text \<open>The ring of the tracks 1, 2 and 3.\<close>

definition ring3 :: links where
  "ring3 = list_add_tail 3 9 (list_add_tail 2 9 (list_add_tail 1 9 (list_init 9 \<lparr>nxt = \<lambda>_. 0, prv = \<lambda>_. 0\<rparr>)))"

lemma ring3: "is_list ring3 9 [1, 2, 3]"
  by (simp add: ring3_def list_init_def list_add_tail_def is_list_def)

theorem next_and_previous_track_witness:
  "simple_list_get_next 9 3 (\<lambda>a. a \<noteq> 1) True True ring3 = Some 2 \<and> simple_list_get_prev 9 2 (\<lambda>a. a \<noteq> 1) False True ring3 = Some 0"
  using next_and_previous_track [of ring3 9 "[1, 2]" 3 "[]" "\<lambda>a. a \<noteq> 1" True True]
    next_and_previous_track [of ring3 9 "[1]" 2 "[3]" "\<lambda>a. a \<noteq> 1" False True] ring3 by (simp add: first_ok_def)

theorem every_track_is_played_witness: "\<exists>n. n \<le> 3 \<and> play_on 9 ring3 n 3 = Some 2"
  using every_track_is_played [OF ring3, of 3 2] by (simp add: numeral_3_eq_3)

end
