(* ===== verification/Shuffle.thy ===== *)
theory Shuffle
  imports Track_List
begin

text \<open>
  The shuffled order of tracks (\<^verbatim>\<open>src/app/track.c\<close>): every track has a random number and is a node of a red-black tree ordered by these numbers.
  A number \<^verbatim>\<open>rand() / (RAND_MAX + 1)\<close> is kept as the value of \<^verbatim>\<open>rand()\<close>, since the division is exact and keeps the order; \<open>rnd n\<close> is the
  value of the \<open>n\<close>-th call. The theory proves that adding a track ends as soon as an unused number comes, that shuffling again permutes
  the tracks, and that the next track is the one behind the current one.
\<close>

section \<open>The model\<close>

record shuffle =
  sh_rb :: rb
  sh_rand :: "nat \<Rightarrow> nat"

definition compare_rand :: "shuffle \<Rightarrow> nat \<Rightarrow> nat \<Rightarrow> int" where
  "compare_rand s a b = (if sh_rand s a < sh_rand s b then -1 else if sh_rand s a > sh_rand s b then 1 else 0)"

definition shuffle_info_init :: "nat \<Rightarrow> nat \<Rightarrow> shuffle \<Rightarrow> shuffle" where
  "shuffle_info_init track r s = s\<lparr>sh_rand := (sh_rand s)(track := r)\<rparr>"

text \<open>The number of calls of \<open>rand\<close> so far is threaded through. A number that is taken starts the function again.\<close>

partial_function (option) shuffle_list_add :: "(nat \<Rightarrow> nat) \<Rightarrow> nat \<Rightarrow> nat \<Rightarrow> shuffle \<Rightarrow> (nat \<times> shuffle) option" where
  [code]: "shuffle_list_add rnd track n s =
     do { let s = shuffle_info_init track (rnd n) s;
          (parent, d, result) \<leftarrow> locate (compare_rand s track) 0 L 0 (rb_root (sh_rb s)) (sh_rb s);
          if parent \<noteq> 0 \<and> result = 0 then shuffle_list_add rnd track (n + 1) s
          else do { rb \<leftarrow> rb_link_node track parent d (sh_rb s);
                    rb \<leftarrow> rb_insert_color track rb;
                    Some (n + 1, s\<lparr>sh_rb := rb\<rparr>) } }"

definition sh_root :: "nat \<Rightarrow> shuffle \<Rightarrow> shuffle" where
  "sh_root p s = s\<lparr>sh_rb := (sh_rb s)\<lparr>rb_root := p\<rparr>\<rparr>"

text \<open>\<open>pos ? rb_next(pos) : NULL\<close>\<close>

definition next_or_null :: "nat \<Rightarrow> rb \<Rightarrow> nat option" where
  "next_or_null p s = (if p \<noteq> 0 then rb_step R p s else Some 0)"

text \<open>The loop \<^verbatim>\<open>rb_for_each_safe\<close> of \<open>shuffle_list_reshuffle\<close>; \<open>tmp_root\<close> is the root of the new tree.\<close>

partial_function (option) reshuffle_loop :: "(nat \<Rightarrow> nat) \<Rightarrow> nat \<Rightarrow> nat \<Rightarrow> nat \<Rightarrow> nat \<Rightarrow> shuffle \<Rightarrow> (nat \<times> nat \<times> shuffle) option" where
  [code]: "reshuffle_loop rnd item after tmp_root n s =
     (if item = 0 then Some (tmp_root, n, s)
      else do { rb \<leftarrow> rb_erase item (sh_rb s);
                (n, s') \<leftarrow> shuffle_list_add rnd item n (sh_root tmp_root (s\<lparr>sh_rb := rb\<rparr>));
                let s'' = sh_root (rb_root rb) s';
                tmp \<leftarrow> next_or_null after (sh_rb s'');
                reshuffle_loop rnd after tmp (rb_root (sh_rb s')) n s'' })"

definition shuffle_list_reshuffle :: "(nat \<Rightarrow> nat) \<Rightarrow> nat \<Rightarrow> shuffle \<Rightarrow> (nat \<times> shuffle) option" where
  "shuffle_list_reshuffle rnd n s =
     do { item \<leftarrow> rb_end L (sh_rb s);
          tmp \<leftarrow> next_or_null item (sh_rb s);
          (tmp_root, n, s) \<leftarrow> reshuffle_loop rnd item tmp 0 n s;
          Some (n, sh_root tmp_root s) }"

text \<open>The link behind \<open>previous\<close>: down to the left from its right child, or from the root.\<close>

partial_function (option) link_place :: "nat \<Rightarrow> dir \<Rightarrow> nat \<Rightarrow> rb \<Rightarrow> (nat \<times> dir) option" where
  [code]: "link_place parent d item s =
     (if item = 0 then Some (parent, d) else do { n \<leftarrow> rb_get item s; link_place item L (rb_child n L) s })"

definition shuffle_insert :: "nat \<Rightarrow> nat \<Rightarrow> shuffle \<Rightarrow> shuffle option" where
  "shuffle_insert previous new s =
     do { bug_unless (new \<noteq> 0);
          if previous = new then Some s
          else do { rb \<leftarrow> rb_erase new (sh_rb s);
                    (parent, d) \<leftarrow> (if previous \<noteq> 0
                                  then do { n \<leftarrow> rb_get previous rb; link_place previous R (rb_child n R) rb }
                                  else link_place 0 L (rb_root rb) rb);
                    rb \<leftarrow> rb_link_node new parent d rb;
                    rb \<leftarrow> rb_insert_color new rb;
                    Some (s\<lparr>sh_rb := rb\<rparr>) } }"

text \<open>
  \<open>shuffle_list_get_next\<close> for \<open>d = R\<close>, \<open>shuffle_list_get_prev\<close> for \<open>d = L\<close>: the rest of a round from \<open>item\<close> on, and the rounds, which
  shuffle again in between when \<open>auto_reshuffle\<close> is set.
\<close>

partial_function (option) filter_loop :: "dir \<Rightarrow> (nat \<Rightarrow> bool) \<Rightarrow> nat \<Rightarrow> rb \<Rightarrow> nat option" where
  [code]: "filter_loop d filter_cb item s =
     (if item = 0 then Some 0
      else if filter_cb item then Some item
      else do { item \<leftarrow> rb_step d item s; filter_loop d filter_cb item s })"

definition reshuffle_if :: "bool \<Rightarrow> (nat \<Rightarrow> nat) \<Rightarrow> nat \<Rightarrow> shuffle \<Rightarrow> (nat \<times> shuffle) option" where
  "reshuffle_if auto_reshuffle rnd n s = (if auto_reshuffle then shuffle_list_reshuffle rnd n s else Some (n, s))"

partial_function (option) rounds :: "dir \<Rightarrow> bool \<Rightarrow> bool \<Rightarrow> (nat \<Rightarrow> nat) \<Rightarrow> (nat \<Rightarrow> bool) \<Rightarrow> nat \<Rightarrow> nat \<Rightarrow> shuffle \<Rightarrow> (nat \<times> nat \<times> shuffle) option" where
  [code]: "rounds d repeat auto_reshuffle rnd filter_cb item n s =
     do { t \<leftarrow> filter_loop d filter_cb item (sh_rb s);
          if t \<noteq> 0 then Some (t, n, s)
          else if repeat
          then do { (n, s) \<leftarrow> reshuffle_if auto_reshuffle rnd n s;
                    item \<leftarrow> rb_end (opp d) (sh_rb s);
                    rounds d repeat auto_reshuffle rnd filter_cb item n s }
          else Some (0, n, s) }"

definition shuffle_list_get :: "dir \<Rightarrow> bool \<Rightarrow> bool \<Rightarrow> (nat \<Rightarrow> nat) \<Rightarrow> nat \<Rightarrow> (nat \<Rightarrow> bool) \<Rightarrow> nat \<Rightarrow> shuffle \<Rightarrow> (nat \<times> nat \<times> shuffle) option" where
  "shuffle_list_get d repeat auto_reshuffle rnd cur filter_cb n s =
     (if cur = 0
      then do { (n, s) \<leftarrow> reshuffle_if auto_reshuffle rnd n s;
                t \<leftarrow> rb_end (opp d) (sh_rb s);
                Some (t, n, s) }
      else do { item \<leftarrow> rb_step d cur (sh_rb s);
                rounds d repeat auto_reshuffle rnd filter_cb item n s })"

section \<open>Adding a track\<close>

text \<open>The search in a tree in any order.\<close>

lemma locate_somewhere:
  assumes "focus G s z t"
  shows "\<exists>p d' r. locate c (above z) d r0 (root_ptr t) s = Some (p, d', r) \<and>
    (r = 0 \<and> p \<in> nodes t \<and> c p = 0 \<or> t = Leaf \<and> p = above z \<and> r = r0 \<or> r \<noteq> 0 \<and> p \<in> nodes t \<and> rb_child (rb_nodes s p) d' = 0)"
  using assms
proof (induction t arbitrary: z d r0)
  case Leaf
  then show ?case by (subst locate.simps) simp
next
  case (Node col l a r)
  note g = focus_get [of G s z L col a l r, simplified, OF Node.prems(1)]
  have fl: "focus G s ((L, col, a, r) # z) l" "focus G s ((R, col, a, l) # z) r" using Node.prems(1) by (simp_all add: focus_up)
  have step: "locate c (above z) d r0 a s = (if c a < 0 then locate c a L (c a) (rb_child (rb_nodes s a) L) s
      else if c a > 0 then locate c a R (c a) (rb_child (rb_nodes s a) R) s else Some (a, d, 0))"
    using g by (subst locate.simps) simp
  consider "c a = 0" | "c a < 0" | "c a > 0" by linarith
  then show ?case
  proof cases
    case 1
    then show ?thesis using step by auto
  next
    case 2
    then have le: "locate c (above z) d r0 a s = locate c (above ((L, col, a, r) # z)) L (c a) (root_ptr l) s" using step g by simp
    show ?thesis
    proof (cases "l = Leaf")
      case True
      then have "locate c (above z) d r0 a s = Some (a, L, c a)" using le by (subst (asm) (2) locate.simps) simp
      then show ?thesis using 2 g True by auto
    next
      case False
      then show ?thesis using Node.IH(1) [OF fl(1), of L "c a"] le by auto
    qed
  next
    case 3
    then have le: "locate c (above z) d r0 a s = locate c (above ((R, col, a, l) # z)) R (c a) (root_ptr r) s" using step g by simp
    show ?thesis
    proof (cases "r = Leaf")
      case True
      then have "locate c (above z) d r0 a s = Some (a, R, c a)" using le by (subst (asm) (2) locate.simps) simp
      then show ?thesis using 3 g True by auto
    next
      case False
      then show ?thesis using Node.IH(2) [OF fl(2), of R "c a"] le by auto
    qed
  qed
qed

lemma locate_in_tree:
  assumes "rb_holds s xs"
  shows "\<exists>p d r. locate c 0 L 0 (rb_root s) s = Some (p, d, r) \<and>
    (r = 0 \<and> p \<in> set xs \<and> c p = 0 \<or> xs = [] \<and> p = 0 \<and> r = 0 \<or> r \<noteq> 0 \<and> p \<in> set xs \<and> rb_child (rb_nodes s p) d = 0)"
proof -
  obtain t where t: "holds_tree (\<lambda>_. None) s t" "inorder t = xs" using assms(1) by (auto simp: rb_holds_def)
  then have f: "focus (\<lambda>_. None) s [] t" "rb_root s = root_ptr t" by (simp_all add: holds_tree_def focus_def)
  show ?thesis using locate_somewhere [OF f(1), of c L 0] t(2) f(2) by (auto simp flip: nodes_inorder)
qed

text \<open>The tracks in the order of their numbers.\<close>

definition by_rand :: "shuffle \<Rightarrow> nat list \<Rightarrow> bool" where
  "by_rand s xs \<longleftrightarrow> sorted_wrt (\<lambda>a b. sh_rand s a < sh_rand s b) xs"

lemma compare_rand_sorted:
  assumes "by_rand s xs"
  shows "sorted_wrt (\<lambda>a b. compare_rand s x a \<le> 0 \<longrightarrow> compare_rand s x b < 0) xs"
  using assms unfolding by_rand_def by (rule sorted_wrt_mono_rel [rotated]) (auto simp: compare_rand_def split: if_splits)

lemma place_track:
  assumes h: "rb_holds (sh_rb s) xs" and x: "x \<noteq> 0" "x \<notin> set xs"
    and loc: "locate (compare_rand s x) 0 L 0 (rb_root (sh_rb s)) (sh_rb s) = Some (p, d, r)" "p = 0 \<or> r \<noteq> 0"
  shows "\<exists>rb1 rb us vs. rb_link_node x p d (sh_rb s) = Some rb1 \<and> rb_insert_color x rb1 = Some rb \<and> xs = us @ vs \<and> rb_holds rb (us @ x # vs) \<and>
    (\<forall>a. a \<notin> set (x # xs) \<longrightarrow> rb_nodes rb a = rb_nodes (sh_rb s) a) \<and> (by_rand s xs \<longrightarrow> by_rand s (us @ x # vs))"
proof (cases "xs = []")
  case True
  then have "p = 0" using locate_in_tree [OF h, of "compare_rand s x"] loc by auto
  then show ?thesis using link_first [of "sh_rb s" x d] h x True by (auto simp: by_rand_def)
next
  case False
  then have "p \<in> set xs \<and> rb_child (rb_nodes (sh_rb s) p) d = 0"
    using locate_in_tree [OF h, of "compare_rand s x"] loc rb_holds_nodes(2) [OF h] by (metis Pair_inject option.inject)
  moreover from this have "p \<noteq> 0" using rb_holds_nodes(2) [OF h] by metis
  ultimately have p: "p \<in> set xs" "rb_child (rb_nodes (sh_rb s) p) d = 0" "p \<noteq> 0" by auto
  then obtain us vs where xs: "xs = us @ p # vs" by (meson split_list)
  have hp: "rb_holds (sh_rb s) (us @ p # vs)" "x \<notin> set (us @ p # vs)" using h x(2) xs by simp_all
  obtain rb1 rb where r: "rb_link_node x p d (sh_rb s) = Some rb1" "rb_insert_color x rb1 = Some rb"
    "rb_holds rb (us @ (if d = L then [x, p] else [p, x]) @ vs)" "\<forall>b. b \<notin> set (x # us @ p # vs) \<longrightarrow> rb_nodes rb b = rb_nodes (sh_rb s) b"
    using link_insert [OF hp(1) x(1) hp(2) p(2)] by blast
  have srt: "by_rand s (us @ (if d = L then [x, p] else [p, x]) @ vs)" if br: "by_rand s xs"
  proof -
    obtain us' vs' where q: "xs = us' @ p # vs'" "\<forall>a \<in> set us'. compare_rand s x a > 0" "\<forall>a \<in> set vs'. compare_rand s x a < 0"
      "d = L \<and> compare_rand s x p < 0 \<or> d = R \<and> compare_rand s x p > 0"
      using locate_root [OF h compare_rand_sorted [OF br, of x]] loc p(3) by auto
    have "p \<notin> set us" "p \<notin> set vs" using xs rb_holds_nodes(1) [OF h] by auto
    then have "us' = us \<and> vs' = vs" using q(1) xs append_Cons_eq_iff [of p us vs us' vs'] by auto
    moreover have "0 < compare_rand s x a \<longleftrightarrow> sh_rand s a < sh_rand s x" "compare_rand s x a < 0 \<longleftrightarrow> sh_rand s x < sh_rand s a" for a
      by (auto simp: compare_rand_def)
    ultimately show ?thesis using q(2-4) br unfolding xs by_rand_def sorted_wrt_append by auto
  qed
  show ?thesis
  proof (cases d)
    case L
    then show ?thesis using r xs srt by (intro exI [of _ rb1] exI [of _ rb] exI [of _ us] exI [of _ "p # vs"]) simp
  next
    case R
    then show ?thesis using r xs srt by (intro exI [of _ rb1] exI [of _ rb] exI [of _ "us @ [p]"] exI [of _ vs]) simp
  qed
qed

lemma init_kept:
  assumes "x \<notin> set xs"
  shows "sh_rb (shuffle_info_init x r s) = sh_rb s" "sh_rand (shuffle_info_init x r s) ` set xs = sh_rand s ` set xs"
    "by_rand s xs \<Longrightarrow> by_rand (shuffle_info_init x r s) xs"
proof -
  show "sh_rb (shuffle_info_init x r s) = sh_rb s" by (simp add: shuffle_info_init_def)
  show "sh_rand (shuffle_info_init x r s) ` set xs = sh_rand s ` set xs"
    using assms by (intro image_cong) (auto simp: shuffle_info_init_def)
  show "by_rand s xs \<Longrightarrow> by_rand (shuffle_info_init x r s) xs" unfolding by_rand_def
    by (rule sorted_wrt_mono_rel [of xs]) (use assms in \<open>auto simp: shuffle_info_init_def\<close>)
qed

text \<open>A call that does not start again.\<close>

lemma shuffle_add_now:
  assumes h: "rb_holds (sh_rb s) xs" and x: "x \<noteq> 0" "x \<notin> set xs"
    and l: "locate (compare_rand (shuffle_info_init x (rnd n) s) x) 0 L 0 (rb_root (sh_rb s)) (sh_rb s) = Some (p, d, r)" "p = 0 \<or> r \<noteq> 0"
  shows "\<exists>s' us vs. shuffle_list_add rnd x n s = Some (n + 1, s') \<and> xs = us @ vs \<and> rb_holds (sh_rb s') (us @ x # vs) \<and>
    sh_rand s' = (sh_rand s)(x := rnd n) \<and> (\<forall>a. a \<notin> set (x # xs) \<longrightarrow> rb_nodes (sh_rb s') a = rb_nodes (sh_rb s) a) \<and>
    (by_rand s xs \<longrightarrow> by_rand s' (us @ x # vs))"
proof -
  let ?s = "shuffle_info_init x (rnd n) s"
  note k = init_kept [OF x(2), where r = "rnd n" and s = s]
  have h': "rb_holds (sh_rb ?s) xs" using h k(1) by simp
  obtain rb1 rb us vs where t: "rb_link_node x p d (sh_rb ?s) = Some rb1" "rb_insert_color x rb1 = Some rb" "xs = us @ vs" "rb_holds rb (us @ x # vs)"
    "\<forall>a. a \<notin> set (x # xs) \<longrightarrow> rb_nodes rb a = rb_nodes (sh_rb ?s) a" "by_rand ?s xs \<longrightarrow> by_rand ?s (us @ x # vs)"
    using place_track [OF h' x _ l(2)] l(1) k(1) by auto
  have "shuffle_list_add rnd x n s = Some (n + 1, ?s\<lparr>sh_rb := rb\<rparr>)"
    using l t(1,2) k(1) by (subst shuffle_list_add.simps) (auto simp: Let_def)
  then show ?thesis using t k(1,3)
    by (intro exI [of _ "?s\<lparr>sh_rb := rb\<rparr>"] exI [of _ us] exI [of _ vs]) (auto simp: by_rand_def shuffle_info_init_def)
qed

lemma shuffle_add:
  assumes "rb_holds (sh_rb s) xs" "x \<noteq> 0" "x \<notin> set xs" "rnd (n + k) \<notin> sh_rand s ` set xs"
  shows "\<exists>m s' us vs. m \<le> k \<and> shuffle_list_add rnd x n s = Some (n + m + 1, s') \<and> xs = us @ vs \<and> rb_holds (sh_rb s') (us @ x # vs) \<and>
    sh_rand s' = (sh_rand s)(x := rnd (n + m)) \<and> (\<forall>a. a \<notin> set (x # xs) \<longrightarrow> rb_nodes (sh_rb s') a = rb_nodes (sh_rb s) a) \<and>
    (by_rand s xs \<longrightarrow> by_rand s' (us @ x # vs))"
  using assms
proof (induction k arbitrary: n s)
  case (0 n s)
  let ?c = "compare_rand (shuffle_info_init x (rnd n) s) x"
  obtain p d r where l: "locate ?c 0 L 0 (rb_root (sh_rb s)) (sh_rb s) = Some (p, d, r)"
    "r = 0 \<and> p \<in> set xs \<and> ?c p = 0 \<or> xs = [] \<and> p = 0 \<and> r = 0 \<or> r \<noteq> 0 \<and> p \<in> set xs \<and> rb_child (rb_nodes (sh_rb s) p) d = 0"
    using locate_in_tree [OF 0(1), of ?c] by blast
  have "\<not> (p \<in> set xs \<and> ?c p = 0)"
    using 0(3,4) by (auto simp: compare_rand_def shuffle_info_init_def split: if_splits)
  then have "p = 0 \<or> r \<noteq> 0" using l(2) by auto
  from shuffle_add_now [of s xs x rnd n, OF 0(1-3) l(1) this] show ?case by (intro exI [of _ 0]) (simp only: add_0_right le_refl simp_thms)
next
  case (Suc k n s)
  let ?s = "shuffle_info_init x (rnd n) s"
  note i = init_kept [OF Suc.prems(3), where r = "rnd n" and s = s]
  obtain p d r where l: "locate (compare_rand ?s x) 0 L 0 (rb_root (sh_rb s)) (sh_rb s) = Some (p, d, r)"
    using locate_in_tree [OF Suc.prems(1), of "compare_rand ?s x"] by blast
  show ?case
  proof (cases "p \<noteq> 0 \<and> r = 0")
    case True
    then have again: "shuffle_list_add rnd x n s = shuffle_list_add rnd x (n + 1) ?s"
      using l i(1) by (subst shuffle_list_add.simps) (auto simp: Let_def)
    have "rb_holds (sh_rb ?s) xs" "rnd (n + 1 + k) \<notin> sh_rand ?s ` set xs" using Suc.prems(1,4) i(1,2) by simp_all
    from Suc.IH [OF this(1) Suc.prems(2,3) this(2)] obtain m s' us vs where m: "m \<le> k" "shuffle_list_add rnd x (n + 1) ?s = Some (n + 1 + m + 1, s')"
      "xs = us @ vs" "rb_holds (sh_rb s') (us @ x # vs)" "sh_rand s' = (sh_rand ?s)(x := rnd (n + 1 + m))"
      "\<forall>a. a \<notin> set (x # xs) \<longrightarrow> rb_nodes (sh_rb s') a = rb_nodes (sh_rb ?s) a" "by_rand ?s xs \<longrightarrow> by_rand s' (us @ x # vs)" by blast
    have "sh_rand s' = (sh_rand s)(x := rnd (n + Suc m))" using m(5) by (simp add: shuffle_info_init_def)
    then show ?thesis using m(1-4,6,7) again i(1,3)
      by (intro exI [of _ "Suc m"] exI [of _ s'] exI [of _ us] exI [of _ vs]) auto
  next
    case False
    then have "p = 0 \<or> r \<noteq> 0" by auto
    from shuffle_add_now [of s xs x rnd n, OF Suc.prems(1-3) l(1) this] show ?thesis by (intro exI [of _ 0]) (simp only: add_0_right le0 simp_thms)
  qed
qed

section \<open>Shuffling again\<close>

lemma sh_root_simps [simp]:
  "rb_root (sh_rb (sh_root p s)) = p" "rb_nodes (sh_rb (sh_root p s)) = rb_nodes (sh_rb s)" "sh_rand (sh_root p s) = sh_rand s"
  "sh_root p (sh_root q s) = sh_root p s" "by_rand (sh_root p s) = by_rand s"
  by (simp_all add: sh_root_def by_rand_def fun_eq_iff)

text \<open>The random numbers vary: any fewer than \<open>N\<close> values are left some time.\<close>

definition varied :: "(nat \<Rightarrow> nat) \<Rightarrow> nat \<Rightarrow> bool" where
  "varied rnd N \<longleftrightarrow> (\<forall>n A. finite A \<longrightarrow> card A < N \<longrightarrow> (\<exists>k. rnd (n + k) \<notin> A))"

lemma next_head: "rb_holds rb (xs @ a # ys) \<Longrightarrow> next_or_null a rb = Some (head0 ys)"
  using rb_steps [of rb xs a ys] rb_holds_nodes(2) [of rb "xs @ a # ys"] by (auto simp: next_or_null_def)

lemma next_null [simp]: "next_or_null 0 rb = Some 0"
  by (simp add: next_or_null_def)

lemma reshuffle_loop:
  assumes "rb_holds (sh_rb s) xs" "rb_holds (sh_rb (sh_root r s)) ys" "by_rand s ys" "set xs \<inter> set ys = {}" "varied rnd N" "length xs + length ys \<le> N"
  shows "\<exists>r' n' s' zs. reshuffle_loop rnd (head0 xs) (head0 (tl xs)) r n s = Some (r', n', s') \<and> rb_holds (sh_rb (sh_root r' s')) zs \<and>
    by_rand s' zs \<and> mset zs = mset xs + mset ys"
  using assms
proof (induction xs arbitrary: s r n ys)
  case Nil
  then show ?case by (subst reshuffle_loop.simps) auto
next
  case (Cons x xs)
  have x: "x \<noteq> 0" "x \<notin> set xs" "x \<notin> set ys" "0 \<notin> set xs" using rb_holds_nodes(1,2) [OF Cons.prems(1)] Cons.prems(4) by auto
  obtain rb where e: "rb_erase x (sh_rb s) = Some rb" "rb_holds rb xs" "\<forall>b. b \<notin> set (x # xs) \<longrightarrow> rb_nodes rb b = rb_nodes (sh_rb s) b"
    using erase_head [of "sh_rb s" "[]" x xs] Cons.prems(1) by auto
  let ?s1 = "sh_root r (s\<lparr>sh_rb := rb\<rparr>)"
  have h1: "rb_holds (sh_rb ?s1) ys"
  proof (rule rb_holds_cong [OF Cons.prems(2)])
    fix a assume "a \<in> set ys"
    then have "a \<notin> set (x # xs)" using Cons.prems(4) by auto
    then show "rb_nodes (sh_rb ?s1) a = rb_nodes (sh_rb (sh_root r s)) a" using e(3) by (simp add: sh_root_def)
  qed (simp add: sh_root_def)
  have b1: "by_rand ?s1 ys" using Cons.prems(3) by (simp add: by_rand_def)
  have "card (sh_rand ?s1 ` set ys) < N" using card_image_le [of "set ys" "sh_rand ?s1"] card_length [of ys] Cons.prems(6) by simp
  then obtain k where k: "rnd (n + k) \<notin> sh_rand ?s1 ` set ys" using Cons.prems(5) unfolding varied_def by blast
  obtain m s' us vs where a: "shuffle_list_add rnd x n ?s1 = Some (n + m + 1, s')" "ys = us @ vs" "rb_holds (sh_rb s') (us @ x # vs)"
    "\<forall>a. a \<notin> set (x # ys) \<longrightarrow> rb_nodes (sh_rb s') a = rb_nodes (sh_rb ?s1) a" "by_rand s' (us @ x # vs)"
    using shuffle_add [of ?s1 ys x rnd n k, OF h1 x(1,3) k] b1 by blast
  let ?s2 = "sh_root (rb_root rb) s'"
  have h2: "rb_holds (sh_rb ?s2) xs"
  proof (rule rb_holds_cong [OF e(2)])
    fix b assume "b \<in> set xs"
    then have "b \<notin> set (x # ys)" using x(2) Cons.prems(4) by auto
    then show "rb_nodes (sh_rb ?s2) b = rb_nodes rb b" using a(4) by (simp add: sh_root_def)
  qed simp
  have t: "next_or_null (head0 xs) (sh_rb ?s2) = Some (head0 (tl xs))"
    using next_head [of "sh_rb ?s2" "[]"] h2 by (cases xs) auto
  have r2: "rb_holds (sh_rb (sh_root (rb_root (sh_rb s')) ?s2)) (us @ x # vs)" using a(3) by (simp add: sh_root_def)
  have "\<exists>r' n' s'' zs. reshuffle_loop rnd (head0 xs) (head0 (tl xs)) (rb_root (sh_rb s')) (n + m + 1) ?s2 = Some (r', n', s'') \<and>
      rb_holds (sh_rb (sh_root r' s'')) zs \<and> by_rand s'' zs \<and> mset zs = mset xs + mset (us @ x # vs)"
    by (rule Cons.IH [OF h2 r2]) (use a(2,5) x Cons.prems(4-6) in auto)
  moreover have "reshuffle_loop rnd x (head0 xs) r n s = reshuffle_loop rnd (head0 xs) (head0 (tl xs)) (rb_root (sh_rb s')) (n + m + 1) ?s2"
    using e(1) a(1) t x(1) by (subst reshuffle_loop.simps) (simp add: Let_def)
  ultimately show ?case using a(2) by simp
qed

lemma reshuffle:
  assumes "rb_holds (sh_rb s) xs" "varied rnd N" "length xs \<le> N"
  shows "\<exists>n' s' zs. shuffle_list_reshuffle rnd n s = Some (n', s') \<and> rb_holds (sh_rb s') zs \<and> by_rand s' zs \<and> mset zs = mset xs"
proof -
  have e: "rb_end L (sh_rb s) = Some (head0 xs)"
  proof (cases xs)
    case Nil
    then show ?thesis using rb_holds_nodes(3) [OF assms(1)] by (simp add: rb_end_def)
  next
    case (Cons x ys)
    then show ?thesis using rb_steps [of "sh_rb s" "[]" x ys] assms(1) by simp
  qed
  have t: "next_or_null (head0 xs) (sh_rb s) = Some (head0 (tl xs))"
    using next_head [of "sh_rb s" "[]"] assms(1) by (cases xs) auto
  have z: "rb_holds (sh_rb (sh_root 0 s)) []" "by_rand s []" by (simp_all add: rb_holds_empty by_rand_def)
  obtain r' n' s' zs where l: "reshuffle_loop rnd (head0 xs) (head0 (tl xs)) 0 n s = Some (r', n', s')" "rb_holds (sh_rb (sh_root r' s')) zs"
    "by_rand s' zs" "mset zs = mset xs"
    using reshuffle_loop [OF assms(1) z _ assms(2), of n] assms(3) by auto
  then have "shuffle_list_reshuffle rnd n s = Some (n', sh_root r' s')" using e t by (simp add: shuffle_list_reshuffle_def)
  then show ?thesis using l by (intro exI [of _ n'] exI [of _ "sh_root r' s'"] exI [of _ zs]) simp
qed

section \<open>A track behind another\<close>

lemma descend_not_null:
  assumes "descend d a s = Some p"
  shows "p \<noteq> 0"
proof (rule descend.raw_induct [where P = "\<lambda>d a s p. p \<noteq> 0", OF _ assms])
  fix desc :: "dir \<Rightarrow> nat \<Rightarrow> rb \<Rightarrow> nat option" and d a s p
  assume "\<And>d a s p. desc d a s = Some p \<Longrightarrow> p \<noteq> 0" "do { n \<leftarrow> rb_get a s; if rb_child n d = 0 then Some a else desc d (rb_child n d) s } = Some p"
  then show "p \<noteq> 0" by (cases "a = 0") (auto simp: rb_get_def split: if_splits)
qed

lemma link_place_descend:
  assumes "descend d a s = Some p"
  shows "(d = L \<longrightarrow> (\<forall>par d'. link_place par d' a s = Some (p, L))) \<and> rb_child (rb_nodes s p) d = 0"
proof (rule descend.raw_induct [where P = "\<lambda>d a s p. (d = L \<longrightarrow> (\<forall>par d'. link_place par d' a s = Some (p, L))) \<and> rb_child (rb_nodes s p) d = 0", OF _ assms])
  fix desc :: "dir \<Rightarrow> nat \<Rightarrow> rb \<Rightarrow> nat option" and d a s p
  assume 1: "\<And>d a s p. desc d a s = Some p \<Longrightarrow> (d = L \<longrightarrow> (\<forall>par d'. link_place par d' a s = Some (p, L))) \<and> rb_child (rb_nodes s p) d = 0"
    "do { n \<leftarrow> rb_get a s; if rb_child n d = 0 then Some a else desc d (rb_child n d) s } = Some p"
  have a: "a \<noteq> 0" using 1(2) by (cases "a = 0") (simp_all add: rb_get_def)
  have step: "link_place par d' a s = link_place a L (rb_child (rb_nodes s a) L) s" for par d'
    using a by (subst link_place.simps) (simp add: get_not_null)
  show "(d = L \<longrightarrow> (\<forall>par d'. link_place par d' a s = Some (p, L))) \<and> rb_child (rb_nodes s p) d = 0"
  proof (cases "rb_child (rb_nodes s a) d = 0")
    case True
    then have p: "p = a" using 1(2) a by (simp add: get_not_null)
    have "link_place a L 0 s = Some (a, L)" by (subst link_place.simps) simp
    then show ?thesis using step True p by auto
  next
    case False
    then have "desc d (rb_child (rb_nodes s a) d) s = Some p" using 1(2) a by (simp add: get_not_null)
    from 1(1) [OF this] show ?thesis using step by auto
  qed
qed

lemma link_place:
  "descend L a s = Some p \<Longrightarrow> link_place par d a s = Some (p, L) \<and> rb_child (rb_nodes s p) L = 0"
  using link_place_descend by blast

lemma insert_behind:
  assumes h: "rb_holds rb (us @ vs)" and new: "new \<noteq> 0" "new \<notin> set (us @ vs)" and prev: "previous = head0 (rev us)"
  shows "\<exists>p d rb1 rb2. (if previous \<noteq> 0 then do { n \<leftarrow> rb_get previous rb; link_place previous R (rb_child n R) rb } else link_place 0 L (rb_root rb) rb) = Some (p, d) \<and>
    rb_link_node new p d rb = Some rb1 \<and> rb_insert_color new rb1 = Some rb2 \<and> rb_holds rb2 (us @ new # vs)"
proof -
  note n = rb_holds_nodes [OF h]
  consider "us = []" "vs = []" | v ws where "vs = v # ws" "us = [] \<or> rb_child (rb_nodes rb previous) R \<noteq> 0"
    | ts where "us = ts @ [previous]" "rb_child (rb_nodes rb previous) R = 0"
    | ts where "us = ts @ [previous]" "rb_child (rb_nodes rb previous) R \<noteq> 0" "vs = []"
    using prev by (cases us rule: rev_cases; cases vs) auto
  then show ?thesis
  proof cases
    case 1
    then have "rb_root rb = 0" using n(3) by simp
    then show ?thesis using link_first [of rb new L] h new(1) 1 prev by (auto simp: link_place.simps)
  next
    case (2 v ws)
    have "\<exists>d. (if previous \<noteq> 0 then do { n \<leftarrow> rb_get previous rb; link_place previous R (rb_child n R) rb } else link_place 0 L (rb_root rb) rb) = Some (v, L) \<and>
        rb_child (rb_nodes rb v) L = 0"
    proof (cases us rule: rev_cases)
      case Nil
      then have "descend L (rb_root rb) rb = Some v" using rb_steps [of rb "[]" v ws] h 2(1) n(3) by (simp add: rb_end_def)
      from link_place [OF this, of 0 L] show ?thesis using Nil prev by simp
    next
      case (snoc ts q)
      then have q: "q = previous" "previous \<noteq> 0" "rb_child (rb_nodes rb previous) R \<noteq> 0" "rb_parent (rb_nodes rb previous) \<noteq> previous"
        using prev 2(2) n(2) n(4) [of previous] by auto
      then have "descend L (rb_child (rb_nodes rb previous) R) rb = Some v"
        using rb_steps [of rb ts previous vs] h snoc 2(1) by (simp add: rb_step_def get_not_null)
      from link_place [OF this, of previous R] show ?thesis using q by (simp add: get_not_null)
    qed
    then show ?thesis using link_insert [of rb us v ws new L] h new 2(1) by fastforce
  next
    case (3 ts)
    have "previous \<noteq> 0" using n(2) 3(1) by auto
    then have "(if previous \<noteq> 0 then do { n \<leftarrow> rb_get previous rb; link_place previous R (rb_child n R) rb } else link_place 0 L (rb_root rb) rb) = Some (previous, R)"
      using 3(2) by (simp add: get_not_null link_place.simps)
    moreover have "rb_holds rb (ts @ previous # vs)" "new \<notin> set (ts @ previous # vs)" using h new(2) 3(1) by auto
    ultimately show ?thesis using link_insert [of rb ts previous vs new R] new(1) 3 by fastforce
  next
    case (4 ts)
    have q: "previous \<noteq> 0" "rb_parent (rb_nodes rb previous) \<noteq> previous" using n(2) n(4) [of previous] 4(1) by auto
    then have "descend L (rb_child (rb_nodes rb previous) R) rb = Some 0"
      using rb_steps [of rb ts previous vs] h 4 by (simp add: rb_step_def get_not_null)
    then have False using descend_not_null by blast
    then show ?thesis ..
  qed
qed

section \<open>The next track\<close>

text \<open>The sequence in the direction of the walk.\<close>

definition along :: "dir \<Rightarrow> nat list \<Rightarrow> nat list" where
  "along d xs = (if d = R then xs else rev xs)"

lemma step_along:
  assumes "rb_holds rb xs" "along d xs = us @ a # vs"
  shows "rb_step d a rb = Some (head0 vs)"
proof (cases d)
  case L
  then have "xs = rev vs @ a # rev us" using arg_cong [OF assms(2), of rev] by (simp add: along_def)
  then show ?thesis using rb_steps [of rb "rev vs" a "rev us"] assms(1) L by simp
next
  case R
  then show ?thesis using rb_steps [of rb us a vs] assms by (simp add: along_def)
qed

lemma end_along:
  assumes "rb_holds rb xs"
  shows "rb_end (opp d) rb = Some (head0 (along d xs))"
proof (cases xs rule: rev_cases)
  case Nil
  then show ?thesis using rb_holds_nodes(3) [OF assms] by (simp add: rb_end_def along_def)
next
  case (snoc ys y)
  then obtain x zs where x: "xs = x # zs" using list.exhaust [of xs] by blast
  show ?thesis
  proof (cases d)
    case L
    then show ?thesis using rb_steps [of rb ys y "[]"] assms snoc by (simp add: along_def)
  next
    case R
    then show ?thesis using rb_steps [of rb "[]" x zs] assms x by (simp add: along_def)
  qed
qed

lemma filter_loop:
  "rb_holds rb xs \<Longrightarrow> along d xs = us @ vs \<Longrightarrow> filter_loop d p (head0 vs) rb = Some (first_ok p vs)"
proof (induction vs arbitrary: us)
  case Nil
  then show ?case by (subst filter_loop.simps) (simp add: first_ok_def)
next
  case (Cons a vs)
  have "a \<in> set xs" using Cons.prems(2) by (metis along_def in_set_conv_decomp set_rev)
  then have "a \<noteq> 0" using rb_holds_nodes(2) [OF Cons.prems(1)] by metis
  moreover have "along d xs = (us @ [a]) @ vs" using Cons.prems(2) by simp
  ultimately show ?case using Cons.IH [OF Cons.prems(1)] step_along [OF Cons.prems]
    by (subst filter_loop.simps) (simp add: first_ok_def)
qed

lemma first_ok_zero: "0 \<notin> set xs \<Longrightarrow> first_ok p xs = 0 \<longleftrightarrow> filter p xs = []"
proof -
  assume "0 \<notin> set xs"
  then have "0 \<notin> set (filter p xs)" by simp
  then show ?thesis by (cases "filter p xs") (auto simp: first_ok_def)
qed

lemma first_ok_append: "first_ok p (xs @ ys) = (if filter p xs = [] then first_ok p ys else first_ok p xs)"
  by (simp add: first_ok_def head0_append)

text \<open>What the rounds come to.\<close>

lemma get_shuffled:
  assumes h: "rb_holds (sh_rb s) xs" and o: "along d xs = us @ cur # vs" and cur: "p cur"
    and v: "auto_reshuffle \<longrightarrow> varied rnd (length xs)"
  shows "\<exists>n' s' ys. shuffle_list_get d repeat auto_reshuffle rnd cur p n s = Some (first_ok p (vs @ (if repeat then along d ys else [])), n', s') \<and>
    mset ys = mset xs \<and> (\<not> auto_reshuffle \<or> filter p vs \<noteq> [] \<longrightarrow> ys = xs \<and> s' = s) \<and> (\<exists>zs. rb_holds (sh_rb s') zs \<and> mset zs = mset xs)"
proof -
  have in_xs: "set (us @ cur # vs) = set xs" using o by (metis along_def set_rev)
  have nz0: "0 \<notin> set (us @ cur # vs)" unfolding in_xs by (rule rb_holds_nodes(2) [OF h])
  then have nz: "cur \<noteq> 0" "0 \<notin> set vs" by auto
  have "along d xs = (us @ [cur]) @ vs" using o by simp
  note pl = filter_loop [OF h this, of p]
  have start: "shuffle_list_get d repeat auto_reshuffle rnd cur p n s = rounds d repeat auto_reshuffle rnd p (head0 vs) n s"
    using nz(1) step_along [OF h o] by (simp add: shuffle_list_get_def)
  show ?thesis
  proof (cases "filter p vs = [] \<and> repeat")
    case False
    then have "rounds d repeat auto_reshuffle rnd p (head0 vs) n s = Some (first_ok p vs, n, s)"
      using pl first_ok_zero [OF nz(2), of p] by (subst rounds.simps) auto
    moreover have "first_ok p (vs @ (if repeat then along d xs else [])) = first_ok p vs" using False by (auto simp: first_ok_def head0_append)
    ultimately show ?thesis using start h by (intro exI [of _ n] exI [of _ s] exI [of _ xs]) auto
  next
    case True
    then have z: "first_ok p vs = 0" using first_ok_zero [OF nz(2)] by simp
    obtain n' s' ys where r: "reshuffle_if auto_reshuffle rnd n s = Some (n', s')" "rb_holds (sh_rb s') ys" "mset ys = mset xs"
      "\<not> auto_reshuffle \<longrightarrow> ys = xs \<and> s' = s"
    proof (cases auto_reshuffle)
      case True
      then obtain n' s' zs where "shuffle_list_reshuffle rnd n s = Some (n', s')" "rb_holds (sh_rb s') zs" "mset zs = mset xs"
        using reshuffle [OF h, of rnd "length xs" n] v by blast
      then show thesis using that True by (simp add: reshuffle_if_def)
    next
      case False
      then show thesis using that [of n s xs] h by (simp add: reshuffle_if_def)
    qed
    have nz': "0 \<notin> set (along d ys)" using rb_holds_nodes(2) [OF r(2)] by (simp add: along_def)
    have "cur \<in> set (along d ys)" using mset_eq_setD [OF r(3)] in_xs by (auto simp: along_def)
    then have ne: "first_ok p (along d ys) \<noteq> 0" using first_ok_zero [OF nz'] cur by (auto simp: filter_empty_conv)
    have "rounds d repeat auto_reshuffle rnd p (head0 vs) n s = rounds d repeat auto_reshuffle rnd p (head0 (along d ys)) n' s'"
      using pl z True r(1) end_along [OF r(2), of d] by (subst rounds.simps) simp
    also have "\<dots> = Some (first_ok p (along d ys), n', s')"
      using filter_loop [OF r(2), of d "[]" "along d ys" p] ne by (subst rounds.simps) simp
    finally show ?thesis using start r True by (intro exI [of _ n'] exI [of _ s'] exI [of _ ys]) (auto simp: first_ok_append)
  qed
qed

lemma shuffle_insert:
  assumes h: "rb_holds (sh_rb s) xs" and new: "new \<in> set xs" and prev: "previous = 0 \<or> previous \<in> set xs"
  shows "\<exists>s'. shuffle_insert previous new s = Some s' \<and> sh_rand s' = sh_rand s \<and>
    rb_holds (sh_rb s') (if previous = new then xs else if previous = 0 then new # remove1 new xs else insert_at R new previous (remove1 new xs))"
proof (cases "previous = new")
  case True
  have "new \<noteq> 0" using rb_holds_nodes(2) [OF h] new by metis
  then show ?thesis using True h by (simp add: shuffle_insert_def)
next
  case False
  note n = rb_holds_nodes(1,2) [OF h]
  have nn: "new \<noteq> 0" using n(2) new by metis
  obtain as bs where xs: "xs = as @ new # bs" using new by (meson split_list)
  then have rm: "remove1 new xs = as @ bs" "new \<notin> set (as @ bs)" using n(1) by (auto simp: remove1_append)
  obtain rb where e: "rb_erase new (sh_rb s) = Some rb" "rb_holds rb (as @ bs)" using erase_head [of "sh_rb s" as new bs] h xs by auto
  obtain us vs where uv: "as @ bs = us @ vs" "previous = head0 (rev us)"
    "us @ new # vs = (if previous = 0 then new # as @ bs else insert_at R new previous (as @ bs))"
  proof (cases "previous = 0")
    case True
    then show thesis using that [of "[]" "as @ bs"] by simp
  next
    case pz: False
    then have "previous \<in> set (as @ bs)" using prev xs False by auto
    then obtain ts ws where t: "as @ bs = ts @ previous # ws" by (meson split_list)
    then have "distinct (ts @ previous # ws)" using n(1) xs by (metis distinct_remove1 rm(1))
    then show thesis using that [of "ts @ [previous]" ws] t pz by (simp add: insert_at_split)
  qed
  have "rb_holds rb (us @ vs)" "new \<notin> set (us @ vs)" using e(2) rm(2) uv(1) by simp_all
  from insert_behind [OF this(1) nn this(2) uv(2)] obtain p d rb1 rb2 where
    "(if previous \<noteq> 0 then do { n \<leftarrow> rb_get previous rb; link_place previous R (rb_child n R) rb } else link_place 0 L (rb_root rb) rb) = Some (p, d)"
    "rb_link_node new p d rb = Some rb1" "rb_insert_color new rb1 = Some rb2" "rb_holds rb2 (us @ new # vs)" by blast
  then have "shuffle_insert previous new s = Some (s\<lparr>sh_rb := rb2\<rparr>)" "rb_holds rb2 (us @ new # vs)"
    using e(1) nn False by (simp_all add: shuffle_insert_def)
  then show ?thesis using uv(3) rm(1) False by (cases "previous = 0") simp_all
qed

section \<open>A random place in a list\<close>

text \<open>\<open>list_add_rand\<close>, with the value \<open>r\<close> of \<open>rand\<close> and the length \<open>nr\<close> of the list: forwards or backwards, whichever is shorter.\<close>

definition list_add_rand :: "nat \<Rightarrow> addr \<Rightarrow> addr \<Rightarrow> nat \<Rightarrow> links \<Rightarrow> links" where
  "list_add_rand r head a nr h =
     (let pos = r mod (nr + 1)
      in if pos \<le> nr div 2 then list_add a ((nxt h ^^ pos) head) h else list_add_tail a ((prv h ^^ (nr - pos)) head) h)"

lemma walk_forwards: "is_list h head xs \<Longrightarrow> k \<le> length xs \<Longrightarrow> (nxt h ^^ k) head = last (head # take k xs)"
proof (induction k)
  case (Suc k)
  have k: "k < length xs" using Suc.prems(2) by simp
  have x: "xs = take k xs @ drop k xs" by simp
  have "is_list h head (take k xs @ drop k xs)" using Suc.prems(1) by simp
  then have "nxt h (last (head # take k xs)) = hd (drop k xs @ [head])" by (simp only: is_list_split)
  also have "\<dots> = xs ! k" using k by (simp add: hd_append hd_drop_conv_nth)
  finally show ?case using Suc.IH [OF Suc.prems(1)] k by (simp add: take_Suc_conv_app_nth)
qed simp

lemma walk_backwards: "is_list h head xs \<Longrightarrow> k \<le> length xs \<Longrightarrow> (prv h ^^ k) head = hd (drop (length xs - k) xs @ [head])"
proof (induction k)
  case (Suc k)
  let ?i = "length xs - Suc k"
  have i: "?i < length xs" "length xs - k = Suc ?i" using Suc.prems(2) by simp_all
  have "is_list h head (take (Suc ?i) xs @ drop (Suc ?i) xs)" using Suc.prems(1) by simp
  then have "prv h (hd (drop (Suc ?i) xs @ [head])) = last (head # take (Suc ?i) xs)" by (simp only: is_list_split)
  also have "\<dots> = xs ! ?i" using i(1) by (simp add: take_Suc_conv_app_nth)
  also have "\<dots> = hd (drop ?i xs @ [head])" using i(1) by (simp add: hd_append hd_drop_conv_nth)
  finally show ?case using Suc.IH [OF Suc.prems(1)] Suc.prems(2) i(2) by simp
qed simp

lemma list_add_rand:
  assumes "is_list h head xs" "a \<notin> set (head # xs)"
  shows "is_list (list_add_rand r head a (length xs) h) head (take (r mod (length xs + 1)) xs @ a # drop (r mod (length xs + 1)) xs)"
proof -
  define pos where "pos = r mod (length xs + 1)"
  have pos: "pos \<le> length xs" unfolding pos_def using mod_less_divisor [of "length xs + 1" r] by linarith
  have l: "is_list h head (take pos xs @ drop pos xs)" "a \<notin> set (head # take pos xs @ drop pos xs)" using assms by simp_all
  have b: "nxt h (last (head # take pos xs)) = hd (drop pos xs @ [head])" "prv h (hd (drop pos xs @ [head])) = last (head # take pos xs)"
    using l(1) by (simp_all only: is_list_split)
  have "(nxt h ^^ pos) head = last (head # take pos xs)" "(prv h ^^ (length xs - pos)) head = hd (drop pos xs @ [head])"
    using walk_forwards [OF assms(1) pos] walk_backwards [OF assms(1), of "length xs - pos"] pos by simp_all
  then have "list_add_rand r head a (length xs) h = list_link a (last (head # take pos xs)) (hd (drop pos xs @ [head])) h"
    using b by (simp add: list_add_rand_def list_add_def list_add_tail_def pos_def Let_def)
  then show ?thesis using list_link_list(1) [OF l] by (simp add: pos_def)
qed

section \<open>Properties\<close>

text \<open>
  C35. Shuffling again ends, as long as the random numbers vary, without a fault: the new order is a permutation of the old one, ascending in the
  new numbers. Moving a track behind another one, or to the front, does just that.
\<close>

theorem reshuffle_permutes:
  assumes "rb_holds (sh_rb s) xs" "varied rnd (length xs)" "new \<in> set xs" "previous \<in> insert 0 (set xs)"
  shows "\<exists>n' s' s'' ys. shuffle_list_reshuffle rnd n s = Some (n', s') \<and> rb_holds (sh_rb s') ys \<and> by_rand s' ys \<and> mset ys = mset xs \<and>
    shuffle_insert previous new s' = Some s'' \<and>
    rb_holds (sh_rb s'') (if previous = new then ys else if previous = 0 then new # remove1 new ys else insert_at R new previous (remove1 new ys))"
proof -
  obtain n' s' ys where r: "shuffle_list_reshuffle rnd n s = Some (n', s')" "rb_holds (sh_rb s') ys" "by_rand s' ys" "mset ys = mset xs"
    using reshuffle [OF assms(1,2)] by blast
  have "new \<in> set ys" "previous = 0 \<or> previous \<in> set ys" using mset_eq_setD [OF r(4)] assms(3,4) by auto
  from shuffle_insert [OF r(2) this] show ?thesis using r by blast
qed

text \<open>
  C36. The next track in the shuffled order, and the previous one: the first behind the current track that passes the filter; when
  repeating, the search goes on with a whole round, in the same order or in a newly shuffled one. It ends when the current track passes.
\<close>

theorem next_shuffled_track:
  assumes "rb_holds (sh_rb s) xs" "along d xs = us @ cur # vs" "p cur" "varied rnd (length xs)"
  shows "\<exists>n' s' ys. shuffle_list_get d repeat auto_reshuffle rnd cur p n s = Some (first_ok p (vs @ (if repeat then along d ys else [])), n', s') \<and>
    mset ys = mset xs \<and> (auto_reshuffle \<and> filter p vs = [] \<or> (ys = xs \<and> s' = s))"
  using get_shuffled [of s xs d us cur vs p auto_reshuffle rnd repeat n] assms by blast

text \<open>The numbers 0 to 4 in turn, and three tracks.\<close>

definition turns :: "nat \<Rightarrow> nat" where
  "turns n = n mod 5"

lemma varied_turns: "varied turns 5"
  unfolding varied_def
proof (intro allI impI)
  fix n and A :: "nat set" assume A: "finite A" "card A < 5"
  have "\<exists>r < 5. r \<notin> A"
  proof (rule ccontr)
    assume "\<not> ?thesis"
    then have "{..<5} \<subseteq> A" by auto
    then have "card {..<5 :: nat} \<le> card A" using A(1) card_mono by blast
    then show False using A(2) by simp
  qed
  then obtain r where r: "r < 5" "r \<notin> A" by blast
  have "turns (n + (5 * n + r - n)) = r" using r(1) by (simp add: turns_def)
  then show "\<exists>k. turns (n + k) \<notin> A" using r(2) by metis
qed

definition three_shuffled :: shuffle where
  "three_shuffled = \<lparr>sh_rb = three, sh_rand = (\<lambda>a. 7 * a)\<rparr>"

theorem reshuffle_permutes_witness:
  "\<exists>n' s' s'' ys. shuffle_list_reshuffle turns 4 three_shuffled = Some (n', s') \<and> mset ys = {#1, 2, 3#} \<and> rb_holds (sh_rb s') ys \<and>
     shuffle_insert 0 3 s' = Some s'' \<and> rb_holds (sh_rb s'') (3 # remove1 3 ys)"
proof -
  have "varied turns (length [1, 2, 3 :: nat])" using varied_turns by (force simp: varied_def)
  from reshuffle_permutes [OF _ this, of three_shuffled 3 0 4] three(3) show ?thesis by (fastforce simp: three_shuffled_def)
qed

theorem next_shuffled_track_witness:
  "\<exists>n' s' ys. shuffle_list_get R True True turns 2 (\<lambda>a. a \<noteq> 3) 0 three_shuffled = Some (first_ok (\<lambda>a. a \<noteq> 3) (3 # ys), n', s') \<and> mset ys = {#1, 2, 3#}"
proof -
  have "varied turns (length [1, 2, 3 :: nat])" using varied_turns by (force simp: varied_def)
  from next_shuffled_track [OF _ _ _ this, of three_shuffled R "[1]" 2 "[3]" "\<lambda>a. a \<noteq> 3" True True 0] three(3)
  show ?thesis by (simp add: three_shuffled_def along_def)
qed

end
