(* ===== verification/Window.thy ===== *)
theory Window
  imports Prelude Simulation
begin

text \<open>
  The windows of \<^verbatim>\<open>src/app/window.c\<close> over the iterators of \<^verbatim>\<open>src/app/iter.h\<close>: a window shows \<open>nr_rows\<close> rows of a circular list from
  \<open>top\<close> on and has a selected row. The callbacks \<open>get_next\<close>, \<open>get_prev\<close> and \<open>selectable\<close> are arguments, and the simple lists' ones are
  defined as well. Loops that need not end are \<open>partial_function (option)\<close>. The theory proves that every operation on windows whose
  rows are all selectable keeps the selected row visible, except that \<open>window_page_bottom\<close> and \<open>window_page_middle\<close> need enough rows.
\<close>

section \<open>Iterators\<close>

text \<open>\<open>data0\<close> null; \<open>data0\<close> the list's head and the rest null; a row.\<close>

datatype 'r iter = Null | Head | At 'r

definition iter_is_null :: "'r iter \<Rightarrow> bool" where
  "iter_is_null it \<longleftrightarrow> it = Null"

definition iter_is_head :: "'r iter \<Rightarrow> bool" where
  "iter_is_head it \<longleftrightarrow> it = Head"

definition iter_is_empty :: "'r iter \<Rightarrow> bool" where
  "iter_is_empty it \<longleftrightarrow> it = Null \<or> it = Head"

text \<open>\<open>GENERIC_ITER_NEXT\<close> and \<open>GENERIC_ITER_PREV\<close> on the rows of a list.\<close>

fun generic_next :: "'r list \<Rightarrow> 'r iter \<Rightarrow> 'r iter \<times> bool" where
  "generic_next rows Null = (Null, False)"
| "generic_next rows Head = (case rows of [] \<Rightarrow> (Head, False) | r # _ \<Rightarrow> (At r, True))"
| "generic_next rows (At r) = (case dropWhile (\<lambda>x. x \<noteq> r) rows of _ # x # _ \<Rightarrow> (At x, True) | _ \<Rightarrow> (Head, False))"

definition generic_prev :: "'r list \<Rightarrow> 'r iter \<Rightarrow> 'r iter \<times> bool" where
  "generic_prev rows it = generic_next (rev rows) it"

section \<open>The model\<close>

text \<open>\<open>w_events\<close> counts the calls of the window's \<open>sel_changed\<close> callback.\<close>

record 'r window =
  w_head :: "'r iter"
  w_top :: "'r iter"
  w_sel :: "'r iter"
  w_nr_rows :: int
  w_changed :: bool
  w_events :: nat

type_synonym 'r step = "'r iter \<Rightarrow> 'r iter \<times> bool"

definition sel_changed :: "'r window \<Rightarrow> 'r window" where
  "sel_changed win = win\<lparr>w_changed := True, w_events := w_events win + 1\<rparr>"

definition window_new :: "'r window" where
  "window_new = \<lparr>w_head = Null, w_top = Null, w_sel = Null, w_nr_rows = 1, w_changed = True, w_events = 0\<rparr>"

definition window_set_empty :: "'r window \<Rightarrow> 'r window" where
  "window_set_empty win = sel_changed (win\<lparr>w_head := Null, w_top := Null, w_sel := Null\<rparr>)"

text \<open>\<open>while (!selectable(win, &win->sel)) get_next(&win->sel)\<close>\<close>

partial_function (option) skip_to :: "'r step \<Rightarrow> ('r iter \<Rightarrow> bool) \<Rightarrow> 'r iter \<Rightarrow> 'r iter option" where
  [code]: "skip_to step selectable it = (if selectable it then Some it else skip_to step selectable (fst (step it)))"

text \<open>The number of steps to a row: \<open>while (!iters_equal(&iter, &target)) ...\<close>\<close>

partial_function (option) dist :: "'r step \<Rightarrow> 'r iter \<Rightarrow> 'r iter \<Rightarrow> int \<Rightarrow> int option" where
  [code]: "dist step target it n = (if it = target then Some n else dist step target (fst (step it)) (n + 1))"

text \<open>Up to \<open>n\<close> steps as long as there are rows: how many, and where they lead.\<close>

primrec steps :: "nat \<Rightarrow> 'r step \<Rightarrow> 'r iter \<Rightarrow> nat \<times> 'r iter" where
  "steps 0 step it = (0, it)"
| "steps (Suc n) step it =
     (let (it', row) = step it in if row then (let (k, last) = steps n step it' in (Suc k, last)) else (0, it))"

definition repeat :: "int \<Rightarrow> 'r step \<Rightarrow> 'r iter \<Rightarrow> 'r iter" where
  "repeat n step it = ((\<lambda>it. fst (step it)) ^^ nat n) it"

definition window_set_contents :: "'r step \<Rightarrow> ('r iter \<Rightarrow> bool) \<Rightarrow> 'r window \<Rightarrow> 'r window option" where
  "window_set_contents get_next selectable win =
     (let first = fst (get_next Head)
      in do { sel \<leftarrow> skip_to get_next selectable first;
              Some (sel_changed (win\<lparr>w_head := Head, w_top := first, w_sel := sel\<rparr>)) })"

text \<open>The loop of \<open>window_up\<close> and \<open>window_down\<close>: the new selection, the selectable and the other rows passed.\<close>

partial_function (option) walk ::
    "'r step \<Rightarrow> ('r iter \<Rightarrow> bool) \<Rightarrow> int \<Rightarrow> 'r iter \<Rightarrow> 'r iter \<Rightarrow> int \<Rightarrow> int \<Rightarrow> ('r iter \<times> int \<times> int) option" where
  [code]: "walk step selectable rows it sel n skipped =
     (if n < rows
      then let (it', row) = step it
           in if \<not> row then Some (sel, n, skipped)
              else if selectable it' then walk step selectable rows it' it' (n + 1) skipped
              else walk step selectable rows it' sel n (skipped + 1)
      else Some (sel, n, skipped))"

definition window_up :: "int \<Rightarrow> 'r step \<Rightarrow> 'r step \<Rightarrow> ('r iter \<Rightarrow> bool) \<Rightarrow> int \<Rightarrow> 'r window \<Rightarrow> 'r window option" where
  "window_up scroll_offset get_prev get_next selectable rows win =
     do { buffer \<leftarrow> dist get_next (w_sel win) (w_top win) 0;
          (sel, sel_up, skipped) \<leftarrow> walk get_prev selectable rows (w_sel win) (w_sel win) 0 0;
          let upper_bound = (if sel_up = 0 then min (buffer + rows) (c_div (w_nr_rows win) 2)
                             else min scroll_offset (c_div (w_nr_rows win) 2));
          let skipped = (if sel_up = 0 then 0 else skipped);
          let actual_offset = int (fst (steps (nat upper_bound) get_prev sel));
          let win = win\<lparr>w_sel := sel, w_top := repeat (actual_offset + sel_up + skipped - buffer) get_prev (w_top win)\<rparr>;
          Some (if sel_up > 0 \<or> actual_offset > 0 then sel_changed win else win) }"

definition window_down :: "int \<Rightarrow> 'r step \<Rightarrow> ('r iter \<Rightarrow> bool) \<Rightarrow> int \<Rightarrow> 'r window \<Rightarrow> 'r window option" where
  "window_down scroll_offset get_next selectable rows win =
     do { n \<leftarrow> dist get_next (w_sel win) (w_top win) 0;
          let buffer = w_nr_rows win - 1 - n;
          (sel, sel_down, skipped) \<leftarrow> walk get_next selectable rows (w_sel win) (w_sel win) 0 0;
          let upper_bound = (if sel_down = 0 then min (buffer + rows) (c_div (w_nr_rows win - 1) 2)
                             else min scroll_offset (c_div (w_nr_rows win - 1) 2));
          let skipped = (if sel_down = 0 then 0 else skipped);
          let actual_offset = int (fst (steps (nat upper_bound) get_next sel));
          let win = win\<lparr>w_sel := sel, w_top := repeat (actual_offset + sel_down + skipped - buffer) get_next (w_top win)\<rparr>;
          Some (if sel_down > 0 \<or> actual_offset > 0 then sel_changed win else win) }"

text \<open>
  The loop of \<open>window_changed\<close> from \<open>top\<close> to the selection: its length, or none when it ends at the last row first.
\<close>

partial_function (option) dist_rows :: "'r step \<Rightarrow> 'r iter \<Rightarrow> 'r iter \<Rightarrow> int \<Rightarrow> int option option" where
  [code]: "dist_rows step target it n =
     (if it = target then Some (Some n)
      else let (it', row) = step it in if \<not> row then Some None else dist_rows step target it' (n + 1))"

text \<open>The two loops under \<open>minimize\<close>.\<close>

definition minimize :: "'r step \<Rightarrow> 'r step \<Rightarrow> 'r window \<Rightarrow> 'r window" where
  "minimize get_prev get_next win =
     (let rows = 1 + int (fst (steps (nat (w_nr_rows win - 1)) get_next (w_top win)))
      in win\<lparr>w_top := snd (steps (nat (w_nr_rows win - rows)) get_prev (w_top win)), w_changed := True\<rparr>)"

definition window_changed :: "'r step \<Rightarrow> 'r step \<Rightarrow> 'r window \<Rightarrow> 'r window option" where
  "window_changed get_prev get_next win =
     (if iter_is_null (w_head win)
      then do { bug_unless (iter_is_null (w_top win)); bug_unless (iter_is_null (w_sel win)); Some win }
      else do { bug_unless (\<not> iter_is_null (w_top win));
                bug_unless (\<not> iter_is_null (w_sel win));
                if iter_is_head (w_top win)
                then let top = fst (get_next (w_top win)) in Some (sel_changed (win\<lparr>w_top := top, w_sel := top\<rparr>))
                else do { delta \<leftarrow> dist_rows get_next (w_sel win) (w_top win) 0;
                          top \<leftarrow> (case delta of
                                    None \<Rightarrow> map_option (\<lambda>n. repeat n get_prev (w_top win)) (dist get_prev (w_sel win) (w_top win) 0)
                                  | Some n \<Rightarrow> Some (repeat (n - (w_nr_rows win - 1)) get_next (w_top win)));
                          Some (minimize get_prev get_next (win\<lparr>w_top := top\<rparr>)) } })"

definition window_set_nr_rows :: "'r step \<Rightarrow> 'r step \<Rightarrow> int \<Rightarrow> 'r window \<Rightarrow> 'r window option" where
  "window_set_nr_rows get_prev get_next nr_rows win =
     (if nr_rows < 1 then Some win
      else map_option (\<lambda>win. win\<lparr>w_changed := True\<rparr>) (window_changed get_prev get_next (win\<lparr>w_nr_rows := nr_rows\<rparr>)))"

text \<open>The distance to the next selectable row, 0 when there is none.\<close>

partial_function (option) next_selectable :: "'r step \<Rightarrow> ('r iter \<Rightarrow> bool) \<Rightarrow> 'r iter \<Rightarrow> int \<Rightarrow> (int \<times> 'r iter) option" where
  [code]: "next_selectable step selectable it n =
     (let (it', row) = step it
      in if \<not> row then Some (0, it') else if selectable it' then Some (n + 1, it') else next_selectable step selectable it' (n + 1))"

text \<open>The first statement of \<open>window_row_vanishes\<close>.\<close>

definition empty_if_only_row :: "'r step \<Rightarrow> 'r step \<Rightarrow> 'r iter \<Rightarrow> 'r window \<Rightarrow> 'r window" where
  "empty_if_only_row get_prev get_next it win =
     (let (new, row) = get_next it in if \<not> row \<and> \<not> snd (get_prev new) then window_set_empty win else win)"

definition window_row_vanishes :: "'r step \<Rightarrow> 'r step \<Rightarrow> ('r iter \<Rightarrow> bool) \<Rightarrow> 'r iter \<Rightarrow> 'r window \<Rightarrow> 'r window option" where
  "window_row_vanishes get_prev get_next selectable it win =
     (let win = empty_if_only_row get_prev get_next it win
      in do { bug_unless (iter_is_null it = iter_is_null (w_head win));
              let win = (if w_top win = it
                         then win\<lparr>w_top := (if snd (get_next it) then fst (get_next it) else fst (get_prev it))\<rparr> else win);
              win \<leftarrow> (if w_sel win = it
                       then do { (down, d) \<leftarrow> next_selectable get_next selectable it 0;
                                 (up, u) \<leftarrow> next_selectable get_prev selectable it 0;
                                 Some (sel_changed (win\<lparr>w_sel :=
                                   (if down > 0 \<and> (up = 0 \<or> down \<le> up) then d else if up > 0 then u
                                    else case it of Null \<Rightarrow> Null | _ \<Rightarrow> Head)\<rparr>)) }
                       else Some win);
              Some (win\<lparr>w_changed := True\<rparr>) })"

definition window_get_top :: "'r window \<Rightarrow> 'r iter \<times> bool" where
  "window_get_top win = (w_top win, \<not> iter_is_empty (w_top win))"

definition window_get_sel :: "'r window \<Rightarrow> 'r iter \<times> bool" where
  "window_get_sel win = (w_sel win, \<not> iter_is_empty (w_sel win))"

text \<open>The new top row when row \<open>sel_nr\<close> gets selected, the two branches of \<open>window_set_sel\<close>.\<close>

definition scroll_up_to :: "int \<Rightarrow> 'r step \<Rightarrow> 'r iter \<Rightarrow> 'r iter \<Rightarrow> int \<Rightarrow> 'r iter" where
  "scroll_up_to upper_bound get_prev first it sel_nr = (if sel_nr < upper_bound then first else repeat upper_bound get_prev it)"

definition scroll_down_to :: "int \<Rightarrow> 'r step \<Rightarrow> 'r iter \<Rightarrow> int \<Rightarrow> int \<Rightarrow> 'r window \<Rightarrow> 'r iter" where
  "scroll_down_to upper_bound get_next it top_nr sel_nr win =
     (let rest = top_nr + w_nr_rows win - 1 - sel_nr;
          (k, last) = steps (nat rest) get_next it;
          (top, bottom_nr, tmp) =
            (if sel_nr \<ge> top_nr + w_nr_rows win
             then (repeat (sel_nr - top_nr - w_nr_rows win + 1) get_next (w_top win), sel_nr, it)
             else (w_top win, if int k < rest then sel_nr + upper_bound else sel_nr + int k, last))
      in repeat (int (fst (steps (nat (sel_nr + upper_bound - bottom_nr)) get_next tmp))) get_next top)"

definition window_set_sel :: "int \<Rightarrow> 'r step \<Rightarrow> 'r step \<Rightarrow> 'r iter \<Rightarrow> 'r window \<Rightarrow> 'r window option" where
  "window_set_sel scroll_offset get_prev get_next it win =
     do { bug_unless (\<not> iter_is_empty (w_top win));
          bug_unless (\<not> iter_is_empty it);
          bug_unless (\<not> iter_is_null (w_head win));
          if w_sel win = it then Some win
          else do { let first = fst (get_next (w_head win));
                    top_nr \<leftarrow> dist get_next (w_top win) first 0;
                    d \<leftarrow> dist_rows get_next it first 0;
                    sel_nr \<leftarrow> d;
                    let up = min scroll_offset (c_div (w_nr_rows win) 2);
                    let down = min scroll_offset (c_div (w_nr_rows win - 1) 2);
                    let top = (if sel_nr < top_nr + up then scroll_up_to up get_prev first it sel_nr
                               else scroll_down_to down get_next it top_nr sel_nr win);
                    Some (sel_changed (win\<lparr>w_sel := it, w_top := top\<rparr>)) } }"

text \<open>The call of \<open>sel_changed\<close> that depends on whether the selection changed.\<close>

definition if_changed :: "'r iter \<Rightarrow> 'r window \<Rightarrow> 'r window" where
  "if_changed old_sel win = (if old_sel \<noteq> w_sel win then sel_changed win else win)"

definition window_goto_top :: "'r step \<Rightarrow> ('r iter \<Rightarrow> bool) \<Rightarrow> 'r window \<Rightarrow> 'r window option" where
  "window_goto_top get_next selectable win =
     (let top = fst (get_next (w_head win))
      in do { sel \<leftarrow> skip_to get_next selectable top;
              Some (if_changed (w_sel win) (win\<lparr>w_top := top, w_sel := sel\<rparr>)) })"

definition window_goto_bottom :: "'r step \<Rightarrow> ('r iter \<Rightarrow> bool) \<Rightarrow> 'r window \<Rightarrow> 'r window option" where
  "window_goto_bottom get_prev selectable win =
     (let last = fst (get_prev (w_head win))
      in do { sel \<leftarrow> skip_to get_prev selectable last;
              Some (if_changed (w_sel win) (win\<lparr>w_top := snd (steps (nat (w_nr_rows win - 1)) get_prev last), w_sel := sel\<rparr>)) })"

text \<open>The loop of the page movements: \<open>bound\<close> is the iterator that stops the loop, \<open>top\<close> the new top row.\<close>

primrec page_loop :: "nat \<Rightarrow> 'r step \<Rightarrow> ('r iter \<Rightarrow> bool) \<Rightarrow> 'r iter \<Rightarrow> 'r iter \<Rightarrow> 'r iter \<Rightarrow> 'r window \<Rightarrow> 'r window" where
  "page_loop 0 step selectable sel bound tp win = win"
| "page_loop (Suc n) step selectable sel bound tp win =
     (let (sel, r1) = step sel; (bound, r2) = step bound; tp = fst (step tp)
      in if \<not> r1 \<or> \<not> r2 then win
         else page_loop n step selectable sel bound tp (if selectable sel then win\<lparr>w_sel := sel, w_top := tp\<rparr> else win))"

definition window_bottom :: "'r step \<Rightarrow> 'r window \<Rightarrow> 'r iter" where
  "window_bottom get_next win = snd (steps (nat (w_nr_rows win - 1)) get_next (w_top win))"

definition window_page_up :: "'r step \<Rightarrow> ('r iter \<Rightarrow> bool) \<Rightarrow> 'r window \<Rightarrow> 'r window" where
  "window_page_up get_prev selectable win =
     sel_changed (page_loop (nat (w_nr_rows win - 1)) get_prev selectable (w_sel win) (w_top win) (w_top win) win)"

definition window_half_page_up :: "'r step \<Rightarrow> ('r iter \<Rightarrow> bool) \<Rightarrow> 'r window \<Rightarrow> 'r window" where
  "window_half_page_up get_prev selectable win =
     sel_changed (page_loop (nat (c_div (w_nr_rows win - 1) 2)) get_prev selectable (w_sel win) (w_top win) (w_top win) win)"

definition window_page_down :: "'r step \<Rightarrow> ('r iter \<Rightarrow> bool) \<Rightarrow> 'r window \<Rightarrow> 'r window" where
  "window_page_down get_next selectable win =
     sel_changed (page_loop (nat (w_nr_rows win - 1)) get_next selectable (w_sel win) (window_bottom get_next win) (w_top win) win)"

definition window_half_page_down :: "'r step \<Rightarrow> ('r iter \<Rightarrow> bool) \<Rightarrow> 'r window \<Rightarrow> 'r window" where
  "window_half_page_down get_next selectable win =
     sel_changed (page_loop (nat (c_div (w_nr_rows win - 1) 2)) get_next selectable (w_sel win) (window_bottom get_next win) (w_top win) win)"

definition window_scroll_down :: "'r step \<Rightarrow> ('r iter \<Rightarrow> bool) \<Rightarrow> 'r window \<Rightarrow> 'r window option" where
  "window_scroll_down get_next selectable win =
     (let (top, row) = get_next (w_top win)
      in if \<not> snd (get_next (window_bottom get_next win)) \<or> \<not> row then Some win
         else do { sel \<leftarrow> skip_to get_next selectable (if w_top win = w_sel win then fst (get_next (w_sel win)) else w_sel win);
                   Some (sel_changed (win\<lparr>w_sel := sel, w_top := top\<rparr>)) })"

definition window_scroll_up :: "'r step \<Rightarrow> 'r step \<Rightarrow> ('r iter \<Rightarrow> bool) \<Rightarrow> 'r window \<Rightarrow> 'r window option" where
  "window_scroll_up get_prev get_next selectable win =
     (let (top, row) = get_prev (w_top win)
      in if \<not> row then Some win
         else do { sel \<leftarrow> skip_to get_prev selectable (if window_bottom get_next win = w_sel win then fst (get_prev (w_sel win)) else w_sel win);
                   Some (sel_changed (win\<lparr>w_sel := sel, w_top := top\<rparr>)) })"

definition window_goto_pos :: "'r step \<Rightarrow> int \<Rightarrow> 'r window \<Rightarrow> 'r window" where
  "window_goto_pos get_next pos win = if_changed (w_sel win) (win\<lparr>w_sel := repeat pos get_next (w_top win)\<rparr>)"

definition window_page_top :: "'r step \<Rightarrow> ('r iter \<Rightarrow> bool) \<Rightarrow> 'r window \<Rightarrow> 'r window option" where
  "window_page_top get_next selectable win =
     (let win = window_goto_pos get_next 0 win in map_option (\<lambda>sel. win\<lparr>w_sel := sel\<rparr>) (skip_to get_next selectable (w_sel win)))"

definition window_page_bottom :: "'r step \<Rightarrow> 'r step \<Rightarrow> ('r iter \<Rightarrow> bool) \<Rightarrow> 'r window \<Rightarrow> 'r window option" where
  "window_page_bottom get_prev get_next selectable win =
     (let win = window_goto_pos get_next (w_nr_rows win - 1) win
      in map_option (\<lambda>sel. win\<lparr>w_sel := sel\<rparr>) (skip_to get_prev selectable (w_sel win)))"

definition window_page_middle :: "'r step \<Rightarrow> ('r iter \<Rightarrow> bool) \<Rightarrow> 'r window \<Rightarrow> 'r window option" where
  "window_page_middle get_next selectable win =
     (let win = window_goto_pos get_next (c_div (w_nr_rows win) 2) win
      in map_option (\<lambda>sel. win\<lparr>w_sel := sel\<rparr>) (skip_to get_next selectable (w_sel win)))"

section \<open>The selected row is visible\<close>

text \<open>The top row is row \<open>t\<close>, the selected one is row \<open>s\<close>.\<close>

definition placed :: "'r list \<Rightarrow> 'r window \<Rightarrow> nat \<Rightarrow> nat \<Rightarrow> bool" where
  "placed rows win t s \<longleftrightarrow> distinct rows \<and> w_head win = Head \<and> w_top win = At (rows ! t) \<and> w_sel win = At (rows ! s) \<and>
     t \<le> s \<and> s < length rows \<and> int s < int t + w_nr_rows win"

definition visible :: "'r list \<Rightarrow> 'r window \<Rightarrow> bool" where
  "visible rows win \<longleftrightarrow> 1 \<le> w_nr_rows win \<and>
     (if rows = [] then w_head win = Head \<and> w_top win = Head \<and> w_sel win = Head else \<exists>t s. placed rows win t s)"

lemma sel_changed_simps [simp]:
  "w_head (sel_changed win) = w_head win" "w_top (sel_changed win) = w_top win" "w_sel (sel_changed win) = w_sel win"
  "w_nr_rows (sel_changed win) = w_nr_rows win"
  by (simp_all add: sel_changed_def)

lemma placed_sel_changed [simp]: "placed rows (sel_changed win) t s = placed rows win t s"
  by (simp add: placed_def)

lemma visible_sel_changed [simp]: "visible rows (sel_changed win) = visible rows win"
  unfolding visible_def placed_def sel_changed_simps ..

lemma visible_changed [simp]: "visible rows (win\<lparr>w_changed := b\<rparr>) = visible rows win"
proof -
  have "placed rows (win\<lparr>w_changed := b\<rparr>) = placed rows win" by (simp add: placed_def fun_eq_iff)
  then show ?thesis by (simp add: visible_def)
qed

lemma visible_if: "visible rows (if b then sel_changed win else win) = visible rows win"
  by simp

lemma if_changed_simps [simp]:
  "visible rows (if_changed old win) = visible rows win" "w_sel (if_changed old win) = w_sel win" "w_top (if_changed old win) = w_top win"
  "w_head (if_changed old win) = w_head win" "w_nr_rows (if_changed old win) = w_nr_rows win"
  by (simp_all add: if_changed_def)

lemma visibleI: "placed rows win t s \<Longrightarrow> 1 \<le> w_nr_rows win \<Longrightarrow> visible rows win"
  unfolding visible_def by (cases "rows = []") (auto simp: placed_def [of "[]"])

lemma visible_cong:
  "w_head v = w_head win \<Longrightarrow> w_top v = w_top win \<Longrightarrow> w_sel v = w_sel win \<Longrightarrow> w_nr_rows v = w_nr_rows win \<Longrightarrow> visible rows v = visible rows win"
  unfolding visible_def placed_def by simp

lemma visible_update:
  "distinct rows \<Longrightarrow> w_head win = Head \<Longrightarrow> 1 \<le> w_nr_rows win \<Longrightarrow> t \<le> s \<Longrightarrow> s < length rows \<Longrightarrow> int s < int t + w_nr_rows win \<Longrightarrow>
    visible rows (win\<lparr>w_sel := At (rows ! s), w_top := At (rows ! t)\<rparr>)"
  by (rule visibleI [of _ _ t s]) (simp_all add: placed_def)

lemma visibleE:
  assumes "visible rows win" "rows \<noteq> []"
  obtains t s where "placed rows win t s" "distinct rows" "w_head win = Head" "w_top win = At (rows ! t)" "w_sel win = At (rows ! s)"
    "t \<le> s" "s < length rows" "t < length rows" "int s < int t + w_nr_rows win" "1 \<le> w_nr_rows win"
  using assms unfolding visible_def placed_def by auto

text \<open>The rows after row \<open>i\<close> has been removed.\<close>

definition without :: "nat \<Rightarrow> 'r list \<Rightarrow> 'r list" where
  "without i rows = take i rows @ drop (Suc i) rows"

lemma without_length: "i < length rows \<Longrightarrow> length (without i rows) = length rows - 1"
  by (simp add: without_def)

lemma without_nth: "i < length rows \<Longrightarrow> j < length rows - 1 \<Longrightarrow> without i rows ! j = (if j < i then rows ! j else rows ! Suc j)"
  by (simp add: without_def nth_append)

lemma distinct_without: "distinct rows \<Longrightarrow> distinct (without i rows)"
  by (auto simp: without_def set_take_disj_set_drop_if_distinct)

lemma half: "0 \<le> n \<Longrightarrow> c_div n 2 = n div 2" for n :: int
  by (simp add: c_div_nonneg)

section \<open>The contract of the iterators\<close>

locale row_iterators =
  fixes get_next :: "'r list \<Rightarrow> 'r step" and get_prev :: "'r list \<Rightarrow> 'r step"
  assumes next_head: "get_next rows Head = (if rows = [] then (Head, False) else (At (hd rows), True))"
    and prev_head: "get_prev rows Head = (if rows = [] then (Head, False) else (At (last rows), True))"
    and next_at: "distinct rows \<Longrightarrow> i < length rows \<Longrightarrow>
      get_next rows (At (rows ! i)) = (if Suc i < length rows then (At (rows ! Suc i), True) else (Head, False))"
    and prev_at: "distinct rows \<Longrightarrow> i < length rows \<Longrightarrow>
      get_prev rows (At (rows ! i)) = (if i = 0 then (Head, False) else (At (rows ! (i - 1)), True))"
begin

lemma at_inj: "distinct rows \<Longrightarrow> i < length rows \<Longrightarrow> j < length rows \<Longrightarrow> At (rows ! i) = At (rows ! j) \<longleftrightarrow> i = j"
  by (simp add: nth_eq_iff_index_eq)

lemma repeat_next:
  "distinct rows \<Longrightarrow> i + k < length rows \<Longrightarrow> ((\<lambda>it. fst (get_next rows it)) ^^ k) (At (rows ! i)) = At (rows ! (i + k))"
  by (induction k) (simp_all add: next_at)

lemma repeat_prev:
  "distinct rows \<Longrightarrow> i < length rows \<Longrightarrow> k \<le> i \<Longrightarrow> ((\<lambda>it. fst (get_prev rows it)) ^^ k) (At (rows ! i)) = At (rows ! (i - k))"
  by (induction k) (auto simp: prev_at)

lemma steps_next:
  "distinct rows \<Longrightarrow> i < length rows \<Longrightarrow>
    steps n (get_next rows) (At (rows ! i)) = (let k = min n (length rows - 1 - i) in (k, At (rows ! (i + k))))"
proof (induction n arbitrary: i)
  case (Suc n)
  show ?case
  proof (cases "Suc i < length rows")
    case True
    then have "length rows - 1 - i = Suc (length rows - 1 - Suc i)" by simp
    then show ?thesis using True Suc.prems Suc.IH [of "Suc i"] by (simp add: next_at Let_def)
  next
    case False
    then show ?thesis using Suc.prems by (simp add: next_at Let_def)
  qed
qed simp

lemma steps_prev:
  "distinct rows \<Longrightarrow> i < length rows \<Longrightarrow>
    steps n (get_prev rows) (At (rows ! i)) = (let k = min n i in (k, At (rows ! (i - k))))"
proof (induction n arbitrary: i)
  case (Suc n)
  then show ?case using Suc.IH [of "i - 1"] by (cases i) (simp_all add: prev_at Let_def)
qed simp

lemma dist_next:
  "distinct rows \<Longrightarrow> t \<le> s \<Longrightarrow> s < length rows \<Longrightarrow> dist (get_next rows) (At (rows ! s)) (At (rows ! t)) n = Some (n + int (s - t))"
proof (induction "s - t" arbitrary: t n)
  case 0
  then show ?case by (subst dist.simps) simp
next
  case (Suc d)
  then have "t < s" by simp
  then show ?case using Suc(1) [of "Suc t" "n + 1"] Suc(2-)
      at_inj [of rows t s] by (subst dist.simps) (auto simp: next_at)
qed

lemma dist_rows_next:
  "distinct rows \<Longrightarrow> t \<le> s \<Longrightarrow> s < length rows \<Longrightarrow> dist_rows (get_next rows) (At (rows ! s)) (At (rows ! t)) n = Some (Some (n + int (s - t)))"
proof (induction "s - t" arbitrary: t n)
  case 0
  then show ?case by (subst dist_rows.simps) simp
next
  case (Suc d)
  then have "t < s" by simp
  then show ?case using Suc(1) [of "Suc t" "n + 1"] Suc(2-)
      at_inj [of rows t s] by (subst dist_rows.simps) (auto simp: next_at Let_def)
qed

lemma skip_all [simp]: "skip_to step (\<lambda>_. True) it = Some it"
  by (subst skip_to.simps) simp

lemma walk_up_rows:
  "distinct rows \<Longrightarrow> s < length rows \<Longrightarrow> 0 \<le> n \<Longrightarrow>
    walk (get_prev rows) (\<lambda>_. True) k (At (rows ! s)) (At (rows ! s)) n sk =
      (let d = min (nat (k - n)) s in Some (At (rows ! (s - d)), n + int d, sk))"
proof (induction s arbitrary: n)
  case 0
  then show ?case by (subst walk.simps) (simp add: prev_at Let_def)
next
  case (Suc s)
  show ?case
  proof (cases "n < k")
    case True
    then have "nat (k - n) = Suc (nat (k - (n + 1)))" by simp
    then show ?thesis using True Suc.prems Suc.IH [of "n + 1"] by (subst walk.simps) (simp add: prev_at Let_def)
  qed (subst walk.simps, simp)
qed

lemma walk_down_rows:
  "distinct rows \<Longrightarrow> s < length rows \<Longrightarrow> 0 \<le> n \<Longrightarrow>
    walk (get_next rows) (\<lambda>_. True) k (At (rows ! s)) (At (rows ! s)) n sk =
      (let d = min (nat (k - n)) (length rows - 1 - s) in Some (At (rows ! (s + d)), n + int d, sk))"
proof (induction "length rows - 1 - s" arbitrary: s n)
  case 0
  then show ?case by (subst walk.simps) (simp add: next_at Let_def)
next
  case (Suc d)
  then have s: "Suc s < length rows" "length rows - 1 - s = Suc (length rows - 1 - Suc s)" by simp_all
  show ?case
  proof (cases "n < k")
    case True
    then have "nat (k - n) = Suc (nat (k - (n + 1)))" by simp
    then show ?thesis using True s Suc(1) [of "Suc s" "n + 1"] Suc(2-) by (subst walk.simps) (simp add: next_at Let_def)
  qed (subst walk.simps, simp)
qed

lemma up_visible:
  assumes "visible rows win" "0 \<le> scroll_offset" "0 \<le> k"
  shows "\<exists>win'. window_up scroll_offset (get_prev rows) (get_next rows) (\<lambda>_. True) k win = Some win' \<and> visible rows win'"
proof (cases "rows = []")
  case True
  then have "walk (get_prev rows) (\<lambda>_. True) k Head Head 0 0 = Some (Head, 0, 0)"
    by (subst walk.simps) (simp add: prev_head)
  moreover have "fst (steps n (get_prev rows) Head) = 0" for n using True by (cases n) (simp_all add: prev_head)
  moreover have "dist (get_next rows) Head Head 0 = Some 0" by (subst dist.simps) simp
  ultimately show ?thesis using assms True by (simp add: visible_def window_up_def repeat_def Let_def)
next
  case False
  then obtain t s where ts: "distinct rows" "w_head win = Head" "w_top win = At (rows ! t)" "w_sel win = At (rows ! s)"
    "t \<le> s" "s < length rows" "t < length rows" "int s < int t + w_nr_rows win" "1 \<le> w_nr_rows win"
    using visibleE [OF assms(1)] by blast
  define d where "d = min (nat k) s"
  define u where "u = nat (if int d = 0 then min (int (s - t) + k) (c_div (w_nr_rows win) 2) else min scroll_offset (c_div (w_nr_rows win) 2))"
  define a where "a = min u (s - d)"
  define j where "j = nat (int a + int d - int (s - t))"
  have d: "d \<le> s" "a \<le> s - d" by (simp_all add: d_def a_def)
  then have j: "j \<le> t" using ts(5) by (simp add: j_def)
  have "int u \<le> w_nr_rows win div 2" using assms ts(9) by (auto simp: u_def half)
  then have a: "int a \<le> w_nr_rows win div 2" by (simp add: a_def)
  let ?win = "win\<lparr>w_sel := At (rows ! (s - d)), w_top := At (rows ! (t - j))\<rparr>"
  have b: "dist (get_next rows) (At (rows ! s)) (At (rows ! t)) 0 = Some (int (s - t))"
    using dist_next [OF ts(1,5,6), of 0] by simp
  have w: "walk (get_prev rows) (\<lambda>_. True) k (At (rows ! s)) (At (rows ! s)) 0 0 = Some (At (rows ! (s - d)), int d, 0)"
    using walk_up_rows [OF ts(1,6), of 0 k 0] by (simp add: d_def Let_def)
  have st: "fst (steps u (get_prev rows) (At (rows ! (s - d)))) = a"
    using steps_prev [of rows "s - d" u] ts(1,6) by (simp add: a_def Let_def)
  have top: "repeat (int a + int d + 0 - int (s - t)) (get_prev rows) (At (rows ! t)) = At (rows ! (t - j))"
    using repeat_prev [OF ts(1,7) j] by (simp add: repeat_def j_def)
  have "window_up scroll_offset (get_prev rows) (get_next rows) (\<lambda>_. True) k win = Some (if int d > 0 \<or> int a > 0 then sel_changed ?win else ?win)"
    by (simp only: window_up_def ts(3,4) b w Option.bind.bind_lunit prod.case Let_def u_def [symmetric] st if_cancel top)
  moreover have "placed rows ?win (t - j) (s - d)"
  proof -
    have "t - j \<le> s - d" "int (s - d) < int (t - j) + w_nr_rows win"
      using d ts(5,8) a j by (auto simp: j_def of_nat_diff split: nat_diff_split)
    then show ?thesis using ts by (simp add: placed_def)
  qed
  then have "visible rows ?win" by (rule visibleI) (use ts(9) in simp)
  ultimately show ?thesis by (simp only: option.inject ex_simps simp_thms visible_if)
qed

lemma down_visible:
  assumes "visible rows win" "0 \<le> scroll_offset" "0 \<le> k"
  shows "\<exists>win'. window_down scroll_offset (get_next rows) (\<lambda>_. True) k win = Some win' \<and> visible rows win'"
proof (cases "rows = []")
  case True
  then have "walk (get_next rows) (\<lambda>_. True) k Head Head 0 0 = Some (Head, 0, 0)"
    by (subst walk.simps) (simp add: next_head)
  moreover have "fst (steps n (get_next rows) Head) = 0" "repeat m (get_next rows) Head = Head" for n m
  proof -
    show "fst (steps n (get_next rows) Head) = 0" using True by (cases n) (simp_all add: next_head)
    have "((\<lambda>it. fst (get_next rows it)) ^^ i) Head = Head" for i by (induction i) (simp_all add: next_head True)
    then show "repeat m (get_next rows) Head = Head" unfolding repeat_def .
  qed
  moreover have "dist (get_next rows) Head Head 0 = Some 0" by (subst dist.simps) simp
  ultimately show ?thesis using assms True by (simp add: visible_def window_down_def Let_def)
next
  case False
  then obtain t s where ts: "distinct rows" "w_head win = Head" "w_top win = At (rows ! t)" "w_sel win = At (rows ! s)"
    "t \<le> s" "s < length rows" "t < length rows" "int s < int t + w_nr_rows win" "1 \<le> w_nr_rows win"
    using visibleE [OF assms(1)] by blast
  define buf where "buf = w_nr_rows win - 1 - int (s - t)"
  define d where "d = min (nat k) (length rows - 1 - s)"
  define u where "u = nat (if int d = 0 then min (buf + k) (c_div (w_nr_rows win - 1) 2) else min scroll_offset (c_div (w_nr_rows win - 1) 2))"
  define a where "a = min u (length rows - 1 - (s + d))"
  define j where "j = nat (int a + int d - buf)"
  have buf: "0 \<le> buf" using ts(5,8) by (simp add: buf_def)
  have "int u \<le> (w_nr_rows win - 1) div 2" using assms ts(9) buf by (auto simp: u_def half)
  then have "int a \<le> (w_nr_rows win - 1) div 2" by (simp add: a_def)
  moreover have "d \<le> length rows - 1 - s" "a \<le> length rows - 1 - (s + d)" by (simp_all add: d_def a_def)
  then have "s + d + a < length rows" using ts(6) by linarith
  ultimately have a: "int a \<le> (w_nr_rows win - 1) div 2" "s + d + a < length rows" .
  then have j: "t + j \<le> s + d" using ts(5) ts(9) by (simp add: j_def buf_def)
  let ?win = "win\<lparr>w_sel := At (rows ! (s + d)), w_top := At (rows ! (t + j))\<rparr>"
  have b: "dist (get_next rows) (At (rows ! s)) (At (rows ! t)) 0 = Some (int (s - t))"
    using dist_next [OF ts(1,5,6), of 0] by simp
  have w: "walk (get_next rows) (\<lambda>_. True) k (At (rows ! s)) (At (rows ! s)) 0 0 = Some (At (rows ! (s + d)), int d, 0)"
    using walk_down_rows [OF ts(1,6), of 0 k 0] by (simp add: d_def Let_def)
  have st: "fst (steps u (get_next rows) (At (rows ! (s + d)))) = a"
    using steps_next [of rows "s + d" u] ts(1) a(2) by (simp add: a_def Let_def)
  have top: "repeat (int a + int d + 0 - buf) (get_next rows) (At (rows ! t)) = At (rows ! (t + j))"
    using repeat_next [of rows t j] ts(1) j a(2) by (simp add: repeat_def j_def)
  have "window_down scroll_offset (get_next rows) (\<lambda>_. True) k win = Some (if int d > 0 \<or> int a > 0 then sel_changed ?win else ?win)"
    by (simp only: window_down_def ts(3,4) b w Option.bind.bind_lunit prod.case Let_def buf_def [symmetric] u_def [symmetric] st if_cancel top)
  moreover have "placed rows ?win (t + j) (s + d)"
    using ts a j buf by (simp add: placed_def j_def buf_def of_nat_diff)
  then have "visible rows ?win" by (rule visibleI) (use ts(9) in simp)
  ultimately show ?thesis by (simp only: option.inject ex_simps simp_thms visible_if)
qed

lemma minimize_visible:
  assumes "visible rows win" "rows \<noteq> []"
  shows "visible rows (minimize (get_prev rows) (get_next rows) win)"
proof -
  obtain t s where ts: "distinct rows" "w_head win = Head" "w_top win = At (rows ! t)" "w_sel win = At (rows ! s)"
    "t \<le> s" "s < length rows" "t < length rows" "int s < int t + w_nr_rows win" "1 \<le> w_nr_rows win"
    using visibleE [OF assms] by blast
  define k where "k = min (nat (w_nr_rows win - 1)) (length rows - 1 - t)"
  define j where "j = min (nat (w_nr_rows win - (1 + int k))) t"
  have m: "minimize (get_prev rows) (get_next rows) win = win\<lparr>w_top := At (rows ! (t - j)), w_changed := True\<rparr>"
    using ts(1,3,7) by (simp add: minimize_def steps_next steps_prev Let_def k_def j_def)
  have k: "int k \<le> w_nr_rows win - 1" "int k = w_nr_rows win - 1 \<or> t + k + 1 = length rows" using ts(7,9) by (auto simp: k_def)
  then have "j = 0 \<or> t + k + 1 = length rows" "int j \<le> w_nr_rows win - (1 + int k)" "j \<le> t" by (auto simp: j_def)
  then have "int s < int (t - j) + w_nr_rows win" using ts(6,8) by auto
  then show ?thesis unfolding m using ts by (intro visibleI [of _ _ "t - j" s]) (simp_all add: placed_def)
qed

lemma dist_rows_end:
  "distinct rows \<Longrightarrow> s < t \<Longrightarrow> t < length rows \<Longrightarrow> dist_rows (get_next rows) (At (rows ! s)) (At (rows ! t)) n = Some None"
proof (induction "length rows - 1 - t" arbitrary: t n)
  case 0
  then show ?case using at_inj [of rows t s] by (subst dist_rows.simps) (auto simp: next_at Let_def)
next
  case (Suc d)
  then show ?case using Suc(1) [of "Suc t" "n + 1"] at_inj [of rows t s] by (subst dist_rows.simps) (auto simp: next_at Let_def)
qed

lemma dist_prev:
  "distinct rows \<Longrightarrow> s \<le> t \<Longrightarrow> t < length rows \<Longrightarrow> dist (get_prev rows) (At (rows ! s)) (At (rows ! t)) n = Some (n + int (t - s))"
proof (induction "t - s" arbitrary: t n)
  case 0
  then show ?case by (subst dist.simps) simp
next
  case (Suc d)
  then have "s < t" by simp
  then show ?case using Suc(1) [of "t - 1" "n + 1"] Suc(2-) at_inj [of rows t s] by (subst dist.simps) (auto simp: prev_at)
qed

lemma changed_visible_above:
  assumes "distinct rows" "w_head win = Head" "w_top win = At (rows ! t)" "w_sel win = At (rows ! s)" "t < length rows" "s < t"
    "1 \<le> w_nr_rows win"
  shows "\<exists>win'. window_changed (get_prev rows) (get_next rows) win = Some win' \<and> visible rows win'"
proof -
  have top: "repeat (int (t - s)) (get_prev rows) (At (rows ! t)) = At (rows ! s)"
    using repeat_prev [of rows t "t - s"] assms(1,5,6) unfolding repeat_def nat_int by simp
  have "visible rows (win\<lparr>w_top := At (rows ! s)\<rparr>)"
    using assms by (intro visibleI [of _ _ s s]) (auto simp: placed_def)
  then show ?thesis
    using assms top minimize_visible [of rows "win\<lparr>w_top := At (rows ! s)\<rparr>"] dist_rows_end [of rows s t 0] dist_prev [of rows s t 0]
    by (cases "rows = []") (simp_all add: window_changed_def iter_is_null_def iter_is_head_def bug_unless_def)
qed

lemma changed_visible:
  assumes "distinct rows" "w_head win = Head" "w_top win = At (rows ! t)" "w_sel win = At (rows ! s)" "s < length rows" "t \<le> s"
    "1 \<le> w_nr_rows win"
  shows "\<exists>win'. window_changed (get_prev rows) (get_next rows) win = Some win' \<and> visible rows win'"
proof -
  define j where "j = nat (int (s - t) - (w_nr_rows win - 1))"
  have j: "t + j \<le> s" "t + j < length rows" using assms(5-7) by (auto simp: j_def)
  have top: "repeat (int (s - t) - (w_nr_rows win - 1)) (get_next rows) (At (rows ! t)) = At (rows ! (t + j))"
    using repeat_next [of rows t j] assms(1) j by (simp add: repeat_def j_def)
  have "visible rows (win\<lparr>w_top := At (rows ! (t + j))\<rparr>)"
    using assms j by (intro visibleI [of _ _ "t + j" s]) (auto simp: placed_def j_def)
  then show ?thesis
    using assms top minimize_visible [of rows "win\<lparr>w_top := At (rows ! (t + j))\<rparr>"] dist_rows_next [of rows t s 0]
    by (cases "rows = []") (simp_all add: window_changed_def iter_is_null_def iter_is_head_def bug_unless_def)
qed

lemma changed_row:
  assumes "distinct rows" "w_head win = Head" "w_top win = At tp" "w_sel win = At sel" "tp \<in> set rows" "sel \<in> set rows" "1 \<le> w_nr_rows win"
  shows "\<exists>win'. window_changed (get_prev rows) (get_next rows) win = Some win' \<and> visible rows win'"
proof -
  obtain t s where "tp = rows ! t" "t < length rows" "sel = rows ! s" "s < length rows" using assms(5,6) by (metis in_set_conv_nth)
  then show ?thesis
    using changed_visible [of rows win t s] changed_visible_above [of rows win t s] assms(1-4,7) by (meson not_le_imp_less)
qed

lemma changed_empty:
  assumes "distinct rows" "w_head win = Head" "w_top win = Head" "w_sel win = Head" "1 \<le> w_nr_rows win"
  shows "\<exists>win'. window_changed (get_prev rows) (get_next rows) win = Some win' \<and> visible rows win'"
proof (cases "rows = []")
  case True
  then show ?thesis using assms
    by (simp add: window_changed_def iter_is_null_def iter_is_head_def visible_def next_head)
next
  case False
  let ?win = "win\<lparr>w_top := At (hd rows), w_sel := At (hd rows)\<rparr>"
  have "visible rows ?win" using assms False by (intro visibleI [of _ _ 0 0]) (simp_all add: placed_def hd_conv_nth)
  then show ?thesis using assms False by (simp add: window_changed_def iter_is_null_def iter_is_head_def next_head Let_def)
qed

lemma set_nr_rows_visible:
  assumes "visible rows win"
  shows "\<exists>win'. window_set_nr_rows (get_prev rows) (get_next rows) n win = Some win' \<and> visible rows win'"
proof (cases "n < 1")
  case False
  let ?win = "win\<lparr>w_nr_rows := n\<rparr>"
  have "\<exists>win'. window_changed (get_prev rows) (get_next rows) ?win = Some win' \<and> visible rows win'"
  proof (cases "rows = []")
    case True
    then show ?thesis using assms False by (intro changed_empty) (auto simp: visible_def)
  next
    case n: False
    obtain t s where "distinct rows" "w_head win = Head" "w_top win = At (rows ! t)" "w_sel win = At (rows ! s)"
      "t \<le> s" "s < length rows" "t < length rows" using visibleE [OF assms n] by blast
    then show ?thesis using False by (intro changed_row) auto
  qed
  then obtain win' where "window_changed (get_prev rows) (get_next rows) ?win = Some win'" "visible rows win'" by blast
  then show ?thesis using False by (simp add: window_set_nr_rows_def)
qed (use assms in \<open>simp add: window_set_nr_rows_def\<close>)

lemma set_contents_visible:
  assumes "distinct rows" "1 \<le> w_nr_rows win"
  shows "\<exists>win'. window_set_contents (get_next rows) (\<lambda>_. True) win = Some win' \<and> visible rows win'"
proof (cases "rows = []")
  case True
  then show ?thesis using assms by (simp add: window_set_contents_def visible_def next_head)
next
  case False
  have "visible rows (win\<lparr>w_head := Head, w_top := At (hd rows), w_sel := At (hd rows)\<rparr>)"
    using assms False by (intro visibleI [of _ _ 0 0]) (simp_all add: placed_def hd_conv_nth)
  then show ?thesis using False by (simp add: window_set_contents_def next_head Let_def)
qed

lemma scroll_up_to_visible:
  assumes "distinct rows" "i < length rows" "0 \<le> u" "u < n" "int i < int t + u"
  shows "\<exists>j \<le> i. scroll_up_to u (get_prev rows) (At (rows ! 0)) (At (rows ! i)) (int i) = At (rows ! j) \<and> int i < int j + n"
proof (cases "int i < u")
  case True
  then show ?thesis using assms by (intro exI [of _ 0]) (simp add: scroll_up_to_def)
next
  case False
  then show ?thesis using assms repeat_prev [of rows i "nat u"]
    by (intro exI [of _ "i - nat u"]) (auto simp: scroll_up_to_def repeat_def)
qed

lemma scroll_down_to_visible:
  assumes "distinct rows" "i < length rows" "t < length rows" "w_top win = At (rows ! t)" "0 \<le> v" "v \<le> w_nr_rows win - 1" "t \<le> i"
  shows "\<exists>j \<le> i. scroll_down_to v (get_next rows) (At (rows ! i)) (int t) (int i) win = At (rows ! j) \<and> int i < int j + w_nr_rows win"
proof (cases "int i \<ge> int t + w_nr_rows win")
  case True
  define m where "m = min (nat v) (length rows - 1 - i)"
  define r where "r = nat (int i - int t - w_nr_rows win + 1)"
  have m: "int m \<le> v" "m \<le> length rows - 1 - i" using assms(5) by (simp_all add: m_def)
  have r: "int r = int i - int t - w_nr_rows win + 1" using True by (simp add: r_def)
  have j: "t + r + m \<le> i" "int i < int (t + r + m) + w_nr_rows win" using m(1) r assms(6) by simp_all
  have "repeat (int i - int t - w_nr_rows win + 1) (get_next rows) (At (rows ! t)) = At (rows ! (t + r))"
    using repeat_next [of rows t r] assms(1,2) j by (simp add: repeat_def r_def)
  moreover have "repeat (int m) (get_next rows) (At (rows ! (t + r))) = At (rows ! (t + r + m))"
    using repeat_next [of rows "t + r" m] assms(1,2) j by (simp add: repeat_def)
  ultimately have "scroll_down_to v (get_next rows) (At (rows ! i)) (int t) (int i) win = At (rows ! (t + r + m))"
    using True assms by (simp add: scroll_down_to_def steps_next Let_def m_def)
  then show ?thesis using j by blast
next
  case False
  define k where "k = min (nat (int t + w_nr_rows win - 1 - int i)) (length rows - 1 - i)"
  show ?thesis
  proof (cases "int k < int t + w_nr_rows win - 1 - int i")
    case True
    then have "scroll_down_to v (get_next rows) (At (rows ! i)) (int t) (int i) win = At (rows ! t)"
      using False assms by (simp add: scroll_down_to_def steps_next Let_def k_def repeat_def)
    then show ?thesis using False assms(7) by auto
  next
    case rest: False
    define b where "b = int i + int k"
    define m where "m = min (nat (int i + v - b)) (length rows - 1 - (i + k))"
    have k: "int k = int t + w_nr_rows win - 1 - int i" "i + k < length rows" using rest False assms(2) by (auto simp: k_def)
    have m: "int m \<le> v - (int t + w_nr_rows win - 1 - int i) \<or> m = 0" using k by (auto simp: m_def b_def)
    then have j: "t + m \<le> i" "int i < int (t + m) + w_nr_rows win" using False assms(6,7) by auto
    have "repeat (int m) (get_next rows) (At (rows ! t)) = At (rows ! (t + m))"
      using repeat_next [of rows t m] assms(1,2) j by (simp add: repeat_def)
    moreover have "steps (nat (int t + w_nr_rows win - 1 - int i)) (get_next rows) (At (rows ! i)) = (k, At (rows ! (i + k)))"
      using assms(1,2) by (simp add: steps_next Let_def k_def)
    moreover have "fst (steps (nat (int i + v - b)) (get_next rows) (At (rows ! (i + k)))) = m"
      using assms(1) k by (simp add: steps_next Let_def m_def)
    ultimately have "scroll_down_to v (get_next rows) (At (rows ! i)) (int t) (int i) win = At (rows ! (t + m))"
      using False rest by (simp add: scroll_down_to_def assms(4) b_def)
    then show ?thesis using j by blast
  qed
qed

lemma set_sel_visible:
  assumes "visible rows win" "i < length rows" "0 \<le> scroll_offset"
  shows "\<exists>win'. window_set_sel scroll_offset (get_prev rows) (get_next rows) (At (rows ! i)) win = Some win' \<and> visible rows win'"
proof -
  have rows: "rows \<noteq> []" using assms(2) by auto
  obtain t s where ts: "distinct rows" "w_head win = Head" "w_top win = At (rows ! t)" "w_sel win = At (rows ! s)"
    "t \<le> s" "s < length rows" "t < length rows" "int s < int t + w_nr_rows win" "1 \<le> w_nr_rows win"
    using visibleE [OF assms(1) rows] by blast
  let ?n = "w_nr_rows win"
  let ?u = "min scroll_offset (c_div ?n 2)" and ?v = "min scroll_offset (c_div (?n - 1) 2)"
  let ?top = "if int i < int t + ?u then scroll_up_to ?u (get_prev rows) (At (rows ! 0)) (At (rows ! i)) (int i)
    else scroll_down_to ?v (get_next rows) (At (rows ! i)) (int t) (int i) win"
  have b: "0 \<le> ?u" "?u < ?n" "0 \<le> ?v" "?v \<le> ?n - 1" using ts(9) assms(3) by (auto simp: half)
  have "\<exists>j \<le> i. ?top = At (rows ! j) \<and> int i < int j + ?n"
    using scroll_up_to_visible [OF ts(1) assms(2) b(1,2), of t] scroll_down_to_visible [OF ts(1) assms(2) ts(7,3) b(3,4)] b(1) by auto
  then obtain j where "j \<le> i" "?top = At (rows ! j)" "int i < int j + ?n" by blast
  moreover have "window_set_sel scroll_offset (get_prev rows) (get_next rows) (At (rows ! i)) win =
    (if s = i then Some win else Some (sel_changed (win\<lparr>w_sel := At (rows ! i), w_top := ?top\<rparr>)))"
    using ts(1-7) assms(2) rows dist_next [of rows 0 t 0] dist_rows_next [of rows 0 i 0]
    by (simp add: window_set_sel_def iter_is_empty_def iter_is_null_def next_head hd_conv_nth nth_eq_iff_index_eq)
  moreover have "visible rows (sel_changed (win\<lparr>w_sel := At (rows ! i), w_top := At (rows ! j)\<rparr>))"
    if "j \<le> i" "int i < int j + ?n" for j
    unfolding visible_sel_changed using that ts(1,2,9) assms(2) by (intro visibleI [of _ _ j i]) (simp_all add: placed_def)
  ultimately show ?thesis using assms(1) by auto
qed

lemma goto_top_visible:
  assumes "visible rows win"
  shows "\<exists>win'. window_goto_top (get_next rows) (\<lambda>_. True) win = Some win' \<and> visible rows win'"
proof (cases "rows = []")
  case True
  then show ?thesis using assms by (simp add: window_goto_top_def visible_def next_head)
next
  case False
  then have "distinct rows" "w_head win = Head" "1 \<le> w_nr_rows win" using assms by (auto simp: visible_def placed_def)
  then have "visible rows (win\<lparr>w_top := At (hd rows), w_sel := At (hd rows)\<rparr>)"
    using False by (intro visibleI [of _ _ 0 0]) (simp_all add: placed_def hd_conv_nth)
  then show ?thesis using False \<open>w_head win = Head\<close> by (simp add: window_goto_top_def next_head Let_def)
qed

lemma goto_bottom_visible:
  assumes "visible rows win"
  shows "\<exists>win'. window_goto_bottom (get_prev rows) (\<lambda>_. True) win = Some win' \<and> visible rows win'"
proof (cases "rows = []")
  case True
  then have "snd (steps n (get_prev rows) Head) = Head" for n by (cases n) (simp_all add: prev_head)
  then show ?thesis using assms True by (simp add: window_goto_bottom_def visible_def prev_head Let_def)
next
  case False
  let ?l = "length rows - 1" and ?k = "min (nat (w_nr_rows win - 1)) (length rows - 1)"
  have w: "distinct rows" "w_head win = Head" "1 \<le> w_nr_rows win" using False assms by (auto simp: visible_def placed_def)
  moreover have "last rows = rows ! ?l" "?l < length rows" using False by (simp_all add: last_conv_nth)
  moreover from this have "visible rows (win\<lparr>w_top := At (rows ! (?l - ?k)), w_sel := At (rows ! ?l)\<rparr>)"
    using w by (intro visibleI [of _ _ "?l - ?k" ?l]) (auto simp: placed_def)
  ultimately show ?thesis using False by (simp add: window_goto_bottom_def prev_head steps_prev Let_def)
qed

lemma page_loop_head: "rows = [] \<Longrightarrow> step = get_next rows \<or> step = get_prev rows \<Longrightarrow> page_loop n step f Head b tp win = win"
  by (cases n) (auto simp: next_head prev_head)

lemma page_loop_prev:
  "distinct rows \<Longrightarrow> t \<le> s \<Longrightarrow> s < length rows \<Longrightarrow>
    \<exists>m \<le> t. page_loop n (get_prev rows) (\<lambda>_. True) (At (rows ! s)) (At (rows ! t)) (At (rows ! t))
      (win\<lparr>w_sel := At (rows ! s), w_top := At (rows ! t)\<rparr>) = win\<lparr>w_sel := At (rows ! (s - m)), w_top := At (rows ! (t - m))\<rparr>"
proof (induction n arbitrary: s t)
  case (Suc n)
  show ?case
  proof (cases "t = 0")
    case True
    then have "get_prev rows (At (rows ! t)) = (Head, False)" using Suc.prems by (subst prev_at) auto
    then show ?thesis by (intro exI [of _ 0]) (simp add: Let_def split: prod.split)
  next
    case False
    have prems: "t - 1 \<le> s - 1" "s - 1 < length rows" using Suc.prems by auto
    obtain m where "m \<le> t - 1" "page_loop n (get_prev rows) (\<lambda>_. True) (At (rows ! (s - 1))) (At (rows ! (t - 1))) (At (rows ! (t - 1)))
      (win\<lparr>w_sel := At (rows ! (s - 1)), w_top := At (rows ! (t - 1))\<rparr>) =
        win\<lparr>w_sel := At (rows ! (s - 1 - m)), w_top := At (rows ! (t - 1 - m))\<rparr>"
      using Suc.IH [OF Suc.prems(1) prems] by blast
    then show ?thesis using False Suc.prems by (intro exI [of _ "Suc m"]) (auto simp: prev_at Let_def)
  qed
qed (auto intro: exI [of _ 0])

lemma page_loop_next:
  "distinct rows \<Longrightarrow> t \<le> s \<Longrightarrow> s \<le> b \<Longrightarrow> b < length rows \<Longrightarrow>
    \<exists>m. b + m < length rows \<and> page_loop n (get_next rows) (\<lambda>_. True) (At (rows ! s)) (At (rows ! b)) (At (rows ! t))
      (win\<lparr>w_sel := At (rows ! s), w_top := At (rows ! t)\<rparr>) = win\<lparr>w_sel := At (rows ! (s + m)), w_top := At (rows ! (t + m))\<rparr>"
proof (induction n arbitrary: s t b)
  case (Suc n)
  show ?case
  proof (cases "Suc b < length rows")
    case True
    then obtain m where "Suc b + m < length rows" "page_loop n (get_next rows) (\<lambda>_. True) (At (rows ! Suc s)) (At (rows ! Suc b)) (At (rows ! Suc t))
      (win\<lparr>w_sel := At (rows ! Suc s), w_top := At (rows ! Suc t)\<rparr>) =
        win\<lparr>w_sel := At (rows ! (Suc s + m)), w_top := At (rows ! (Suc t + m))\<rparr>"
      using Suc.prems Suc.IH [of "Suc t" "Suc s" "Suc b"] by auto
    then show ?thesis using True Suc.prems by (intro exI [of _ "Suc m"]) (simp add: next_at Let_def)
  next
    case False
    then show ?thesis using Suc.prems by (intro exI [of _ 0]) (simp add: next_at Let_def)
  qed
qed (auto intro: exI [of _ 0])

lemma page_up_visible:
  assumes "visible rows win"
  shows "visible rows (page_loop n (get_prev rows) (\<lambda>_. True) (w_sel win) (w_top win) (w_top win) win)"
proof (cases "rows = []")
  case False
  obtain t s where ts: "distinct rows" "w_head win = Head" "w_top win = At (rows ! t)" "w_sel win = At (rows ! s)"
    "t \<le> s" "s < length rows" "t < length rows" "int s < int t + w_nr_rows win" "1 \<le> w_nr_rows win"
    using visibleE [OF assms False] by blast
  have win: "win\<lparr>w_sel := At (rows ! s), w_top := At (rows ! t)\<rparr> = win" using ts(3,4) by simp
  obtain m where m: "m \<le> t" "page_loop n (get_prev rows) (\<lambda>_. True) (w_sel win) (w_top win) (w_top win) win =
      win\<lparr>w_sel := At (rows ! (s - m)), w_top := At (rows ! (t - m))\<rparr>"
    using page_loop_prev [OF ts(1,5,6), of n win] unfolding win ts(3,4) by blast
  show ?thesis unfolding m(2) using ts m(1) by (intro visibleI [of _ _ "t - m" "s - m"]) (auto simp: placed_def)
qed (use assms in \<open>simp add: page_loop_head visible_def\<close>)

lemma window_bottom_row:
  assumes "distinct rows" "w_top win = At (rows ! t)" "t < length rows"
  shows "window_bottom (get_next rows) win = At (rows ! (t + min (nat (w_nr_rows win - 1)) (length rows - 1 - t)))"
  using assms by (simp add: window_bottom_def steps_next Let_def)

lemma page_down_visible:
  assumes "visible rows win"
  shows "visible rows (page_loop n (get_next rows) (\<lambda>_. True) (w_sel win) (window_bottom (get_next rows) win) (w_top win) win)"
proof (cases "rows = []")
  case False
  obtain t s where ts: "distinct rows" "w_head win = Head" "w_top win = At (rows ! t)" "w_sel win = At (rows ! s)"
    "t \<le> s" "s < length rows" "t < length rows" "int s < int t + w_nr_rows win" "1 \<le> w_nr_rows win"
    using visibleE [OF assms False] by blast
  let ?b = "t + min (nat (w_nr_rows win - 1)) (length rows - 1 - t)"
  have b: "s \<le> ?b" "?b < length rows" using ts(6-9) by auto
  have win: "win\<lparr>w_sel := At (rows ! s), w_top := At (rows ! t)\<rparr> = win" using ts(3,4) by simp
  obtain m where m: "?b + m < length rows"
    "page_loop n (get_next rows) (\<lambda>_. True) (w_sel win) (window_bottom (get_next rows) win) (w_top win) win =
      win\<lparr>w_sel := At (rows ! (s + m)), w_top := At (rows ! (t + m))\<rparr>"
    using page_loop_next [OF ts(1,5) b, of n win] unfolding win window_bottom_row [OF ts(1,3,7)] ts(3,4) by blast
  show ?thesis unfolding m(2) using ts m(1) b(1) by (intro visibleI [of _ _ "t + m" "s + m"]) (auto simp: placed_def)
qed (use assms in \<open>simp add: page_loop_head visible_def\<close>)

lemma scroll_down_visible:
  assumes "visible rows win"
  shows "\<exists>win'. window_scroll_down (get_next rows) (\<lambda>_. True) win = Some win' \<and> visible rows win'"
proof (cases "rows = []")
  case True
  then show ?thesis using assms by (simp add: window_scroll_down_def visible_def next_head Let_def)
next
  case False
  obtain t s where ts: "distinct rows" "w_head win = Head" "w_top win = At (rows ! t)" "w_sel win = At (rows ! s)"
    "t \<le> s" "s < length rows" "t < length rows" "int s < int t + w_nr_rows win" "1 \<le> w_nr_rows win"
    using visibleE [OF assms False] by blast
  show ?thesis
  proof (cases "Suc t < length rows \<and> snd (get_next rows (window_bottom (get_next rows) win))")
    case True
    let ?s = "if t = s then Suc s else s"
    have "visible rows (win\<lparr>w_sel := At (rows ! ?s), w_top := At (rows ! Suc t)\<rparr>)"
      using ts True by (intro visibleI [of _ _ "Suc t" ?s]) (auto simp: placed_def)
    moreover have "window_scroll_down (get_next rows) (\<lambda>_. True) win = Some (sel_changed (win\<lparr>w_sel := At (rows ! ?s), w_top := At (rows ! Suc t)\<rparr>))"
      using ts(1,3-7) True by (simp add: window_scroll_down_def next_at nth_eq_iff_index_eq)
    ultimately show ?thesis by simp
  next
    case stay: False
    then show ?thesis using assms ts(1,3,7) by (auto simp: window_scroll_down_def next_at)
  qed
qed

lemma scroll_up_visible:
  assumes "visible rows win"
  shows "\<exists>win'. window_scroll_up (get_prev rows) (get_next rows) (\<lambda>_. True) win = Some win' \<and> visible rows win'"
proof (cases "rows = []")
  case True
  then show ?thesis using assms by (simp add: window_scroll_up_def visible_def prev_head)
next
  case False
  obtain t s where ts: "distinct rows" "w_head win = Head" "w_top win = At (rows ! t)" "w_sel win = At (rows ! s)"
    "t \<le> s" "s < length rows" "t < length rows" "int s < int t + w_nr_rows win" "1 \<le> w_nr_rows win"
    using visibleE [OF assms False] by blast
  let ?b = "t + min (nat (w_nr_rows win - 1)) (length rows - 1 - t)"
  show ?thesis
  proof (cases "t = 0")
    case True
    then have "get_prev rows (At (rows ! t)) = (Head, False)" using ts by (subst prev_at) auto
    then show ?thesis using assms ts(3) by (simp add: window_scroll_up_def)
  next
    case t: False
    define b where "b = ?b"
    let ?s = "if b = s then s - 1 else s"
    have b: "b < length rows" "s \<le> b" "int b \<le> int t + w_nr_rows win - 1" using ts(6-9) by (auto simp: b_def)
    then have s: "t - 1 \<le> ?s" "?s < length rows" "int ?s < int (t - 1) + w_nr_rows win" using ts(5,6) t by auto
    have "visible rows (win\<lparr>w_sel := At (rows ! ?s), w_top := At (rows ! (t - 1))\<rparr>)"
      by (rule visible_update [OF ts(1,2,9) s])
    moreover have "window_scroll_up (get_prev rows) (get_next rows) (\<lambda>_. True) win =
        Some (sel_changed (win\<lparr>w_sel := At (rows ! ?s), w_top := At (rows ! (t - 1))\<rparr>))"
      using ts(3-5) t at_inj [OF ts(1) b(1) ts(6)] prev_at [OF ts(1,6)] prev_at [OF ts(1,7)]
      by (simp add: window_scroll_up_def window_bottom_row [OF ts(1,3,7)] b_def)
    ultimately show ?thesis by simp
  qed
qed

lemma goto_pos_visible:
  assumes "visible rows win" "rows \<noteq> []" "w_top win = At (rows ! t)" "int t + pos < int (length rows)" "0 \<le> pos" "pos < w_nr_rows win"
  shows "visible rows (window_goto_pos (get_next rows) pos win)"
proof -
  obtain u s where ts: "distinct rows" "w_head win = Head" "w_top win = At (rows ! u)" "u < length rows" "1 \<le> w_nr_rows win"
    using visibleE [OF assms(1,2)] by metis
  have t: "u = t" using ts(1,3,4) assms(3-5) by (simp add: nth_eq_iff_index_eq)
  have "repeat pos (get_next rows) (At (rows ! t)) = At (rows ! (t + nat pos))"
    using repeat_next [of rows t "nat pos"] ts(1) assms(4,5) by (simp add: repeat_def)
  moreover have "visible rows (win\<lparr>w_sel := At (rows ! (t + nat pos))\<rparr>)"
    using ts t assms(4-6) by (intro visibleI [of _ _ t "t + nat pos"]) (auto simp: placed_def)
  ultimately show ?thesis using assms(3) by (simp add: window_goto_pos_def)
qed

lemma next_selectable_next:
  "distinct rows \<Longrightarrow> i < length rows \<Longrightarrow>
    next_selectable (get_next rows) (\<lambda>_. True) (At (rows ! i)) 0 =
      Some (if Suc i < length rows then (1, At (rows ! Suc i)) else (0, Head))"
  by (subst next_selectable.simps) (simp add: next_at)

lemma next_selectable_prev:
  "distinct rows \<Longrightarrow> i < length rows \<Longrightarrow>
    next_selectable (get_prev rows) (\<lambda>_. True) (At (rows ! i)) 0 = Some (if i = 0 then (0, Head) else (1, At (rows ! (i - 1))))"
  by (subst next_selectable.simps) (simp add: prev_at)

text \<open>The row that takes the place of row \<open>i\<close>: the next one, or the one before the last row.\<close>

definition heir :: "'r list \<Rightarrow> nat \<Rightarrow> 'r iter" where
  "heir rows i = (if Suc i < length rows then At (rows ! Suc i) else if i = 0 then Head else At (rows ! (i - 1)))"

lemma vanishes:
  assumes "distinct rows" "i < length rows" "w_head win = Head"
  shows "window_row_vanishes (get_prev rows) (get_next rows) (\<lambda>_. True) (At (rows ! i)) win =
    Some (let win = (if w_top win = At (rows ! i) then win\<lparr>w_top := heir rows i\<rparr> else win);
              win = (if w_sel win = At (rows ! i) then sel_changed (win\<lparr>w_sel := heir rows i\<rparr>) else win)
          in win\<lparr>w_changed := True\<rparr>)"
proof -
  let ?it = "At (rows ! i)"
  have rows: "rows \<noteq> []" using assms(2) by auto
  have first: "empty_if_only_row (get_prev rows) (get_next rows) ?it win = win"
    using assms(1,2) rows by (simp add: empty_if_only_row_def next_at prev_head)
  have new: "(if snd (get_next rows ?it) then fst (get_next rows ?it) else fst (get_prev rows ?it)) = heir rows i"
    using next_at [OF assms(1,2)] prev_at [OF assms(1,2)] by (simp add: heir_def)
  show ?thesis
    by (simp add: window_row_vanishes_def Let_def first new next_selectable_next [OF assms(1,2)] next_selectable_prev [OF assms(1,2)]
      iter_is_null_def assms(3)) (auto simp: heir_def)
qed

lemma vanish_visible:
  assumes "visible rows win" "i < length rows"
  shows "\<exists>win'. window_row_vanishes (get_prev rows) (get_next rows) (\<lambda>_. True) (At (rows ! i)) win = Some win' \<and> visible (without i rows) win'"
proof -
  have rows: "rows \<noteq> []" using assms(2) by auto
  obtain t s where ts: "distinct rows" "w_head win = Head" "w_top win = At (rows ! t)" "w_sel win = At (rows ! s)"
    "t \<le> s" "s < length rows" "t < length rows" "int s < int t + w_nr_rows win" "1 \<le> w_nr_rows win"
    using visibleE [OF assms(1) rows] by blast
  define tp where "tp = (if t = i then heir rows i else At (rows ! t))"
  define sl where "sl = (if s = i then heir rows i else At (rows ! s))"
  have eq: "w_top win = At (rows ! i) \<longleftrightarrow> t = i" "w_sel win = At (rows ! i) \<longleftrightarrow> s = i"
    using at_inj [OF ts(1,7) assms(2)] at_inj [OF ts(1,6) assms(2)] ts(3,4) by simp_all
  have "visible (without i rows) (win\<lparr>w_sel := sl, w_top := tp\<rparr>)"
  proof (cases "length rows = 1")
    case True
    then have "i = 0" "t = 0" "s = 0" using ts assms(2) by auto
    then show ?thesis using True ts by (simp add: tp_def sl_def heir_def visible_def without_def)
  next
    case False
    let ?sh = "\<lambda>x. if i < x \<or> i = x \<and> Suc x = length rows then x - 1 else x"
    have "(if x = i then heir rows i else At (rows ! x)) = At (without i rows ! ?sh x)" if "x < length rows" for x
      using that False assms(2) by (auto simp: heir_def without_nth)
    then have new: "tp = At (without i rows ! ?sh t)" "sl = At (without i rows ! ?sh s)" unfolding tp_def sl_def using ts(6,7) by metis+
    have "2 \<le> length rows" using False rows by (cases rows) (auto simp: Suc_le_eq)
    then have "?sh t \<le> ?sh s" "?sh s < length rows - 1" "int (?sh s) < int (?sh t) + w_nr_rows win" using ts(5-9) assms(2) by auto
    then show ?thesis unfolding new using ts(1,2,9) assms(2) by (intro visible_update) (simp_all add: without_length distinct_without)
  qed
  moreover obtain win' where win': "window_row_vanishes (get_prev rows) (get_next rows) (\<lambda>_. True) (At (rows ! i)) win = Some win'"
    by (simp add: vanishes [OF ts(1) assms(2) ts(2)])
  moreover have "w_head win' = w_head win" "w_nr_rows win' = w_nr_rows win" "w_top win' = tp" "w_sel win' = sl"
    using win' ts(3,4) eq unfolding vanishes [OF ts(1) assms(2) ts(2)] Let_def option.inject tp_def sl_def by auto
  ultimately show ?thesis using visible_cong [of win' "win\<lparr>w_sel := sl, w_top := tp\<rparr>"] by simp
qed

end

section \<open>The simple iterators keep the contract\<close>

lemma dropWhile_at: "distinct rows \<Longrightarrow> i < length rows \<Longrightarrow> dropWhile (\<lambda>x. x \<noteq> rows ! i) rows = drop i rows"
proof (induction rows arbitrary: i)
  case (Cons r rows)
  then show ?case by (cases i) auto
qed simp

lemma generic_next_at:
  "distinct rows \<Longrightarrow> i < length rows \<Longrightarrow>
    generic_next rows (At (rows ! i)) = (if Suc i < length rows then (At (rows ! Suc i), True) else (Head, False))"
  by (auto simp: dropWhile_at Cons_nth_drop_Suc [symmetric] split: list.split)

interpretation list_rows: row_iterators generic_next generic_prev
proof
  fix rows :: "'r list" and i
  show "generic_next rows Head = (if rows = [] then (Head, False) else (At (hd rows), True))" by (cases rows) simp_all
  show "generic_prev rows Head = (if rows = [] then (Head, False) else (At (last rows), True))"
    by (cases rows rule: rev_cases) (simp_all add: generic_prev_def)
  assume rows: "distinct rows" "i < length rows"
  then show "generic_next rows (At (rows ! i)) = (if Suc i < length rows then (At (rows ! Suc i), True) else (Head, False))"
    by (rule generic_next_at)
  show "generic_prev rows (At (rows ! i)) = (if i = 0 then (Head, False) else (At (rows ! (i - 1)), True))"
    using rows generic_next_at [of "rev rows" "length rows - Suc i"] by (auto simp: generic_prev_def rev_nth Suc_diff_Suc)
qed

section \<open>Every operation keeps the selected row visible\<close>

text \<open>
  The operations as commands, on the rows and their window. \<open>Vanish i\<close> removes row \<open>i\<close> after telling the window. \<open>Change\<close> is any other
  change of the rows, followed by \<open>window_changed\<close>; it must keep the top and the selected row.
\<close>

datatype 'r op =
  Contents "'r list" | Nr_rows int | Up int | Down int | Vanish nat | Change "'r list" | Select nat | Goto_top | Goto_bottom |
  Page_up | Half_page_up | Page_down | Half_page_down | Scroll_up | Scroll_down | Page_top | Page_bottom | Page_middle

fun window_op :: "int \<Rightarrow> 'r op \<Rightarrow> 'r list \<times> 'r window \<Rightarrow> ('r list \<times> 'r window) option" where
  "window_op so c (rows, win) =
     (let next = generic_next rows; prev = generic_prev rows; all = (\<lambda>_. True); here = map_option (Pair rows)
      in case c of
           Contents rows' \<Rightarrow> map_option (Pair rows') (window_set_contents (generic_next rows') all win)
         | Nr_rows n \<Rightarrow> here (window_set_nr_rows prev next n win)
         | Up k \<Rightarrow> here (window_up so prev next all k win)
         | Down k \<Rightarrow> here (window_down so next all k win)
         | Vanish i \<Rightarrow> map_option (Pair (without i rows)) (window_row_vanishes prev next all (At (rows ! i)) win)
         | Change rows' \<Rightarrow> map_option (Pair rows') (window_changed (generic_prev rows') (generic_next rows') win)
         | Select i \<Rightarrow> here (window_set_sel so prev next (At (rows ! i)) win)
         | Goto_top \<Rightarrow> here (window_goto_top next all win)
         | Goto_bottom \<Rightarrow> here (window_goto_bottom prev all win)
         | Page_up \<Rightarrow> here (Some (window_page_up prev all win))
         | Half_page_up \<Rightarrow> here (Some (window_half_page_up prev all win))
         | Page_down \<Rightarrow> here (Some (window_page_down next all win))
         | Half_page_down \<Rightarrow> here (Some (window_half_page_down next all win))
         | Scroll_up \<Rightarrow> here (window_scroll_up prev next all win)
         | Scroll_down \<Rightarrow> here (window_scroll_down next all win)
         | Page_top \<Rightarrow> here (window_page_top next all win)
         | Page_bottom \<Rightarrow> here (window_page_bottom prev next all win)
         | Page_middle \<Rightarrow> here (window_page_middle next all win))"

primrec new_rows :: "'r op \<Rightarrow> 'r list \<Rightarrow> 'r list" where
  "new_rows (Contents rows') rows = rows'"
| "new_rows (Vanish i) rows = without i rows"
| "new_rows (Change rows') rows = rows'"
| "new_rows (Nr_rows n) rows = rows"
| "new_rows (Up k) rows = rows"
| "new_rows (Down k) rows = rows"
| "new_rows (Select i) rows = rows"
| "new_rows Goto_top rows = rows"
| "new_rows Goto_bottom rows = rows"
| "new_rows Page_up rows = rows"
| "new_rows Half_page_up rows = rows"
| "new_rows Page_down rows = rows"
| "new_rows Half_page_down rows = rows"
| "new_rows Scroll_up rows = rows"
| "new_rows Scroll_down rows = rows"
| "new_rows Page_top rows = rows"
| "new_rows Page_bottom rows = rows"
| "new_rows Page_middle rows = rows"

text \<open>The row \<open>n\<close> below the top one exists.\<close>

definition has_row :: "int \<Rightarrow> 'r list \<Rightarrow> 'r window \<Rightarrow> bool" where
  "has_row n rows win \<longleftrightarrow> rows = [] \<or> (\<exists>t < length rows. w_top win = At (rows ! t) \<and> int t + n < int (length rows))"

text \<open>
  What the operations need. Going to the bottom and to the middle of the page take no notice of the end of the list, see
  \<open>page_bottom_wraps\<close>.
\<close>

fun op_ok :: "'r op \<Rightarrow> 'r list \<times> 'r window \<Rightarrow> bool" where
  "op_ok (Contents rows') (rows, win) \<longleftrightarrow> distinct rows'"
| "op_ok (Up k) (rows, win) \<longleftrightarrow> 0 \<le> k"
| "op_ok (Down k) (rows, win) \<longleftrightarrow> 0 \<le> k"
| "op_ok (Vanish i) (rows, win) \<longleftrightarrow> i < length rows"
| "op_ok (Change rows') (rows, win) \<longleftrightarrow> distinct rows' \<and> (rows = [] \<or> (w_top win \<in> At ` set rows' \<and> w_sel win \<in> At ` set rows'))"
| "op_ok (Select i) (rows, win) \<longleftrightarrow> i < length rows"
| "op_ok Page_bottom (rows, win) \<longleftrightarrow> has_row (w_nr_rows win - 1) rows win"
| "op_ok Page_middle (rows, win) \<longleftrightarrow> has_row (w_nr_rows win div 2) rows win"
| "op_ok _ (rows, win) \<longleftrightarrow> True"

lemma page_visible:
  assumes "visible rows win" "has_row n rows win" "0 \<le> n" "n < w_nr_rows win"
  shows "visible rows (window_goto_pos (generic_next rows) n win)"
proof (cases "rows = []")
  case True
  have "((\<lambda>it. fst (generic_next [] it)) ^^ i) Head = Head" for i by (induction i) simp_all
  then show ?thesis using assms True by (simp add: window_goto_pos_def visible_def repeat_def)
next
  case False
  then show ?thesis using assms list_rows.goto_pos_visible [of rows win _ n] by (auto simp: has_row_def)
qed

lemma visible_nr_rows: "visible rows win \<Longrightarrow> 1 \<le> w_nr_rows win"
  by (simp add: visible_def)

lemma op_change:
  assumes "visible rows win" "op_ok (Change rows') (rows, win)"
  shows "\<exists>win'. window_changed (generic_prev rows') (generic_next rows') win = Some win' \<and> visible rows' win'"
proof (cases "rows = []")
  case True
  then show ?thesis using assms by (intro list_rows.changed_empty) (auto simp: visible_def)
next
  case False
  then have "w_head win = Head" using visibleE [OF assms(1)] by metis
  then show ?thesis using assms False list_rows.changed_row [of rows' win] visible_nr_rows [OF assms(1)] by auto
qed

lemma op_visible:
  assumes "visible rows win" "0 \<le> so" "op_ok c (rows, win)"
  shows "\<exists>win'. window_op so c (rows, win) = Some (new_rows c rows, win') \<and> visible (new_rows c rows) win'"
proof (cases c)
  case (Contents rows')
  then show ?thesis using assms list_rows.set_contents_visible [of rows' win] visible_nr_rows [OF assms(1)] by auto
next
  case (Change rows')
  then show ?thesis using op_change [of rows win rows'] assms by auto
next
  case (Nr_rows n)
  then show ?thesis using list_rows.set_nr_rows_visible [OF assms(1), of n] by auto
next
  case (Up k)
  then show ?thesis using list_rows.up_visible [OF assms(1,2), of k] assms(3) by auto
next
  case (Down k)
  then show ?thesis using list_rows.down_visible [OF assms(1,2), of k] assms(3) by auto
next
  case (Vanish i)
  then show ?thesis using list_rows.vanish_visible [OF assms(1), of i] assms(3) by auto
next
  case (Select i)
  then show ?thesis using list_rows.set_sel_visible [OF assms(1) _ assms(2), of i] assms(3) by auto
next
  case Goto_top
  then show ?thesis using list_rows.goto_top_visible [OF assms(1)] by auto
next
  case Goto_bottom
  then show ?thesis using list_rows.goto_bottom_visible [OF assms(1)] by auto
next
  case Scroll_up
  then show ?thesis using list_rows.scroll_up_visible [OF assms(1)] by auto
next
  case Scroll_down
  then show ?thesis using list_rows.scroll_down_visible [OF assms(1)] by auto
next
  case Page_top
  have "has_row 0 rows win" using assms(1) by (cases "rows = []") (auto simp: has_row_def elim!: visibleE)
  then have "visible rows (window_goto_pos (generic_next rows) 0 win)" using page_visible [OF assms(1)] visible_nr_rows [OF assms(1)] by simp
  then show ?thesis using Page_top by (simp add: window_page_top_def Let_def)
next
  case Page_bottom
  then have "visible rows (window_goto_pos (generic_next rows) (w_nr_rows win - 1) win)"
    using page_visible [OF assms(1)] visible_nr_rows [OF assms(1)] assms(3) by simp
  then show ?thesis using Page_bottom by (simp add: window_page_bottom_def Let_def)
next
  case Page_middle
  then have "visible rows (window_goto_pos (generic_next rows) (w_nr_rows win div 2) win)"
    using page_visible [OF assms(1)] visible_nr_rows [OF assms(1)] assms(3) by simp
  then show ?thesis using Page_middle visible_nr_rows [OF assms(1)] by (simp add: window_page_middle_def half Let_def)
qed (use assms list_rows.page_up_visible [OF assms(1)] list_rows.page_down_visible [OF assms(1)] in
    \<open>auto simp: window_page_up_def window_half_page_up_def window_page_down_def window_half_page_down_def Let_def\<close>)

interpretation windows: simulation "window_op (int so)" new_rows "\<lambda>s rows. fst s = rows \<and> visible rows (snd s)" op_ok for so
proof
  fix s :: "'r list \<times> 'r window" and rows c
  assume "fst s = rows \<and> visible rows (snd s)" "op_ok c s"
  then show "\<exists>s'. window_op (int so) c s = Some s' \<and> fst s' = new_rows c rows \<and> visible (new_rows c rows) (snd s')"
    using op_visible [of rows "snd s" "int so" c] by (cases s) auto
qed

section \<open>Properties\<close>

text \<open>
  C28. Whatever the operations of \<^verbatim>\<open>window.c\<close> do to a window on a list all of whose rows can be selected - new contents, another
  height, up and down by any number of rows, pages, half pages and scrolling, selecting a row, rows inserted or removed - they all
  end, none is a BUG, and the selected row is a row of the list between the top and the bottom of the window. Going to the bottom
  or the middle of the page is covered when the list has the row that is this far below the top one; in a shorter list these two
  run past the end (\<open>page_bottom_wraps\<close>). A change of the rows other than the removal of one keeps the top and the selected row.
\<close>

theorem selection_stays_visible:
  assumes "visible rows win" "all_ok (window_op (int so)) op_ok ops (rows, win)"
  shows "\<exists>win'. exec (window_op (int so)) ops (rows, win) = Some (fold new_rows ops rows, win') \<and> visible (fold new_rows ops rows) win'"
  using windows.sim_exec [of "(rows, win)" rows so ops] assms by auto

text \<open>A new window with rows 0 to 9, three high.\<close>

definition example_window :: "nat window" where
  "example_window = \<lparr>w_head = Head, w_top = At 0, w_sel = At 0, w_nr_rows = 3, w_changed = True, w_events = 0\<rparr>"

definition example_rows :: "nat list" where
  "example_rows = [0, 1, 2, 3, 4, 5, 6, 7, 8, 9]"

lemma example_visible: "visible example_rows example_window"
  by (rule visibleI [of _ _ 0 0]) (simp_all add: placed_def example_window_def example_rows_def)

theorem selection_stays_visible_witness:
  "\<exists>win'. exec (window_op 2) [Page_down, Vanish 2, Goto_bottom, Half_page_up] (example_rows, example_window) = Some ([0, 1, 3, 4, 5, 6, 7, 8, 9], win') \<and>
     visible [0, 1, 3, 4, 5, 6, 7, 8, 9] win'"
proof -
  have "all_ok (window_op (int 2)) op_ok [Page_down, Vanish 2, Goto_bottom, Half_page_up] (example_rows, example_window)"
  proof -
    have "op_ok Half_page_up s" for s :: "nat list \<times> nat window" by (cases s) simp
    then have "all_ok (window_op 2) op_ok [Goto_bottom, Half_page_up] (rows, win)" for rows :: "nat list" and win :: "nat window"
      by (auto split: option.split simp del: window_op.simps)
    then show ?thesis
      by (simp add: Let_def example_rows_def without_def comp_def del: all_ok.simps(2) add: all_ok.simps(2) [of _ _ Page_down]
        all_ok.simps(2) [of _ _ "Vanish i" for i] split: option.split)
  qed
  then have "\<exists>win'. exec (window_op (int 2)) [Page_down, Vanish 2, Goto_bottom, Half_page_up] (example_rows, example_window) =
      Some (fold new_rows [Page_down, Vanish 2, Goto_bottom, Half_page_up] example_rows, win') \<and>
     visible (fold new_rows [Page_down, Vanish 2, Goto_bottom, Half_page_up] example_rows) win'"
    by (rule selection_stays_visible [OF example_visible])
  moreover have "fold new_rows [Page_down, Vanish 2, Goto_bottom, Half_page_up] example_rows = [0, 1, 3, 4, 5, 6, 7, 8, 9]"
    by (simp add: example_rows_def without_def)
  ultimately show ?thesis by (simp only: of_nat_numeral)
qed

text \<open>The rows below the top one, cyclically: after the last row comes the head of the list.\<close>

definition cyclic :: "'r list \<Rightarrow> nat \<Rightarrow> 'r iter" where
  "cyclic rows n = (let p = n mod Suc (length rows) in if p < length rows then At (rows ! p) else Head)"

lemma repeat_cyclic:
  assumes "distinct rows" "rows \<noteq> []"
  shows "((\<lambda>it. fst (generic_next rows it)) ^^ k) (At (rows ! 0)) = cyclic rows k"
proof (induction k)
  case (Suc k)
  have "k mod Suc (length rows) < Suc (length rows)" by simp
  then show ?case using Suc assms list_rows.next_at [OF assms(1), of "k mod Suc (length rows)"]
    by (auto simp: cyclic_def Let_def mod_Suc less_Suc_eq list_rows.next_head hd_conv_nth simp del: generic_next.simps)
qed (use assms in \<open>simp add: cyclic_def\<close>)

text \<open>
  \<open>window_page_bottom\<close> goes \<open>nr_rows - 1\<close> rows down from the top without a look at \<open>get_next\<close>'s result. In a list shorter than
  the window it runs past the end: it selects the row at that distance on the cycle through the list's head, and no row at all when the
  distance is the head's.
\<close>

theorem page_bottom_wraps:
  assumes "visible rows win" "rows \<noteq> []" "w_top win = At (rows ! 0)"
  shows "\<exists>win'. window_page_bottom (generic_prev rows) (generic_next rows) (\<lambda>_. True) win = Some win' \<and>
           w_sel win' = cyclic rows (nat (w_nr_rows win - 1))"
proof -
  have "distinct rows" using visibleE [OF assms(1,2)] by metis
  then show ?thesis using repeat_cyclic [OF _ assms(2)] assms(3)
    by (simp add: window_page_bottom_def window_goto_pos_def repeat_def Let_def)
qed

text \<open>Three rows in a window of five, and of four.\<close>

theorem page_bottom_wraps_witness:
  "(\<exists>win'. window_page_bottom (generic_prev [10, 20, 30 :: nat]) (generic_next [10, 20, 30]) (\<lambda>_. True)
      (example_window\<lparr>w_top := At 10, w_sel := At 30, w_nr_rows := 5\<rparr>) = Some win' \<and> w_sel win' = At 10) \<and>
   (\<exists>win'. window_page_bottom (generic_prev [10, 20, 30 :: nat]) (generic_next [10, 20, 30]) (\<lambda>_. True)
      (example_window\<lparr>w_top := At 10, w_sel := At 30, w_nr_rows := 4\<rparr>) = Some win' \<and> w_sel win' = Head)"
proof -
  have v: "visible [10, 20, 30] (example_window\<lparr>w_top := At 10, w_sel := At 30, w_nr_rows := n\<rparr>)" if "3 \<le> n" for n
    using that by (intro visibleI [of _ _ 0 2]) (auto simp: placed_def example_window_def)
  show ?thesis using page_bottom_wraps [OF v [of 5]] page_bottom_wraps [OF v [of 4]] by (simp add: cyclic_def)
qed

end
