(* ===== verification/Editable.thy ===== *)
theory Editable
  imports Track_List Window
begin

text \<open>
  The editable lists of tracks (\<^verbatim>\<open>src/app/editable.c\<close>) and the play queue (\<^verbatim>\<open>src/app/play_queue.c\<close>): a sorted list (\<open>Track_List\<close>), the number of its tracks and
  of the marked ones, their total time, and the window that shows it (\<open>Window\<close>). The theory proves that all operations but those
  that sort again keep the four in step, that moving tracks moves just those, and that the play queue is a queue.
\<close>

section \<open>The model\<close>

text \<open>
  \<open>ed_info\<close> are the tracks' pointers to their \<^verbatim>\<open>track_info\<close>, and \<open>ed_marked\<close> their marks. The members of \<^verbatim>\<open>struct editable_shared\<close> are the sort keys, the window and
  whether this list is the owner. In the definitions \<open>ti\<close> gives the contents of a \<^verbatim>\<open>track_info\<close>, \<open>cl\<close> the C library and \<open>so\<close> is the option \<^verbatim>\<open>scroll_offset\<close>.
\<close>

record editable =
  ed_tracks :: tracks
  ed_head :: addr
  ed_nr_tracks :: u32
  ed_nr_marked :: u32
  ed_total_time :: u32
  ed_marked :: "nat \<Rightarrow> bool"
  ed_info :: "nat \<Rightarrow> nat"
  ed_keys :: "sort_key list"
  ed_owns :: bool
  ed_win :: "nat window"

abbreviation ed_links :: "editable \<Rightarrow> links" where
  "ed_links e \<equiv> tr_links (ed_tracks e)"

abbreviation track_at :: "(nat \<Rightarrow> track_info) \<Rightarrow> editable \<Rightarrow> nat \<Rightarrow> track_info" where
  "track_at ti e \<equiv> (\<lambda>t. ti (ed_info e t))"

definition get_selected :: "editable \<Rightarrow> nat" where
  "get_selected e = (case window_get_sel (ed_win e) of (At t, True) \<Rightarrow> t | _ \<Rightarrow> 0)"

text \<open>A call of the window when the list owns it: \<open>f\<close> gets the rows, which the iterators walk along.\<close>

definition on_window :: "(nat list \<Rightarrow> nat window \<Rightarrow> nat window option) \<Rightarrow> editable \<Rightarrow> editable option" where
  "on_window f e =
     (if ed_owns e
      then do { rows \<leftarrow> list_for_each (ed_links e) (ed_head e) (nxt (ed_links e) (ed_head e));
                win \<leftarrow> f rows (ed_win e);
                Some (e\<lparr>ed_win := win\<rparr>) }
      else Some e)"

definition ed_changed :: "editable \<Rightarrow> editable option" where
  "ed_changed e = on_window (\<lambda>rows win. window_changed (generic_prev rows) (generic_next rows) win) e"

definition ed_vanishes :: "nat \<Rightarrow> editable \<Rightarrow> editable option" where
  "ed_vanishes t e = on_window (\<lambda>rows win. window_row_vanishes (generic_prev rows) (generic_next rows) (\<lambda>_. True) (At t) win) e"

definition mark_changed :: "editable \<Rightarrow> editable" where
  "mark_changed e = (if ed_owns e then e\<lparr>ed_win := (ed_win e)\<lparr>w_changed := True\<rparr>\<rparr> else e)"

definition editable_take_ownership :: "editable \<Rightarrow> editable option" where
  "editable_take_ownership e =
     (if ed_owns e then Some e
      else do { rows \<leftarrow> list_for_each (ed_links e) (ed_head e) (nxt (ed_links e) (ed_head e));
                win \<leftarrow> window_set_contents (generic_next rows) (\<lambda>_. True) (ed_win e);
                Some (e\<lparr>ed_owns := True, ed_win := win\<lparr>w_changed := True\<rparr>\<rparr>) })"

definition editable_shared_init :: "editable \<Rightarrow> editable" where
  "editable_shared_init e = e\<lparr>ed_win := window_new, ed_keys := [], ed_owns := False\<rparr>"

definition editable_init :: "bool \<Rightarrow> editable \<Rightarrow> editable option" where
  "editable_init take_ownership e =
     (let e = e\<lparr>ed_tracks := \<lparr>tr_links = list_init (ed_head e) (ed_links e), tr_rb = (tr_rb (ed_tracks e))\<lparr>rb_root := 0\<rparr>\<rparr>,
                ed_nr_tracks := 0, ed_nr_marked := 0, ed_total_time := 0\<rparr>
      in if take_ownership then editable_take_ownership e else Some e)"

definition track_time :: "(nat \<Rightarrow> track_info) \<Rightarrow> editable \<Rightarrow> nat \<Rightarrow> u32" where
  "track_time ti e t = (if ti_duration (track_at ti e t) \<noteq> -1 then word_of_int (ti_duration (track_at ti e t)) else 0)"

definition do_editable_add :: "clib \<Rightarrow> (nat \<Rightarrow> track_info) \<Rightarrow> nat \<Rightarrow> int \<Rightarrow> editable \<Rightarrow> editable option" where
  "do_editable_add cl ti track tiebreak e =
     do { tr \<leftarrow> sorted_list_add_track (track_cmp cl (ed_keys e) (track_at ti e)) (ed_head e) track tiebreak (ed_tracks e);
          let e = e\<lparr>ed_tracks := tr, ed_nr_tracks := ed_nr_tracks e + 1, ed_total_time := ed_total_time e + track_time ti e track\<rparr>;
          ed_changed e }"

definition editable_add :: "clib \<Rightarrow> (nat \<Rightarrow> track_info) \<Rightarrow> nat \<Rightarrow> editable \<Rightarrow> editable option" where
  "editable_add cl ti track e = do_editable_add cl ti track 1 e"

definition editable_add_before :: "clib \<Rightarrow> (nat \<Rightarrow> track_info) \<Rightarrow> nat \<Rightarrow> editable \<Rightarrow> editable option" where
  "editable_add_before cl ti track e = do_editable_add cl ti track (- 1) e"

text \<open>\<open>free_track\<close> gives the track's memory back and touches nothing else.\<close>

definition editable_remove_track :: "(nat \<Rightarrow> track_info) \<Rightarrow> nat \<Rightarrow> editable \<Rightarrow> editable option" where
  "editable_remove_track ti track e =
     do { e \<leftarrow> ed_vanishes track e;
          let e = e\<lparr>ed_nr_tracks := ed_nr_tracks e - 1, ed_nr_marked := ed_nr_marked e - of_bool (ed_marked e track),
                    ed_total_time := ed_total_time e - track_time ti e track\<rparr>;
          tr \<leftarrow> sorted_list_remove_track (ed_head e) track (ed_tracks e);
          Some (e\<lparr>ed_tracks := tr\<rparr>) }"

text \<open>The loops that remove tracks, from \<open>item\<close> on: the next track is read before the current one is removed.\<close>

partial_function (option) remove_where :: "(nat \<Rightarrow> track_info) \<Rightarrow> (editable \<Rightarrow> nat \<Rightarrow> bool) \<Rightarrow> addr \<Rightarrow> editable \<Rightarrow> editable option" where
  [code]: "remove_where ti wanted item e =
     (if item = ed_head e then Some e
      else do { let after = nxt (ed_links e) item;
                e \<leftarrow> (if wanted e item then editable_remove_track ti item e else Some e);
                remove_where ti wanted after e })"

definition first_item :: "editable \<Rightarrow> addr" where
  "first_item e = nxt (ed_links e) (ed_head e)"

definition editable_remove_sel :: "(nat \<Rightarrow> track_info) \<Rightarrow> editable \<Rightarrow> editable option" where
  "editable_remove_sel ti e =
     (if ed_nr_marked e \<noteq> 0 then remove_where ti ed_marked (first_item e) e
      else if get_selected e \<noteq> 0 then editable_remove_track ti (get_selected e) e else Some e)"

definition editable_clear :: "(nat \<Rightarrow> track_info) \<Rightarrow> editable \<Rightarrow> editable option" where
  "editable_clear ti e = remove_where ti (\<lambda>_ _. True) (first_item e) e"

definition editable_remove_matching_tracks :: "(nat \<Rightarrow> track_info) \<Rightarrow> (track_info \<Rightarrow> bool) \<Rightarrow> editable \<Rightarrow> editable option" where
  "editable_remove_matching_tracks ti cb e = remove_where ti (\<lambda>e t. cb (track_at ti e t)) (first_item e) e"

text \<open>\<open>e->nr_marked -= t->marked\<close>, the new mark, \<open>e->nr_marked += t->marked\<close>\<close>

definition set_mark :: "bool \<Rightarrow> nat \<Rightarrow> editable \<Rightarrow> editable" where
  "set_mark b t e = e\<lparr>ed_nr_marked := ed_nr_marked e - of_bool (ed_marked e t) + of_bool b, ed_marked := (ed_marked e)(t := b)\<rparr>"

definition editable_toggle_mark :: "int \<Rightarrow> editable \<Rightarrow> editable option" where
  "editable_toggle_mark so e =
     (let t = get_selected e
      in if t \<noteq> 0
         then on_window (\<lambda>rows win. window_down so (generic_next rows) (\<lambda>_. True) 1 (win\<lparr>w_changed := True\<rparr>)) (set_mark (\<not> ed_marked e t) t e)
         else Some e)"

text \<open>The loops that mark: \<open>f\<close> gives the new mark of a track.\<close>

partial_function (option) mark_loop :: "(editable \<Rightarrow> nat \<Rightarrow> bool) \<Rightarrow> addr \<Rightarrow> editable \<Rightarrow> editable option" where
  [code]: "mark_loop f item e =
     (if item = ed_head e then Some e else mark_loop f (nxt (ed_links e) item) (set_mark (f e item) item e))"

text \<open>\<open>matches\<close> is \<open>expr_eval\<close> of the parsed filter; without a filter every track matches, and one that cannot be parsed changes nothing.\<close>

definition editable_mark :: "(nat \<Rightarrow> track_info) \<Rightarrow> (track_info \<Rightarrow> bool) option option \<Rightarrow> editable \<Rightarrow> editable option" where
  "editable_mark ti filter_expr e =
     (case filter_expr of
        Some None \<Rightarrow> Some e
      | None \<Rightarrow> do { e \<leftarrow> mark_loop (\<lambda>_ _. True) (first_item e) e; Some (mark_changed e) }
      | Some (Some matches) \<Rightarrow> do { e \<leftarrow> mark_loop (\<lambda>e t. matches (track_at ti e t)) (first_item e) e; Some (mark_changed e) })"

definition editable_unmark :: "editable \<Rightarrow> editable option" where
  "editable_unmark e = do { e \<leftarrow> mark_loop (\<lambda>_ _. False) (first_item e) e; Some (mark_changed e) }"

definition editable_invert_marks :: "editable \<Rightarrow> editable option" where
  "editable_invert_marks e = do { e \<leftarrow> mark_loop (\<lambda>e t. \<not> ed_marked e t) (first_item e) e; Some (mark_changed e) }"

text \<open>A changed \<^verbatim>\<open>track_info\<close> takes the place of the old one; without a new one the tracks are removed.\<close>

partial_function (option) update_loop :: "(nat \<Rightarrow> track_info) \<Rightarrow> nat \<Rightarrow> nat \<Rightarrow> addr \<Rightarrow> bool \<Rightarrow> editable \<Rightarrow> (bool \<times> editable) option" where
  [code]: "update_loop ti old new item changed e =
     (if item = ed_head e then Some (changed, e)
      else do { let after = nxt (ed_links e) item;
                if ed_info e item = old
                then do { e \<leftarrow> (if new \<noteq> 0 then Some (e\<lparr>ed_info := (ed_info e)(item := new)\<rparr>) else editable_remove_track ti item e);
                          update_loop ti old new after True e }
                else update_loop ti old new after changed e })"

definition editable_update_track :: "(nat \<Rightarrow> track_info) \<Rightarrow> nat \<Rightarrow> nat \<Rightarrow> editable \<Rightarrow> editable option" where
  "editable_update_track ti old new e =
     do { (changed, e) \<leftarrow> update_loop ti old new (first_item e) False e;
          Some (if changed then mark_changed e else e) }"

text \<open>Sorting again, with the address \<open>tmp\<close> of the temporary head.\<close>

definition goto_top :: "editable \<Rightarrow> editable option" where
  "goto_top e = do { e \<leftarrow> ed_changed e; on_window (\<lambda>rows win. window_goto_top (generic_next rows) (\<lambda>_. True) win) e }"

definition editable_sort :: "clib \<Rightarrow> (nat \<Rightarrow> track_info) \<Rightarrow> addr \<Rightarrow> editable \<Rightarrow> editable option" where
  "editable_sort cl ti tmp e =
     (if ed_nr_tracks e \<le> 1 then Some e
      else do { tr \<leftarrow> sorted_list_rebuild (track_cmp cl (ed_keys e) (track_at ti e)) (ed_head e) tmp (ed_tracks e);
                goto_top (e\<lparr>ed_tracks := tr\<rparr>) })"

definition editable_rand :: "nat \<Rightarrow> (nat \<Rightarrow> nat) \<Rightarrow> addr \<Rightarrow> editable \<Rightarrow> editable option" where
  "editable_rand rand_max rnd tmp e =
     (if ed_nr_tracks e \<le> 1 then Some e
      else do { tr \<leftarrow> rand_list_rebuild rand_max rnd (ed_head e) tmp (ed_tracks e);
                goto_top (e\<lparr>ed_tracks := tr\<rparr>) })"

definition editable_shared_set_sort_keys :: "sort_key list \<Rightarrow> editable \<Rightarrow> editable" where
  "editable_shared_set_sort_keys keys e = e\<lparr>ed_keys := keys\<rparr>"

text \<open>Moving: a track goes from the list to the front of the one at \<open>tmp\<close>.\<close>

definition move_item :: "addr \<Rightarrow> nat \<Rightarrow> editable \<Rightarrow> editable option" where
  "move_item tmp item e =
     do { e \<leftarrow> ed_vanishes item e;
          Some (e\<lparr>ed_tracks := (ed_tracks e)\<lparr>tr_links := list_add item tmp (list_del item (ed_links e))\<rparr>\<rparr>) }"

definition reset_tree :: "editable \<Rightarrow> editable option" where
  "reset_tree e =
     do { old \<leftarrow> rb_end L (tr_rb (ed_tracks e));
          let first_track = first_item e;
          if old \<noteq> first_track
          then do { rb \<leftarrow> rb_replace_node old first_track (tr_rb (ed_tracks e));
                    rb \<leftarrow> rb_clear_node old rb;
                    Some (e\<lparr>ed_tracks := (ed_tracks e)\<lparr>tr_rb := rb\<rparr>\<rparr>) }
          else Some e }"

partial_function (option) collect_marked :: "addr \<Rightarrow> addr \<Rightarrow> editable \<Rightarrow> editable option" where
  [code]: "collect_marked tmp item e =
     (if item = ed_head e then Some e
      else do { let after = nxt (ed_links e) item;
                e \<leftarrow> (if ed_marked e item then move_item tmp item e else Some e);
                collect_marked tmp after e })"

partial_function (option) put_back :: "addr \<Rightarrow> addr \<Rightarrow> addr \<Rightarrow> links \<Rightarrow> links option" where
  [code]: "put_back tmp point item h =
     (if item = tmp then Some h else put_back tmp point (nxt h item) (list_add item point h))"

definition move_sel :: "int \<Rightarrow> addr \<Rightarrow> addr \<Rightarrow> editable \<Rightarrow> editable option" where
  "move_sel so tmp point e =
     do { let e = e\<lparr>ed_tracks := (ed_tracks e)\<lparr>tr_links := list_init tmp (ed_links e)\<rparr>\<rparr>;
          e \<leftarrow> (if ed_nr_marked e \<noteq> 0 then collect_marked tmp (first_item e) e
                else if get_selected e \<noteq> 0 then move_item tmp (get_selected e) e else Some e);
          h \<leftarrow> put_back tmp point (nxt (ed_links e) tmp) (ed_links e);
          e \<leftarrow> reset_tree (e\<lparr>ed_tracks := (ed_tracks e)\<lparr>tr_links := h\<rparr>\<rparr>);
          let t = nxt (ed_links e) point;
          e \<leftarrow> ed_changed e;
          on_window (\<lambda>rows win. window_set_sel so (generic_prev rows) (generic_next rows) (At t) win) e }"

partial_function (option) first_unmarked :: "(nat \<Rightarrow> bool) \<Rightarrow> addr \<Rightarrow> links \<Rightarrow> addr \<Rightarrow> addr option" where
  [code]: "first_unmarked marked head h item =
     (if item = head \<or> \<not> marked item then Some item else first_unmarked marked head h (prv h item))"

definition find_insert_after_point :: "editable \<Rightarrow> addr \<Rightarrow> addr option" where
  "find_insert_after_point e item =
     (if ed_nr_marked e = 0 then Some (nxt (ed_links e) item) else first_unmarked (ed_marked e) (ed_head e) (ed_links e) item)"

definition find_insert_before_point :: "editable \<Rightarrow> addr \<Rightarrow> addr option" where
  "find_insert_before_point e item =
     (let item = prv (ed_links e) item
      in if ed_nr_marked e = 0 then Some (prv (ed_links e) item) else first_unmarked (ed_marked e) (ed_head e) (ed_links e) item)"

definition move_to :: "int \<Rightarrow> addr \<Rightarrow> (editable \<Rightarrow> addr \<Rightarrow> addr option) \<Rightarrow> editable \<Rightarrow> editable option" where
  "move_to so tmp point e =
     (if ed_nr_tracks e \<le> 1 \<or> ed_keys e \<noteq> [] then Some e
      else let sel = get_selected e
           in if sel \<noteq> 0 then do { p \<leftarrow> point e sel; move_sel so tmp p e } else Some e)"

definition editable_move_after :: "int \<Rightarrow> addr \<Rightarrow> editable \<Rightarrow> editable option" where
  "editable_move_after so tmp e = move_to so tmp find_insert_after_point e"

definition editable_move_before :: "int \<Rightarrow> addr \<Rightarrow> editable \<Rightarrow> editable option" where
  "editable_move_before so tmp e = move_to so tmp find_insert_before_point e"

text \<open>Callbacks on the marked tracks or the selected one, and on all.\<close>

definition editable_for_each_sel :: "int \<Rightarrow> (nat \<Rightarrow> 'd \<Rightarrow> int \<times> 'd) \<Rightarrow> bool \<Rightarrow> bool \<Rightarrow> 'd \<Rightarrow> editable \<Rightarrow> (int \<times> 'd \<times> editable) option" where
  "editable_for_each_sel so cb reverse advance d e =
     do { (rc, d) \<leftarrow> (if ed_nr_marked e \<noteq> 0 then simple_list_for_each_marked (ed_head e) (ed_marked e) cb d reverse (ed_links e)
                     else if get_selected e \<noteq> 0 then Some (cb (get_selected e) d) else Some (0, d));
          e \<leftarrow> (if advance \<and> ed_nr_marked e = 0
                then on_window (\<lambda>rows win. window_down so (generic_next rows) (\<lambda>_. True) 1 win) e else Some e);
          Some (rc, d, e) }"

definition editable_for_each :: "(nat \<Rightarrow> 'd \<Rightarrow> int \<times> 'd) \<Rightarrow> bool \<Rightarrow> 'd \<Rightarrow> editable \<Rightarrow> (int \<times> 'd) option" where
  "editable_for_each cb reverse d e = simple_list_for_each (ed_head e) cb d reverse (ed_links e)"

definition editable_empty :: "editable \<Rightarrow> bool" where
  "editable_empty e = list_empty (ed_links e) (ed_head e)"

text \<open>The play queue. A new track \<open>t\<close> points to \<open>info\<close>, is not marked and its tree node is cleared.\<close>

definition simple_track_new :: "nat \<Rightarrow> nat \<Rightarrow> editable \<Rightarrow> editable option" where
  "simple_track_new t info e =
     do { tr \<leftarrow> simple_track_init t (ed_tracks e);
          Some (e\<lparr>ed_tracks := tr, ed_info := (ed_info e)(t := info), ed_marked := (ed_marked e)(t := False)\<rparr>) }"

definition play_queue_init :: "editable \<Rightarrow> editable option" where
  "play_queue_init e = editable_init True (editable_shared_init e)"

definition play_queue_append :: "clib \<Rightarrow> (nat \<Rightarrow> track_info) \<Rightarrow> nat \<Rightarrow> nat \<Rightarrow> editable \<Rightarrow> editable option" where
  "play_queue_append cl ti t info e = do { e \<leftarrow> simple_track_new t info e; editable_add cl ti t e }"

definition play_queue_prepend :: "clib \<Rightarrow> (nat \<Rightarrow> track_info) \<Rightarrow> nat \<Rightarrow> nat \<Rightarrow> editable \<Rightarrow> editable option" where
  "play_queue_prepend cl ti t info e = do { e \<leftarrow> simple_track_new t info e; editable_add_before cl ti t e }"

text \<open>The \<^verbatim>\<open>track_info\<close> of the first track, or 0.\<close>

definition play_queue_remove :: "(nat \<Rightarrow> track_info) \<Rightarrow> editable \<Rightarrow> (nat \<times> editable) option" where
  "play_queue_remove ti e =
     (if \<not> list_empty (ed_links e) (ed_head e)
      then do { let t = first_item e;
                e' \<leftarrow> editable_remove_track ti t e;
                Some (ed_info e t, e') }
      else Some (0, e))"

definition play_queue_for_each :: "(nat \<Rightarrow> 'd \<Rightarrow> int \<times> 'd) \<Rightarrow> 'd \<Rightarrow> editable \<Rightarrow> (int \<times> 'd) option" where
  "play_queue_for_each cb d e = each_track (nxt (ed_links e)) (ed_head e) (\<lambda>_. True) cb (first_item e) d"

section \<open>A list with its numbers and its window\<close>

definition ed_holds :: "clib \<Rightarrow> (nat \<Rightarrow> track_info) \<Rightarrow> editable \<Rightarrow> nat list \<Rightarrow> bool" where
  "ed_holds cl ti e xs \<longleftrightarrow> list_rep cl (ed_keys e) (track_at ti e) (ed_head e) (ed_tracks e) xs \<and> ed_owns e \<and> visible xs (ed_win e) \<and>
     length xs < 2 ^ 32 \<and> ed_nr_tracks e = of_nat (length xs) \<and> ed_nr_marked e = of_nat (length (filter (ed_marked e) xs)) \<and>
     ed_total_time e = sum_list (map (track_time ti e) xs)"

lemma list_rep_ring:
  assumes "list_rep cl keys info head s xs"
  shows "is_list (tr_links s) head xs" "distinct (head # xs)" "0 \<notin> set xs"
  using assms by (auto simp: list_rep_def grouped_def is_list_def)

lemma ed_ring:
  assumes "ed_holds cl ti e xs"
  shows "is_list (ed_links e) (ed_head e) xs" "distinct (ed_head e # xs)" "0 \<notin> set xs" "first_item e = hd (xs @ [ed_head e])"
    "on_window f e = map_option (\<lambda>win. e\<lparr>ed_win := win\<rparr>) (f xs (ed_win e))"
proof -
  have l: "list_rep cl (ed_keys e) (track_at ti e) (ed_head e) (ed_tracks e) xs" using assms by (simp add: ed_holds_def)
  show r: "is_list (ed_links e) (ed_head e) xs" "distinct (ed_head e # xs)" "0 \<notin> set xs" using list_rep_ring [OF l] by auto
  show "first_item e = hd (xs @ [ed_head e])" using is_list_ends(1) [OF r(1)] by (simp add: first_item_def)
  show "on_window f e = map_option (\<lambda>win. e\<lparr>ed_win := win\<rparr>) (f xs (ed_win e))"
    using list_walks(1) [OF r(1)] assms by (cases "f xs (ed_win e)") (simp_all add: on_window_def ed_holds_def)
qed

lemma track_time_simps [simp]:
  "track_time ti (e\<lparr>ed_win := a\<rparr>) = track_time ti e" "track_time ti (e\<lparr>ed_tracks := b\<rparr>) = track_time ti e"
  "track_time ti (e\<lparr>ed_nr_tracks := c\<rparr>) = track_time ti e" "track_time ti (e\<lparr>ed_nr_marked := c\<rparr>) = track_time ti e"
  "track_time ti (e\<lparr>ed_total_time := c\<rparr>) = track_time ti e" "track_time ti (e\<lparr>ed_marked := d\<rparr>) = track_time ti e"
  by (simp_all add: track_time_def fun_eq_iff)

text \<open>Nothing but the window or its flag changes.\<close>

lemma ed_holds_win: "ed_holds cl ti e xs \<Longrightarrow> visible xs win \<Longrightarrow> ed_holds cl ti (e\<lparr>ed_win := win\<rparr>) xs"
  by (simp add: ed_holds_def)

lemma ed_holds_mark_changed: "ed_holds cl ti e xs \<Longrightarrow> ed_holds cl ti (mark_changed e) xs"
  using ed_holds_win [of cl ti e xs "(ed_win e)\<lparr>w_changed := True\<rparr>"] by (simp add: mark_changed_def ed_holds_def)

lemma visible_rows:
  assumes "visible xs win" "xs \<noteq> []"
  shows "w_top win \<in> At ` set xs" "w_sel win \<in> At ` set xs"
  using assms by (auto elim!: visibleE)

lemma changed_rows:
  assumes "visible xs win" "set xs \<subseteq> set ys" "distinct ys"
  shows "\<exists>win'. window_changed (generic_prev ys) (generic_next ys) win = Some win' \<and> visible ys win'"
proof -
  have "op_ok (Change ys) (xs, win)" using visible_rows [OF assms(1)] assms(2,3) by (cases "xs = []") auto
  then show ?thesis using op_change [OF assms(1)] by blast
qed

section \<open>Adding and removing\<close>

lemma add_time: "sum_list (map f (insert_track cmp tb x xs)) = f x + sum_list (map f xs)" for f :: "nat \<Rightarrow> u32"
  by (metis set_insert_track(2) sum_mset_sum_list mset_map sum_mset.insert)

lemma length_insert_track: "length (insert_track cmp tb x xs) = Suc (length xs)"
  by (metis set_insert_track(2) size_mset size_add_mset)

lemma marked_insert_track: "length (filter p (insert_track cmp tb x xs)) = (if p x then 1 else 0) + length (filter p xs)"
proof -
  have "size (filter_mset p (mset (insert_track cmp tb x xs))) = (if p x then 1 else 0) + size (filter_mset p (mset xs))"
    by (simp add: set_insert_track)
  then show ?thesis by (metis mset_filter size_mset)
qed

lemma ed_add:
  assumes "strcoll_ok (cl_strcoll cl)" "ed_holds cl ti e xs" "x \<noteq> 0" "x \<notin> set (ed_head e # xs)" "cleared x (ed_tracks e)" "track_ok (track_at ti e x)"
    "\<not> ed_marked e x" "Suc (length xs) < 2 ^ 32"
  shows "\<exists>e'. do_editable_add cl ti x tb e = Some e' \<and> ed_holds cl ti e' (insert_track (track_cmp cl (ed_keys e) (track_at ti e)) tb x xs) \<and>
    ed_keys e' = ed_keys e \<and> ed_head e' = ed_head e \<and> ed_info e' = ed_info e \<and> ed_marked e' = ed_marked e"
proof -
  let ?cmp = "track_cmp cl (ed_keys e) (track_at ti e)"
  let ?ys = "insert_track ?cmp tb x xs"
  have l: "list_rep cl (ed_keys e) (track_at ti e) (ed_head e) (ed_tracks e) xs" and v: "visible xs (ed_win e)"
    using assms(2) by (simp_all add: ed_holds_def)
  have "list_op_ok (track_at ti e) (ed_head e) (Add_track x tb) (ed_tracks e)" using assms(3-6) in_ring_rep [OF l] by simp
  from list_step [OF assms(1) l this] obtain tr where tr: "sorted_list_add_track ?cmp (ed_head e) x tb (ed_tracks e) = Some tr"
    "list_rep cl (ed_keys e) (track_at ti e) (ed_head e) tr ?ys" by auto
  let ?e = "e\<lparr>ed_tracks := tr, ed_nr_tracks := ed_nr_tracks e + 1, ed_total_time := ed_total_time e + track_time ti e x\<rparr>"
  have d: "distinct ?ys" using list_rep_ring(2) [OF tr(2)] by simp
  obtain win where w: "window_changed (generic_prev ?ys) (generic_next ?ys) (ed_win e) = Some win" "visible ?ys win"
    using changed_rows [OF v _ d] by (auto simp: set_insert_track)
  have "list_for_each (tr_links tr) (ed_head e) (nxt (tr_links tr) (ed_head e)) = Some ?ys"
    using list_walks(1) [OF list_rep_ring(1) [OF tr(2)]] .
  then have "ed_changed ?e = Some (?e\<lparr>ed_win := win\<rparr>)" using assms(2) w(1) by (simp add: ed_changed_def on_window_def ed_holds_def)
  moreover have "ed_holds cl ti (?e\<lparr>ed_win := win\<rparr>) ?ys"
    using assms(2,7,8) tr(2) w(2) by (simp add: ed_holds_def add_time length_insert_track marked_insert_track)
  ultimately show ?thesis using tr(1) by (simp add: do_editable_add_def Let_def)
qed

lemma remove1_index: "distinct xs \<Longrightarrow> i < length xs \<Longrightarrow> remove1 (xs ! i) xs = without i xs"
proof (induction xs arbitrary: i)
  case (Cons x xs)
  then show ?case by (cases i) (auto simp: without_def)
qed simp

lemma filter_remove1_count: "t \<in> set xs \<Longrightarrow> length (filter p xs) = length (filter p (remove1 t xs)) + of_bool (p t)"
  by (induction xs) auto

lemma ed_remove:
  assumes "strcoll_ok (cl_strcoll cl)" "ed_holds cl ti e xs" "t \<in> set xs"
  shows "\<exists>e'. editable_remove_track ti t e = Some e' \<and> ed_holds cl ti e' (remove1 t xs) \<and>
    ed_keys e' = ed_keys e \<and> ed_head e' = ed_head e \<and> ed_info e' = ed_info e \<and> ed_marked e' = ed_marked e"
proof -
  have l: "list_rep cl (ed_keys e) (track_at ti e) (ed_head e) (ed_tracks e) xs" and v: "visible xs (ed_win e)"
    using assms(2) by (simp_all add: ed_holds_def)
  have "list_op_ok (track_at ti e) (ed_head e) (Remove_track t) (ed_tracks e)" using assms(3) in_ring_rep [OF l] by simp
  from list_step [OF assms(1) l this] obtain tr where tr: "sorted_list_remove_track (ed_head e) t (ed_tracks e) = Some tr"
    "list_rep cl (ed_keys e) (track_at ti e) (ed_head e) tr (remove1 t xs)" by auto
  obtain i where i: "i < length xs" "xs ! i = t" using assms(3) by (meson in_set_conv_nth)
  have d: "distinct xs" using ed_ring(2) [OF assms(2)] by simp
  obtain win where w: "window_row_vanishes (generic_prev xs) (generic_next xs) (\<lambda>_. True) (At t) (ed_win e) = Some win" "visible (remove1 t xs) win"
    using list_rows.vanish_visible [OF v i(1)] remove1_index [OF d i(1)] i(2) by auto
  have vn: "ed_vanishes t e = Some (e\<lparr>ed_win := win\<rparr>)" unfolding ed_vanishes_def ed_ring(5) [OF assms(2)] w(1) by simp
  let ?e = "e\<lparr>ed_win := win, ed_nr_tracks := ed_nr_tracks e - 1, ed_nr_marked := ed_nr_marked e - of_bool (ed_marked e t),
     ed_total_time := ed_total_time e - track_time ti e t, ed_tracks := tr\<rparr>"
  have run: "editable_remove_track ti t e = Some ?e" using vn tr(1) by (simp add: editable_remove_track_def track_time_def Let_def)
  have len: "length xs = Suc (length (remove1 t xs))" using assms(3) length_pos_if_in_set [of t xs] by (simp add: length_remove1)
  have m: "length (filter (ed_marked e) xs) = length (filter (ed_marked e) (remove1 t xs)) + of_bool (ed_marked e t)"
    using filter_remove1_count [OF assms(3)] .
  have tm: "sum_list (map (track_time ti e) xs) = track_time ti e t + sum_list (map (track_time ti e) (remove1 t xs))"
    using assms(3) by (simp add: sum_list_map_remove1)
  have "ed_holds cl ti ?e (remove1 t xs)"
    using assms(2) tr(2) w(2) len m tm unfolding ed_holds_def by (cases "ed_marked e t") simp_all
  then show ?thesis using run by simp
qed

section \<open>The loops\<close>

text \<open>What no operation on the tracks' order changes.\<close>

definition same_tracks :: "editable \<Rightarrow> editable \<Rightarrow> bool" where
  "same_tracks e e' \<longleftrightarrow> ed_keys e' = ed_keys e \<and> ed_head e' = ed_head e \<and> ed_info e' = ed_info e \<and> ed_marked e' = ed_marked e"

lemma same_tracks_refl [simp]: "same_tracks e e" "same_tracks e (e\<lparr>ed_win := w\<rparr>)" "same_tracks e (mark_changed e)"
  by (simp_all add: same_tracks_def mark_changed_def)

lemma same_tracks_trans [trans]: "same_tracks a b \<Longrightarrow> same_tracks b c \<Longrightarrow> same_tracks a c"
  by (simp add: same_tracks_def)

lemma ed_ring_at:
  assumes "ed_holds cl ti e (us @ t # rest)"
  shows "nxt (ed_links e) t = hd (rest @ [ed_head e])" "t \<noteq> ed_head e" "t \<notin> set (us @ rest)"
  using is_list_entry(1) [of "ed_links e" "ed_head e" us t rest] ed_ring(1,2) [OF assms] by auto

lemma remove_loop:
  assumes "strcoll_ok (cl_strcoll cl)"
  shows "ed_holds cl ti e (us @ rest) \<Longrightarrow> (\<And>e'. same_tracks e e' \<Longrightarrow> wanted e' = p) \<Longrightarrow>
    \<exists>e'. remove_where ti wanted (hd (rest @ [ed_head e])) e = Some e' \<and> ed_holds cl ti e' (us @ filter (\<lambda>t. \<not> p t) rest) \<and> same_tracks e e'"
proof (induction rest arbitrary: us e)
  case Nil
  then show ?case by (subst remove_where.simps) simp
next
  case (Cons t rest)
  note at = ed_ring_at [OF Cons.prems(1)]
  have w: "wanted e = p" using Cons.prems(2) by simp
  show ?case
  proof (cases "p t")
    case True
    obtain e1 where e1: "editable_remove_track ti t e = Some e1" "ed_holds cl ti e1 (us @ rest)" "same_tracks e e1"
      using ed_remove [OF assms(1) Cons.prems(1), of t] at(3) by (auto simp: remove1_append same_tracks_def)
    have h: "ed_head e1 = ed_head e" using e1(3) by (simp add: same_tracks_def)
    obtain e' where "remove_where ti wanted (hd (rest @ [ed_head e1])) e1 = Some e'" "ed_holds cl ti e' (us @ filter (\<lambda>t. \<not> p t) rest)"
      "same_tracks e1 e'"
      using Cons.IH [OF e1(2)] Cons.prems(2) same_tracks_trans [OF e1(3)] by blast
    then show ?thesis using True at w e1 h same_tracks_trans by (subst remove_where.simps) (fastforce simp: Let_def)
  next
    case False
    have "ed_holds cl ti e ((us @ [t]) @ rest)" using Cons.prems(1) by simp
    from Cons.IH [OF this Cons.prems(2)] show ?thesis using at w False by (subst remove_where.simps) (simp add: Let_def)
  qed
qed

lemma ed_remove_where:
  assumes "strcoll_ok (cl_strcoll cl)" "ed_holds cl ti e xs" "\<And>e'. same_tracks e e' \<Longrightarrow> wanted e' = p"
  shows "\<exists>e'. remove_where ti wanted (first_item e) e = Some e' \<and> ed_holds cl ti e' (filter (\<lambda>t. \<not> p t) xs) \<and> same_tracks e e'"
  using remove_loop [of cl ti e "[]" xs wanted p] assms ed_ring(4) [OF assms(2)] by simp

text \<open>Marks.\<close>

definition set_marks :: "(nat \<Rightarrow> bool) \<Rightarrow> nat list \<Rightarrow> editable \<Rightarrow> editable" where
  "set_marks m xs e = e\<lparr>ed_nr_marked := of_nat (length (filter m xs)), ed_marked := m\<rparr>"

lemma ed_holds_marks: "ed_holds cl ti e xs \<Longrightarrow> ed_holds cl ti (set_marks m xs e) xs"
  by (simp add: ed_holds_def set_marks_def)

lemma set_mark_marks:
  assumes "t \<in> set xs" "distinct xs"
  shows "set_mark b t (set_marks m xs e) = set_marks (m(t := b)) xs e"
proof -
  have "filter m (remove1 t xs) = filter (m(t := b)) (remove1 t xs)" using assms(2) by (auto intro!: filter_cong)
  then have "length (filter m xs) + of_bool b = length (filter (m(t := b)) xs) + of_bool (m t)"
    using filter_remove1_count [OF assms(1), of m] filter_remove1_count [OF assms(1), of "m(t := b)"] by simp
  then have "(of_nat (length (filter m xs)) :: u32) + of_bool b = of_nat (length (filter (m(t := b)) xs)) + of_bool (m t)"
    by (metis of_nat_add of_nat_of_bool)
  then show ?thesis by (simp add: set_mark_def set_marks_def algebra_simps)
qed

lemma marks_self: "ed_holds cl ti e xs \<Longrightarrow> set_marks (ed_marked e) xs e = e"
  by (simp add: ed_holds_def set_marks_def)

text \<open>The loop gives each track from \<open>rest\<close> on the mark \<open>f\<close> says, \<open>p\<close>.\<close>

lemma mark_walk:
  assumes "\<And>e' t. ed_info e' = ed_info e \<Longrightarrow> ed_marked e' t = ed_marked e t \<Longrightarrow> f e' t = p t"
  shows "ed_holds cl ti (set_marks m xs e) xs \<Longrightarrow> xs = us @ rest \<Longrightarrow> \<forall>t \<in> set rest. m t = ed_marked e t \<Longrightarrow>
    mark_loop f (hd (rest @ [ed_head e])) (set_marks m xs e) = Some (set_marks (\<lambda>t. if t \<in> set rest then p t else m t) xs e)"
proof (induction rest arbitrary: us m)
  case Nil
  then show ?case by (subst mark_loop.simps) (simp add: set_marks_def)
next
  case (Cons t rest)
  let ?m = "m(t := p t)"
  have "ed_holds cl ti (set_marks m xs e) (us @ t # rest)" using Cons.prems(1,2) by simp
  note at = ed_ring_at [OF this]
  have d: "distinct xs" using ed_ring(2) [OF Cons.prems(1)] by simp
  have s: "set_mark (f (set_marks m xs e) t) t (set_marks m xs e) = set_marks ?m xs e"
    using set_mark_marks [of t xs "p t" m e] assms [of "set_marks m xs e" t] Cons.prems(2,3) d by (simp add: set_marks_def)
  have h: "ed_holds cl ti (set_marks ?m xs e) xs" using ed_holds_marks [OF Cons.prems(1), of ?m] by (simp add: set_marks_def)
  have mt: "\<forall>t \<in> set rest. ?m t = ed_marked e t" using Cons.prems(2,3) d by auto
  have "mark_loop f (hd (rest @ [ed_head e])) (set_marks ?m xs e) = Some (set_marks (\<lambda>t. if t \<in> set rest then p t else ?m t) xs e)"
    by (rule Cons.IH [OF h, of "us @ [t]", OF _ mt]) (use Cons.prems(2) in simp)
  moreover have "(\<lambda>u. if u \<in> set rest then p u else ?m u) = (\<lambda>u. if u \<in> set (t # rest) then p u else m u)"
    by (auto simp: fun_eq_iff)
  ultimately show ?case using at s by (subst mark_loop.simps) (simp add: set_marks_def)
qed

lemma ed_mark_loop:
  assumes "ed_holds cl ti e xs" "\<And>e' t. ed_info e' = ed_info e \<Longrightarrow> ed_marked e' t = ed_marked e t \<Longrightarrow> f e' t = p t"
  shows "mark_loop f (first_item e) e = Some (set_marks (\<lambda>t. if t \<in> set xs then p t else ed_marked e t) xs e)"
  using mark_walk [of e f p cl ti "ed_marked e" xs "[]" xs] assms ed_ring(4) [OF assms(1)] marks_self [OF assms(1)] by simp

text \<open>A \<^verbatim>\<open>track_info\<close> removed: its tracks go.\<close>

lemma track_cmp_unsorted [simp]: "track_cmp cl [] info = (\<lambda>_ _. 0)"
  by (simp add: track_cmp_def fun_eq_iff)

lemma gone_walk:
  assumes "strcoll_ok (cl_strcoll cl)"
  shows "ed_holds cl ti e (us @ rest) \<Longrightarrow> distinct rest \<Longrightarrow>
    \<exists>e' changed'. update_loop ti old 0 (hd (rest @ [ed_head e])) changed e = Some (changed', e') \<and>
      ed_holds cl ti e' (us @ filter (\<lambda>t. ed_info e t \<noteq> old) rest) \<and> same_tracks e e'"
proof (induction rest arbitrary: us e changed)
  case Nil
  then show ?case by (subst update_loop.simps) (simp add: same_tracks_def)
next
  case (Cons t rest)
  note at = ed_ring_at [OF Cons.prems(1)]
  show ?case
  proof (cases "ed_info e t = old")
    case False
    have "ed_holds cl ti e ((us @ [t]) @ rest)" using Cons.prems(1) by simp
    from Cons.IH [OF this] show ?thesis using False at Cons.prems(2)
      by (subst update_loop.simps) (fastforce simp: Let_def)
  next
    case True
    obtain e1 where e1: "editable_remove_track ti t e = Some e1" "ed_holds cl ti e1 (us @ rest)" "same_tracks e e1"
      using ed_remove [OF assms(1) Cons.prems(1), of t] at(3) by (auto simp: remove1_append same_tracks_def)
    from Cons.IH [OF e1(2)] show ?thesis using True at e1(1,3) Cons.prems(2)
      by (subst update_loop.simps) (simp add: Let_def same_tracks_def)
  qed
qed

text \<open>A \<^verbatim>\<open>track_info\<close> replaced: nothing but the infos of its tracks changes.\<close>

definition new_infos :: "nat \<Rightarrow> nat \<Rightarrow> nat list \<Rightarrow> (nat \<Rightarrow> nat) \<Rightarrow> nat \<Rightarrow> nat" where
  "new_infos old new xs f = (\<lambda>u. if u \<in> set xs \<and> f u = old then new else f u)"

lemma new_infos_Cons:
  "t \<notin> set xs \<Longrightarrow> new_infos old new (t # xs) f = new_infos old new xs (if f t = old then f(t := new) else f)"
  by (auto simp: new_infos_def fun_eq_iff)

definition replaced :: "nat \<Rightarrow> nat \<Rightarrow> nat list \<Rightarrow> editable \<Rightarrow> editable" where
  "replaced old new xs e = e\<lparr>ed_info := new_infos old new xs (ed_info e)\<rparr>"

lemma replace_walk:
  assumes "new \<noteq> 0"
  shows "is_list (ed_links e) (ed_head e) (us @ rest) \<Longrightarrow> distinct (ed_head e # us @ rest) \<Longrightarrow>
    \<exists>changed'. update_loop ti old new (hd (rest @ [ed_head e])) changed e = Some (changed', replaced old new rest e)"
proof (induction rest arbitrary: us e changed)
  case Nil
  then show ?case by (subst update_loop.simps) (simp add: replaced_def new_infos_def)
next
  case (Cons t rest)
  have at: "nxt (ed_links e) t = hd (rest @ [ed_head e])" "t \<noteq> ed_head e" "t \<notin> set rest"
    using is_list_entry(1) [of "ed_links e" "ed_head e" us t rest] Cons.prems by auto
  let ?e = "if ed_info e t = old then e\<lparr>ed_info := (ed_info e)(t := new)\<rparr> else e"
  have "is_list (ed_links ?e) (ed_head ?e) ((us @ [t]) @ rest)" "distinct (ed_head ?e # (us @ [t]) @ rest)"
    using Cons.prems by simp_all
  moreover have "ed_head ?e = ed_head e" by simp
  ultimately obtain ch where
    ch: "update_loop ti old new (hd (rest @ [ed_head e])) (ed_info e t = old \<or> changed) ?e = Some (ch, replaced old new rest ?e)"
    using Cons.IH [of ?e "us @ [t]" "ed_info e t = old \<or> changed"] by metis
  moreover have "replaced old new rest ?e = replaced old new (t # rest) e"
    using at(3) by (simp add: replaced_def new_infos_Cons)
  ultimately show ?case using at assms
    by (subst update_loop.simps) (cases "ed_info e t = old"; simp add: Let_def)
qed

definition info_time :: "track_info \<Rightarrow> u32" where
  "info_time i = (if ti_duration i \<noteq> -1 then word_of_int (ti_duration i) else 0)"

text \<open>By how much the tracks become longer together.\<close>

definition replaced_time :: "(nat \<Rightarrow> track_info) \<Rightarrow> nat \<Rightarrow> nat \<Rightarrow> editable \<Rightarrow> nat list \<Rightarrow> u32" where
  "replaced_time ti old new e xs = sum_list (map (\<lambda>t. if ed_info e t = old then info_time (ti new) - info_time (ti old) else 0) xs)"

lemma ed_holds_replaced:
  assumes "ed_holds cl ti e xs" "ed_keys e = []" "track_ok (ti new)"
  shows "ed_holds cl ti ((replaced old new xs e)\<lparr>ed_total_time := ed_total_time e + replaced_time ti old new e xs\<rparr>) xs"
proof -
  let ?e = "(replaced old new xs e)\<lparr>ed_total_time := ed_total_time e + replaced_time ti old new e xs\<rparr>"
  have "track_time ti ?e t = track_time ti e t + (if ed_info e t = old then info_time (ti new) - info_time (ti old) else 0)"
    if "t \<in> set xs" for t
    using that by (simp add: track_time_def info_time_def replaced_def new_infos_def)
  then have "map (track_time ti ?e) xs = map (\<lambda>t. track_time ti e t + (if ed_info e t = old then info_time (ti new) - info_time (ti old) else 0)) xs"
    by simp
  then have "ed_total_time ?e = sum_list (map (track_time ti ?e) xs)"
    using assms(1) by (simp only: sum_list_addf) (simp add: ed_holds_def replaced_time_def)
  then show ?thesis using assms by (auto simp: ed_holds_def list_rep_def replaced_def new_infos_def)
qed

section \<open>Every operation\<close>

datatype ed_op =
  Ed_add nat | Ed_add_before nat | Ed_remove nat | Ed_remove_sel | Ed_clear | Ed_remove_matching "track_info \<Rightarrow> bool" | Ed_update nat nat |
  Ed_mark "(track_info \<Rightarrow> bool) option option" | Ed_unmark | Ed_invert | Ed_toggle | Ed_window "nat op"

definition ed_rows :: "editable \<Rightarrow> nat list option" where
  "ed_rows e = list_for_each (ed_links e) (ed_head e) (first_item e)"

fun run_ed :: "clib \<Rightarrow> (nat \<Rightarrow> track_info) \<Rightarrow> int \<Rightarrow> ed_op \<Rightarrow> editable \<Rightarrow> editable option" where
  "run_ed cl ti so (Ed_add t) e = editable_add cl ti t e"
| "run_ed cl ti so (Ed_add_before t) e = editable_add_before cl ti t e"
| "run_ed cl ti so (Ed_remove t) e = editable_remove_track ti t e"
| "run_ed cl ti so Ed_remove_sel e = editable_remove_sel ti e"
| "run_ed cl ti so Ed_clear e = editable_clear ti e"
| "run_ed cl ti so (Ed_remove_matching cb) e = editable_remove_matching_tracks ti cb e"
| "run_ed cl ti so (Ed_update old new) e = editable_update_track ti old new e"
| "run_ed cl ti so (Ed_mark filter_expr) e = editable_mark ti filter_expr e"
| "run_ed cl ti so Ed_unmark e = editable_unmark e"
| "run_ed cl ti so Ed_invert e = editable_invert_marks e"
| "run_ed cl ti so Ed_toggle e = editable_toggle_mark so e"
| "run_ed cl ti so (Ed_window c) e = on_window (\<lambda>rows win. map_option snd (window_op so c (rows, win))) e"

definition new_track :: "(nat \<Rightarrow> track_info) \<Rightarrow> nat \<Rightarrow> editable \<Rightarrow> bool" where
  "new_track ti t e \<longleftrightarrow> t \<noteq> 0 \<and> t \<noteq> ed_head e \<and> \<not> in_ring (ed_head e) (ed_tracks e) t \<and> cleared t (ed_tracks e) \<and> track_ok (track_at ti e t) \<and>
     \<not> ed_marked e t \<and> ed_nr_tracks e \<noteq> - 1"

text \<open>
  What the operations need: a new track as \<open>simple_track_init\<close> leaves it; a track of the list to remove; a \<^verbatim>\<open>track_info\<close> is removed, or
  it is replaced in a list without sort keys, as the order would be lost otherwise; rows that the window's operation keeps.
\<close>

fun ed_op_ok :: "(nat \<Rightarrow> track_info) \<Rightarrow> ed_op \<Rightarrow> editable \<Rightarrow> bool" where
  "ed_op_ok ti (Ed_add t) e \<longleftrightarrow> new_track ti t e"
| "ed_op_ok ti (Ed_add_before t) e \<longleftrightarrow> new_track ti t e"
| "ed_op_ok ti (Ed_remove t) e \<longleftrightarrow> in_ring (ed_head e) (ed_tracks e) t"
| "ed_op_ok ti (Ed_update old new) e \<longleftrightarrow> new = 0 \<or> ed_keys e = [] \<and> track_ok (ti new)"
| "ed_op_ok ti (Ed_window c) e \<longleftrightarrow> opt_is (\<lambda>rows. op_ok c (rows, ed_win e) \<and> new_rows c rows = rows) (ed_rows e)"
| "ed_op_ok ti _ e \<longleftrightarrow> True"

text \<open>The tracks and their marks afterwards.\<close>

fun tracks_after :: "clib \<Rightarrow> (nat \<Rightarrow> track_info) \<Rightarrow> ed_op \<Rightarrow> editable \<Rightarrow> nat list \<Rightarrow> nat list" where
  "tracks_after cl ti (Ed_add t) e xs = insert_track (track_cmp cl (ed_keys e) (track_at ti e)) 1 t xs"
| "tracks_after cl ti (Ed_add_before t) e xs = insert_track (track_cmp cl (ed_keys e) (track_at ti e)) (- 1) t xs"
| "tracks_after cl ti (Ed_remove t) e xs = remove1 t xs"
| "tracks_after cl ti Ed_remove_sel e xs = (if \<exists>t \<in> set xs. ed_marked e t then filter (\<lambda>t. \<not> ed_marked e t) xs else remove1 (get_selected e) xs)"
| "tracks_after cl ti Ed_clear e xs = []"
| "tracks_after cl ti (Ed_remove_matching cb) e xs = filter (\<lambda>t. \<not> cb (track_at ti e t)) xs"
| "tracks_after cl ti (Ed_update old new) e xs = (if new = 0 then filter (\<lambda>t. ed_info e t \<noteq> old) xs else xs)"
| "tracks_after cl ti _ e xs = xs"

fun marks_after :: "(nat \<Rightarrow> track_info) \<Rightarrow> ed_op \<Rightarrow> editable \<Rightarrow> nat \<Rightarrow> bool" where
  "marks_after ti (Ed_mark None) e t = True"
| "marks_after ti (Ed_mark (Some (Some matches))) e t = matches (track_at ti e t)"
| "marks_after ti Ed_unmark e t = False"
| "marks_after ti Ed_invert e t = (\<not> ed_marked e t)"
| "marks_after ti Ed_toggle e t = (if t = get_selected e then \<not> ed_marked e t else ed_marked e t)"
| "marks_after ti _ e t = ed_marked e t"

text \<open>
  By how much the total time is wrong afterwards: replacing a \<^verbatim>\<open>track_info\<close> leaves it as it was.
\<close>

fun time_gap :: "(nat \<Rightarrow> track_info) \<Rightarrow> ed_op \<Rightarrow> editable \<Rightarrow> nat list \<Rightarrow> u32" where
  "time_gap ti (Ed_update old new) e xs = (if new = 0 then 0 else replaced_time ti old new e xs)"
| "time_gap ti _ e xs = 0"

text \<open>\<open>ed_ends c e xs e'\<close>: operation \<open>c\<close> took the list \<open>e\<close> of the tracks \<open>xs\<close> to \<open>e'\<close>.\<close>

definition ed_ends :: "clib \<Rightarrow> (nat \<Rightarrow> track_info) \<Rightarrow> ed_op \<Rightarrow> editable \<Rightarrow> nat list \<Rightarrow> editable \<Rightarrow> bool" where
  "ed_ends cl ti c e xs e' \<longleftrightarrow>
     ed_holds cl ti (e'\<lparr>ed_total_time := ed_total_time e' + time_gap ti c e xs\<rparr>) (tracks_after cl ti c e xs) \<and>
     (\<forall>t \<in> set (tracks_after cl ti c e xs). ed_marked e' t = marks_after ti c e t)"

lemma same_total [simp]: "e\<lparr>ed_total_time := ed_total_time e\<rparr> = e"
  by simp

lemma selected_row:
  assumes "ed_holds cl ti e xs"
  shows "xs = [] \<Longrightarrow> get_selected e = 0" "xs \<noteq> [] \<Longrightarrow> get_selected e \<in> set xs \<and> get_selected e \<noteq> 0 \<and> w_sel (ed_win e) = At (get_selected e)"
proof -
  have v: "visible xs (ed_win e)" using assms by (simp add: ed_holds_def)
  show "xs = [] \<Longrightarrow> get_selected e = 0"
    using v by (simp add: get_selected_def window_get_sel_def visible_def)
  assume "xs \<noteq> []"
  then obtain t where "w_sel (ed_win e) = At t" "t \<in> set xs" using visible_rows(2) [OF v] by blast
  then show "get_selected e \<in> set xs \<and> get_selected e \<noteq> 0 \<and> w_sel (ed_win e) = At (get_selected e)"
    using ed_ring(3) [OF assms] by (cases "t = 0") (auto simp: get_selected_def window_get_sel_def iter_is_empty_def iter_is_head_def iter_is_null_def)
qed

lemma small_word: "n < 2 ^ 32 \<Longrightarrow> (of_nat n :: u32) = 0 \<longleftrightarrow> n = 0"
  using dvd_imp_le [of "2 ^ 32" n] by (auto simp: word_of_nat_eq_0_iff)

lemma nr_marked_zero:
  assumes "ed_holds cl ti e xs"
  shows "ed_nr_marked e = 0 \<longleftrightarrow> (\<forall>t \<in> set xs. \<not> ed_marked e t)"
proof -
  have "length (filter (ed_marked e) xs) < 2 ^ 32" using assms le_less_trans [OF length_filter_le] by (auto simp: ed_holds_def)
  then have "(of_nat (length (filter (ed_marked e) xs)) :: u32) = 0 \<longleftrightarrow> length (filter (ed_marked e) xs) = 0"
    using small_word by blast
  then show ?thesis using assms by (simp add: ed_holds_def filter_empty_conv)
qed

lemma step_add:
  assumes "strcoll_ok (cl_strcoll cl)" "ed_holds cl ti e xs" "new_track ti t e"
  shows "\<exists>e'. do_editable_add cl ti t tb e = Some e' \<and> ed_holds cl ti e' (insert_track (track_cmp cl (ed_keys e) (track_at ti e)) tb t xs) \<and>
    same_tracks e e'"
proof -
  have "list_rep cl (ed_keys e) (track_at ti e) (ed_head e) (ed_tracks e) xs" "length xs < 2 ^ 32" and n: "ed_nr_tracks e = of_nat (length xs)"
    using assms(2) by (simp_all add: ed_holds_def)
  moreover have "Suc (length xs) \<noteq> 2 ^ 32"
  proof
    assume "Suc (length xs) = 2 ^ 32"
    then have "length xs = 2 ^ 32 - 1" by simp
    then have "ed_nr_tracks e = - 1" by (simp add: n)
    then show False using assms(3) by (simp add: new_track_def)
  qed
  ultimately have "Suc (length xs) < 2 ^ 32" "t \<notin> set (ed_head e # xs)" using assms(3) in_ring_rep by (auto simp: new_track_def)
  then show ?thesis using ed_add [OF assms(1,2), of t tb] assms(3) by (simp add: new_track_def same_tracks_def)
qed

lemma step_remove_sel:
  assumes "strcoll_ok (cl_strcoll cl)" "ed_holds cl ti e xs"
  shows "\<exists>e'. editable_remove_sel ti e = Some e' \<and> ed_holds cl ti e' (tracks_after cl ti Ed_remove_sel e xs) \<and> same_tracks e e'"
proof (cases "\<exists>t \<in> set xs. ed_marked e t")
  case True
  then show ?thesis using ed_remove_where [OF assms, of ed_marked "ed_marked e"] nr_marked_zero [OF assms(2)]
    by (auto simp: editable_remove_sel_def same_tracks_def)
next
  case False
  then have z: "ed_nr_marked e = 0" using nr_marked_zero [OF assms(2)] by simp
  show ?thesis
  proof (cases "xs = []")
    case True
    then show ?thesis using z False assms(2) selected_row(1) [OF assms(2)] by (simp add: editable_remove_sel_def)
  next
    case False
    then show ?thesis using z selected_row(2) [OF assms(2)] ed_remove [OF assms] \<open>\<not> (\<exists>t \<in> set xs. ed_marked e t)\<close>
      by (auto simp: editable_remove_sel_def same_tracks_def)
  qed
qed

lemma step_toggle:
  assumes "ed_holds cl ti e xs" "0 \<le> so"
  shows "\<exists>e'. run_ed cl ti so Ed_toggle e = Some e' \<and> ed_ends cl ti Ed_toggle e xs e'"
proof (cases "xs = []")
  case True
  then show ?thesis using selected_row(1) [OF assms(1)] assms(1) by (simp add: editable_toggle_mark_def ed_ends_def)
next
  case False
  let ?t = "get_selected e"
  let ?m = "(ed_marked e)(?t := \<not> ed_marked e ?t)"
  note t = selected_row(2) [OF assms(1) False]
  have "set_mark (\<not> ed_marked e ?t) ?t e = set_marks ?m xs e"
    using set_mark_marks [of ?t xs _ "ed_marked e" e] t ed_ring(2) [OF assms(1)] marks_self [OF assms(1)] by simp
  moreover have h: "ed_holds cl ti (set_marks ?m xs e) xs" using ed_holds_marks [OF assms(1)] .
  moreover obtain win where "window_down so (generic_next xs) (\<lambda>_. True) 1 ((ed_win e)\<lparr>w_changed := True\<rparr>) = Some win" "visible xs win"
    using list_rows.down_visible [of xs "(ed_win e)\<lparr>w_changed := True\<rparr>" so 1] assms by (auto simp: ed_holds_def)
  ultimately show ?thesis using t ed_ring(5) [OF h] ed_holds_win [OF h]
    by (simp add: editable_toggle_mark_def Let_def ed_ends_def) (simp add: set_marks_def)
qed

lemma step_marks:
  assumes "ed_holds cl ti e xs" "\<And>e' t. ed_info e' = ed_info e \<Longrightarrow> ed_marked e' t = ed_marked e t \<Longrightarrow> f e' t = p t"
  shows "\<exists>e'. do { e \<leftarrow> mark_loop f (first_item e) e; Some (mark_changed e) } = Some e' \<and> ed_holds cl ti e' xs \<and> (\<forall>t \<in> set xs. ed_marked e' t = p t)"
  using ed_mark_loop [OF assms] ed_holds_mark_changed [OF ed_holds_marks [OF assms(1)]] by (simp add: mark_changed_def) (simp add: set_marks_def)

lemma step_window:
  assumes "ed_holds cl ti e xs" "ed_op_ok ti (Ed_window c) e" "0 \<le> so"
  shows "\<exists>e'. run_ed cl ti so (Ed_window c) e = Some e' \<and> ed_ends cl ti (Ed_window c) e xs e'"
proof -
  have "ed_rows e = Some xs" using list_walks(1) [OF ed_ring(1) [OF assms(1)]] by (simp add: ed_rows_def first_item_def)
  then have c: "op_ok c (xs, ed_win e)" "new_rows c xs = xs" using assms(2) by (simp_all add: opt_is_def)
  obtain win where "window_op so c (xs, ed_win e) = Some (xs, win)" "visible xs win"
    using op_visible [of xs "ed_win e" so c] assms(1,3) c by (auto simp: ed_holds_def)
  then show ?thesis using ed_ring(5) [OF assms(1)] ed_holds_win [OF assms(1)] by (simp add: ed_ends_def)
qed

lemma step_update:
  assumes "strcoll_ok (cl_strcoll cl)" "ed_holds cl ti e xs" "new = 0 \<or> ed_keys e = [] \<and> track_ok (ti new)"
  shows "\<exists>e'. editable_update_track ti old new e = Some e' \<and> ed_ends cl ti (Ed_update old new) e xs e'"
proof (cases "new = 0")
  case True
  obtain e' ch where e': "update_loop ti old 0 (first_item e) False e = Some (ch, e')"
    "ed_holds cl ti e' (filter (\<lambda>t. ed_info e t \<noteq> old) xs)" "same_tracks e e'"
    using gone_walk [OF assms(1), of ti e "[]" xs old False] assms(2) ed_ring(2,4) [OF assms(2)] by auto
  then have "ed_holds cl ti (if ch then mark_changed e' else e') (filter (\<lambda>t. ed_info e t \<noteq> old) xs)"
    using ed_holds_mark_changed by auto
  then show ?thesis using e' True by (auto simp: editable_update_track_def ed_ends_def mark_changed_def same_tracks_def)
next
  case False
  obtain ch where ch: "update_loop ti old new (first_item e) False e = Some (ch, replaced old new xs e)"
    using replace_walk [OF False, of e "[]" xs ti old False] ed_ring(1,2,4) [OF assms(2)] by auto
  let ?e' = "if ch then mark_changed (replaced old new xs e) else replaced old new xs e"
  let ?r = "(replaced old new xs e)\<lparr>ed_total_time := ed_total_time e + replaced_time ti old new e xs\<rparr>"
  have h: "ed_holds cl ti ((replaced old new xs e)\<lparr>ed_total_time := ed_total_time e + replaced_time ti old new e xs\<rparr>) xs"
    using ed_holds_replaced [OF assms(2)] assms(3) False by simp
  then have "ed_holds cl ti (?e'\<lparr>ed_total_time := ed_total_time ?e' + replaced_time ti old new e xs\<rparr>) xs"
  proof -
    have "?e'\<lparr>ed_total_time := ed_total_time ?e' + replaced_time ti old new e xs\<rparr> = (if ch then mark_changed ?r else ?r)"
      by (simp add: mark_changed_def replaced_def)
    moreover have "ed_holds cl ti (if ch then mark_changed ?r else ?r) xs" using h ed_holds_mark_changed [OF h] by (cases ch) simp_all
    ultimately show ?thesis by simp
  qed
  moreover have "ed_marked ?e' = ed_marked e" by (simp add: mark_changed_def replaced_def)
  ultimately show ?thesis using ch False by (auto simp: editable_update_track_def ed_ends_def)
qed

lemma ed_ends_same:
  assumes "ed_holds cl ti e' (tracks_after cl ti c e xs)" "same_tracks e e'" "\<And>t. marks_after ti c e t = ed_marked e t" "time_gap ti c e xs = 0"
  shows "ed_ends cl ti c e xs e'"
  using assms by (simp add: ed_ends_def same_tracks_def)

lemma ed_step:
  assumes "strcoll_ok (cl_strcoll cl)" "0 \<le> so" "ed_holds cl ti e xs" "ed_op_ok ti c e"
  shows "\<exists>e'. run_ed cl ti so c e = Some e' \<and> ed_ends cl ti c e xs e'"
proof (cases c)
  case (Ed_add t)
  then show ?thesis using step_add [OF assms(1,3), of t 1] assms(4) by (auto simp: editable_add_def intro!: ed_ends_same)
next
  case (Ed_add_before t)
  then show ?thesis using step_add [OF assms(1,3), of t "- 1"] assms(4) by (auto simp: editable_add_before_def intro!: ed_ends_same)
next
  case (Ed_remove t)
  have "list_rep cl (ed_keys e) (track_at ti e) (ed_head e) (ed_tracks e) xs" using assms(3) by (simp add: ed_holds_def)
  then have "t \<in> set xs" using Ed_remove assms(4) in_ring_rep by auto
  from ed_remove [OF assms(1,3) this] show ?thesis using Ed_remove by (auto simp: same_tracks_def intro!: ed_ends_same)
next
  case Ed_remove_sel
  then show ?thesis using step_remove_sel [OF assms(1,3)] by (auto intro!: ed_ends_same)
next
  case Ed_clear
  then show ?thesis using ed_remove_where [OF assms(1,3), of "\<lambda>_ _. True" "\<lambda>_. True"] by (auto simp: editable_clear_def intro!: ed_ends_same)
next
  case (Ed_remove_matching cb)
  then show ?thesis using ed_remove_where [OF assms(1,3), of "\<lambda>e t. cb (track_at ti e t)" "\<lambda>t. cb (track_at ti e t)"]
    by (auto simp: editable_remove_matching_tracks_def same_tracks_def intro!: ed_ends_same)
next
  case (Ed_update old new)
  then show ?thesis using step_update [OF assms(1,3), of new old] assms(4) by auto
next
  case (Ed_mark filter_expr)
  show ?thesis
  proof (cases filter_expr)
    case None
    then show ?thesis using Ed_mark step_marks [OF assms(3), of "\<lambda>_ _. True" "\<lambda>_. True"] by (auto simp: editable_mark_def ed_ends_def)
  next
    case (Some f)
    then show ?thesis
      using Ed_mark assms(3) step_marks [OF assms(3), of "\<lambda>e t. the f (track_at ti e t)" "\<lambda>t. the f (track_at ti e t)"]
      by (cases f) (auto simp: editable_mark_def ed_ends_def)
  qed
next
  case Ed_unmark
  then show ?thesis using step_marks [OF assms(3), of "\<lambda>_ _. False" "\<lambda>_. False"] by (auto simp: editable_unmark_def ed_ends_def)
next
  case Ed_invert
  then show ?thesis using step_marks [OF assms(3), of "\<lambda>e t. \<not> ed_marked e t" "\<lambda>t. \<not> ed_marked e t"]
    by (auto simp: editable_invert_marks_def ed_ends_def)
next
  case Ed_toggle
  then show ?thesis using step_toggle [OF assms(3,2)] by blast
next
  case (Ed_window c')
  then show ?thesis using step_window [OF assms(3), of c' so] assms(2,4) by simp
qed

section \<open>The play queue\<close>

lemma queue_insert: "insert_track (\<lambda>_ _. 0) tb t xs = (if tb < 0 then t # xs else xs @ [t])"
proof -
  have "takeWhile (\<lambda>_. False) xs = []" "dropWhile (\<lambda>_. False) xs = xs" "takeWhile (\<lambda>_. True) xs = xs" "dropWhile (\<lambda>_. True) xs = []"
    by (induction xs) auto
  then show ?thesis by (simp add: insert_track_def Let_def)
qed

lemma list_rep_clear:
  assumes "list_rep cl [] info head s xs" "t \<noteq> 0" "t \<notin> set xs"
  shows "\<exists>rb. rb_clear_node t (tr_rb s) = Some rb \<and> list_rep cl [] (info(t := i)) head (s\<lparr>tr_rb := rb\<rparr>) xs \<and> cleared t (s\<lparr>tr_rb := rb\<rparr>)"
proof -
  obtain gs where g: "grouped (\<lambda>_ _. 0) head s gs" "concat gs = xs" "rest_cleared s gs" and ok: "\<forall>x \<in> set xs. track_ok (info x)"
    using assms(1) by (auto simp: list_rep_def)
  have "t \<notin> set (map hd gs)" using grouped_nodes(3) [OF g(1)] assms(3) g(2) by blast
  moreover have "rb_holds (tr_rb s) (map hd gs)" using g(1) by (simp add: grouped_def)
  ultimately obtain rb where rb: "rb_clear_node t (tr_rb s) = Some rb" "rb_holds rb (map hd gs)" "rb_parent (rb_nodes rb t) = t"
    "\<forall>b. b \<noteq> t \<longrightarrow> rb_nodes rb b = rb_nodes (tr_rb s) b"
    using clear_outside assms(2) by blast
  have "grouped (\<lambda>_ _. 0) head (s\<lparr>tr_rb := rb\<rparr>) gs" using g(1) rb(2) by (simp add: grouped_def)
  moreover have "rest_cleared (s\<lparr>tr_rb := rb\<rparr>) gs" using g(2,3) rb(4) assms(3) by (auto simp: rest_cleared_def cleared_def)
  ultimately have "list_rep cl [] (info(t := i)) head (s\<lparr>tr_rb := rb\<rparr>) xs" using g(2) ok assms(3) by (auto simp: list_rep_def)
  then show ?thesis using rb(1,3) by (simp add: cleared_def)
qed

lemma new_queue_track:
  assumes "ed_holds cl ti e xs" "ed_keys e = []" "t \<noteq> 0" "t \<notin> set (ed_head e # xs)" "track_ok (ti info)" "ed_nr_tracks e \<noteq> - 1"
  shows "\<exists>e'. simple_track_new t info e = Some e' \<and> ed_holds cl ti e' xs \<and> new_track ti t e' \<and> ed_keys e' = [] \<and> ed_head e' = ed_head e \<and>
    ed_info e' = (ed_info e)(t := info)"
proof -
  have l: "list_rep cl [] (track_at ti e) (ed_head e) (ed_tracks e) xs" using assms(1,2) by (simp add: ed_holds_def)
  obtain rb where rb: "rb_clear_node t (tr_rb (ed_tracks e)) = Some rb"
    "list_rep cl [] ((track_at ti e)(t := ti info)) (ed_head e) ((ed_tracks e)\<lparr>tr_rb := rb\<rparr>) xs" "cleared t ((ed_tracks e)\<lparr>tr_rb := rb\<rparr>)"
    using list_rep_clear [OF l assms(3)] assms(4) by auto
  let ?e = "e\<lparr>ed_tracks := (ed_tracks e)\<lparr>tr_rb := rb\<rparr>, ed_info := (ed_info e)(t := info), ed_marked := (ed_marked e)(t := False)\<rparr>"
  have i: "track_at ti ?e = (track_at ti e)(t := ti info)" by (simp add: fun_eq_iff)
  have "map (track_time ti ?e) xs = map (track_time ti e) xs" using assms(4) by (auto simp: track_time_def)
  then have "sum_list (map (track_time ti ?e) xs) = sum_list (map (track_time ti e) xs)" by (rule arg_cong)
  moreover have "filter (ed_marked ?e) xs = filter (ed_marked e) xs" using assms(4) by (auto intro!: filter_cong split: if_splits)
  moreover have lr: "list_rep cl [] (track_at ti ?e) (ed_head e) ((ed_tracks e)\<lparr>tr_rb := rb\<rparr>) xs" using rb(2) unfolding i .
  ultimately have "ed_holds cl ti ?e xs" using assms(1,2) unfolding ed_holds_def by simp
  moreover have "new_track ti t ?e" using assms(3-6) rb(2,3) in_ring_rep [OF rb(2)] by (simp add: new_track_def)
  ultimately show ?thesis using rb(1) assms(2) by (simp add: simple_track_new_def simple_track_init_def)
qed

lemma queue_starts:
  shows "\<exists>e'. play_queue_init e = Some e' \<and> ed_holds cl ti e' [] \<and> ed_keys e' = [] \<and> ed_head e' = ed_head e"
proof -
  let ?h = "list_init (ed_head e) (ed_links e)"
  have r: "is_list ?h (ed_head e) []" using list_init_list(1) .
  let ?s = "\<lparr>tr_links = ?h, tr_rb = (tr_rb (ed_tracks e))\<lparr>rb_root := 0\<rparr>\<rparr>"
  have "1 \<le> w_nr_rows (window_new :: nat window)" by (simp add: window_new_def)
  then obtain win where w: "window_set_contents (generic_next []) (\<lambda>_. True) (window_new :: nat window) = Some win" "visible [] win"
    using list_rows.set_contents_visible [of "[] :: nat list" window_new] by auto
  have "list_rep cl [] (track_at ti e) (ed_head e) ?s []"
    unfolding list_rep_def using r by (intro conjI exI [of _ "[]"]) (simp_all add: grouped_def rb_holds_empty rest_cleared_def)
  then show ?thesis using w list_walks(1) [OF r]
    by (simp add: play_queue_init_def editable_init_def editable_shared_init_def editable_take_ownership_def Let_def ed_holds_def)
qed

text \<open>Its operations, with what they returned, and their meaning on the \<^verbatim>\<open>track_info\<close>s in the queue.\<close>

datatype pq_op = Pq_append nat nat | Pq_prepend nat nat | Pq_remove

fun run_pq :: "clib \<Rightarrow> (nat \<Rightarrow> track_info) \<Rightarrow> pq_op \<Rightarrow> editable \<times> nat list \<Rightarrow> (editable \<times> nat list) option" where
  "run_pq cl ti (Pq_append t info) (e, out) = map_option (\<lambda>e. (e, out)) (play_queue_append cl ti t info e)"
| "run_pq cl ti (Pq_prepend t info) (e, out) = map_option (\<lambda>e. (e, out)) (play_queue_prepend cl ti t info e)"
| "run_pq cl ti Pq_remove (e, out) = map_option (\<lambda>(info, e). (e, out @ [info])) (play_queue_remove ti e)"

fun pq_meaning :: "pq_op \<Rightarrow> nat list \<times> nat list \<Rightarrow> nat list \<times> nat list" where
  "pq_meaning (Pq_append t info) (q, out) = (q @ [info], out)"
| "pq_meaning (Pq_prepend t info) (q, out) = (info # q, out)"
| "pq_meaning Pq_remove ([], out) = ([], out @ [0])"
| "pq_meaning Pq_remove (info # q, out) = (q, out @ [info])"

text \<open>The memory of a new track is not null, and neither the list's head nor a track of the queue.\<close>

fun pq_ok :: "(nat \<Rightarrow> track_info) \<Rightarrow> pq_op \<Rightarrow> editable \<times> nat list \<Rightarrow> bool" where
  "pq_ok ti (Pq_append t info) (e, out) \<longleftrightarrow> t \<noteq> 0 \<and> t \<noteq> ed_head e \<and> \<not> in_ring (ed_head e) (ed_tracks e) t \<and> track_ok (ti info) \<and> ed_nr_tracks e \<noteq> - 1"
| "pq_ok ti (Pq_prepend t info) (e, out) \<longleftrightarrow> t \<noteq> 0 \<and> t \<noteq> ed_head e \<and> \<not> in_ring (ed_head e) (ed_tracks e) t \<and> track_ok (ti info) \<and> ed_nr_tracks e \<noteq> - 1"
| "pq_ok ti Pq_remove (e, out) \<longleftrightarrow> True"

definition pq_rep :: "clib \<Rightarrow> (nat \<Rightarrow> track_info) \<Rightarrow> editable \<times> nat list \<Rightarrow> nat list \<times> nat list \<Rightarrow> bool" where
  "pq_rep cl ti s a \<longleftrightarrow> (\<exists>xs. ed_holds cl ti (fst s) xs \<and> ed_keys (fst s) = [] \<and> map (ed_info (fst s)) xs = fst a) \<and> snd s = snd a"

lemma queue_add:
  assumes "strcoll_ok (cl_strcoll cl)" "ed_holds cl ti e xs" "ed_keys e = []" "pq_ok ti (Pq_append t info) (e, out)"
  shows "\<exists>e'. do { e \<leftarrow> simple_track_new t info e; do_editable_add cl ti t tb e } = Some e' \<and>
    ed_holds cl ti e' (if tb < 0 then t # xs else xs @ [t]) \<and> ed_keys e' = [] \<and>
    map (ed_info e') (if tb < 0 then t # xs else xs @ [t]) = (if tb < 0 then info # map (ed_info e) xs else map (ed_info e) xs @ [info]) \<and>
    ed_head e' = ed_head e"
proof -
  have "list_rep cl (ed_keys e) (track_at ti e) (ed_head e) (ed_tracks e) xs" using assms(2) by (simp add: ed_holds_def)
  then have t: "t \<notin> set (ed_head e # xs)" "t \<noteq> 0" "track_ok (ti info)" "ed_nr_tracks e \<noteq> - 1" using assms(4) in_ring_rep by auto
  from new_queue_track [OF assms(2,3) t(2,1,3,4)] t(1) obtain e1 where e1: "simple_track_new t info e = Some e1" "ed_holds cl ti e1 xs"
    "new_track ti t e1" "ed_keys e1 = []" "ed_info e1 = (ed_info e)(t := info)" "t \<notin> set xs"
    "ed_head e1 = ed_head e" by auto
  from step_add [OF assms(1) e1(2,3), of tb] obtain e' where "do_editable_add cl ti t tb e1 = Some e'"
    "ed_holds cl ti e' (if tb < 0 then t # xs else xs @ [t])" "same_tracks e1 e'" by (auto simp: e1(4) queue_insert)
  then show ?thesis using e1 by (auto simp: same_tracks_def)
qed

lemma queue_remove:
  assumes "strcoll_ok (cl_strcoll cl)" "ed_holds cl ti e (t # xs)"
  shows "\<exists>e'. play_queue_remove ti e = Some (ed_info e t, e') \<and> ed_holds cl ti e' xs \<and> same_tracks e e'"
proof -
  have "first_item e = t" "\<not> list_empty (ed_links e) (ed_head e)"
    using ed_ring(4) [OF assms(2)] list_walks(4) [OF ed_ring(1) [OF assms(2)]] by simp_all
  then show ?thesis using ed_remove [OF assms, of t] by (auto simp: play_queue_remove_def same_tracks_def)
qed

lemma pq_step:
  assumes "strcoll_ok (cl_strcoll cl)" "pq_rep cl ti s a" "pq_ok ti c s"
  shows "\<exists>s'. run_pq cl ti c s = Some s' \<and> pq_rep cl ti s' (pq_meaning c a)"
proof -
  obtain e out q where s: "s = (e, out)" "a = (q, out)" using assms(2) by (cases s; cases a) (auto simp: pq_rep_def)
  obtain xs where xs: "ed_holds cl ti e xs" "ed_keys e = []" "q = map (ed_info e) xs" using assms(2) s by (auto simp: pq_rep_def)
  show ?thesis
  proof (cases c)
    case (Pq_append t info)
    then obtain e' where "do { e \<leftarrow> simple_track_new t info e; do_editable_add cl ti t (1) e } = Some e'" "ed_holds cl ti e' (xs @ [t])" "ed_keys e' = []"
      "map (ed_info e') (xs @ [t]) = map (ed_info e) xs @ [info]"
      using queue_add [OF assms(1) xs(1,2), of t info out "1"] assms(3) s(1) by auto
    then show ?thesis using Pq_append s xs(3) unfolding pq_rep_def
      by (intro exI [of _ "(e', out)"] conjI exI [of _ "xs @ [t]"]) (simp_all add: play_queue_append_def editable_add_def)
  next
    case (Pq_prepend t info)
    then obtain e' where "do { e \<leftarrow> simple_track_new t info e; do_editable_add cl ti t (- 1) e } = Some e'" "ed_holds cl ti e' (t # xs)" "ed_keys e' = []"
      "map (ed_info e') (t # xs) = info # map (ed_info e) xs"
      using queue_add [OF assms(1) xs(1,2), of t info out "- 1"] assms(3) s(1) by auto
    then show ?thesis using Pq_prepend s xs(3) unfolding pq_rep_def
      by (intro exI [of _ "(e', out)"] conjI exI [of _ "t # xs"]) (simp_all add: play_queue_prepend_def editable_add_before_def)
  next
    case Pq_remove
    show ?thesis
    proof (cases xs)
      case Nil
      have "play_queue_remove ti e = Some (0, e)"
        using list_walks(4) [OF ed_ring(1) [OF xs(1)]] Nil by (simp add: play_queue_remove_def)
      then show ?thesis using Pq_remove s xs Nil by (auto simp: pq_rep_def)
    next
      case (Cons t ys)
      then show ?thesis using Pq_remove s xs queue_remove [OF assms(1), of ti e t ys] by (auto simp: pq_rep_def same_tracks_def)
    qed
  qed
qed

section \<open>Moving tracks\<close>

text \<open>While tracks are moved, the list's ring runs through \<open>xs\<close> and the temporary one through \<open>ys\<close>. The window shows the first; the rest is as in \<open>e0\<close>.\<close>

definition with_links :: "links \<Rightarrow> editable \<Rightarrow> editable" where
  "with_links h e = e\<lparr>ed_tracks := (ed_tracks e)\<lparr>tr_links := h\<rparr>\<rparr>"

definition moving :: "editable \<Rightarrow> addr \<Rightarrow> editable \<Rightarrow> nat list \<Rightarrow> nat list \<Rightarrow> bool" where
  "moving e0 tmp e xs ys \<longleftrightarrow> is_list (ed_links e) (ed_head e0) xs \<and> is_list (ed_links e) tmp ys \<and> set (ed_head e0 # xs) \<inter> set (tmp # ys) = {} \<and>
     visible xs (ed_win e) \<and> ed_owns e0 \<and> e = with_links (ed_links e) (e0\<lparr>ed_win := ed_win e\<rparr>)"

lemma with_links_simps [simp]:
  "ed_links (with_links h e) = h" "tr_rb (ed_tracks (with_links h e)) = tr_rb (ed_tracks e)" "ed_head (with_links h e) = ed_head e"
  "ed_win (with_links h e) = ed_win e" "ed_owns (with_links h e) = ed_owns e" "ed_marked (with_links h e) = ed_marked e"
  "ed_nr_marked (with_links h e) = ed_nr_marked e"
  by (simp_all add: with_links_def)

lemma moving_same:
  assumes "moving e0 tmp e xs ys"
  shows "ed_head e = ed_head e0" "ed_owns e" "ed_marked e = ed_marked e0" "ed_nr_marked e = ed_nr_marked e0"
    "tr_rb (ed_tracks e) = tr_rb (ed_tracks e0)"
proof -
  have e: "e = with_links (ed_links e) (e0\<lparr>ed_win := ed_win e\<rparr>)" and o0: "ed_owns e0" using assms by (simp_all add: moving_def)
  show "ed_head e = ed_head e0" "ed_owns e" "ed_marked e = ed_marked e0" "ed_nr_marked e = ed_nr_marked e0"
    "tr_rb (ed_tracks e) = tr_rb (ed_tracks e0)" using o0 by (subst e; simp)+
qed

lemma on_rows:
  assumes "is_list (ed_links e) (ed_head e) xs" "ed_owns e"
  shows "on_window f e = map_option (\<lambda>win. e\<lparr>ed_win := win\<rparr>) (f xs (ed_win e))"
  using list_walks(1) [OF assms(1)] assms(2) by (cases "f xs (ed_win e)") (simp_all add: on_window_def)

lemma vanish_rows:
  assumes "visible (us @ t # vs) win"
  shows "\<exists>win'. window_row_vanishes (generic_prev (us @ t # vs)) (generic_next (us @ t # vs)) (\<lambda>_. True) (At t) win = Some win' \<and> visible (us @ vs) win'"
  using list_rows.vanish_visible [OF assms, of "length us"] by (simp add: without_def)

lemma move_item:
  assumes "moving e0 tmp e (us @ t # vs) ys"
  shows "\<exists>e'. move_item tmp t e = Some e' \<and> moving e0 tmp e' (us @ vs) (t # ys)"
proof -
  note same = moving_same [OF assms]
  have r: "is_list (ed_links e) (ed_head e0) (us @ t # vs)" "is_list (ed_links e) tmp ys" "set (ed_head e0 # us @ t # vs) \<inter> set (tmp # ys) = {}"
    "visible (us @ t # vs) (ed_win e)" and e: "e = with_links (ed_links e) (e0\<lparr>ed_win := ed_win e\<rparr>)" and o0: "ed_owns e0"
    using assms by (simp_all add: moving_def)
  obtain win where win: "window_row_vanishes (generic_prev (us @ t # vs)) (generic_next (us @ t # vs)) (\<lambda>_. True) (At t) (ed_win e) = Some win" "visible (us @ vs) win"
    using vanish_rows [OF r(4)] by blast
  have "ed_vanishes t e = Some (e\<lparr>ed_win := win\<rparr>)" unfolding ed_vanishes_def
    by (subst on_rows [of _ "us @ t # vs"]) (use r(1) same win(1) in simp_all)
  moreover let ?h = "list_add t tmp (list_del t (ed_links e))"
  note d = list_del_list(1,2) [OF r(1)]
  have t: "t \<notin> set (tmp # ys)" "distinct (ed_head e0 # us @ t # vs)" using r(1,3) by (auto simp: is_list_def)
  have "is_list (list_del t (ed_links e)) tmp ys" using is_list_frame [OF d(2), of tmp ys] r(2,3) by blast
  note a = list_add_list [OF this t(1)]
  have dis: "set (t # tmp # ys) \<inter> set (ed_head e0 # us @ vs) = {}" using r(3) t by auto
  have "is_list ?h (ed_head e0) (us @ vs)" using is_list_frame [OF a(2) dis] d(1) by simp
  moreover have "set (ed_head e0 # us @ vs) \<inter> set (tmp # t # ys) = {}" using dis by auto
  moreover have "with_links ?h (e\<lparr>ed_win := win\<rparr>) = with_links ?h (e0\<lparr>ed_win := win\<rparr>)" by (subst e) (simp add: with_links_def)
  ultimately show ?thesis using a(1) win(2) o0
    by (simp add: move_item_def moving_def) (simp add: with_links_def)
qed

lemma collect_loop:
  "moving e0 tmp e (us @ rest) ys \<Longrightarrow>
    \<exists>e'. collect_marked tmp (hd (rest @ [ed_head e0])) e = Some e' \<and>
      moving e0 tmp e' (us @ filter (\<lambda>t. \<not> ed_marked e0 t) rest) (rev (filter (ed_marked e0) rest) @ ys)"
proof (induction rest arbitrary: us e ys)
  case Nil
  then show ?case using moving_same(1) [OF Nil] by (subst collect_marked.simps) simp
next
  case (Cons t rest)
  note same = moving_same [OF Cons.prems]
  have r: "is_list (ed_links e) (ed_head e0) (us @ t # rest)" using Cons.prems by (simp add: moving_def)
  then have at: "nxt (ed_links e) t = hd (rest @ [ed_head e0])" "t \<noteq> ed_head e0" using is_list_entry(1) [OF r] by (auto simp: is_list_def)
  show ?case
  proof (cases "ed_marked e0 t")
    case True
    obtain e1 where e1: "move_item tmp t e = Some e1" "moving e0 tmp e1 (us @ rest) (t # ys)" using move_item [OF Cons.prems] by blast
    from Cons.IH [OF e1(2)] show ?thesis using True at same e1(1) by (subst collect_marked.simps) (simp add: Let_def)
  next
    case False
    have "moving e0 tmp e ((us @ [t]) @ rest) ys" using Cons.prems by simp
    from Cons.IH [OF this] show ?thesis using False at same by (subst collect_marked.simps) (simp add: Let_def)
  qed
qed

text \<open>The loop that puts the tracks back turns their order once more.\<close>

lemma leads_frame: "leads (nxt h) ys tmp \<Longrightarrow> same_outside A h h' \<Longrightarrow> A \<inter> set ys = {} \<Longrightarrow> leads (nxt h') ys tmp"
  by (induction ys) (auto simp: same_outside_def)

lemma put_back:
  "is_list h head (us @ vs) \<Longrightarrow> leads (nxt h) ys tmp \<Longrightarrow> distinct ys \<Longrightarrow> set (head # us @ vs) \<inter> set ys = {} \<Longrightarrow> tmp \<notin> set ys \<Longrightarrow>
    point = last (head # us) \<Longrightarrow> \<exists>h'. put_back tmp point (hd (ys @ [tmp])) h = Some h' \<and> is_list h' head (us @ rev ys @ vs)"
proof (induction ys arbitrary: h vs)
  case Nil
  then show ?case by (subst put_back.simps) simp
next
  case (Cons y ys)
  have n: "nxt h point = hd (vs @ [head])"
    using Cons.prems(1,6) is_list_split [of h head us vs] is_list_ends(1) [of h head vs] is_list_entry(1) [of h head "butlast us" "last us" vs]
    by (cases us rule: rev_cases) auto
  have y: "y \<notin> set (head # us @ vs)" using Cons.prems(4) by auto
  let ?h = "list_add y point h"
  have a: "is_list ?h head (us @ y # vs)" "same_outside (set (y # head # us @ vs)) h ?h"
    using list_link_list [OF Cons.prems(1) y Cons.prems(6) n] unfolding list_add_def by simp_all
  have "leads (nxt h) ys tmp" "nxt h y = hd (ys @ [tmp])" using Cons.prems(2) by simp_all
  moreover have "leads (nxt ?h) ys tmp" using leads_frame [OF _ a(2)] Cons.prems(3,4) calculation(1) by auto
  moreover have "set (head # us @ y # vs) \<inter> set ys = {}" using Cons.prems(3,4) by auto
  ultimately show ?case using Cons.IH [OF a(1)] Cons.prems(3,5,6) by (subst put_back.simps) simp
qed

lemma unsorted_group:
  assumes "groups (\<lambda>_ _. 0) gs" "concat gs \<noteq> []"
  shows "gs = [concat gs]"
proof (cases gs)
  case (Cons g hs)
  then have "hs = []" using assms(1) by (cases hs) (auto simp: groups_def dest: hd_in_set)
  then show ?thesis using Cons by simp
qed (use assms(2) in simp)

text \<open>The tree holds the first track; \<open>reset_tree\<close> makes it the new first one.\<close>

lemma reset_tree_at:
  assumes "list_rep cl [] info head s xs" "is_list h head zs" "set zs = set xs" "xs \<noteq> []" "ed_tracks e = s\<lparr>tr_links := h\<rparr>" "ed_head e = head"
  shows "\<exists>rb. reset_tree e = Some (e\<lparr>ed_tracks := s\<lparr>tr_links := h, tr_rb := rb\<rparr>\<rparr>) \<and> list_rep cl [] info head (s\<lparr>tr_links := h, tr_rb := rb\<rparr>) zs"
proof -
  obtain gs where g: "grouped (\<lambda>_ _. 0) head s gs" "concat gs = xs" "rest_cleared s gs" and ok: "\<forall>x \<in> set xs. track_ok (info x)"
    using assms(1) by (auto simp: list_rep_def)
  have gs: "gs = [xs]" using unsorted_group [OF grouped_nodes(4) [OF g(1)]] g(2) assms(4) by simp
  then have rb: "rb_holds (tr_rb s) [hd xs]" "0 \<notin> set xs" and cl: "\<forall>a \<in> set xs - {hd xs}. rb_parent (rb_nodes (tr_rb s) a) = a"
    using g(1,3) by (simp_all add: grouped_def rest_cleared_def cleared_def)
  have z: "zs \<noteq> []" "hd zs \<in> set xs" "hd zs \<noteq> 0" "hd xs \<in> set zs" using assms(3,4) rb(2) by (metis list.set_sel(1) set_empty2)+
  have f: "first_item e = hd zs" using is_list_ends(1) [OF assms(2)] z(1) assms(5,6) by (simp add: first_item_def)
  have old: "rb_end L (tr_rb (ed_tracks e)) = Some (hd xs)" using rb_steps [of "tr_rb s" "[]" "hd xs" "[]"] rb(1) assms(5) by simp
  have rep: "list_rep cl [] info head (s\<lparr>tr_links := h, tr_rb := rb'\<rparr>) zs"
    if "rb_holds rb' [hd zs]" "\<forall>a \<in> set zs - {hd zs}. rb_parent (rb_nodes rb' a) = a" for rb'
  proof -
    have "groups (\<lambda>_ _. 0) [zs]" using z(1) by (simp add: groups_def)
    moreover have "0 \<notin> set zs" using assms(3) rb(2) by simp
    ultimately show ?thesis using that assms(2,3) ok unfolding list_rep_def
      by (intro conjI exI [of _ "[zs]"]) (simp_all add: grouped_def rest_cleared_def cleared_def)
  qed
  show ?thesis
  proof (cases "hd xs = hd zs")
    case True
    then have "reset_tree e = Some (e\<lparr>ed_tracks := s\<lparr>tr_links := h, tr_rb := tr_rb s\<rparr>\<rparr>)"
      using old f assms(5) by (simp add: reset_tree_def)
    moreover have "list_rep cl [] info head (s\<lparr>tr_links := h, tr_rb := tr_rb s\<rparr>) zs" by (rule rep) (use rb(1) cl True assms(3) in auto)
    ultimately show ?thesis by blast
  next
    case False
    obtain s1 s2 where s: "rb_replace_node (hd xs) (hd zs) (tr_rb s) = Some s1" "rb_clear_node (hd xs) s1 = Some s2" "rb_holds s2 [hd zs]"
      "rb_parent (rb_nodes s2 (hd xs)) = hd xs" "\<forall>b. b \<notin> {hd zs, hd xs} \<longrightarrow> rb_nodes s2 b = rb_nodes (tr_rb s) b"
      using replace_clear [of "tr_rb s" "[]" "hd xs" "[]" "hd zs"] rb(1) z(3) False by auto
    then have "reset_tree e = Some (e\<lparr>ed_tracks := s\<lparr>tr_links := h, tr_rb := s2\<rparr>\<rparr>)"
      using old f assms(5) False by (simp add: reset_tree_def)
    moreover have "\<forall>a \<in> set zs - {hd zs}. rb_parent (rb_nodes s2 a) = a"
    proof
      fix a assume "a \<in> set zs - {hd zs}"
      then show "rb_parent (rb_nodes s2 a) = a" using s(4,5) cl assms(3) by (cases "a = hd xs") auto
    qed
    ultimately show ?thesis using rep s(3) by blast
  qed
qed

lemma set_sel_selects: "window_set_sel so prev next it win = Some win' \<Longrightarrow> w_sel win' = it"
  by (auto simp: window_set_sel_def Let_def bind_eq_Some_conv split: if_splits)

definition selects :: "editable \<Rightarrow> nat \<Rightarrow> bool" where
  "selects e t \<longleftrightarrow> w_sel (ed_win e) = At t"

text \<open>From the point where \<open>ms\<close> have been taken out of the tracks \<open>xs\<close>.\<close>

lemma finish_move:
  assumes "ed_holds cl ti e xs" "ed_keys e = []" "0 \<le> so" "moving (with_links h0 e) tmp e1 (us @ vs) (rev ms)" "mset (us @ ms @ vs) = mset xs" "ms \<noteq> []"
  shows "\<exists>e'. do { h \<leftarrow> put_back tmp (last (ed_head e # us)) (nxt (ed_links e1) tmp) (ed_links e1);
      e \<leftarrow> reset_tree (e1\<lparr>ed_tracks := (ed_tracks e1)\<lparr>tr_links := h\<rparr>\<rparr>);
      let t = nxt (ed_links e) (last (ed_head e1 # us));
      e \<leftarrow> ed_changed e;
      on_window (\<lambda>rows win. window_set_sel so (generic_prev rows) (generic_next rows) (At t) win) e } = Some e' \<and>
    ed_holds cl ti e' (us @ ms @ vs) \<and> same_tracks e e' \<and> selects e' (hd ms)"
proof -
  let ?zs = "us @ ms @ vs" and ?point = "last (ed_head e # us)"
  have r: "is_list (ed_links e1) (ed_head e) (us @ vs)" "is_list (ed_links e1) tmp (rev ms)" "set (ed_head e # us @ vs) \<inter> set (tmp # rev ms) = {}"
    "visible (us @ vs) (ed_win e1)" "ed_owns e" and e1: "e1 = with_links (ed_links e1) (e\<lparr>ed_win := ed_win e1\<rparr>)"
    using assms(4) by (auto simp: moving_def with_links_def)
  have d: "distinct (rev ms)" "tmp \<notin> set (rev ms)" "set (ed_head e # us @ vs) \<inter> set (rev ms) = {}" using r(2,3) by (auto simp: is_list_def)
  obtain h where h: "put_back tmp ?point (hd (rev ms @ [tmp])) (ed_links e1) = Some h" "is_list h (ed_head e) ?zs"
    using put_back [OF r(1) ring_leads(1) [OF r(2)] d(1,3,2) refl] by auto
  have set: "set ?zs = set xs" "xs \<noteq> []" using assms(5,6) by (metis set_mset_mset, auto)
  have lr: "list_rep cl [] (track_at ti e) (ed_head e) (ed_tracks e) xs" using assms(1,2) by (simp add: ed_holds_def)
  let ?e2 = "e1\<lparr>ed_tracks := (ed_tracks e1)\<lparr>tr_links := h\<rparr>\<rparr>"
  have e2: "?e2 = (e\<lparr>ed_win := ed_win e1\<rparr>)\<lparr>ed_tracks := (ed_tracks e)\<lparr>tr_links := h\<rparr>\<rparr>" by (subst (1 2) e1) (simp add: with_links_def)
  obtain rb where rb: "reset_tree ?e2 = Some (?e2\<lparr>ed_tracks := (ed_tracks e)\<lparr>tr_links := h, tr_rb := rb\<rparr>\<rparr>)"
    "list_rep cl [] (track_at ti e) (ed_head e) ((ed_tracks e)\<lparr>tr_links := h, tr_rb := rb\<rparr>) ?zs"
    using reset_tree_at [OF lr h(2) set, of ?e2] unfolding e2 by auto
  let ?e3 = "e\<lparr>ed_win := ed_win e1, ed_tracks := (ed_tracks e)\<lparr>tr_links := h, tr_rb := rb\<rparr>\<rparr>"
  have e3: "reset_tree ?e2 = Some ?e3" using rb(1) unfolding e2 by simp
  have z: "distinct ?zs" using h(2) by (simp add: is_list_def)
  obtain w where w: "window_changed (generic_prev ?zs) (generic_next ?zs) (ed_win e1) = Some w" "visible ?zs w"
    using changed_rows [OF r(4) _ z] by auto
  have ms: "?zs ! length us = hd ms" "length us < length ?zs" using assms(6) by (simp_all add: nth_append hd_conv_nth)
  obtain w' where w': "window_set_sel so (generic_prev ?zs) (generic_next ?zs) (At (hd ms)) w = Some w'" "visible ?zs w'"
    using list_rows.set_sel_visible [OF w(2) ms(2) assms(3)] ms(1) by auto
  have t: "nxt h ?point = hd ms"
  proof (cases us rule: rev_cases)
    case Nil
    then show ?thesis using is_list_ends(1) [OF h(2)] assms(6) by simp
  next
    case (snoc us' u)
    then show ?thesis using is_list_entry(1) [of h "ed_head e" us' u "ms @ vs"] h(2) assms(6) by simp
  qed
  have c: "ed_changed ?e3 = Some (?e3\<lparr>ed_win := w\<rparr>)" unfolding ed_changed_def
    by (subst on_rows [of _ ?zs]) (use h(2) r(5) w(1) in simp_all)
  have s: "on_window (\<lambda>rows win. window_set_sel so (generic_prev rows) (generic_next rows) (At (hd ms)) win) (?e3\<lparr>ed_win := w\<rparr>) = Some (?e3\<lparr>ed_win := w'\<rparr>)"
    by (subst on_rows [of _ ?zs]) (use h(2) r(5) w'(1) in simp_all)
  have "size (mset ?zs) = size (mset xs)" "size (filter_mset (ed_marked e) (mset ?zs)) = size (filter_mset (ed_marked e) (mset xs))"
    "sum_mset (image_mset (track_time ti e) (mset ?zs)) = sum_mset (image_mset (track_time ti e) (mset xs))" by (simp_all only: assms(5))
  then have "length ?zs = length xs" "length (filter (ed_marked e) ?zs) = length (filter (ed_marked e) xs)"
    "sum_list (map (track_time ti e) ?zs) = sum_list (map (track_time ti e) xs)"
    by (simp_all only: size_mset mset_filter [symmetric] mset_map [symmetric] sum_mset_sum_list)
  then have "ed_holds cl ti (?e3\<lparr>ed_win := w'\<rparr>) ?zs"
    using assms(1,2) rb(2) w'(2) unfolding ed_holds_def by simp
  moreover have "ed_head e1 = ed_head e" "nxt (ed_links e1) tmp = hd (rev ms @ [tmp])"
    using moving_same(1) [OF assms(4)] is_list_ends(1) [OF r(2)] by simp_all
  ultimately show ?thesis using h(1) e3 t c s w'(1) set_sel_selects [OF w'(1)]
    by (simp add: same_tracks_def selects_def Let_def)
qed

text \<open>The tracks that get moved: the marked ones, or without any the selected one.\<close>

definition picked :: "editable \<Rightarrow> nat list \<Rightarrow> nat \<Rightarrow> bool" where
  "picked e xs t \<longleftrightarrow> (if \<exists>u \<in> set xs. ed_marked e u then ed_marked e t else t = get_selected e)"

lemma filter_single: "distinct (us @ t # vs) \<Longrightarrow> filter (\<lambda>u. u = t) (us @ t # vs) = [t] \<and> filter (\<lambda>u. u \<noteq> t) (us @ t # vs) = us @ vs"
  by (induction us) (auto simp: filter_id_conv filter_empty_conv)

lemma picked_some: "ed_holds cl ti e xs \<Longrightarrow> xs \<noteq> [] \<Longrightarrow> filter (picked e xs) xs \<noteq> []"
  using selected_row(2) [of cl ti e xs] by (auto simp: picked_def filter_empty_conv)

lemma move_sel:
  assumes "ed_holds cl ti e xs" "ed_keys e = []" "0 \<le> so" "tmp \<notin> set (ed_head e # xs)" "xs \<noteq> []" "filter (\<lambda>t. \<not> picked e xs t) xs = us @ vs"
  shows "\<exists>e'. move_sel so tmp (last (ed_head e # us)) e = Some e' \<and> ed_holds cl ti e' (us @ filter (picked e xs) xs @ vs) \<and> same_tracks e e' \<and>
    selects e' (hd (filter (picked e xs) xs))"
proof -
  let ?h0 = "list_init tmp (ed_links e)" and ?ms = "filter (picked e xs) xs"
  let ?e0 = "with_links ?h0 e"
  have r: "is_list (ed_links e) (ed_head e) xs" using ed_ring(1) [OF assms(1)] .
  note i = list_init_list [of tmp "ed_links e"]
  have "is_list ?h0 (ed_head e) xs" using is_list_frame [OF i(2), of "ed_head e" xs] assms(4) r by simp
  then have m: "moving ?e0 tmp ?e0 xs []" using i(1) assms(1,4) by (auto simp: moving_def ed_holds_def with_links_def)
  have f: "first_item ?e0 = hd (xs @ [ed_head e])" using is_list_ends(1) \<open>is_list ?h0 (ed_head e) xs\<close> by (simp add: first_item_def)
  have sel: "get_selected ?e0 = get_selected e" by (simp add: get_selected_def with_links_def)
  have "\<exists>e1. (if ed_nr_marked ?e0 \<noteq> 0 then collect_marked tmp (first_item ?e0) ?e0
                else if get_selected ?e0 \<noteq> 0 then move_item tmp (get_selected ?e0) ?e0 else Some ?e0) = Some e1 \<and> moving ?e0 tmp e1 (us @ vs) (rev ?ms)"
  proof (cases "\<exists>u \<in> set xs. ed_marked e u")
    case True
    then have "picked e xs = ed_marked e" "ed_nr_marked e \<noteq> 0" using nr_marked_zero [OF assms(1)] by (auto simp: picked_def fun_eq_iff)
    then show ?thesis using collect_loop [of ?e0 tmp ?e0 "[]" xs "[]"] m f assms(6) by simp
  next
    case False
    note t = selected_row(2) [OF assms(1,5)]
    obtain as bs where xs: "xs = as @ get_selected e # bs" using t by (meson split_list)
    have "picked e xs = (\<lambda>t. t = get_selected e)" "ed_nr_marked e = 0" using False nr_marked_zero [OF assms(1)] by (auto simp: picked_def fun_eq_iff)
    moreover from this have "?ms = [get_selected e]" "us @ vs = as @ bs"
      using filter_single [of as "get_selected e" bs] ed_ring(2) [OF assms(1)] xs assms(6) by auto
    ultimately show ?thesis using move_item [of ?e0 tmp ?e0 as "get_selected e" bs "[]"] m xs t sel by simp
  qed
  then obtain e1 where e1: "(if ed_nr_marked ?e0 \<noteq> 0 then collect_marked tmp (first_item ?e0) ?e0
      else if get_selected ?e0 \<noteq> 0 then move_item tmp (get_selected ?e0) ?e0 else Some ?e0) = Some e1" "moving ?e0 tmp e1 (us @ vs) (rev ?ms)" by blast
  have "mset (us @ ?ms @ vs) = mset (us @ vs) + mset ?ms" by simp
  also have "\<dots> = mset xs" unfolding assms(6) [symmetric] mset_filter using multiset_partition [of "mset xs" "picked e xs", symmetric]
    by (simp only: add.commute)
  finally have "mset (us @ ?ms @ vs) = mset xs" .
  note fin = finish_move [OF assms(1-3) e1(2) this picked_some [OF assms(1,5)]]
  have "ed_head e1 = ed_head e" using moving_same(1) [OF e1(2)] by simp
  then show ?thesis using fin unfolding move_sel_def Let_def with_links_def [symmetric] e1(1) by simp
qed

lemma first_unmarked:
  "is_list h head (ws @ zs) \<Longrightarrow> first_unmarked m head h (last (head # ws)) = Some (last (head # filter (\<lambda>t. \<not> m t) ws))"
proof (induction ws arbitrary: zs rule: rev_induct)
  case Nil
  then show ?case by (subst first_unmarked.simps) simp
next
  case (snoc w ws)
  have "prv h w = last (head # ws)" "w \<noteq> head" using is_list_entry(2) [of h head ws w zs] snoc.prems by (auto simp: is_list_def)
  then show ?case using snoc.IH [of "w # zs"] snoc.prems by (subst first_unmarked.simps) simp
qed

text \<open>The tracks after moving down and up, around the selected track.\<close>

definition moved_down :: "(nat \<Rightarrow> bool) \<Rightarrow> nat list \<Rightarrow> nat \<Rightarrow> nat list \<Rightarrow> nat list" where
  "moved_down m us sel vs =
     (if \<exists>t \<in> set (us @ sel # vs). m t then filter (\<lambda>t. \<not> m t) (us @ [sel]) @ filter m (us @ sel # vs) @ filter (\<lambda>t. \<not> m t) vs
      else if vs = [] then sel # us else us @ hd vs # sel # tl vs)"

definition moved_up :: "(nat \<Rightarrow> bool) \<Rightarrow> nat list \<Rightarrow> nat \<Rightarrow> nat list \<Rightarrow> nat list" where
  "moved_up m us sel vs =
     (if \<exists>t \<in> set (us @ sel # vs). m t then filter (\<lambda>t. \<not> m t) us @ filter m (us @ sel # vs) @ filter (\<lambda>t. \<not> m t) (sel # vs)
      else if us = [] then vs @ [sel] else butlast us @ sel # last us # vs)"

lemma several_tracks:
  assumes "ed_holds cl ti e xs" "1 < length xs"
  shows "\<not> ed_nr_tracks e \<le> 1"
proof -
  have "unat (ed_nr_tracks e) = length xs" using assms(1) by (simp add: ed_holds_def unat_of_nat take_bit_nat_eq_self)
  then show ?thesis using assms(2) by (simp add: word_le_nat_alt)
qed

lemma step_move_after:
  assumes "ed_holds cl ti e (us @ sel # vs)" "ed_keys e = []" "0 \<le> so" "tmp \<notin> set (ed_head e # us @ sel # vs)" "get_selected e = sel" "us @ vs \<noteq> []"
  shows "\<exists>e'. editable_move_after so tmp e = Some e' \<and> ed_holds cl ti e' (moved_down (ed_marked e) us sel vs) \<and> same_tracks e e' \<and>
    selects e' (hd (filter (picked e (us @ sel # vs)) (us @ sel # vs)))"
proof -
  let ?xs = "us @ sel # vs" and ?h = "ed_links e" and ?m = "ed_marked e"
  have r: "is_list ?h (ed_head e) ?xs" and d: "distinct ?xs" "sel \<noteq> 0" using ed_ring(1-3) [OF assms(1)] by auto
  have "\<exists>us' vs'. find_insert_after_point e sel = Some (last (ed_head e # us')) \<and> filter (\<lambda>t. \<not> picked e ?xs t) ?xs = us' @ vs' \<and>
    us' @ filter (picked e ?xs) ?xs @ vs' = moved_down ?m us sel vs"
  proof (cases "\<exists>t \<in> set ?xs. ?m t")
    case True
    then have p: "picked e ?xs = ?m" "ed_nr_marked e \<noteq> 0" using nr_marked_zero [OF assms(1)] by (auto simp: picked_def fun_eq_iff)
    have "find_insert_after_point e sel = Some (last (ed_head e # filter (\<lambda>t. \<not> ?m t) (us @ [sel])))"
      using first_unmarked [of ?h "ed_head e" "us @ [sel]" vs ?m] r p(2) by (simp add: find_insert_after_point_def)
    then show ?thesis using True unfolding p(1)
      by (intro exI [of _ "filter (\<lambda>t. \<not> ?m t) (us @ [sel])"] exI [of _ "filter (\<lambda>t. \<not> ?m t) vs"] conjI) (simp_all add: moved_down_def)
  next
    case False
    then have p: "picked e ?xs = (\<lambda>t. t = sel)" "ed_nr_marked e = 0" using nr_marked_zero [OF assms(1)] assms(5) by (auto simp: picked_def fun_eq_iff)
    have n: "find_insert_after_point e sel = Some (hd (vs @ [ed_head e]))"
      using is_list_entry(1) [OF r] p(2) by (simp add: find_insert_after_point_def)
    have m: "moved_down ?m us sel vs = (if vs = [] then sel # us else us @ hd vs # sel # tl vs)" using False by (simp add: moved_down_def)
    show ?thesis
    proof (cases vs)
      case Nil
      then show ?thesis using n m filter_single [OF d(1)] unfolding p(1) by (intro exI [of _ "[]"] exI [of _ us]) simp
    next
      case (Cons v vs')
      then show ?thesis using n m filter_single [OF d(1)] unfolding p(1) by (intro exI [of _ "us @ [v]"] exI [of _ vs']) simp
    qed
  qed
  then obtain us' vs' where p: "find_insert_after_point e sel = Some (last (ed_head e # us'))" "filter (\<lambda>t. \<not> picked e ?xs t) ?xs = us' @ vs'"
    "us' @ filter (picked e ?xs) ?xs @ vs' = moved_down ?m us sel vs" by blast
  have "\<not> ed_nr_tracks e \<le> 1" using several_tracks [OF assms(1)] assms(6) by (cases us; cases vs) simp_all
  then show ?thesis using move_sel [OF assms(1-4) _ p(2)] p(1,3) assms(2,5) d(2) by (simp add: editable_move_after_def move_to_def)
qed

lemma step_move_before:
  assumes "ed_holds cl ti e (us @ sel # vs)" "ed_keys e = []" "0 \<le> so" "tmp \<notin> set (ed_head e # us @ sel # vs)" "get_selected e = sel" "us @ vs \<noteq> []"
  shows "\<exists>e'. editable_move_before so tmp e = Some e' \<and> ed_holds cl ti e' (moved_up (ed_marked e) us sel vs) \<and> same_tracks e e' \<and>
    selects e' (hd (filter (picked e (us @ sel # vs)) (us @ sel # vs)))"
proof -
  let ?xs = "us @ sel # vs" and ?h = "ed_links e" and ?m = "ed_marked e"
  have r: "is_list ?h (ed_head e) ?xs" and d: "distinct ?xs" "sel \<noteq> 0" using ed_ring(1-3) [OF assms(1)] by auto
  have q: "prv ?h sel = last (ed_head e # us)" using is_list_entry(2) [OF r] .
  have "\<exists>us' vs'. find_insert_before_point e sel = Some (last (ed_head e # us')) \<and> filter (\<lambda>t. \<not> picked e ?xs t) ?xs = us' @ vs' \<and>
    us' @ filter (picked e ?xs) ?xs @ vs' = moved_up ?m us sel vs"
  proof (cases "\<exists>t \<in> set ?xs. ?m t")
    case True
    then have p: "picked e ?xs = ?m" "ed_nr_marked e \<noteq> 0" using nr_marked_zero [OF assms(1)] by (auto simp: picked_def fun_eq_iff)
    have "find_insert_before_point e sel = Some (last (ed_head e # filter (\<lambda>t. \<not> ?m t) us))"
      using first_unmarked [of ?h "ed_head e" us "sel # vs" ?m] r p(2) q by (simp add: find_insert_before_point_def Let_def)
    then show ?thesis using True unfolding p(1)
      by (intro exI [of _ "filter (\<lambda>t. \<not> ?m t) us"] exI [of _ "filter (\<lambda>t. \<not> ?m t) (sel # vs)"] conjI) (simp_all add: moved_up_def)
  next
    case False
    then have p: "picked e ?xs = (\<lambda>t. t = sel)" "ed_nr_marked e = 0" using nr_marked_zero [OF assms(1)] assms(5) by (auto simp: picked_def fun_eq_iff)
    have n: "find_insert_before_point e sel = Some (prv ?h (last (ed_head e # us)))" using q p(2) by (simp add: find_insert_before_point_def Let_def)
    have m: "moved_up ?m us sel vs = (if us = [] then vs @ [sel] else butlast us @ sel # last us # vs)" using False by (simp add: moved_up_def)
    show ?thesis
    proof (cases us rule: rev_cases)
      case Nil
      moreover have "prv ?h (ed_head e) = last (sel # vs)" using is_list_ends(2) [OF r] Nil by simp
      ultimately show ?thesis using n m filter_single [OF d(1)] assms(6) unfolding p(1) by (intro exI [of _ vs] exI [of _ "[]"]) simp
    next
      case (snoc us' u)
      moreover have "prv ?h u = last (ed_head e # us')" using is_list_entry(2) [of ?h "ed_head e" us' u "sel # vs"] r snoc by simp
      ultimately show ?thesis using n m filter_single [OF d(1)] unfolding p(1) by (intro exI [of _ us'] exI [of _ "u # vs"]) simp
    qed
  qed
  then obtain us' vs' where p: "find_insert_before_point e sel = Some (last (ed_head e # us'))" "filter (\<lambda>t. \<not> picked e ?xs t) ?xs = us' @ vs'"
    "us' @ filter (picked e ?xs) ?xs @ vs' = moved_up ?m us sel vs" by blast
  have "\<not> ed_nr_tracks e \<le> 1" using several_tracks [OF assms(1)] assms(6) by (cases us; cases vs) simp_all
  then show ?thesis using move_sel [OF assms(1-4) _ p(2)] p(1,3) assms(2,5) d(2) by (simp add: editable_move_before_def move_to_def)
qed

section \<open>A changed length\<close>

lemma remove_time:
  "editable_remove_track ti t (e\<lparr>ed_total_time := time\<rparr>) = map_option (\<lambda>e'. e'\<lparr>ed_total_time := time - track_time ti e t\<rparr>) (editable_remove_track ti t e)"
proof -
  have v: "ed_vanishes t (e\<lparr>ed_total_time := time\<rparr>) = map_option (\<lambda>e'. e'\<lparr>ed_total_time := time\<rparr>) (ed_vanishes t e)"
    by (cases e) (simp add: ed_vanishes_def on_window_def map_option_bind comp_def)
  have time: "track_time ti e' t = track_time ti e t" if "ed_vanishes t e = Some e'" for e'
    using that by (auto simp: ed_vanishes_def on_window_def bind_eq_Some_conv split: if_splits)
  show ?thesis
  proof (cases "ed_vanishes t e")
    case (Some a)
    then show ?thesis using time [OF Some] unfolding editable_remove_track_def v
      by (cases "sorted_list_remove_track (ed_head a) t (ed_tracks a)") (simp_all add: Let_def)
  qed (simp add: editable_remove_track_def v)
qed

lemma same_time: "ed_total_time e = time \<Longrightarrow> e\<lparr>ed_total_time := time\<rparr> = e"
  by (cases e) simp

lemma update_then_remove:
  assumes "strcoll_ok (cl_strcoll cl)" "ed_holds cl ti e [t]" "ed_keys e = []" "new \<noteq> 0" "track_ok (ti new)"
  shows "\<exists>e1 e2. editable_update_track ti (ed_info e t) new e = Some e1 \<and> editable_remove_track ti t e1 = Some e2 \<and>
    ed_nr_tracks e2 = 0 \<and> is_list (ed_links e2) (ed_head e2) [] \<and> ed_total_time e2 = track_time ti e t - info_time (ti new)"
proof -
  let ?e = "e\<lparr>ed_info := (ed_info e)(t := new)\<rparr>"
  have at: "first_item e = t" "nxt (ed_links e) t = ed_head e" "t \<noteq> ed_head e"
    using ed_ring(4) [OF assms(2)] ed_ring_at [of cl ti e "[]" t "[]"] assms(2) by auto
  have "update_loop ti (ed_info e t) new t False e = Some (True, ?e)"
    using at assms(4) by (subst update_loop.simps) (simp add: Let_def update_loop.simps)
  then have u: "editable_update_track ti (ed_info e t) new e = Some (mark_changed ?e)" using at(1) by (simp add: editable_update_track_def)
  let ?m = "mark_changed ?e"
  let ?f = "?m\<lparr>ed_total_time := info_time (ti new)\<rparr>"
  have tm: "track_time ti ?f t = info_time (ti new)" "track_time ti ?m t = info_time (ti new)" "ed_total_time ?m = track_time ti e t"
    using assms(2) by (simp_all add: track_time_def info_time_def mark_changed_def ed_holds_def)
  have "ed_holds cl ti ?f [t]" using assms(2,3,5) tm(1)
    unfolding ed_holds_def by (simp add: mark_changed_def list_rep_def)
  from ed_remove [OF assms(1) this, of t] obtain f where f: "editable_remove_track ti t ?f = Some f" "ed_holds cl ti f []" by auto
  have "?f\<lparr>ed_total_time := track_time ti e t\<rparr> = ?m" using same_time [OF tm(3)] by simp
  then have "editable_remove_track ti t ?m = editable_remove_track ti t (?f\<lparr>ed_total_time := track_time ti e t\<rparr>)" by simp
  also have "\<dots> = map_option (\<lambda>e'. e'\<lparr>ed_total_time := track_time ti e t - track_time ti ?f t\<rparr>) (editable_remove_track ti t ?f)"
    by (rule remove_time)
  also have "\<dots> = Some (f\<lparr>ed_total_time := track_time ti e t - info_time (ti new)\<rparr>)" unfolding f(1) tm(1) by simp
  finally show ?thesis using u f(2) ed_ring(1) [OF f(2)] by (simp add: ed_holds_def)
qed

section \<open>Properties\<close>

text \<open>
  C37. Every operation but those that sort again, on an editable list that is shown in its window, ends without a fault, changes the
  tracks and the marks as it says, and keeps the list sorted, its tree right, the numbers of tracks and of marked tracks those of its
  tracks, and the selected track visible. The total time is that of the tracks, unless a \<^verbatim>\<open>track_info\<close> was replaced: then it is off by
  exactly the difference of the durations. A \<^verbatim>\<open>track_info\<close> is replaced in a list without sort keys (it may be removed in any list), an
  added track is new, and operations on the window are as in \<open>selection_stays_visible\<close>.
\<close>

theorem editable_operation:
  assumes "strcoll_ok (cl_strcoll cl)" "ed_holds cl ti e xs" "ed_op_ok ti c e"
  shows "\<exists>e'. run_ed cl ti (int so) c e = Some e' \<and> ed_ends cl ti c e xs e'"
  using ed_step [OF assms(1) _ assms(2,3), of "int so"] by simp

text \<open>For sequences, a replaced \<^verbatim>\<open>track_info\<close> is of the same length as the old one.\<close>

definition ed_seq_ok :: "(nat \<Rightarrow> track_info) \<Rightarrow> ed_op \<Rightarrow> editable \<Rightarrow> bool" where
  "ed_seq_ok ti c e \<longleftrightarrow> ed_op_ok ti c e \<and>
     (case c of Ed_update old new \<Rightarrow> new = 0 \<or> info_time (ti new) = info_time (ti old) | _ \<Rightarrow> True)"

lemma no_gap: "ed_seq_ok ti c e \<Longrightarrow> time_gap ti c e xs = 0"
proof (cases c)
  case (Ed_update old new)
  assume "ed_seq_ok ti c e"
  then have "new = 0 \<or> info_time (ti new) - info_time (ti old) = 0" using Ed_update by (simp add: ed_seq_ok_def)
  then show ?thesis using Ed_update by (auto simp: replaced_time_def cong: if_cong)
qed simp_all

lemma ed_simulation:
  "strcoll_ok (cl_strcoll cl) \<Longrightarrow> simulation (run_ed cl ti (int so)) (\<lambda>_ _. ()) (\<lambda>e _. \<exists>xs. ed_holds cl ti e xs) (ed_seq_ok ti)"
proof (rule simulation.intro, elim exE)
  fix e c xs
  assume a: "strcoll_ok (cl_strcoll cl)" "ed_seq_ok ti c e" "ed_holds cl ti e xs"
  then obtain e' where "run_ed cl ti (int so) c e = Some e'" "ed_ends cl ti c e xs e'"
    using ed_step [of cl "int so" ti e xs c] by (auto simp: ed_seq_ok_def)
  then show "\<exists>e'. run_ed cl ti (int so) c e = Some e' \<and> (\<exists>xs. ed_holds cl ti e' xs)"
    using no_gap [OF a(2)] by (auto simp: ed_ends_def)
qed

lemma pq_simulation: "strcoll_ok (cl_strcoll cl) \<Longrightarrow> simulation (run_pq cl ti) pq_meaning (pq_rep cl ti) (pq_ok ti)"
  by (rule simulation.intro) (rule pq_step)

interpretation c_editable: simulation "run_ed (cl\<lparr>cl_strcoll := strcmp\<rparr>) ti (int so)" "\<lambda>_ _. ()"
  "\<lambda>e _. \<exists>xs. ed_holds (cl\<lparr>cl_strcoll := strcmp\<rparr>) ti e xs" "ed_seq_ok ti" for cl ti so
  by (rule ed_simulation) (simp add: strcoll_ok_strcmp)

interpretation c_queue: simulation "run_pq (cl\<lparr>cl_strcoll := strcmp\<rparr>) ti" pq_meaning "pq_rep (cl\<lparr>cl_strcoll := strcmp\<rparr>) ti" "pq_ok ti" for cl ti
  by (rule pq_simulation) (simp add: strcoll_ok_strcmp)

text \<open>So do all sequences of these operations.\<close>

theorem editable_stays_in_step:
  assumes "strcoll_ok (cl_strcoll cl)" "ed_holds cl ti e xs" "all_ok (run_ed cl ti (int so)) (ed_seq_ok ti) ops e"
  shows "\<exists>e' xs'. exec (run_ed cl ti (int so)) ops e = Some e' \<and> ed_holds cl ti e' xs'"
proof -
  have "\<exists>xs. ed_holds cl ti e xs" using assms(2) by blast
  from simulation.sim_exec [OF ed_simulation [OF assms(1)] this assms(3)] show ?thesis by blast
qed

text \<open>
  C38. In a list without sort keys, moving down puts the marked tracks, in their order, behind the last unmarked track up to the selected one, and
  moving up before the selected one and the marked ones in front of it; without marks the selected track changes places with its neighbour, round
  the ends. All else is kept, and the first of the moved tracks is selected.
\<close>

theorem tracks_are_moved:
  assumes "ed_holds cl ti e (us @ sel # vs)" "ed_keys e = []" "tmp \<notin> set (ed_head e # us @ sel # vs)" "get_selected e = sel" "us @ vs \<noteq> []"
  shows "(\<exists>e'. editable_move_after (int so) tmp e = Some e' \<and> ed_holds cl ti e' (moved_down (ed_marked e) us sel vs) \<and> same_tracks e e' \<and>
      selects e' (hd (filter (picked e (us @ sel # vs)) (us @ sel # vs)))) \<and>
    (\<exists>e'. editable_move_before (int so) tmp e = Some e' \<and> ed_holds cl ti e' (moved_up (ed_marked e) us sel vs) \<and> same_tracks e e' \<and>
      selects e' (hd (filter (picked e (us @ sel # vs)) (us @ sel # vs))))"
  using step_move_after [OF assms(1,2) _ assms(3-5), of "int so"] step_move_before [OF assms(1,2) _ assms(3-5), of "int so"] by simp

text \<open>
  C39. The play queue is a queue with two ends to put tracks in: once it is set up, any sequence of appending, prepending and removing ends without a
  fault, and removing returns the first track of the queue, or null when there is none.
\<close>

theorem play_queue_is_a_queue:
  assumes "strcoll_ok (cl_strcoll cl)"
  shows "\<exists>e0. play_queue_init e = Some e0 \<and>
    (all_ok (run_pq cl ti) (pq_ok ti) ops (e0, []) \<longrightarrow>
      (\<exists>s. exec (run_pq cl ti) ops (e0, []) = Some s \<and> pq_rep cl ti s (fold pq_meaning ops ([], []))))"
proof -
  obtain e0 where e0: "play_queue_init e = Some e0" "ed_holds cl ti e0 []" "ed_keys e0 = []" using queue_starts by blast
  then have "pq_rep cl ti (e0, []) ([], [])" by (auto simp: pq_rep_def)
  from simulation.sim_exec [OF pq_simulation [OF assms] this] e0(1) show ?thesis by blast
qed

text \<open>
  C40. When the \<^verbatim>\<open>track_info\<close> of a list's only track is replaced by one of another length, the total time keeps the old length. Removing the track
  then leaves an empty list with a total time that is the difference of the two lengths, below 0 wrapping round.
\<close>

theorem update_keeps_old_time:
  assumes "strcoll_ok (cl_strcoll cl)" "ed_holds cl ti e [t]" "ed_keys e = []" "new \<noteq> 0" "track_ok (ti new)"
    "ti_duration (ti new) \<noteq> - 1" "ti_duration (track_at ti e t) \<noteq> - 1"
  shows "\<exists>e1 e2. editable_update_track ti (ed_info e t) new e = Some e1 \<and> editable_remove_track ti t e1 = Some e2 \<and> editable_empty e2 \<and>
    ed_nr_tracks e2 = 0 \<and> ed_total_time e2 = word_of_int (ti_duration (track_at ti e t) - ti_duration (ti new))"
proof -
  obtain e1 e2 where e: "editable_update_track ti (ed_info e t) new e = Some e1" "editable_remove_track ti t e1 = Some e2" "ed_nr_tracks e2 = 0"
    "is_list (ed_links e2) (ed_head e2) []" "ed_total_time e2 = track_time ti e t - info_time (ti new)"
    using update_then_remove [OF assms(1-5)] by blast
  have "editable_empty e2" using list_walks(4) [OF e(4)] by (simp add: editable_empty_def)
  then show ?thesis using e assms(6,7) by (simp add: track_time_def info_time_def of_int_diff)
qed

text \<open>A queue of the tracks 1, 2 and 3, of which the second is selected.\<close>

definition queue_window :: "nat window" where
  "queue_window = \<lparr>w_head = Head, w_top = At 1, w_sel = At 2, w_nr_rows = 3, w_changed = False, w_events = 0\<rparr>"

definition queue_rb :: rb where
  "queue_rb = \<lparr>rb_nodes = (\<lambda>a. if a = 1 then \<lparr>rb_parent = 0, rb_black = True, rb_child = (\<lambda>_. 0)\<rparr> else \<lparr>rb_parent = a, rb_black = False, rb_child = (\<lambda>_. 0)\<rparr>),
     rb_root = 1\<rparr>"

definition three_queue :: editable where
  "three_queue = \<lparr>ed_tracks = \<lparr>tr_links = ring3, tr_rb = queue_rb\<rparr>, ed_head = 9, ed_nr_tracks = 3, ed_nr_marked = 0, ed_total_time = 30,
     ed_marked = (\<lambda>_. False), ed_info = (\<lambda>a. a), ed_keys = [], ed_owns = True, ed_win = queue_window\<rparr>"

lemma queue_rb: "rb_holds queue_rb [1]"
proof -
  have "holds_tree (\<lambda>_. None) queue_rb (Node True Leaf 1 Leaf)" by (simp add: holds_tree_def focus_def kept_def queue_rb_def)
  moreover have "balanced (Node True Leaf 1 Leaf)" unfolding balanced_def by simp (intro exI [of _ 1], simp)
  ultimately show ?thesis unfolding rb_holds_def by (intro exI [of _ "Node True Leaf 1 Leaf"]) simp
qed

lemma queue_rep: "list_rep example_clib [] info 9 \<lparr>tr_links = ring3, tr_rb = queue_rb\<rparr> [1, 2, 3]" if "\<forall>a. track_ok (info a)"
  unfolding list_rep_def using that queue_rb ring3
  by (intro conjI exI [of _ "[[1, 2, 3]]"]) (simp_all add: grouped_def groups_def rest_cleared_def cleared_def, simp_all add: queue_rb_def)

lemma queue_visible: "visible [1, 2, 3] queue_window"
  by (rule visibleI [of _ _ 0 1]) (simp_all add: placed_def queue_window_def)

lemma three_queue: "ed_holds example_clib number three_queue [1, 2, 3]"
  using queue_rep [of number] queue_visible
  by (simp add: ed_holds_def three_queue_def number_ok track_time_def) (simp add: number_def example_track_def)

lemma three_queue_simps: "ed_keys three_queue = []" "ed_head three_queue = 9" "get_selected three_queue = 2" "ed_marked three_queue = (\<lambda>_. False)"
  "ed_info three_queue = (\<lambda>a. a)"
  by (simp_all add: three_queue_def get_selected_def window_get_sel_def queue_window_def iter_is_empty_def iter_is_head_def iter_is_null_def)

lemma example_strcoll: "strcoll_ok (cl_strcoll example_clib)"
  by (simp add: example_clib_def strcoll_ok_strcmp)

theorem editable_operation_witness:
  "\<exists>e. run_ed example_clib number 0 Ed_remove_sel three_queue = Some e \<and> ed_holds example_clib number e [1, 3] \<and>
     run_ed example_clib number 0 Ed_invert three_queue \<noteq> None"
  using editable_operation [OF example_strcoll three_queue, of Ed_remove_sel 0] editable_operation [OF example_strcoll three_queue, of Ed_invert 0]
  by (auto simp: ed_ends_def three_queue_simps)

lemma all_ok_always: "\<forall>c \<in> set cs. \<forall>s. ok c s \<Longrightarrow> all_ok step ok cs s"
  by (induction cs arbitrary: s) (auto split: option.splits)

theorem editable_stays_in_step_witness:
  "\<exists>e xs. exec (run_ed example_clib number 0) [Ed_toggle, Ed_invert, Ed_remove_sel, Ed_mark None, Ed_toggle] three_queue = Some e \<and>
     ed_holds example_clib number e xs"
proof -
  have "all_ok (run_ed example_clib number (int 0)) (ed_seq_ok number) [Ed_toggle, Ed_invert, Ed_remove_sel, Ed_mark None, Ed_toggle] three_queue"
    by (rule all_ok_always) (intro ballI allI, auto simp: ed_seq_ok_def)
  from editable_stays_in_step [OF example_strcoll three_queue this] show ?thesis unfolding semiring_1_class.of_nat_0 .
qed

theorem tracks_are_moved_witness:
  "(\<exists>e. editable_move_after 0 8 three_queue = Some e \<and> ed_holds example_clib number e [1, 3, 2]) \<and>
   (\<exists>e. editable_move_before 0 8 three_queue = Some e \<and> ed_holds example_clib number e [2, 1, 3])"
  using tracks_are_moved [of example_clib number three_queue "[1]" 2 "[3]" 8 0] three_queue
  by (auto simp: three_queue_simps moved_down_def moved_up_def)

text \<open>With operations whose new tracks have not been used before, and not too many of them.\<close>

primrec pq_new :: "pq_op \<Rightarrow> nat list" where
  "pq_new (Pq_append t info) = [t]"
| "pq_new (Pq_prepend t info) = [t]"
| "pq_new Pq_remove = []"

primrec pq_infos :: "pq_op \<Rightarrow> nat list" where
  "pq_infos (Pq_append t info) = [info]"
| "pq_infos (Pq_prepend t info) = [info]"
| "pq_infos Pq_remove = []"

lemma queue_room:
  assumes "ed_holds cl ti e xs" "Suc (length xs) < 2 ^ 32"
  shows "ed_nr_tracks e \<noteq> - 1"
proof
  assume "ed_nr_tracks e = - 1"
  then have "ed_nr_tracks e + 1 = 0" by simp
  then have "(of_nat (Suc (length xs)) :: u32) = 0" using assms(1) by (simp add: ed_holds_def add.commute)
  then show False using small_word [OF assms(2)] by simp
qed

lemma pq_fresh:
  assumes "strcoll_ok (cl_strcoll cl)"
  shows "ed_holds cl ti e xs \<Longrightarrow> ed_keys e = [] \<Longrightarrow> distinct (ed_head e # xs @ concat (map pq_new ops)) \<Longrightarrow> 0 \<notin> set (concat (map pq_new ops)) \<Longrightarrow>
    \<forall>i \<in> set (concat (map pq_infos ops)). track_ok (ti i) \<Longrightarrow> length xs + length ops < 2 ^ 32 \<Longrightarrow> all_ok (run_pq cl ti) (pq_ok ti) ops (e, out)"
proof (induction ops arbitrary: e xs out)
  case (Cons c ops)
  have lr: "list_rep cl (ed_keys e) (track_at ti e) (ed_head e) (ed_tracks e) xs" using Cons.prems(1) by (simp add: ed_holds_def)
  have ok: "pq_ok ti c (e, out)"
    using Cons.prems(3-6) in_ring_rep [OF lr] queue_room [OF Cons.prems(1)] by (cases c) auto
  have "\<exists>e' ys out'. run_pq cl ti c (e, out) = Some (e', out') \<and> ed_holds cl ti e' ys \<and> ed_keys e' = [] \<and> ed_head e' = ed_head e \<and>
    set ys \<subseteq> set (xs @ pq_new c) \<and> distinct ys \<and> length ys \<le> Suc (length xs)"
  proof (cases c)
    case (Pq_append t info)
    from queue_add [OF assms Cons.prems(1,2), of t info out 1] ok Pq_append obtain e' where
      "do { e \<leftarrow> simple_track_new t info e; do_editable_add cl ti t 1 e } = Some e'" "ed_holds cl ti e' (xs @ [t])" "ed_keys e' = []" "ed_head e' = ed_head e"
      by auto
    then show ?thesis using Pq_append Cons.prems(3) by (auto simp: play_queue_append_def editable_add_def intro!: exI [of _ "xs @ [t]"])
  next
    case (Pq_prepend t info)
    from queue_add [OF assms Cons.prems(1,2), of t info out "- 1"] ok Pq_prepend obtain e' where
      "do { e \<leftarrow> simple_track_new t info e; do_editable_add cl ti t (- 1) e } = Some e'" "ed_holds cl ti e' (t # xs)" "ed_keys e' = []" "ed_head e' = ed_head e"
      by auto
    then show ?thesis using Pq_prepend Cons.prems(3) by (auto simp: play_queue_prepend_def editable_add_before_def intro!: exI [of _ "t # xs"])
  next
    case Pq_remove
    show ?thesis
    proof (cases xs)
      case Nil
      then show ?thesis using Pq_remove Cons.prems(1,2) list_walks(4) [OF ed_ring(1) [OF Cons.prems(1)]]
        by (auto simp: play_queue_remove_def intro!: exI [of _ "[]"])
    next
      case Cons1: (Cons t zs)
      then show ?thesis using Pq_remove Cons.prems(1,2,3) queue_remove [OF assms, of ti e t zs]
        by (auto simp: same_tracks_def intro!: exI [of _ zs])
    qed
  qed
  then obtain e' ys out' where s: "run_pq cl ti c (e, out) = Some (e', out')" "ed_holds cl ti e' ys" "ed_keys e' = []" "ed_head e' = ed_head e"
    "set ys \<subseteq> set (xs @ pq_new c)" "distinct ys" "length ys \<le> Suc (length xs)" by blast
  have d: "distinct (h # (xs @ ps) @ qs) \<Longrightarrow> set ys \<subseteq> set (xs @ ps) \<Longrightarrow> distinct ys \<Longrightarrow> distinct (h # ys @ qs)" for h ps qs by auto
  have "distinct (ed_head e # (xs @ pq_new c) @ concat (map pq_new ops))" using Cons.prems(3) by simp
  from d [OF this s(5,6)] have "distinct (ed_head e' # ys @ concat (map pq_new ops))" unfolding s(4) .
  then have "all_ok (run_pq cl ti) (pq_ok ti) ops (e', out')" using Cons.IH [OF s(2,3)] Cons.prems(4-6) s(7) by simp
  then show ?case using ok s(1) by simp
qed simp

theorem play_queue_is_a_queue_witness:
  "\<exists>e0 e. play_queue_init three_queue = Some e0 \<and>
    exec (run_pq example_clib number) [Pq_append 1 11, Pq_append 2 12, Pq_prepend 3 13, Pq_remove, Pq_remove, Pq_remove, Pq_remove] (e0, []) =
      Some (e, [13, 11, 12, 0])"
proof -
  let ?ops = "[Pq_append 1 11, Pq_append 2 12, Pq_prepend 3 13, Pq_remove, Pq_remove, Pq_remove, Pq_remove]"
  obtain e0 where e0: "play_queue_init three_queue = Some e0" "ed_holds example_clib number e0 []" "ed_keys e0 = []" "ed_head e0 = 9"
    using queue_starts [of three_queue example_clib number] by (auto simp: three_queue_simps)
  have "all_ok (run_pq example_clib number) (pq_ok number) ?ops (e0, [])"
    by (rule pq_fresh [OF example_strcoll e0(2,3)]) (simp_all add: e0(4) number_ok)
  then obtain s where "exec (run_pq example_clib number) ?ops (e0, []) = Some s" "pq_rep example_clib number s (fold pq_meaning ?ops ([], []))"
    using play_queue_is_a_queue [OF example_strcoll, of three_queue number ?ops] e0(1) by auto
  then show ?thesis using e0(1) by (cases s) (auto simp: pq_rep_def)
qed

text \<open>A queue of one track, of 10 seconds, which turns out to have 20.\<close>

definition longer :: "nat \<Rightarrow> track_info" where
  "longer i = (if i = 5 then (number i)\<lparr>ti_duration := 20\<rparr> else number i)"

definition one_queue :: editable where
  "one_queue = three_queue\<lparr>ed_tracks := \<lparr>tr_links = list_add_tail 1 9 (list_init 9 \<lparr>nxt = \<lambda>_. 0, prv = \<lambda>_. 0\<rparr>), tr_rb = queue_rb\<rparr>, ed_nr_tracks := 1,
     ed_total_time := 10, ed_win := queue_window\<lparr>w_sel := At 1\<rparr>\<rparr>"

lemma longer_ok: "track_ok (longer i)"
  using number_ok [of i] by (cases "i = 5") (simp_all add: longer_def track_ok_def)

lemma one_queue: "ed_holds example_clib longer one_queue [1]"
proof -
  have "is_list (list_add_tail 1 9 (list_init 9 \<lparr>nxt = \<lambda>_. 0, prv = \<lambda>_. 0\<rparr>)) 9 [1]" by (simp add: list_init_def list_add_tail_def is_list_def)
  then have "list_rep example_clib [] longer 9 (ed_tracks one_queue) [1]" using queue_rb longer_ok
    unfolding list_rep_def by (intro conjI exI [of _ "[[1]]"]) (simp_all add: one_queue_def grouped_def groups_def rest_cleared_def)
  moreover have "visible [1] (queue_window\<lparr>w_sel := At 1\<rparr>)" by (rule visibleI [of _ _ 0 0]) (simp_all add: placed_def queue_window_def)
  ultimately show ?thesis
    by (simp add: ed_holds_def one_queue_def three_queue_def track_time_def) (simp add: longer_def number_def example_track_def)
qed

theorem update_keeps_old_time_witness:
  "\<exists>e1 e2. editable_update_track longer 1 5 one_queue = Some e1 \<and> editable_remove_track longer 1 e1 = Some e2 \<and> editable_empty e2 \<and>
     ed_total_time e2 = - 10"
proof -
  have "ed_keys one_queue = []" "ed_info one_queue 1 = 1" by (simp_all add: one_queue_def three_queue_def)
  moreover have "ti_duration (longer 5) = 20" "ti_duration (longer 1) = 10" by (simp_all add: longer_def number_def example_track_def)
  ultimately show ?thesis
    using update_keeps_old_time [OF example_strcoll one_queue, of 5] longer_ok by auto
qed

end
