(* ===== verification/Memory.thy ===== *)
theory Memory
  imports Prelude
begin

text \<open>
  Allocated bytes as a list: stores, moves and growth, as \<^verbatim>\<open>cmdline.c\<close> and \<^verbatim>\<open>gbuf.c\<close> use them. A store or a move that leaves the
  list is a fault.
\<close>

section \<open>The model\<close>

definition mem_set :: "nat \<Rightarrow> string \<Rightarrow> string \<Rightarrow> string option" where
  "mem_set p bs m = (if p + length bs \<le> length m then Some (overwrite m p bs) else None)"

definition mem_move :: "nat \<Rightarrow> nat \<Rightarrow> nat \<Rightarrow> string \<Rightarrow> string option" where
  "mem_move dst src n m = (if src + n \<le> length m then mem_set dst (take n (drop src m)) m else None)"

text \<open>The string in the buffer.\<close>

definition c_str :: "string \<Rightarrow> string option" where
  "c_str m = (if CHR 0x00 \<in> set m then Some (takeWhile (\<lambda>c. c \<noteq> CHR 0x00) m) else None)"

text \<open>The bytes that an allocation adds are \<open>junk\<close>.\<close>

definition mem_grow :: "(nat \<Rightarrow> char) \<Rightarrow> nat \<Rightarrow> string \<Rightarrow> string" where
  "mem_grow junk n m = take n m @ map junk [length m..<n]"

section \<open>Lemmas\<close>

lemma takeWhile_no_nul: "CHR 0x00 \<notin> set s \<Longrightarrow> takeWhile (\<lambda>c. c \<noteq> CHR 0x00) (s @ CHR 0x00 # w) = s"
  by (induction s) auto

lemma mem_move_length: "mem_move d s n m = Some m' \<Longrightarrow> length m' = length m"
  by (auto simp: mem_move_def mem_set_def split: if_splits)

lemma mem_delete: "mem_move (length x) (length x + length y) (length z) (x @ y @ z @ w) = Some (x @ z @ drop (length z) (y @ z @ w))"
  by (simp add: mem_move_def mem_set_def overwrite_def)

lemma mem_insert:
  assumes "length e \<le> length w"
  shows "(mem_move (length x + length e) (length x) (length z) (x @ z @ w) \<bind> mem_set (length x) e) = Some (x @ e @ z @ drop (length e) w)"
  using assms by (auto simp: mem_move_def mem_set_def overwrite_def min_def)

lemma mem_set_append: "length y = length e \<Longrightarrow> mem_set (length x) e (x @ y @ w) = Some (x @ e @ w)"
  by (simp add: mem_set_def overwrite_def)

lemma length_mem_grow: "length (mem_grow junk n m) = (if length m \<le> n then n else min (length m) n)"
  by (simp add: mem_grow_def)

end
