(* ===== verification/Cmdline.thy ===== *)
theory Cmdline
  imports Uchar Memory Simulation
begin

text \<open>
  The command line editor of \<^verbatim>\<open>src/app/cmdline.c\<close>. The allocated bytes are a list, and a move, a store or a string without a
  terminator that leaves them is a fault, as is a negative length. The theory proves that every command does to the bytes and to the four
  counters what it means on a sequence of characters with a cursor, up to the one case in which inserting writes behind the buffer.
\<close>

section \<open>The model\<close>

record cmdline =
  cl_blen :: nat
  cl_clen :: int
  cl_bpos :: nat
  cl_cpos :: int
  cl_size :: nat
  cl_line :: string

definition cmdline_init :: "(nat \<Rightarrow> char) \<Rightarrow> cmdline" where
  "cmdline_init junk = \<lparr>cl_blen = 0, cl_clen = 0, cl_bpos = 0, cl_cpos = 0, cl_size = 128, cl_line = CHR 0x00 # map junk [1..<128]\<rparr>"

definition cmdline_insert_ch :: "(nat \<Rightarrow> char) \<Rightarrow> uchar \<Rightarrow> cmdline \<Rightarrow> cmdline option" where
  "cmdline_insert_ch junk ch cl =
     (let n = u_char_size ch;
          cl = (if cl_blen cl + n > cl_size cl
                then cl\<lparr>cl_size := cl_size cl * 2, cl_line := mem_grow junk (cl_size cl * 2) (cl_line cl)\<rparr> else cl)
      in do { bug_unless (cl_bpos cl \<le> cl_blen cl + 1);
              line \<leftarrow> mem_move (cl_bpos cl + n) (cl_bpos cl) (cl_blen cl - cl_bpos cl + 1) (cl_line cl);
              line \<leftarrow> mem_set (cl_bpos cl) (u_set_char_raw ch) line;
              Some (cl\<lparr>cl_line := line, cl_bpos := cl_bpos cl + length (u_set_char_raw ch), cl_cpos := cl_cpos cl + 1,
                       cl_blen := cl_blen cl + n, cl_clen := cl_clen cl + 1\<rparr>) })"

definition cmdline_backspace :: "cmdline \<Rightarrow> cmdline option" where
  "cmdline_backspace cl =
     (if cl_bpos cl = 0 then Some cl
      else do { s \<leftarrow> c_str (cl_line cl);
                bpos \<leftarrow> u_prev_char_pos s (cl_bpos cl);
                let n = cl_bpos cl - bpos;
                bug_unless (cl_bpos cl \<le> cl_blen cl + 1 \<and> n \<le> cl_blen cl);
                line \<leftarrow> mem_move bpos (cl_bpos cl) (cl_blen cl - cl_bpos cl + 1) (cl_line cl);
                Some (cl\<lparr>cl_line := line, cl_bpos := cl_bpos cl - n, cl_cpos := cl_cpos cl - 1,
                         cl_blen := cl_blen cl - n, cl_clen := cl_clen cl - 1\<rparr>) })"

lemma prev_loop_less: "prev_loop s i c = Some (Some j) \<Longrightarrow> j < i"
  by (induction i arbitrary: c) (fastforce simp: bind_eq_Some_conv Let_def split: if_splits)+

lemma prev_less: "u_prev_char_pos s i = Some j \<Longrightarrow> j < i"
  by (fastforce simp: u_prev_char_pos_def bind_eq_Some_conv dest: prev_loop_less split: if_splits option.splits)

lemma backspace_shorter: "cmdline_backspace cl = Some cl' \<Longrightarrow> cl_bpos cl \<noteq> 0 \<Longrightarrow> cl_bpos cl' < cl_bpos cl"
  by (auto simp: cmdline_backspace_def bind_eq_Some_conv Let_def dest: prev_less)

function cmdline_backspace_to_bol :: "cmdline \<Rightarrow> cmdline option" where
  "cmdline_backspace_to_bol cl =
     (if cl_bpos cl = 0 then Some cl
      else case cmdline_backspace cl of None \<Rightarrow> None | Some cl \<Rightarrow> cmdline_backspace_to_bol cl)"
  by auto
termination
  by (relation "measure cl_bpos") (auto dest: backspace_shorter)

definition cmdline_delete_ch :: "cmdline \<Rightarrow> cmdline option" where
  "cmdline_delete_ch cl =
     (if cl_bpos cl = cl_blen cl then Some cl
      else do { s \<leftarrow> c_str (cl_line cl);
                (ch, bpos) \<leftarrow> u_get_char_at s (cl_bpos cl);
                let n = u_char_size ch;
                bug_unless (cl_bpos cl + n \<le> cl_blen cl + 1);
                line \<leftarrow> mem_move (cl_bpos cl) (cl_bpos cl + n) (cl_blen cl - n - cl_bpos cl + 1) (cl_line cl);
                Some (cl\<lparr>cl_blen := cl_blen cl - n, cl_clen := cl_clen cl - 1, cl_line := line\<rparr>) })"

function grow_to :: "nat \<Rightarrow> nat \<Rightarrow> nat option" where
  "grow_to len n = (if len < n then Some n else if n = 0 then None else grow_to len (n * 2))"
  by auto
termination
  by (relation "measure (\<lambda>(len, n). Suc len - n)") auto

definition cmdline_set_text :: "(nat \<Rightarrow> char) \<Rightarrow> string \<Rightarrow> cmdline \<Rightarrow> cmdline option" where
  "cmdline_set_text junk txt cl =
     (let len = length txt
      in do { n \<leftarrow> grow_to len (cl_size cl);
              let cl = (if len \<ge> cl_size cl then cl\<lparr>cl_size := n, cl_line := mem_grow junk n (cl_line cl)\<rparr> else cl);
              line \<leftarrow> mem_set 0 (txt @ [CHR 0x00]) (cl_line cl);
              s \<leftarrow> c_str line;
              k \<leftarrow> u_strlen_safe s;
              Some (cl\<lparr>cl_line := line, cl_cpos := int k, cl_bpos := len, cl_clen := int k, cl_blen := len\<rparr>) })"

definition cmdline_clear :: "cmdline \<Rightarrow> cmdline option" where
  "cmdline_clear cl =
     do { line \<leftarrow> mem_set 0 [CHR 0x00] (cl_line cl);
          Some (cl\<lparr>cl_blen := 0, cl_clen := 0, cl_bpos := 0, cl_cpos := 0, cl_line := line\<rparr>) }"

definition cmdline_clear_end :: "cmdline \<Rightarrow> cmdline option" where
  "cmdline_clear_end cl =
     do { line \<leftarrow> mem_set (cl_bpos cl) [CHR 0x00] (cl_line cl);
          s \<leftarrow> c_str line;
          k \<leftarrow> u_strlen_safe s;
          Some (cl\<lparr>cl_line := line, cl_clen := int k, cl_blen := length s\<rparr>) }"

definition cmdline_move_left :: "cmdline \<Rightarrow> cmdline option" where
  "cmdline_move_left cl =
     (if cl_bpos cl > 0
      then do { s \<leftarrow> c_str (cl_line cl);
                bpos \<leftarrow> u_prev_char_pos s (cl_bpos cl);
                Some (cl\<lparr>cl_cpos := cl_cpos cl - 1, cl_bpos := bpos\<rparr>) }
      else Some cl)"

definition cmdline_move_right :: "cmdline \<Rightarrow> cmdline option" where
  "cmdline_move_right cl =
     (if cl_bpos cl < cl_blen cl
      then do { s \<leftarrow> c_str (cl_line cl);
                (ch, bpos) \<leftarrow> u_get_char_at s (cl_bpos cl);
                Some (cl\<lparr>cl_bpos := bpos, cl_cpos := cl_cpos cl + 1\<rparr>) }
      else Some cl)"

definition cmdline_move_home :: "cmdline \<Rightarrow> cmdline" where
  "cmdline_move_home cl = cl\<lparr>cl_cpos := 0, cl_bpos := 0\<rparr>"

definition cmdline_move_end :: "cmdline \<Rightarrow> cmdline" where
  "cmdline_move_end cl = cl\<lparr>cl_cpos := cl_clen cl, cl_bpos := cl_blen cl\<rparr>"

text \<open>\<open>next_word\<close> forwards and backwards: the new position and the change of \<open>*cdiff\<close>.\<close>

function next_word_right :: "string \<Rightarrow> string \<Rightarrow> nat \<Rightarrow> int \<Rightarrow> bool \<Rightarrow> (nat \<times> int) option" where
  "next_word_right delim str bpos cdiff skip_delim =
     do { b \<leftarrow> byte_at str bpos;
          if b = 0 then Some (bpos, cdiff)
          else case u_get_char_at str bpos of None \<Rightarrow> None
          | Some (ch, bpos') \<Rightarrow>
              do { found \<leftarrow> u_strchr delim ch;
                   if found \<noteq> None \<and> \<not> skip_delim then Some (bpos, cdiff)
                   else next_word_right delim str bpos' (cdiff + 1) (skip_delim \<and> found \<noteq> None) } }"
  by auto
termination
  by (relation "measure (\<lambda>(_, str, bpos, _, _). Suc (length str) - bpos)") (auto dest: u_get_char_at_pos)

function next_word_left :: "string \<Rightarrow> string \<Rightarrow> nat \<Rightarrow> int \<Rightarrow> bool \<Rightarrow> (nat \<times> int) option" where
  "next_word_left delim str bpos cdiff skip_delim =
     (if bpos = 0 then Some (bpos, cdiff)
      else case u_prev_char_pos str bpos of None \<Rightarrow> None
           | Some bpos \<Rightarrow>
               do { (ch, oldp) \<leftarrow> u_get_char_at str bpos;
                    found \<leftarrow> u_strchr delim ch;
                    if found \<noteq> None \<and> \<not> skip_delim then Some (oldp, cdiff)
                    else next_word_left delim str bpos (cdiff - 1) (skip_delim \<and> found \<noteq> None) })"
  by auto
termination
  by (relation "measure (\<lambda>(_, str, bpos, _, _). bpos)") (auto dest: prev_less)

declare next_word_right.simps [simp del] next_word_left.simps [simp del] cmdline_backspace_to_bol.simps [simp del] grow_to.simps [simp del]

definition cmdline_forward_word :: "string \<Rightarrow> cmdline \<Rightarrow> cmdline option" where
  "cmdline_forward_word delim cl =
     do { s \<leftarrow> c_str (cl_line cl);
          (bpos, cpos) \<leftarrow> next_word_right delim s (cl_bpos cl) (cl_cpos cl) True;
          Some (cl\<lparr>cl_bpos := bpos, cl_cpos := cpos\<rparr>) }"

definition cmdline_backward_word :: "string \<Rightarrow> cmdline \<Rightarrow> cmdline option" where
  "cmdline_backward_word delim cl =
     do { s \<leftarrow> c_str (cl_line cl);
          (bpos, cpos) \<leftarrow> next_word_left delim s (cl_bpos cl) (cl_cpos cl) True;
          Some (cl\<lparr>cl_bpos := bpos, cl_cpos := cpos\<rparr>) }"

definition cmdline_delete_word :: "string \<Rightarrow> cmdline \<Rightarrow> cmdline option" where
  "cmdline_delete_word delim cl =
     do { s \<leftarrow> c_str (cl_line cl);
          (bpos, cdiff) \<leftarrow> next_word_right delim s (cl_bpos cl) 0 True;
          bug_unless (bpos \<le> cl_blen cl + 1 \<and> cl_bpos cl \<le> bpos \<and> bpos - cl_bpos cl \<le> cl_blen cl);
          line \<leftarrow> mem_move (cl_bpos cl) bpos (cl_blen cl - bpos + 1) (cl_line cl);
          Some (cl\<lparr>cl_line := line, cl_blen := cl_blen cl - (bpos - cl_bpos cl), cl_clen := cl_clen cl - cdiff\<rparr>) }"

definition cmdline_backward_delete_word :: "string \<Rightarrow> cmdline \<Rightarrow> cmdline option" where
  "cmdline_backward_delete_word delim cl =
     do { s \<leftarrow> c_str (cl_line cl);
          (bpos, cdiff) \<leftarrow> next_word_left delim s (cl_bpos cl) 0 True;
          bug_unless (bpos \<le> cl_bpos cl \<and> cl_bpos cl - bpos \<le> cl_blen cl \<and> bpos \<le> cl_blen cl - (cl_bpos cl - bpos) + 1);
          let blen = cl_blen cl - (cl_bpos cl - bpos);
          line \<leftarrow> mem_move bpos (cl_bpos cl) (blen - bpos + 1) (cl_line cl);
          Some (cl\<lparr>cl_blen := blen, cl_line := line, cl_bpos := bpos, cl_clen := cl_clen cl + cdiff, cl_cpos := cl_cpos cl + cdiff\<rparr>) }"

section \<open>The meaning\<close>

text \<open>A text with a cursor: the characters before it and those from it on.\<close>

type_synonym zipper = "uchar list \<times> uchar list"

datatype command = Insert uchar | Backspace | Backspace_To_Bol | Delete | Set_Text "uchar list" | Clear | Clear_End
  | Left | Right | Home | End | Forward_Word "uchar list" | Backward_Word "uchar list" | Delete_Word "uchar list" | Backward_Delete_Word "uchar list"

text \<open>A word with the delimiters before it.\<close>

definition word_len :: "uchar list \<Rightarrow> uchar list \<Rightarrow> nat" where
  "word_len ds us = length (takeWhile (\<lambda>u. u \<in> set ds) us) + length (takeWhile (\<lambda>u. u \<notin> set ds) (dropWhile (\<lambda>u. u \<in> set ds) us))"

fun edit :: "command \<Rightarrow> zipper \<Rightarrow> zipper" where
  "edit (Insert u) (a, b) = (a @ [u], b)"
| "edit Backspace (a, b) = (butlast a, b)"
| "edit Backspace_To_Bol (a, b) = ([], b)"
| "edit Delete (a, b) = (a, tl b)"
| "edit (Set_Text us) (a, b) = (us, [])"
| "edit Clear (a, b) = ([], [])"
| "edit Clear_End (a, b) = (a, [])"
| "edit Left (a, b) = (if a = [] then (a, b) else (butlast a, last a # b))"
| "edit Right (a, b) = (if b = [] then (a, b) else (a @ [hd b], tl b))"
| "edit Home (a, b) = ([], a @ b)"
| "edit End (a, b) = (a @ b, [])"
| "edit (Forward_Word ds) (a, b) = (let k = word_len ds b in (a @ take k b, drop k b))"
| "edit (Backward_Word ds) (a, b) = (let k = length a - word_len ds (rev a) in (take k a, drop k a @ b))"
| "edit (Delete_Word ds) (a, b) = (a, drop (word_len ds b) b)"
| "edit (Backward_Delete_Word ds) (a, b) = (take (length a - word_len ds (rev a)) a, b)"

fun run_command :: "(nat \<Rightarrow> char) \<Rightarrow> command \<Rightarrow> cmdline \<Rightarrow> cmdline option" where
  "run_command junk (Insert u) cl = cmdline_insert_ch junk u cl"
| "run_command junk Backspace cl = cmdline_backspace cl"
| "run_command junk Backspace_To_Bol cl = cmdline_backspace_to_bol cl"
| "run_command junk Delete cl = cmdline_delete_ch cl"
| "run_command junk (Set_Text us) cl = cmdline_set_text junk (utf8 us) cl"
| "run_command junk Clear cl = cmdline_clear cl"
| "run_command junk Clear_End cl = cmdline_clear_end cl"
| "run_command junk Left cl = cmdline_move_left cl"
| "run_command junk Right cl = cmdline_move_right cl"
| "run_command junk Home cl = Some (cmdline_move_home cl)"
| "run_command junk End cl = Some (cmdline_move_end cl)"
| "run_command junk (Forward_Word ds) cl = cmdline_forward_word (utf8 ds) cl"
| "run_command junk (Backward_Word ds) cl = cmdline_backward_word (utf8 ds) cl"
| "run_command junk (Delete_Word ds) cl = cmdline_delete_word (utf8 ds) cl"
| "run_command junk (Backward_Delete_Word ds) cl = cmdline_backward_delete_word (utf8 ds) cl"

text \<open>
  The characters of a command are code points. The only command that does not always fit is an insertion: when the text comes
  to fill the buffer exactly, there is no room for its terminator.
\<close>

fun command_valid :: "command \<Rightarrow> bool" where
  "command_valid (Insert u) \<longleftrightarrow> code_point u"
| "command_valid (Set_Text us) \<longleftrightarrow> list_all code_point us"
| "command_valid (Forward_Word ds) \<longleftrightarrow> list_all code_point ds"
| "command_valid (Backward_Word ds) \<longleftrightarrow> list_all code_point ds"
| "command_valid (Delete_Word ds) \<longleftrightarrow> list_all code_point ds"
| "command_valid (Backward_Delete_Word ds) \<longleftrightarrow> list_all code_point ds"
| "command_valid _ \<longleftrightarrow> True"

fun command_fits :: "command \<Rightarrow> cmdline \<Rightarrow> bool" where
  "command_fits (Insert u) cl \<longleftrightarrow> cl_blen cl + u_char_size u \<noteq> cl_size cl"
| "command_fits _ cl \<longleftrightarrow> True"

fun rep :: "cmdline \<Rightarrow> zipper \<Rightarrow> bool" where
  "rep cl (a, b) \<longleftrightarrow> list_all code_point a \<and> list_all code_point b \<and>
     (\<exists>w. cl_line cl = utf8 a @ utf8 b @ CHR 0x00 # w) \<and> length (cl_line cl) = cl_size cl \<and> 4 \<le> cl_size cl \<and>
     cl_blen cl = length (utf8 a) + length (utf8 b) \<and> cl_clen cl = int (length a) + int (length b) \<and>
     cl_bpos cl = length (utf8 a) \<and> cl_cpos cl = int (length a)"

section \<open>Bytes\<close>

lemma no_nul_encode: "code_point u \<Longrightarrow> CHR 0x00 \<notin> set (u_set_char_raw u)"
proof (erule code_point_cases)
  have nul: "c \<noteq> CHR 0x00" if "len_tab (of_char c) \<noteq> 1" for c using that by auto
  have c: "to_byte ((x AND 63) OR 0x80) \<noteq> CHR 0x00" for x :: uchar using nul cont_byte [of x] by simp
  show "0 < u \<Longrightarrow> u \<le> 0x7f \<Longrightarrow> u < 128 \<Longrightarrow> u < 256 \<Longrightarrow> CHR 0x00 \<notin> set (u_set_char_raw u)"
    using of_char_to_byte [of u] of_char_0_iff [of "to_byte u"] by (force simp: u_set_char_raw_def)
  show "\<not> u \<le> 0x7f \<Longrightarrow> u \<le> 0x7ff \<Longrightarrow> \<not> u < 0x80 \<Longrightarrow> CHR 0x00 \<notin> set (u_set_char_raw u)"
    using nul [of "to_byte (drop_bit 6 u OR 0xc0)"] lead_byte(1) [OF high_bits(1) [of u]] not_sym [OF c] by (auto simp: u_set_char_raw_def)
  show "\<not> u \<le> 0x7f \<Longrightarrow> \<not> u \<le> 0x7ff \<Longrightarrow> u \<le> 0xffff \<Longrightarrow> \<not> u < 0x800 \<Longrightarrow> CHR 0x00 \<notin> set (u_set_char_raw u)"
    using nul [of "to_byte (drop_bit 6 (drop_bit 6 u) OR 0xe0)"] lead_byte(2) [OF high_bits(2) [of u]] not_sym [OF c]
    by (auto simp: u_set_char_raw_def simp del: drop_bit_drop_bit)
  show "\<not> u \<le> 0x7f \<Longrightarrow> \<not> u \<le> 0x7ff \<Longrightarrow> \<not> u \<le> 0xffff \<Longrightarrow> u \<le> 0x10ffff \<Longrightarrow> \<not> u < 0x10000 \<Longrightarrow> CHR 0x00 \<notin> set (u_set_char_raw u)"
    using nul [of "to_byte (drop_bit 6 (drop_bit 6 (drop_bit 6 u)) OR 0xf0)"] lead_byte(3) [OF high_bits(3) [of u]] not_sym [OF c]
    by (auto simp: u_set_char_raw_def simp del: drop_bit_drop_bit)
qed

lemma no_nul: "list_all code_point us \<Longrightarrow> CHR 0x00 \<notin> set (utf8 us)"
  by (induction us) (auto dest: no_nul_encode)

lemma c_str_utf8: "list_all code_point us \<Longrightarrow> c_str (utf8 us @ CHR 0x00 # w) = Some (utf8 us)"
  by (simp add: c_str_def takeWhile_no_nul no_nul)

lemma c_str_rep: "rep cl (a, b) \<Longrightarrow> c_str (cl_line cl) = Some (utf8 a @ utf8 b)"
  using c_str_utf8 [of "a @ b"] by auto

lemma conts_ok_get_cont: "get_cont n s i u = Some (Some v) \<Longrightarrow> conts_ok n s i = Some True"
  by (induction n arbitrary: i u) (auto simp: bind_eq_Some_conv split: if_splits)

lemma u_strlen_safe_utf8: "list_all code_point us \<Longrightarrow> u_strlen_safe (utf8 us) = Some (length us)"
proof (induction us)
  case Nil
  then show ?case by (simp add: u_strlen_safe.simps)
next
  case (Cons u us)
  then have u: "code_point u" by simp
  obtain b where b: "byte_at (u_set_char_raw u @ utf8 us) 0 = Some b" "b \<noteq> 0" "len_tab b = int (u_char_size u)"
    using lead_of_encode [OF u, of "utf8 us"] by blast
  have "1 < u_char_size u \<Longrightarrow> conts_ok (u_char_size u - 1) (u_set_char_raw u @ utf8 us) 1 = Some True"
    using conts_ok_get_cont get_cont_of_encode [OF u b(1)] by blast
  moreover have "u_char_size u = 1" if "\<not> 1 < u_char_size u" using that u_char_size_bounds [OF u] by auto
  ultimately show ?case using Cons b by (subst u_strlen_safe.simps) (auto simp: Let_def)
qed

section \<open>Words\<close>

fun word_loop :: "uchar set \<Rightarrow> bool \<Rightarrow> uchar list \<Rightarrow> nat" where
  "word_loop D skip [] = 0"
| "word_loop D skip (u # us) = (if u \<in> D \<and> \<not> skip then 0 else Suc (word_loop D (skip \<and> u \<in> D) us))"

lemma word_loop_False: "word_loop D False us = length (takeWhile (\<lambda>u. u \<notin> D) us)"
  by (induction us) auto

lemma word_loop_len: "word_loop (set ds) True us = word_len ds us"
  by (induction us) (auto simp: word_len_def word_loop_False)

lemma u_strchr_utf8:
  "list_all code_point ds \<Longrightarrow> \<exists>r. u_strchr (utf8 ds) ch = Some r \<and> (r \<noteq> None \<longleftrightarrow> ch \<in> set ds)"
proof (induction ds)
  case Nil
  then show ?case by (simp add: u_strchr.simps)
next
  case (Cons d ds)
  then obtain r where "u_strchr (utf8 ds) ch = Some r" "r \<noteq> None \<longleftrightarrow> ch \<in> set ds" by auto
  then show ?case using Cons.prems by (subst u_strchr.simps) (auto simp: byte_at_step u_get_char_utf8)
qed

lemma get_char_at_utf8:
  "code_point u \<Longrightarrow> u_get_char_at (utf8 a @ u_set_char_raw u @ rest) (length (utf8 a)) = Some (u, length (utf8 a) + u_char_size u)"
  by (simp add: u_get_char_at_def u_get_char_utf8)

lemma next_word_right_utf8:
  assumes "list_all code_point ds" "list_all code_point b"
  shows "next_word_right (utf8 ds) (utf8 a @ utf8 b) (length (utf8 a)) cdiff skip =
    (let k = word_loop (set ds) skip b in Some (length (utf8 (a @ take k b)), cdiff + int k))"
  using assms(2)
proof (induction b arbitrary: a cdiff skip)
  case Nil
  then show ?case using byte_at_append [of "utf8 a" "[]" 0] by (simp add: next_word_right.simps)
next
  case (Cons u b)
  then have u: "code_point u" by simp
  obtain c where c: "byte_at (utf8 a @ u_set_char_raw u @ utf8 b) (length (utf8 a)) = Some c" "c \<noteq> 0"
    using lead_of_encode [OF u, of "utf8 b"] byte_at_append [of "utf8 a" _ 0] by auto
  obtain r where r: "u_strchr (utf8 ds) u = Some r" "r \<noteq> None \<longleftrightarrow> u \<in> set ds" using u_strchr_utf8 [OF assms(1)] by blast
  have "next_word_right (utf8 ds) (utf8 a @ utf8 (u # b)) (length (utf8 a)) cdiff skip =
      (if u \<in> set ds \<and> \<not> skip then Some (length (utf8 a), cdiff)
       else next_word_right (utf8 ds) (utf8 (a @ [u]) @ utf8 b) (length (utf8 (a @ [u]))) (cdiff + 1) (skip \<and> u \<in> set ds))"
    using c r by (subst next_word_right.simps) (auto simp: get_char_at_utf8 [OF u])
  also have "\<dots> = (let k = word_loop (set ds) skip (u # b) in Some (length (utf8 (a @ take k (u # b))), cdiff + int k))"
    using Cons(1) [of "a @ [u]"] Cons(2) by (simp add: Let_def add.assoc)
  finally show ?case .
qed

lemma next_word_left_utf8:
  assumes "list_all code_point ds" "list_all code_point a"
  shows "next_word_left (utf8 ds) (utf8 a @ rest) (length (utf8 a)) cdiff skip =
    (let k = word_loop (set ds) skip (rev a) in Some (length (utf8 (take (length a - k) a)), cdiff - int k))"
  using assms(2)
proof (induction a arbitrary: rest cdiff skip rule: rev_induct)
  case Nil
  then show ?case by (simp add: next_word_left.simps)
next
  case (snoc u a)
  then have u: "code_point u" by simp
  obtain r where r: "u_strchr (utf8 ds) u = Some r" "r \<noteq> None \<longleftrightarrow> u \<in> set ds" using u_strchr_utf8 [OF assms(1)] by blast
  have pos: "length (utf8 (a @ [u])) \<noteq> 0" using u_char_size_pos [of u] by simp
  have str: "utf8 (a @ [u]) @ rest = utf8 a @ u_set_char_raw u @ rest" by simp
  have len: "length (utf8 (a @ [u])) = length (utf8 a) + u_char_size u" by simp
  have "next_word_left (utf8 ds) (utf8 (a @ [u]) @ rest) (length (utf8 (a @ [u]))) cdiff skip =
      (if u \<in> set ds \<and> \<not> skip then Some (length (utf8 (a @ [u])), cdiff)
       else next_word_left (utf8 ds) (utf8 a @ u_set_char_raw u @ rest) (length (utf8 a)) (cdiff - 1) (skip \<and> u \<in> set ds))"
    using r pos by (subst next_word_left.simps) (auto simp: str len prev_of_encode [OF u] get_char_at_utf8 [OF u])
  also have "\<dots> = (let k = word_loop (set ds) skip (rev (a @ [u])) in Some (length (utf8 (take (length (a @ [u]) - k) (a @ [u]))), cdiff - int k))"
    using snoc by (simp add: Let_def)
  finally show ?case .
qed

lemma word_loop_le: "word_loop D skip us \<le> length us"
  by (induction us arbitrary: skip) auto

section \<open>The commands\<close>

lemma repI:
  "\<lbrakk>list_all code_point a; list_all code_point b; cl_line cl = utf8 a @ utf8 b @ CHR 0x00 # w; length (cl_line cl) = cl_size cl;
    4 \<le> cl_size cl; cl_blen cl = length (utf8 a) + length (utf8 b); cl_clen cl = int (length a) + int (length b);
    cl_bpos cl = length (utf8 a); cl_cpos cl = int (length a)\<rbrakk> \<Longrightarrow> rep cl (a, b)"
  by auto

lemma length_utf8_ascii: "length (utf8 (replicate n 0x61)) = n"
  by (induction n) (simp_all add: u_char_size_def)

lemma init_rep: "rep (cmdline_init junk) ([], [])"
  by (auto simp: cmdline_init_def)

lemma size_le_4: "u_char_size u \<le> 4"
  by (simp add: u_char_size_def)

lemma insert_rep:
  assumes "rep cl (a, b)" "code_point u" "cl_blen cl + u_char_size u \<noteq> cl_size cl"
  shows "\<exists>cl'. cmdline_insert_ch junk u cl = Some cl' \<and> rep cl' (a @ [u], b)"
proof -
  let ?n = "u_char_size u"
  obtain w where line: "cl_line cl = utf8 a @ utf8 b @ CHR 0x00 # w" using assms(1) by auto
  define cl1 where "cl1 = (if cl_blen cl + ?n > cl_size cl
      then cl\<lparr>cl_size := cl_size cl * 2, cl_line := mem_grow junk (cl_size cl * 2) (cl_line cl)\<rparr> else cl)"
  obtain w1 where w1: "cl_line cl1 = utf8 a @ (utf8 b @ [CHR 0x00]) @ w1" "?n \<le> length w1" "length (cl_line cl1) = cl_size cl1"
    "4 \<le> cl_size cl1" "cl_blen cl1 = cl_blen cl" "cl_bpos cl1 = cl_bpos cl" "cl_clen cl1 = cl_clen cl" "cl_cpos cl1 = cl_cpos cl"
  proof (cases "cl_blen cl + ?n > cl_size cl")
    case True
    have "mem_grow junk (cl_size cl * 2) (cl_line cl) = cl_line cl @ map junk [cl_size cl..<cl_size cl * 2]"
      using assms(1) by (simp add: mem_grow_def)
    then show ?thesis using that [of "w @ map junk [cl_size cl..<cl_size cl * 2]"] True assms(1) line size_le_4 [of u]
      by (simp add: cl1_def)
  next
    case False
    then have "?n \<le> length w" using assms(1,3) line by auto
    then show ?thesis using that [of w] False assms(1) line by (simp add: cl1_def)
  qed
  have z: "length (utf8 b @ [CHR 0x00]) = cl_blen cl1 - cl_bpos cl1 + 1" "cl_bpos cl1 = length (utf8 a)"
    using assms(1) w1(5,6) by auto
  have "cmdline_insert_ch junk u cl = do { line \<leftarrow> mem_move (length (utf8 a) + ?n) (length (utf8 a)) (length (utf8 b @ [CHR 0x00])) (cl_line cl1) \<bind> mem_set (length (utf8 a)) (u_set_char_raw u);
      Some (cl1\<lparr>cl_line := line, cl_bpos := length (utf8 a) + ?n, cl_cpos := cl_cpos cl + 1, cl_blen := cl_blen cl + ?n, cl_clen := cl_clen cl + 1\<rparr>) }"
    unfolding cmdline_insert_ch_def Let_def cl1_def [symmetric] z(1) z(2) [symmetric] using assms(1) w1(5-8)
    by (simp add: bind_assoc)
  also have "\<dots> = Some (cl1\<lparr>cl_line := utf8 a @ u_set_char_raw u @ (utf8 b @ [CHR 0x00]) @ drop ?n w1,
      cl_bpos := length (utf8 a) + ?n, cl_cpos := cl_cpos cl + 1, cl_blen := cl_blen cl + ?n, cl_clen := cl_clen cl + 1\<rparr>)"
    using mem_insert [of "u_set_char_raw u" w1 "utf8 a" "utf8 b @ [CHR 0x00]"] w1(1,2) by simp
  finally show ?thesis using assms(1,2) w1(1-4) by auto
qed

lemma insert_overflow:
  assumes "rep cl (a, b)" "cl_blen cl + u_char_size u = cl_size cl"
  shows "cmdline_insert_ch junk u cl = None"
  using assms by (auto simp: cmdline_insert_ch_def mem_move_def mem_set_def)

lemma backspace_rep:
  assumes "rep cl (a, b)"
  shows "\<exists>cl'. cmdline_backspace cl = Some cl' \<and> rep cl' (butlast a, b)"
proof (cases a rule: rev_cases)
  case Nil
  then show ?thesis using assms by (auto simp: cmdline_backspace_def)
next
  case (snoc a' u)
  obtain w where line: "cl_line cl = utf8 a' @ u_set_char_raw u @ (utf8 b @ [CHR 0x00]) @ w" using assms snoc by auto
  have u: "code_point u" using assms snoc by simp
  have prev: "u_prev_char_pos (utf8 a @ utf8 b) (cl_bpos cl) = Some (length (utf8 a'))"
    using prev_of_encode [OF u, of "utf8 a'" "utf8 b"] assms snoc by simp
  obtain w' where m: "mem_move (length (utf8 a')) (cl_bpos cl) (cl_blen cl - cl_bpos cl + 1) (cl_line cl) =
      Some (utf8 a' @ utf8 b @ CHR 0x00 # w')"
    using mem_delete [of "utf8 a'" "u_set_char_raw u" "utf8 b @ [CHR 0x00]" w] assms snoc line by simp
  let ?cl = "cl\<lparr>cl_line := utf8 a' @ utf8 b @ CHR 0x00 # w', cl_bpos := length (utf8 a'), cl_cpos := cl_cpos cl - 1,
      cl_blen := cl_blen cl - u_char_size u, cl_clen := cl_clen cl - 1\<rparr>"
  have "cmdline_backspace cl = Some ?cl"
    using assms snoc prev c_str_rep [OF assms] u_char_size_pos [of u] m by (simp add: cmdline_backspace_def Let_def)
  moreover have "rep ?cl (a', b)" using assms snoc mem_move_length [OF m] by (intro repI) simp_all
  ultimately show ?thesis using snoc by simp
qed

lemma bol_rep: "rep cl (a, b) \<Longrightarrow> \<exists>cl'. cmdline_backspace_to_bol cl = Some cl' \<and> rep cl' ([], b)"
proof (induction a arbitrary: cl rule: rev_induct)
  case Nil
  then show ?case by (subst cmdline_backspace_to_bol.simps) auto
next
  case (snoc u a)
  obtain cl1 where cl1: "cmdline_backspace cl = Some cl1" "rep cl1 (a, b)" using backspace_rep [OF snoc(2)] by auto
  have "cl_bpos cl \<noteq> 0" using snoc(2) u_char_size_pos [of u] by simp
  then show ?case using snoc(1) [OF cl1(2)] cl1(1) by (subst cmdline_backspace_to_bol.simps) simp
qed

lemma delete_rep:
  assumes "rep cl (a, b)"
  shows "\<exists>cl'. cmdline_delete_ch cl = Some cl' \<and> rep cl' (a, tl b)"
proof (cases b)
  case Nil
  then show ?thesis using assms by (auto simp: cmdline_delete_ch_def)
next
  case (Cons u b')
  obtain w where line: "cl_line cl = utf8 a @ u_set_char_raw u @ (utf8 b' @ [CHR 0x00]) @ w" using assms Cons by auto
  have u: "code_point u" using assms Cons by simp
  obtain w' where m: "mem_move (cl_bpos cl) (cl_bpos cl + u_char_size u) (cl_blen cl - u_char_size u - cl_bpos cl + 1) (cl_line cl) =
      Some (utf8 a @ utf8 b' @ CHR 0x00 # w')"
    using mem_delete [of "utf8 a" "u_set_char_raw u" "utf8 b' @ [CHR 0x00]" w] assms Cons line by simp
  let ?cl = "cl\<lparr>cl_blen := cl_blen cl - u_char_size u, cl_clen := cl_clen cl - 1, cl_line := utf8 a @ utf8 b' @ CHR 0x00 # w'\<rparr>"
  have "cmdline_delete_ch cl = Some ?cl"
    using assms Cons c_str_rep [OF assms] get_char_at_utf8 [OF u, of a "utf8 b'"] u_char_size_pos [of u] m
    by (simp add: cmdline_delete_ch_def Let_def)
  moreover have "rep ?cl (a, b')" using assms Cons mem_move_length [OF m] by (intro repI) simp_all
  ultimately show ?thesis using Cons by simp
qed

lemma grow_to_above: "0 < n \<Longrightarrow> \<exists>m. grow_to len n = Some m \<and> len < m \<and> n \<le> m"
proof (induction "Suc len - n" arbitrary: n rule: less_induct)
  case less
  show ?case
  proof (cases "len < n")
    case False
    then have "Suc len - n * 2 < Suc len - n" "0 < n * 2" using less(2) by simp_all
    then obtain m where "grow_to len (n * 2) = Some m" "len < m" "n * 2 \<le> m" using less(1) by blast
    then show ?thesis using False less(2) by (subst grow_to.simps) simp
  qed (simp add: grow_to.simps)
qed

lemma set_text_rep:
  assumes "rep cl (a, b)" "list_all code_point us"
  shows "\<exists>cl'. cmdline_set_text junk (utf8 us) cl = Some cl' \<and> rep cl' (us, [])"
proof -
  let ?len = "length (utf8 us)"
  obtain n where n: "grow_to ?len (cl_size cl) = Some n" "?len < n" "cl_size cl \<le> n"
    using grow_to_above [of "cl_size cl" ?len] assms(1) by auto
  define cl1 where "cl1 = (if ?len \<ge> cl_size cl then cl\<lparr>cl_size := n, cl_line := mem_grow junk n (cl_line cl)\<rparr> else cl)"
  have cl1: "length (cl_line cl1) = cl_size cl1" "?len < cl_size cl1" "4 \<le> cl_size cl1"
    using assms(1) n(2,3) by (auto simp: cl1_def mem_grow_def)
  have m: "mem_set 0 (utf8 us @ [CHR 0x00]) (cl_line cl1) = Some (utf8 us @ CHR 0x00 # drop (Suc ?len) (cl_line cl1))"
    using cl1 by (simp add: mem_set_def overwrite_def)
  let ?cl = "cl1\<lparr>cl_line := utf8 us @ CHR 0x00 # drop (Suc ?len) (cl_line cl1), cl_cpos := int (length us), cl_bpos := ?len,
      cl_clen := int (length us), cl_blen := ?len\<rparr>"
  have "cmdline_set_text junk (utf8 us) cl = Some ?cl"
    unfolding cmdline_set_text_def Let_def n(1) Option.bind.bind_lunit cl1_def [symmetric]
    using m by (simp add: c_str_utf8 [OF assms(2)] u_strlen_safe_utf8 [OF assms(2)])
  moreover have "rep ?cl (us, [])" using cl1 assms(2) by (intro repI) simp_all
  ultimately show ?thesis by blast
qed

lemma clear_rep:
  assumes "rep cl (a, b)"
  shows "\<exists>cl'. cmdline_clear cl = Some cl' \<and> rep cl' ([], [])"
proof -
  have "mem_set 0 [CHR 0x00] (cl_line cl) = Some (CHR 0x00 # drop 1 (cl_line cl))"
    using assms by (auto simp: mem_set_def overwrite_def)
  moreover have "0 < length (cl_line cl)" using assms by auto
  ultimately show ?thesis using assms by (auto simp: cmdline_clear_def)
qed

lemma clear_end_rep:
  assumes "rep cl (a, b)"
  shows "\<exists>cl'. cmdline_clear_end cl = Some cl' \<and> rep cl' (a, [])"
proof -
  obtain w where line: "cl_line cl = utf8 a @ utf8 b @ CHR 0x00 # w" using assms by auto
  have m: "mem_set (cl_bpos cl) [CHR 0x00] (cl_line cl) = Some (utf8 a @ CHR 0x00 # drop 1 (utf8 b @ CHR 0x00 # w))"
    using assms line by (simp add: mem_set_def overwrite_def)
  have cp: "list_all code_point a" using assms by simp
  let ?cl = "cl\<lparr>cl_line := utf8 a @ CHR 0x00 # drop 1 (utf8 b @ CHR 0x00 # w), cl_clen := int (length a), cl_blen := length (utf8 a)\<rparr>"
  have "cmdline_clear_end cl = Some ?cl"
    unfolding cmdline_clear_end_def m by (simp add: c_str_utf8 [OF cp] u_strlen_safe_utf8 [OF cp])
  moreover have "length (utf8 a @ CHR 0x00 # drop 1 (utf8 b @ CHR 0x00 # w)) = length (cl_line cl)" by (simp add: line)
  then have "rep ?cl (a, [])" using assms by (intro repI) simp_all
  ultimately show ?thesis by blast
qed

lemma move_rep:
  assumes "rep cl (a, b)"
  shows "\<exists>cl'. cmdline_move_left cl = Some cl' \<and> rep cl' (edit Left (a, b))"
    "\<exists>cl'. cmdline_move_right cl = Some cl' \<and> rep cl' (edit Right (a, b))"
    "rep (cmdline_move_home cl) ([], a @ b)" "rep (cmdline_move_end cl) (a @ b, [])"
proof -
  show "\<exists>cl'. cmdline_move_left cl = Some cl' \<and> rep cl' (edit Left (a, b))"
  proof (cases a rule: rev_cases)
    case Nil
    then show ?thesis using assms by (auto simp: cmdline_move_left_def)
  next
    case (snoc a' u)
    have u: "code_point u" using assms snoc by simp
    have prev: "u_prev_char_pos (utf8 a @ utf8 b) (cl_bpos cl) = Some (length (utf8 a'))"
      using prev_of_encode [OF u, of "utf8 a'" "utf8 b"] assms snoc by simp
    then show ?thesis using assms snoc c_str_rep [OF assms] u_char_size_pos [of u] by (auto simp: cmdline_move_left_def)
  qed
  show "\<exists>cl'. cmdline_move_right cl = Some cl' \<and> rep cl' (edit Right (a, b))"
  proof (cases b)
    case Nil
    then show ?thesis using assms by (auto simp: cmdline_move_right_def)
  next
    case (Cons u b')
    have u: "code_point u" using assms Cons by simp
    show ?thesis using assms Cons c_str_rep [OF assms] get_char_at_utf8 [OF u, of a "utf8 b'"] u_char_size_pos [of u]
      by (auto simp: cmdline_move_right_def)
  qed
  show "rep (cmdline_move_home cl) ([], a @ b)" "rep (cmdline_move_end cl) (a @ b, [])"
    using assms by (auto simp: cmdline_move_home_def cmdline_move_end_def)
qed

text \<open>The bytes of a part of the text.\<close>

lemma utf8_take_drop: "utf8 (take k us) @ utf8 (drop k us) = utf8 us"
  using utf8_append [of "take k us" "drop k us"] by simp

lemma utf8_take_length: "length (utf8 (take k us)) + length (utf8 (drop k us)) = length (utf8 us)"
  using arg_cong [OF utf8_take_drop [of k us], of length] by simp

lemma code_points_part: "list_all code_point us \<Longrightarrow> list_all code_point (take k us) \<and> list_all code_point (drop k us)"
  by (simp add: list_all_length)

lemma words_at:
  assumes "rep cl (a, b)" "list_all code_point ds"
  shows "next_word_right (utf8 ds) (utf8 a @ utf8 b) (cl_bpos cl) c True =
      Some (length (utf8 (a @ take (word_len ds b) b)), c + int (word_len ds b))"
    "next_word_left (utf8 ds) (utf8 a @ utf8 b) (cl_bpos cl) c True =
      Some (length (utf8 (take (length a - word_len ds (rev a)) a)), c - int (word_len ds (rev a)))"
    "word_len ds b \<le> length b" "word_len ds (rev a) \<le> length a"
proof -
  have cp: "list_all code_point a" "list_all code_point b" "cl_bpos cl = length (utf8 a)" using assms(1) by auto
  show "next_word_right (utf8 ds) (utf8 a @ utf8 b) (cl_bpos cl) c True =
      Some (length (utf8 (a @ take (word_len ds b) b)), c + int (word_len ds b))"
    unfolding cp(3) next_word_right_utf8 [OF assms(2) cp(2)] word_loop_len Let_def ..
  show "next_word_left (utf8 ds) (utf8 a @ utf8 b) (cl_bpos cl) c True =
      Some (length (utf8 (take (length a - word_len ds (rev a)) a)), c - int (word_len ds (rev a)))"
    unfolding cp(3) next_word_left_utf8 [OF assms(2) cp(1)] word_loop_len Let_def ..
  show "word_len ds b \<le> length b" "word_len ds (rev a) \<le> length a"
    using word_loop_le [of "set ds" True b] word_loop_le [of "set ds" True "rev a"] by (simp_all add: word_loop_len)
qed

lemma move_cursor:
  assumes "rep cl (a, b)" "a @ b = a' @ b'"
  shows "rep (cl\<lparr>cl_bpos := length (utf8 a'), cl_cpos := int (length a')\<rparr>) (a', b')"
proof -
  obtain w where line: "cl_line cl = utf8 a @ utf8 b @ CHR 0x00 # w" using assms(1) by auto
  have eq: "utf8 a @ utf8 b = utf8 a' @ utf8 b'" using arg_cong [OF assms(2), of utf8] by simp
  have "length a + length b = length a' + length b'" using arg_cong [OF assms(2), of length] by simp
  moreover have "list_all code_point (a' @ b')" using assms by (metis list_all_append rep.simps)
  moreover have "length (utf8 a) + length (utf8 b) = length (utf8 a') + length (utf8 b')" using arg_cong [OF eq, of length] by simp
  moreover have "cl_line cl = utf8 a' @ utf8 b' @ CHR 0x00 # w" using line eq by (metis append_assoc)
  ultimately show ?thesis using assms(1) by (intro repI) simp_all
qed

lemma word_move_rep:
  assumes "rep cl (a, b)" "list_all code_point ds"
  shows "\<exists>cl'. cmdline_forward_word (utf8 ds) cl = Some cl' \<and> rep cl' (edit (Forward_Word ds) (a, b))"
    "\<exists>cl'. cmdline_backward_word (utf8 ds) cl = Some cl' \<and> rep cl' (edit (Backward_Word ds) (a, b))"
proof -
  note cs = c_str_rep [OF assms(1)] and wd = words_at [OF assms]
  have cpos: "cl_cpos cl = int (length a)" using assms(1) by simp
  let ?k = "word_len ds b" let ?j = "length a - word_len ds (rev a)"
  have "cmdline_forward_word (utf8 ds) cl = Some (cl\<lparr>cl_bpos := length (utf8 (a @ take ?k b)), cl_cpos := int (length (a @ take ?k b))\<rparr>)"
    using wd(3) by (simp add: cmdline_forward_word_def cs wd(1) cpos)
  then show "\<exists>cl'. cmdline_forward_word (utf8 ds) cl = Some cl' \<and> rep cl' (edit (Forward_Word ds) (a, b))"
    using move_cursor [OF assms(1), of "a @ take ?k b" "drop ?k b"] by (simp add: Let_def del: rep.simps)
  have "cmdline_backward_word (utf8 ds) cl = Some (cl\<lparr>cl_bpos := length (utf8 (take ?j a)), cl_cpos := int (length (take ?j a))\<rparr>)"
    using wd(4) by (simp add: cmdline_backward_word_def cs wd(2) cpos)
  then show "\<exists>cl'. cmdline_backward_word (utf8 ds) cl = Some cl' \<and> rep cl' (edit (Backward_Word ds) (a, b))"
    using move_cursor [OF assms(1), of "take ?j a" "drop ?j a @ b"] by (simp add: Let_def del: rep.simps)
qed

lemma word_delete_rep:
  assumes "rep cl (a, b)" "list_all code_point ds"
  shows "\<exists>cl'. cmdline_delete_word (utf8 ds) cl = Some cl' \<and> rep cl' (edit (Delete_Word ds) (a, b))"
    "\<exists>cl'. cmdline_backward_delete_word (utf8 ds) cl = Some cl' \<and> rep cl' (edit (Backward_Delete_Word ds) (a, b))"
proof -
  note cs = c_str_rep [OF assms(1)] and wd = words_at [OF assms]
  obtain w where line: "cl_line cl = utf8 a @ utf8 b @ CHR 0x00 # w" using assms(1) by auto
  let ?k = "word_len ds b"
  have b: "utf8 b = utf8 (take ?k b) @ utf8 (drop ?k b)" by (rule utf8_take_drop [symmetric])
  have blen: "length (utf8 b) = length (utf8 (take ?k b)) + length (utf8 (drop ?k b))" by (rule utf8_take_length [symmetric])
  obtain w1 where m: "mem_move (length (utf8 a)) (length (utf8 a) + length (utf8 (take ?k b))) (length (utf8 (drop ?k b)) + 1) (cl_line cl) =
      Some (utf8 a @ utf8 (drop ?k b) @ CHR 0x00 # w1)"
    using mem_delete [of "utf8 a" "utf8 (take ?k b)" "utf8 (drop ?k b) @ [CHR 0x00]" w] line b by simp
  let ?cl = "cl\<lparr>cl_line := utf8 a @ utf8 (drop ?k b) @ CHR 0x00 # w1, cl_blen := length (utf8 a) + length (utf8 (drop ?k b)),
      cl_clen := cl_clen cl - int ?k\<rparr>"
  have "cmdline_delete_word (utf8 ds) cl = Some ?cl"
    unfolding cmdline_delete_word_def cs Option.bind.bind_lunit wd(1) prod.case using assms(1) m blen by simp
  moreover have "rep ?cl (a, drop ?k b)"
    using assms(1) wd(3) mem_move_length [OF m] code_points_part [of b ?k] by (intro repI) simp_all
  ultimately show "\<exists>cl'. cmdline_delete_word (utf8 ds) cl = Some cl' \<and> rep cl' (edit (Delete_Word ds) (a, b))" by simp
  let ?n = "word_len ds (rev a)" let ?j = "length a - ?n"
  have a: "utf8 a = utf8 (take ?j a) @ utf8 (drop ?j a)" by (rule utf8_take_drop [symmetric])
  have alen: "length (utf8 a) = length (utf8 (take ?j a)) + length (utf8 (drop ?j a))" by (rule utf8_take_length [symmetric])
  obtain w2 where m: "mem_move (length (utf8 (take ?j a))) (length (utf8 a)) (length (utf8 b) + 1) (cl_line cl) =
      Some (utf8 (take ?j a) @ utf8 b @ CHR 0x00 # w2)"
    using mem_delete [of "utf8 (take ?j a)" "utf8 (drop ?j a)" "utf8 b @ [CHR 0x00]" w] line a alen by simp
  let ?cr = "cl\<lparr>cl_blen := length (utf8 (take ?j a)) + length (utf8 b), cl_line := utf8 (take ?j a) @ utf8 b @ CHR 0x00 # w2,
      cl_bpos := length (utf8 (take ?j a)), cl_clen := cl_clen cl - int ?n, cl_cpos := cl_cpos cl - int ?n\<rparr>"
  have "cmdline_backward_delete_word (utf8 ds) cl = Some ?cr"
    unfolding cmdline_backward_delete_word_def cs Option.bind.bind_lunit wd(2) prod.case Let_def using assms(1) m alen by simp
  moreover have "rep ?cr (take ?j a, b)"
    using assms(1) wd(4) mem_move_length [OF m] code_points_part [of a ?j] by (intro repI) simp_all
  ultimately show "\<exists>cl'. cmdline_backward_delete_word (utf8 ds) cl = Some cl' \<and> rep cl' (edit (Backward_Delete_Word ds) (a, b))" by simp
qed

lemma command_rep:
  "rep cl z \<Longrightarrow> command_valid c \<Longrightarrow> command_fits c cl \<Longrightarrow> \<exists>cl'. run_command junk c cl = Some cl' \<and> rep cl' (edit c z)"
  using insert_rep backspace_rep bol_rep delete_rep set_text_rep clear_rep clear_end_rep move_rep word_move_rep word_delete_rep
  by (cases z; cases c) (simp_all del: rep.simps edit.simps(8,9,12-15))

lemma command_overflow: "rep cl z \<Longrightarrow> \<not> command_fits c cl \<Longrightarrow> run_command junk c cl = None"
  using insert_overflow by (cases z; cases c) (simp_all del: rep.simps)

interpretation editor: exact_simulation "run_command junk" edit rep command_valid command_fits
  by unfold_locales (rule command_rep, assumption+, rule command_overflow)

section \<open>Properties\<close>

text \<open>
  C25. A sequence of editing commands, from the start, does to the bytes, the byte counters and the character counters what it
  does to a text with a cursor: nothing is read or written outside of the allocated bytes, the text stays in UTF-8 and
  terminated, and the cursor stays between characters; unless it comes to insert a character that fills the buffer exactly,
  in which case it writes behind the buffer. So this is the only defect of these operations. The characters are code points.
\<close>

theorem cmdline_edits:
  assumes "list_all command_valid cs"
  shows "if all_ok (run_command junk) command_fits cs (cmdline_init junk)
    then \<exists>cl. exec (run_command junk) cs (cmdline_init junk) = Some cl \<and> rep cl (fold edit cs ([], []))
    else exec (run_command junk) cs (cmdline_init junk) = None"
  using editor.exact_exec [OF init_rep assms] .

theorem cmdline_edits_witness:
  "(\<exists>cl. exec (run_command (\<lambda>_. CHR ''x'')) [Set_Text [0x61, 0x20, 0x20ac], Left, Backward_Word [0x20], Delete_Word [0x20]] (cmdline_init (\<lambda>_. CHR ''x'')) = Some cl \<and>
     rep cl ([], [0x20, 0x20ac])) \<and>
   exec (run_command (\<lambda>_. CHR ''x'')) [Set_Text (replicate 127 0x61), Insert 0x62] (cmdline_init (\<lambda>_. CHR ''x'')) = None"
proof
  let ?cs = "[Set_Text [0x61, 0x20, 0x20ac], Left, Backward_Word [0x20], Delete_Word [0x20]]"
  have "all_ok (run_command (\<lambda>_. CHR ''x'')) command_fits ?cs (cmdline_init (\<lambda>_. CHR ''x''))"
    by (simp split: option.splits del: run_command.simps)
  then show "\<exists>cl. exec (run_command (\<lambda>_. CHR ''x'')) ?cs (cmdline_init (\<lambda>_. CHR ''x'')) = Some cl \<and> rep cl ([], [0x20, 0x20ac])"
    using cmdline_edits [of ?cs "\<lambda>_. CHR ''x''"] by (simp add: code_point_def word_len_def del: rep.simps run_command.simps exec.simps all_ok.simps)
next
  let ?cs = "[Set_Text (replicate 127 0x61), Insert 0x62]" and ?init = "cmdline_init (\<lambda>_. CHR ''x'')"
  have cp: "list_all code_point (replicate 127 0x61)" by (simp add: list_all_iff code_point_def)
  obtain cl where cl: "run_command (\<lambda>_. CHR ''x'') (Set_Text (replicate 127 0x61)) ?init = Some cl"
    "rep cl (replicate 127 0x61, [])"
    using set_text_rep [OF init_rep cp] unfolding run_command.simps by blast
  have "cl_blen cl = 127" using cl(2) length_utf8_ascii [of 127] by simp
  moreover have "cl_size cl = 128"
    using cl(1) length_utf8_ascii [of 127] by (auto simp: cmdline_set_text_def bind_eq_Some_conv Let_def cmdline_init_def)
  ultimately have "\<not> all_ok (run_command (\<lambda>_. CHR ''x'')) command_fits ?cs ?init"
    using cl(1) by (simp add: u_char_size_def del: run_command.simps)
  then show "exec (run_command (\<lambda>_. CHR ''x'')) ?cs ?init = None"
    using cmdline_edits [of ?cs "\<lambda>_. CHR ''x''"] cp by (simp add: code_point_def del: run_command.simps exec.simps all_ok.simps)
qed

text \<open>
  Inserting a character that fills the buffer exactly writes behind it: the terminator is moved to the byte after the last
  one, since the test for growing forgets it.
\<close>

theorem cmdline_insert_overflows:
  assumes "rep cl z" and "cl_blen cl + u_char_size u = cl_size cl"
  shows "cmdline_insert_ch junk u cl = None"
  using insert_overflow assms by (cases z) blast

theorem cmdline_insert_overflows_witness:
  "\<exists>cl. cmdline_set_text (\<lambda>_. CHR ''x'') (utf8 (replicate 127 0x61)) (cmdline_init (\<lambda>_. CHR ''x'')) = Some cl \<and>
     cmdline_insert_ch (\<lambda>_. CHR ''x'') 0x62 cl = None"
proof -
  have ok: "list_all code_point (replicate 127 0x61)" by (simp add: list_all_iff code_point_def)
  obtain cl where cl: "cmdline_set_text (\<lambda>_. CHR ''x'') (utf8 (replicate 127 0x61)) (cmdline_init (\<lambda>_. CHR ''x'')) = Some cl"
    "rep cl (replicate 127 0x61, [])" using set_text_rep [OF init_rep ok] by blast
  have len: "length (utf8 (replicate 127 0x61)) = 127"
    using length_concat [of "map u_set_char_raw (replicate 127 0x61)"] by (simp add: utf8_def u_char_size_def sum_list_replicate)
  then have "cl_size cl = 128"
    using cl(1) unfolding cmdline_set_text_def by (auto simp: bind_eq_Some_conv Let_def cmdline_init_def)
  then show ?thesis using cmdline_insert_overflows [OF cl(2), of "0x62"] cl len by (auto simp: u_char_size_def)
qed

end
