(* ===== verification/Gbuf.thy ===== *)
theory Gbuf
  imports Uchar Memory Simulation
begin

text \<open>
  The growing buffers of \<^verbatim>\<open>src/app/gbuf.c\<close>. The memory is a list of bytes; an unallocated buffer is the shared array of one byte.
  Formatting is the C library's: the formatted text is an argument. The theory proves that every operation appends what its
  name says and keeps the terminator inside of the allocation, and where the copy for display writes behind it.
\<close>

section \<open>The model\<close>

record gbuf =
  gb_buffer :: string
  gb_alloc :: nat
  gb_len :: nat

definition gbuf_init :: gbuf where
  "gbuf_init = \<lparr>gb_buffer = [CHR 0x00], gb_alloc = 0, gb_len = 0\<rparr>"

definition gbuf_avail :: "gbuf \<Rightarrow> nat" where
  "gbuf_avail buf = (if gb_alloc buf \<noteq> 0 then gb_alloc buf - gb_len buf - 1 else 0)"

definition gbuf_clear :: "gbuf \<Rightarrow> gbuf option" where
  "gbuf_clear buf = do { m \<leftarrow> mem_set 0 [CHR 0x00] (gb_buffer buf); Some (buf\<lparr>gb_len := 0, gb_buffer := m\<rparr>) }"

definition gbuf_grow :: "(nat \<Rightarrow> char) \<Rightarrow> nat \<Rightarrow> gbuf \<Rightarrow> gbuf option" where
  "gbuf_grow junk extra buf =
     (let align = 64 - 1;
          alloc = 64 * ((gb_len buf + extra + 1 + align) div 64)
      in if alloc > gb_alloc buf
         then do { m \<leftarrow> mem_set (gb_len buf) [CHR 0x00] (mem_grow junk alloc (if gb_alloc buf = 0 then [] else gb_buffer buf));
                   Some (buf\<lparr>gb_alloc := alloc, gb_buffer := m\<rparr>) }
         else Some buf)"

definition gbuf_used :: "nat \<Rightarrow> gbuf \<Rightarrow> gbuf option" where
  "gbuf_used n buf =
     do { m \<leftarrow> mem_set (gb_len buf + n) [CHR 0x00] (gb_buffer buf); Some (buf\<lparr>gb_len := gb_len buf + n, gb_buffer := m\<rparr>) }"

definition gbuf_free :: "gbuf \<Rightarrow> gbuf" where
  "gbuf_free buf = gbuf_init"

text \<open>Bytes stored behind the content.\<close>

definition gbuf_store :: "string \<Rightarrow> gbuf \<Rightarrow> gbuf option" where
  "gbuf_store bs buf = do { m \<leftarrow> mem_set (gb_len buf) bs (gb_buffer buf); Some (buf\<lparr>gb_buffer := m\<rparr>) }"

definition gbuf_add_ch :: "(nat \<Rightarrow> char) \<Rightarrow> char \<Rightarrow> gbuf \<Rightarrow> gbuf option" where
  "gbuf_add_ch junk ch buf = do { buf \<leftarrow> gbuf_grow junk 1 buf; buf \<leftarrow> gbuf_store [ch] buf; gbuf_used 1 buf }"

definition gbuf_add_uchar :: "(nat \<Rightarrow> char) \<Rightarrow> uchar \<Rightarrow> gbuf \<Rightarrow> gbuf option" where
  "gbuf_add_uchar junk u buf =
     do { buf \<leftarrow> gbuf_grow junk 4 buf; buf \<leftarrow> gbuf_store (u_set_char u) buf; gbuf_used (length (u_set_char u)) buf }"

definition gbuf_add_bytes :: "(nat \<Rightarrow> char) \<Rightarrow> string \<Rightarrow> gbuf \<Rightarrow> gbuf option" where
  "gbuf_add_bytes junk dat buf =
     do { buf \<leftarrow> gbuf_grow junk (length dat) buf; buf \<leftarrow> gbuf_store dat buf; gbuf_used (length dat) buf }"

definition gbuf_add_str :: "(nat \<Rightarrow> char) \<Rightarrow> string \<Rightarrow> gbuf \<Rightarrow> gbuf option" where
  "gbuf_add_str junk str buf =
     (if length str = 0 then Some buf
      else do { buf \<leftarrow> gbuf_grow junk (length str) buf; buf \<leftarrow> gbuf_store str buf; gbuf_used (length str) buf })"

definition gbuf_set :: "(nat \<Rightarrow> char) \<Rightarrow> char \<Rightarrow> nat \<Rightarrow> gbuf \<Rightarrow> gbuf option" where
  "gbuf_set junk c n buf =
     do { buf \<leftarrow> gbuf_grow junk n buf; buf \<leftarrow> gbuf_store (replicate n c) buf; gbuf_used n buf }"

text \<open>\<open>vsnprintf\<close> of the formatted text \<open>s\<close> into \<open>n\<close> bytes stores at most \<open>n - 1\<close> of them and a terminator, or nothing at all.\<close>

definition vsnprintf :: "string \<Rightarrow> nat \<Rightarrow> string" where
  "vsnprintf s n = (if n = 0 then [] else take (n - 1) s @ [CHR 0x00])"

definition gbuf_vaddf :: "(nat \<Rightarrow> char) \<Rightarrow> string \<Rightarrow> gbuf \<Rightarrow> gbuf option" where
  "gbuf_vaddf junk s buf =
     do { bug_unless (gb_alloc buf = 0 \<or> gb_len buf \<le> gb_alloc buf);
          buf \<leftarrow> gbuf_store (vsnprintf s (gb_alloc buf - gb_len buf)) buf;
          buf \<leftarrow> (if length s > gbuf_avail buf
                   then do { buf \<leftarrow> gbuf_grow junk (length s) buf;
                             gbuf_store (vsnprintf s (gb_alloc buf - gb_len buf)) buf }
                   else Some buf);
          gbuf_used (length s) buf }"

definition gbuf_steal :: "gbuf \<Rightarrow> string \<times> gbuf" where
  "gbuf_steal buf = (if gb_alloc buf = 0 then [CHR 0x00] else gb_buffer buf, gbuf_init)"

text \<open>\<open>clipped\<close> is \<open>clipped_text_internal\<close>, \<open>wcw\<close> and \<open>utf\<close> are the width of a character and \<open>using_utf8\<close>.\<close>

definition gbuf_mark_clipped_text ::
    "(nat \<Rightarrow> char) \<Rightarrow> (uchar \<Rightarrow> int) \<Rightarrow> bool \<Rightarrow> string \<Rightarrow> gbuf \<Rightarrow> (gbuf \<times> int) option" where
  "gbuf_mark_clipped_text junk wcw utf clipped buf =
     do { s \<leftarrow> c_str (gb_buffer buf);
          buf_width \<leftarrow> u_str_width wcw utf s;
          mark_width \<leftarrow> u_str_width wcw utf clipped;
          let clipped_mark_len = min mark_width buf_width;
          (len, skip) \<leftarrow> u_skip_chars wcw utf s (buf_width - clipped_mark_len) False;
          buf \<leftarrow> gbuf_grow junk (length clipped) (buf\<lparr>gb_len := len\<rparr>);
          (out, w) \<leftarrow> u_copy_chars wcw utf clipped clipped_mark_len;
          buf \<leftarrow> gbuf_store out buf;
          buf \<leftarrow> gbuf_used (length out) buf;
          Some (buf, skip) }"

definition gbuf_add_ustr ::
    "(nat \<Rightarrow> char) \<Rightarrow> (uchar \<Rightarrow> int) \<Rightarrow> bool \<Rightarrow> string \<Rightarrow> string \<Rightarrow> int \<Rightarrow> gbuf \<Rightarrow> (gbuf \<times> int) option" where
  "gbuf_add_ustr junk wcw utf clipped src width buf =
     do { buf \<leftarrow> gbuf_grow junk (length src) buf;
          (out, width) \<leftarrow> u_copy_chars wcw utf src width;
          buf \<leftarrow> gbuf_store out buf;
          buf \<leftarrow> gbuf_used (length out) buf;
          c \<leftarrow> c_at src (length out);
          if c \<noteq> CHR 0x00
          then do { bug_unless (width \<ge> 0);
                    buf \<leftarrow> gbuf_set junk (CHR '' '') (nat width) buf;
                    gbuf_mark_clipped_text junk wcw utf clipped buf }
          else Some (buf, width) }"

section \<open>The content\<close>

text \<open>The content and its terminator lie in the allocation.\<close>

definition holds :: "gbuf \<Rightarrow> string \<Rightarrow> bool" where
  "holds buf s \<longleftrightarrow> gb_len buf = length s \<and> (\<exists>w. gb_buffer buf = s @ CHR 0x00 # w) \<and>
     (if gb_alloc buf = 0 then gb_buffer buf = [CHR 0x00] else length (gb_buffer buf) = gb_alloc buf)"

lemma init_holds: "holds gbuf_init []"
  by (simp add: holds_def gbuf_init_def)

lemma grow_holds:
  assumes "holds buf s"
  shows "\<exists>buf'. gbuf_grow junk extra buf = Some buf' \<and> holds buf' s \<and> gb_len buf' + extra < gb_alloc buf'"
proof -
  let ?alloc = "64 * ((gb_len buf + extra + 1 + (64 - 1)) div 64)"
  have room: "gb_len buf + extra < ?alloc" by simp
  obtain w where w: "gb_buffer buf = s @ CHR 0x00 # w" using assms by (auto simp: holds_def)
  show ?thesis
  proof (cases "?alloc > gb_alloc buf")
    case False
    then show ?thesis using assms room by (auto simp: gbuf_grow_def Let_def)
  next
    case True
    let ?m = "mem_grow junk ?alloc (if gb_alloc buf = 0 then [] else gb_buffer buf)"
    have len: "length ?m = ?alloc" using True assms by (auto simp: length_mem_grow holds_def)
    have "?m = s @ drop (length s) ?m"
      using assms True w room by (cases s) (auto simp: mem_grow_def holds_def)
    moreover have "drop (length s) ?m \<noteq> []" using len room assms by (simp add: holds_def)
    ultimately obtain c v where cv: "?m = s @ c # v" by (metis neq_Nil_conv)
    have "mem_set (gb_len buf) [CHR 0x00] ?m = Some (s @ CHR 0x00 # v)"
      using mem_set_append [of "[c]" "[CHR 0x00]" s v] assms cv by (simp add: holds_def)
    then show ?thesis using True assms room len cv by (auto simp: gbuf_grow_def Let_def holds_def)
  qed
qed

lemma store_holds:
  assumes "holds buf s" "length bs + length s < gb_alloc buf"
  shows "\<exists>buf'. (gbuf_store bs buf \<bind> gbuf_used (length bs)) = Some buf' \<and> holds buf' (s @ bs)"
proof -
  obtain w where w: "gb_buffer buf = s @ CHR 0x00 # w" "length (gb_buffer buf) = gb_alloc buf"
    using assms by (auto simp: holds_def split: if_splits)
  have "length bs < length (CHR 0x00 # w)" using w assms(2) by simp
  then have 1: "CHR 0x00 # w = take (length bs) (CHR 0x00 # w) @ (CHR 0x00 # w) ! length bs # drop (Suc (length bs)) (CHR 0x00 # w)"
    using id_take_nth_drop by blast
  let ?y = "take (length bs) (CHR 0x00 # w)" and ?v = "drop (Suc (length bs)) (CHR 0x00 # w)"
  have "mem_set (gb_len buf) bs (gb_buffer buf) = Some (s @ bs @ (CHR 0x00 # w) ! length bs # ?v)"
    using mem_set_append [of ?y bs s "(CHR 0x00 # w) ! length bs # ?v"] assms w 1 by (simp add: holds_def)
  moreover have "mem_set (gb_len buf + length bs) [CHR 0x00] (s @ bs @ (CHR 0x00 # w) ! length bs # ?v) = Some (s @ bs @ CHR 0x00 # ?v)"
    using mem_set_append [of "[(CHR 0x00 # w) ! length bs]" "[CHR 0x00]" "s @ bs" ?v] assms by (simp add: holds_def)
  moreover have "length (s @ bs @ CHR 0x00 # ?v) = gb_alloc buf" using w assms(2) by simp
  ultimately show ?thesis using assms by (auto simp: gbuf_store_def gbuf_used_def holds_def)
qed

lemma append_holds:
  assumes "holds buf s" "length bs \<le> extra"
  shows "\<exists>buf'. (gbuf_grow junk extra buf \<bind> (\<lambda>buf. gbuf_store bs buf \<bind> gbuf_used (length bs))) = Some buf' \<and> holds buf' (s @ bs)"
proof -
  obtain buf1 where g: "gbuf_grow junk extra buf = Some buf1" "holds buf1 s" "gb_len buf1 + extra < gb_alloc buf1"
    using grow_holds [OF assms(1)] by blast
  have "length bs + length s < gb_alloc buf1" using g(2,3) assms(2) by (simp add: holds_def)
  then show ?thesis using store_holds [OF g(2)] g(1) by simp
qed

lemma u_set_char_length: "length (u_set_char u) \<le> 4"
  by (simp add: u_set_char_def u_char_size_def)

lemma clear_holds: "holds buf s \<Longrightarrow> \<exists>buf'. gbuf_clear buf = Some buf' \<and> holds buf' []"
  by (cases s) (auto simp: gbuf_clear_def mem_set_def overwrite_def holds_def)

text \<open>What \<open>vsnprintf\<close> stores in the free part.\<close>

lemma vsnprintf_store:
  assumes "holds buf s"
  shows "\<exists>buf'. gbuf_store (vsnprintf t (gb_alloc buf - gb_len buf)) buf = Some buf' \<and> gb_alloc buf' = gb_alloc buf \<and> gb_len buf' = gb_len buf \<and>
     (if length t \<le> gbuf_avail buf \<and> gb_alloc buf \<noteq> 0 then \<exists>w. gb_buffer buf' = (s @ t) @ CHR 0x00 # w \<and> length (gb_buffer buf') = gb_alloc buf
      else \<exists>w. gb_buffer buf' = s @ w \<and> w \<noteq> [] \<and> (if gb_alloc buf = 0 then gb_buffer buf' = [CHR 0x00] else length (gb_buffer buf') = gb_alloc buf))"
proof (cases "gb_alloc buf = 0")
  case True
  then show ?thesis using assms by (cases s) (auto simp: gbuf_store_def vsnprintf_def mem_set_def overwrite_def holds_def)
next
  case False
  let ?n = "gb_alloc buf - gb_len buf" let ?v = "vsnprintf t ?n"
  obtain w where w: "gb_buffer buf = s @ CHR 0x00 # w" "length (gb_buffer buf) = gb_alloc buf" "gb_len buf = length s"
    using assms False by (auto simp: holds_def)
  have n: "?n = length (CHR 0x00 # w)" using w by simp
  have v: "?v = take (?n - 1) t @ [CHR 0x00]" using n by (simp add: vsnprintf_def)
  have le: "length ?v \<le> length (CHR 0x00 # w)" using n unfolding v by simp
  have "mem_set (gb_len buf) ?v (gb_buffer buf) = Some (s @ ?v @ drop (length ?v) (CHR 0x00 # w))"
    using mem_set_append [of "take (length ?v) (CHR 0x00 # w)" ?v s "drop (length ?v) (CHR 0x00 # w)"] le w(1,3)
      append_take_drop_id [of "length ?v" "CHR 0x00 # w"] by simp
  moreover have "length (s @ ?v @ drop (length ?v) (CHR 0x00 # w)) = gb_alloc buf" using le w by simp
  moreover have "?v = t @ [CHR 0x00]" if "length t \<le> gbuf_avail buf" using that v by (simp add: gbuf_avail_def False)
  ultimately show ?thesis using False by (auto simp: gbuf_store_def v)
qed

lemma grow_prefix:
  assumes "gb_len buf = length s" "gb_buffer buf = s @ w" "w \<noteq> []"
    "if gb_alloc buf = 0 then gb_buffer buf = [CHR 0x00] else length (gb_buffer buf) = gb_alloc buf"
    and True: "64 * ((gb_len buf + extra + 1 + (64 - 1)) div 64) > gb_alloc buf"
  shows "gbuf_grow junk extra buf = gbuf_grow junk extra (buf\<lparr>gb_buffer := s @ CHR 0x00 # tl w\<rparr>)"
proof -
  obtain c v where w: "w = c # v" using assms(3) by (cases w) auto
  let ?alloc = "64 * ((gb_len buf + extra + 1 + (64 - 1)) div 64)"
  have "mem_set (gb_len buf) [CHR 0x00] (mem_grow junk ?alloc (if gb_alloc buf = 0 then [] else s @ c # v)) =
      mem_set (gb_len buf) [CHR 0x00] (mem_grow junk ?alloc (if gb_alloc buf = 0 then [] else s @ CHR 0x00 # v))"
  proof (cases "gb_alloc buf = 0")
    case False
    then have "length (s @ c # v) < ?alloc" using assms True w by simp
    then show ?thesis using False mem_set_append [of "[c]" "[CHR 0x00]" s "v @ map junk [length (s @ c # v)..<?alloc]"]
        mem_set_append [of "[CHR 0x00]" "[CHR 0x00]" s "v @ map junk [length (s @ c # v)..<?alloc]"] assms(1)
      by (simp add: mem_grow_def)
  qed simp
  then show ?thesis using True assms(2) w by (cases "gb_alloc buf = 0") (simp_all add: gbuf_grow_def Let_def)
qed

lemma vaddf_holds:
  assumes "holds buf s"
  shows "\<exists>buf'. gbuf_vaddf junk t buf = Some buf' \<and> holds buf' (s @ t)"
proof -
  have ok: "gb_alloc buf = 0 \<or> gb_len buf \<le> gb_alloc buf" using assms by (auto simp: holds_def split: if_splits)
  obtain buf1 where st: "gbuf_store (vsnprintf t (gb_alloc buf - gb_len buf)) buf = Some buf1"
    and f: "gb_alloc buf1 = gb_alloc buf" "gb_len buf1 = gb_len buf"
    and c: "if length t \<le> gbuf_avail buf \<and> gb_alloc buf \<noteq> 0 then \<exists>w. gb_buffer buf1 = (s @ t) @ CHR 0x00 # w \<and> length (gb_buffer buf1) = gb_alloc buf
      else \<exists>w. gb_buffer buf1 = s @ w \<and> w \<noteq> [] \<and> (if gb_alloc buf = 0 then gb_buffer buf1 = [CHR 0x00] else length (gb_buffer buf1) = gb_alloc buf)"
    using vsnprintf_store [OF assms, of t] by blast
  have len: "gb_len buf = length s" using assms by (simp add: holds_def)
  have avail: "gbuf_avail buf1 = gbuf_avail buf" using f by (simp add: gbuf_avail_def)
  have used: "\<exists>buf3. gbuf_used (length t) b = Some buf3 \<and> holds buf3 (s @ t)"
    if b: "gb_buffer b = (s @ t) @ CHR 0x00 # w" "gb_len b = length s" "if gb_alloc b = 0 then gb_buffer b = [CHR 0x00] else length (gb_buffer b) = gb_alloc b" for b w
    using mem_set_append [of "[CHR 0x00]" "[CHR 0x00]" "s @ t" w] b by (auto simp: gbuf_used_def holds_def)
  show ?thesis
  proof (cases "length t > gbuf_avail buf")
    case False
    have "\<exists>w. gb_buffer buf1 = (s @ t) @ CHR 0x00 # w \<and> (if gb_alloc buf1 = 0 then gb_buffer buf1 = [CHR 0x00] else length (gb_buffer buf1) = gb_alloc buf1)"
    proof (cases "gb_alloc buf = 0")
      case True
      then have "t = []" "s = []" using False assms by (auto simp: gbuf_avail_def holds_def append_eq_Cons_conv)
      then show ?thesis using c True f by (auto split: if_splits)
    qed (use c False f in auto)
    then show ?thesis using used [of buf1] st ok False f len avail by (auto simp: gbuf_vaddf_def)
  next
    case True
    obtain w where w: "gb_buffer buf1 = s @ w" "w \<noteq> []" "if gb_alloc buf1 = 0 then gb_buffer buf1 = [CHR 0x00] else length (gb_buffer buf1) = gb_alloc buf1"
      using c True unfolding f(1) by auto
    have h1: "holds (buf1\<lparr>gb_buffer := s @ CHR 0x00 # tl w\<rparr>) s" using w f len by (cases w) (auto simp: holds_def append_eq_Cons_conv Cons_eq_append_conv)
    obtain buf2 where g: "gbuf_grow junk (length t) (buf1\<lparr>gb_buffer := s @ CHR 0x00 # tl w\<rparr>) = Some buf2" "holds buf2 s"
      "gb_len buf2 + length t < gb_alloc buf2" using grow_holds [OF h1] by blast
    have grown: "64 * ((gb_len buf1 + length t + 1 + (64 - 1)) div 64) > gb_alloc buf1"
    proof -
      have "gb_alloc buf1 \<le> gb_len buf1 + length t" using True f unfolding gbuf_avail_def by (simp split: if_splits)
      also have "\<dots> < 64 * ((gb_len buf1 + length t + 1 + (64 - 1)) div 64)" by simp
      finally show ?thesis .
    qed
    have "gbuf_grow junk (length t) buf1 = Some buf2"
      using grow_prefix [of buf1 s w "length t" junk] w f len g(1) grown by simp
    moreover obtain buf3 where st3: "gbuf_store (vsnprintf t (gb_alloc buf2 - gb_len buf2)) buf2 = Some buf3"
      "gb_alloc buf3 = gb_alloc buf2" "gb_len buf3 = gb_len buf2" "\<exists>w. gb_buffer buf3 = (s @ t) @ CHR 0x00 # w \<and> length (gb_buffer buf3) = gb_alloc buf2"
    proof -
      have "length t \<le> gbuf_avail buf2 \<and> gb_alloc buf2 \<noteq> 0" using g(3) by (auto simp: gbuf_avail_def)
      then show ?thesis using that vsnprintf_store [OF g(2), of t] by auto
    qed
    moreover have "gb_alloc buf2 \<noteq> 0" using g(3) by simp
    ultimately show ?thesis
    proof -
      assume grow: "gbuf_grow junk (length t) buf1 = Some buf2"
      obtain w3 where "gb_buffer buf3 = (s @ t) @ CHR 0x00 # w3" "gb_len buf3 = length s"
        "if gb_alloc buf3 = 0 then gb_buffer buf3 = [CHR 0x00] else length (gb_buffer buf3) = gb_alloc buf3"
        using st3 g(2,3) by (auto simp: holds_def)
      then obtain buf4 where "gbuf_used (length t) buf3 = Some buf4" "holds buf4 (s @ t)" using used by blast
      moreover have "gbuf_vaddf junk t buf = gbuf_used (length t) buf3"
        using ok st grow st3(1) True avail by (auto simp: gbuf_vaddf_def)
      ultimately show ?thesis by simp
    qed
  qed
qed

text \<open>Copying a text for display that fits the width, without control characters.\<close>

definition displayable :: "uchar \<Rightarrow> bool" where
  "displayable u \<longleftrightarrow> code_point u \<and> 0x20 \<le> u"

definition text_width :: "(uchar \<Rightarrow> int) \<Rightarrow> bool \<Rightarrow> uchar list \<Rightarrow> int" where
  "text_width wcw utf us = sum_list (map (u_char_width wcw utf) us)"

lemma text_width_nonneg: "0 \<le> text_width wcw utf us"
  by (induction us) (simp_all add: text_width_def u_char_width_nonneg)

lemma copy_text:
  "list_all displayable us \<Longrightarrow> text_width wcw utf us \<le> w \<Longrightarrow>
   u_copy_chars wcw utf (utf8 us) w = Some (utf8 us, w - text_width wcw utf us)"
proof (induction us arbitrary: w)
  case Nil
  then show ?case by (subst u_copy_chars.simps) (simp add: text_width_def u_get_char_def byte_at_def c_at_def)
next
  case (Cons u us)
  let ?cw = "u_char_width wcw utf u"
  have u: "code_point u" "0x20 \<le> u" "list_all displayable us"
    using Cons.prems(1) by (auto simp: displayable_def [of u])
  have wd: "text_width wcw utf (u # us) = ?cw + text_width wcw utf us" by (simp add: text_width_def)
  have "0 \<le> ?cw" "0 \<le> text_width wcw utf us" by (simp_all add: u_char_width_nonneg text_width_nonneg)
  then have w: "\<not> w < 0" "\<not> w - ?cw < 0" "text_width wcw utf us \<le> w - ?cw" using Cons.prems(2) wd by linarith+
  have set: "u_set_char u = u_set_char_raw u" using u(1,2) by (auto simp: u_set_char_def code_point_def word_le_nat_alt)
  have "u \<noteq> 0" using u(2) by auto
  then show ?case
    using Cons.IH [OF u(3) w(3)] w(1,2) wd u_get_char_utf8 [OF u(1), of "utf8 us"]
    by (subst u_copy_chars.simps) (simp add: set Let_def)
qed

lemma ustr_holds:
  assumes "holds buf s" "list_all displayable us" "text_width wcw utf us \<le> w"
  shows "\<exists>buf'. gbuf_add_ustr junk wcw utf clipped (utf8 us) w buf = Some (buf', w - text_width wcw utf us) \<and> holds buf' (s @ utf8 us)"
proof -
  have "c_at (utf8 us) (length (utf8 us)) = Some (CHR 0x00)" by (simp add: c_at_def)
  then have "gbuf_add_ustr junk wcw utf clipped (utf8 us) w buf =
      map_option (\<lambda>b. (b, w - text_width wcw utf us))
        (gbuf_grow junk (length (utf8 us)) buf \<bind> (\<lambda>buf. gbuf_store (utf8 us) buf \<bind> gbuf_used (length (utf8 us))))"
    using copy_text [OF assms(2,3)]
    by (cases "gbuf_grow junk (length (utf8 us)) buf") (auto simp: gbuf_add_ustr_def map_conv_bind_option Option.bind_assoc o_def)
  then show ?thesis using append_holds [OF assms(1), of "utf8 us" "length (utf8 us)" junk] by auto
qed

section \<open>Properties\<close>

text \<open>
  \<open>Add_Ustr us w\<close> adds the text \<open>us\<close> for display in \<open>w\<close> columns; \<open>wcw\<close>, \<open>utf\<close> and \<open>clipped\<close> are as above.
\<close>

datatype gbuf_command = Grow nat | Add_Ch char | Add_Uchar uchar | Add_Bytes string | Add_Str string | Add_Ustr "uchar list" int
  | Addf string | Fill char nat | Clear | Free | Steal

fun run_gbuf :: "(nat \<Rightarrow> char) \<Rightarrow> (uchar \<Rightarrow> int) \<Rightarrow> bool \<Rightarrow> string \<Rightarrow> gbuf_command \<Rightarrow> gbuf \<Rightarrow> gbuf option" where
  "run_gbuf junk wcw utf clipped (Grow n) buf = gbuf_grow junk n buf"
| "run_gbuf junk wcw utf clipped (Add_Ch c) buf = gbuf_add_ch junk c buf"
| "run_gbuf junk wcw utf clipped (Add_Uchar u) buf = gbuf_add_uchar junk u buf"
| "run_gbuf junk wcw utf clipped (Add_Bytes bs) buf = gbuf_add_bytes junk bs buf"
| "run_gbuf junk wcw utf clipped (Add_Str s) buf = gbuf_add_str junk s buf"
| "run_gbuf junk wcw utf clipped (Add_Ustr us w) buf = map_option fst (gbuf_add_ustr junk wcw utf clipped (utf8 us) w buf)"
| "run_gbuf junk wcw utf clipped (Addf s) buf = gbuf_vaddf junk s buf"
| "run_gbuf junk wcw utf clipped (Fill c n) buf = gbuf_set junk c n buf"
| "run_gbuf junk wcw utf clipped Clear buf = gbuf_clear buf"
| "run_gbuf junk wcw utf clipped Free buf = Some (gbuf_free buf)"
| "run_gbuf junk wcw utf clipped Steal buf = Some (snd (gbuf_steal buf))"

text \<open>
  What is left out: a text for display with control characters or bytes that are not UTF-8, which are shown as four characters
  and can write behind the allocation (\<open>gbuf_add_ustr_overflow\<close>), and one that does not fit its columns and is clipped.
\<close>

fun gbuf_valid :: "(uchar \<Rightarrow> int) \<Rightarrow> bool \<Rightarrow> gbuf_command \<Rightarrow> bool" where
  "gbuf_valid wcw utf (Add_Ustr us w) \<longleftrightarrow> list_all displayable us \<and> text_width wcw utf us \<le> w"
| "gbuf_valid wcw utf c \<longleftrightarrow> True"

fun content :: "gbuf_command \<Rightarrow> string \<Rightarrow> string" where
  "content (Grow n) s = s"
| "content (Add_Ch c) s = s @ [c]"
| "content (Add_Uchar u) s = s @ u_set_char u"
| "content (Add_Bytes bs) s = s @ bs"
| "content (Add_Str t) s = s @ t"
| "content (Add_Ustr us w) s = s @ utf8 us"
| "content (Addf t) s = s @ t"
| "content (Fill c n) s = s @ replicate n c"
| "content Clear s = []"
| "content Free s = []"
| "content Steal s = []"

lemma gbuf_command_holds:
  "holds buf s \<Longrightarrow> gbuf_valid wcw utf c \<Longrightarrow> \<exists>buf'. run_gbuf junk wcw utf clipped c buf = Some buf' \<and> holds buf' (content c s)"
proof (cases c)
  case (Grow n)
  assume "holds buf s"
  then show ?thesis using grow_holds Grow by fastforce
next
  case (Add_Ch ch)
  assume "holds buf s"
  then show ?thesis using append_holds [of buf s "[ch]" 1 junk] Add_Ch by (simp add: gbuf_add_ch_def)
next
  case (Add_Uchar u)
  assume "holds buf s"
  then show ?thesis using append_holds [of buf s "u_set_char u" 4 junk] Add_Uchar u_set_char_length by (simp add: gbuf_add_uchar_def)
next
  case (Add_Bytes bs)
  assume "holds buf s"
  then show ?thesis using append_holds [of buf s bs "length bs" junk] Add_Bytes by (simp add: gbuf_add_bytes_def)
next
  case (Add_Str bs)
  assume "holds buf s"
  then show ?thesis using append_holds [of buf s bs "length bs" junk] Add_Str by (simp add: gbuf_add_str_def)
next
  case (Addf t)
  assume "holds buf s"
  then show ?thesis using vaddf_holds Addf by simp
next
  case (Fill ch n)
  assume "holds buf s"
  then show ?thesis using append_holds [of buf s "replicate n ch" n junk] Fill by (simp add: gbuf_set_def)
next
  case Clear
  assume "holds buf s"
  then show ?thesis using clear_holds Clear by simp
next
  case Free
  then show ?thesis using init_holds by (simp add: gbuf_free_def)
next
  case Steal
  then show ?thesis using init_holds by (simp add: gbuf_steal_def)
next
  case (Add_Ustr us w)
  assume "holds buf s" "gbuf_valid wcw utf c"
  then show ?thesis using ustr_holds [of buf s us wcw utf w junk clipped] Add_Ustr by auto
qed

interpretation gbuf: simulation "run_gbuf junk wcw utf clipped" content holds "\<lambda>c _. gbuf_valid wcw utf c"
  by unfold_locales (rule gbuf_command_holds)

text \<open>
  C26. A sequence of operations on a growing buffer appends (or clears) what its operations say, whatever fresh memory contains;
  no store leaves the allocation, the content is followed by a terminator from the very first operation on, and stealing the
  buffer yields the content. A text added for display has no control characters and nothing but UTF-8, and it fits its columns;
  all other operations take any arguments.
\<close>

theorem gbuf_appends:
  assumes "list_all (gbuf_valid wcw utf) cs"
  shows "\<exists>buf w. exec (run_gbuf junk wcw utf clipped) cs gbuf_init = Some buf \<and> holds buf (fold content cs []) \<and>
    fst (gbuf_steal buf) = fold content cs [] @ CHR 0x00 # w"
proof -
  obtain buf where buf: "exec (run_gbuf junk wcw utf clipped) cs gbuf_init = Some buf" "holds buf (fold content cs [])"
    using gbuf.sim_exec [OF init_holds all_ok_valid [OF assms]] by blast
  have "\<exists>w. fst (gbuf_steal buf) = fold content cs [] @ CHR 0x00 # w"
    using buf(2) by (cases "gb_alloc buf = 0") (auto simp: gbuf_steal_def holds_def append_eq_Cons_conv)
  with buf show ?thesis by blast
qed

theorem gbuf_appends_witness:
  "list_all (gbuf_valid (\<lambda>_. 1) True) [Add_Str ''a'', Add_Ustr [0x20ac] 4, Fill CHR ''-'' 2] \<and>
   (\<exists>buf w. exec (run_gbuf (\<lambda>_. CHR ''x'') (\<lambda>_. 1) True ''...'') [Add_Str ''a'', Add_Ustr [0x20ac] 4, Fill CHR ''-'' 2] gbuf_init = Some buf \<and>
     fst (gbuf_steal buf) = ''a'' @ utf8 [0x20ac] @ ''--'' @ CHR 0x00 # w)"
proof -
  let ?cs = "[Add_Str ''a'', Add_Ustr [0x20ac] 4, Fill CHR ''-'' 2]"
  have ok: "list_all (gbuf_valid (\<lambda>_. 1) True) ?cs"
    by (simp add: displayable_def code_point_def text_width_def u_char_width_def U_INVALID_MASK_def)
  have c: "fold content ?cs [] = ''a'' @ utf8 [0x20ac] @ ''--''" by (simp add: numeral_2_eq_2)
  from gbuf_appends [OF ok, of "\<lambda>_. CHR ''x''" "''...''"] ok show ?thesis unfolding c append_assoc by blast
qed

lemma copy_invalid:
  "4 * int n \<le> w \<Longrightarrow> u_copy_chars wcw True (replicate n (CHR 0xFF)) w = Some (concat (replicate n ''<ff>''), w - 4 * int n)"
proof (induction n arbitrary: w)
  case 0
  then show ?case by (subst u_copy_chars.simps) simp
next
  case (Suc n)
  have get: "u_get_char (replicate (Suc n) (CHR 0xFF)) = Some (0x100000ff, 1)"
    by (simp add: u_get_char_def Let_def len_tab_eq U_INVALID_MASK_def)
  have wd: "u_char_width wcw True 0x100000ff = 4"
    by (simp add: u_char_width_def U_INVALID_MASK_def)
  have set: "u_set_char 0x100000ff = ''<ff>''" by code_simp
  have "u_copy_chars wcw True (replicate (Suc n) (CHR 0xFF)) w =
      map_option (\<lambda>(r, w''). (''<ff>'' @ r, w'')) (u_copy_chars wcw True (replicate n (CHR 0xFF)) (w - 4))"
    using Suc.prems by (subst u_copy_chars.simps, subst get) (simp add: wd set Let_def map_option_case split: option.splits)
  then show ?case using Suc.IH [of "w - 4"] Suc.prems by simp
qed

text \<open>
  Adding a string for display reserves as many bytes as the string has, although a byte that is not UTF-8 is shown as four:
  22 such bytes in an empty buffer are enough to write behind the allocation.
\<close>

theorem gbuf_add_ustr_overflow:
  assumes "22 \<le> n" and "4 * int n \<le> width"
  shows "gbuf_add_ustr junk wcw True clipped (replicate n (CHR 0xFF)) width gbuf_init = None"
proof -
  obtain buf where g: "gbuf_grow junk n gbuf_init = Some buf" "holds buf []"
    using grow_holds [OF init_holds] by blast
  have "gb_alloc buf \<le> n + 64" using g(1) by (auto simp: gbuf_grow_def gbuf_init_def Let_def bind_eq_Some_conv split: if_splits)
  then have "length (gb_buffer buf) < 4 * n" using g(2) assms(1) by (auto simp: holds_def split: if_splits)
  moreover have "length (concat (replicate n ''<ff>'')) = 4 * n" by (induction n) simp_all
  ultimately have "gbuf_store (concat (replicate n ''<ff>'')) buf = None" by (simp add: gbuf_store_def mem_set_def)
  then show ?thesis using g(1) copy_invalid [OF assms(2)] by (simp add: gbuf_add_ustr_def)
qed

theorem gbuf_add_ustr_overflow_witness:
  "gbuf_add_ustr (\<lambda>_. CHR ''x'') (\<lambda>_. 1) True ''...'' (replicate 25 (CHR 0xFF)) 100 gbuf_init = None"
  by (rule gbuf_add_ustr_overflow) simp_all

end
