(* ===== verification/History.thy ===== *)
theory History
  imports Track_Info
begin

text \<open>
  The input history of \<^verbatim>\<open>src/app/history.c\<close>. An entry is a pair of its address and its text; the entries are a list, newest first.
  Following the search position to an entry that has been freed is a fault. Reading and writing the file is left out except
  for what becomes of the lines.
\<close>

section \<open>The model\<close>

type_synonym history_entry = "nat \<times> string"

record history =
  hi_head :: "history_entry list"
  hi_search_pos :: "nat option"
  hi_max_lines :: int
  hi_lines :: int

definition history_add_tail :: "history \<Rightarrow> nat \<times> string \<Rightarrow> history" where
  "history_add_tail h new =
     (if hi_lines h < hi_max_lines h then h\<lparr>hi_head := hi_head h @ [new], hi_lines := hi_lines h + 1\<rparr> else h)"

text \<open>The lines of the file, with the addresses of their entries.\<close>

definition history_load :: "history_entry list \<Rightarrow> int \<Rightarrow> history" where
  "history_load lines max_lines =
     foldl history_add_tail \<lparr>hi_head = [], hi_search_pos = None, hi_max_lines = max_lines, hi_lines = 0\<rparr> lines"

text \<open>What \<open>history_save\<close> writes.\<close>

definition history_save :: "history \<Rightarrow> string" where
  "history_save h = concat (map (\<lambda>(a, s). s @ [CHR 0x0A]) (hi_head h))"

text \<open>The loop that removes identical lines: what is kept, and \<open>lines\<close>.\<close>

fun remove_identical :: "string \<Rightarrow> history_entry list \<Rightarrow> int \<Rightarrow> history_entry list \<times> int" where
  "remove_identical s [] n = ([], n)"
| "remove_identical s ((a, t) # es) n =
     (if strcmp t s = 0 then remove_identical s es (n - 1)
      else let (es', n) = remove_identical s es n in ((a, t) # es', n))"

definition history_add_line :: "nat \<Rightarrow> string \<Rightarrow> history \<Rightarrow> history" where
  "history_add_line new line h =
     (let (es, n) = remove_identical line (hi_head h) (hi_lines h + 1);
          es = (new, line) # es
      in if n > hi_max_lines h then h\<lparr>hi_head := butlast es, hi_lines := n - 1\<rparr>
         else h\<lparr>hi_head := es, hi_lines := n\<rparr>)"

definition history_reset_search :: "history \<Rightarrow> history" where
  "history_reset_search h = h\<lparr>hi_search_pos := None\<rparr>"

text \<open>The entries behind and before an address (those before it from the nearest on); none when the address is not in the list.\<close>

fun entries_after :: "nat \<Rightarrow> history_entry list \<Rightarrow> history_entry list option" where
  "entries_after a [] = None"
| "entries_after a (e # es) = (if fst e = a then Some es else entries_after a es)"

definition entries_before :: "nat \<Rightarrow> history_entry list \<Rightarrow> history_entry list option" where
  "entries_before a es = entries_after a (rev es)"

text \<open>The first entry that starts with \<open>txt\<close> (\<open>strncmp\<close> over its length).\<close>

fun search_entries :: "string \<Rightarrow> history_entry list \<Rightarrow> history_entry option" where
  "search_entries txt [] = None"
| "search_entries txt (e # es) = (if take (length txt) (snd e) = txt then Some e else search_entries txt es)"

definition history_search_forward :: "string \<Rightarrow> history \<Rightarrow> (history \<times> string option) option" where
  "history_search_forward txt h =
     do { es \<leftarrow> (case hi_search_pos h of None \<Rightarrow> Some (hi_head h) | Some a \<Rightarrow> entries_after a (hi_head h));
          Some (case search_entries txt es of None \<Rightarrow> (h, None) | Some (a, s) \<Rightarrow> (h\<lparr>hi_search_pos := Some a\<rparr>, Some s)) }"

definition history_search_backward :: "string \<Rightarrow> history \<Rightarrow> (history \<times> string option) option" where
  "history_search_backward txt h =
     (case hi_search_pos h of None \<Rightarrow> Some (h, None)
      | Some a \<Rightarrow>
          do { es \<leftarrow> entries_before a (hi_head h);
               Some (case search_entries txt es of None \<Rightarrow> (h\<lparr>hi_search_pos := None\<rparr>, None)
                     | Some (a, s) \<Rightarrow> (h\<lparr>hi_search_pos := Some a\<rparr>, Some s)) })"

section \<open>The list of lines\<close>

definition lines_of :: "history \<Rightarrow> string list" where
  "lines_of h = map snd (hi_head h)"

text \<open>\<open>lines\<close> counts the entries, there are not more than allowed, addresses are distinct, and the search position is an entry.\<close>

definition history_ok :: "history \<Rightarrow> bool" where
  "history_ok h \<longleftrightarrow> hi_lines h = int (length (hi_head h)) \<and> hi_lines h \<le> hi_max_lines h \<and> distinct (map fst (hi_head h)) \<and>
     (case hi_search_pos h of None \<Rightarrow> True | Some a \<Rightarrow> a \<in> fst ` set (hi_head h))"

lemma remove_identical_eq:
  "remove_identical s es n = (filter (\<lambda>e. snd e \<noteq> s) es, n - int (length es) + int (length (filter (\<lambda>e. snd e \<noteq> s) es)))"
  by (induction s es n rule: remove_identical.induct) (auto simp: strcmp_def)

lemma add_line_eq:
  assumes "history_ok h"
  shows "history_add_line new line h =
    (let es = take (nat (hi_max_lines h)) ((new, line) # filter (\<lambda>e. snd e \<noteq> line) (hi_head h))
     in h\<lparr>hi_head := es, hi_lines := int (length es)\<rparr>)"
proof -
  let ?es = "filter (\<lambda>e. snd e \<noteq> line) (hi_head h)"
  have "int (length ?es) \<le> int (length (hi_head h))" by simp
  also have "\<dots> \<le> hi_max_lines h" using assms by (simp add: history_ok_def)
  finally have le: "int (length ?es) \<le> hi_max_lines h" .
  show ?thesis
  proof (cases "int (length ?es) + 1 > hi_max_lines h")
    case True
    then have "hi_max_lines h = int (length ?es)" using le by simp
    then show ?thesis using assms
      by (simp add: history_add_line_def remove_identical_eq history_ok_def butlast_conv_take)
  next
    case False
    then have "length ((new, line) # ?es) \<le> nat (hi_max_lines h)" by simp
    then have "take (nat (hi_max_lines h)) ((new, line) # ?es) = (new, line) # ?es" by (rule take_all)
    then show ?thesis using assms False
      by (simp add: history_add_line_def remove_identical_eq history_ok_def del: take_Cons')
  qed
qed

lemma entries_after_split:
  "distinct (map fst (xs @ e # ys)) \<Longrightarrow> entries_after (fst e) (xs @ e # ys) = Some ys"
  by (induction xs) auto

lemma entries_after_None: "a \<notin> fst ` set es \<Longrightarrow> entries_after a es = None"
  by (induction es) auto

lemma entries_after_Some: "entries_after a es = Some ys \<Longrightarrow> \<exists>xs e. es = xs @ e # ys \<and> fst e = a"
proof (induction es)
  case (Cons e es)
  show ?case
  proof (cases "fst e = a")
    case True
    then show ?thesis using Cons(2) by (intro exI [of _ "[]"]) simp
  next
    case False
    then obtain xs e' where "es = xs @ e' # ys" "fst e' = a" using Cons by auto
    then show ?thesis by (intro exI [of _ "e # xs"]) simp
  qed
qed simp

lemma entries_before_split:
  assumes "distinct (map fst (xs @ e # ys))"
  shows "entries_before (fst e) (xs @ e # ys) = Some (rev xs)"
proof -
  have "distinct (map fst (rev ys @ e # rev xs))" using assms by (auto simp: rev_map [symmetric])
  from entries_after_split [OF this] show ?thesis by (simp add: entries_before_def)
qed

lemma search_entries_split:
  "search_entries txt es = Some e \<Longrightarrow> \<exists>xs ys. es = xs @ e # ys \<and> take (length txt) (snd e) = txt \<and> (\<forall>x\<in>set xs. take (length txt) (snd x) \<noteq> txt)"
proof (induction es)
  case (Cons x es)
  show ?case
  proof (cases "take (length txt) (snd x) = txt")
    case True
    then show ?thesis using Cons(2) by (intro exI [of _ "[]"] exI [of _ es]) simp
  next
    case False
    then obtain xs ys where "es = xs @ e # ys" "take (length txt) (snd e) = txt" "\<forall>x\<in>set xs. take (length txt) (snd x) \<noteq> txt"
      using Cons by auto
    then show ?thesis using False by (intro exI [of _ "x # xs"] exI [of _ ys]) auto
  qed
qed simp

lemma search_entries_skip:
  "\<lbrakk>\<forall>x\<in>set xs. take (length txt) (snd x) \<noteq> txt; take (length txt) (snd e) = txt\<rbrakk> \<Longrightarrow> search_entries txt (xs @ e # ys) = Some e"
  by (induction xs) auto

lemma search_entries_none: "\<forall>x\<in>set xs. take (length txt) (snd x) \<noteq> txt \<Longrightarrow> search_entries txt xs = None"
  by (induction xs) auto

text \<open>A successful search forwards, as a split of the list.\<close>

lemma forward_split:
  assumes "history_search_forward txt h = Some (h', Some s)"
  shows "\<exists>xs ys zs a. hi_head h = xs @ ys @ (a, s) # zs \<and> h' = h\<lparr>hi_search_pos := Some a\<rparr> \<and> take (length txt) s = txt \<and>
    (\<forall>y\<in>set ys. take (length txt) (snd y) \<noteq> txt) \<and>
    (case hi_search_pos h of None \<Rightarrow> xs = [] | Some b \<Rightarrow> xs \<noteq> [] \<and> fst (last xs) = b)"
proof -
  obtain es a where es: "(case hi_search_pos h of None \<Rightarrow> Some (hi_head h) | Some a \<Rightarrow> entries_after a (hi_head h)) = Some es"
    "search_entries txt es = Some (a, s)" "h' = h\<lparr>hi_search_pos := Some a\<rparr>"
    using assms by (auto simp: history_search_forward_def bind_eq_Some_conv split: option.splits)
  obtain ys zs where yz: "es = ys @ (a, s) # zs" "take (length txt) s = txt" "\<forall>y\<in>set ys. take (length txt) (snd y) \<noteq> txt"
    using search_entries_split [OF es(2)] by auto
  show ?thesis
  proof (cases "hi_search_pos h")
    case None
    then show ?thesis using es yz by (intro exI [of _ "[]"] exI [of _ ys] exI [of _ zs] exI [of _ a]) simp
  next
    case (Some b)
    then obtain xs e where "hi_head h = xs @ e # es" "fst e = b" using es(1) entries_after_Some by fastforce
    then show ?thesis using Some es(3) yz
      by (intro exI [of _ "xs @ [e]"] exI [of _ ys] exI [of _ zs] exI [of _ a]) simp
  qed
qed

section \<open>Properties\<close>

text \<open>
  C27. Adding a line puts it in front, removes the other occurrences of the line and drops the oldest one when there are too many;
  the count of lines stays right and within the limit.
\<close>

theorem history_add_line_correct:
  assumes "history_ok h" and "hi_search_pos h = None" and "new \<notin> fst ` set (hi_head h)"
  shows "lines_of (history_add_line new line h) = take (nat (hi_max_lines h)) (line # removeAll line (lines_of h)) \<and>
    history_ok (history_add_line new line h)"
proof -
  let ?es = "(new, line) # filter (\<lambda>e. snd e \<noteq> line) (hi_head h)"
  have rm: "map snd (filter (\<lambda>e. snd e \<noteq> line) es) = removeAll line (map snd es)" for es :: "history_entry list"
    by (induction es) auto
  have "distinct (map fst (filter (\<lambda>e. snd e \<noteq> line) (hi_head h)))"
    using assms(1) by (simp add: history_ok_def distinct_map_filter)
  then have "distinct (map fst ?es)" using assms(3) by auto
  then have "distinct (map fst (take (nat (hi_max_lines h)) ?es))"
    unfolding take_map [symmetric] by (rule distinct_take)
  moreover have "map snd (take (nat (hi_max_lines h)) ?es) = take (nat (hi_max_lines h)) (line # removeAll line (lines_of h))"
    by (simp add: take_map [symmetric] lines_of_def rm)
  moreover have "0 \<le> hi_max_lines h" using assms(1) by (auto simp: history_ok_def)
  ultimately show ?thesis using assms(2) unfolding add_line_eq [OF assms(1)] Let_def
    by (simp add: lines_of_def history_ok_def del: take_Cons' list.map)
qed

theorem history_add_line_correct_witness:
  "lines_of (history_add_line 3 ''a'' (history_load [(1, ''a''), (2, ''b'')] 2)) = [''a'', ''b'']"
  using history_add_line_correct [of "history_load [(1, ''a''), (2, ''b'')] 2" 3 "''a''"]
  by (simp add: history_load_def history_add_tail_def history_ok_def lines_of_def)

text \<open>
  Searching back and forth: after two hits forwards, a search backwards with the same text returns to the first hit, and one
  more leaves the history.
\<close>

theorem history_search_roundtrip:
  assumes "distinct (map fst (hi_head h))" and "hi_search_pos h = None"
    and "history_search_forward txt h = Some (h1, Some s1)" and "history_search_forward txt h1 = Some (h2, Some s2)"
  shows "history_search_backward txt h2 = Some (h1, Some s1) \<and> history_search_backward txt h1 = Some (h, None)"
proof -
  obtain ys zs a where 1: "hi_head h = ys @ (a, s1) # zs" "h1 = h\<lparr>hi_search_pos := Some a\<rparr>" "take (length txt) s1 = txt"
    "\<forall>y\<in>set ys. take (length txt) (snd y) \<noteq> txt"
    using forward_split [OF assms(3)] assms(2) by auto
  obtain xs2 ys2 zs2 b where 2: "hi_head h1 = xs2 @ ys2 @ (b, s2) # zs2" "h2 = h1\<lparr>hi_search_pos := Some b\<rparr>"
    "\<forall>y\<in>set ys2. take (length txt) (snd y) \<noteq> txt" "xs2 \<noteq> []" "fst (last xs2) = a"
    using forward_split [OF assms(4)] 1(2) by auto
  have head: "hi_head h1 = hi_head h" "hi_head h2 = hi_head h" using 1(2) 2(2) by simp_all
  obtain xs3 where xs3: "xs2 = xs3 @ [last xs2]" using 2(4) by (metis append_butlast_last_id)
  have split2: "hi_head h = xs3 @ last xs2 # (ys2 @ (b, s2) # zs2)" using 2(1) head(1) xs3 by (metis append.assoc append_Cons append_Nil)
  have "last xs2 = (a, s1)"
  proof -
    have "last xs2 \<in> set (hi_head h)" unfolding split2 by simp
    moreover have "(a, s1) \<in> set (hi_head h)" using 1(1) by simp
    ultimately show ?thesis using assms(1) 2(5) by (metis distinct_map fst_conv inj_onD)
  qed
  then have whole: "hi_head h = (xs3 @ (a, s1) # ys2) @ (b, s2) # zs2" using split2 by simp
  have "entries_before b (hi_head h) = Some (rev ys2 @ (a, s1) # rev xs3)"
    using entries_before_split [of "xs3 @ (a, s1) # ys2" "(b, s2)" zs2] assms(1) whole by simp
  moreover have "search_entries txt (rev ys2 @ (a, s1) # rev xs3) = Some (a, s1)"
    using search_entries_skip [of "rev ys2" "txt" "(a, s1)"] 2(3) 1(3) by simp
  ultimately have back2: "history_search_backward txt h2 = Some (h1, Some s1)"
    using 1(2) 2(2) head by (simp add: history_search_backward_def)
  have "entries_before a (hi_head h) = Some (rev ys)"
    using entries_before_split [of ys "(a, s1)" zs] assms(1) 1(1) by simp
  moreover have "search_entries txt (rev ys) = None" using search_entries_none [of "rev ys"] 1(4) by simp
  ultimately have "history_search_backward txt h1 = Some (h, None)"
    using 1(2) assms(2) head by (simp add: history_search_backward_def)
  then show ?thesis using back2 by simp
qed

theorem history_search_roundtrip_witness:
  "history_search_backward ''s'' ((history_load [(5, ''sa''), (2, ''b''), (3, ''sc'')] 9)\<lparr>hi_search_pos := Some 3\<rparr>) =
     Some ((history_load [(5, ''sa''), (2, ''b''), (3, ''sc'')] 9)\<lparr>hi_search_pos := Some 5\<rparr>, Some ''sa'')"
proof -
  let ?h = "history_load [(5, ''sa''), (2, ''b''), (3, ''sc'')] 9"
  have h: "?h = \<lparr>hi_head = [(5, ''sa''), (2, ''b''), (3, ''sc'')], hi_search_pos = None, hi_max_lines = 9, hi_lines = 3\<rparr>"
    by (simp add: history_load_def history_add_tail_def)
  show ?thesis unfolding h
    using history_search_roundtrip [of ?h "''s''" "?h\<lparr>hi_search_pos := Some 5\<rparr>" "''sa''" "?h\<lparr>hi_search_pos := Some 3\<rparr>" "''sc''"]
    by (simp add: h history_search_forward_def)
qed

text \<open>
  A line that was found in the history and is added again while the search position still stands on it, as a click with the
  mouse does, removes the entry under the position: the next search follows a freed entry.
\<close>

theorem history_search_freed:
  assumes "distinct (map fst (hi_head h))" and "history_search_forward txt h = Some (h1, Some s)" and "new \<notin> fst ` set (hi_head h)"
  shows "history_search_forward txt2 (history_add_line new s h1) = None"
proof -
  obtain xs ys zs a where 1: "hi_head h = xs @ ys @ (a, s) # zs" "h1 = h\<lparr>hi_search_pos := Some a\<rparr>"
    using forward_split [OF assms(2)] by blast
  have gone: "a \<notin> fst ` set (filter (\<lambda>e. snd e \<noteq> s) (hi_head h))" using assms(1) 1(1) by (auto simp: image_iff)
  moreover have "new \<noteq> a" using assms(3) 1(1) by auto
  moreover have "set (hi_head (history_add_line new s h1)) \<subseteq> insert (new, s) (set (filter (\<lambda>e. snd e \<noteq> s) (hi_head h)))"
    unfolding history_add_line_def 1(2) by (auto simp: remove_identical_eq Let_def dest: in_set_butlastD split: if_splits)
  ultimately have "a \<notin> fst ` set (hi_head (history_add_line new s h1))" by auto
  moreover have "hi_search_pos (history_add_line new s h1) = Some a"
    by (simp add: history_add_line_def 1(2) remove_identical_eq Let_def)
  ultimately show ?thesis by (simp add: history_search_forward_def entries_after_None)
qed

theorem history_search_freed_witness:
  "history_search_forward ''s'' (history_add_line 3 ''sa'' ((history_load [(5, ''sa''), (2, ''b'')] 9)\<lparr>hi_search_pos := Some 5\<rparr>)) = None"
proof -
  let ?h = "history_load [(5, ''sa''), (2, ''b'')] 9"
  have h: "?h = \<lparr>hi_head = [(5, ''sa''), (2, ''b'')], hi_search_pos = None, hi_max_lines = 9, hi_lines = 2\<rparr>"
    by (simp add: history_load_def history_add_tail_def)
  show ?thesis unfolding h
    using history_search_freed [of ?h "''s''" "?h\<lparr>hi_search_pos := Some 5\<rparr>" "''sa''" 3 "''s''"]
    by (simp add: h history_search_forward_def)
qed

end
