(* ===== verification/Mergesort.thy ===== *)
theory Mergesort
  imports Linked_List Track_Info "HOL-Library.Multiset"
begin

text \<open>
  The bottom-up merge sort of \<^verbatim>\<open>src/app/mergesort.c\<close> and its use for the list of playlists in
  \<^verbatim>\<open>src/app/pl.c\<close>. The code is modelled on the store of \<^verbatim>\<open>list.h\<close>, pointer by pointer. It is shown to compute
  on the nodes of the list what a merge sort on lists does (\<open>merge_run\<close>, \<open>merge_pass\<close>, \<open>merge_passes\<close>), and that one to
  return a sorted permutation that keeps the order of equal elements, for every comparison that meets the
  contract of the locale \<open>comparator\<close>. The counters \<open>psize\<close>, \<open>qsize\<close>, \<open>K\<close> and \<open>count\<close> are natural numbers: as C \<open>int\<close> they
  are exact for lists of up to \<open>2 ^ 30\<close> nodes.
\<close>

section \<open>The model\<close>

text \<open>The first inner loop: \<open>psize\<close> and \<open>q\<close>, at most \<open>k\<close> nodes behind \<open>q\<close>.\<close>

fun run_of :: "links \<Rightarrow> addr \<Rightarrow> nat \<Rightarrow> addr \<Rightarrow> nat \<times> addr" where
  "run_of h unsorted_head 0 q = (0, q)"
| "run_of h unsorted_head (Suc k) q =
     (if q = unsorted_head then (0, q)
      else let (psize, q) = run_of h unsorted_head k (nxt h q) in (Suc psize, q))"

text \<open>The second inner loop, which moves the nodes of two runs; the memory and \<open>q\<close> at its end.\<close>

partial_function (option) merge_loop ::
    "(addr \<Rightarrow> addr \<Rightarrow> int) \<Rightarrow> addr \<Rightarrow> addr \<Rightarrow> links \<Rightarrow> addr \<Rightarrow> nat \<Rightarrow> addr \<Rightarrow> nat \<Rightarrow> (links \<times> addr) option" where
  [code]: "merge_loop cmp unsorted_head sorted_head h p psize q qsize =
     (let qsize = (if q = unsorted_head then 0 else qsize)
      in if psize = 0 \<and> qsize = 0 then Some (h, q)
         else if psize = 0 \<or> (qsize \<noteq> 0 \<and> cmp p q > 0)
         then merge_loop cmp unsorted_head sorted_head (list_add_tail q sorted_head (list_del q h))
                p psize (nxt h q) (qsize - 1)
         else merge_loop cmp unsorted_head sorted_head (list_add_tail p sorted_head (list_del p h))
                (nxt h p) (psize - 1) q qsize)"

text \<open>The loop over the pairs of runs; the memory and the counter.\<close>

partial_function (option) pass_loop ::
    "(addr \<Rightarrow> addr \<Rightarrow> int) \<Rightarrow> addr \<Rightarrow> addr \<Rightarrow> nat \<Rightarrow> links \<Rightarrow> addr \<Rightarrow> nat \<Rightarrow> (links \<times> nat) option" where
  [code]: "pass_loop cmp unsorted_head sorted_head K h p c =
     (let (psize, q) = run_of h unsorted_head K p
      in do { (h, q) \<leftarrow> merge_loop cmp unsorted_head sorted_head h p psize q K;
              if q \<noteq> unsorted_head then pass_loop cmp unsorted_head sorted_head K h q (c + 1)
              else Some (h, c + 1) })"

text \<open>The outer loop; at its end the ring of \<open>sorted_head\<close> is hung on \<open>head\<close>.\<close>

partial_function (option) sort_loop ::
    "(addr \<Rightarrow> addr \<Rightarrow> int) \<Rightarrow> addr \<Rightarrow> addr \<Rightarrow> addr \<Rightarrow> nat \<Rightarrow> links \<Rightarrow> links option" where
  [code]: "sort_loop cmp head unsorted_head sorted_head K h =
     do { (h, count) \<leftarrow> pass_loop cmp unsorted_head sorted_head K h (nxt h unsorted_head) 0;
          if count = 1
          then let h = set_next head (nxt h sorted_head) h;
                   h = set_prev head (prv h sorted_head) h;
                   h = set_next (prv h sorted_head) head h
               in Some (set_prev (nxt h sorted_head) head h)
          else sort_loop cmp head sorted_head unsorted_head (K * 2) h }"

text \<open>\<open>tmp\<close> is the address of the local list head \<^verbatim>\<open>empty\<close>.\<close>

definition list_mergesort :: "(addr \<Rightarrow> addr \<Rightarrow> int) \<Rightarrow> addr \<Rightarrow> addr \<Rightarrow> links \<Rightarrow> links option" where
  "list_mergesort cmp tmp head h =
     (let h = list_init tmp h
      in if list_empty h head then Some h else sort_loop cmp head head tmp 1 h)"

text \<open>The names of the playlists, by the address of their list node.\<close>

type_synonym playlist_names = "addr \<Rightarrow> string"

definition pl_list_compare :: "playlist_names \<Rightarrow> addr \<Rightarrow> addr \<Rightarrow> int" where
  "pl_list_compare pl_name l r = strcmp (pl_name l) (pl_name r)"

definition pl_sort_all :: "playlist_names \<Rightarrow> addr \<Rightarrow> addr \<Rightarrow> links \<Rightarrow> links option" where
  "pl_sort_all pl_name tmp pl_head h = list_mergesort (pl_list_compare pl_name) tmp pl_head h"

section \<open>Merge sort on lists\<close>

text \<open>
  The merge of two runs: \<open>ps\<close> is the first run, \<open>qs\<close> the elements after it, of which at most \<open>qsize\<close> are the
  second run. The result is the merged run and the elements after it.
\<close>

function merge_run :: "('a \<Rightarrow> 'a \<Rightarrow> int) \<Rightarrow> 'a list \<Rightarrow> nat \<Rightarrow> 'a list \<Rightarrow> 'a list \<times> 'a list" where
  "merge_run cmp ps qsize qs =
     (let qsize = (if qs = [] then 0 else qsize)
      in if ps = [] \<and> qsize = 0 then ([], qs)
         else if ps = [] \<or> (qsize \<noteq> 0 \<and> cmp (hd ps) (hd qs) > 0)
         then let (m, r) = merge_run cmp ps (qsize - 1) (tl qs) in (hd qs # m, r)
         else let (m, r) = merge_run cmp (tl ps) qsize qs in (hd ps # m, r))"
  by pat_completeness auto
termination
  by (relation "measure (\<lambda>(cmp, ps, n, qs). length ps + length qs)") (auto simp: neq_Nil_conv split: if_splits)

declare merge_run.simps [simp del]

text \<open>The merge of two lists that it computes: an element of the second list comes first only when it is smaller.\<close>

fun merge :: "('a \<Rightarrow> 'a \<Rightarrow> int) \<Rightarrow> 'a list \<Rightarrow> 'a list \<Rightarrow> 'a list" where
  "merge cmp [] qs = qs"
| "merge cmp ps [] = ps"
| "merge cmp (p # ps) (q # qs) = (if cmp p q > 0 then q # merge cmp (p # ps) qs else p # merge cmp ps (q # qs))"

lemma merge_Nil2 [simp]: "merge cmp ps [] = ps"
  by (cases ps) simp_all

lemma merge_run_eq: "merge_run cmp ps n qs = (merge cmp ps (take n qs), drop n qs)"
proof (induction cmp ps n qs rule: merge_run.induct)
  case (1 cmp ps n qs)
  let ?n = "if qs = [] then 0 else n"
  consider (over) "ps = []" "?n = 0" | (second) "ps = [] \<or> (?n \<noteq> 0 \<and> cmp (hd ps) (hd qs) > 0)" "\<not> (ps = [] \<and> ?n = 0)"
    | (first) "ps \<noteq> []" "\<not> (?n \<noteq> 0 \<and> cmp (hd ps) (hd qs) > 0)" by argo
  then show ?case
  proof cases
    case over
    then show ?thesis by (subst merge_run.simps) (auto split: if_splits)
  next
    case second
    then obtain q qs' n' where q: "qs = q # qs'" "n = Suc n'" by (cases qs; cases n) (auto split: if_splits)
    then have "merge_run cmp ps n' qs' = (merge cmp ps (take n' qs'), drop n' qs')"
      using 1(1) second by simp
    then show ?thesis using second q by (subst merge_run.simps) (cases ps; auto)
  next
    case first
    then obtain p ps' where p: "ps = p # ps'" by (cases ps) auto
    then have "merge_run cmp ps' ?n qs = (merge cmp ps' (take ?n qs), drop ?n qs)"
      using 1(2) [OF refl] first by auto
    then show ?thesis using first p by (subst merge_run.simps) (cases qs; cases n; auto)
  qed
qed

text \<open>One pass with runs of \<open>K = 2 ^ k\<close> elements: the result and \<open>count\<close>.\<close>

function merge_pass :: "('a \<Rightarrow> 'a \<Rightarrow> int) \<Rightarrow> nat \<Rightarrow> 'a list \<Rightarrow> 'a list \<times> nat" where
  "merge_pass cmp k xs =
     (let (m, rest) = merge_run cmp (take (2 ^ k) xs) (2 ^ k) (drop (2 ^ k) xs)
      in if rest = [] then (m, 1)
         else let (m', count) = merge_pass cmp k rest in (m @ m', Suc count))"
  by pat_completeness auto
termination
proof (relation "measure (\<lambda>(cmp, k, xs). length xs)", goal_cases)
  case (2 cmp k xs r m rest)
  then have "rest = drop (2 ^ k) (drop (2 ^ k) xs)" "rest \<noteq> []" by (auto simp: merge_run_eq)
  then show ?case using zero_less_power [of "2 :: nat" k] by (simp only: length_drop drop_drop in_measure split) (cases xs, simp_all)
qed simp

declare merge_pass.simps [simp del]

lemma length_merge [simp]: "length (merge cmp ps qs) = length ps + length qs"
  by (induction cmp ps qs rule: merge.induct) auto

lemma merge_pass_count: "snd (merge_pass cmp k xs) = 1 \<longleftrightarrow> length xs \<le> 2 * 2 ^ k"
  by (subst merge_pass.simps) (auto simp: merge_run_eq case_prod_beta merge_pass.simps [of cmp k "drop _ _"])

lemma length_merge_pass [simp]: "length (fst (merge_pass cmp k xs)) = length xs"
proof (induction cmp k xs rule: merge_pass.induct)
  case (1 cmp k xs)
  then show ?case by (subst merge_pass.simps) (auto simp: merge_run_eq case_prod_beta)
qed

function merge_passes :: "('a \<Rightarrow> 'a \<Rightarrow> int) \<Rightarrow> nat \<Rightarrow> 'a list \<Rightarrow> 'a list" where
  "merge_passes cmp k xs =
     (let (ys, count) = merge_pass cmp k xs in if count = 1 then ys else merge_passes cmp (Suc k) ys)"
  by pat_completeness auto
termination
proof (relation "measure (\<lambda>(cmp, k, xs). length xs - 2 ^ k)", goal_cases)
  case (2 cmp k xs x ys count)
  then have "ys = fst (merge_pass cmp k xs)" "snd (merge_pass cmp k xs) \<noteq> 1" by (metis fst_conv, metis snd_conv)
  then have "length ys = length xs" "\<not> length xs \<le> 2 * 2 ^ k"
    using merge_pass_count [of cmp k xs] by auto
  then show ?case by (simp add: diff_less_mono2)
qed simp

declare merge_passes.simps [simp del]

section \<open>Correctness\<close>

lemma mset_merge: "mset (merge cmp ps qs) = mset ps + mset qs"
  by (induction cmp ps qs rule: merge.induct) auto

text \<open>A list that is cut into sorted runs of \<open>2 ^ k\<close> elements.\<close>

function run_sorted :: "('a \<Rightarrow> 'a \<Rightarrow> int) \<Rightarrow> nat \<Rightarrow> 'a list \<Rightarrow> bool" where
  "run_sorted cmp k xs =
     (if xs = [] then True
      else sorted_wrt (\<lambda>a b. cmp a b \<le> 0) (take (2 ^ k) xs) \<and> run_sorted cmp k (drop (2 ^ k) xs))"
  by pat_completeness auto
termination
  by (relation "measure (\<lambda>(cmp, k, xs). length xs)") auto

declare run_sorted.simps [simp del]

lemma run_sorted_0: "run_sorted cmp 0 xs"
proof (induction xs)
  case (Cons x xs)
  then show ?case by (subst run_sorted.simps) simp
qed (simp add: run_sorted.simps)

lemma run_sorted_append:
  "length m = 2 ^ k \<Longrightarrow> sorted_wrt (\<lambda>a b. cmp a b \<le> 0) m \<Longrightarrow> run_sorted cmp k m' \<Longrightarrow> run_sorted cmp k (m @ m')"
  by (subst run_sorted.simps) simp

lemma run_sorted_short: "length m \<le> 2 ^ k \<Longrightarrow> run_sorted cmp k m \<longleftrightarrow> sorted_wrt (\<lambda>a b. cmp a b \<le> 0) m"
  by (subst run_sorted.simps) (simp add: run_sorted.simps [of cmp k "[]"])

lemma run_sortedD:
  "run_sorted cmp k xs \<Longrightarrow> sorted_wrt (\<lambda>a b. cmp a b \<le> 0) (take (2 ^ k) xs) \<and> run_sorted cmp k (drop (2 ^ k) xs)"
  by (subst (asm) run_sorted.simps) (auto simp: run_sorted.simps [of cmp k "[]"] split: if_splits)

lemma merge_pass_fst:
  "fst (merge_pass cmp k xs) =
     merge cmp (take (2 ^ k) xs) (take (2 ^ k) (drop (2 ^ k) xs)) @
     (if drop (2 ^ Suc k) xs = [] then [] else fst (merge_pass cmp k (drop (2 ^ Suc k) xs)))"
  by (subst merge_pass.simps) (simp add: merge_run_eq case_prod_beta Let_def mult_2)

lemma list_in_runs: "xs = take (2 ^ k) xs @ take (2 ^ k) (drop (2 ^ k) xs) @ drop (2 ^ Suc k) xs"
  using append_take_drop_id [of "2 ^ k" xs] append_take_drop_id [of "2 ^ k" "drop (2 ^ k) xs"] by (simp add: mult_2)

lemma mset_merge_pass: "mset (fst (merge_pass cmp k xs)) = mset xs"
proof (induction xs rule: measure_induct_rule [of length])
  case (less xs)
  have "mset (fst (merge_pass cmp k xs)) = mset (take (2 ^ k) xs) + mset (take (2 ^ k) (drop (2 ^ k) xs)) + mset (drop (2 ^ Suc k) xs)"
  proof (cases "drop (2 ^ Suc k) xs = []")
    case False
    then have "length (drop (2 ^ Suc k) xs) < length xs" by (cases xs) auto
    then show ?thesis using less False by (subst merge_pass_fst) (simp add: mset_merge)
  qed (subst merge_pass_fst, simp add: mset_merge)
  also have "\<dots> = mset xs" by (subst (4) list_in_runs [of xs k]) (simp only: mset_append add.assoc)
  finally show ?case .
qed

lemma set_merge [simp]: "set (merge cmp ps qs) = set ps \<union> set qs"
  using mset_merge [of cmp ps qs] by (metis set_mset_mset set_mset_union)

context comparator
begin

lemma sorted_merge:
  assumes "list_all ok ps" "list_all ok qs" "sorted_wrt (\<lambda>a b. cmp a b \<le> 0) ps" "sorted_wrt (\<lambda>a b. cmp a b \<le> 0) qs"
  shows "sorted_wrt (\<lambda>a b. cmp a b \<le> 0) (merge cmp ps qs)"
  using assms
proof (induction cmp\<equiv>cmp ps qs rule: merge.induct)
  case (3 p ps q qs)
  have ok: "ok p" "ok q" "\<forall>x\<in>set ps \<union> set qs. ok x" using 3(3,4) by (auto simp: list_all_iff)
  show ?case
  proof (cases "cmp p q > 0")
    case True
    then have "cmp q p \<le> 0" using swap_sign [OF ok(1,2)] by simp
    then have "\<forall>x\<in>set (p # ps). cmp q x \<le> 0" using 3(5) ok trans [of q p] by auto
    moreover have "sorted_wrt (\<lambda>a b. cmp a b \<le> 0) (merge cmp (p # ps) qs)"
      using 3(1) [OF True] 3(3-6) by simp
    ultimately show ?thesis using True 3(6) by auto
  next
    case False
    then have "cmp p q \<le> 0" by simp
    then have "\<forall>x\<in>set (q # qs). cmp p x \<le> 0" using 3(6) ok trans [of p q] by auto
    moreover have "sorted_wrt (\<lambda>a b. cmp a b \<le> 0) (merge cmp ps (q # qs))"
      using 3(2) [OF False] 3(3-6) by simp
    ultimately show ?thesis using False 3(5) by auto
  qed
qed simp_all

text \<open>Equal elements keep their order.\<close>

lemma stable_merge:
  assumes "list_all ok ps" "list_all ok qs" "sorted_wrt (\<lambda>a b. cmp a b \<le> 0) ps" "sorted_wrt (\<lambda>a b. cmp a b \<le> 0) qs" "ok x"
  shows "filter (\<lambda>y. cmp x y = 0) (merge cmp ps qs) = filter (\<lambda>y. cmp x y = 0) ps @ filter (\<lambda>y. cmp x y = 0) qs"
  using assms(1-4)
proof (induction cmp\<equiv>cmp ps qs rule: merge.induct)
  case (3 p ps q qs)
  have ok: "ok p" "ok q" "\<forall>y\<in>set ps. ok y" using 3(3,4) by (auto simp: list_all_iff)
  have "filter (\<lambda>y. cmp x y = 0) (p # ps) = []" if "cmp p q > 0" "cmp x q = 0"
  proof -
    have "cmp q p < 0" using that(1) swap_sign [OF ok(1,2)] by simp
    then have "cmp x p < 0" using strict_right [OF assms(5) ok(2,1)] that(2) by simp
    moreover have "cmp p y \<le> 0" if "y \<in> set ps" for y using 3(5) that by simp
    ultimately have "\<forall>y\<in>set (p # ps). cmp x y < 0" using strict_left [OF assms(5) ok(1)] ok(3) by auto
    then show ?thesis by (auto simp: filter_empty_conv)
  qed
  then show ?case using 3 by (auto simp del: filter.simps(2) simp: filter.simps(2) [of _ q] filter.simps(2) [of _ p])
qed simp_all

lemma pass_correct:
  assumes "list_all ok xs" "run_sorted cmp k xs"
  shows "run_sorted cmp (Suc k) (fst (merge_pass cmp k xs)) \<and> mset (fst (merge_pass cmp k xs)) = mset xs \<and>
    (\<forall>x. ok x \<longrightarrow> filter (\<lambda>y. cmp x y = 0) (fst (merge_pass cmp k xs)) = filter (\<lambda>y. cmp x y = 0) xs)"
  using assms
proof (induction xs rule: measure_induct_rule [of length])
  case (less xs)
  define a b r where "a = take (2 ^ k) xs" and "b = take (2 ^ k) (drop (2 ^ k) xs)" and "r = drop (2 ^ Suc k) xs"
  have xs: "xs = a @ b @ r" unfolding a_def b_def r_def by (rule list_in_runs)
  have ok: "list_all ok a" "list_all ok b" "list_all ok r" using less(2) by (simp_all add: xs)
  have runs: "run_sorted cmp k (drop (2 ^ k) xs)" "sorted_wrt (\<lambda>a b. cmp a b \<le> 0) a"
    using run_sortedD [OF less(3)] by (simp_all add: a_def)
  have b: "sorted_wrt (\<lambda>a b. cmp a b \<le> 0) b" and r: "run_sorted cmp k r"
    using run_sortedD [OF runs(1)] by (simp_all add: b_def r_def mult_2)
  have m: "sorted_wrt (\<lambda>a b. cmp a b \<le> 0) (merge cmp a b)" using sorted_merge [OF ok(1,2) runs(2) b] .
  have st: "filter (\<lambda>y. cmp x y = 0) (merge cmp a b) = filter (\<lambda>y. cmp x y = 0) a @ filter (\<lambda>y. cmp x y = 0) b"
    if "ok x" for x using stable_merge [OF ok(1,2) runs(2) b that] .
  have p: "fst (merge_pass cmp k xs) = merge cmp a b @ (if r = [] then [] else fst (merge_pass cmp k r))"
    unfolding a_def b_def r_def by (rule merge_pass_fst)
  show ?case
  proof (cases "r = []")
    case True
    have "length (merge cmp a b) \<le> 2 ^ Suc k" by (simp add: a_def b_def)
    then show ?thesis using True m st by (simp add: p run_sorted_short) (simp add: xs mset_merge)
  next
    case False
    then have len: "length r < length xs" "length (merge cmp a b) = 2 ^ Suc k"
      by (auto simp: a_def b_def r_def intro!: diff_less)
    have "run_sorted cmp (Suc k) (merge cmp a b @ fst (merge_pass cmp k r))"
      using run_sorted_append [OF len(2) m] less(1) [OF len(1) ok(3) r] by blast
    then show ?thesis using False st less(1) [OF len(1) ok(3) r] by (simp add: p) (simp add: xs mset_merge)
  qed
qed

lemma passes_correct:
  assumes "list_all ok xs" "run_sorted cmp k xs"
  shows "sorted_wrt (\<lambda>a b. cmp a b \<le> 0) (merge_passes cmp k xs) \<and> mset (merge_passes cmp k xs) = mset xs \<and>
    (\<forall>x. ok x \<longrightarrow> filter (\<lambda>y. cmp x y = 0) (merge_passes cmp k xs) = filter (\<lambda>y. cmp x y = 0) xs)"
  using assms
proof (induction cmp\<equiv>cmp k xs rule: merge_passes.induct)
  case (1 k xs)
  obtain ys count where p: "merge_pass cmp k xs = (ys, count)" by fastforce
  have c: "run_sorted cmp (Suc k) ys" "mset ys = mset xs"
    "\<forall>x. ok x \<longrightarrow> filter (\<lambda>y. cmp x y = 0) ys = filter (\<lambda>y. cmp x y = 0) xs"
    using pass_correct [OF 1(2,3)] by (simp_all add: p)
  have len: "length ys = length xs" using length_merge_pass [of cmp k xs] by (simp add: p)
  have unf: "merge_passes cmp k xs = (if count = 1 then ys else merge_passes cmp (Suc k) ys)"
    by (subst merge_passes.simps) (simp add: p)
  show ?case
  proof (cases "count = 1")
    case True
    then have "length ys \<le> 2 ^ Suc k" using merge_pass_count [of cmp k xs] len by (simp add: p)
    then show ?thesis using c True by (simp add: unf run_sorted_short)
  next
    case False
    have "list_all ok ys" using 1(2) c(2) by (metis list_all_iff set_mset_mset)
    then show ?thesis using 1(1) [OF p [symmetric] refl False _ c(1)] False c by (simp add: unf)
  qed
qed

lemma merge_sort_correct:
  assumes "list_all ok xs"
  shows "sorted_wrt (\<lambda>a b. cmp a b \<le> 0) (merge_passes cmp 0 xs)" "mset (merge_passes cmp 0 xs) = mset xs"
    "ok x \<Longrightarrow> filter (\<lambda>y. cmp x y = 0) (merge_passes cmp 0 xs) = filter (\<lambda>y. cmp x y = 0) xs"
  using passes_correct [OF assms run_sorted_0] by simp_all

end

section \<open>The code refines it\<close>

text \<open>
  Between two moves the unsorted list consists of what is left of the first run and of everything from \<open>q\<close> on,
  and the sorted list of the nodes moved so far. Nothing else in memory changes.
\<close>

definition sorting :: "addr \<Rightarrow> addr \<Rightarrow> links \<Rightarrow> addr list \<Rightarrow> addr list \<Rightarrow> bool" where
  "sorting u s h xs ys \<longleftrightarrow> is_list h u xs \<and> is_list h s ys \<and> set (u # xs) \<inter> set (s # ys) = {}"

lemma sorting_move:
  assumes "sorting u s h (xs @ e # ys) zs"
  shows "sorting u s (list_add_tail e s (list_del e h)) (xs @ ys) (zs @ [e])"
    "same_outside (set (u # xs @ e # ys) \<union> set (s # zs)) h (list_add_tail e s (list_del e h))"
  using move_list(5-7) [of h u xs e ys s zs] assms by (auto simp: sorting_def is_list_def)

lemma hd_is_head: "u \<notin> set xs \<Longrightarrow> hd (xs @ [u]) = u \<longleftrightarrow> xs = []"
  by (cases xs) auto

lemma merge_loop_refines:
  assumes "sorting u s h (ps @ qs) zs" "ps \<noteq> [] \<Longrightarrow> p = hd ps" "q = hd (qs @ [u])"
  shows "\<exists>h'. merge_loop cmp u s h p (length ps) q n = Some (h', hd (snd (merge_run cmp ps n qs) @ [u])) \<and>
    sorting u s h' (snd (merge_run cmp ps n qs)) (zs @ fst (merge_run cmp ps n qs)) \<and>
    same_outside (set (u # s # ps @ qs @ zs)) h h'"
  using assms
proof (induction cmp ps n qs arbitrary: h p q zs rule: merge_run.induct)
  case (1 cmp ps n qs)
  have u: "u \<notin> set ps" "u \<notin> set qs" using 1(3) by (auto simp: sorting_def is_list_def)
  let ?n = "if qs = [] then 0 else n"
  have q: "q = u \<longleftrightarrow> qs = []" using 1(5) hd_is_head u(2) by simp
  consider (over) "ps = []" "?n = 0" | (second) "ps = [] \<or> (?n \<noteq> 0 \<and> cmp (hd ps) (hd qs) > 0)" "\<not> (ps = [] \<and> ?n = 0)"
    | (first) "ps \<noteq> []" "\<not> (?n \<noteq> 0 \<and> cmp (hd ps) (hd qs) > 0)" by argo
  then show ?case
  proof cases
    case over
    then show ?thesis using 1(3,5) q by (subst merge_loop.simps) (auto simp: merge_run_eq split: if_splits)
  next
    case second
    then obtain q' qs' n' where qs: "qs = q' # qs'" "n = Suc n'" by (cases qs; cases n) (auto split: if_splits)
    let ?h = "list_add_tail q s (list_del q h)"
    have "q = q'" using 1(5) qs by simp
    then have st: "sorting u s ?h (ps @ qs') (zs @ [q])" "same_outside (set (u # ps @ q # qs') \<union> set (s # zs)) h ?h"
      using sorting_move [of u s h ps q qs' zs] 1(3) by (simp_all add: qs)
    have nx: "nxt h q = hd (qs' @ [u])"
      using is_list_entry(1) [of h u ps q qs'] 1(3) \<open>q = q'\<close> by (simp add: sorting_def qs)
    have tl: "tl qs = qs'" "?n - 1 = n'" by (simp_all add: qs)
    obtain h' where h': "merge_loop cmp u s ?h p (length ps) (nxt h q) n' = Some (h', hd (snd (merge_run cmp ps n' qs') @ [u]))"
      "sorting u s h' (snd (merge_run cmp ps n' qs')) ((zs @ [q]) @ fst (merge_run cmp ps n' qs'))"
      "same_outside (set (u # s # ps @ qs' @ zs @ [q])) ?h h'"
      using 1(1) [OF refl second(2,1), unfolded tl, OF st(1) 1(4) nx] by auto
    have step: "merge_loop cmp u s h p (length ps) q n = merge_loop cmp u s ?h p (length ps) (nxt h q) n'"
      using second q qs 1(4) \<open>q = q'\<close> by (subst merge_loop.simps) auto
    have run: "merge_run cmp ps n qs = (q # fst (merge_run cmp ps n' qs'), snd (merge_run cmp ps n' qs'))"
      using second qs \<open>q = q'\<close> by (subst merge_run.simps) (simp add: case_prod_beta)
    have "same_outside (set (u # s # ps @ qs @ zs)) h h'"
      by (rule same_outside_trans [OF st(2) h'(3)]) (auto simp: qs \<open>q = q'\<close>)
    then show ?thesis using h' unfolding step run by auto
  next
    case first
    then obtain p' ps' where ps: "ps = p' # ps'" by (cases ps) auto
    let ?h = "list_add_tail p s (list_del p h)"
    have "p = p'" using 1(4) ps by simp
    then have st: "sorting u s ?h (ps' @ qs) (zs @ [p])" "same_outside (set (u # p # ps' @ qs) \<union> set (s # zs)) h ?h"
      using sorting_move [of u s h "[]" p "ps' @ qs" zs] 1(3) by (simp_all add: ps)
    have nx: "ps' \<noteq> [] \<Longrightarrow> nxt h p = hd ps'"
      using is_list_entry(1) [of h u "[]" p "ps' @ qs"] 1(3) \<open>p = p'\<close> by (simp add: sorting_def ps)
    have tl: "tl ps = ps'" by (simp add: ps)
    have nf: "\<not> (ps = [] \<and> ?n = 0)" "\<not> (ps = [] \<or> (?n \<noteq> 0 \<and> cmp (hd ps) (hd qs) > 0))" using first by argo+
    obtain h' where h': "merge_loop cmp u s ?h (nxt h p) (length ps') q ?n = Some (h', hd (snd (merge_run cmp ps' ?n qs) @ [u]))"
      "sorting u s h' (snd (merge_run cmp ps' ?n qs)) ((zs @ [p]) @ fst (merge_run cmp ps' ?n qs))"
      "same_outside (set (u # s # ps' @ qs @ zs @ [p])) ?h h'"
      using 1(2) [OF refl nf(1,2), unfolded tl, OF st(1) nx 1(5)] by auto
    have step: "merge_loop cmp u s h p (length ps) q n = merge_loop cmp u s ?h (nxt h p) (length ps') q ?n"
      using first q 1(4,5) by (subst merge_loop.simps) (cases qs; auto simp: ps)
    have run: "merge_run cmp ps n qs = (p # fst (merge_run cmp ps' ?n qs), snd (merge_run cmp ps' ?n qs))"
      using first \<open>p = p'\<close> by (subst merge_run.simps) (auto simp: case_prod_beta ps)
    have "same_outside (set (u # s # ps @ qs @ zs)) h h'"
      by (rule same_outside_trans [OF st(2) h'(3)]) (auto simp: ps \<open>p = p'\<close>)
    then show ?thesis using h' unfolding step run by auto
  qed
qed

lemma run_of_eq: "linked h (xs @ [u]) \<Longrightarrow> u \<notin> set xs \<Longrightarrow> run_of h u k (hd (xs @ [u])) = (length (take k xs), hd (drop k xs @ [u]))"
proof (induction k arbitrary: xs)
  case (Suc k)
  show ?case
  proof (cases xs)
    case (Cons x xs')
    then have "run_of h u k (hd (xs' @ [u])) = (length (take k xs'), hd (drop k xs' @ [u]))" "nxt h x = hd (xs' @ [u])"
      using Suc by (simp_all add: linked_Cons)
    then show ?thesis using Suc(3) Cons by simp
  qed simp
qed simp

lemma pass_loop_refines:
  assumes "sorting u s h xs zs" "p = hd (xs @ [u])"
  shows "\<exists>h'. pass_loop cmp u s (2 ^ k) h p c = Some (h', c + snd (merge_pass cmp k xs)) \<and>
    sorting u s h' [] (zs @ fst (merge_pass cmp k xs)) \<and> same_outside (set (u # s # xs @ zs)) h h'"
  using assms
proof (induction cmp k xs arbitrary: h p zs c rule: merge_pass.induct)
  case (1 cmp k xs)
  let ?K = "2 ^ k"
  let ?run = "merge_run cmp (take ?K xs) ?K (drop ?K xs)"
  have l: "linked h (xs @ [u])" "u \<notin> set xs"
    using 1(2) is_list_split [of h u "[]" xs] by (auto simp: sorting_def)
  have r: "run_of h u ?K p = (length (take ?K xs), hd (drop ?K xs @ [u]))" using run_of_eq [OF l] 1(3) by simp
  have "take ?K xs \<noteq> [] \<Longrightarrow> p = hd (take ?K xs)" using 1(3) by (cases xs) auto
  then obtain h1 where h1: "merge_loop cmp u s h p (length (take ?K xs)) (hd (drop ?K xs @ [u])) ?K = Some (h1, hd (snd ?run @ [u]))"
    "sorting u s h1 (snd ?run) (zs @ fst ?run)" "same_outside (set (u # s # take ?K xs @ drop ?K xs @ zs)) h h1"
    using merge_loop_refines [of u s h "take ?K xs" "drop ?K xs" zs p, OF _ _ refl, of cmp ?K] 1(2) by auto
  have u: "hd (snd ?run @ [u]) = u \<longleftrightarrow> snd ?run = []"
    using h1(2) by (intro hd_is_head) (auto simp: sorting_def is_list_def)
  have unf: "pass_loop cmp u s ?K h p c =
      (if snd ?run \<noteq> [] then pass_loop cmp u s ?K h1 (hd (snd ?run @ [u])) (c + 1) else Some (h1, c + 1))"
    by (subst pass_loop.simps) (simp add: r h1(1) u del: length_take)
  have frame: "same_outside (set (u # s # xs @ zs)) h h1"
    using h1(3) append_take_drop_id [of ?K xs] by (metis append.assoc)
  obtain m rest where mr: "?run = (m, rest)" by fastforce
  then have sub: "set rest \<subseteq> set xs" "set m \<subseteq> set xs" using set_take_subset [of ?K xs] set_drop_subset [of ?K xs]
    by (auto simp: merge_run_eq dest!: in_set_takeD in_set_dropD)
  show ?case
  proof (cases "rest = []")
    case True
    then show ?thesis using h1(2) frame unf mr by (subst merge_pass.simps, subst merge_pass.simps) simp
  next
    case False
    obtain h2 where h2: "pass_loop cmp u s ?K h1 (hd (rest @ [u])) (c + 1) = Some (h2, c + 1 + snd (merge_pass cmp k rest))"
      "sorting u s h2 [] ((zs @ m) @ fst (merge_pass cmp k rest))" "same_outside (set (u # s # rest @ zs @ m)) h1 h2"
      using 1(1) [OF mr [symmetric] refl False, of h1 "zs @ m" _ "c + 1"] h1(2) mr by auto
    have "merge_pass cmp k xs = (m @ fst (merge_pass cmp k rest), Suc (snd (merge_pass cmp k rest)))"
      using False mr by (subst merge_pass.simps) (simp add: case_prod_beta)
    moreover have "same_outside (set (u # s # xs @ zs)) h h2"
      by (rule same_outside_trans [OF frame h2(3)]) (use sub in auto)
    ultimately show ?thesis using h2(1,2) False unf mr by simp
  qed
qed

text \<open>Hanging the sorted ring on \<open>head\<close>: nothing happens when it is there already.\<close>

lemma relink_list:
  assumes "sorting u s h [] ys" "ys \<noteq> []" "head = u \<or> head = s"
    and h': "h' = set_prev (nxt h s) head (set_next (prv h s) head (set_prev head (prv h s) (set_next head (nxt h s) h)))"
  shows "is_list h' head ys" "same_outside (set (u # s # ys)) h h'"
proof -
  have l: "is_list h u []" "is_list h s ys" and d: "set [u] \<inter> set (s # ys) = {}" using assms(1) by (auto simp: sorting_def)
  have e: "nxt h s = hd ys" "prv h s = last ys" using is_list_ends [OF l(2)] assms(2) by simp_all
  have x: "hd ys \<in> set ys" "last ys \<in> set ys" using assms(2) by simp_all
  show "same_outside (set (u # s # ys)) h h'" using assms(3) x by (auto simp: same_outside_def h' e)
  show "is_list h' head ys"
  proof (cases "head = u")
    case True
    have tw: "(prv h)(u := last ys, hd ys := u) = (prv h)(hd ys := u, u := last ys)" using d x by (intro fun_upd_twist) auto
    have "h' = list_splice_at s u h"
      using is_list_ends(1) [OF l(1)] d x unfolding h' True list_splice_at_def Let_def e
      by (simp add: set_next_def set_prev_def tw)
    then show ?thesis using splice_at_list [OF l(2,1) _ assms(2)] d True by auto
  next
    case False
    have "nxt h (last ys) = s" "prv h (hd ys) = s"
      using is_list_split [of h s ys "[]"] is_list_split [of h s "[]" ys] l(2) assms(2) by auto
    then have "(nxt h)(last ys := s) = nxt h" "(prv h)(hd ys := s) = prv h" by auto
    then have "h' = h" using False assms(3) by (simp add: h' e [symmetric] set_next_def set_prev_def)
    then show ?thesis using l(2) False assms(3) by auto
  qed
qed

lemma sort_loop_refines:
  assumes "sorting u s h xs []" "xs \<noteq> []" "head = u \<or> head = s"
  shows "\<exists>h'. sort_loop cmp head u s (2 ^ k) h = Some h' \<and> is_list h' head (merge_passes cmp k xs) \<and>
    same_outside (set (u # s # xs)) h h'"
  using assms
proof (induction cmp k xs arbitrary: h u s rule: merge_passes.induct)
  case (1 cmp k xs)
  obtain ys c where p: "merge_pass cmp k xs = (ys, c)" by fastforce
  obtain h1 where h1: "pass_loop cmp u s (2 ^ k) h (nxt h u) 0 = Some (h1, c)" "sorting u s h1 [] ys"
    "same_outside (set (u # s # xs)) h h1"
    using pass_loop_refines [OF 1(2), of "nxt h u" cmp k 0] is_list_ends(1) [of h u xs] 1(2) p by (auto simp: sorting_def)
  have ys: "ys \<noteq> []" "set ys = set xs"
    using mset_merge_pass [of cmp k xs] 1(3) p by (auto dest: mset_eq_setD)
  have unf: "merge_passes cmp k xs = (if c = 1 then ys else merge_passes cmp (Suc k) ys)"
    by (subst merge_passes.simps) (simp add: p)
  show ?case
  proof (cases "c = 1")
    case True
    note rl = relink_list [OF h1(2) ys(1) 1(4) refl]
    have "same_outside (set (u # s # xs)) h (set_prev (nxt h1 s) head (set_next (prv h1 s) head (set_prev head (prv h1 s) (set_next head (nxt h1 s) h1))))"
      by (rule same_outside_trans [OF h1(3) rl(2)]) (use ys in auto)
    moreover have "prv h1 s = last ys" "nxt h1 s = hd ys" "s \<notin> set ys" "u \<noteq> s" "u \<notin> set ys"
      using h1(2) is_list_ends [of h1 s ys] ys(1) by (auto simp: sorting_def is_list_def)
    ultimately show ?thesis using rl(1) True unf ys(1) 1(4) h1(1) by (subst sort_loop.simps) (auto simp: Let_def)
  next
    case False
    have "sorting s u h1 ys []" using h1(2) by (auto simp: sorting_def)
    then obtain h2 where h2: "sort_loop cmp head s u (2 ^ Suc k) h1 = Some h2" "is_list h2 head (merge_passes cmp (Suc k) ys)"
      "same_outside (set (s # u # ys)) h1 h2"
      using 1(1) [OF p [symmetric] refl False _ ys(1)] 1(4) by blast
    have "same_outside (set (u # s # xs)) h h2" by (rule same_outside_trans [OF h1(3) h2(3)]) (use ys in auto)
    then show ?thesis using h2 False unf h1(1) by (subst sort_loop.simps) (simp add: mult.commute)
  qed
qed

text \<open>The sort as a whole, for a comparison that meets the contract.\<close>

locale node_comparator = comparator ok cmp for ok :: "addr \<Rightarrow> bool" and cmp
begin

lemma list_mergesort_correct:
  assumes "is_list h head xs" "tmp \<notin> set (head # xs)" "list_all ok xs"
  shows "\<exists>h' ys. list_mergesort cmp tmp head h = Some h' \<and> is_list h' head ys \<and>
    sorted_wrt (\<lambda>a b. cmp a b \<le> 0) ys \<and> mset ys = mset xs \<and>
    (\<forall>x. ok x \<longrightarrow> filter (\<lambda>y. cmp x y = 0) ys = filter (\<lambda>y. cmp x y = 0) xs) \<and>
    same_outside (set (tmp # head # xs)) h h'"
proof -
  let ?h = "list_init tmp h"
  have l: "is_list ?h head xs" using is_list_frame [OF list_init_list(2)] assms(1,2) by auto
  show ?thesis
  proof (cases "xs = []")
    case True
    have "same_outside (set (tmp # head # xs)) h ?h" by (rule same_outside_trans [OF list_init_list(2) same_outside_refl [of "{}"]]) auto
    then show ?thesis using True list_walks(4) [OF l] l by (auto simp: list_mergesort_def)
  next
    case False
    have "sorting head tmp ?h xs []" using l list_init_list(1) assms(2) by (auto simp: sorting_def)
    then obtain h' where h': "sort_loop cmp head head tmp 1 ?h = Some h'" "is_list h' head (merge_passes cmp 0 xs)"
      "same_outside (set (head # tmp # xs)) ?h h'"
      using sort_loop_refines [of head tmp ?h xs head cmp 0] False by auto
    have "same_outside (set (tmp # head # xs)) h h'"
      by (rule same_outside_trans [OF list_init_list(2) h'(3)]) auto
    then show ?thesis
      using h' merge_sort_correct [OF assms(3)] list_walks(4) [OF l] False by (auto simp: list_mergesort_def)
  qed
qed

end

interpretation playlists: node_comparator "\<lambda>_. True" "pl_list_compare pl_name" for pl_name
  unfolding node_comparator_def by (rule comparator_linorder [where key = pl_name]) (simp add: pl_list_compare_def strcmp_def)

lemma pl_list_compare_sign:
  "pl_list_compare pl_name p q \<le> 0 \<longleftrightarrow> pl_name p \<le> pl_name q" "pl_list_compare pl_name p q = 0 \<longleftrightarrow> pl_name p = pl_name q"
  by (auto simp: pl_list_compare_def strcmp_def)

section \<open>Properties\<close>

text \<open>
  C16. Sorting the list of playlists returns, on every well-formed ring; the list is then a well-formed ring again
  whose nodes are sorted by name (bytewise), are the same as before, and keep their order where names are equal;
  no other node is written to but the sort's own list head.
\<close>

theorem pl_sort_all_correct:
  assumes "is_list h pl_head pls" "tmp \<notin> set (pl_head # pls)"
  shows "\<exists>h' ys. pl_sort_all pl_name tmp pl_head h = Some h' \<and> is_list h' pl_head ys \<and>
    sorted (map pl_name ys) \<and> mset ys = mset pls \<and>
    (\<forall>p. filter (\<lambda>q. pl_name p = pl_name q) ys = filter (\<lambda>q. pl_name p = pl_name q) pls) \<and>
    same_outside (set (tmp # pl_head # pls)) h h'"
  using playlists.list_mergesort_correct [OF assms, of pl_name]
  unfolding pl_sort_all_def pl_list_compare_sign sorted_map list_all_iff by simp

text \<open>Three playlists at the addresses 1 to 3, two of them with the same name.\<close>

definition example_ring :: links where
  "example_ring = list_add_tail 3 0 (list_add_tail 2 0 (list_add_tail 1 0 (list_init 0 \<lparr>nxt = \<lambda>_. 0, prv = \<lambda>_. 0\<rparr>)))"

definition example_names :: playlist_names where
  "example_names = (\<lambda>_. ''a'')(1 := ''b'')"

theorem pl_sort_all_correct_witness:
  "is_list example_ring 0 [1, 2, 3] \<and>
   (\<exists>h' ys. pl_sort_all example_names 4 0 example_ring = Some h' \<and> is_list h' 0 ys \<and> sorted (map example_names ys) \<and>
     mset ys = mset [1, 2, 3])"
proof -
  have "is_list example_ring 0 [1, 2, 3]"
    by (simp add: example_ring_def list_init_def list_add_tail_def is_list_def)
  then show ?thesis using pl_sort_all_correct [of example_ring 0 "[1, 2, 3]" 4 example_names] by auto
qed

end
