(* ===== verification/Player.thy ===== *)
theory Player
  imports Buffer Input Softvol Track_Info
begin

text \<open>
  The playback engine of \<^verbatim>\<open>src/app/player.c\<close>: the producer thread that decodes into the ring buffer, the
  consumer thread that feeds the output device, and the operations of the user interface, which hold
  both locks. The static variables of the file are the fields of \<open>player\<close>; each operation maps a state
  to the next one, \<open>None\<close> being a fault: a failed \<open>BUG_ON\<close>, the use of a freed or missing input handle,
  a division by zero, a device call without an open device. A loop that does not end is \<open>None\<close> as well.

  What other parts answer (the play queue, the decoder, the output device, the mixer) is the argument
  \<open>env\<close>, a record of functions of the number of questions asked so far (\<open>p_tick\<close>). Error messages are
  kept as the return code and the text given to the formatter.

  This theory holds the model; its invariant, the safety of every operation and the properties are in the
  theories \<open>Player_Safety\<close> and \<open>Player_Steps\<close>.
\<close>

unbundle bit_operations_syntax

section \<open>State and environment\<close>

datatype producer_status = PS_UNLOADED | PS_STOPPED | PS_PLAYING | PS_PAUSED

datatype consumer_status = CS_STOPPED | CS_PLAYING | CS_PAUSED

datatype player_status = PLAYER_STATUS_STOPPED | PLAYER_STATUS_PLAYING | PLAYER_STATUS_PAUSED

text \<open>The cast \<open>(enum player_status)consumer_status\<close>.\<close>

fun to_player_status :: "consumer_status \<Rightarrow> player_status" where
  "to_player_status CS_STOPPED = PLAYER_STATUS_STOPPED"
| "to_player_status CS_PLAYING = PLAYER_STATUS_PLAYING"
| "to_player_status CS_PAUSED = PLAYER_STATUS_PAUSED"

datatype replaygain =
  RG_DISABLED | RG_TRACK | RG_ALBUM | RG_TRACK_PREFERRED | RG_ALBUM_PREFERRED | RG_SMART

text \<open>The pointer \<open>ip\<close>: never set, pointing to a deleted handle, or to a handle.\<close>

datatype ip_ref = IpNull | IpFreed | Ip input_plugin

datatype player_msg = IpMsg int string | OpMsg int string | TextMsg string

record player_info =
  pi_ti :: "track_info option"
  pi_status :: player_status
  pi_pos :: int
  pi_current_bitrate :: int
  pi_buffer_fill :: int
  pi_buffer_size :: int
  pi_error_msg :: "player_msg option"
  pi_file_changed :: bool
  pi_metadata_changed :: bool
  pi_status_changed :: bool
  pi_position_changed :: bool
  pi_buffer_fill_changed :: bool

text \<open>
  \<open>p_space\<close> is the local variable \<open>space\<close> of the consumer thread while it is in its inner loop, where
  it holds the consumer lock.
\<close>

record player =
  p_ps :: producer_status
  p_cs :: consumer_status
  p_ip :: ip_ref
  p_op_open :: bool
  p_buf :: buffer
  p_cpos :: nat
  p_spos :: nat
  p_sf :: sample_format
  p_cmap :: channel_map
  p_info :: player_info
  p_snapshot :: player_info
  p_metadata :: string
  p_vol :: volume
  p_replaygain :: replaygain
  p_rg_limit :: bool
  p_rg_preamp :: real
  p_cont :: bool
  p_cont_album :: bool
  p_repeat_current :: bool
  p_show_bitrate :: bool
  p_old_pos :: nat
  p_volume_l :: int
  p_volume_r :: int
  p_volume_max :: int
  p_space :: "int option"
  p_tick :: nat

record env =
  e_next_track :: "nat \<Rightarrow> track_info option"
  e_open :: "nat \<Rightarrow> open_answer"
  e_read :: "nat \<Rightarrow> input_plugin \<Rightarrow> nat \<Rightarrow> read_answer"
  e_seek :: "nat \<Rightarrow> int"
  e_duration :: "nat \<Rightarrow> int"
  e_bitrate :: "nat \<Rightarrow> int"
  e_metadata :: "nat \<Rightarrow> string option"
  e_comments :: "nat \<Rightarrow> key_values option"
  e_op_open :: "nat \<Rightarrow> int"
  e_op_space :: "nat \<Rightarrow> int"
  e_op_write :: "nat \<Rightarrow> u8 list \<Rightarrow> int"
  e_mixer_get :: "nat \<Rightarrow> (int \<times> int) option"
  e_mixer_set :: "nat \<Rightarrow> int"
  e_junk :: "nat \<Rightarrow> nat \<Rightarrow> chunk"
  e_rg_avoid :: "nat \<Rightarrow> bool"
  e_clib :: clib

definition tick :: "player \<Rightarrow> player" where
  "tick pl = pl\<lparr>p_tick := Suc (p_tick pl)\<rparr>"

text \<open>Dereferencing \<open>ip\<close>.\<close>

definition the_ip :: "player \<Rightarrow> input_plugin option" where
  "the_ip pl = (case p_ip pl of Ip i \<Rightarrow> Some i | _ \<Rightarrow> None)"

section \<open>Buffer format, replay gain and status\<close>

definition reset_buffer :: "player \<Rightarrow> player option" where
  "reset_buffer pl = do { b \<leftarrow> buffer_reset (p_buf pl); Some (pl\<lparr>p_buf := b, p_cpos := 0, p_spos := 0\<rparr>) }"

text \<open>The format of the bytes that \<open>ip_read\<close> delivers for a handle of format \<open>sf\<close>.\<close>

definition read_format :: "sample_format \<Rightarrow> sample_format" where
  "read_format sf =
     (if sf_get_channels sf \<le> 2 \<and> sf_get_bits sf \<le> 16
      then ((sf AND SF_RATE_MASK) OR (sf_channels 2 OR sf_bits 16 OR sf_signed 1)) OR sf_host_endian
      else sf)"

definition set_buffer_sf :: "player \<Rightarrow> player option" where
  "set_buffer_sf pl =
     do { i \<leftarrow> the_ip pl;
          sf \<leftarrow> ip_get_sf i;
          cmap \<leftarrow> ip_get_channel_map i;
          Some (pl\<lparr>p_sf := read_format sf,
                   p_cmap := (if sf_get_channels sf \<le> 2 \<and> sf_get_bits sf \<le> 16
                              then channel_map_init_stereo cmap else cmap)\<rparr>) }"

text \<open>
  \<open>update_rg_scale\<close>: the scale for the current track; \<open>avoid\<close> is the condition on the play mode that
  makes \<open>RG_SMART\<close> prefer the track gain. NaN is \<open>None\<close>.
\<close>

definition rg_scale :: "replaygain \<Rightarrow> bool \<Rightarrow> bool \<Rightarrow> real \<Rightarrow> track_info option \<Rightarrow> real" where
  "rg_scale rg avoid limit preamp ti =
     (case ti of None \<Rightarrow> 1
      | Some ti \<Rightarrow>
        if rg = RG_DISABLED then 1
        else
          let avoid_album = (rg = RG_SMART \<and> avoid);
              (gain, peak) =
                (if rg = RG_TRACK \<or> rg = RG_TRACK_PREFERRED \<or> avoid_album
                 then (ti_rg_track_gain ti, ti_rg_track_peak ti) else (ti_rg_album_gain ti, ti_rg_album_peak ti));
              (gain, peak) =
                (if gain = None \<and> (rg = RG_TRACK_PREFERRED \<or> avoid_album)
                 then (ti_rg_album_gain ti, ti_rg_album_peak ti)
                 else if gain = None \<and> rg = RG_ALBUM_PREFERRED
                 then (ti_rg_track_gain ti, ti_rg_track_peak ti)
                 else (gain, peak))
          in case gain of None \<Rightarrow> 1
             | Some g \<Rightarrow>
                 let pk = (case peak of None \<Rightarrow> 10 powr (ti_output_gain ti / 20) | Some p \<Rightarrow> p)
                 in if pk < 0.05 then 1
                    else let scale = 10 powr ((preamp + g) / 20)
                         in if limit \<and> scale > 1 / pk then 1 / pk else scale)"

definition update_rg_scale :: "env \<Rightarrow> player \<Rightarrow> player" where
  "update_rg_scale E pl =
     tick (pl\<lparr>p_vol := (p_vol pl)\<lparr>replaygain_scale :=
       rg_scale (p_replaygain pl) (e_rg_avoid E (p_tick pl)) (p_rg_limit pl) (p_rg_preamp pl)
         (pi_ti (p_info pl))\<rparr>\<rparr>)"

definition buffer_second_size :: "player \<Rightarrow> nat" where
  "buffer_second_size pl = unat (sf_get_second_size (p_sf pl))"

definition file_changed :: "env \<Rightarrow> track_info option \<Rightarrow> player \<Rightarrow> player" where
  "file_changed E ti pl =
     (let pl = update_rg_scale E (pl\<lparr>p_info := (p_info pl)\<lparr>pi_ti := ti\<rparr>\<rparr>)
      in pl\<lparr>p_metadata := [], p_info := (p_info pl)\<lparr>pi_file_changed := True\<rparr>\<rparr>)"

definition metadata_changed :: "env \<Rightarrow> player \<Rightarrow> player option" where
  "metadata_changed E pl =
     do { i \<leftarrow> the_ip pl;
          bug_unless (ip_opened i);
          let pl = (case e_metadata E (p_tick pl) of None \<Rightarrow> pl | Some m \<Rightarrow> pl\<lparr>p_metadata := m\<rparr>);
          pl \<leftarrow> (case e_comments E (p_tick pl) of
                   None \<Rightarrow> Some pl
                 | Some kv \<Rightarrow> do { ti \<leftarrow> pi_ti (p_info pl);
                                  ti \<leftarrow> track_info_set_comments (e_clib E) ti kv;
                                  Some (pl\<lparr>p_info := (p_info pl)\<lparr>pi_ti := Some ti\<rparr>\<rparr>) });
          Some (tick (pl\<lparr>p_info := (p_info pl)\<lparr>pi_metadata_changed := True\<rparr>\<rparr>)) }"

definition player_error :: "player_msg \<Rightarrow> player \<Rightarrow> player option" where
  "player_error msg pl =
     do { fill \<leftarrow> buffer_get_filled_chunks (p_buf pl);
          Some (pl\<lparr>p_info := (p_info pl)\<lparr>pi_status := to_player_status (p_cs pl), pi_pos := 0,
            pi_current_bitrate := -1, pi_buffer_fill := fill,
            pi_buffer_size := int (buffer_nr_chunks (p_buf pl)), pi_status_changed := True,
            pi_error_msg := Some msg\<rparr>\<rparr>) }"

text \<open>\<open>player_ip_error\<close> hands the input handle to the formatter.\<close>

definition player_ip_error :: "int \<Rightarrow> string \<Rightarrow> player \<Rightarrow> player option" where
  "player_ip_error rc msg pl = do { i \<leftarrow> the_ip pl; player_error (IpMsg rc msg) pl }"

definition player_op_error :: "int \<Rightarrow> string \<Rightarrow> player \<Rightarrow> player option" where
  "player_op_error rc msg pl = player_error (OpMsg rc msg) pl"

definition producer_buffer_fill_update :: "player \<Rightarrow> player option" where
  "producer_buffer_fill_update pl =
     do { fill \<leftarrow> buffer_get_filled_chunks (p_buf pl);
          Some (if fill \<noteq> pi_buffer_fill (p_info pl)
                then pl\<lparr>p_info := (p_info pl)\<lparr>pi_buffer_fill := fill, pi_buffer_fill_changed := True\<rparr>\<rparr>
                else pl) }"

text \<open>The position in seconds: 0 when stopped, otherwise \<open>consumer_pos / buffer_second_size()\<close>.\<close>

definition position :: "player \<Rightarrow> nat option" where
  "position pl =
     (if p_cs pl = CS_PLAYING \<or> p_cs pl = CS_PAUSED
      then if buffer_second_size pl = 0 then None
           else Some ((p_cpos pl div buffer_second_size pl) mod 2 ^ 32)
      else Some 0)"

definition consumer_position_update :: "env \<Rightarrow> player \<Rightarrow> player option" where
  "consumer_position_update E pl =
     do { pos \<leftarrow> position pl;
          if pos \<noteq> p_old_pos pl
          then do {
            let pl = pl\<lparr>p_old_pos := pos, p_info := (p_info pl)\<lparr>pi_pos := c_int (int pos)\<rparr>\<rparr>;
            pl \<leftarrow> (if p_show_bitrate pl
                   then do { i \<leftarrow> the_ip pl;
                             bug_unless (ip_opened i);
                             let bitrate = e_bitrate E (p_tick pl);
                             Some (if bitrate \<noteq> -1
                                   then tick (pl\<lparr>p_info := (p_info pl)\<lparr>pi_current_bitrate := c_int bitrate\<rparr>\<rparr>)
                                   else tick pl) }
                   else Some pl);
            Some (pl\<lparr>p_info := (p_info pl)\<lparr>pi_position_changed := True\<rparr>\<rparr>) }
          else Some pl }"

definition player_status_changed :: "player \<Rightarrow> player option" where
  "player_status_changed pl =
     do { pos \<leftarrow> position pl;
          fill \<leftarrow> buffer_get_filled_chunks (p_buf pl);
          Some (pl\<lparr>p_info := (p_info pl)\<lparr>pi_status := to_player_status (p_cs pl), pi_pos := c_int (int pos),
            pi_current_bitrate := -1, pi_buffer_fill := fill,
            pi_buffer_size := int (buffer_nr_chunks (p_buf pl)), pi_status_changed := True\<rparr>\<rparr>) }"

section \<open>Reading into the buffer\<close>

text \<open>
  What follows a read that was not to be retried, in \<open>_prebuffer\<close> and in \<open>producer_loop\<close>: the bytes are
  in the buffer at \<open>wpos\<close>, an error counts as the end of the track, changed metadata is taken over, and
  the bytes are marked filled. Returns \<open>nr_read\<close>.
\<close>

definition store_read :: "env \<Rightarrow> read_result \<Rightarrow> buf_ptr option \<Rightarrow> player \<Rightarrow> (nat \<times> player) option" where
  "store_read E r wpos pl =
     do { (bs, pl) \<leftarrow> (case r of
              RAgain \<Rightarrow> None
            | RError rc \<Rightarrow> map_option (Pair []) (player_ip_error rc ''reading file'' pl)
            | RBytes bs \<Rightarrow> Some (bs, pl));
          p \<leftarrow> wpos;
          b \<leftarrow> buffer_poke p bs (p_buf pl);
          i \<leftarrow> the_ip pl;
          (changed, i) \<leftarrow> ip_metadata_changed i;
          let pl = pl\<lparr>p_buf := b, p_ip := Ip i\<rparr>;
          pl \<leftarrow> (if changed then metadata_changed E pl else Some pl);
          (f, b) \<leftarrow> buffer_fill (int (length bs)) (p_buf pl);
          Some (length bs, pl\<lparr>p_buf := b\<rparr>) }"

definition read_step :: "env \<Rightarrow> int \<Rightarrow> player \<Rightarrow> (read_result \<times> player) option" where
  "read_step E sz pl =
     do { i \<leftarrow> the_ip pl;
          (r, i) \<leftarrow> ip_read (e_read E (p_tick pl) i) sz i;
          Some (r, tick (pl\<lparr>p_ip := Ip i\<rparr>)) }"

text \<open>The loop of \<open>_prebuffer\<close>; with a decoder that always asks to retry it does not end.\<close>

partial_function (option) prebuffer_loop :: "env \<Rightarrow> int \<Rightarrow> player \<Rightarrow> player option" where
  "prebuffer_loop E limit_chunks pl =
     do { filled \<leftarrow> buffer_get_filled_chunks (p_buf pl);
          if filled \<ge> limit_chunks then Some pl
          else do {
            (size, wpos) \<leftarrow> buffer_get_wpos (p_buf pl);
            (r, pl) \<leftarrow> read_step E size pl;
            if r = RAgain then prebuffer_loop E limit_chunks pl
            else do {
              (nr_read, pl) \<leftarrow> store_read E r wpos pl;
              pl \<leftarrow> producer_buffer_fill_update pl;
              if nr_read = 0 then Some pl else prebuffer_loop E limit_chunks pl } } }"

text \<open>A quarter of a second in chunks, at least one; computed in \<open>unsigned int\<close>.\<close>

definition limit_of :: "sample_format \<Rightarrow> nat" where
  "limit_of sf = max 1 (((250 * unat (sf_get_second_size sf)) mod 2 ^ 32) div 1000 div CHUNK_SIZE)"

definition prebuffer :: "env \<Rightarrow> player \<Rightarrow> player option" where
  "prebuffer E pl =
     do { bug_unless (p_ps pl = PS_PLAYING);
          i \<leftarrow> the_ip pl;
          prebuffer_loop E (if ip_is_remote i then int (buffer_nr_chunks (p_buf pl)) else int (limit_of (p_sf pl))) pl }"

section \<open>Setting the producer status\<close>

definition ip_delete :: "player \<Rightarrow> player option" where
  "ip_delete pl =
     do { i \<leftarrow> the_ip pl;
          i' \<leftarrow> (if ip_opened i then ip_close i else Some i);
          Some (pl\<lparr>p_ip := IpFreed\<rparr>) }"

definition producer_status_update :: "producer_status \<Rightarrow> player \<Rightarrow> player" where
  "producer_status_update s pl = pl\<lparr>p_ps := s\<rparr>"

text \<open>\<open>rc = ip_open(ip)\<close> on the current handle.\<close>

definition open_current :: "env \<Rightarrow> player \<Rightarrow> (int \<times> player) option" where
  "open_current E pl =
     do { i \<leftarrow> the_ip pl;
          (rc, i) \<leftarrow> ip_open (e_open E (p_tick pl)) i;
          Some (rc, tick (pl\<lparr>p_ip := Ip i\<rparr>)) }"

definition setup_current :: "player \<Rightarrow> player option" where
  "setup_current pl = do { i \<leftarrow> the_ip pl; i \<leftarrow> ip_setup i; Some (pl\<lparr>p_ip := Ip i\<rparr>) }"

definition seek_current :: "env \<Rightarrow> player \<Rightarrow> (int \<times> player) option" where
  "seek_current E pl =
     do { i \<leftarrow> the_ip pl;
          bug_unless (ip_opened i);
          let (rc, i) = ip_seek (e_seek E (p_tick pl)) i;
          Some (rc, tick (pl\<lparr>p_ip := Ip i\<rparr>)) }"

definition get_next_track :: "env \<Rightarrow> player \<Rightarrow> track_info option \<times> player" where
  "get_next_track E pl = (e_next_track E (p_tick pl), tick pl)"

definition producer_play :: "env \<Rightarrow> player \<Rightarrow> player option" where
  "producer_play E pl =
     (case p_ps pl of
        PS_UNLOADED \<Rightarrow>
          (case get_next_track E pl of
             (None, pl) \<Rightarrow> Some pl
           | (Some ti, pl) \<Rightarrow>
               do { (rc, pl) \<leftarrow> open_current E (pl\<lparr>p_ip := Ip (ip_new (ti_filename ti))\<rparr>);
                    if rc \<noteq> 0
                    then do { pl \<leftarrow> player_ip_error rc ''opening file'' pl;
                              pl \<leftarrow> ip_delete pl;
                              Some (file_changed E None pl) }
                    else do { pl \<leftarrow> setup_current pl;
                              Some (file_changed E (Some ti) (producer_status_update PS_PLAYING pl)) } })
      | PS_PLAYING \<Rightarrow>
          do { (rc, pl) \<leftarrow> seek_current E pl;
               if rc = 0 then reset_buffer pl else Some pl }
      | PS_STOPPED \<Rightarrow>
          do { (rc, pl) \<leftarrow> open_current E pl;
               if rc \<noteq> 0
               then do { pl \<leftarrow> player_ip_error rc ''opening file'' pl;
                         pl \<leftarrow> ip_delete pl;
                         Some (producer_status_update PS_UNLOADED pl) }
               else do { pl \<leftarrow> setup_current pl;
                         Some (producer_status_update PS_PLAYING pl) } }
      | PS_PAUSED \<Rightarrow> Some (producer_status_update PS_PLAYING pl))"

definition producer_stop :: "player \<Rightarrow> player option" where
  "producer_stop pl =
     (if p_ps pl = PS_PLAYING \<or> p_ps pl = PS_PAUSED
      then do { i \<leftarrow> the_ip pl;
                i \<leftarrow> ip_close i;
                reset_buffer (producer_status_update PS_STOPPED (pl\<lparr>p_ip := Ip i\<rparr>)) }
      else Some pl)"

definition producer_unload :: "player \<Rightarrow> player option" where
  "producer_unload pl =
     do { pl \<leftarrow> producer_stop pl;
          if p_ps pl = PS_STOPPED
          then do { pl \<leftarrow> ip_delete pl; Some (producer_status_update PS_UNLOADED pl) }
          else Some pl }"

definition producer_pause :: "player \<Rightarrow> player" where
  "producer_pause pl =
     (if p_ps pl = PS_PLAYING then producer_status_update PS_PAUSED pl
      else if p_ps pl = PS_PAUSED then producer_status_update PS_PLAYING pl
      else pl)"

definition producer_set_file :: "env \<Rightarrow> track_info \<Rightarrow> player \<Rightarrow> player option" where
  "producer_set_file E ti pl =
     do { pl \<leftarrow> producer_unload pl;
          Some (file_changed E (Some ti)
            (producer_status_update PS_STOPPED (pl\<lparr>p_ip := Ip (ip_new (ti_filename ti))\<rparr>))) }"

section \<open>Setting the consumer status\<close>

text \<open>The device calls; all but \<open>op_open\<close> need an open device.\<close>

definition op_call :: "player \<Rightarrow> player option" where
  "op_call pl = do { bug_unless (p_op_open pl); Some pl }"

definition op_close :: "player \<Rightarrow> player option" where
  "op_close pl = do { bug_unless (p_op_open pl); Some (pl\<lparr>p_op_open := False\<rparr>) }"

definition op_open :: "env \<Rightarrow> player \<Rightarrow> (int \<times> player) option" where
  "op_open E pl =
     do { bug_unless (\<not> p_op_open pl);
          let rc = e_op_open E (p_tick pl);
          Some (rc, tick (pl\<lparr>p_op_open := (rc = 0)\<rparr>)) }"

definition consumer_status_update :: "consumer_status \<Rightarrow> player \<Rightarrow> player" where
  "consumer_status_update s pl = pl\<lparr>p_cs := s\<rparr>"

definition consumer_play :: "env \<Rightarrow> player \<Rightarrow> player option" where
  "consumer_play E pl =
     (case p_cs pl of
        CS_PLAYING \<Rightarrow> op_call pl
      | CS_STOPPED \<Rightarrow>
          do { pl \<leftarrow> set_buffer_sf pl;
               (rc, pl) \<leftarrow> op_open E pl;
               if rc \<noteq> 0 then player_op_error rc ''opening audio device'' pl
               else Some (consumer_status_update CS_PLAYING pl) }
      | CS_PAUSED \<Rightarrow> do { pl \<leftarrow> op_call pl; Some (consumer_status_update CS_PLAYING pl) })"

definition consumer_drain_and_stop :: "player \<Rightarrow> player option" where
  "consumer_drain_and_stop pl =
     (if p_cs pl = CS_PLAYING \<or> p_cs pl = CS_PAUSED
      then do { pl \<leftarrow> op_close pl; Some (consumer_status_update CS_STOPPED pl) }
      else Some pl)"

definition consumer_stop :: "player \<Rightarrow> player option" where
  "consumer_stop pl =
     (if p_cs pl = CS_PLAYING \<or> p_cs pl = CS_PAUSED
      then do { pl \<leftarrow> op_call pl; pl \<leftarrow> op_close pl; Some (consumer_status_update CS_STOPPED pl) }
      else Some pl)"

definition consumer_pause :: "player \<Rightarrow> player option" where
  "consumer_pause pl =
     (if p_cs pl = CS_PLAYING then do { pl \<leftarrow> op_call pl; Some (consumer_status_update CS_PAUSED pl) }
      else if p_cs pl = CS_PAUSED then do { pl \<leftarrow> op_call pl; Some (consumer_status_update CS_PLAYING pl) }
      else Some pl)"

definition change_sf :: "env \<Rightarrow> bool \<Rightarrow> player \<Rightarrow> (int \<times> player) option" where
  "change_sf E drop_first pl =
     (let old_sf = p_sf pl; old_map = p_cmap pl
      in do { pl \<leftarrow> set_buffer_sf pl;
              if p_sf pl \<noteq> old_sf \<or> \<not> channel_map_equal (p_cmap pl) old_map (unat (sf_get_channels (p_sf pl)))
              then do { pl \<leftarrow> (if drop_first then op_call pl else Some pl);
                        pl \<leftarrow> op_close pl;
                        (rc, pl) \<leftarrow> op_open E pl;
                        if rc \<noteq> 0
                        then do { pl \<leftarrow> player_op_error rc ''opening audio device'' pl;
                                  pl \<leftarrow> producer_stop (consumer_status_update CS_STOPPED pl);
                                  Some (rc, pl) }
                        else Some (0, consumer_status_update CS_PLAYING pl) }
              else do { pl \<leftarrow> (if p_cs pl = CS_PAUSED then op_call pl else Some pl);
                        Some (0, consumer_status_update CS_PLAYING pl) } })"

text \<open>\<open>strcmp(player_info_priv.ti->album, ti->album) == 0\<close>: null pointers are dereferenced.\<close>

definition same_album :: "track_info option \<Rightarrow> track_info \<Rightarrow> bool option" where
  "same_album cur ti =
     do { c \<leftarrow> cur; a \<leftarrow> ti_album c; b \<leftarrow> ti_album ti; Some (a = b) }"

definition consumer_handle_eof :: "env \<Rightarrow> player \<Rightarrow> player option" where
  "consumer_handle_eof E pl =
     do { i \<leftarrow> the_ip pl;
          if ip_is_remote i
          then do { pl \<leftarrow> producer_stop pl;
                    pl \<leftarrow> consumer_drain_and_stop pl;
                    player_error (TextMsg ''lost connection'') pl }
          else do {
            let pl = pl\<lparr>p_info := (p_info pl)\<lparr>pi_ti :=
              map_option (\<lambda>ti. ti\<lparr>ti_play_count := (ti_play_count ti + 1) mod 2 ^ 32\<rparr>) (pi_ti (p_info pl))\<rparr>\<rparr>;
            if p_repeat_current pl
            then do { pl \<leftarrow> (if p_cont pl
                             then do { (rc, pl) \<leftarrow> seek_current E pl; reset_buffer pl }
                             else do { pl \<leftarrow> producer_stop pl; consumer_drain_and_stop pl });
                      player_status_changed pl }
            else case get_next_track E pl of
              (Some ti, pl) \<Rightarrow>
                do { pl \<leftarrow> producer_unload pl;
                     let pl = producer_status_update PS_STOPPED (pl\<lparr>p_ip := Ip (ip_new (ti_filename ti))\<rparr>);
                     go \<leftarrow> (if \<not> p_cont pl then Some False
                           else if p_cont_album pl then Some True
                           else same_album (pi_ti (p_info pl)) ti);
                     pl \<leftarrow> (if go
                            then do { pl \<leftarrow> producer_play E pl;
                                      if p_ps pl = PS_UNLOADED
                                      then do { pl \<leftarrow> consumer_stop pl; Some (file_changed E None pl) }
                                      else do { let pl = file_changed E (Some ti) pl;
                                                (rc, pl) \<leftarrow> change_sf E False pl;
                                                if rc = 0 then prebuffer E pl else Some pl } }
                            else do { pl \<leftarrow> consumer_drain_and_stop pl; Some (file_changed E (Some ti) pl) });
                     player_status_changed pl }
            | (None, pl) \<Rightarrow>
                do { pl \<leftarrow> producer_unload pl;
                     pl \<leftarrow> consumer_drain_and_stop pl;
                     player_status_changed (file_changed E None pl) } } }"

section \<open>The threads\<close>

text \<open>The device failed: close it and try to open it again.\<close>

definition reopen :: "env \<Rightarrow> player \<Rightarrow> player option" where
  "reopen E pl = do { pl \<leftarrow> op_close pl; consumer_play E (consumer_status_update CS_STOPPED pl) }"

text \<open>
  \<open>consumer_loop\<close> up to its inner loop: the thread waits unless playing, asks for the space in the
  device and enters the inner loop (\<open>p_space\<close>) keeping the consumer lock.
\<close>

definition consumer_begin :: "env \<Rightarrow> player \<Rightarrow> player option" where
  "consumer_begin E pl =
     (if p_cs pl = CS_PAUSED \<or> p_cs pl = CS_STOPPED then Some pl
      else do { pl \<leftarrow> op_call pl;
                let spc = e_op_space E (p_tick pl); pl = tick pl
                in if spc < 0 then reopen E pl else Some (pl\<lparr>p_space := Some spc\<rparr>) })"

text \<open>The end of an inner iteration that has \<open>size\<close> bytes at \<open>rpos\<close>: scale, write, consume.\<close>

definition write_out :: "env \<Rightarrow> int \<Rightarrow> int \<Rightarrow> buf_ptr \<Rightarrow> player \<Rightarrow> player option" where
  "write_out E spc sz rpos pl =
     do { let sz = (if sz > spc then spc else sz);
          bs \<leftarrow> buffer_peek rpos (nat sz) (p_buf pl);
          (bs, spos) \<leftarrow> (if soft_vol (p_vol pl) \<or> p_replaygain pl \<noteq> RG_DISABLED
                        then scale_samples (p_vol pl) (p_sf pl) (p_cpos pl) (p_spos pl) bs
                        else Some (bs, p_spos pl));
          b \<leftarrow> buffer_poke rpos bs (p_buf pl);
          bug_unless (p_op_open pl);
          let rc = e_op_write E (p_tick pl) bs;
          let pl = tick (pl\<lparr>p_buf := b, p_spos := spos\<rparr>);
          if rc < 0 then reopen E (pl\<lparr>p_space := None\<rparr>)
          else do { b \<leftarrow> buffer_consume rc (p_buf pl);
                    Some (pl\<lparr>p_buf := b, p_cpos := p_cpos pl + nat rc, p_space := Some (spc - rc)\<rparr>) } }"

text \<open>
  One iteration of the inner loop of \<open>consumer_loop\<close>. The second look at the read position is made under
  the producer lock; between the two looks only the producer can run, which cannot take bytes away, so
  one look stands for both.
\<close>

definition consumer_iter :: "env \<Rightarrow> player \<Rightarrow> player option" where
  "consumer_iter E pl =
     (case p_space pl of None \<Rightarrow> Some pl
      | Some spc \<Rightarrow>
          if spc = 0
          then do { pl \<leftarrow> consumer_position_update E pl; Some (pl\<lparr>p_space := None\<rparr>) }
          else do {
            (sz, rpos) \<leftarrow> buffer_get_rpos (p_buf pl);
            case rpos of
              Some p \<Rightarrow> write_out E spc sz p pl
            | None \<Rightarrow>
                if p_ps pl \<noteq> PS_PLAYING then Some (pl\<lparr>p_space := None\<rparr>)
                else do { i \<leftarrow> the_ip pl;
                          eof \<leftarrow> ip_eof i;
                          pl \<leftarrow> (if eof then consumer_handle_eof E pl else consumer_position_update E pl);
                          Some (pl\<lparr>p_space := None\<rparr>) } })"

text \<open>
  The reads of one round of \<open>producer_loop\<close>: \<open>n\<close> counts down from \<open>chunks + 1 = 2\<close>.
\<close>

primrec producer_reads :: "env \<Rightarrow> nat \<Rightarrow> player \<Rightarrow> player option" where
  "producer_reads E 0 pl = Some pl"
| "producer_reads E (Suc n) pl =
     do { (sz, wpos) \<leftarrow> buffer_get_wpos (p_buf pl);
          if sz = 0 then Some pl
          else do {
            (r, pl) \<leftarrow> read_step E sz pl;
            if r = RAgain then Some pl
            else do { (nr_read, pl) \<leftarrow> store_read E r wpos pl;
                      if nr_read = 0 then Some pl else producer_reads E n pl } } }"

definition producer_round :: "env \<Rightarrow> player \<Rightarrow> player option" where
  "producer_round E pl =
     (if p_ps pl = PS_UNLOADED \<or> p_ps pl = PS_PAUSED \<or> p_ps pl = PS_STOPPED then Some pl
      else do { i \<leftarrow> the_ip pl;
                eof \<leftarrow> ip_eof i;
                if eof then Some pl
                else do { pl \<leftarrow> producer_reads E 2 pl; producer_buffer_fill_update pl } })"

section \<open>The operations of the player\<close>

definition player_stop :: "player \<Rightarrow> player option" where
  "player_stop pl = do { pl \<leftarrow> consumer_stop pl; pl \<leftarrow> producer_stop pl; player_status_changed pl }"

definition player_play :: "env \<Rightarrow> player \<Rightarrow> player option" where
  "player_play E pl =
     do { remote \<leftarrow> (if p_ps pl = PS_PLAYING then map_option ip_is_remote (the_ip pl) else Some False);
          if remote then Some pl
          else do {
            let pre = (p_cs pl = CS_STOPPED);
            pl \<leftarrow> producer_play E pl;
            pl \<leftarrow> (if p_ps pl = PS_PLAYING
                   then do { pl \<leftarrow> consumer_play E pl;
                             if p_cs pl \<noteq> CS_PLAYING then producer_stop pl else Some pl }
                   else consumer_stop pl);
            pl \<leftarrow> player_status_changed pl;
            if p_cs pl = CS_PLAYING \<and> pre then prebuffer E pl else Some pl } }"

text \<open>
  \<open>player_pause\<close>: the first test looks at \<open>*ip\<close> whenever the pointer is not null, without a lock; the rest
  runs under both locks.
\<close>

definition pause_test :: "player \<Rightarrow> bool option" where
  "pause_test pl =
     do { remote \<leftarrow> (if p_ip pl = IpNull then Some False else map_option ip_is_remote (the_ip pl));
          Some (remote \<and> p_cs pl = CS_PLAYING) }"

definition pause_locked :: "env \<Rightarrow> player \<Rightarrow> player option" where
  "pause_locked E pl =
     (if p_cs pl = CS_STOPPED
      then do { pl \<leftarrow> producer_play E pl;
                pl \<leftarrow> (if p_ps pl = PS_PLAYING
                       then do { pl \<leftarrow> consumer_play E pl;
                                 if p_cs pl \<noteq> CS_PLAYING then producer_stop pl else Some pl }
                       else Some pl);
                pl \<leftarrow> player_status_changed pl;
                if p_cs pl = CS_PLAYING then prebuffer E pl else Some pl }
      else do { pl \<leftarrow> consumer_pause (producer_pause pl); player_status_changed pl })"

definition player_pause :: "env \<Rightarrow> player \<Rightarrow> player option" where
  "player_pause E pl = do { remote \<leftarrow> pause_test pl; if remote then player_stop pl else pause_locked E pl }"

definition player_pause_playback :: "env \<Rightarrow> player \<Rightarrow> player option" where
  "player_pause_playback E pl = (if p_cs pl = CS_PLAYING then player_pause E pl else Some pl)"

text \<open>The common end of \<open>player_set_file\<close> and \<open>player_play_file\<close> (label \<open>out\<close>).\<close>

definition set_file_out :: "env \<Rightarrow> player \<Rightarrow> player option" where
  "set_file_out E pl =
     do { pl \<leftarrow> player_status_changed pl; if p_ps pl = PS_PLAYING then prebuffer E pl else Some pl }"

definition player_set_file :: "env \<Rightarrow> track_info \<Rightarrow> player \<Rightarrow> player option" where
  "player_set_file E ti pl =
     do { pl \<leftarrow> producer_set_file E ti pl;
          pl \<leftarrow> (if p_ps pl = PS_UNLOADED then consumer_stop pl
                 else if p_cs pl = CS_PLAYING \<or> p_cs pl = CS_PAUSED
                 then do { pl \<leftarrow> op_call pl;
                           pl \<leftarrow> producer_play E pl;
                           if p_ps pl = PS_UNLOADED then consumer_stop pl
                           else map_option snd (change_sf E True pl) }
                 else Some pl);
          set_file_out E pl }"

definition player_play_file :: "env \<Rightarrow> track_info \<Rightarrow> player \<Rightarrow> player option" where
  "player_play_file E ti pl =
     do { pl \<leftarrow> producer_set_file E ti pl;
          pl \<leftarrow> (if p_ps pl = PS_UNLOADED then consumer_stop pl
                 else do { pl \<leftarrow> producer_play E pl;
                           if p_ps pl = PS_UNLOADED then consumer_stop pl
                           else if p_cs pl = CS_STOPPED
                           then do { pl \<leftarrow> consumer_play E pl;
                                     if p_cs pl = CS_STOPPED then producer_stop pl else Some pl }
                           else do { pl \<leftarrow> op_call pl; map_option snd (change_sf E True pl) } });
          set_file_out E pl }"

definition player_file_changed :: "env \<Rightarrow> track_info option \<Rightarrow> player \<Rightarrow> player" where
  "player_file_changed E ti pl = file_changed E ti pl"

text \<open>\<open>cmus_next\<close> of \<^verbatim>\<open>src/app/cmus.c\<close>.\<close>

definition cmus_next :: "env \<Rightarrow> player \<Rightarrow> player option" where
  "cmus_next E pl =
     (case get_next_track E pl of (None, pl) \<Rightarrow> Some pl | (Some ti, pl) \<Rightarrow> player_set_file E ti pl)"

text \<open>
  Where a seek goes: nowhere (\<open>SeekNone\<close>), to the next track, or to a position in seconds. \<open>pos\<close> is the
  current position.
\<close>

datatype seek_goal = SeekNone | SeekNext | SeekTo real

definition seek_target :: "real \<Rightarrow> bool \<Rightarrow> real \<Rightarrow> real \<Rightarrow> seek_goal" where
  "seek_target offset relative pos duration =
     (if relative
      then let new_pos = (if pos + offset < 0 then 0 else pos + offset)
           in if offset > 0
              then if new_pos > duration then SeekNext
                   else if (if new_pos < 0 then 0 else new_pos) < pos - 0.5 then SeekNone
                   else SeekTo (if new_pos < 0 then 0 else new_pos)
              else SeekTo new_pos
      else if offset < 0 then SeekNone
      else if offset > duration - 5
           then SeekTo (if duration - 5 < 0 then 0 else duration - 5)
           else SeekTo offset)"

text \<open>The part of \<open>player_seek\<close> for a track that is playing or paused.\<close>

definition seek_playing :: "env \<Rightarrow> real \<Rightarrow> bool \<Rightarrow> bool \<Rightarrow> player \<Rightarrow> player option" where
  "seek_playing E offset relative pause_after pl =
     do { bug_unless (buffer_second_size pl \<noteq> 0);
          i \<leftarrow> the_ip pl;
          bug_unless (ip_opened i);
          let (duration, i) = ip_duration (e_duration E (p_tick pl)) i;
          let pl = tick (pl\<lparr>p_ip := Ip i\<rparr>);
          if duration < 0 then Some pl
          else case seek_target offset relative (real (p_cpos pl) / real (buffer_second_size pl)) (of_int duration) of
            SeekNone \<Rightarrow> Some pl
          | SeekNext \<Rightarrow> cmus_next E pl
          | SeekTo new_pos \<Rightarrow>
              do { (rc, pl) \<leftarrow> seek_current E pl;
                   if rc = 0
                   then do { pl \<leftarrow> op_call pl;
                             pl \<leftarrow> reset_buffer pl;
                             let cpos = nat \<lfloor>new_pos * real (buffer_second_size pl)\<rfloor>;
                             pl \<leftarrow> consumer_position_update E (pl\<lparr>p_cpos := cpos, p_spos := cpos\<rparr>);
                             if pause_after
                             then do { pl \<leftarrow> consumer_pause (producer_pause pl); player_status_changed pl }
                             else Some pl }
                   else player_ip_error rc ''seeking in file'' pl } }"

definition player_seek :: "env \<Rightarrow> real \<Rightarrow> bool \<Rightarrow> bool \<Rightarrow> player \<Rightarrow> player option" where
  "player_seek E offset relative start_playing pl =
     (if p_cs pl = CS_STOPPED
      then do { pl \<leftarrow> producer_play E pl;
                if p_ps pl = PS_PLAYING
                then do { pl \<leftarrow> consumer_play E pl;
                          if p_cs pl \<noteq> CS_PLAYING then producer_stop pl
                          else do { pl \<leftarrow> player_status_changed pl;
                                    seek_playing E offset relative (\<not> start_playing) pl } }
                else Some pl }
      else seek_playing E offset relative False pl)"

text \<open>The selection of the plugin is commented out in the source, so \<open>rc\<close> is 0 after it.\<close>

definition player_set_op :: "env \<Rightarrow> player \<Rightarrow> player option" where
  "player_set_op E pl =
     (if p_cs pl = CS_PLAYING \<or> p_cs pl = CS_PAUSED
      then do { pl \<leftarrow> (if p_cs pl = CS_PAUSED then op_call pl else Some pl);
                pl \<leftarrow> op_close pl;
                pl \<leftarrow> set_buffer_sf pl;
                (rc, pl) \<leftarrow> op_open E pl;
                if rc \<noteq> 0
                then do { pl \<leftarrow> producer_stop (consumer_status_update CS_STOPPED pl);
                          player_op_error rc ''opening audio device'' pl }
                else if p_cs pl = CS_PAUSED then op_call pl else Some pl }
      else Some pl)"

definition player_set_buffer_chunks :: "env \<Rightarrow> nat \<Rightarrow> player \<Rightarrow> player option" where
  "player_set_buffer_chunks E nr_chunks pl =
     do { pl \<leftarrow> producer_stop pl;
          pl \<leftarrow> consumer_stop pl;
          b \<leftarrow> buffer_init (e_junk E (p_tick pl)) ((p_buf pl)\<lparr>buffer_nr_chunks := nr_chunks\<rparr>);
          player_status_changed (tick (pl\<lparr>p_buf := b\<rparr>)) }"

definition player_set_soft_volume :: "int \<Rightarrow> int \<Rightarrow> player \<Rightarrow> player" where
  "player_set_soft_volume l r pl = pl\<lparr>p_vol := (p_vol pl)\<lparr>soft_vol_l := l, soft_vol_r := r\<rparr>\<rparr>"

definition resync_scale_pos :: "player \<Rightarrow> player" where
  "resync_scale_pos pl =
     (if \<not> soft_vol (p_vol pl) \<and> p_replaygain pl = RG_DISABLED then pl\<lparr>p_spos := p_cpos pl\<rparr> else pl)"

definition player_set_soft_vol :: "bool \<Rightarrow> player \<Rightarrow> player" where
  "player_set_soft_vol soft pl =
     (let pl = resync_scale_pos pl in pl\<lparr>p_vol := (p_vol pl)\<lparr>soft_vol := soft\<rparr>\<rparr>)"

definition scale_from_percentage :: "int \<Rightarrow> int \<Rightarrow> int" where
  "scale_from_percentage val mx =
     (if val < 0 then c_div (val * mx - 50) 100 else c_div (val * mx + 50) 100)"

definition clamp :: "int \<Rightarrow> int \<Rightarrow> int \<Rightarrow> int" where
  "clamp val minval maxval = (if val < minval then minval else if val > maxval then maxval else val)"

text \<open>\<open>rel\<close> and \<open>pct\<close> are the flags \<open>VF_RELATIVE\<close> and \<open>VF_PERCENTAGE\<close>.\<close>

definition calc_vol :: "int \<Rightarrow> int \<Rightarrow> int \<Rightarrow> bool \<Rightarrow> bool \<Rightarrow> int" where
  "calc_vol val old max_vol rel pct =
     (let v = (if pct then scale_from_percentage val max_vol else val)
      in clamp (if rel then v + old else v) 0 max_vol)"

definition mixer_read_volume :: "env \<Rightarrow> player \<Rightarrow> player" where
  "mixer_read_volume E pl =
     tick (case e_mixer_get E (p_tick pl) of None \<Rightarrow> pl | Some (l, r) \<Rightarrow> pl\<lparr>p_volume_l := l, p_volume_r := r\<rparr>)"

definition player_set_vol ::
  "env \<Rightarrow> int \<Rightarrow> bool \<times> bool \<Rightarrow> int \<Rightarrow> bool \<times> bool \<Rightarrow> player \<Rightarrow> int \<times> player" where
  "player_set_vol E l lf r rf pl =
     (if soft_vol (p_vol pl)
      then (0, player_set_soft_volume (calc_vol l (soft_vol_l (p_vol pl)) 100 (fst lf) (snd lf))
                 (calc_vol r (soft_vol_r (p_vol pl)) 100 (fst rf) (snd rf)) pl)
      else let pl = mixer_read_volume E pl;
               l = calc_vol l (p_volume_l pl) (p_volume_max pl) (fst lf) (snd lf);
               r = calc_vol r (p_volume_r pl) (p_volume_max pl) (fst rf) (snd rf)
           in (e_mixer_set E (p_tick pl), mixer_read_volume E (tick pl)))"

definition player_set_rg :: "env \<Rightarrow> replaygain \<Rightarrow> player \<Rightarrow> player" where
  "player_set_rg E rg pl = update_rg_scale E ((resync_scale_pos pl)\<lparr>p_replaygain := rg\<rparr>)"

definition player_set_rg_limit :: "env \<Rightarrow> bool \<Rightarrow> player \<Rightarrow> player" where
  "player_set_rg_limit E limit pl = update_rg_scale E (pl\<lparr>p_rg_limit := limit\<rparr>)"

definition player_set_rg_preamp :: "env \<Rightarrow> real \<Rightarrow> player \<Rightarrow> player" where
  "player_set_rg_preamp E db pl = update_rg_scale E (pl\<lparr>p_rg_preamp := db\<rparr>)"

definition player_info_snapshot :: "player \<Rightarrow> player" where
  "player_info_snapshot pl =
     pl\<lparr>p_snapshot := p_info pl,
        p_info := (p_info pl)\<lparr>pi_file_changed := False, pi_metadata_changed := False, pi_status_changed := False,
          pi_position_changed := False, pi_buffer_fill_changed := False, pi_error_msg := None\<rparr>\<rparr>"

text \<open>\<open>player_init\<close> on the initial values of the static variables.\<close>

definition player_info0 :: player_info where
  "player_info0 =
     \<lparr>pi_ti = None, pi_status = PLAYER_STATUS_STOPPED, pi_pos = 0, pi_current_bitrate = -1, pi_buffer_fill = 0,
      pi_buffer_size = 0, pi_error_msg = None, pi_file_changed = False, pi_metadata_changed = False,
      pi_status_changed = False, pi_position_changed = False, pi_buffer_fill_changed = False\<rparr>"

definition player0 :: player where
  "player0 =
     \<lparr>p_ps = PS_UNLOADED, p_cs = CS_STOPPED, p_ip = IpNull, p_op_open = False,
      p_buf = \<lparr>buffer_chunks = [], buffer_nr_chunks = 0, buffer_ridx = 0, buffer_widx = 0\<rparr>,
      p_cpos = 0, p_spos = 0, p_sf = 0, p_cmap = channel_map_init, p_info = player_info0,
      p_snapshot = player_info0, p_metadata = [],
      p_vol = \<lparr>soft_vol = False, soft_vol_l = 0, soft_vol_r = 0, replaygain_scale = 1\<rparr>,
      p_replaygain = RG_DISABLED, p_rg_limit = True, p_rg_preamp = 0, p_cont = True, p_cont_album = True,
      p_repeat_current = False, p_show_bitrate = False, p_old_pos = 2 ^ 32 - 1, p_volume_l = -1,
      p_volume_r = -1, p_volume_max = 0, p_space = None, p_tick = 0\<rparr>"

definition player_init :: "env \<Rightarrow> player option" where
  "player_init E =
     do { b \<leftarrow> buffer_init (e_junk E 0)
            ((p_buf player0)\<lparr>buffer_nr_chunks := 10 * 44100 * 16 div 8 * 2 div CHUNK_SIZE\<rparr>);
          player_status_changed (tick (player0\<lparr>p_buf := b\<rparr>)) }"

text \<open>\<open>player_exit\<close>: both threads leave their loops, the consumer stops, the producer unloads.\<close>

definition player_exit :: "player \<Rightarrow> player option" where
  "player_exit pl =
     do { pl \<leftarrow> consumer_stop pl;
          pl \<leftarrow> producer_unload pl;
          Some (pl\<lparr>p_buf := buffer_free (p_buf pl)\<rparr>) }"

end
