(* ===== verification/Player_Safety.thy ===== *)
theory Player_Safety
  imports Player
begin

text \<open>
  Safety of the playback engine modelled in the theory \<open>Player\<close>. The invariant \<open>player_inv\<close> says which
  pairs of producer and consumer state occur, that the input handle and the output device are open
  exactly in the states that use them, and what the ring buffer and the volume state satisfy. Every
  operation and every step of the two threads returns (no fault, and no endless loop in \<open>_prebuffer\<close>)
  and keeps the invariant; the properties at the end carry this over to all reachable states, and show
  the three situations in which the program itself breaks it.

  The proofs compute weakest preconditions in the fault monad: \<open>runs P m\<close> says that \<open>m\<close> returns a value
  with \<open>P\<close>. Each function has one rule in this form and the rules compose by \<open>runs_mono\<close>.
\<close>

section \<open>Weakest preconditions in the fault monad\<close>

definition runs :: "('a \<Rightarrow> bool) \<Rightarrow> 'a option \<Rightarrow> bool" where
  "runs P m \<longleftrightarrow> (case m of None \<Rightarrow> False | Some x \<Rightarrow> P x)"

named_theorems wp \<open>weakest precondition rules\<close>

lemma runs_Some [wp]: "runs P (Some x) = P x"
  by (simp add: runs_def)

lemma runs_None [wp]: "runs P None = False"
  by (simp add: runs_def)

lemma runs_bind [wp]: "runs P (m \<bind> f) = runs (\<lambda>x. runs P (f x)) m"
  by (cases m) (simp_all add: runs_def)

lemma runs_bug_unless [wp]: "runs P (bug_unless b) = (b \<and> P ())"
  by (simp add: runs_def bug_unless_def)

lemma runs_if [wp]: "runs P (if b then m else n) = ((b \<longrightarrow> runs P m) \<and> (\<not> b \<longrightarrow> runs P n))"
  by simp

lemma runs_case_prod [wp]: "runs P (case x of (a, b) \<Rightarrow> f a b) = runs P (f (fst x) (snd x))"
  by (cases x) simp

lemma runs_map_option [wp]: "runs P (map_option f m) = runs (\<lambda>x. P (f x)) m"
  by (cases m) (simp_all add: runs_def)

lemma runs_mono: "runs Q m \<Longrightarrow> (\<And>x. Q x \<Longrightarrow> P x) \<Longrightarrow> runs P m"
  by (cases m) (simp_all add: runs_def)

lemma runs_ex: "runs P m \<longleftrightarrow> (\<exists>x. m = Some x \<and> P x)"
  by (cases m) (simp_all add: runs_def)

declare Let_def [wp]

section \<open>The invariant\<close>

text \<open>
  \<open>N\<close> is a number of chunks that the buffer always has. A format is usable when its sample size is one
  that the player handles, it has a channel and a rate, and a quarter of a second of it fits in \<open>N\<close> chunks.
\<close>

definition format_ok :: "nat \<Rightarrow> sample_format \<Rightarrow> bool" where
  "format_ok N sf \<longleftrightarrow>
     sf_get_bits sf \<in> {8, 16, 24, 32} \<and> sf_get_channels sf \<noteq> 0 \<and>
     sf_get_second_size (read_format sf) \<noteq> 0 \<and> limit_of (read_format sf) \<le> N"

text \<open>A handle that is open and set up: a conversion never yields more than \<open>ip_scale\<close> times its input.\<close>

definition ip_good :: "nat \<Rightarrow> input_plugin \<Rightarrow> bool" where
  "ip_good N i \<longleftrightarrow>
     ip_opened i \<and> format_ok N (ip_sf i) \<and> ip_scale i \<in> {1, 2, 4} \<and>
     (\<forall>raw. length (ip_convert i raw) \<le> unat (ip_scale i) * length raw)"

fun ip_state_ok :: "nat \<Rightarrow> producer_status \<Rightarrow> ip_ref \<Rightarrow> bool" where
  "ip_state_ok N PS_UNLOADED r = True"
| "ip_state_ok N PS_STOPPED (Ip i) = (\<not> ip_opened i)"
| "ip_state_ok N PS_PLAYING (Ip i) = ip_good N i"
| "ip_state_ok N PS_PAUSED (Ip i) = ip_good N i"
| "ip_state_ok N _ _ = False"

definition vol_ok :: "volume \<Rightarrow> bool" where
  "vol_ok v \<longleftrightarrow> 0 \<le> soft_vol_l v \<and> soft_vol_l v \<le> 100 \<and> 0 \<le> soft_vol_r v \<and> soft_vol_r v \<le> 100 \<and>
     0 \<le> replaygain_scale v"

definition scaling :: "player \<Rightarrow> bool" where
  "scaling pl \<longleftrightarrow> soft_vol (p_vol pl) \<or> p_replaygain pl \<noteq> RG_DISABLED"

text \<open>What holds also between the steps of an operation.\<close>

definition core :: "nat \<Rightarrow> player \<Rightarrow> bool" where
  "core N pl \<longleftrightarrow>
     buffer_inv (p_buf pl) \<and> N \<le> buffer_nr_chunks (p_buf pl) \<and>
     vol_ok (p_vol pl) \<and>
     (scaling pl \<longrightarrow> p_cpos pl \<le> p_spos pl) \<and> p_spos pl \<le> p_cpos pl + CHUNK_SIZE \<and>
     ip_state_ok N (p_ps pl) (p_ip pl) \<and> (p_ps pl \<noteq> PS_UNLOADED \<longrightarrow> pi_ti (p_info pl) \<noteq> None) \<and>
     (p_op_open pl \<longleftrightarrow> p_cs pl \<noteq> CS_STOPPED) \<and>
     (p_cs pl \<noteq> CS_STOPPED \<longrightarrow> buffer_second_size pl \<noteq> 0 \<and> limit_of (p_sf pl) \<le> N)"

text \<open>The pairs of states between operations, and the consumer inside its inner loop.\<close>

definition pair_ok :: "player \<Rightarrow> bool" where
  "pair_ok pl \<longleftrightarrow>
     (p_ps pl, p_cs pl) \<in> {(PS_UNLOADED, CS_STOPPED), (PS_STOPPED, CS_STOPPED), (PS_PLAYING, CS_STOPPED),
       (PS_PLAYING, CS_PLAYING), (PS_PAUSED, CS_PAUSED)} \<and>
     (\<forall>spc. p_space pl = Some spc \<longrightarrow> 0 \<le> spc \<and> p_cs pl = CS_PLAYING)"

definition player_inv :: "nat \<Rightarrow> player \<Rightarrow> bool" where
  "player_inv N pl \<longleftrightarrow> core N pl \<and> pair_ok pl"

text \<open>
  The assumptions on the other parts. Decoders report usable formats, store at most as many bytes as
  they are asked for and whole frames, and answer after finitely many retries; the device takes at most
  the bytes it is given; tag lists are well formed.
\<close>

definition env_ok :: "nat \<Rightarrow> env \<Rightarrow> bool" where
  "env_ok N E \<longleftrightarrow>
     (\<forall>t. oa_rc (e_open E t) = 0 \<longrightarrow> format_ok N (oa_sf (e_open E t))) \<and>
     (\<forall>t i n raw meta. e_read E t i n = ReadBytes raw meta \<longrightarrow>
        length raw \<le> n \<and> of_nat (length raw) mod sf_get_frame_size (ip_sf i) = 0) \<and>
     (\<forall>t. \<exists>d. \<forall>i n. e_read E (t + d) i n \<noteq> ReadAgain) \<and>
     (\<forall>t bs. e_op_write E t bs \<le> int (length bs)) \<and>
     (\<forall>t kv ti. e_comments E t = Some kv \<longrightarrow> (\<exists>ti'. track_info_set_comments (e_clib E) ti kv = Some ti')) \<and>
     (\<forall>t i. length (cdata (e_junk E t i)) = CHUNK_SIZE)"

lemma env_okD:
  assumes "env_ok N E"
  shows "oa_rc (e_open E t) = 0 \<Longrightarrow> format_ok N (oa_sf (e_open E t))"
    and "e_read E t i n = ReadBytes raw meta \<Longrightarrow>
      length raw \<le> n \<and> of_nat (length raw) mod sf_get_frame_size (ip_sf i) = 0"
    and "\<exists>d. \<forall>i n. e_read E (t + d) i n \<noteq> ReadAgain"
    and "e_op_write E t bs \<le> int (length bs)"
    and "e_comments E t = Some kv \<Longrightarrow> \<exists>ti'. track_info_set_comments (e_clib E) ti kv = Some ti'"
    and "length (cdata (e_junk E t k)) = CHUNK_SIZE"
  using assms unfolding env_ok_def by blast+

section \<open>The parts below the player\<close>

lemma buffer_nr_frame:
  "buffer_reset b = Some b' \<Longrightarrow> buffer_nr_chunks b' = buffer_nr_chunks b"
  "buffer_poke p xs b = Some b' \<Longrightarrow> buffer_nr_chunks b' = buffer_nr_chunks b"
  "buffer_fill n b = Some (r, b') \<Longrightarrow> buffer_nr_chunks b' = buffer_nr_chunks b"
  "buffer_consume n b = Some b' \<Longrightarrow> buffer_nr_chunks b' = buffer_nr_chunks b"
  by (auto simp: buffer_reset_def buffer_poke_def buffer_fill_def buffer_consume_def bind_eq_Some_conv
      Let_def split: if_splits)

lemma buffer_reset_runs:
  "buffer_inv b \<Longrightarrow> runs (\<lambda>b'. buffer_inv b' \<and> buffer_nr_chunks b' = buffer_nr_chunks b) (buffer_reset b)"
  using buffer_reset_correct [of b]
  by (auto simp: runs_ex buffer_inv_def list_all_iff chunk_ok_def)

lemma buffer_filled_runs:
  "buffer_inv b \<Longrightarrow> runs (\<lambda>n. True) (buffer_get_filled_chunks b)"
  by (metis buffer_invE get_filled_chunks_eq runs_ex)

lemma buffer_init_runs:
  assumes "0 < n" "n < 2 ^ 31" "\<And>i. length (cdata (junk i)) = CHUNK_SIZE"
  shows "runs (\<lambda>b'. buffer_inv b' \<and> buffer_nr_chunks b' = n) (buffer_init junk (b\<lparr>buffer_nr_chunks := n\<rparr>))"
  using buffer_reset_correct [of "b\<lparr>buffer_nr_chunks := n, buffer_chunks := map junk [0..<n]\<rparr>"] assms
  by (auto simp: buffer_init_def runs_ex)

lemma ip_setup_runs:
  assumes "ip_opened i" "format_ok N (ip_sf i)"
  shows "runs (ip_good N) (ip_setup i)"
proof (cases "sf_get_bits (ip_sf i) \<le> 16 \<and> sf_get_channels (ip_sf i) \<le> 2")
  case True
  then have b: "sf_get_bits (ip_sf i) = 8 \<or> sf_get_bits (ip_sf i) = 16"
    using assms(2) by (auto simp: format_ok_def)
  have "unat (sf_get_channels (ip_sf i)) \<le> 2" "unat (sf_get_channels (ip_sf i)) \<noteq> 0"
    using True assms(2) by (auto simp: format_ok_def word_le_nat_alt unat_eq_0)
  then have "unat (sf_get_channels (ip_sf i)) = unat (1 :: u32) \<or> unat (sf_get_channels (ip_sf i)) = unat (2 :: u32)"
    by auto
  then have c: "sf_get_channels (ip_sf i) = 1 \<or> sf_get_channels (ip_sf i) = 2"
    by (simp only: word_unat_eq_iff)
  obtain i' where i': "ip_setup i = Some i'" "ip_sf i' = ip_sf i" "ip_opened i' = ip_opened i"
    using b c ip_setup_8 [of i] ip_setup_16 [of i] by fastforce
  then show ?thesis
    using length_ip_convert [OF b c i'(1)] assms by (simp add: runs_def ip_good_def)
next
  case False
  then have "ip_setup i = Some (i\<lparr>ip_scale := 1, ip_conv := None, ip_conv_in_place := None\<rparr>)"
    unfolding ip_setup_def Let_def by (simp only: if_False)
  then show ?thesis using assms by (simp add: runs_def ip_good_def ip_convert_def)
qed

lemma rg_scale_nonneg: "0 \<le> rg_scale rg avoid limit preamp ti"
  by (auto simp: rg_scale_def Let_def case_prod_beta split: option.splits)

section \<open>Status and information\<close>

lemma core_sel:
  assumes "core N pl"
  shows "buffer_inv (p_buf pl)" "N \<le> buffer_nr_chunks (p_buf pl)" "vol_ok (p_vol pl)" "scaling pl \<Longrightarrow> p_cpos pl \<le> p_spos pl"
    "p_spos pl \<le> p_cpos pl + CHUNK_SIZE" "ip_state_ok N (p_ps pl) (p_ip pl)"
    "p_ps pl \<noteq> PS_UNLOADED \<Longrightarrow> \<exists>ti. pi_ti (p_info pl) = Some ti" "p_op_open pl \<longleftrightarrow> p_cs pl \<noteq> CS_STOPPED"
    "p_cs pl \<noteq> CS_STOPPED \<Longrightarrow> buffer_second_size pl \<noteq> 0" "p_cs pl \<noteq> CS_STOPPED \<Longrightarrow> limit_of (p_sf pl) \<le> N"
  using assms by (auto simp: core_def)

text \<open>
  The fields that the invariant and the later operations look at; \<open>same_state\<close> is what an update of the
  information for the user interface keeps.
\<close>

definition same_state :: "player \<Rightarrow> player \<Rightarrow> bool" where
  "same_state pl pl' \<longleftrightarrow>
     p_ps pl' = p_ps pl \<and> p_cs pl' = p_cs pl \<and> p_ip pl' = p_ip pl \<and> p_op_open pl' = p_op_open pl \<and>
     p_buf pl' = p_buf pl \<and> p_cpos pl' = p_cpos pl \<and> p_spos pl' = p_spos pl \<and> p_sf pl' = p_sf pl \<and>
     p_vol pl' = p_vol pl \<and> p_replaygain pl' = p_replaygain pl \<and> p_rg_preamp pl' = p_rg_preamp pl \<and>
     p_cont_album pl' = p_cont_album pl \<and> p_space pl' = p_space pl \<and> pi_ti (p_info pl') = pi_ti (p_info pl)"

lemma same_state_core: "same_state pl pl' \<Longrightarrow> core N pl' = core N pl"
  by (simp add: same_state_def core_def scaling_def buffer_second_size_def)

lemma same_state_tick [simp]: "same_state pl (tick pl)"
  by (simp add: same_state_def tick_def)

lemma tick_sel [simp]:
  "core N (tick pl) = core N pl" "p_ps (tick pl) = p_ps pl" "p_cs (tick pl) = p_cs pl"
  "p_ip (tick pl) = p_ip pl" "p_buf (tick pl) = p_buf pl" "p_space (tick pl) = p_space pl"
  "p_sf (tick pl) = p_sf pl" "p_op_open (tick pl) = p_op_open pl" "p_info (tick pl) = p_info pl"
  "p_tick (tick pl) = Suc (p_tick pl)" "p_cont (tick pl) = p_cont pl" "p_cont_album (tick pl) = p_cont_album pl"
  using same_state_core [OF same_state_tick, of N pl] by (simp_all add: tick_def)

lemma player_error_runs:
  "core N pl \<Longrightarrow> runs (same_state pl) (player_error m pl)"
  unfolding player_error_def wp
  by (rule runs_mono [OF buffer_filled_runs]) (auto simp: core_def same_state_def wp)

lemma player_op_error_inv:
  "buffer_inv (p_buf pl) \<Longrightarrow> runs (same_state pl) (player_op_error rc m pl)"
  unfolding player_op_error_def player_error_def wp
  by (rule runs_mono [OF buffer_filled_runs]) (auto simp: same_state_def)

lemma player_op_error_runs:
  "core N pl \<Longrightarrow> runs (same_state pl) (player_op_error rc m pl)"
  by (simp add: player_op_error_def player_error_runs)

lemma player_ip_error_runs:
  "core N pl \<Longrightarrow> p_ip pl = Ip i \<Longrightarrow> runs (same_state pl) (player_ip_error rc m pl)"
  using player_error_runs by (simp add: player_ip_error_def the_ip_def)

lemma fill_update_runs:
  "core N pl \<Longrightarrow> runs (same_state pl) (producer_buffer_fill_update pl)"
  unfolding producer_buffer_fill_update_def wp
  by (rule runs_mono [OF buffer_filled_runs]) (auto simp: core_def same_state_def wp)

lemma position_runs: "core N pl \<Longrightarrow> runs (\<lambda>p. True) (position pl)"
  by (auto simp: position_def wp core_def)

lemma status_changed_runs:
  "core N pl \<Longrightarrow> runs (same_state pl) (player_status_changed pl)"
  unfolding player_status_changed_def wp
  by (rule runs_mono [OF position_runs], assumption, rule runs_mono [OF buffer_filled_runs])
    (auto simp: core_def same_state_def wp)

lemma position_update_runs:
  assumes "core N pl" "p_ps pl = PS_PLAYING \<or> p_ps pl = PS_PAUSED"
  shows "runs (same_state pl) (consumer_position_update E pl)"
proof -
  from core_sel(6) [OF assms(1)] assms(2) obtain i where "p_ip pl = Ip i" "ip_opened i"
    by (cases "p_ip pl") (auto simp: ip_good_def)
  then show ?thesis
    unfolding consumer_position_update_def wp
    by (intro runs_mono [OF position_runs [OF assms(1)]])
      (auto simp: the_ip_def wp same_state_def tick_def)
qed

lemma file_changed_load:
  assumes "core N pl" "ip_state_ok N s r" "s \<noteq> PS_UNLOADED \<Longrightarrow> ti \<noteq> None"
  shows "core N (file_changed E ti (pl\<lparr>p_ip := r, p_ps := s\<rparr>))"
  using assms rg_scale_nonneg [of "p_replaygain pl" _ "p_rg_limit pl" "p_rg_preamp pl" ti]
  by (auto simp: file_changed_def update_rg_scale_def tick_def core_def vol_ok_def scaling_def buffer_second_size_def)

lemma file_changed_core:
  assumes "core N pl" "p_ps pl \<noteq> PS_UNLOADED \<Longrightarrow> ti \<noteq> None"
  shows "core N (file_changed E ti pl)"
  using file_changed_load [OF assms(1) core_sel(6) [OF assms(1)]] assms(2) by simp

lemma file_changed_sel [simp]:
  "p_ps (file_changed E ti pl) = p_ps pl" "p_cs (file_changed E ti pl) = p_cs pl"
  "p_ip (file_changed E ti pl) = p_ip pl" "p_space (file_changed E ti pl) = p_space pl"
  "p_buf (file_changed E ti pl) = p_buf pl" "pi_ti (p_info (file_changed E ti pl)) = ti"
  "p_sf (file_changed E ti pl) = p_sf pl"
  by (simp_all add: file_changed_def update_rg_scale_def tick_def Let_def)

section \<open>Reading into the buffer\<close>

definition frame :: "player \<Rightarrow> player \<Rightarrow> bool" where
  "frame pl pl' \<longleftrightarrow> p_ps pl' = p_ps pl \<and> p_cs pl' = p_cs pl \<and> p_space pl' = p_space pl \<and>
     buffer_nr_chunks (p_buf pl') = buffer_nr_chunks (p_buf pl)"

lemma frame_trans: "frame a b \<Longrightarrow> frame b c \<Longrightarrow> frame a c"
  by (simp add: frame_def)

lemma same_state_frame: "same_state pl pl' \<Longrightarrow> frame pl pl'"
  by (simp add: same_state_def frame_def)

lemma playing_ip:
  assumes "core N pl" "p_ps pl = PS_PLAYING \<or> p_ps pl = PS_PAUSED"
  obtains i where "p_ip pl = Ip i" "ip_good N i" "ip_opened i"
  using core_sel(6) [OF assms(1)] assms(2) by (cases "p_ip pl") (auto simp: ip_good_def)

text \<open>The write position, and what storing bytes there does to the buffer.\<close>

lemma wpos_room:
  assumes "buffer_inv b"
  obtains sz p where "buffer_get_wpos b = Some (int sz, p)" "sz = 0 \<longleftrightarrow> p = None"
    "sz = 0 \<Longrightarrow> buffer_get_filled_chunks b = Some (int (buffer_nr_chunks b))"
proof -
  from get_wpos_cases [OF assms] show thesis
  proof (elim disjE exE conjE)
    fix fs us c assume "ring_split b fs (c # us)" and c: "chunk_ok c" "\<not> c_filled c"
      and w: "buffer_get_wpos b = Some (int (CHUNK_SIZE - c_h c), Some (buffer_widx b, c_h c))"
    from c have "CHUNK_SIZE - c_h c \<noteq> 0" by (auto simp: chunk_ok_def)
    with w show thesis by (intro that [of "CHUNK_SIZE - c_h c" "Some (buffer_widx b, c_h c)"]) simp_all
  next
    fix fs assume s: "ring_split b fs []" and w: "buffer_get_wpos b = Some (0, None)"
    from s have "length fs = buffer_nr_chunks b"
      using assms length_ring [of b] by (simp add: ring_split_def buffer_inv_def del: length_ring)
    with get_filled_chunks_eq [OF assms s] w show thesis by (intro that [of 0 None]) simp_all
  qed
qed

lemma push_parts:
  assumes "buffer_inv b" "buffer_get_wpos b = Some (int sz, Some p)" "0 < sz" "length xs \<le> sz"
  obtains b1 f b2 where "buffer_poke p xs b = Some b1" "buffer_inv b1"
    "buffer_nr_chunks b1 = buffer_nr_chunks b" "buffer_fill (int (length xs)) b1 = Some (f, b2)" "buffer_inv b2"
    "buffer_nr_chunks b2 = buffer_nr_chunks b" "content b2 = content b @ xs"
proof -
  from get_wpos_cases [OF assms(1)] assms(2,3) obtain fs us c where
    s: "ring_split b fs (c # us)" and p: "p = (buffer_widx b, c_h c)" "sz = CHUNK_SIZE - c_h c"
    by auto
  have "c_h c + length xs \<le> CHUNK_SIZE" using assms(3,4) p(2) by simp
  then obtain b1 where b1: "buffer_poke p xs b = Some b1" "buffer_inv b1"
    using poke_split [OF assms(1) s, of xs] p(1) by blast
  have "0 < space b" "length xs \<le> space b" using assms by (simp_all add: space_def)
  from buffer_push_correct [OF assms(1) this] obtain f b2 where
    "buffer_fill (int (length xs)) b1 = Some (f, b2)" "buffer_inv b2" "content b2 = content b @ xs"
    by (auto simp: buffer_push_def assms(2) b1 bind_eq_Some_conv)
  with b1 that show thesis using buffer_nr_frame by metis
qed

lemma content_bound: "buffer_inv b \<Longrightarrow> length (content b) \<le> buffer_nr_chunks b * CHUNK_SIZE"
proof (erule buffer_invE)
  fix fs us assume s: "ring_split b fs us" "length fs + length us = buffer_nr_chunks b"
    "\<forall>c\<in>set (fs @ us). chunk_ok c"
  have one: "length (payload c) \<le> CHUNK_SIZE" if "chunk_ok c" for c
    using that by (auto simp: payload_def chunk_ok_def)
  have "length (concat (map payload cs)) \<le> length cs * CHUNK_SIZE" if "\<forall>c\<in>set cs. chunk_ok c" for cs
    using that
  proof (induction cs)
    case (Cons c cs)
    then show ?case using one [of c] by simp
  qed simp
  from this [OF s(3)] s(1,2) show ?thesis by (simp add: content_def ring_split_def)
qed

lemma read_step_runs:
  assumes "env_ok N E" "core N pl" "p_ps pl = PS_PLAYING" "0 < sz"
  shows "runs (\<lambda>(r, pl'). core N pl' \<and> frame pl pl' \<and> p_buf pl' = p_buf pl \<and> p_tick pl' = Suc (p_tick pl) \<and>
    (\<forall>bs. r = RBytes bs \<longrightarrow> length bs \<le> sz) \<and> (r = RAgain \<longrightarrow> (\<exists>i n. e_read E (p_tick pl) i n = ReadAgain)))
    (read_step E (int sz) pl)"
proof -
  obtain i where i: "p_ip pl = Ip i" "ip_good N i" using playing_ip [OF assms(2)] assms(3) by blast
  let ?n = "ip_read_count i sz"
  have fits: "unat (ip_scale i) * n \<le> sz" if "n \<le> ?n" for n
  proof -
    from i(2) consider "ip_scale i = 1" | "ip_scale i = 2" | "ip_scale i = 4" by (auto simp: ip_good_def)
    then show ?thesis using that by cases (auto simp: ip_read_count_def)
  qed
  have conv: "length (ip_convert (i\<lparr>ip_metadata_flag := b\<rparr>) raw) \<le> sz" if "length raw \<le> ?n" for raw b
  proof -
    have "length (ip_convert i raw) \<le> unat (ip_scale i) * length raw" using i(2) by (simp add: ip_good_def)
    with fits [OF that] show ?thesis by (simp add: ip_convert_def)
  qed
  have good: "ip_good N (i\<lparr>ip_metadata_flag := b, ip_eof_flag := e\<rparr>)" "ip_good N (i\<lparr>ip_metadata_flag := b\<rparr>)"
    "ip_good N (i\<lparr>ip_eof_flag := e\<rparr>)" for b e
    using i(2) by (simp_all add: ip_good_def ip_convert_def)
  have upd: "core N (pl\<lparr>p_ip := Ip j\<rparr>)" if "ip_good N j" for j
    using assms(2,3) that by (simp add: core_def scaling_def buffer_second_size_def)
  show ?thesis
    using assms(4) env_okD(2) [OF assms(1), of "p_tick pl" i ?n] good conv i
    by (cases "e_read E (p_tick pl) i ?n")
      (auto simp: read_step_def the_ip_def ip_read_def wp upd frame_def Let_def intro: exI)
qed

lemma metadata_changed_runs:
  assumes "env_ok N E" "core N pl" "p_ps pl = PS_PLAYING"
  shows "runs (\<lambda>pl'. core N pl' \<and> frame pl pl' \<and> p_buf pl' = p_buf pl) (metadata_changed E pl)"
proof -
  obtain i where i: "p_ip pl = Ip i" "ip_opened i" using playing_ip [OF assms(2)] assms(3) by blast
  obtain ti where ti: "pi_ti (p_info pl) = Some ti"
    using core_sel(7) [OF assms(2)] assms(3) by fastforce
  have set: "runs (\<lambda>_. True) (track_info_set_comments (e_clib E) ti kv)" if "e_comments E (p_tick pl) = Some kv" for kv
    using env_okD(5) [OF assms(1) that] by (auto simp: runs_ex)
  define pl1 where "pl1 = (case e_metadata E (p_tick pl) of None \<Rightarrow> pl | Some m \<Rightarrow> pl\<lparr>p_metadata := m\<rparr>)"
  then have pl1: "same_state pl pl1" "p_tick pl1 = p_tick pl" "p_info pl1 = p_info pl"
    by (auto simp: same_state_def split: option.splits)
  then have core1: "core N pl1" using assms(2) by (simp add: same_state_core)
  have "core N (tick (pl1\<lparr>p_info := (p_info pl)\<lparr>pi_ti := Some t, pi_metadata_changed := True\<rparr>\<rparr>))" for t
    using core1 by (simp add: core_def scaling_def buffer_second_size_def tick_def)
  moreover have "core N (tick (pl1\<lparr>p_info := (p_info pl)\<lparr>pi_metadata_changed := True\<rparr>\<rparr>))"
    using core1 pl1(3) by (simp add: core_def scaling_def buffer_second_size_def tick_def)
  ultimately show ?thesis
    using set i ti pl1
    by (cases "e_comments E (p_tick pl)")
      (auto simp: metadata_changed_def the_ip_def wp pl1_def [symmetric] frame_def same_state_def
        intro!: runs_mono [OF set])
qed

lemma store_read_runs:
  assumes "env_ok N E" "core N pl" "p_ps pl = PS_PLAYING" "r \<noteq> RAgain"
    and "buffer_get_wpos (p_buf pl) = Some (int sz, Some p)" "0 < sz" "\<And>bs. r = RBytes bs \<Longrightarrow> length bs \<le> sz"
  shows "runs (\<lambda>(n, pl'). core N pl' \<and> frame pl pl' \<and>
    length (content (p_buf pl')) = length (content (p_buf pl)) + n) (store_read E r (Some p) pl)"
proof -
  obtain i where i: "p_ip pl = Ip i" "ip_good N i" "ip_opened i" using playing_ip [OF assms(2)] assms(3) by blast
  define rest where "rest bs pl = do {
      b \<leftarrow> buffer_poke p bs (p_buf pl);
      i \<leftarrow> the_ip pl;
      (changed, i) \<leftarrow> ip_metadata_changed i;
      let pl = pl\<lparr>p_buf := b, p_ip := Ip i\<rparr>;
      pl \<leftarrow> (if changed then metadata_changed E pl else Some pl);
      (f, b) \<leftarrow> buffer_fill (int (length bs)) (p_buf pl);
      Some (length bs, pl\<lparr>p_buf := b\<rparr>) }" for bs pl
  have rest: "runs (\<lambda>(n, pl'). core N pl' \<and> frame pl pl' \<and>
      length (content (p_buf pl')) = length (content (p_buf pl)) + n) (rest bs q)"
    if q: "same_state pl q" and len: "length bs \<le> sz" for bs q
  proof -
    obtain b1 f b2 where b: "buffer_poke p bs (p_buf pl) = Some b1" "buffer_inv b1"
      "buffer_nr_chunks b1 = buffer_nr_chunks (p_buf pl)" "buffer_fill (int (length bs)) b1 = Some (f, b2)"
      "buffer_inv b2" "buffer_nr_chunks b2 = buffer_nr_chunks (p_buf pl)" "content b2 = content (p_buf pl) @ bs"
      using push_parts [OF core_sel(1) [OF assms(2)] assms(5,6) len] .
    let ?i = "i\<lparr>ip_metadata_flag := False\<rparr>" and ?q = "q\<lparr>p_buf := b1, p_ip := Ip (i\<lparr>ip_metadata_flag := False\<rparr>)\<rparr>"
    have "ip_good N ?i" using i(2) by (simp add: ip_good_def ip_convert_def)
    then have cq: "core N ?q" and fq: "frame pl ?q"
      using assms(2,3) q b(2,3) same_state_core [OF q, of N]
      by (simp_all add: core_def same_state_def frame_def scaling_def buffer_second_size_def)
    have fin: "core N (x\<lparr>p_buf := b2\<rparr>)" "frame pl (x\<lparr>p_buf := b2\<rparr>)" if "core N x" "frame ?q x" for x
      using that b fq by (simp_all add: core_def scaling_def buffer_second_size_def frame_def)
    have meta: "runs (\<lambda>x. core N x \<and> frame ?q x \<and> p_buf x = b1) (if ip_metadata_flag i then metadata_changed E ?q else Some ?q)"
      using metadata_changed_runs [OF assms(1) cq] q assms(3) cq
      by (auto simp: wp same_state_def frame_def)
    have eq: "rest bs q = (if ip_metadata_flag i then metadata_changed E ?q else Some ?q) \<bind>
        (\<lambda>x. buffer_fill (int (length bs)) (p_buf x) \<bind> (\<lambda>(f, b). Some (length bs, x\<lparr>p_buf := b\<rparr>)))"
      using i q b(1) by (simp add: rest_def the_ip_def ip_metadata_changed_def same_state_def Let_def)
    show ?thesis
      unfolding eq runs_bind by (rule runs_mono [OF meta]) (clarsimp simp: runs_Some b(4,7) fin)
  qed
  show ?thesis
  proof (cases r)
    case (RError e)
    have "store_read E r (Some p) pl = player_ip_error e ''reading file'' pl \<bind> rest []"
      by (cases "player_ip_error e ''reading file'' pl") (simp_all add: store_read_def RError rest_def)
    then show ?thesis
      using runs_mono [OF player_ip_error_runs [OF assms(2) i(1)] rest [of _ "[]"]] by (simp add: wp)
  next
    case (RBytes bs)
    have "store_read E r (Some p) pl = rest bs pl" by (simp add: store_read_def RBytes rest_def)
    then show ?thesis using rest [of pl bs] assms(7) [OF RBytes] by (simp add: same_state_def)
  qed (use assms(4) in simp)
qed

text \<open>One pass through the loop of \<open>_prebuffer\<close>, for a continuation \<open>k\<close>.\<close>

lemma prebuffer_pass:
  assumes E: "env_ok N E" "core N pl" "p_ps pl = PS_PLAYING" and lmt: "lmt \<le> int (buffer_nr_chunks (p_buf pl))"
    and post: "\<And>q. core N q \<Longrightarrow> frame pl q \<Longrightarrow> Q q"
    and again: "\<And>q i n. core N q \<Longrightarrow> frame pl q \<Longrightarrow> p_buf q = p_buf pl \<Longrightarrow> p_tick q = Suc (p_tick pl) \<Longrightarrow>
      e_read E (p_tick pl) i n = ReadAgain \<Longrightarrow> runs Q (prebuffer_loop E lmt q)"
    and more: "\<And>q. core N q \<Longrightarrow> frame pl q \<Longrightarrow> length (content (p_buf q)) > length (content (p_buf pl)) \<Longrightarrow>
      runs Q (prebuffer_loop E lmt q)"
  shows "runs Q (prebuffer_loop E lmt pl)"
proof -
  obtain sz p where w: "buffer_get_wpos (p_buf pl) = Some (int sz, p)" "sz = 0 \<longleftrightarrow> p = None"
    "sz = 0 \<Longrightarrow> buffer_get_filled_chunks (p_buf pl) = Some (int (buffer_nr_chunks (p_buf pl)))"
    by (rule wpos_room [OF core_sel(1) [OF E(2)]]) blast
  obtain n where n: "buffer_get_filled_chunks (p_buf pl) = Some n"
    using buffer_filled_runs [OF core_sel(1) [OF E(2)]] by (auto simp: runs_ex)
  show ?thesis
  proof (cases "n \<ge> lmt")
    case True
    then show ?thesis using n post E(2) by (subst prebuffer_loop.simps) (simp add: wp frame_def)
  next
    case False
    with w lmt n obtain p' where p: "p = Some p'" "0 < sz" by fastforce
    note w = w(1) [unfolded p(1)]
    have more': "runs Q (producer_buffer_fill_update q \<bind> (\<lambda>q. if n = 0 then Some q else prebuffer_loop E lmt q))"
      if "core N q" "frame pl q" "length (content (p_buf q)) = length (content (p_buf pl)) + n" for n q
      unfolding runs_bind
    proof (rule runs_mono [OF fill_update_runs [OF that(1)]])
      fix q' assume q': "same_state q q'"
      have "core N q'" using that(1) same_state_core [OF q'] by simp
      moreover have "frame pl q'" using frame_trans [OF that(2) same_state_frame [OF q']] .
      moreover have "p_buf q' = p_buf q" using q' by (simp add: same_state_def)
      ultimately show "runs Q (if n = 0 then Some q' else prebuffer_loop E lmt q')"
        using post more that(3) by (simp add: runs_Some)
    qed
    have eq: "prebuffer_loop E lmt pl = read_step E (int sz) pl \<bind> (\<lambda>(r, q).
        if r = RAgain then prebuffer_loop E lmt q
        else store_read E r (Some p') q \<bind> (\<lambda>(n, q). producer_buffer_fill_update q \<bind>
          (\<lambda>q. if n = 0 then Some q else prebuffer_loop E lmt q)))"
      using False n w by (subst prebuffer_loop.simps) simp
    show ?thesis
      unfolding eq runs_bind
    proof (rule runs_mono [OF read_step_runs [OF E p(2)]], clarsimp, intro conjI impI)
      fix r q
      assume q: "core N q" "frame pl q" "p_buf q = p_buf pl" "p_tick q = Suc (p_tick pl)"
        "\<forall>bs. r = RBytes bs \<longrightarrow> length bs \<le> sz"
      then show "runs Q (prebuffer_loop E lmt q)" if "r = RAgain \<longrightarrow> (\<exists>i n. e_read E (p_tick pl) i n = ReadAgain)" "r = RAgain"
        using again that by blast
      assume r: "r \<noteq> RAgain"
      have "runs (\<lambda>(n, q'). core N q' \<and> frame q q' \<and> length (content (p_buf q')) = length (content (p_buf q)) + n)
          (store_read E r (Some p') q)"
        using q r E w p(2) by (intro store_read_runs) (auto simp: frame_def)
      then show "runs Q (store_read E r (Some p') q \<bind> (\<lambda>(n, q). producer_buffer_fill_update q \<bind>
          (\<lambda>q. if n = 0 then Some q else prebuffer_loop E lmt q)))"
        unfolding runs_bind by (rule runs_mono) (use q more' frame_trans in \<open>auto simp del: runs_bind\<close>)
    qed
  qed
qed

lemma prebuffer_loop_runs:
  assumes "env_ok N E" "core N pl" "p_ps pl = PS_PLAYING" "lmt \<le> int (buffer_nr_chunks (p_buf pl))"
  shows "runs (\<lambda>q. core N q \<and> frame pl q) (prebuffer_loop E lmt pl)"
  using assms(2-4)
proof (induction "buffer_nr_chunks (p_buf pl) * CHUNK_SIZE - length (content (p_buf pl))" arbitrary: pl rule: less_induct)
  case (less pl)
  obtain d where d: "\<forall>i n. e_read E (p_tick pl + d) i n \<noteq> ReadAgain" using env_okD(3) [OF assms(1)] by blast
  have more: "runs (\<lambda>q. core N q \<and> frame pl q) (prebuffer_loop E lmt q')"
    if "core N q'" "frame pl q'" "length (content (p_buf pl)) < length (content (p_buf q'))" for q'
  proof -
    have "length (content (p_buf q')) \<le> buffer_nr_chunks (p_buf q') * CHUNK_SIZE"
      using content_bound core_sel(1) [OF that(1)] by blast
    then have "runs (\<lambda>q. core N q \<and> frame q' q) (prebuffer_loop E lmt q')"
      using that less.prems by (intro less.hyps) (auto simp: frame_def)
    then show ?thesis by (rule runs_mono) (use that(2) frame_trans in blast)
  qed
  have "runs (\<lambda>q. core N q \<and> frame pl q) (prebuffer_loop E lmt q)"
    if "core N q" "frame pl q" "p_buf q = p_buf pl" "\<forall>i n. e_read E (p_tick q + d) i n \<noteq> ReadAgain" for q
    using that
  proof (induction d arbitrary: q)
    case 0
    show ?case
      by (rule prebuffer_pass [OF assms(1) 0(1)]) (use 0 less.prems more frame_trans in \<open>auto simp: frame_def\<close>)
  next
    case (Suc d)
    show ?case
    proof (rule prebuffer_pass [OF assms(1) Suc.prems(1)])
      fix q' i n
      assume "core N q'" "frame q q'" "p_buf q' = p_buf q" "p_tick q' = Suc (p_tick q)"
      then show "runs (\<lambda>q. core N q \<and> frame pl q) (prebuffer_loop E lmt q')"
        using Suc.prems frame_trans by (intro Suc.IH) auto
    qed (use Suc.prems less.prems more frame_trans in \<open>auto simp: frame_def\<close>)
  qed
  from this [OF less.prems(1) _ _ d] show ?case by (simp add: frame_def)
qed

lemma prebuffer_runs:
  assumes "env_ok N E" "core N pl" "p_ps pl = PS_PLAYING" "p_cs pl \<noteq> CS_STOPPED"
  shows "runs (\<lambda>q. core N q \<and> frame pl q) (prebuffer E pl)"
proof -
  obtain i where i: "p_ip pl = Ip i" using playing_ip [OF assms(2)] assms(3) by blast
  have "limit_of (p_sf pl) \<le> buffer_nr_chunks (p_buf pl)"
    using core_sel(2,10) [OF assms(2)] assms(4) by simp
  then show ?thesis
    using prebuffer_loop_runs [OF assms(1-3)] assms(3) i by (simp add: prebuffer_def the_ip_def wp)
qed

section \<open>Setting the producer and consumer status\<close>

definition pframe :: "player \<Rightarrow> player \<Rightarrow> bool" where
  "pframe pl pl' \<longleftrightarrow> p_cs pl' = p_cs pl \<and> p_space pl' = p_space pl"

definition cframe :: "player \<Rightarrow> player \<Rightarrow> bool" where
  "cframe pl pl' \<longleftrightarrow> p_ps pl' = p_ps pl \<and> p_space pl' = p_space pl"

lemmas core_defs = core_def scaling_def buffer_second_size_def
lemmas frames = frame_def pframe_def cframe_def

text \<open>The updates of the information, as they are used below.\<close>

lemma same_state_core_frame: "core N pl \<Longrightarrow> same_state pl q \<Longrightarrow> core N q \<and> frame pl q"
  using same_state_core same_state_frame by blast

lemma info_core:
  assumes "core N pl"
  shows op_error_core: "runs (\<lambda>q. core N q \<and> frame pl q) (player_op_error rc m pl)"
    and error_core: "runs (\<lambda>q. core N q \<and> frame pl q) (player_error e pl)"
    and status_core: "runs (\<lambda>q. core N q \<and> frame pl q) (player_status_changed pl)"
    and fill_core: "runs (\<lambda>q. core N q \<and> frame pl q) (producer_buffer_fill_update pl)"
    and position_core: "p_ps pl = PS_PLAYING \<or> p_ps pl = PS_PAUSED \<Longrightarrow>
      runs (\<lambda>q. core N q \<and> frame pl q) (consumer_position_update E pl)"
    and ip_error_core: "p_ip pl = Ip i \<Longrightarrow> runs (\<lambda>q. core N q \<and> frame pl q) (player_ip_error rc m pl)"
proof -
  note sc = same_state_core_frame [OF assms]
  show "runs (\<lambda>q. core N q \<and> frame pl q) (player_op_error rc m pl)"
    by (rule runs_mono [OF player_op_error_runs [OF assms] sc])
  show "runs (\<lambda>q. core N q \<and> frame pl q) (player_error e pl)"
    by (rule runs_mono [OF player_error_runs [OF assms] sc])
  show "runs (\<lambda>q. core N q \<and> frame pl q) (player_status_changed pl)"
    by (rule runs_mono [OF status_changed_runs [OF assms] sc])
  show "runs (\<lambda>q. core N q \<and> frame pl q) (producer_buffer_fill_update pl)"
    by (rule runs_mono [OF fill_update_runs [OF assms] sc])
  show "runs (\<lambda>q. core N q \<and> frame pl q) (consumer_position_update E pl)" if "p_ps pl = PS_PLAYING \<or> p_ps pl = PS_PAUSED"
    by (rule runs_mono [OF position_update_runs [OF assms that] sc])
  show "runs (\<lambda>q. core N q \<and> frame pl q) (player_ip_error rc m pl)" if "p_ip pl = Ip i"
    by (rule runs_mono [OF player_ip_error_runs [OF assms that] sc])
qed

lemma ip_state_paused: "ip_state_ok N PS_PAUSED r = ip_state_ok N PS_PLAYING r"
  by (cases r) simp_all

lemma ip_closed [simp]: "\<not> ip_opened (ip_init f)" "\<not> ip_opened (ip_new f)" "ip_filename (ip_new f) = f"
  by (simp_all add: ip_init_def ip_new_def)

lemma reset_buffer_runs:
  "core N pl \<Longrightarrow> runs (\<lambda>q. core N q \<and> frame pl q \<and> p_ip q = p_ip pl \<and> p_info q = p_info pl) (reset_buffer pl)"
  unfolding reset_buffer_def runs_bind runs_Some
  by (rule runs_mono [OF buffer_reset_runs]) (auto simp: core_defs frame_def)

lemma producer_stop_runs:
  assumes "core N pl"
  shows "runs (\<lambda>q. core N q \<and> pframe pl q \<and> p_info q = p_info pl \<and>
    p_ps q = (if p_ps pl = PS_PLAYING \<or> p_ps pl = PS_PAUSED then PS_STOPPED else p_ps pl)) (producer_stop pl)"
proof (cases "p_ps pl = PS_PLAYING \<or> p_ps pl = PS_PAUSED")
  case True
  then obtain i where i: "p_ip pl = Ip i" "ip_opened i" using playing_ip [OF assms] by blast
  have "core N (pl\<lparr>p_ip := Ip (ip_init (ip_filename i)), p_ps := PS_STOPPED\<rparr>)"
    using assms True by (auto simp: core_defs ip_init_def)
  from reset_buffer_runs [OF this] show ?thesis
    using True i
    by (auto simp: producer_stop_def the_ip_def ip_close_def producer_status_update_def wp frames elim!: runs_mono)
qed (use assms in \<open>auto simp: producer_stop_def wp frames\<close>)

lemma producer_unload_runs:
  assumes "core N pl"
  shows "runs (\<lambda>q. core N q \<and> pframe pl q \<and> p_info q = p_info pl \<and> p_ps q = PS_UNLOADED) (producer_unload pl)"
  unfolding producer_unload_def runs_bind
proof (rule runs_mono [OF producer_stop_runs [OF assms]], elim conjE)
  fix q assume q: "core N q" "pframe pl q" "p_info q = p_info pl"
    "p_ps q = (if p_ps pl = PS_PLAYING \<or> p_ps pl = PS_PAUSED then PS_STOPPED else p_ps pl)"
  show "runs (\<lambda>q. core N q \<and> pframe pl q \<and> p_info q = p_info pl \<and> p_ps q = PS_UNLOADED)
      (if p_ps q = PS_STOPPED then ip_delete q \<bind> (\<lambda>pl. Some (producer_status_update PS_UNLOADED pl)) else Some q)"
  proof (cases "p_ps q = PS_STOPPED")
    case True
    then obtain i where "p_ip q = Ip i" "\<not> ip_opened i" using core_sel(6) [OF q(1)] by (cases "p_ip q") auto
    then show ?thesis
      using q True by (simp add: ip_delete_def the_ip_def wp producer_status_update_def pframe_def core_defs)
  next
    case False
    then have "p_ps q = PS_UNLOADED" using q(4) by (cases "p_ps pl") auto
    then show ?thesis using q by (simp add: wp)
  qed
qed

lemma producer_set_file_runs:
  assumes "core N pl"
  shows "runs (\<lambda>q. core N q \<and> pframe pl q \<and> p_ps q = PS_STOPPED) (producer_set_file E ti pl)"
  unfolding producer_set_file_def runs_bind runs_Some
  by (rule runs_mono [OF producer_unload_runs [OF assms]])
    (auto simp: producer_status_update_def pframe_def intro!: file_changed_load)

lemma file_changed_unloaded:
  assumes "core N q" "p_ps q = PS_UNLOADED"
  shows "core N (file_changed E None (q\<lparr>p_ip := r\<rparr>))"
proof -
  have "q\<lparr>p_ip := r, p_ps := PS_UNLOADED\<rparr> = q\<lparr>p_ip := r\<rparr>" using assms(2) by (cases q) simp
  then show ?thesis using file_changed_load [OF assms(1), of PS_UNLOADED r None E] by simp
qed

text \<open>Opening the current handle: it fails and is closed again, or it can be set up.\<close>

lemma open_current_cases:
  assumes "env_ok N E" "p_ip pl = Ip i" "\<not> ip_opened i"
  obtains (fail) rc where "rc \<noteq> 0" "open_current E pl = Some (rc, tick (pl\<lparr>p_ip := Ip (ip_init (ip_filename i))\<rparr>))"
  | (ok) j k where "open_current E pl = Some (0, tick (pl\<lparr>p_ip := Ip j\<rparr>))" "ip_setup j = Some k" "ip_good N k"
proof (cases "oa_rc (e_open E (p_tick pl)) = 0")
  case True
  let ?a = "e_open E (p_tick pl)"
  let ?j = "i\<lparr>ip_sf := oa_sf ?a, ip_channel_map := oa_channel_map ?a, ip_opened := True\<rparr>"
  have "runs (ip_good N) (ip_setup ?j)" using env_okD(1) [OF assms(1) True] by (intro ip_setup_runs) simp_all
  then obtain k where "ip_setup ?j = Some k" "ip_good N k" by (auto simp: runs_ex)
  with True assms show ?thesis by (intro ok [of ?j k]) (simp_all add: open_current_def the_ip_def ip_open_def)
next
  case False
  with assms show ?thesis by (intro fail [of "oa_rc (e_open E (p_tick pl))"])
    (simp_all add: open_current_def the_ip_def ip_open_def)
qed

text \<open>
  The two branches of \<open>_producer_play\<close> that open a handle, for an unopened handle \<open>i\<close>: \<open>bad\<close> follows a
  failure and \<open>good\<close> a success.
\<close>

lemma open_branch_runs:
  assumes "env_ok N E" "core N pl" "p_ps pl = PS_UNLOADED \<or> p_ps pl = PS_STOPPED" "\<not> ip_opened i"
    and bad: "\<And>q. core N q \<Longrightarrow> pframe pl q \<Longrightarrow> p_ps q = p_ps pl \<Longrightarrow> Q (bad (q\<lparr>p_ip := IpFreed\<rparr>))"
    and good: "\<And>q k. core N q \<Longrightarrow> frame pl q \<Longrightarrow> p_info q = p_info pl \<Longrightarrow> ip_good N k \<Longrightarrow> Q (good (q\<lparr>p_ip := Ip k\<rparr>))"
  shows "runs Q (do { (rc, pl) \<leftarrow> open_current E (pl\<lparr>p_ip := Ip i\<rparr>);
      if rc \<noteq> 0
      then do { pl \<leftarrow> player_ip_error rc m pl; pl \<leftarrow> ip_delete pl; Some (bad pl) }
      else do { pl \<leftarrow> setup_current pl; Some (good pl) } })"
proof -
  let ?pl = "pl\<lparr>p_ip := Ip i\<rparr>"
  have core_ip: "core N (pl\<lparr>p_ip := Ip j\<rparr>)" if "\<not> ip_opened j" for j
    using assms(2,3) that by (auto simp: core_defs)
  have ip: "p_ip ?pl = Ip i" by simp
  show ?thesis
  proof (rule open_current_cases [OF assms(1) ip assms(4)])
    fix rc assume fail: "rc \<noteq> 0" "open_current E ?pl = Some (rc, tick (?pl\<lparr>p_ip := Ip (ip_init (ip_filename i))\<rparr>))"
    let ?j = "ip_init (ip_filename i)" and ?q = "tick (pl\<lparr>p_ip := Ip (ip_init (ip_filename i))\<rparr>)"
    have "runs (same_state ?q) (player_ip_error rc m ?q)"
      using core_ip [of ?j] by (intro player_ip_error_runs [of N _ ?j]) simp_all
    then have "runs (\<lambda>q. runs (\<lambda>q. Q (bad q)) (ip_delete q)) (player_ip_error rc m ?q)"
    proof (rule runs_mono)
      fix q assume q: "same_state ?q q"
      then have "core N q" using core_ip [of ?j] same_state_core [OF q, of N] by simp
      with q bad [of q] show "runs (\<lambda>q. Q (bad q)) (ip_delete q)"
        by (simp add: ip_delete_def the_ip_def wp same_state_def pframe_def)
    qed
    then show ?thesis using fail by (simp add: wp)
  next
    fix j k assume ok: "open_current E ?pl = Some (0, tick (?pl\<lparr>p_ip := Ip j\<rparr>))" "ip_setup j = Some k" "ip_good N k"
    have "Q (good ((tick pl)\<lparr>p_ip := Ip k\<rparr>))" using assms(2) ok(3) by (intro good) (simp_all add: frame_def)
    then show ?thesis using ok by (simp add: wp setup_current_def the_ip_def tick_def)
  qed
qed

lemma seek_current_runs:
  assumes "core N pl" "p_ps pl = PS_PLAYING \<or> p_ps pl = PS_PAUSED"
  shows "runs (\<lambda>(rc, q). core N q \<and> frame pl q \<and> p_info q = p_info pl) (seek_current E pl)"
proof -
  obtain i where i: "p_ip pl = Ip i" "ip_good N i" "ip_opened i" using playing_ip [OF assms] .
  then have "ip_good N (snd (ip_seek rc i))" for rc by (simp add: ip_seek_def ip_good_def ip_convert_def)
  then show ?thesis
    using i assms by (auto simp: seek_current_def the_ip_def wp frame_def core_defs tick_def case_prod_beta)
qed

lemma producer_play_runs:
  assumes "env_ok N E" "core N pl"
  shows "runs (\<lambda>q. core N q \<and> pframe pl q \<and> p_ps q \<in> {PS_UNLOADED, PS_PLAYING} \<and>
    (p_ps pl \<in> {PS_PLAYING, PS_PAUSED} \<longrightarrow> p_ps q = PS_PLAYING)) (producer_play E pl)" (is "runs ?Q _")
proof (cases "p_ps pl")
  case PS_UNLOADED
  show ?thesis
  proof (cases "e_next_track E (p_tick pl)")
    case None
    then show ?thesis using PS_UNLOADED assms by (simp add: producer_play_def get_next_track_def wp pframe_def)
  next
    case (Some ti)
    then show ?thesis
      using PS_UNLOADED assms Some
      by (auto simp: producer_play_def get_next_track_def producer_status_update_def frames
          intro!: open_branch_runs file_changed_load file_changed_unloaded)
  qed
next
  case PS_STOPPED
  then obtain i where i: "p_ip pl = Ip i" "\<not> ip_opened i"
    using core_sel(6) [OF assms(2)] by (cases "p_ip pl") auto
  then have "pl = pl\<lparr>p_ip := Ip i\<rparr>" by simp
  then have "producer_play E pl = do { (rc, pl) \<leftarrow> open_current E (pl\<lparr>p_ip := Ip i\<rparr>);
      if rc \<noteq> 0
      then do { pl \<leftarrow> player_ip_error rc ''opening file'' pl; pl \<leftarrow> ip_delete pl;
                Some (producer_status_update PS_UNLOADED pl) }
      else do { pl \<leftarrow> setup_current pl; Some (producer_status_update PS_PLAYING pl) } }"
    using PS_STOPPED by (simp add: producer_play_def)
  also have "runs ?Q \<dots>"
    using assms PS_STOPPED i(2)
    by (intro open_branch_runs) (auto simp: producer_status_update_def core_defs frames)
  finally show ?thesis .
next
  case PS_PLAYING
  then show ?thesis
    using assms(2)
    by (auto simp: producer_play_def wp frames case_prod_beta
        intro!: runs_mono [OF seek_current_runs] runs_mono [OF reset_buffer_runs])
next
  case PS_PAUSED
  then show ?thesis using assms(2)
    by (simp add: producer_play_def wp producer_status_update_def core_defs pframe_def ip_state_paused)
qed

lemma core_sf:
  "core N pl \<Longrightarrow> sf_get_second_size sf \<noteq> 0 \<Longrightarrow> limit_of sf \<le> N \<Longrightarrow> core N (pl\<lparr>p_sf := sf, p_cmap := m\<rparr>)"
  by (simp add: core_defs unat_eq_0)

lemma set_buffer_sf_runs:
  assumes "core N pl" "p_ps pl = PS_PLAYING \<or> p_ps pl = PS_PAUSED"
  shows "runs (\<lambda>q. core N q \<and> (\<exists>sf m. q = pl\<lparr>p_sf := sf, p_cmap := m\<rparr>) \<and>
    buffer_second_size q \<noteq> 0 \<and> limit_of (p_sf q) \<le> N) (set_buffer_sf pl)"
proof -
  obtain i where i: "p_ip pl = Ip i" "ip_good N i" "ip_opened i" using playing_ip [OF assms] .
  then have sf: "sf_get_second_size (read_format (ip_sf i)) \<noteq> 0" "limit_of (read_format (ip_sf i)) \<le> N"
    by (simp_all add: ip_good_def format_ok_def)
  have "set_buffer_sf pl = Some (pl\<lparr>p_sf := read_format (ip_sf i), p_cmap :=
      (if sf_get_channels (ip_sf i) \<le> 2 \<and> sf_get_bits (ip_sf i) \<le> 16
       then channel_map_init_stereo (ip_channel_map i) else ip_channel_map i)\<rparr>)"
    using i by (simp add: set_buffer_sf_def the_ip_def ip_get_sf_def ip_get_channel_map_def)
  then show ?thesis using core_sf [OF assms(1) sf] sf by (auto simp: runs_Some buffer_second_size_def unat_eq_0)
qed

text \<open>
  Opening the device on a player that has just closed it, or never opened it: \<open>core\<close> holds of the state
  with the consumer stopped.
\<close>

lemma op_open_cases:
  assumes "\<not> p_op_open pl"
  obtains rc where "op_open E pl = Some (rc, tick (pl\<lparr>p_op_open := (rc = 0)\<rparr>))"
  using assms by (auto simp: op_open_def Let_def)

lemma core_stop: "core N pl \<Longrightarrow> core N (pl\<lparr>p_op_open := False, p_cs := CS_STOPPED\<rparr>)"
  by (simp add: core_defs)

lemma core_start:
  "core N pl \<Longrightarrow> buffer_second_size pl \<noteq> 0 \<Longrightarrow> limit_of (p_sf pl) \<le> N \<Longrightarrow> s \<noteq> CS_STOPPED \<Longrightarrow>
   core N (pl\<lparr>p_op_open := True, p_cs := s\<rparr>)"
  by (simp add: core_defs)

lemma core_cs: "core N pl \<Longrightarrow> p_cs pl \<noteq> CS_STOPPED \<Longrightarrow> s \<noteq> CS_STOPPED \<Longrightarrow> core N (pl\<lparr>p_cs := s\<rparr>)"
  by (simp add: core_defs)

lemma consumer_play_runs:
  assumes "core N pl" "p_ps pl = PS_PLAYING \<or> p_ps pl = PS_PAUSED"
  shows "runs (\<lambda>q. core N q \<and> cframe pl q \<and> (p_cs q = CS_PLAYING \<or> p_cs pl = CS_STOPPED \<and> p_cs q = CS_STOPPED))
    (consumer_play E pl)"
proof (cases "p_cs pl")
  case CS_STOPPED
  show ?thesis
    unfolding consumer_play_def CS_STOPPED consumer_status.case runs_bind
  proof (rule runs_mono [OF set_buffer_sf_runs [OF assms]], elim conjE exE)
    fix q sf m assume q: "core N q" "q = pl\<lparr>p_sf := sf, p_cmap := m\<rparr>" "buffer_second_size q \<noteq> 0" "limit_of (p_sf q) \<le> N"
    have qs: "p_ps q = p_ps pl" "p_space q = p_space pl" "p_cs q = CS_STOPPED" using q(2) CS_STOPPED by simp_all
    have "\<not> p_op_open q" using core_sel(8) [OF q(1)] qs by simp
    then obtain rc where rc: "op_open E q = Some (rc, tick (q\<lparr>p_op_open := (rc = 0)\<rparr>))" by (rule op_open_cases)
    have ok: "core N ((tick (q\<lparr>p_op_open := True\<rparr>))\<lparr>p_cs := CS_PLAYING\<rparr>)"
      using core_start [OF q(1,3,4), of CS_PLAYING] by (simp add: tick_def core_defs)
    have bad: "core N (tick (q\<lparr>p_op_open := False\<rparr>))" using q(1) \<open>\<not> p_op_open q\<close> by (simp add: core_defs tick_def)
    have err: "runs (\<lambda>q. core N q \<and> cframe pl q \<and> p_cs q = CS_STOPPED)
        (player_op_error rc ''opening audio device'' (tick (q\<lparr>p_op_open := False\<rparr>)))" for rc
      by (rule runs_mono [OF op_error_core [OF bad]]) (use qs in \<open>simp add: frames\<close>)
    show "runs (\<lambda>x. runs (\<lambda>q. core N q \<and> cframe pl q \<and>
          (p_cs q = CS_PLAYING \<or> CS_STOPPED = CS_STOPPED \<and> p_cs q = CS_STOPPED))
        (case x of (rc, pl) \<Rightarrow> if rc \<noteq> 0 then player_op_error rc ''opening audio device'' pl
          else Some (consumer_status_update CS_PLAYING pl))) (op_open E q)"
      using ok qs
      by (cases "rc = 0") (auto simp: rc runs_Some consumer_status_update_def cframe_def intro!: runs_mono [OF err])
  qed
next
  case CS_PLAYING
  then show ?thesis
    using assms core_sel(8) [OF assms(1)] by (simp add: consumer_play_def op_call_def wp cframe_def)
next
  case CS_PAUSED
  then show ?thesis
    using assms core_sel(8) [OF assms(1)]
    by (simp add: consumer_play_def op_call_def wp cframe_def consumer_status_update_def core_cs)
qed

lemma consumer_stop_runs:
  assumes "core N pl"
  shows "runs (\<lambda>q. core N q \<and> cframe pl q \<and> p_cs q = CS_STOPPED) (consumer_stop pl)"
    "runs (\<lambda>q. core N q \<and> cframe pl q \<and> p_cs q = CS_STOPPED) (consumer_drain_and_stop pl)"
  using assms core_stop [OF assms] core_sel(8) [OF assms]
  by (cases "p_cs pl"; simp add: consumer_stop_def consumer_drain_and_stop_def op_call_def op_close_def wp
      consumer_status_update_def cframe_def)+

lemma consumer_pause_runs:
  assumes "core N pl"
  shows "runs (\<lambda>q. core N q \<and> cframe pl q \<and> p_cs q = (case p_cs pl of CS_PLAYING \<Rightarrow> CS_PAUSED
    | CS_PAUSED \<Rightarrow> CS_PLAYING | CS_STOPPED \<Rightarrow> CS_STOPPED)) (consumer_pause pl)"
  using assms core_sel(8) [OF assms]
  by (cases "p_cs pl"; simp add: consumer_pause_def op_call_def wp consumer_status_update_def cframe_def core_cs)

lemma producer_pause_core:
  "core N pl \<Longrightarrow> core N (producer_pause pl) \<and> pframe pl (producer_pause pl) \<and>
   p_ps (producer_pause pl) = (case p_ps pl of PS_PLAYING \<Rightarrow> PS_PAUSED | PS_PAUSED \<Rightarrow> PS_PLAYING | s \<Rightarrow> s)"
  by (cases "p_ps pl")
    (simp_all add: producer_pause_def producer_status_update_def core_defs pframe_def ip_state_paused)

lemma change_sf_runs:
  assumes "core N pl" "p_ps pl = PS_PLAYING \<or> p_ps pl = PS_PAUSED" "p_cs pl \<noteq> CS_STOPPED"
  shows "runs (\<lambda>(rc, q). core N q \<and> p_space q = p_space pl \<and>
    (if rc = 0 then p_ps q = p_ps pl \<and> p_cs q = CS_PLAYING else p_ps q = PS_STOPPED \<and> p_cs q = CS_STOPPED))
    (change_sf E drp pl)" (is "runs ?Q _")
  unfolding change_sf_def Let_def runs_bind
proof (rule runs_mono [OF set_buffer_sf_runs [OF assms(1,2)]], elim conjE exE)
  fix q sf m assume q: "core N q" "q = pl\<lparr>p_sf := sf, p_cmap := m\<rparr>" "buffer_second_size q \<noteq> 0" "limit_of (p_sf q) \<le> N"
  have qs: "p_ps q = p_ps pl" "p_space q = p_space pl" "p_cs q = p_cs pl" using q(2) by simp_all
  have op: "p_op_open q" using core_sel(8) [OF q(1)] assms(3) qs by simp
  obtain rc where rc: "op_open E (q\<lparr>p_op_open := False\<rparr>) = Some (rc, tick (q\<lparr>p_op_open := (rc = 0)\<rparr>))"
    by (rule op_open_cases [of "q\<lparr>p_op_open := False\<rparr>" E]) simp_all
  have good: "core N ((tick (q\<lparr>p_op_open := True\<rparr>))\<lparr>p_cs := CS_PLAYING\<rparr>)" "core N (q\<lparr>p_cs := CS_PLAYING\<rparr>)"
    using core_start [OF q(1,3,4), of CS_PLAYING] op by (simp_all add: tick_def core_defs)
  let ?f = "tick (q\<lparr>p_op_open := False\<rparr>)"
  have bad: "runs ?Q (do { pl \<leftarrow> player_op_error rc ''opening audio device'' ?f;
      pl \<leftarrow> producer_stop (consumer_status_update CS_STOPPED pl); Some (rc, pl) })" if "rc \<noteq> 0"
    unfolding runs_bind
  proof (rule runs_mono [OF player_op_error_inv])
    fix x assume x: "same_state ?f x"
    then have "core N (x\<lparr>p_cs := CS_STOPPED\<rparr>)" using q(1) by (simp add: same_state_def core_defs tick_def)
    then show "runs (\<lambda>pl. runs ?Q (Some (rc, pl))) (producer_stop (consumer_status_update CS_STOPPED x))"
      unfolding consumer_status_update_def
      by (rule runs_mono [OF producer_stop_runs]) (use x qs assms(2) that in \<open>auto simp: runs_Some pframe_def same_state_def\<close>)
  qed (use core_sel(1) [OF q(1)] in simp)
  show "runs ?Q (if p_sf q \<noteq> p_sf pl \<or> \<not> channel_map_equal (p_cmap q) (p_cmap pl) (unat (sf_get_channels (p_sf q)))
      then (if drp then op_call q else Some q) \<bind> (\<lambda>pl. op_close pl \<bind> (\<lambda>pl. op_open E pl \<bind> (\<lambda>(rc, pl).
        if rc \<noteq> 0 then player_op_error rc ''opening audio device'' pl \<bind> (\<lambda>pl.
          producer_stop (consumer_status_update CS_STOPPED pl) \<bind> (\<lambda>pl. Some (rc, pl)))
        else Some (0, consumer_status_update CS_PLAYING pl))))
      else (if p_cs q = CS_PAUSED then op_call q else Some q) \<bind> (\<lambda>pl. Some (0, consumer_status_update CS_PLAYING pl)))"
    using op good bad qs rc
    by (cases "rc = 0") (simp_all add: op_call_def op_close_def runs_Some consumer_status_update_def)
qed

end
