(* ===== verification/Player_Steps.thy ===== *)
theory Player_Steps
  imports Player_Safety
begin

text \<open>
  The threads and the operations of the playback engine keep its invariant (continued from the theory
  \<open>Player_Safety\<close>); reachable states and the properties of the engine.
\<close>

section \<open>The threads\<close>

definition pairs :: "player \<Rightarrow> bool" where
  "pairs pl \<longleftrightarrow> (p_ps pl, p_cs pl) \<in> {(PS_UNLOADED, CS_STOPPED), (PS_STOPPED, CS_STOPPED), (PS_PLAYING, CS_STOPPED),
     (PS_PLAYING, CS_PLAYING), (PS_PAUSED, CS_PAUSED)}"

text \<open>The usual postcondition: the invariant, with the consumer inside its inner loop or not as before.\<close>

definition keeps :: "nat \<Rightarrow> player \<Rightarrow> player \<Rightarrow> bool" where
  "keeps N pl q \<longleftrightarrow> core N q \<and> pairs q \<and> p_space q = p_space pl"

lemma keeps_inv: "keeps N pl q \<Longrightarrow> p_space pl = None \<Longrightarrow> player_inv N q"
  by (simp add: keeps_def player_inv_def pair_ok_def pairs_def)

lemma player_invE:
  assumes "player_inv N pl"
  obtains "core N pl" "pairs pl"
  using assms by (simp add: player_inv_def pair_ok_def pairs_def)

lemma pairsE:
  assumes "pairs pl"
  obtains "p_ps pl = PS_UNLOADED" "p_cs pl = CS_STOPPED" | "p_ps pl = PS_STOPPED" "p_cs pl = CS_STOPPED"
  | "p_ps pl = PS_PLAYING" "p_cs pl = CS_STOPPED" | "p_ps pl = PS_PLAYING" "p_cs pl = CS_PLAYING"
  | "p_ps pl = PS_PAUSED" "p_cs pl = CS_PAUSED"
  using assms by (auto simp: pairs_def)

lemma core_space [simp]: "core N (pl\<lparr>p_space := s\<rparr>) = core N pl"
  by (simp add: core_defs)

lemma core_pos:
  assumes "core N pl" "buffer_inv b" "buffer_nr_chunks b = buffer_nr_chunks (p_buf pl)" "sp \<le> cp + CHUNK_SIZE"
    "scaling pl \<longrightarrow> cp \<le> sp"
  shows "core N (pl\<lparr>p_buf := b, p_cpos := cp, p_spos := sp\<rparr>)"
  using assms by (simp add: core_defs)

lemma runs_bindI: "runs Q m \<Longrightarrow> (\<And>x. Q x \<Longrightarrow> runs P (f x)) \<Longrightarrow> runs P (m \<bind> f)"
  unfolding runs_bind by (rule runs_mono)

text \<open>Storing scaled bytes over the bytes at the read position.\<close>

lemma poke_read_split:
  assumes inv: "buffer_inv b" and s: "ring_split b (c # fs) us" and n: "c_l c + length xs \<le> c_h c"
  shows "\<exists>b'. buffer_poke (buffer_ridx b, c_l c) xs b = Some b' \<and> buffer_inv b' \<and>
           ring_split b' ((c\<lparr>cdata := overwrite (cdata c) (c_l c) xs\<rparr>) # fs) us"
proof -
  let ?c = "c\<lparr>cdata := overwrite (cdata c) (c_l c) xs\<rparr>" and ?r = "buffer_ridx b"
  from inv have b: "length (buffer_chunks b) = buffer_nr_chunks b" "?r < buffer_nr_chunks b"
    "0 < buffer_nr_chunks b" "buffer_nr_chunks b < 2 ^ 31" "\<forall>d\<in>set (ring b). chunk_ok d"
    by (simp_all add: buffer_inv_def list_all_ring [symmetric] del: set_ring)
  have at: "chunk_at b ?r = Some c" "c_filled c" and upd: "ring (set_chunk b ?r ?c) = ?c # fs @ us"
    using ring_read_head [OF s b(1,2)] by auto
  have ring: "ring b = c # fs @ us" using s by (simp add: ring_split_def)
  have ok: "\<forall>d\<in>set (c # fs @ us). chunk_ok d" using b(5) ring by metis
  then have okc: "chunk_ok ?c" using n at(2) by (auto simp: chunk_ok_def)
  have poke: "buffer_poke (?r, c_l c) xs b = Some (set_chunk b ?r ?c)"
    using at ok n by (auto simp: buffer_poke_def chunk_ok_def)
  have rs: "ring_split (set_chunk b ?r ?c) (?c # fs) us" using s upd by (auto simp: ring_split_def)
  then have "buffer_inv (set_chunk b ?r ?c)"
  proof (rule buffer_invI [rotated 5])
    show "list_all chunk_ok (buffer_chunks (set_chunk b ?r ?c))"
      unfolding list_all_ring upd using ok okc by auto
  qed (use b in simp_all)
  then show ?thesis using poke rs by blast
qed

text \<open>What the consumer does with the buffer: take \<open>k\<close> bytes, replace them by as many, consume \<open>m \<le> k\<close>.\<close>

lemma rewrite_parts:
  assumes inv: "buffer_inv b" and r: "buffer_get_rpos b = Some (sz, Some p)"
  obtains "0 < sz" "sz \<le> int CHUNK_SIZE"
    "\<And>k. int k \<le> sz \<Longrightarrow> \<exists>bs. buffer_peek p k b = Some bs \<and> length bs = k"
    "\<And>xs. int (length xs) \<le> sz \<Longrightarrow> \<exists>b'. buffer_poke p xs b = Some b' \<and> buffer_inv b' \<and>
       buffer_nr_chunks b' = buffer_nr_chunks b \<and> (\<forall>m. 0 \<le> m \<longrightarrow> m \<le> sz \<longrightarrow> (\<exists>b''. buffer_consume m b' = Some b'' \<and>
         buffer_inv b'' \<and> buffer_nr_chunks b'' = buffer_nr_chunks b))"
proof -
  from get_rpos_cases [OF inv] r obtain fs us c where s: "ring_split b (c # fs) us" and c: "chunk_ok c" "c_filled c"
    and p: "sz = int (c_h c - c_l c)" "p = (buffer_ridx b, c_l c)" by auto
  have at: "chunk_at b (buffer_ridx b) = Some c"
    using ring_read_head(1) [OF s] inv by (simp add: buffer_inv_def)
  have h: "c_l c < c_h c" "c_h c \<le> CHUNK_SIZE" "length (cdata c) = CHUNK_SIZE"
    using c by (simp_all add: chunk_ok_def)
  show thesis
  proof (rule that)
    show "0 < sz" "sz \<le> int CHUNK_SIZE" using p(1) h by simp_all
    show "\<exists>bs. buffer_peek p k b = Some bs \<and> length bs = k" if "int k \<le> sz" for k
      using that p at h by (auto simp: buffer_peek_def bug_unless_bind)
    fix xs :: "u8 list" assume xs: "int (length xs) \<le> sz"
    then have "c_l c + length xs \<le> c_h c" using p(1) h by linarith
    from poke_read_split [OF inv s this] obtain b' where b': "buffer_poke p xs b = Some b'" "buffer_inv b'"
      "ring_split b' ((c\<lparr>cdata := overwrite (cdata c) (c_l c) xs\<rparr>) # fs) us" using p(2) by auto
    have "\<exists>b''. buffer_consume m b' = Some b'' \<and> buffer_inv b'' \<and> buffer_nr_chunks b'' = buffer_nr_chunks b"
      if "0 \<le> m" "m \<le> sz" for m
    proof -
      have "c_l c + nat m \<le> c_h c" using that p(1) h by linarith
      with consume_split [OF b'(2,3), of "nat m"] that(1) show ?thesis
        using buffer_nr_frame(2) [OF b'(1)] buffer_nr_frame(4) by fastforce
    qed
    then show "\<exists>b'. buffer_poke p xs b = Some b' \<and> buffer_inv b' \<and> buffer_nr_chunks b' = buffer_nr_chunks b \<and>
        (\<forall>m. 0 \<le> m \<longrightarrow> m \<le> sz \<longrightarrow> (\<exists>b''. buffer_consume m b' = Some b'' \<and> buffer_inv b'' \<and>
          buffer_nr_chunks b'' = buffer_nr_chunks b))"
      using b'(1,2) buffer_nr_frame(2) [OF b'(1)] by blast
  qed
qed

lemma reopen_runs:
  assumes "core N pl" "p_ps pl = PS_PLAYING" "p_cs pl \<noteq> CS_STOPPED"
  shows "runs (\<lambda>q. keeps N pl q) (reopen E pl)"
proof -
  have "p_op_open pl" using core_sel(8) [OF assms(1)] assms(3) by simp
  then show ?thesis
    using consumer_play_runs [OF core_stop [OF assms(1)], of E] assms(2)
    by (auto simp: reopen_def op_close_def consumer_status_update_def keeps_def pairs_def cframe_def elim!: runs_mono)
qed

lemma consumer_begin_runs:
  assumes "player_inv N pl" "p_space pl = None"
  shows "runs (player_inv N) (consumer_begin E pl)"
proof (cases "p_cs pl = CS_PLAYING")
  case True
  then have "core N (tick pl)" "p_ps (tick pl) = PS_PLAYING" "p_op_open pl"
    using assms core_sel(8) [of N pl] by (auto simp: player_inv_def pair_ok_def)
  then have "runs (player_inv N) (reopen E (tick pl))"
    using runs_mono [OF reopen_runs keeps_inv] True assms(2) by simp
  moreover have "player_inv N ((tick pl)\<lparr>p_space := Some s\<rparr>)" if "0 \<le> s" for s
    using assms(1) that True by (simp add: player_inv_def pair_ok_def)
  ultimately show ?thesis
    using True \<open>p_op_open pl\<close> by (simp add: consumer_begin_def op_call_def runs_Some Let_def)
next
  case False
  then show ?thesis using assms by (cases "p_cs pl") (simp_all add: consumer_begin_def runs_Some)
qed

text \<open>
  Scaling of the bytes in \<open>write_out\<close>: unless a sample overflows it keeps their number and \<open>scale_pos\<close> in its
  bounds. \<open>scale_fault\<close> is the overflow, for \<open>spc\<close> bytes of room in the device; only amplification causes it.
\<close>

definition scaled :: "player \<Rightarrow> u8 list \<Rightarrow> (u8 list \<times> nat) option" where
  "scaled pl bs =
     (if soft_vol (p_vol pl) \<or> p_replaygain pl \<noteq> RG_DISABLED
      then scale_samples (p_vol pl) (p_sf pl) (p_cpos pl) (p_spos pl) bs else Some (bs, p_spos pl))"

definition scale_fault :: "int \<Rightarrow> player \<Rightarrow> bool" where
  "scale_fault spc pl \<longleftrightarrow>
     (case buffer_get_rpos (p_buf pl) of
        Some (sz, Some p) \<Rightarrow>
          1 < replaygain_scale (p_vol pl) \<and>
          (case buffer_peek p (nat (min sz spc)) (p_buf pl) of Some bs \<Rightarrow> scaled pl bs = None | None \<Rightarrow> False)
      | _ \<Rightarrow> False)"

lemma scale_fault_amplifies:
  assumes "core N pl" "scaled pl bs = None"
  shows "1 < replaygain_scale (p_vol pl)"
proof (rule ccontr)
  assume "\<not> 1 < replaygain_scale (p_vol pl)"
  moreover have "scaling pl" using assms(2) by (auto simp: scaled_def scaling_def split: if_splits)
  then have "p_cpos pl \<le> p_spos pl" using core_sel(4) [OF assms(1)] by simp
  ultimately have "\<exists>r. scale_samples (p_vol pl) (p_sf pl) (p_cpos pl) (p_spos pl) bs = Some r"
    using core_sel(3) [OF assms(1)] by (intro scale_samples_total) (auto simp: vol_ok_def)
  then show False using assms(2) by (auto simp: scaled_def split: if_splits)
qed

lemma scale_out_runs:
  assumes "core N pl" "int (length bs) \<le> int CHUNK_SIZE" "scaled pl bs \<noteq> None"
  shows "runs (\<lambda>(bs', spos). length bs' = length bs \<and> spos \<le> p_cpos pl + CHUNK_SIZE \<and>
      (scaling pl \<longrightarrow> p_cpos pl + length bs \<le> spos)) (scaled pl bs)"
proof (cases "scaling pl")
  case True
  then obtain bs' spos where r: "scale_samples (p_vol pl) (p_sf pl) (p_cpos pl) (p_spos pl) bs = Some (bs', spos)"
    using assms(3) by (auto simp: scaled_def scaling_def split: if_splits)
  have "p_spos pl - p_cpos pl < 2 ^ 32"
    using core_sel(5) [OF assms(1)] CHUNK_SIZE_bounds(2) by simp
  from scale_samples_frame [OF r this] show ?thesis
    using r True assms(2) core_sel(5) [OF assms(1)] by (simp add: runs_Some scaling_def scaled_def)
next
  case False
  then show ?thesis using core_sel(5) [OF assms(1)] by (simp add: runs_Some scaling_def scaled_def)
qed

lemma write_out_runs:
  assumes E: "env_ok N E" and inv: "player_inv N pl" and spc: "p_space pl = Some spc" "spc \<noteq> 0"
    and r: "buffer_get_rpos (p_buf pl) = Some (sz, Some p)" and nf: "\<not> scale_fault spc pl"
  shows "runs (player_inv N) (write_out E spc sz p pl)"
proof -
  from inv spc have st: "core N pl" "0 < spc" "p_cs pl = CS_PLAYING" "p_ps pl = PS_PLAYING"
    by (auto simp: player_inv_def pair_ok_def)
  then have op: "p_op_open pl" by (simp add: core_def)
  obtain sz': "0 < sz" "sz \<le> int CHUNK_SIZE"
    and peek: "\<And>k. int k \<le> sz \<Longrightarrow> \<exists>bs. buffer_peek p k (p_buf pl) = Some bs \<and> length bs = k"
    and poke: "\<And>xs. int (length xs) \<le> sz \<Longrightarrow> \<exists>b'. buffer_poke p xs (p_buf pl) = Some b' \<and> buffer_inv b' \<and>
       buffer_nr_chunks b' = buffer_nr_chunks (p_buf pl) \<and> (\<forall>m. 0 \<le> m \<longrightarrow> m \<le> sz \<longrightarrow> (\<exists>b''. buffer_consume m b' = Some b'' \<and>
         buffer_inv b'' \<and> buffer_nr_chunks b'' = buffer_nr_chunks (p_buf pl)))"
    using rewrite_parts [OF core_sel(1) [OF st(1)] r] by metis
  define k where "k = nat (if sz > spc then spc else sz)"
  have k: "int k \<le> sz" "int k \<le> spc" "int k \<le> int CHUNK_SIZE" using sz' st(2) by (auto simp: k_def)
  obtain bs where bs: "buffer_peek p k (p_buf pl) = Some bs" "length bs = k" using peek [OF k(1)] by blast
  have "nat (min sz spc) = k" by (simp add: k_def min_def)
  then have "scale_fault spc pl" if "scaled pl bs = None"
    using that r bs(1) scale_fault_amplifies [OF st(1) that] by (simp add: scale_fault_def)
  then have sc: "scaled pl bs \<noteq> None" using nf by blast
  show ?thesis
    unfolding write_out_def Let_def k_def [symmetric] bs(1) bind.bind_lunit runs_bind scaled_def [symmetric]
  proof (rule runs_mono [OF scale_out_runs [OF st(1) _ sc]])
    fix x :: "u8 list \<times> nat" assume "case x of (bs', spos) \<Rightarrow> length bs' = length bs \<and> spos \<le> p_cpos pl + CHUNK_SIZE \<and>
      (scaling pl \<longrightarrow> p_cpos pl + length bs \<le> spos)"
    then obtain bs' spos where x: "x = (bs', spos)" "length bs' = k" "spos \<le> p_cpos pl + CHUNK_SIZE"
      "scaling pl \<longrightarrow> p_cpos pl + k \<le> spos" using bs(2) by auto
    let ?rc = "e_op_write E (p_tick pl) bs'"
    obtain b where b: "buffer_poke p bs' (p_buf pl) = Some b" "buffer_inv b" "buffer_nr_chunks b = buffer_nr_chunks (p_buf pl)"
      and consume: "\<And>m. 0 \<le> m \<Longrightarrow> m \<le> sz \<Longrightarrow> \<exists>b''. buffer_consume m b = Some b'' \<and> buffer_inv b'' \<and>
        buffer_nr_chunks b'' = buffer_nr_chunks (p_buf pl)"
      using poke [of bs'] k(1) x(2) by auto
    have rc: "?rc \<le> int k" using env_okD(4) [OF E, of "p_tick pl" bs'] x(2) by simp
    let ?q = "tick (pl\<lparr>p_buf := b, p_spos := spos\<rparr>)"
    have "core N (pl\<lparr>p_buf := b, p_cpos := p_cpos pl, p_spos := spos\<rparr>)"
      using x(4) by (intro core_pos [OF st(1) b(2,3) x(3)]) auto
    then have q: "core N (?q\<lparr>p_space := None\<rparr>)" by simp
    have "runs (player_inv N) (reopen E (?q\<lparr>p_space := None\<rparr>))"
      by (rule runs_mono [OF reopen_runs [OF q]]) (use st in \<open>auto intro: keeps_inv\<close>)
    moreover have "\<exists>b'. buffer_consume ?rc b = Some b' \<and> player_inv N (?q\<lparr>p_buf := b', p_cpos := p_cpos ?q + nat ?rc,
        p_space := Some (spc - ?rc)\<rparr>)" if nn: "\<not> ?rc < 0"
    proof -
      obtain b' where "buffer_consume ?rc b = Some b'" "buffer_inv b'" "buffer_nr_chunks b' = buffer_nr_chunks (p_buf pl)"
        using consume [of ?rc] nn rc k(1) by auto
      moreover have "nat ?rc \<le> k" "0 \<le> spc - ?rc" using rc k(2) nn by simp_all
      moreover have "core N (pl\<lparr>p_buf := b', p_cpos := p_cpos pl + nat ?rc, p_spos := spos\<rparr>)"
        using calculation x(3,4) by (intro core_pos [OF st(1)]) auto
      then have "core N (?q\<lparr>p_buf := b', p_cpos := p_cpos ?q + nat ?rc\<rparr>)" by (simp add: core_defs tick_def)
      ultimately show ?thesis
        using st by (simp add: player_inv_def pair_ok_def tick_def)
    qed
    ultimately show "runs (player_inv N) (case x of (bs, spos) \<Rightarrow> buffer_poke p bs (p_buf pl) \<bind> (\<lambda>b.
        bug_unless (p_op_open pl) \<bind> (\<lambda>_. if e_op_write E (p_tick pl) bs < 0
          then reopen E (tick (pl\<lparr>p_buf := b, p_spos := spos\<rparr>)\<lparr>p_space := None\<rparr>)
          else buffer_consume (e_op_write E (p_tick pl) bs) (p_buf (tick (pl\<lparr>p_buf := b, p_spos := spos\<rparr>))) \<bind> (\<lambda>b'.
            Some (tick (pl\<lparr>p_buf := b, p_spos := spos\<rparr>)\<lparr>p_buf := b', p_cpos :=
              p_cpos (tick (pl\<lparr>p_buf := b, p_spos := spos\<rparr>)) + nat (e_op_write E (p_tick pl) bs),
              p_space := Some (spc - e_op_write E (p_tick pl) bs)\<rparr>)))))"
      using x(1) b(1) op by (auto simp: runs_Some)
  qed (use bs(2) k(3) in simp)
qed

text \<open>
  The end of a track. The next track, when there is one, is loaded and opened and the device is given its
  format; every failure on the way stops the consumer.
\<close>

lemma stop_both_runs:
  assumes "core N pl"
  shows "runs (\<lambda>q. core N q \<and> pairs q \<and> p_cs q = CS_STOPPED \<and> p_space q = p_space pl)
    (do { pl \<leftarrow> producer_stop pl; consumer_drain_and_stop pl })"
  unfolding runs_bind
  by (rule runs_mono [OF producer_stop_runs [OF assms]], elim conjE, rule runs_mono [OF consumer_stop_runs(2)], assumption,
      cases "p_ps pl") (auto simp: pairs_def frames)

lemma next_track_runs:
  assumes "env_ok N E" "core N pl" "p_ps pl = PS_STOPPED" "p_cs pl = CS_PLAYING"
  shows "runs (keeps N pl)
    (do { pl \<leftarrow> producer_play E pl;
          if p_ps pl = PS_UNLOADED
          then do { pl \<leftarrow> consumer_stop pl; Some (file_changed E None pl) }
          else do { let pl = file_changed E (Some ti) pl;
                    (rc, pl) \<leftarrow> change_sf E False pl;
                    if rc = 0 then prebuffer E pl else Some pl } })"
  unfolding runs_bind
proof (rule runs_mono [OF producer_play_runs [OF assms(1,2)]], elim conjE)
  fix q assume q: "core N q" "pframe pl q" "p_ps q \<in> {PS_UNLOADED, PS_PLAYING}"
  let ?q = "file_changed E (Some ti) q"
  have cq: "core N ?q" using q(1) by (intro file_changed_core) auto
  have "runs (keeps N pl) (consumer_stop q \<bind> (\<lambda>pl. Some (file_changed E None pl)))" if "p_ps q = PS_UNLOADED"
    unfolding runs_bind runs_Some
    by (rule runs_mono [OF consumer_stop_runs(1) [OF q(1)]])
      (use q(2) that in \<open>auto simp: keeps_def pairs_def frames intro!: file_changed_core\<close>)
  moreover have "runs (keeps N pl) (change_sf E False ?q \<bind> (\<lambda>(rc, pl). if rc = 0 then prebuffer E pl else Some pl))"
    if "p_ps q = PS_PLAYING"
    unfolding runs_bind
  proof (rule runs_mono [OF change_sf_runs [OF cq]], goal_cases)
    case (3 x)
    obtain rc y where x: "x = (rc, y)" by (cases x)
    show ?case
    proof (cases "rc = 0")
      case True
      then have "core N y" "p_ps y = PS_PLAYING" "p_cs y = CS_PLAYING" "p_space y = p_space pl"
        using 3 x that q(2) by (auto simp: pframe_def)
      then have "runs (keeps N pl) (prebuffer E y)"
        by (intro runs_mono [OF prebuffer_runs [OF assms(1)]]) (auto simp: keeps_def pairs_def frame_def)
      then show ?thesis using x True by simp
    qed (use 3 x q(2) in \<open>auto simp: keeps_def pairs_def runs_Some pframe_def\<close>)
  qed (use that q(2) assms(4) in \<open>auto simp: pframe_def\<close>)
  ultimately show "runs (keeps N pl) (if p_ps q = PS_UNLOADED
      then consumer_stop q \<bind> (\<lambda>pl. Some (file_changed E None pl))
      else let pl = file_changed E (Some ti) q in change_sf E False pl \<bind>
        (\<lambda>(rc, pl). if rc = 0 then prebuffer E pl else Some pl))"
    using q(3) by auto
qed

lemma status_keeps:
  assumes "runs (keeps N pl) m"
  shows "runs (keeps N pl) (m \<bind> player_status_changed)"
  unfolding runs_bind
  by (rule runs_mono [OF assms]) (auto intro!: runs_mono [OF status_core] simp: keeps_def pairs_def frame_def)

text \<open>The branch of \<open>_consumer_handle_eof\<close> for a next track \<open>ti\<close>.\<close>

definition load_next :: "env \<Rightarrow> track_info \<Rightarrow> player \<Rightarrow> player option" where
  "load_next E ti pl =
     do { pl \<leftarrow> producer_unload pl;
          let pl = producer_status_update PS_STOPPED (pl\<lparr>p_ip := Ip (ip_new (ti_filename ti))\<rparr>);
          go \<leftarrow> (if \<not> p_cont pl then Some False
                else if p_cont_album pl then Some True
                else same_album (pi_ti (p_info pl)) ti);
          if go
          then do { pl \<leftarrow> producer_play E pl;
                    if p_ps pl = PS_UNLOADED
                    then do { pl \<leftarrow> consumer_stop pl; Some (file_changed E None pl) }
                    else do { let pl = file_changed E (Some ti) pl;
                              (rc, pl) \<leftarrow> change_sf E False pl;
                              if rc = 0 then prebuffer E pl else Some pl } }
          else do { pl \<leftarrow> consumer_drain_and_stop pl; Some (file_changed E (Some ti) pl) } }"

text \<open>The comparison of the albums faults; the two states below agree in all that it looks at.\<close>

definition album_fault :: "player \<Rightarrow> track_info \<Rightarrow> bool" where
  "album_fault pl ti \<longleftrightarrow> p_cont pl \<and> \<not> p_cont_album pl \<and> same_album (pi_ti (p_info pl)) ti = None"

lemma producer_unload_keeps:
  "producer_unload pl = Some q \<Longrightarrow> p_cont q = p_cont pl \<and> p_cont_album q = p_cont_album pl \<and> p_info q = p_info pl"
  by (auto simp: producer_unload_def producer_stop_def reset_buffer_def ip_delete_def producer_status_update_def
      bind_eq_Some_conv split: if_splits)

lemma load_next_faults: "album_fault pl ti \<Longrightarrow> load_next E ti pl = None"
  using producer_unload_keeps [of pl]
  by (cases "producer_unload pl") (simp_all add: load_next_def Let_def producer_status_update_def album_fault_def)

lemma load_next_runs:
  assumes E: "env_ok N E" and c: "core N pl" "p_ps pl = PS_PLAYING" "p_cs pl = CS_PLAYING" and nf: "\<not> album_fault pl ti"
  shows "runs (keeps N pl) (load_next E ti pl)"
proof -
  obtain q where u: "producer_unload pl = Some q" and q: "core N q" "pframe pl q" "p_ps q = PS_UNLOADED"
    using producer_unload_runs [OF c(1)] by (auto simp: runs_ex)
  let ?q = "producer_status_update PS_STOPPED (q\<lparr>p_ip := Ip (ip_new (ti_filename ti))\<rparr>)"
  have k: "p_cont ?q = p_cont pl" "p_cont_album ?q = p_cont_album pl" "p_info ?q = p_info pl"
    using producer_unload_keeps [OF u] by (simp_all add: producer_status_update_def)
  have cq: "core N ?q" "p_ps ?q = PS_STOPPED" "p_cs ?q = CS_PLAYING" "p_space ?q = p_space pl"
    using q c core_sel(7) [OF c(1)] producer_unload_keeps [OF u] by (auto simp: producer_status_update_def core_defs pframe_def)
  have stop: "runs (keeps N pl) (consumer_drain_and_stop ?q \<bind> (\<lambda>pl. Some (file_changed E (Some ti) pl)))"
    unfolding runs_bind runs_Some
    by (rule runs_mono [OF consumer_stop_runs(2) [OF cq(1)]])
      (use cq in \<open>auto simp: keeps_def pairs_def cframe_def intro!: file_changed_core\<close>)
  have "keeps N ?q = keeps N pl" using cq(4) by (simp add: keeps_def fun_eq_iff)
  with next_track_runs [OF E cq(1-3), of ti] stop show ?thesis
    using nf k by (cases "same_album (pi_ti (p_info pl)) ti") (auto simp: load_next_def u Let_def album_fault_def)
qed

lemma stop_all_runs:
  assumes "core N pl"
  shows "runs (keeps N pl) (do { pl \<leftarrow> producer_unload pl; pl \<leftarrow> consumer_drain_and_stop pl; Some (file_changed E None pl) })"
  unfolding runs_bind
proof (rule runs_mono [OF producer_unload_runs [OF assms]], elim conjE)
  fix q assume q: "core N q" "pframe pl q" "p_ps q = PS_UNLOADED"
  show "runs (\<lambda>x. runs (keeps N pl) (Some (file_changed E None x))) (consumer_drain_and_stop q)"
    by (rule runs_mono [OF consumer_stop_runs(2) [OF q(1)]])
      (use q in \<open>auto simp: runs_Some keeps_def pairs_def frames intro!: file_changed_core\<close>)
qed

lemma repeat_runs:
  assumes "core N pl" "p_ps pl = PS_PLAYING" "p_cs pl = CS_PLAYING"
  shows "runs (keeps N pl) (do { (rc, pl) \<leftarrow> seek_current E pl; reset_buffer pl })"
  unfolding runs_bind
  by (rule runs_mono [OF seek_current_runs [OF assms(1)]])
    (use assms in \<open>auto simp: keeps_def pairs_def frame_def intro!: runs_mono [OF reset_buffer_runs]\<close>)

text \<open>
  The fault at the end of a local track: \<open>continue_album\<close> is off, there is a next track to go on with, and it or
  the current track has no album.
\<close>

definition eof_fault :: "env \<Rightarrow> player \<Rightarrow> bool" where
  "eof_fault E pl \<longleftrightarrow>
     (case p_ip pl of Ip i \<Rightarrow> \<not> ip_is_remote i | _ \<Rightarrow> False) \<and>
     \<not> p_repeat_current pl \<and> p_cont pl \<and> \<not> p_cont_album pl \<and>
     (case (pi_ti (p_info pl), e_next_track E (p_tick pl)) of
        (Some cur, Some ti) \<Rightarrow> ti_album cur = None \<or> ti_album ti = None
      | _ \<Rightarrow> False)"

lemma handle_eof_cases:
  assumes E: "env_ok N E" and c: "core N pl" "p_ps pl = PS_PLAYING" "p_cs pl = CS_PLAYING"
  shows "eof_fault E pl \<Longrightarrow> consumer_handle_eof E pl = None"
    and "\<not> eof_fault E pl \<Longrightarrow> runs (keeps N pl) (consumer_handle_eof E pl)"
proof -
  obtain i where i: "p_ip pl = Ip i" using playing_ip [OF c(1)] c(2) by blast
  obtain ti where ti: "pi_ti (p_info pl) = Some ti"
    using core_sel(7) [OF c(1)] c(2) by fastforce
  define pl1 where "pl1 = pl\<lparr>p_info := (p_info pl)\<lparr>pi_ti :=
    map_option (\<lambda>ti. ti\<lparr>ti_play_count := (ti_play_count ti + 1) mod 2 ^ 32\<rparr>) (pi_ti (p_info pl))\<rparr>\<rparr>"
  have pl1: "core N pl1" "p_ps pl1 = PS_PLAYING" "p_cs pl1 = CS_PLAYING" "p_space pl1 = p_space pl"
    using c ti by (auto simp: pl1_def core_defs)
  have k1: "keeps N pl1 = keeps N pl" "keeps N (tick pl1) = keeps N pl"
    using pl1(4) by (simp_all add: keeps_def fun_eq_iff)
  have stop: "runs (keeps N pl) (producer_stop q \<bind> consumer_drain_and_stop)" if "core N q" "p_space q = p_space pl" for q
    by (rule runs_mono [OF stop_both_runs [OF that(1)]]) (simp add: that(2) keeps_def)
  have lost: "runs (keeps N pl) ((producer_stop pl \<bind> consumer_drain_and_stop) \<bind> player_error m)" for m
    unfolding runs_bind [of _ "_ \<bind> _"]
    by (rule runs_mono [OF stop [OF c(1) refl]])
      (auto intro!: runs_mono [OF error_core] simp: keeps_def pairs_def frame_def)
  have rep: "runs (keeps N pl) ((if p_cont pl1 then do { (rc, pl) \<leftarrow> seek_current E pl1; reset_buffer pl }
      else producer_stop pl1 \<bind> consumer_drain_and_stop) \<bind> player_status_changed)"
    using repeat_runs [OF pl1(1-3)] stop [OF pl1(1,4)] by (intro status_keeps) (auto simp: k1)
  have nxt: "runs (keeps N pl) (do {
        pl \<leftarrow> (do { pl \<leftarrow> producer_unload (tick pl1); pl \<leftarrow> consumer_drain_and_stop pl; Some (file_changed E None pl) });
        player_status_changed pl })"
    using stop_all_runs [of N "tick pl1" E] pl1(1) by (intro status_keeps) (simp add: k1)
  have eof: "consumer_handle_eof E pl =
     (if ip_is_remote i
      then do { pl \<leftarrow> producer_stop pl; pl \<leftarrow> consumer_drain_and_stop pl; player_error (TextMsg ''lost connection'') pl }
      else if p_repeat_current pl1
      then do { pl \<leftarrow> (if p_cont pl1 then do { (rc, pl) \<leftarrow> seek_current E pl1; reset_buffer pl }
                       else producer_stop pl1 \<bind> consumer_drain_and_stop);
                player_status_changed pl }
      else case e_next_track E (p_tick pl1) of
        Some ti \<Rightarrow> do { pl \<leftarrow> load_next E ti (tick pl1); player_status_changed pl }
      | None \<Rightarrow> do { pl \<leftarrow> producer_unload (tick pl1); pl \<leftarrow> consumer_drain_and_stop pl;
                     player_status_changed (file_changed E None pl) })"
    unfolding consumer_handle_eof_def the_ip_def i ip_ref.case bind.bind_lunit pl1_def [symmetric]
      Let_def [where s = "pl1"] get_next_track_def load_next_def
    by (simp add: Option.bind_assoc Let_def split: option.split)
  have tk: "p_tick pl1 = p_tick pl" "p_repeat_current pl1 = p_repeat_current pl" by (simp_all add: pl1_def)
  have alb: "album_fault (tick pl1) t \<longleftrightarrow>
      p_cont pl \<and> \<not> p_cont_album pl \<and> (ti_album ti = None \<or> ti_album t = None)" for t
    using ti by (auto simp: album_fault_def same_album_def bind_eq_None_conv pl1_def)
  show "consumer_handle_eof E pl = None" if "eof_fault E pl"
    using that i ti by (auto simp: eof_fault_def eof tk alb load_next_faults split: option.splits)
  assume nf: "\<not> eof_fault E pl"
  show "runs (keeps N pl) (consumer_handle_eof E pl)"
  proof (cases "ip_is_remote i \<or> p_repeat_current pl1")
    case True
    then show ?thesis using lost rep by (auto simp: eof Option.bind_assoc)
  next
    case False
    show ?thesis
    proof (cases "e_next_track E (p_tick pl1)")
      case None
      then show ?thesis using False nxt by (simp add: eof Option.bind_assoc)
    next
      case (Some t)
      then have "\<not> album_fault (tick pl1) t" using False nf i ti by (auto simp: eof_fault_def tk alb)
      then have "runs (keeps N pl) (load_next E t (tick pl1) \<bind> player_status_changed)"
        using load_next_runs [OF E, of "tick pl1" t] pl1 by (intro status_keeps) (simp add: k1)
      then show ?thesis using Some False by (simp add: eof Option.bind_assoc)
    qed
  qed
qed

text \<open>What can fault in an iteration of the consumer's inner loop.\<close>

definition iter_fault :: "env \<Rightarrow> player \<Rightarrow> bool" where
  "iter_fault E pl \<longleftrightarrow>
     (case p_space pl of
        None \<Rightarrow> False
      | Some spc \<Rightarrow>
          spc \<noteq> 0 \<and>
          (scale_fault spc pl \<or>
           map_option snd (buffer_get_rpos (p_buf pl)) = Some None \<and>
           (case p_ip pl of Ip i \<Rightarrow> ip_eof_flag i | _ \<Rightarrow> False) \<and> eof_fault E pl))"

lemma consumer_iter_faults:
  assumes E: "env_ok N E" and inv: "player_inv N pl" and f: "iter_fault E pl"
  shows "consumer_iter E pl = None"
proof -
  obtain spc sz r where s: "p_space pl = Some spc" "spc \<noteq> 0" "buffer_get_rpos (p_buf pl) = Some (sz, r)"
    using f by (auto simp: iter_fault_def scale_fault_def split: option.splits)
  with inv have st: "core N pl" "p_ps pl = PS_PLAYING" "p_cs pl = CS_PLAYING" by (auto simp: player_inv_def pair_ok_def)
  obtain i where i: "p_ip pl = Ip i" "ip_opened i" using playing_ip [OF st(1)] st(2) by blast
  show ?thesis
  proof (cases r)
    case None
    then show ?thesis
      using f s i st handle_eof_cases(1) [OF E st]
      by (auto simp: iter_fault_def scale_fault_def consumer_iter_def the_ip_def ip_eof_def)
  next
    case (Some p)
    then have "write_out E spc sz p pl = None"
      using f s by (auto simp: iter_fault_def scale_fault_def scaled_def write_out_def Let_def min_def
          split: if_splits option.splits)
    then show ?thesis using s Some by (simp add: consumer_iter_def)
  qed
qed

lemma consumer_iter_runs:
  assumes E: "env_ok N E" and inv: "player_inv N pl" and nf: "\<not> iter_fault E pl"
  shows "runs (player_inv N) (consumer_iter E pl)"
proof (cases "p_space pl")
  case None
  then show ?thesis using inv by (simp add: consumer_iter_def runs_Some)
next
  case (Some spc)
  with inv have st: "core N pl" "p_ps pl = PS_PLAYING" "p_cs pl = CS_PLAYING" by (auto simp: player_inv_def pair_ok_def)
  obtain i where i: "p_ip pl = Ip i" "ip_opened i" using playing_ip [OF st(1)] st(2) by blast
  obtain sz r where r: "buffer_get_rpos (p_buf pl) = Some (sz, r)"
    using get_rpos_cases [OF core_sel(1) [OF st(1)]] by blast
  have leave: "player_inv N (q\<lparr>p_space := None\<rparr>)" if "core N q" "pairs q" for q
    using that by (simp add: player_inv_def pair_ok_def pairs_def)
  have pos: "runs (\<lambda>q. player_inv N (q\<lparr>p_space := None\<rparr>)) (consumer_position_update E pl)"
    using st by (intro runs_mono [OF position_core [OF st(1)]]) (auto intro!: leave simp: pairs_def frame_def)
  have eof: "runs (\<lambda>q. player_inv N (q\<lparr>p_space := None\<rparr>)) (consumer_handle_eof E pl)" if "\<not> eof_fault E pl"
    by (rule runs_mono [OF handle_eof_cases(2) [OF E st that]]) (simp add: keeps_def leave)
  show ?thesis
    using Some i r pos eof write_out_runs [OF E inv Some] leave [OF st(1)] st nf
    by (cases r) (auto simp: consumer_iter_def wp the_ip_def ip_eof_def pairs_def iter_fault_def)
qed

lemma producer_reads_runs:
  assumes "env_ok N E" "core N pl" "p_ps pl = PS_PLAYING"
  shows "runs (\<lambda>q. core N q \<and> frame pl q) (producer_reads E n pl)"
  using assms(2,3)
proof (induction n arbitrary: pl)
  case 0
  then show ?case by (simp add: runs_Some frame_def)
next
  case (Suc n)
  obtain sz p where w: "buffer_get_wpos (p_buf pl) = Some (int sz, p)" "sz = 0 \<longleftrightarrow> p = None"
    by (rule wpos_room [OF core_sel(1) [OF Suc.prems(1)]]) blast
  show ?case
  proof (cases "sz = 0")
    case True
    then show ?thesis using w Suc.prems by (simp add: runs_Some frame_def)
  next
    case False
    with w obtain p' where p: "p = Some p'" "0 < sz" by auto
    have store: "runs (\<lambda>q. core N q \<and> frame pl q)
        (store_read E r (Some p') q \<bind> (\<lambda>(m, q). if m = 0 then Some q else producer_reads E n q))"
      if "core N q" "frame pl q" "p_buf q = p_buf pl" "r \<noteq> RAgain" "\<forall>bs. r = RBytes bs \<longrightarrow> length bs \<le> sz" for r q
      unfolding runs_bind
    proof (rule runs_mono [OF store_read_runs [OF assms(1) that(1) _ that(4) _ p(2)]], goal_cases)
      case (4 x)
      then obtain m y where x: "x = (m, y)" "core N y" "frame q y" by (cases x) auto
      then have "frame pl y" "p_ps y = PS_PLAYING" using that(2) Suc.prems(2) frame_trans by (auto simp: frame_def)
      then show ?case
        using x Suc.IH [of y] frame_trans by (auto simp: runs_Some elim!: runs_mono)
    qed (use that w p Suc.prems in \<open>auto simp: frame_def\<close>)
    have "runs (\<lambda>q. core N q \<and> frame pl q) (read_step E (int sz) pl \<bind> (\<lambda>(r, pl). if r = RAgain then Some pl
        else store_read E r (Some p') pl \<bind> (\<lambda>(m, q). if m = 0 then Some q else producer_reads E n q)))"
      unfolding runs_bind [of _ "read_step E (int sz) pl"]
      by (rule runs_mono [OF read_step_runs [OF assms(1) Suc.prems p(2)]]) (auto simp: runs_Some intro!: store)
    then show ?thesis using w p by simp
  qed
qed

lemma producer_round_runs:
  assumes "env_ok N E" "player_inv N pl"
  shows "runs (player_inv N) (producer_round E pl)"
proof (cases "p_ps pl = PS_PLAYING")
  case True
  have c: "core N pl" using assms(2) by (simp add: player_inv_def)
  obtain i where i: "p_ip pl = Ip i" "ip_opened i" using playing_ip [OF c] True by blast
  have keep: "player_inv N q" if "core N q" "frame pl q" for q
    using assms(2) that by (simp add: player_inv_def pair_ok_def frame_def)
  have "runs (player_inv N) (producer_reads E 2 pl \<bind> producer_buffer_fill_update)"
    unfolding runs_bind
    by (rule runs_mono [OF producer_reads_runs [OF assms(1) c True]], elim conjE, rule runs_mono [OF fill_core])
      (auto intro: keep frame_trans)
  then show ?thesis using True i assms(2) by (simp add: producer_round_def wp the_ip_def ip_eof_def)
next
  case False
  then show ?thesis using assms(2) by (cases "p_ps pl") (simp_all add: producer_round_def runs_Some)
qed

section \<open>The operations of the player\<close>

lemma player_stop_runs:
  assumes "core N pl"
  shows "runs (keeps N pl) (player_stop pl)"
proof -
  have "runs (keeps N pl) (consumer_stop pl \<bind> producer_stop)"
    unfolding runs_bind
  proof (rule runs_mono [OF consumer_stop_runs(1) [OF assms]], elim conjE)
    fix q assume q: "core N q" "cframe pl q" "p_cs q = CS_STOPPED"
    show "runs (keeps N pl) (producer_stop q)"
      by (rule runs_mono [OF producer_stop_runs [OF q(1)]])
        (use q in \<open>cases "p_ps q"; simp add: keeps_def pairs_def frames\<close>)
  qed
  from status_keeps [OF this] show ?thesis by (simp add: player_stop_def Option.bind_assoc)
qed

text \<open>
  Starting both sides: with the producer playing, \<open>consumer_play\<close> either starts the consumer, or the
  producer is stopped again.
\<close>

lemma start_runs:
  assumes "core N pl" "p_ps pl = PS_PLAYING"
  shows "runs (\<lambda>q. keeps N pl q \<and> (p_ps q, p_cs q) \<in> {(PS_PLAYING, CS_PLAYING), (PS_STOPPED, CS_STOPPED)})
    (do { pl \<leftarrow> consumer_play E pl; if p_cs pl \<noteq> CS_PLAYING then producer_stop pl else Some pl })"
  unfolding runs_bind
proof (rule runs_mono [OF consumer_play_runs [OF assms(1)]], goal_cases)
  case (2 q)
  then have q: "core N q" "p_ps q = PS_PLAYING" "p_space q = p_space pl" "p_cs q = CS_PLAYING \<or> p_cs q = CS_STOPPED"
    using assms(2) by (auto simp: cframe_def)
  have "runs (\<lambda>q. keeps N pl q \<and> (p_ps q, p_cs q) \<in> {(PS_PLAYING, CS_PLAYING), (PS_STOPPED, CS_STOPPED)}) (producer_stop q)"
    if "p_cs q = CS_STOPPED"
    by (rule runs_mono [OF producer_stop_runs [OF q(1)]]) (use q that in \<open>simp add: keeps_def pairs_def frames\<close>)
  then show ?case using q by (auto simp: runs_Some keeps_def pairs_def)
qed (use assms in simp)

text \<open>The status report and the prebuffering that end the operations which may start playing.\<close>

lemma finish_runs:
  assumes "env_ok N E" "keeps N pl q"
  shows "runs (keeps N pl) (do { pl \<leftarrow> player_status_changed q; if p_cs pl = CS_PLAYING \<and> P then prebuffer E pl else Some pl })"
  unfolding runs_bind
proof (rule runs_mono [OF status_core])
  show "core N q" using assms(2) by (simp add: keeps_def)
  fix x assume x: "core N x \<and> frame q x"
  then have "keeps N pl x" using assms(2) by (auto simp: keeps_def pairs_def frame_def)
  moreover have "runs (keeps N pl) (prebuffer E x)" if "p_cs x = CS_PLAYING"
    using x that assms(2)
    by (intro runs_mono [OF prebuffer_runs [OF assms(1)]]) (auto simp: keeps_def pairs_def frame_def)
  ultimately show "runs (keeps N pl) (if p_cs x = CS_PLAYING \<and> P then prebuffer E x else Some x)"
    by (simp add: runs_Some)
qed

text \<open>\<open>player_play\<close> and the branch of \<open>player_pause\<close> for a stopped player; \<open>other\<close> is what is done when no track was opened.\<close>

lemma play_runs:
  assumes E: "env_ok N E" and c: "core N pl"
    and other: "\<And>q. core N q \<Longrightarrow> pframe pl q \<Longrightarrow> p_ps q = PS_UNLOADED \<Longrightarrow> runs (keeps N pl) (other q)"
  shows "runs (keeps N pl) (do {
      pl \<leftarrow> producer_play E pl;
      pl \<leftarrow> (if p_ps pl = PS_PLAYING
             then do { pl \<leftarrow> consumer_play E pl; if p_cs pl \<noteq> CS_PLAYING then producer_stop pl else Some pl }
             else other pl);
      pl \<leftarrow> player_status_changed pl;
      if p_cs pl = CS_PLAYING \<and> P then prebuffer E pl else Some pl })"
proof (rule runs_bindI [OF producer_play_runs [OF E c]], elim conjE)
  fix q assume q: "core N q" "pframe pl q" "p_ps q \<in> {PS_UNLOADED, PS_PLAYING}"
  have "runs (keeps N pl) (if p_ps q = PS_PLAYING
      then do { pl \<leftarrow> consumer_play E q; if p_cs pl \<noteq> CS_PLAYING then producer_stop pl else Some pl }
      else other q)"
  proof (cases "p_ps q = PS_PLAYING")
    case True
    have "keeps N q = keeps N pl" using q(2) by (simp add: keeps_def pframe_def fun_eq_iff)
    with runs_mono [OF start_runs [OF q(1) True], of "keeps N pl" E] True show ?thesis by simp
  next
    case False
    then show ?thesis using q other by simp
  qed
  then show "runs (keeps N pl) ((if p_ps q = PS_PLAYING
      then do { pl \<leftarrow> consumer_play E q; if p_cs pl \<noteq> CS_PLAYING then producer_stop pl else Some pl }
      else other q) \<bind> (\<lambda>pl. player_status_changed pl \<bind> (\<lambda>pl.
        if p_cs pl = CS_PLAYING \<and> P then prebuffer E pl else Some pl)))"
    by (rule runs_bindI) (rule finish_runs [OF E])
qed

definition play_main :: "env \<Rightarrow> bool \<Rightarrow> player \<Rightarrow> player option" where
  "play_main E pre pl =
     do { pl \<leftarrow> producer_play E pl;
          pl \<leftarrow> (if p_ps pl = PS_PLAYING
                 then do { pl \<leftarrow> consumer_play E pl; if p_cs pl \<noteq> CS_PLAYING then producer_stop pl else Some pl }
                 else consumer_stop pl);
          pl \<leftarrow> player_status_changed pl;
          if p_cs pl = CS_PLAYING \<and> pre then prebuffer E pl else Some pl }"

lemma player_play_runs:
  assumes E: "env_ok N E" and c: "core N pl" "pairs pl"
  shows "runs (keeps N pl) (player_play E pl)"
proof -
  have stop: "runs (keeps N pl) (consumer_stop q)" if "core N q" "pframe pl q" "p_ps q = PS_UNLOADED" for q
    by (rule runs_mono [OF consumer_stop_runs(1) [OF that(1)]]) (use that in \<open>simp add: keeps_def pairs_def frames\<close>)
  have pl: "keeps N pl pl" using c by (simp add: keeps_def)
  have main: "runs (keeps N pl) (play_main E P pl)" for P
    unfolding play_main_def by (rule play_runs [OF E c(1) stop])
  show ?thesis
  proof (cases "p_ps pl = PS_PLAYING")
    case True
    then obtain i where i: "p_ip pl = Ip i" using playing_ip [OF c(1)] by blast
    show ?thesis
    proof (cases "ip_is_remote i")
      case True
      then show ?thesis using \<open>p_ps pl = PS_PLAYING\<close> i pl by (simp add: player_play_def the_ip_def runs_Some)
    next
      case False
      then have "player_play E pl = play_main E (p_cs pl = CS_STOPPED) pl"
        using True i by (simp add: player_play_def the_ip_def Let_def play_main_def)
      then show ?thesis using main by simp
    qed
  next
    case False
    then have "player_play E pl = play_main E (p_cs pl = CS_STOPPED) pl"
      by (simp add: player_play_def Let_def play_main_def)
    then show ?thesis using main by simp
  qed
qed

lemma pause_test_cases:
  "pause_test pl = None \<longleftrightarrow> p_ip pl = IpFreed"
  by (cases "p_ip pl") (auto simp: pause_test_def the_ip_def)

lemma pause_locked_runs:
  assumes E: "env_ok N E" and c: "core N pl" "pairs pl"
  shows "runs (keeps N pl) (pause_locked E pl)"
proof -
  have pp: "runs (keeps N pl) (consumer_pause (producer_pause pl) \<bind> player_status_changed)" if "p_cs pl \<noteq> CS_STOPPED"
  proof (rule status_keeps)
    have "core N (producer_pause pl)" using producer_pause_core [OF c(1)] by simp
    from runs_mono [OF consumer_pause_runs [OF this], of "keeps N pl"] show "runs (keeps N pl) (consumer_pause (producer_pause pl))"
      using producer_pause_core [OF c(1)] c(2) that by (auto elim!: pairsE simp: keeps_def pairs_def frames)
  qed
  have idle: "runs (keeps N pl) (Some q)" if "core N q" "pframe pl q" "p_ps q = PS_UNLOADED" "p_cs pl = CS_STOPPED" for q
    using that by (simp add: runs_Some keeps_def pairs_def pframe_def)
  show ?thesis
    using pp play_runs [OF E c(1), of Some True] idle by (auto simp: pause_locked_def)
qed

lemma player_pause_runs:
  assumes E: "env_ok N E" and c: "core N pl" "pairs pl" and ip: "p_ip pl \<noteq> IpFreed"
  shows "runs (keeps N pl) (player_pause E pl)"
  using ip pause_test_cases [of pl] player_stop_runs [OF c(1)] pause_locked_runs [OF E c]
  by (cases "pause_test pl") (auto simp: player_pause_def)

lemma set_file_out_runs:
  assumes "env_ok N E" "keeps N pl q" "p_ps q = PS_PLAYING \<longrightarrow> p_cs q = CS_PLAYING"
  shows "runs (keeps N pl) (set_file_out E q)"
  unfolding set_file_out_def
proof (rule runs_bindI [OF status_core])
  show "core N q" using assms(2) by (simp add: keeps_def)
  fix x assume x: "core N x \<and> frame q x"
  have "runs (keeps N pl) (prebuffer E x)" if "p_ps x = PS_PLAYING"
    using x that assms(2,3)
    by (intro runs_mono [OF prebuffer_runs [OF assms(1)]]) (auto simp: keeps_def pairs_def frame_def)
  moreover have "keeps N pl x" using x assms(2) by (auto simp: keeps_def pairs_def frame_def)
  ultimately show "runs (keeps N pl) (if p_ps x = PS_PLAYING then prebuffer E x else Some x)" by (simp add: runs_Some)
qed

text \<open>The new track while the consumer is running: open it and adapt the device.\<close>

lemma replace_runs:
  assumes E: "env_ok N E" and q: "core N q" "p_cs q \<noteq> CS_STOPPED"
  shows "runs (\<lambda>x. keeps N q x \<and> (p_ps x = PS_PLAYING \<longrightarrow> p_cs x = CS_PLAYING))
    (do { pl \<leftarrow> producer_play E q;
          if p_ps pl = PS_UNLOADED then consumer_stop pl else map_option snd (change_sf E True pl) })"
proof (rule runs_bindI [OF producer_play_runs [OF E q(1)]], elim conjE)
  fix x assume x: "core N x" "pframe q x" "p_ps x \<in> {PS_UNLOADED, PS_PLAYING}"
  have "runs (\<lambda>x. keeps N q x \<and> (p_ps x = PS_PLAYING \<longrightarrow> p_cs x = CS_PLAYING)) (consumer_stop x)" if "p_ps x = PS_UNLOADED"
    by (rule runs_mono [OF consumer_stop_runs(1) [OF x(1)]]) (use x that in \<open>simp add: keeps_def pairs_def frames\<close>)
  moreover have "runs (\<lambda>x. keeps N q x \<and> (p_ps x = PS_PLAYING \<longrightarrow> p_cs x = CS_PLAYING)) (map_option snd (change_sf E True x))"
    if "p_ps x = PS_PLAYING"
    unfolding runs_map_option
    by (rule runs_mono [OF change_sf_runs [OF x(1)]])
      (use x(2) q(2) that in \<open>auto simp: keeps_def pairs_def pframe_def split: if_splits\<close>)
  ultimately show "runs (\<lambda>x. keeps N q x \<and> (p_ps x = PS_PLAYING \<longrightarrow> p_cs x = CS_PLAYING))
      (if p_ps x = PS_UNLOADED then consumer_stop x else map_option snd (change_sf E True x))"
    using x(3) by auto
qed

lemma set_file_finish:
  assumes E: "env_ok N E" and q: "p_space q = p_space pl"
    and m: "runs (\<lambda>x. keeps N q x \<and> (p_ps x = PS_PLAYING \<longrightarrow> p_cs x = CS_PLAYING)) m"
  shows "runs (keeps N pl) (m \<bind> set_file_out E)"
  by (rule runs_bindI [OF m], rule set_file_out_runs [OF E]) (use q in \<open>simp_all add: keeps_def\<close>)

lemma op_call_runs: "core N pl \<Longrightarrow> p_cs pl \<noteq> CS_STOPPED \<Longrightarrow> op_call pl = Some pl"
  by (simp add: op_call_def core_def)

lemma player_set_file_runs:
  assumes E: "env_ok N E" and c: "core N pl"
  shows "runs (keeps N pl) (player_set_file E ti pl)"
  unfolding player_set_file_def
proof (rule runs_bindI [OF producer_set_file_runs [OF c]], elim conjE)
  fix q assume q: "core N q" "pframe pl q" "p_ps q = PS_STOPPED"
  have "runs (\<lambda>x. keeps N q x \<and> (p_ps x = PS_PLAYING \<longrightarrow> p_cs x = CS_PLAYING))
     (if p_ps q = PS_UNLOADED then consumer_stop q
      else if p_cs q = CS_PLAYING \<or> p_cs q = CS_PAUSED
      then op_call q \<bind> (\<lambda>pl. producer_play E pl \<bind> (\<lambda>pl. if p_ps pl = PS_UNLOADED then consumer_stop pl
        else map_option snd (change_sf E True pl)))
      else Some q)"
    using replace_runs [OF E q(1)] q(1,3)
    by (cases "p_cs q") (simp_all add: op_call_runs runs_Some keeps_def pairs_def)
  then show "runs (keeps N pl) ((if p_ps q = PS_UNLOADED then consumer_stop q
      else if p_cs q = CS_PLAYING \<or> p_cs q = CS_PAUSED
      then op_call q \<bind> (\<lambda>pl. producer_play E pl \<bind> (\<lambda>pl. if p_ps pl = PS_UNLOADED then consumer_stop pl
        else map_option snd (change_sf E True pl)))
      else Some q) \<bind> set_file_out E)"
    using q(2) by (intro set_file_finish [OF E]) (simp_all add: pframe_def)
qed

lemma play_file_stopped:
  assumes E: "env_ok N E" and q: "core N q" "p_cs q = CS_STOPPED"
  shows "runs (\<lambda>x. keeps N q x \<and> (p_ps x = PS_PLAYING \<longrightarrow> p_cs x = CS_PLAYING))
    (do { pl \<leftarrow> producer_play E q;
          if p_ps pl = PS_UNLOADED then consumer_stop pl
          else if p_cs pl = CS_STOPPED
          then do { pl \<leftarrow> consumer_play E pl; if p_cs pl = CS_STOPPED then producer_stop pl else Some pl }
          else do { pl \<leftarrow> op_call pl; map_option snd (change_sf E True pl) } })"
proof (rule runs_bindI [OF producer_play_runs [OF E q(1)]], elim conjE)
  fix x assume x: "core N x" "pframe q x" "p_ps x \<in> {PS_UNLOADED, PS_PLAYING}"
  then have s: "p_cs x = CS_STOPPED" "p_space x = p_space q" using q(2) by (simp_all add: pframe_def)
  have un: "runs (\<lambda>x. keeps N q x \<and> (p_ps x = PS_PLAYING \<longrightarrow> p_cs x = CS_PLAYING)) (consumer_stop x)" if "p_ps x = PS_UNLOADED"
    by (rule runs_mono [OF consumer_stop_runs(1) [OF x(1)]]) (use x that in \<open>simp add: keeps_def pairs_def frames\<close>)
  have play: "runs (\<lambda>x. keeps N q x \<and> (p_ps x = PS_PLAYING \<longrightarrow> p_cs x = CS_PLAYING))
      (do { pl \<leftarrow> consumer_play E x; if p_cs pl = CS_STOPPED then producer_stop pl else Some pl })" if "p_ps x = PS_PLAYING"
  proof (rule runs_bindI [OF consumer_play_runs [OF x(1)]])
    fix y assume "core N y \<and> cframe x y \<and> (p_cs y = CS_PLAYING \<or> p_cs x = CS_STOPPED \<and> p_cs y = CS_STOPPED)"
    then show "runs (\<lambda>x. keeps N q x \<and> (p_ps x = PS_PLAYING \<longrightarrow> p_cs x = CS_PLAYING))
        (if p_cs y = CS_STOPPED then producer_stop y else Some y)"
      using that s by (auto simp: runs_Some keeps_def pairs_def frames intro!: runs_mono [OF producer_stop_runs])
  qed (use that in simp)
  show "runs (\<lambda>x. keeps N q x \<and> (p_ps x = PS_PLAYING \<longrightarrow> p_cs x = CS_PLAYING))
      (if p_ps x = PS_UNLOADED then consumer_stop x
       else if p_cs x = CS_STOPPED
       then consumer_play E x \<bind> (\<lambda>pl. if p_cs pl = CS_STOPPED then producer_stop pl else Some pl)
       else op_call x \<bind> (\<lambda>pl. map_option snd (change_sf E True pl)))"
    using un play s x(3) by auto
qed

lemma play_file_running:
  assumes E: "env_ok N E" and q: "core N q" "p_cs q \<noteq> CS_STOPPED"
  shows "runs (\<lambda>x. keeps N q x \<and> (p_ps x = PS_PLAYING \<longrightarrow> p_cs x = CS_PLAYING))
    (do { pl \<leftarrow> producer_play E q;
          if p_ps pl = PS_UNLOADED then consumer_stop pl
          else if p_cs pl = CS_STOPPED
          then do { pl \<leftarrow> consumer_play E pl; if p_cs pl = CS_STOPPED then producer_stop pl else Some pl }
          else do { pl \<leftarrow> op_call pl; map_option snd (change_sf E True pl) } })"
proof -
  have "runs (\<lambda>x. core N x \<and> pframe q x) (producer_play E q)"
    by (rule runs_mono [OF producer_play_runs [OF E q(1)]]) simp
  then obtain x where x: "producer_play E q = Some x" "core N x" "p_cs x = p_cs q" by (auto simp: runs_ex pframe_def)
  then show ?thesis using replace_runs [OF E q] q(2) op_call_runs [of N x]
    by (cases "p_ps x = PS_UNLOADED") simp_all
qed

lemma player_play_file_runs:
  assumes E: "env_ok N E" and c: "core N pl"
  shows "runs (keeps N pl) (player_play_file E ti pl)"
  unfolding player_play_file_def
proof (rule runs_bindI [OF producer_set_file_runs [OF c]], elim conjE)
  fix q assume q: "core N q" "pframe pl q" "p_ps q = PS_STOPPED"
  show "runs (keeps N pl) ((if p_ps q = PS_UNLOADED then consumer_stop q
      else producer_play E q \<bind> (\<lambda>pl. if p_ps pl = PS_UNLOADED then consumer_stop pl
        else if p_cs pl = CS_STOPPED
        then consumer_play E pl \<bind> (\<lambda>pl. if p_cs pl = CS_STOPPED then producer_stop pl else Some pl)
        else op_call pl \<bind> (\<lambda>pl. map_option snd (change_sf E True pl)))) \<bind> set_file_out E)"
    unfolding q(3) if_not_P [OF producer_status.distinct(2)]
    by (rule set_file_finish [OF E, of q], use q(2) in \<open>simp add: pframe_def\<close>, cases "p_cs q = CS_STOPPED")
      (rule play_file_stopped [OF E q(1)] play_file_running [OF E q(1)]; assumption)+
qed

lemma cmus_next_runs:
  assumes "env_ok N E" "core N pl" "pairs pl"
  shows "runs (keeps N pl) (cmus_next E pl)"
proof (cases "e_next_track E (p_tick pl)")
  case None
  then show ?thesis using assms by (simp add: cmus_next_def get_next_track_def runs_Some keeps_def pairs_def)
next
  case (Some ti)
  have "keeps N (tick pl) = keeps N pl" by (simp add: keeps_def fun_eq_iff)
  then show ?thesis
    using player_set_file_runs [OF assms(1), of "tick pl" ti] assms(2) Some
    by (simp add: cmus_next_def get_next_track_def)
qed

text \<open>After a successful seek to \<open>cp\<close>: drop the device's bytes, reset the buffer, set both positions.\<close>

lemma seek_done_runs:
  assumes c: "core N pl" "pairs pl" "p_cs pl \<noteq> CS_STOPPED" and pause: "pause_after \<longrightarrow> p_cs pl = CS_PLAYING"
  shows "runs (keeps N pl)
    (do { pl \<leftarrow> op_call pl;
          pl \<leftarrow> reset_buffer pl;
          let cpos = nat \<lfloor>new_pos * real (buffer_second_size pl)\<rfloor>;
          pl \<leftarrow> consumer_position_update E (pl\<lparr>p_cpos := cpos, p_spos := cpos\<rparr>);
          if pause_after then do { pl \<leftarrow> consumer_pause (producer_pause pl); player_status_changed pl } else Some pl })"
proof -
  have ps: "p_ps pl = PS_PLAYING \<or> p_ps pl = PS_PAUSED" using c(2,3) by (auto elim!: pairsE)
  have reset: "runs (\<lambda>q. core N q \<and> frame pl q) (reset_buffer pl)" by (rule runs_mono [OF reset_buffer_runs [OF c(1)]]) simp
  have pos: "runs (\<lambda>x. core N x \<and> frame pl x) (consumer_position_update E (q\<lparr>p_cpos := cp, p_spos := cp\<rparr>))"
    if "core N q" "frame pl q" for q cp
  proof -
    have "core N (q\<lparr>p_cpos := cp, p_spos := cp\<rparr>)" using that(1) by (simp add: core_defs)
    then show ?thesis by (rule runs_mono [OF position_core]) (use that ps in \<open>auto simp: frame_def\<close>)
  qed
  have pause: "runs (keeps N pl) (if pause_after then consumer_pause (producer_pause x) \<bind> player_status_changed else Some x)"
    if "core N x" "frame pl x" for x
  proof (cases pause_after)
    case True
    have "runs (keeps N pl) (consumer_pause (producer_pause x))"
      using producer_pause_core [OF that(1)] that(2) pause True c(2)
      by (intro runs_mono [OF consumer_pause_runs]) (auto elim!: pairsE simp: keeps_def pairs_def frames)
    from status_keeps [OF this] True show ?thesis by simp
  next
    case False
    then show ?thesis using that c(2) by (auto simp: runs_Some keeps_def pairs_def frame_def)
  qed
  show ?thesis
    unfolding op_call_runs [OF c(1,3)] bind.bind_lunit Let_def
    by (rule runs_bindI [OF reset], elim conjE, rule runs_bindI [OF pos], assumption, assumption, rule pause) simp_all
qed

lemma ip_good_duration: "ip_good N (i\<lparr>ip_duration_cache := d\<rparr>) = ip_good N i"
  by (simp add: ip_good_def ip_convert_def)

lemma seek_playing_runs:
  assumes E: "env_ok N E" and c: "core N pl" "pairs pl" "p_cs pl \<noteq> CS_STOPPED" and pause: "pause_after \<longrightarrow> p_cs pl = CS_PLAYING"
  shows "runs (keeps N pl) (seek_playing E offset relative pause_after pl)"
proof -
  have ps: "p_ps pl = PS_PLAYING \<or> p_ps pl = PS_PAUSED" using c(2,3) by (auto elim!: pairsE)
  obtain i where i: "p_ip pl = Ip i" "ip_good N i" "ip_opened i" using playing_ip [OF c(1) ps] .
  obtain d j where j: "ip_duration (e_duration E (p_tick pl)) i = (d, j)" by fastforce
  then have good: "ip_good N j" using i(2) by (auto simp: ip_duration_def Let_def ip_good_duration split: if_splits)
  let ?q = "tick (pl\<lparr>p_ip := Ip j\<rparr>)"
  have "core N (pl\<lparr>p_ip := Ip j\<rparr>)" using c(1) ps good by (auto simp: core_defs)
  then have q: "core N ?q" "pairs ?q" "p_cs ?q \<noteq> CS_STOPPED" "p_space ?q = p_space pl" "keeps N ?q = keeps N pl"
    "pause_after \<longrightarrow> p_cs ?q = CS_PLAYING" "p_ps ?q = PS_PLAYING \<or> p_ps ?q = PS_PAUSED"
    using c pause ps by (simp_all add: pairs_def keeps_def fun_eq_iff)
  have same: "keeps N pl ?q" using q by (simp add: keeps_def)
  have seek: "runs (keeps N pl) (do { (rc, pl) \<leftarrow> seek_current E ?q;
      if rc = 0
      then do { pl \<leftarrow> op_call pl;
                pl \<leftarrow> reset_buffer pl;
                let cpos = nat \<lfloor>new_pos * real (buffer_second_size pl)\<rfloor>;
                pl \<leftarrow> consumer_position_update E (pl\<lparr>p_cpos := cpos, p_spos := cpos\<rparr>);
                if pause_after then do { pl \<leftarrow> consumer_pause (producer_pause pl); player_status_changed pl } else Some pl }
      else player_ip_error rc ''seeking in file'' pl })" for new_pos
  proof (rule runs_bindI [OF seek_current_runs [OF q(1,7)]], clarsimp simp del: bind_eq_Some_conv)
    fix rc x assume x: "core N x" "frame ?q x"
    then have x': "pairs x" "p_cs x \<noteq> CS_STOPPED" "p_space x = p_space pl" "keeps N x = keeps N pl"
      "pause_after \<longrightarrow> p_cs x = CS_PLAYING" "p_ps x = PS_PLAYING \<or> p_ps x = PS_PAUSED"
      using q by (auto simp: frame_def pairs_def keeps_def fun_eq_iff)
    obtain k where k: "p_ip x = Ip k" using playing_ip [OF x(1) x'(6)] by blast
    have "runs (keeps N pl) (player_ip_error rc ''seeking in file'' x)"
      by (rule runs_mono [OF ip_error_core [OF x(1) k]]) (use x' in \<open>auto simp: keeps_def pairs_def frame_def\<close>)
    with seek_done_runs [OF x(1) x'(1,2,5)] x'(4) show "(rc = 0 \<longrightarrow> runs (keeps N pl)
        (do { pl \<leftarrow> op_call x;
              pl \<leftarrow> reset_buffer pl;
              let cpos = nat \<lfloor>new_pos * real (buffer_second_size pl)\<rfloor>;
              pl \<leftarrow> consumer_position_update E (pl\<lparr>p_cpos := cpos, p_spos := cpos\<rparr>);
              if pause_after then do { pl \<leftarrow> consumer_pause (producer_pause pl); player_status_changed pl } else Some pl })) \<and>
        (rc \<noteq> 0 \<longrightarrow> runs (keeps N pl) (player_ip_error rc ''seeking in file'' x))"
      by simp
  qed
  show ?thesis
    using seek same cmus_next_runs [OF E q(1,2)] q(5) core_sel(9) [OF c(1) c(3)] i j
    unfolding seek_playing_def the_ip_def
    by (auto simp: bug_unless_bind runs_Some runs_None Let_def split: seek_goal.split)
qed

lemma player_seek_runs:
  assumes E: "env_ok N E" and c: "core N pl" "pairs pl"
  shows "runs (keeps N pl) (player_seek E offset relative start_playing pl)"
proof (cases "p_cs pl = CS_STOPPED")
  case False
  then show ?thesis using seek_playing_runs [OF E c False, of False] by (simp add: player_seek_def)
next
  case True
  have "runs (keeps N pl) (do { pl \<leftarrow> producer_play E pl;
      if p_ps pl = PS_PLAYING
      then do { pl \<leftarrow> consumer_play E pl;
                if p_cs pl \<noteq> CS_PLAYING then producer_stop pl
                else do { pl \<leftarrow> player_status_changed pl; seek_playing E offset relative (\<not> start_playing) pl } }
      else Some pl })"
  proof (rule runs_bindI [OF producer_play_runs [OF E c(1)]], elim conjE)
    fix q assume q: "core N q" "pframe pl q" "p_ps q \<in> {PS_UNLOADED, PS_PLAYING}"
    have "runs (keeps N pl) (do { pl \<leftarrow> consumer_play E q;
        if p_cs pl \<noteq> CS_PLAYING then producer_stop pl
        else do { pl \<leftarrow> player_status_changed pl; seek_playing E offset relative (\<not> start_playing) pl } })"
      if p: "p_ps q = PS_PLAYING"
    proof (rule runs_bindI [OF consumer_play_runs [OF q(1) disjI1 [OF p]]], elim conjE)
      fix x assume x: "core N x" "cframe q x" "p_cs x = CS_PLAYING \<or> p_cs q = CS_STOPPED \<and> p_cs x = CS_STOPPED"
      have "runs (keeps N pl) (producer_stop x)" if "p_cs x = CS_STOPPED"
        by (rule runs_mono [OF producer_stop_runs [OF x(1)]]) (use x q p that in \<open>simp add: keeps_def pairs_def frames\<close>)
      moreover have "runs (keeps N pl) (player_status_changed x \<bind> seek_playing E offset relative (\<not> start_playing))"
        if "p_cs x = CS_PLAYING"
      proof (rule runs_bindI [OF status_core [OF x(1)]], elim conjE)
        fix y assume y: "core N y" "frame x y"
        have "keeps N y = keeps N pl" using y x(2) q(2) by (simp add: keeps_def frames fun_eq_iff)
        then show "runs (keeps N pl) (seek_playing E offset relative (\<not> start_playing) y)"
          using seek_playing_runs [OF E y(1)] y(2) x(2) p that by (simp add: pairs_def frames)
      qed
      ultimately show "runs (keeps N pl) (if p_cs x \<noteq> CS_PLAYING then producer_stop x
          else player_status_changed x \<bind> seek_playing E offset relative (\<not> start_playing))"
        using x(3) by auto
    qed
    then show "runs (keeps N pl) (if p_ps q = PS_PLAYING
        then consumer_play E q \<bind> (\<lambda>pl. if p_cs pl \<noteq> CS_PLAYING then producer_stop pl
          else player_status_changed pl \<bind> seek_playing E offset relative (\<not> start_playing)) else Some q)"
      using q True by (auto simp: runs_Some keeps_def pairs_def pframe_def)
  qed
  then show ?thesis using True by (simp add: player_seek_def)
qed

lemma player_set_op_runs:
  assumes c: "core N pl" "pairs pl"
  shows "runs (keeps N pl) (player_set_op E pl)"
proof (cases "p_cs pl = CS_STOPPED")
  case True
  then show ?thesis using c by (simp add: player_set_op_def runs_Some keeps_def)
next
  case False
  then have ps: "p_ps pl = PS_PLAYING \<or> p_ps pl = PS_PAUSED" using c(2) by (auto elim!: pairsE)
  let ?s = "pl\<lparr>p_op_open := False, p_cs := CS_STOPPED\<rparr>"
  have op: "p_op_open pl" "p_cs pl = CS_PLAYING \<or> p_cs pl = CS_PAUSED"
    using core_sel(8) [OF c(1)] False by (auto, cases "p_cs pl") auto
  obtain sf m where sf: "set_buffer_sf ?s = Some (?s\<lparr>p_sf := sf, p_cmap := m\<rparr>)"
    "sf_get_second_size sf \<noteq> 0" "limit_of sf \<le> N"
    using set_buffer_sf_runs [OF core_stop [OF c(1)]] ps by (auto simp: runs_ex buffer_second_size_def unat_eq_0)
  have "set_buffer_sf (pl\<lparr>p_op_open := False\<rparr>) = map_option (\<lambda>q. q\<lparr>p_cs := p_cs pl\<rparr>) (set_buffer_sf ?s)"
    by (cases "p_ip pl") (auto simp: set_buffer_sf_def the_ip_def ip_get_sf_def ip_get_channel_map_def bug_unless_def)
  then have sf': "set_buffer_sf (pl\<lparr>p_op_open := False\<rparr>) = Some (pl\<lparr>p_op_open := False, p_sf := sf, p_cmap := m\<rparr>)"
    using sf(1) by simp
  define q where "q = pl\<lparr>p_op_open := False, p_sf := sf, p_cmap := m\<rparr>"
  have "\<not> p_op_open q" by (simp add: q_def)
  then obtain rc where rc: "op_open E q = Some (rc, tick (q\<lparr>p_op_open := (rc = 0)\<rparr>))" by (rule op_open_cases)
  have good: "core N (tick (q\<lparr>p_op_open := True\<rparr>))"
    using core_sf [OF c(1) sf(2,3)] op(1) False by (simp add: q_def core_defs tick_def)
  have bad: "runs (keeps N pl) (producer_stop (consumer_status_update CS_STOPPED (tick (q\<lparr>p_op_open := False\<rparr>))) \<bind>
      player_op_error e ''opening audio device'')" for e
  proof (rule runs_bindI [OF producer_stop_runs])
    have "core N (?s\<lparr>p_sf := sf, p_cmap := m\<rparr>)" using core_sf [OF core_stop [OF c(1)] sf(2,3)] .
    then show "core N (consumer_status_update CS_STOPPED (tick (q\<lparr>p_op_open := False\<rparr>)))"
      by (simp add: consumer_status_update_def q_def core_defs tick_def)
    fix x assume x: "core N x \<and> pframe (consumer_status_update CS_STOPPED (tick (q\<lparr>p_op_open := False\<rparr>))) x \<and>
      p_info x = p_info (consumer_status_update CS_STOPPED (tick (q\<lparr>p_op_open := False\<rparr>))) \<and>
      p_ps x = (if p_ps (consumer_status_update CS_STOPPED (tick (q\<lparr>p_op_open := False\<rparr>))) = PS_PLAYING \<or>
        p_ps (consumer_status_update CS_STOPPED (tick (q\<lparr>p_op_open := False\<rparr>))) = PS_PAUSED then PS_STOPPED
        else p_ps (consumer_status_update CS_STOPPED (tick (q\<lparr>p_op_open := False\<rparr>))))"
    then have "core N x" by simp
    then show "runs (keeps N pl) (player_op_error e ''opening audio device'' x)"
      by (rule runs_mono [OF op_error_core])
        (use x ps in \<open>auto simp: keeps_def pairs_def frames consumer_status_update_def q_def\<close>)
  qed
  have eq: "player_set_op E pl = (if rc \<noteq> 0
      then producer_stop (consumer_status_update CS_STOPPED (tick (q\<lparr>p_op_open := False\<rparr>))) \<bind> player_op_error rc ''opening audio device''
      else Some (tick (q\<lparr>p_op_open := True\<rparr>)))"
    using op rc unfolding player_set_op_def
    by (auto simp: op_call_def op_close_def sf' q_def [symmetric])
  show ?thesis
    unfolding eq using good bad c(2) by (auto simp: runs_Some keeps_def pairs_def q_def)
qed

lemma set_buffer_chunks_runs:
  assumes E: "env_ok N E" and c: "core N pl" and n: "N \<le> n" "0 < n" "n < 2 ^ 31"
  shows "runs (keeps N pl) (player_set_buffer_chunks E n pl)"
proof -
  have "runs (\<lambda>q. core N q \<and> pairs q \<and> p_space q = p_space pl \<and> p_cs q = CS_STOPPED) (producer_stop pl \<bind> consumer_stop)"
  proof (rule runs_bindI [OF producer_stop_runs [OF c]], elim conjE)
    fix q assume q: "core N q" "pframe pl q" "p_ps q = (if p_ps pl = PS_PLAYING \<or> p_ps pl = PS_PAUSED then PS_STOPPED else p_ps pl)"
    show "runs (\<lambda>q. core N q \<and> pairs q \<and> p_space q = p_space pl \<and> p_cs q = CS_STOPPED) (consumer_stop q)"
      by (rule runs_mono [OF consumer_stop_runs(1) [OF q(1)]]) (use q in \<open>cases "p_ps pl"; simp add: pairs_def frames\<close>)
  qed
  then have "runs (keeps N pl) ((producer_stop pl \<bind> consumer_stop) \<bind> (\<lambda>pl.
      buffer_init (e_junk E (p_tick pl)) ((p_buf pl)\<lparr>buffer_nr_chunks := n\<rparr>) \<bind> (\<lambda>b. player_status_changed (tick (pl\<lparr>p_buf := b\<rparr>)))))"
  proof (rule runs_bindI, elim conjE)
    fix q assume q: "core N q" "pairs q" "p_space q = p_space pl" "p_cs q = CS_STOPPED"
    show "runs (keeps N pl) (buffer_init (e_junk E (p_tick q)) ((p_buf q)\<lparr>buffer_nr_chunks := n\<rparr>) \<bind>
        (\<lambda>b. player_status_changed (tick (q\<lparr>p_buf := b\<rparr>))))"
    proof (rule runs_bindI [OF buffer_init_runs [OF n(2,3)]])
      fix b assume "buffer_inv b \<and> buffer_nr_chunks b = n"
      then have "core N (q\<lparr>p_buf := b\<rparr>)" using q(1) n(1) by (simp add: core_defs)
      then have "core N (tick (q\<lparr>p_buf := b\<rparr>))" by simp
      then show "runs (keeps N pl) (player_status_changed (tick (q\<lparr>p_buf := b\<rparr>)))"
        by (rule runs_mono [OF status_core]) (use q in \<open>auto simp: keeps_def pairs_def frame_def\<close>)
    qed (rule env_okD(6) [OF E])
  qed
  then show ?thesis by (simp add: player_set_buffer_chunks_def Option.bind_assoc)
qed

text \<open>Volume and replay gain.\<close>

lemma update_rg_scale_core:
  assumes "core N pl"
  shows "core N (update_rg_scale E (pl\<lparr>p_rg_preamp := db\<rparr>))"
  using assms rg_scale_nonneg [of "p_replaygain pl" _ "p_rg_limit pl" db "pi_ti (p_info pl)"]
  by (simp add: update_rg_scale_def tick_def core_defs vol_ok_def)

lemma update_rg_scale_sel [simp]:
  "p_ps (update_rg_scale E pl) = p_ps pl" "p_cs (update_rg_scale E pl) = p_cs pl"
  "p_space (update_rg_scale E pl) = p_space pl"
  by (simp_all add: update_rg_scale_def tick_def)

lemma resync_core:
  assumes "core N pl"
  shows "core N ((resync_scale_pos pl)\<lparr>p_vol := (p_vol pl)\<lparr>soft_vol := b\<rparr>\<rparr>)"
    "core N ((resync_scale_pos pl)\<lparr>p_replaygain := rg\<rparr>)"
    "p_vol (resync_scale_pos pl) = p_vol pl" "p_ps (resync_scale_pos pl) = p_ps pl" "p_cs (resync_scale_pos pl) = p_cs pl"
    "p_space (resync_scale_pos pl) = p_space pl" "p_rg_preamp (resync_scale_pos pl) = p_rg_preamp pl"
  using assms by (auto simp: resync_scale_pos_def core_defs vol_ok_def)

lemma update_rg_scale_keeps: "core N pl \<Longrightarrow> core N (update_rg_scale E pl)"
  using update_rg_scale_core [of N pl E "p_rg_preamp pl"] by simp

lemma clamp_range: "lo \<le> hi \<Longrightarrow> lo \<le> clamp v lo hi \<and> clamp v lo hi \<le> hi"
  by (simp add: clamp_def)

lemma volume_setters_keep:
  assumes "core N pl" "pairs pl"
  shows "0 \<le> l \<Longrightarrow> l \<le> 100 \<Longrightarrow> 0 \<le> r \<Longrightarrow> r \<le> 100 \<Longrightarrow> keeps N pl (player_set_soft_volume l r pl)"
    and "keeps N pl (player_set_soft_vol b pl)"
    and "keeps N pl (player_set_rg E rg pl)"
    and "keeps N pl (player_set_rg_limit E b pl)"
    and "keeps N pl (player_set_rg_preamp E db pl)"
    and "keeps N pl (snd (player_set_vol E vl lf vr rf pl))"
proof -
  show vol: "keeps N pl (player_set_soft_volume l r pl)" if "0 \<le> l" "l \<le> 100" "0 \<le> r" "r \<le> 100" for l r
    using assms that by (simp add: keeps_def pairs_def player_set_soft_volume_def core_defs vol_ok_def)
  show "keeps N pl (player_set_soft_vol b pl)"
    using resync_core [OF assms(1)] assms(2) by (simp add: player_set_soft_vol_def Let_def keeps_def pairs_def)
  show "keeps N pl (player_set_rg E rg pl)"
    using update_rg_scale_keeps [OF resync_core(2) [OF assms(1), of rg], of E] resync_core [OF assms(1)] assms(2)
    by (simp add: player_set_rg_def keeps_def pairs_def)
  have "core N (pl\<lparr>p_rg_limit := b\<rparr>)" using assms(1) by (simp add: core_defs)
  from update_rg_scale_keeps [OF this, of E] show "keeps N pl (player_set_rg_limit E b pl)"
    using assms(2) by (simp add: player_set_rg_limit_def keeps_def pairs_def)
  show "keeps N pl (player_set_rg_preamp E db pl)"
    using update_rg_scale_core [OF assms(1), of E] assms(2) by (simp add: player_set_rg_preamp_def keeps_def pairs_def)
  have upd: "core N (q\<lparr>p_volume_l := a, p_volume_r := b\<rparr>) = core N q" for q a b
    by (simp add: core_defs)
  have mix: "core N (mixer_read_volume E q) = core N q" "pairs (mixer_read_volume E q) = pairs q"
      "p_space (mixer_read_volume E q) = p_space q" for q
    by (cases "e_mixer_get E (p_tick q)", simp_all add: mixer_read_volume_def pairs_def case_prod_beta upd)+
  show "keeps N pl (snd (player_set_vol E vl lf vr rf pl))"
    using assms mix vol clamp_range [of 0 100]
    by (simp add: player_set_vol_def calc_vol_def keeps_def Let_def pairs_def)
qed

section \<open>Reachable states\<close>

text \<open>
  What can happen between two moments at which no operation is in progress: a round of the producer
  thread, the consumer thread entering its inner loop or passing through it once, and the operations of
  the user interface.
\<close>

datatype request =
  ProducerRound | ConsumerBegin | ConsumerIter | Stop | Play | Pause | PauseTest | PauseLocked | PausePlayback
| SetFile track_info | PlayFile track_info | FileChanged track_info | Next
| Seek real bool bool | SetOp | SetBufferChunks nat
| SetSoftVolume int int | SetSoftVol bool | SetVol int "bool \<times> bool" int "bool \<times> bool"
| SetRg replaygain | SetRgLimit bool | SetRgPreamp real | Snapshot | SetOptions bool bool bool bool

fun perform :: "env \<Rightarrow> request \<Rightarrow> player \<Rightarrow> player option" where
  "perform E ProducerRound pl = producer_round E pl"
| "perform E ConsumerBegin pl = consumer_begin E pl"
| "perform E ConsumerIter pl = consumer_iter E pl"
| "perform E Stop pl = player_stop pl"
| "perform E Play pl = player_play E pl"
| "perform E Pause pl = player_pause E pl"
| "perform E PauseTest pl = map_option (\<lambda>_. pl) (pause_test pl)"
| "perform E PauseLocked pl = pause_locked E pl"
| "perform E PausePlayback pl = player_pause_playback E pl"
| "perform E (SetFile ti) pl = player_set_file E ti pl"
| "perform E (PlayFile ti) pl = player_play_file E ti pl"
| "perform E (FileChanged ti) pl = Some (player_file_changed E (Some ti) pl)"
| "perform E Next pl = cmus_next E pl"
| "perform E (Seek offset relative start) pl = player_seek E offset relative start pl"
| "perform E SetOp pl = player_set_op E pl"
| "perform E (SetBufferChunks n) pl = player_set_buffer_chunks E n pl"
| "perform E (SetSoftVolume l r) pl = Some (player_set_soft_volume l r pl)"
| "perform E (SetSoftVol b) pl = Some (player_set_soft_vol b pl)"
| "perform E (SetVol l lf r rf) pl = Some (snd (player_set_vol E l lf r rf pl))"
| "perform E (SetRg rg) pl = Some (player_set_rg E rg pl)"
| "perform E (SetRgLimit b) pl = Some (player_set_rg_limit E b pl)"
| "perform E (SetRgPreamp db) pl = Some (player_set_rg_preamp E db pl)"
| "perform E Snapshot pl = Some (player_info_snapshot pl)"
| "perform E (SetOptions cont cont_album rep bitrate) pl =
     Some (pl\<lparr>p_cont := cont, p_cont_album := cont_album, p_repeat_current := rep, p_show_bitrate := bitrate\<rparr>)"

text \<open>
  When a request can be served. All but the producer thread, the snapshot and the unlocked test of
  \<open>player_pause\<close> need the consumer lock, which the consumer thread holds in its inner loop. Soft volumes are the
  percentages that the option code accepts, and the buffer has at least \<open>N\<close> chunks, the number that the
  prebuffering of every format needs (see \<open>prebuffer_full_aborts\<close> for a smaller buffer). \<open>Pause\<close> is
  \<open>player_pause\<close> without an interruption; \<open>PauseTest\<close> is its unlocked test, and \<open>Stop\<close> and \<open>PauseLocked\<close> are what
  may follow it at any later moment.
\<close>

fun enabled :: "nat \<Rightarrow> request \<Rightarrow> player \<Rightarrow> bool" where
  "enabled N ProducerRound pl = True"
| "enabled N ConsumerIter pl = True"
| "enabled N Snapshot pl = True"
| "enabled N PauseTest pl = True"
| "enabled N (SetBufferChunks n) pl = (p_space pl = None \<and> N \<le> n \<and> 0 < n \<and> n < 2 ^ 31)"
| "enabled N (SetSoftVolume l r) pl = (p_space pl = None \<and> 0 \<le> l \<and> l \<le> 100 \<and> 0 \<le> r \<and> r \<le> 100)"
| "enabled N _ pl = (p_space pl = None)"

text \<open>The requests that fault: those that look at a deleted handle, and an iteration of the consumer's loop.\<close>

fun faults :: "env \<Rightarrow> request \<Rightarrow> player \<Rightarrow> bool" where
  "faults E Pause pl = (p_ip pl = IpFreed)"
| "faults E PauseTest pl = (p_ip pl = IpFreed)"
| "faults E ConsumerIter pl = iter_fault E pl"
| "faults E _ pl = False"

lemma snapshot_inv: "player_inv N pl \<Longrightarrow> player_inv N (player_info_snapshot pl)"
  by (simp add: player_inv_def pair_ok_def core_defs player_info_snapshot_def)

lemma pause_playback_runs:
  assumes "env_ok N E" "core N pl" "pairs pl"
  shows "runs (keeps N pl) (player_pause_playback E pl)"
proof (cases "p_cs pl = CS_PLAYING")
  case True
  then have "p_ps pl = PS_PLAYING" using assms(3) by (auto elim!: pairsE)
  then obtain i where "p_ip pl = Ip i" using playing_ip [OF assms(2)] by blast
  then show ?thesis using player_pause_runs [OF assms] True by (simp add: player_pause_playback_def)
qed (use assms in \<open>simp add: player_pause_playback_def runs_Some keeps_def\<close>)

lemma perform_runs:
  assumes E: "env_ok N E" and inv: "player_inv N pl" and en: "enabled N r pl" and nf: "\<not> faults E r pl"
  shows "runs (player_inv N) (perform E r pl)"
proof -
  have c: "core N pl" "pairs pl" using inv by (auto elim: player_invE)
  have k: "runs (player_inv N) m" if "runs (keeps N pl) m" "p_space pl = None" for m
    using that by (auto intro: runs_mono keeps_inv)
  have fc: "keeps N pl (file_changed E (Some ti) pl)" for ti
    using file_changed_core [OF c(1), of "Some ti" E] c(2) by (simp add: keeps_def pairs_def)
  have opt: "keeps N pl (pl\<lparr>p_cont := a, p_cont_album := e, p_repeat_current := b, p_show_bitrate := d\<rparr>)" for a b d e
    using c by (simp add: keeps_def pairs_def core_defs)
  have test: "runs (player_inv N) (map_option (\<lambda>_. pl) (pause_test pl))" if "p_ip pl \<noteq> IpFreed"
    using that pause_test_cases [of pl] inv by (auto simp: runs_Some)
  note rules = player_stop_runs [OF c(1)] player_play_runs [OF E c] player_pause_runs [OF E c]
    pause_locked_runs [OF E c] pause_playback_runs [OF E c] player_set_file_runs [OF E c(1)]
    player_play_file_runs [OF E c(1)] cmus_next_runs [OF E c] player_seek_runs [OF E c]
    player_set_op_runs [OF c] set_buffer_chunks_runs [OF E c(1)]
  show ?thesis
    using en nf
    by (cases r) (simp_all add: producer_round_runs [OF E inv] consumer_begin_runs [OF inv] consumer_iter_runs [OF E inv]
      snapshot_inv [OF inv] test runs_Some k rules keeps_inv [OF volume_setters_keep(1) [OF c]]
      keeps_inv [OF volume_setters_keep(2) [OF c]] keeps_inv [OF volume_setters_keep(3) [OF c]]
      keeps_inv [OF volume_setters_keep(4) [OF c]] keeps_inv [OF volume_setters_keep(5) [OF c]]
      keeps_inv [OF volume_setters_keep(6) [OF c]] keeps_inv [OF fc] keeps_inv [OF opt] player_file_changed_def)
qed

lemma perform_faults:
  assumes E: "env_ok N E" and inv: "player_inv N pl" and f: "faults E r pl"
  shows "perform E r pl = None"
  using f consumer_iter_faults [OF E inv] pause_test_cases [of pl]
  by (cases r) (auto simp: player_pause_def)

inductive reachable :: "nat \<Rightarrow> env \<Rightarrow> player \<Rightarrow> bool" for N E where
  init: "player_init E = Some pl \<Longrightarrow> reachable N E pl"
| step: "reachable N E pl \<Longrightarrow> enabled N r pl \<Longrightarrow> perform E r pl = Some q \<Longrightarrow> reachable N E q"

lemma player_init_runs:
  assumes "env_ok N E" "N \<le> 29"
  shows "runs (\<lambda>q. player_inv N q \<and> p_space q = None) (player_init E)"
  unfolding player_init_def
proof (rule runs_bindI [OF buffer_init_runs])
  show "length (cdata (e_junk E 0 i)) = CHUNK_SIZE" for i by (rule env_okD(6) [OF assms(1)])
  fix b assume b: "buffer_inv b \<and> buffer_nr_chunks b = 10 * 44100 * 16 div 8 * 2 div CHUNK_SIZE"
  have "core N (player0\<lparr>p_buf := b\<rparr>)"
    using b assms(2) by (simp add: core_defs player0_def player_info0_def vol_ok_def CHUNK_SIZE_def)
  then have "core N (tick (player0\<lparr>p_buf := b\<rparr>))" by simp
  then show "runs (\<lambda>q. player_inv N q \<and> p_space q = None) (player_status_changed (tick (player0\<lparr>p_buf := b\<rparr>)))"
    by (rule runs_mono [OF status_core])
      (auto simp: player_inv_def pair_ok_def frame_def player0_def)
qed (simp_all add: CHUNK_SIZE_def)

lemma player_init_idle: "player_init E = Some q \<Longrightarrow> p_ps q = PS_UNLOADED"
  by (auto simp: player_init_def player_status_changed_def bind_eq_Some_conv tick_def player0_def)

lemma reachable_inv:
  assumes "reachable N E pl" "env_ok N E" "N \<le> 29"
  shows "player_inv N pl"
  using assms(1)
proof induction
  case (init pl)
  then show ?case using player_init_runs [OF assms(2,3)] by (simp add: runs_Some)
next
  case (step pl r q)
  then have "\<not> faults E r pl" using perform_faults [OF assms(2) step.IH] by auto
  then show ?case using perform_runs [OF assms(2) step.IH step.hyps(2)] step.hyps(3) by (simp add: runs_Some)
qed

section \<open>An example environment\<close>

text \<open>
  Every track opens as 16-bit stereo at 44.1 kHz and delivers frames as long as there is room; the device
  takes everything.
\<close>

definition example_sf :: sample_format where
  "example_sf = sf_bits 16 OR sf_signed 1 OR sf_rate 44100 OR sf_channels 2"

definition example_env :: env where
  "example_env = \<lparr>e_next_track = (\<lambda>t. Some example_track),
     e_open = (\<lambda>t. \<lparr>oa_rc = 0, oa_sf = example_sf, oa_channel_map = channel_map_init\<rparr>),
     e_read = (\<lambda>t i n. if sf_get_frame_size (ip_sf i) = 4 \<and> 4 \<le> n then ReadBytes [1, 0, 2, 0] False else ReadBytes [] False),
     e_seek = (\<lambda>t. 0), e_duration = (\<lambda>t. 180), e_bitrate = (\<lambda>t. -1), e_metadata = (\<lambda>t. None),
     e_comments = (\<lambda>t. None), e_op_open = (\<lambda>t. 0), e_op_space = (\<lambda>t. 4096), e_op_write = (\<lambda>t bs. int (length bs)),
     e_mixer_get = (\<lambda>t. None), e_mixer_set = (\<lambda>t. 0),
     e_junk = (\<lambda>t i. \<lparr>cdata = replicate CHUNK_SIZE 0, c_l = 7, c_h = 9, c_filled = True\<rparr>),
     e_rg_avoid = (\<lambda>t. False), e_clib = example_clib\<rparr>"

lemmas sf_eval = sf_bits_def sf_signed_def sf_rate_def sf_channels_def sf_bigendian_def sf_host_endian_def
  sf_get_bits_def sf_get_signed_def sf_get_rate_def sf_get_channels_def sf_get_sample_size_def sf_get_frame_size_def
  sf_get_second_size_def SF_BITS_MASK_def SF_SIGNED_MASK_def SF_RATE_MASK_def SF_CHANNELS_MASK_def SF_BIGENDIAN_MASK_def

lemma example_sf_num: "example_sf = 0x022B1112"
  by (simp add: example_sf_def sf_eval)

lemma example_format: "sf_get_bits example_sf = 16" "sf_get_channels example_sf = 2"
    "sf_get_second_size example_sf = 176400" "limit_of example_sf = 1" "read_format example_sf = example_sf"
  by (simp_all add: example_sf_num sf_eval limit_of_def CHUNK_SIZE_def read_format_def)

lemma example_env_ok: "env_ok 29 example_env"
  unfolding env_ok_def
proof (intro conjI allI impI)
  fix t i n raw meta assume "e_read example_env t i n = ReadBytes raw meta"
  then have "raw = [] \<or> raw = [1, 0, 2, 0] \<and> sf_get_frame_size (ip_sf i) = 4 \<and> 4 \<le> n"
    by (auto simp: example_env_def split: if_splits)
  then show "length raw \<le> n" "of_nat (length raw) mod sf_get_frame_size (ip_sf i) = 0" by auto
next
  fix t show "format_ok 29 (oa_sf (e_open example_env t))"
    by (simp add: example_env_def format_ok_def example_format)
next
  fix t show "\<exists>d. \<forall>i n. e_read example_env (t + d) i n \<noteq> ReadAgain" by (simp add: example_env_def)
next
  fix t i show "length (cdata (e_junk example_env t i)) = CHUNK_SIZE" by (simp add: example_env_def)
qed (simp_all add: example_env_def)

text \<open>When the next track cannot be opened, \<open>player_play\<close> leaves a deleted handle behind.\<close>

lemma play_frees_handle:
  assumes "env_ok N E" and "player_inv N pl" and "p_ps pl = PS_UNLOADED"
    and "e_next_track E (p_tick pl) = Some ti" and "oa_rc (e_open E (Suc (p_tick pl))) \<noteq> 0"
  shows "\<exists>q. player_play E pl = Some q \<and> p_ps q = PS_UNLOADED \<and> p_ip q = IpFreed"
proof -
  let ?rc = "oa_rc (e_open E (Suc (p_tick pl)))"
  define x where "x = tick ((tick pl)\<lparr>p_ip := Ip (ip_init (ti_filename ti))\<rparr>)"
  have c: "core N pl" "p_cs pl = CS_STOPPED" using assms(2,3) by (auto simp: player_inv_def pair_ok_def)
  have opn: "open_current E ((tick pl)\<lparr>p_ip := Ip (ip_new (ti_filename ti))\<rparr>) = Some (?rc, x)"
    using assms(5) by (simp add: open_current_def the_ip_def ip_open_def x_def)
  have "core N ((tick pl)\<lparr>p_ip := Ip (ip_init (ti_filename ti))\<rparr>)" using c(1) assms(3) by (simp add: core_defs tick_def)
  then have x: "core N x" "p_ip x = Ip (ip_init (ti_filename ti))" "p_ps x = PS_UNLOADED" "p_cs x = CS_STOPPED"
    using assms(3) c(2) by (simp_all add: x_def)
  obtain y where y: "player_ip_error ?rc ''opening file'' x = Some y" "same_state x y"
    using player_ip_error_runs [OF x(1,2)] by (auto simp: runs_ex)
  let ?z = "file_changed E None (y\<lparr>p_ip := IpFreed\<rparr>)"
  have z: "core N ?z" "p_ps ?z = PS_UNLOADED" "p_cs ?z = CS_STOPPED" "p_ip ?z = IpFreed"
    using file_changed_unloaded [of N y E IpFreed] same_state_core [OF y(2), of N] y(2) x by (simp_all add: same_state_def)
  obtain q where q: "player_status_changed ?z = Some q" "same_state ?z q"
    using status_changed_runs [OF z(1)] by (auto simp: runs_ex)
  have del: "ip_delete y = Some (y\<lparr>p_ip := IpFreed\<rparr>)" using y(2) x(2) by (simp add: ip_delete_def the_ip_def same_state_def)
  have "producer_play E pl = Some ?z"
    using assms(3-5) opn y(1) del by (simp add: producer_play_def get_next_track_def)
  moreover have "consumer_stop ?z = Some ?z" using z(3) by (simp add: consumer_stop_def)
  ultimately have "player_play E pl = Some q"
    using assms(3) z(2,3) q by (simp add: player_play_def same_state_def)
  then show ?thesis using q(2) z by (auto simp: same_state_def)
qed

lemma env_ok_smaller:
  assumes "env_ok 29 example_env"
  shows "env_ok 2 example_env"
  using assms by (simp add: env_ok_def example_env_def format_ok_def example_format)

text \<open>An environment in which no track can be opened, and a player that has nothing loaded.\<close>

definition broken_env :: env where
  "broken_env = example_env\<lparr>e_open := \<lambda>t. \<lparr>oa_rc = -1, oa_sf = 0, oa_channel_map = channel_map_init\<rparr>\<rparr>"

definition idle_player :: player where
  "idle_player = player0\<lparr>p_buf := example_buffer\<rparr>"

lemma broken_env_ok: "env_ok 2 broken_env"
  using env_ok_smaller [OF example_env_ok] by (simp add: broken_env_def env_ok_def)

lemma idle_player_inv: "player_inv 2 idle_player"
  using example_buffer_inv(1)
  by (simp add: player_inv_def pair_ok_def core_defs vol_ok_def idle_player_def player0_def player_info0_def example_buffer_def)

section \<open>Properties\<close>

text \<open>
  C2. In every state that is reachable between operations, however the two threads and the operations are
  interleaved, the producer and the consumer are in one of five pairs of states; the audio device is open
  exactly when the consumer is not stopped; the input handle exists and is open exactly when the producer
  plays or is paused, and exists and is closed when it is stopped; and the ring buffer is well formed. The
  environment keeps its contract, and the buffer never has fewer than N chunks, as for C1.
\<close>

theorem player_states:
  assumes "env_ok N E" and "N \<le> 29" and "reachable N E pl"
  shows "(p_ps pl, p_cs pl) \<in> {(PS_UNLOADED, CS_STOPPED), (PS_STOPPED, CS_STOPPED), (PS_PLAYING, CS_STOPPED),
      (PS_PLAYING, CS_PLAYING), (PS_PAUSED, CS_PAUSED)} \<and>
    (p_op_open pl \<longleftrightarrow> p_cs pl \<noteq> CS_STOPPED) \<and> buffer_inv (p_buf pl) \<and>
    (p_ps pl = PS_UNLOADED \<or> (\<exists>i. p_ip pl = Ip i \<and> (ip_opened i \<longleftrightarrow> p_ps pl \<noteq> PS_STOPPED)))"
proof -
  have inv: "core N pl" "pair_ok pl" using reachable_inv [OF assms(3,1,2)] by (simp_all add: player_inv_def)
  have "p_ps pl = PS_UNLOADED \<or> (\<exists>i. p_ip pl = Ip i \<and> (ip_opened i \<longleftrightarrow> p_ps pl \<noteq> PS_STOPPED))"
    using core_sel(6) [OF inv(1)] by (cases "p_ps pl"; cases "p_ip pl") (auto simp: ip_good_def)
  then show ?thesis using inv core_sel(1,8) [OF inv(1)] by (simp add: pair_ok_def)
qed

theorem player_states_witness:
  "\<exists>pl. env_ok 29 example_env \<and> reachable 29 example_env pl \<and>
    (p_op_open pl \<longleftrightarrow> p_cs pl \<noteq> CS_STOPPED) \<and> buffer_inv (p_buf pl)"
proof -
  obtain pl where "player_init example_env = Some pl"
    using player_init_runs [OF example_env_ok] by (auto simp: runs_ex)
  then have "reachable 29 example_env pl" by (rule reachable.init)
  with player_states [OF example_env_ok _ this] example_env_ok show ?thesis by auto
qed

text \<open>
  C1. What faults. In every state that is reachable between operations, a step of one of the two threads or an
  operation of the user interface returns, except in exactly three situations: the unlocked test of
  \<^verbatim>\<open>player_pause\<close> meets a handle that has been deleted; at the end of a local track, with \<^verbatim>\<open>continue_album\<close> off
  and a next track to go on with, one of the two tracks has no album; or replay gain amplifies and a sample of
  the bytes to be written overflows. In these three it does fault. So in all other cases no \<open>BUG_ON\<close> of the
  player, the buffer and the input layer fires, no missing or freed handle is used, no division by zero
  happens, no byte is written outside of the buffer, no device call is made on a closed device, and no loop
  runs forever. This is under the assumptions of \<open>env_ok\<close> on decoders and device, for a buffer that never has
  fewer than \<open>N\<close> chunks, where \<open>N \<le> 29\<close> chunks hold a quarter of a second of every format that is opened, and
  for soft volumes in percent.
\<close>

theorem player_fault_iff:
  assumes "env_ok N E" and "N \<le> 29" and "reachable N E pl" and "enabled N r pl"
  shows "perform E r pl = None \<longleftrightarrow> faults E r pl"
  using perform_runs [OF assms(1) reachable_inv [OF assms(3,1,2)] assms(4)]
    perform_faults [OF assms(1) reachable_inv [OF assms(3,1,2)], of r]
  by (cases "faults E r pl") (auto simp: runs_ex)

theorem player_fault_iff_witness:
  "(\<exists>pl q. env_ok 29 example_env \<and> reachable 29 example_env pl \<and> enabled 29 Play pl \<and> perform example_env Play pl = Some q) \<and>
   (\<exists>q. env_ok 2 broken_env \<and> reachable 2 broken_env q \<and> enabled 2 Pause q \<and> perform broken_env Pause q = None)"
proof
  obtain pl where pl: "player_init example_env = Some pl" "p_space pl = None"
    using player_init_runs [OF example_env_ok] by (auto simp: runs_ex)
  then have "reachable 29 example_env pl" "enabled 29 Play pl" by (auto intro: reachable.init)
  with player_fault_iff [OF example_env_ok _ this] example_env_ok
  show "\<exists>pl q. env_ok 29 example_env \<and> reachable 29 example_env pl \<and> enabled 29 Play pl \<and> perform example_env Play pl = Some q"
    by auto
next
  obtain pl where pl: "player_init broken_env = Some pl" "player_inv 2 pl" "p_space pl = None" "p_ps pl = PS_UNLOADED"
    using player_init_runs [OF broken_env_ok] player_init_idle by (auto simp: runs_ex)
  obtain q where q: "player_play broken_env pl = Some q" "p_ip q = IpFreed"
    using play_frees_handle [OF broken_env_ok pl(2,4), of example_track] by (auto simp: broken_env_def example_env_def)
  have "runs (keeps 2 pl) (player_play broken_env pl)"
    using pl(2) by (intro player_play_runs [OF broken_env_ok]) (auto elim: player_invE)
  then have s: "p_space q = None" using q(1) pl(3) by (simp add: runs_Some keeps_def)
  have "reachable 2 broken_env pl" using pl(1) by (rule reachable.init)
  then have "reachable 2 broken_env q" by (rule reachable.step [where r = Play]) (use pl(3) q(1) in simp_all)
  with player_fault_iff [OF broken_env_ok _ this, of Pause] broken_env_ok s q(2)
  show "\<exists>q. env_ok 2 broken_env \<and> reachable 2 broken_env q \<and> enabled 2 Pause q \<and> perform broken_env Pause q = None"
    by auto
qed

text \<open>
  C5. Prebuffering ends: with a decoder that answers after finitely many retries, \<open>_prebuffer\<close> returns from
  every state of the invariant in which both sides play, and keeps the invariant and both states. The
  invariant has a buffer of at least N chunks, so that the limit fits into it.
\<close>

theorem prebuffer_terminates:
  assumes "env_ok N E" and "player_inv N pl" and "p_ps pl = PS_PLAYING" and "p_cs pl = CS_PLAYING"
  shows "\<exists>q. prebuffer E pl = Some q \<and> player_inv N q \<and> p_ps q = PS_PLAYING \<and> p_cs q = CS_PLAYING"
proof -
  have "core N pl" using assms(2) by (simp add: player_inv_def)
  from prebuffer_runs [OF assms(1) this assms(3)] assms(4) obtain q where
    "prebuffer E pl = Some q" "core N q" "frame pl q" by (auto simp: runs_ex)
  then show ?thesis using assms(2-4) by (auto simp: player_inv_def pair_ok_def frame_def)
qed

text \<open>A state in which the example track plays.\<close>

definition example_ip :: input_plugin where
  "example_ip = (ip_new ''/m/a.flac'')\<lparr>ip_opened := True, ip_sf := example_sf, ip_scale := 1\<rparr>"

definition example_player :: player where
  "example_player = player0\<lparr>p_ps := PS_PLAYING, p_cs := CS_PLAYING, p_ip := Ip example_ip, p_op_open := True,
     p_buf := example_buffer, p_sf := example_sf, p_info := player_info0\<lparr>pi_ti := Some example_track\<rparr>\<rparr>"

lemma example_player_inv: "player_inv 2 example_player"
proof -
  have "ip_good 2 example_ip"
    by (simp add: ip_good_def example_ip_def format_ok_def example_format ip_convert_def ip_new_def ip_init_def)
  moreover have "buffer_nr_chunks example_buffer = 2" by (simp add: example_buffer_def)
  ultimately show ?thesis
    using example_buffer_inv(1)
    by (simp add: player_inv_def pair_ok_def core_defs vol_ok_def example_player_def player0_def player_info0_def example_format)
qed

theorem prebuffer_terminates_witness:
  "env_ok 2 example_env \<and> player_inv 2 example_player \<and> (\<exists>q. prebuffer example_env example_player = Some q \<and>
     player_inv 2 q \<and> p_ps q = PS_PLAYING \<and> p_cs q = CS_PLAYING)"
  using prebuffer_terminates [OF env_ok_smaller [OF example_env_ok] example_player_inv] example_player_inv
    env_ok_smaller [OF example_env_ok] by (simp add: example_player_def)

text \<open>
  C6. A defect of \<^verbatim>\<open>player_pause\<close>: it looks at the handle whenever the pointer is not null, but deleting the
  handle does not reset the pointer. When nothing is loaded and the next track cannot be opened,
  \<^verbatim>\<open>player_play\<close> returns normally with the handle deleted, and a pause then uses the deleted handle.
\<close>

theorem pause_uses_freed_handle:
  assumes "env_ok N E" and "player_inv N pl" and "p_ps pl = PS_UNLOADED"
    and "e_next_track E (p_tick pl) = Some ti" and "oa_rc (e_open E (Suc (p_tick pl))) \<noteq> 0"
  shows "\<exists>q. player_play E pl = Some q \<and> p_ps q = PS_UNLOADED \<and> p_ip q = IpFreed \<and> player_pause E q = None"
proof -
  obtain q where q: "player_play E pl = Some q" "p_ps q = PS_UNLOADED" "p_ip q = IpFreed"
    using play_frees_handle [OF assms] by blast
  then have "player_pause E q = None" using pause_test_cases [of q] by (simp add: player_pause_def)
  with q show ?thesis by blast
qed

theorem pause_uses_freed_handle_witness:
  "env_ok 2 broken_env \<and> player_inv 2 idle_player \<and>
   (\<exists>q. player_play broken_env idle_player = Some q \<and> p_ip q = IpFreed \<and> player_pause broken_env q = None)"
  using pause_uses_freed_handle [OF broken_env_ok idle_player_inv, of example_track] broken_env_ok idle_player_inv
  by (auto simp: idle_player_def player0_def broken_env_def example_env_def)

text \<open>
  A defect at the end of a track: with the option \<^verbatim>\<open>continue_album\<close> off, the albums of the old and of the next
  track are compared without a check for a missing album tag. The end of a local file then faults when
  either track has no album, while with the option on it is handled.
\<close>

theorem eof_without_album:
  assumes "env_ok N E" and "player_inv N pl" and "p_ps pl = PS_PLAYING" and "p_cs pl = CS_PLAYING"
    and "p_ip pl = Ip i" and "\<not> ip_is_remote i" and "\<not> p_repeat_current pl" and "p_cont pl"
    and "e_next_track E (p_tick pl) = Some ti" and "pi_ti (p_info pl) = Some cur"
    and "ti_album cur = None \<or> ti_album ti = None"
  shows "consumer_handle_eof E (pl\<lparr>p_cont_album := False\<rparr>) = None \<and>
    (\<exists>q. consumer_handle_eof E (pl\<lparr>p_cont_album := True\<rparr>) = Some q)"
proof -
  have c: "core N (pl\<lparr>p_cont_album := b\<rparr>)" for b using assms(2) by (simp add: player_inv_def core_defs)
  have s: "p_ps (pl\<lparr>p_cont_album := b\<rparr>) = PS_PLAYING" "p_cs (pl\<lparr>p_cont_album := b\<rparr>) = CS_PLAYING" for b
    using assms(3,4) by simp_all
  have "eof_fault E (pl\<lparr>p_cont_album := False\<rparr>)" "\<not> eof_fault E (pl\<lparr>p_cont_album := True\<rparr>)"
    using assms(5-11) by (simp_all add: eof_fault_def)
  with handle_eof_cases [OF assms(1) c s] show ?thesis by (auto simp: runs_ex)
qed

theorem eof_without_album_witness:
  "env_ok 2 example_env \<and> player_inv 2 example_player \<and>
   consumer_handle_eof example_env (example_player\<lparr>p_cont_album := False\<rparr>) = None \<and>
   (\<exists>q. consumer_handle_eof example_env (example_player\<lparr>p_cont_album := True\<rparr>) = Some q)"
  using eof_without_album [OF env_ok_smaller [OF example_env_ok] example_player_inv, of example_ip example_track example_track]
    env_ok_smaller [OF example_env_ok] example_player_inv
  by (auto simp: example_player_def example_ip_def player0_def example_env_def example_track_def player_info0_def
      ip_is_remote_def ip_new_def ip_init_def is_http_url_def)

text \<open>
  A defect of \<^verbatim>\<open>_prebuffer\<close>: its target is computed from the format alone, so it can exceed the number of chunks
  of the buffer; when the buffer is full the loop then asks the decoder for zero bytes, which aborts. With
  the option \<^verbatim>\<open>buffer_seconds=1\<close> the buffer has 3 chunks, while the target for six 32-bit channels at 192 kHz
  is 19 chunks.
\<close>

theorem prebuffer_full_aborts:
  assumes "buffer_inv (p_buf pl)" and "buffer_get_filled_chunks (p_buf pl) = Some (int (buffer_nr_chunks (p_buf pl)))"
    and "int (buffer_nr_chunks (p_buf pl)) < lmt"
  shows "prebuffer_loop E lmt pl = None \<and>
    (1 * (44100 * 16 div 8 * 2) + CHUNK_SIZE div 2) div CHUNK_SIZE = 3 \<and>
    limit_of (sf_bits 32 OR sf_signed 1 OR sf_rate 192000 OR sf_channels 6) = 19"
proof (intro conjI)
  obtain fs us where s: "ring_split (p_buf pl) fs us" "length fs + length us = buffer_nr_chunks (p_buf pl)"
    using assms(1) by (rule buffer_invE)
  then have "us = []" using get_filled_chunks_eq [OF assms(1) s(1)] assms(2) by simp
  then have "dropWhile c_filled (ring (p_buf pl)) = []" using ring_split_unique [OF s(1)] by simp
  then have "\<not> ring_split (p_buf pl) fs' (c # us')" for fs' c us' using ring_split_unique by fastforce
  then have "buffer_get_wpos (p_buf pl) = Some (0, None)" using get_wpos_cases [OF assms(1)] by blast
  then show "prebuffer_loop E lmt pl = None"
    using assms(2,3) by (subst prebuffer_loop.simps) (simp add: read_step_def ip_read_def the_ip_def bind_eq_None_conv split: ip_ref.split)
qed (simp_all add: CHUNK_SIZE_def limit_of_def sf_eval)

definition full_player :: player where
  "full_player = player0\<lparr>p_buf := \<lparr>buffer_chunks = [\<lparr>cdata = replicate CHUNK_SIZE 0, c_l = 0, c_h = 1, c_filled = True\<rparr>],
     buffer_nr_chunks = 1, buffer_ridx = 0, buffer_widx = 0\<rparr>\<rparr>"

theorem prebuffer_full_aborts_witness:
  "buffer_inv (p_buf full_player) \<and> buffer_get_filled_chunks (p_buf full_player) = Some 1 \<and>
   prebuffer_loop example_env 2 full_player = None"
proof -
  let ?c = "\<lparr>cdata = replicate CHUNK_SIZE 0, c_l = 0, c_h = 1, c_filled = True\<rparr>"
  have "ring_split (p_buf full_player) [?c] []"
    by (simp add: ring_split_def ring_def full_player_def)
  then have inv: "buffer_inv (p_buf full_player)"
    using CHUNK_SIZE_bounds by (intro buffer_invI [where fs = "[?c]" and us = "[]"]) (simp_all add: full_player_def chunk_ok_def)
  have fill: "buffer_get_filled_chunks (p_buf full_player) = Some 1"
    by (simp add: buffer_get_filled_chunks_def full_player_def chunk_at_def)
  show ?thesis
    using prebuffer_full_aborts [of full_player 2 example_env] inv fill by (simp add: full_player_def)
qed

text \<open>
  Where a seek goes: never before the start of the track; a relative seek forward stays within the
  duration or goes to the next track; an absolute seek stops five seconds before the end. The source's
  comment that a seek forward must be at least half a second is not what the code does: no such seek from
  a position inside of the track is refused.
\<close>

theorem seek_target_range:
  assumes "0 \<le> pos" and "0 \<le> duration"
  shows "(\<forall>p. seek_target offset rel pos duration = SeekTo p \<longrightarrow> 0 \<le> p \<and>
      (if rel then 0 < offset \<longrightarrow> p \<le> duration else p \<le> max 0 (duration - 5))) \<and>
    (rel \<and> 0 < offset \<longrightarrow> seek_target offset rel pos duration \<noteq> SeekNone)"
  using assms by (auto simp: seek_target_def Let_def split: if_splits)

theorem seek_target_range_witness:
  "seek_target 500 False 10 180 = SeekTo 175 \<and> seek_target 0.125 True 10 180 \<noteq> SeekNone"
  using seek_target_range [of 10 180 "0.125" True] by (simp add: seek_target_def)

end
