(* ===== verification/Spec2Isabelle.thy ===== *)
theory Spec2Isabelle
  imports Buffer Pcm Input Channel_Map Softvol Uchar Comment Compare Track_Info Glob Path Expr Short_Expr Filters Expr_Eval
    Simulation Rbtree Track_List Shuffle Editable Memory Cmdline Gbuf History Window Linked_List Mergesort Player Player_Safety Player_Steps
begin

text \<open>
  A verification library for graceful-music, a console music player in C (a fork of cmus). The paths below are
  relative to the repository.

  \<^bold>\<open>The program.\<close> The playback engine (\<^verbatim>\<open>src/app/player.c\<close>) runs a producer thread, which decodes the current
  file through an input plugin (\<^verbatim>\<open>src/app/input.c\<close>, with \<^verbatim>\<open>pcm.c\<close> to convert the samples) into a ring buffer of
  chunks (\<^verbatim>\<open>src/app/buffer.c\<close>), and a consumer thread, which takes the bytes from the buffer, scales
  them (software volume and replay gain) and writes them to the output plugin. The user interface stops, starts, pauses, seeks and
  changes files under the locks of both threads. Around the engine are the tracks with their tags and sort
  orders (\<^verbatim>\<open>track_info.c\<close>, \<^verbatim>\<open>comment.c\<close>, \<^verbatim>\<open>common/key-value.c\<close>), the UTF-8 strings (\<^verbatim>\<open>uchar.c\<close>), glob patterns for filters
  (\<^verbatim>\<open>glob.c\<close>), paths (\<^verbatim>\<open>path.c\<close>), linked lists and their sort (\<^verbatim>\<open>list.h\<close>, \<^verbatim>\<open>mergesort.c\<close>), and the library,
  playlists and views built from them.

  \<^bold>\<open>Conventions\<close> (theory \<open>Prelude\<close>). Each C function is one definition, with the same name where possible; state is passed
  explicitly. \<open>None\<close> in an option is a fault: a failed \<open>BUG_ON\<close>, an access out of bounds, a dereference of a null or
  freed pointer, a division by zero, signed overflow where the model tracks it, or a loop that does not end. Functions whose
  recursion is not structural have a termination proof; loops that may not end on arbitrary input are \<open>partial_function (option)\<close>,
  and the theorems show that they return. Values of code outside of the repository (the C library's collation and case tables, the decoder, the device,
  the operating system) are arguments, with what the code relies on as hypotheses.

  \<^bold>\<open>The theories.\<close>
  \<^item> \<open>Buffer\<close> is \<^verbatim>\<open>buffer.c\<close>: the record \<open>buffer\<close> holds the chunks and both indices, and each function is an atomic step
    under the buffer's mutex. The locale \<open>byte_queue\<close> is the interface of a bounded byte queue; the ring
    buffer is its interpretation, so that under any interleaving of the threads bytes come out in the order they went in,
    and a step of the one thread commutes with a step of the other.
  \<^item> \<open>Pcm\<close>, \<open>Input\<close>, \<open>Channel_Map\<close>: the packed sample format of \<^verbatim>\<open>common/sf.h\<close>, the converters of \<^verbatim>\<open>pcm.c\<close>, the state of an
    open input plugin (\<^verbatim>\<open>input.c\<close>) and the channel maps. Every supported format is converted to the exact
    sample values, a read never writes past the caller's buffer, and sample formats survive packing.
  \<^item> \<open>Softvol\<close>: the scaling of samples in \<^verbatim>\<open>player.c\<close>, with its rounding error, its clipping and its overflow.
  \<^item> \<open>Uchar\<close>: \<^verbatim>\<open>uchar.c\<close>. The validator accepts exactly the encodings of code points, encoding and decoding are inverse,
    no function reads behind the terminator, and folding, comparing and searching agree with their meaning on lists of code points.
  \<^item> \<open>Comment\<close>: the growing array of tags refines a finite map (locale \<open>kv_store\<close>), and dates are parsed in range.
  \<^item> \<open>Compare\<close>, \<open>Track_Info\<close>: comparison functions as the locale \<open>comparator\<close>, and \<^verbatim>\<open>track_info.c\<close>: the comparison of tracks by any
    list of sort keys meets the contract, sort keys are printed and parsed back, and searching finds all words.
  \<^item> \<open>Linked_List\<close>, \<open>Mergesort\<close>: the rings of \<^verbatim>\<open>list.h\<close> on a store of links, every operation refining the one on sequences,
    and the bottom-up merge sort on that store: it returns, sorts, keeps the order of equal nodes and
    touches no other node. It relies on a \<open>comparator\<close>; the order of playlists (\<^verbatim>\<open>pl.c\<close>) is one.
  \<^item> \<open>Glob\<close>: compiling, simplifying and matching of patterns decide the meaning of the pattern.
  \<^item> \<open>Path\<close>: making paths absolute computes the normal form of the path.
  \<^item> \<open>Expr\<close>, \<open>Short_Expr\<close>, \<open>Filters\<close>, \<open>Expr_Eval\<close>: filter expressions (\<^verbatim>\<open>expr.c\<close>) and the user defined filters (\<^verbatim>\<open>filters.c\<close>).
    The tokenizer and the parser, with the tree built in place, against a grammar (what is written down is parsed back); the short
    form as an automaton over a bounded buffer; the check of the leaves with the substitution of user defined filters, which
    always ends, against the relation \<open>resolves\<close>; selecting, activating and replacing filters, which keep the
    sorted list of filters; and evaluation on a track, which computes the truth value \<open>sat\<close> of the formula or faults exactly
    where a difference of integers overflows (\<open>overflows\<close>).
  \<^item> \<open>Simulation\<close> is the refinement shared by the next theories: the locale of a step that can fault and its meaning on an abstract
    state, and the one (\<open>exact_simulation\<close>) of steps that fault exactly where a condition fails. \<open>Memory\<close> has moves and stores in an allocation, with its bounds.
  \<^item> \<open>Cmdline\<close>, \<open>History\<close>, \<open>Gbuf\<close>: editing of the command line (\<^verbatim>\<open>cmdline.c\<close>) refines editing of a text with a cursor, and faults exactly where
    an inserted character fills the buffer; adding a line
    to the history (\<^verbatim>\<open>history.c\<close>) and searching it; growing buffers (\<^verbatim>\<open>gbuf.c\<close>) refine a byte string under appending,
    with the clipping of a text that does not fit its columns modelled but not proved.
  \<^item> \<open>Window\<close>: the windows of the interface (\<^verbatim>\<open>window.c\<close>) over the iterators of \<^verbatim>\<open>iter.h\<close>. The contract of the iterators is the locale
    \<open>row_iterators\<close>, and those of simple lists keep it. Every operation leaves the selected row inside of the window, where all
    rows can be selected and the bottom and the middle of the page are rows of the list.
  \<^item> \<open>Rbtree\<close>, \<open>Track_List\<close>, \<open>Shuffle\<close>: the red-black trees of \<^verbatim>\<open>rbtree.c\<close> on a store of nodes, whose operations refine those on a sequence
    and keep the tree balanced; the sorted lists of tracks of \<^verbatim>\<open>track.c\<close>, a ring of all tracks with a tree of the first of each group of equal
    ones, whose contract is the locale \<open>track_order\<close>, sorted again and walked in both directions; and the shuffled trees of tracks.
  \<^item> \<open>Editable\<close>: the lists of tracks that can be edited (\<^verbatim>\<open>editable.c\<close>), on \<open>Track_List\<close> and \<open>Window\<close>, and the play queue
    (\<^verbatim>\<open>play_queue.c\<close>). The record \<open>editable\<close> is a list with its counts, total time, marks and window. \<open>ed_holds\<close> is the invariant that ties them
    together; each operation but sorting again keeps it, up to the total time when a \<^verbatim>\<open>track_info\<close> is replaced; moving puts the marked tracks where it should, and the play queue refines a queue.
  \<^item> \<open>Player\<close>, \<open>Player_Safety\<close>, \<open>Player_Steps\<close>: the playback engine. \<open>Player\<close> is the model of \<^verbatim>\<open>player.c\<close>, with the answers of the
    environment (decoder, device, mixer, play queue) in the record \<open>env\<close>, indexed by the number of questions asked so far.
    \<open>Player_Safety\<close> states the invariant and gives one rule per function in a small calculus of total
    correctness (\<open>runs\<close>). \<open>Player_Steps\<close> composes them: the requests of the user interface and the rounds of both threads
    are the steps of the inductive relation \<open>reachable\<close>; in every reachable state the invariant holds, and \<open>faults\<close>
    says exactly which steps fault: a pause on a deleted handle, the end of a track without an album when \<^verbatim>\<open>continue_album\<close> is off,
    and an amplified sample that overflows. The unlocked test of \<^verbatim>\<open>player_pause\<close> is a step of its own. The environment is assumed to obey \<open>env_ok\<close>: an opened decoder names a format the player handles, whose quarter of a
    second fits in \<open>N\<close> chunks; a read returns whole frames and at most what was asked for; a decoder does not ask to try again forever;
    the device writes at most what it is given. The buffer is never set to fewer than \<open>N\<close> chunks, as a smaller one can abort prebuffering.

  \<^bold>\<open>Bounds and fuel.\<close> The parser of expressions has three mutually recursive functions with a common bound on the depth of calls,
  three for each token and three more, which is shown to be enough for every list of tokens. Nothing else has fuel. Shuffling is a loop that starts again while a random number
  is taken; it is shown to end when any fewer values than there are tracks are left some time. Prebuffering is a \<open>partial_function\<close>, shown to end because every decoder answers at
  some time and the buffer fills up. The counters of the merge sort are natural numbers, exact as C integers for lists of up to \<open>2 ^ 30\<close> nodes.
  The theorems on the player assume \<open>N \<le> 29\<close>, the number of chunks the player starts with.

  \<^bold>\<open>Errors found.\<close> Some theorems state faults of the code: pausing uses a freed handle after a failed reopen, the end of a
  file without an album faults, a full buffer aborts prebuffering, a 16 bit sample with a large gain overflows, one of the two channel map
  decoders never yields a valid map, the printed size of a string is too small, modification times far apart compare
  wrongly, a glob pattern may read behind the end of the string, the expansion of the short expression \<open>~A\<close> writes behind its
  buffer, a filter used twice is refused as recursive, comparing the duration of a stream may overflow, the command line and
  the growing buffers may write behind their allocations, a line added to the history during a search frees the
  entry searched from, a list sorted again keeps tree nodes that are not cleared, so that removing a track can lose the tree, the total time of a list goes wrong when the length
  of a track is updated, and going to the bottom of the page runs past the end of a short list.

  \<^bold>\<open>Not modelled.\<close> The library and its views (\<^verbatim>\<open>lib.c\<close>, \<^verbatim>\<open>tree.c\<close>, most of \<^verbatim>\<open>pl.c\<close>),
  format strings (\<^verbatim>\<open>format_print.c\<close>), tab completion (\<^verbatim>\<open>tabexp.c\<close>), CUE sheets, and ID3 and APE tags are left for later. Commands and options are tables
  over these parts. The decoders, output drivers, curses interface, network and operating system wrappers are input and output,
  or bindings to other libraries, and have no model.
\<close>

end
